(* ===== verification/Prelude.thy ===== *)
theory Prelude
  imports Main "HOL-Library.Word"
begin

text \<open>
  Shared vocabulary of the development: bytes as characters, the C string conventions,
  the ways a C function can fault, the collections of rewrite rules that the component
  theories fill, and the generic facts on lists and words that their proofs share.
\<close>

unbundle bit_operations_syntax

section \<open>Collections\<close>

named_theorems char_simps \<open>facts on the character classes of the C macros\<close>
named_theorems handler_defs \<open>definitions of the per-state handlers of the parser\<close>
named_theorems frame_simps \<open>what an operation leaves unchanged\<close>

section \<open>Faults\<close>

text \<open>
  What the C code must never do, as values: a failed \<open>assert\<close>, a read outside an
  object, a signed integer overflow. The last one is not a fault of the code: it stands for an
  allocation that fails where the code stops because of it.
\<close>

datatype fault = Assertion_failed | Out_of_bounds | Signed_overflow | Out_of_memory

section \<open>Bytes\<close>

text \<open>
  A byte of a C buffer is an Isabelle \<open>char\<close>. \<open>ord\<close> reads it as an
  \<open>unsigned char\<close>.
\<close>

definition ord :: "char \<Rightarrow> nat" where
  "ord c = of_char c"

abbreviation NUL :: char where
  "NUL \<equiv> CHR 0x00"

lemma ord_less: "ord c < 256"
  by (simp add: ord_def)

lemma ord_inject [simp]: "ord c = ord d \<longleftrightarrow> c = d"
  by (simp add: ord_def of_char_eq_iff)

text \<open>
  The value \<open>ch - '0'\<close>, computed in \<open>int\<close> as C's integer promotion does.
\<close>

definition digit_value :: "char \<Rightarrow> int" where
  "digit_value c = int (ord c) - 48"

text \<open>A statement on one byte is decided by its eight bits.\<close>

lemma byte_cases:
  assumes "\<forall>b0 b1 b2 b3 b4 b5 b6 b7. P (Char b0 b1 b2 b3 b4 b5 b6 b7)"
  shows "P c"
  using assms by (cases c) simp

lemma ord_eq_code: "n < 256 \<Longrightarrow> ord c = n \<longleftrightarrow> c = char_of n"
  by (auto simp: ord_def)

text \<open>
  A table of 256 entries whose initialiser gives the first 128 is checked entry by
  entry, on the code of the byte; the entries that C fills in are all \<open>z\<close>.
\<close>

primrec table_ok :: "(nat \<Rightarrow> 'a \<Rightarrow> bool) \<Rightarrow> nat \<Rightarrow> 'a list \<Rightarrow> bool" where
  "table_ok Q i [] = True"
| "table_ok Q i (x # xs) = (Q i x \<and> table_ok Q (i + 1) xs)"

lemma table_ok_nth: "table_ok Q i t \<Longrightarrow> k < length t \<Longrightarrow> Q (i + k) (t ! k)"
proof (induction t arbitrary: i k)
  case Nil
  then show ?case by simp
next
  case (Cons x xs)
  then show ?case
    by (cases k) (auto dest!: Cons.IH)
qed

lemma table_entry:
  assumes low: "table_ok Q 0 t" and len: "length t = 128"
    and high: "128 \<le> ord c \<Longrightarrow> Q (ord c) z"
  shows "Q (ord c) ((t @ replicate 128 z) ! ord c)"
  using table_ok_nth [OF low, of "ord c"] len high ord_less [of c]
  by (cases "ord c < 128") (auto simp: nth_append)

section \<open>Reading memory\<close>

text \<open>A read of a buffer: \<open>None\<close> outside it.\<close>

definition read_byte :: "char list \<Rightarrow> nat \<Rightarrow> char option" where
  "read_byte buf i = (if i < length buf then Some (buf ! i) else None)"

text \<open>A read of a NUL-terminated string literal, whose terminator may be read too.\<close>

definition read_cstring :: "string \<Rightarrow> nat \<Rightarrow> char option" where
  "read_cstring s i = read_byte (s @ [NUL]) i"

text \<open>The bytes \<open>[i, i + n)\<close> of a buffer, as a callback receives them.\<close>

definition byte_range :: "nat \<Rightarrow> nat \<Rightarrow> char list \<Rightarrow> char list" where
  "byte_range i n buf = take n (drop i buf)"

lemma read_byte_Some [simp]: "i < length buf \<Longrightarrow> read_byte buf i = Some (buf ! i)"
  by (simp add: read_byte_def)

lemma read_byte_eq_None [simp]: "read_byte buf i = None \<longleftrightarrow> length buf \<le> i"
  by (simp add: read_byte_def)

lemma read_cstring_nth: "i < length s \<Longrightarrow> read_cstring s i = Some (s ! i)"
  by (simp add: read_cstring_def read_byte_def nth_append)

lemma read_cstring_end: "read_cstring s (length s) = Some NUL"
  by (simp add: read_cstring_def read_byte_def)

lemma length_byte_range [simp]: "length (byte_range i n buf) = min n (length buf - i)"
  by (simp add: byte_range_def)

lemma byte_range_append_middle: "byte_range (length xs) (length ys) (xs @ ys @ zs) = ys"
  by (simp add: byte_range_def)

lemma nth_append_middle: "(xs @ y # zs) ! length xs = y"
  by simp

end
