(* ===== verification/Http_Types.thy ===== *)
theory Http_Types
  imports Prelude
begin

text \<open>
  The data of the HTTP parser (\<open>src/base/http/c/http_parser.h\<close> and the tables at the
  head of \<open>http_parser.c\<close>): its enumerations, the parser and settings structs, the
  character tables with their macros, and the names of methods and errors.
\<close>

section \<open>Enumerations\<close>

datatype (plugins only: code size) http_method =
    HTTP_DELETE | HTTP_GET | HTTP_HEAD | HTTP_POST | HTTP_PUT
  | HTTP_CONNECT | HTTP_OPTIONS | HTTP_TRACE
  | HTTP_COPY | HTTP_LOCK | HTTP_MKCOL | HTTP_MOVE | HTTP_PROPFIND
  | HTTP_PROPPATCH | HTTP_UNLOCK
  | HTTP_REPORT | HTTP_MKACTIVITY | HTTP_CHECKOUT | HTTP_MERGE
  | HTTP_MSEARCH | HTTP_NOTIFY | HTTP_SUBSCRIBE | HTTP_UNSUBSCRIBE
  | HTTP_PATCH

datatype http_parser_type = HTTP_REQUEST | HTTP_RESPONSE | HTTP_BOTH

text \<open>The flag bits live in a 6-bit field.\<close>

definition F_CHUNKED :: "6 word" where "F_CHUNKED = 1"
definition F_TRAILING :: "6 word" where "F_TRAILING = 8"
definition F_UPGRADE :: "6 word" where "F_UPGRADE = 16"
definition F_SKIPBODY :: "6 word" where "F_SKIPBODY = 32"

datatype (plugins only: code size) http_errno =
    HPE_OK
  | HPE_CB_message_begin | HPE_CB_path | HPE_CB_query_string | HPE_CB_url
  | HPE_CB_fragment | HPE_CB_header_field | HPE_CB_header_value
  | HPE_CB_headers_complete | HPE_CB_body | HPE_CB_message_complete
  | HPE_CB_reason | HPE_CB_chunk_header | HPE_CB_chunk_complete
  | HPE_INVALID_EOF_STATE | HPE_HEADER_OVERFLOW | HPE_CLOSED_CONNECTION
  | HPE_INVALID_VERSION | HPE_INVALID_STATUS | HPE_INVALID_METHOD
  | HPE_INVALID_URL | HPE_INVALID_HOST | HPE_INVALID_PORT | HPE_INVALID_PATH
  | HPE_INVALID_QUERY_STRING | HPE_INVALID_FRAGMENT | HPE_LF_EXPECTED
  | HPE_INVALID_HEADER_TOKEN | HPE_INVALID_CONTENT_LENGTH
  | HPE_HUGE_CONTENT_LENGTH | HPE_INVALID_CHUNK_SIZE | HPE_HUGE_CHUNK_SIZE
  | HPE_INVALID_CONSTANT | HPE_INVALID_INTERNAL_STATE | HPE_STRICT
  | HPE_PAUSED | HPE_UNKNOWN

text \<open>The states of the parser, in the order of \<open>enum state\<close>.\<close>

datatype (plugins only: code size) http_state =
    s_dead
  | s_pre_start_req_or_res | s_start_req_or_res | s_res_or_resp_H
  | s_pre_start_res | s_start_res | s_res_H | s_res_HT | s_res_HTT | s_res_HTTP
  | s_res_first_http_major | s_res_http_major | s_res_first_http_minor
  | s_res_http_minor | s_res_first_status_code | s_res_status_code
  | s_res_status_start | s_res_status | s_res_line_almost_done
  | s_pre_start_req | s_start_req | s_req_method | s_req_spaces_before_url
  | s_req_schema | s_req_schema_slash | s_req_schema_slash_slash
  | s_req_server_start | s_req_server | s_req_server_with_at | s_req_host_start
  | s_req_host | s_req_host_ipv6 | s_req_host_done | s_req_port | s_req_path
  | s_req_query_string_start | s_req_query_string | s_req_fragment_start
  | s_req_fragment | s_req_http_start | s_req_http_H | s_req_http_HT
  | s_req_http_HTT | s_req_http_HTTP | s_req_first_http_major | s_req_http_major
  | s_req_first_http_minor | s_req_http_minor | s_req_line_almost_done
  | s_header_field_start | s_header_field | s_header_value_start | s_header_value
  | s_header_value_lws
  | s_header_almost_done
  | s_chunk_size_start | s_chunk_size | s_chunk_parameters
  | s_chunk_size_almost_done
  | s_headers_almost_done | s_headers_done
  | s_chunk_data | s_chunk_data_almost_done | s_chunk_data_done
  | s_body_identity | s_body_identity_eof
  | s_message_done

text \<open>
  \<open>PARSING_HEADER(state)\<close> is \<open>state <= s_headers_done\<close>: the states after it in the
  enumeration are the body states.
\<close>

definition PARSING_HEADER :: "http_state \<Rightarrow> bool" where
  "PARSING_HEADER s \<longleftrightarrow>
     s \<noteq> s_chunk_data \<and> s \<noteq> s_chunk_data_almost_done \<and> s \<noteq> s_chunk_data_done \<and>
     s \<noteq> s_body_identity \<and> s \<noteq> s_body_identity_eof \<and> s \<noteq> s_message_done"

datatype header_states =
    h_general
  | h_general_and_quote | h_general_and_quote_and_escape
  | h_matching_content_length | h_matching_transfer_encoding | h_matching_upgrade
  | h_content_length | h_transfer_encoding | h_upgrade
  | h_matching_transfer_encoding_chunked
  | h_transfer_encoding_chunked

datatype http_host_state =
    s_http_host_dead | s_http_userinfo_start | s_http_userinfo | s_http_host_start
  | s_http_host_v6_start | s_http_host | s_http_host_v6 | s_http_host_v6_end
  | s_http_host_port_start | s_http_host_port

section \<open>The parser and its settings\<close>

text \<open>
  \<open>struct http_parser\<close>. The fields keep their widths; \<open>content_length\<close> is an
  \<open>int64_t\<close>, kept as an \<open>int\<close> whose updates check the range (signed overflow is a
  fault). \<open>req_method\<close> is the field \<open>method\<close>, \<open>user_data\<close> the field \<open>data\<close>.
\<close>

record 'u http_parser =
  parser_type :: http_parser_type
  flags :: "6 word"
  state :: http_state
  header_state :: header_states
  index :: "8 word"
  nread :: "32 word"
  content_length :: int
  http_major :: "16 word"
  http_minor :: "16 word"
  status_code :: "16 word"
  req_method :: http_method
  http_errno :: http_errno
  upgrade :: bool
  user_data :: 'u

text \<open>
  A callback receives the parser and returns an integer; it may change what the
  parser pointer reaches, so it also returns the parser. A data callback receives the
  bytes it is given; \<open>on_headers_complete\<close> is passed a null pointer and a size.
\<close>

type_synonym 'u http_cb = "'u http_parser \<Rightarrow> int \<times> 'u http_parser"
type_synonym 'u http_data_cb = "'u http_parser \<Rightarrow> string \<Rightarrow> int \<times> 'u http_parser"

record 'u http_parser_settings =
  on_message_begin :: "'u http_cb"
  on_url :: "'u http_data_cb"
  on_header_field :: "'u http_data_cb"
  on_header_value :: "'u http_data_cb"
  on_headers_complete :: "'u http_parser \<Rightarrow> nat \<Rightarrow> int \<times> 'u http_parser"
  on_body :: "'u http_data_cb"
  on_message_complete :: "'u http_cb"
  on_reason :: "'u http_data_cb"
  on_chunk_header :: "'u http_cb"
  on_chunk_complete :: "'u http_cb"

section \<open>Names\<close>

text \<open>The table \<open>method_strings\<close>, read through \<open>http_method_str\<close>.\<close>

fun http_method_str :: "http_method \<Rightarrow> string" where
  "http_method_str HTTP_DELETE = ''DELETE''"
| "http_method_str HTTP_GET = ''GET''"
| "http_method_str HTTP_HEAD = ''HEAD''"
| "http_method_str HTTP_POST = ''POST''"
| "http_method_str HTTP_PUT = ''PUT''"
| "http_method_str HTTP_CONNECT = ''CONNECT''"
| "http_method_str HTTP_OPTIONS = ''OPTIONS''"
| "http_method_str HTTP_TRACE = ''TRACE''"
| "http_method_str HTTP_COPY = ''COPY''"
| "http_method_str HTTP_LOCK = ''LOCK''"
| "http_method_str HTTP_MKCOL = ''MKCOL''"
| "http_method_str HTTP_MOVE = ''MOVE''"
| "http_method_str HTTP_PROPFIND = ''PROPFIND''"
| "http_method_str HTTP_PROPPATCH = ''PROPPATCH''"
| "http_method_str HTTP_UNLOCK = ''UNLOCK''"
| "http_method_str HTTP_REPORT = ''REPORT''"
| "http_method_str HTTP_MKACTIVITY = ''MKACTIVITY''"
| "http_method_str HTTP_CHECKOUT = ''CHECKOUT''"
| "http_method_str HTTP_MERGE = ''MERGE''"
| "http_method_str HTTP_MSEARCH = ''M-SEARCH''"
| "http_method_str HTTP_NOTIFY = ''NOTIFY''"
| "http_method_str HTTP_SUBSCRIBE = ''SUBSCRIBE''"
| "http_method_str HTTP_UNSUBSCRIBE = ''UNSUBSCRIBE''"
| "http_method_str HTTP_PATCH = ''PATCH''"

text \<open>
  The table \<open>http_strerror_tab\<close> that \<open>HTTP_ERRNO_MAP\<close> generates: the name of an
  error is its constant, with a description beside it.
\<close>

fun http_strerror_tab :: "http_errno \<Rightarrow> string \<times> string" where
  "http_strerror_tab HPE_OK = (''HPE_OK'', ''success'')"
| "http_strerror_tab HPE_CB_message_begin =
     (''HPE_CB_message_begin'', ''the on_message_begin callback failed'')"
| "http_strerror_tab HPE_CB_path = (''HPE_CB_path'', ''the on_path callback failed'')"
| "http_strerror_tab HPE_CB_query_string =
     (''HPE_CB_query_string'', ''the on_query_string callback failed'')"
| "http_strerror_tab HPE_CB_url = (''HPE_CB_url'', ''the on_url callback failed'')"
| "http_strerror_tab HPE_CB_fragment =
     (''HPE_CB_fragment'', ''the on_fragment callback failed'')"
| "http_strerror_tab HPE_CB_header_field =
     (''HPE_CB_header_field'', ''the on_header_field callback failed'')"
| "http_strerror_tab HPE_CB_header_value =
     (''HPE_CB_header_value'', ''the on_header_value callback failed'')"
| "http_strerror_tab HPE_CB_headers_complete =
     (''HPE_CB_headers_complete'', ''the on_headers_complete callback failed'')"
| "http_strerror_tab HPE_CB_body = (''HPE_CB_body'', ''the on_body callback failed'')"
| "http_strerror_tab HPE_CB_message_complete =
     (''HPE_CB_message_complete'', ''the on_message_complete callback failed'')"
| "http_strerror_tab HPE_CB_reason =
     (''HPE_CB_reason'', ''the on_reason callback failed'')"
| "http_strerror_tab HPE_CB_chunk_header =
     (''HPE_CB_chunk_header'', ''the on_chunk_header callback failed'')"
| "http_strerror_tab HPE_CB_chunk_complete =
     (''HPE_CB_chunk_complete'', ''the on_chunk_complete callback failed'')"
| "http_strerror_tab HPE_INVALID_EOF_STATE =
     (''HPE_INVALID_EOF_STATE'', ''stream ended at an unexpected time'')"
| "http_strerror_tab HPE_HEADER_OVERFLOW =
     (''HPE_HEADER_OVERFLOW'', ''too many header bytes seen; overflow detected'')"
| "http_strerror_tab HPE_CLOSED_CONNECTION =
     (''HPE_CLOSED_CONNECTION'',
      ''data received after completed connection: close message'')"
| "http_strerror_tab HPE_INVALID_VERSION =
     (''HPE_INVALID_VERSION'', ''invalid HTTP version'')"
| "http_strerror_tab HPE_INVALID_STATUS =
     (''HPE_INVALID_STATUS'', ''invalid HTTP status code'')"
| "http_strerror_tab HPE_INVALID_METHOD =
     (''HPE_INVALID_METHOD'', ''invalid HTTP method'')"
| "http_strerror_tab HPE_INVALID_URL = (''HPE_INVALID_URL'', ''invalid URL'')"
| "http_strerror_tab HPE_INVALID_HOST = (''HPE_INVALID_HOST'', ''invalid host'')"
| "http_strerror_tab HPE_INVALID_PORT = (''HPE_INVALID_PORT'', ''invalid port'')"
| "http_strerror_tab HPE_INVALID_PATH = (''HPE_INVALID_PATH'', ''invalid path'')"
| "http_strerror_tab HPE_INVALID_QUERY_STRING =
     (''HPE_INVALID_QUERY_STRING'', ''invalid query string'')"
| "http_strerror_tab HPE_INVALID_FRAGMENT =
     (''HPE_INVALID_FRAGMENT'', ''invalid fragment'')"
| "http_strerror_tab HPE_LF_EXPECTED = (''HPE_LF_EXPECTED'', ''LF character expected'')"
| "http_strerror_tab HPE_INVALID_HEADER_TOKEN =
     (''HPE_INVALID_HEADER_TOKEN'', ''invalid character in header'')"
| "http_strerror_tab HPE_INVALID_CONTENT_LENGTH =
     (''HPE_INVALID_CONTENT_LENGTH'', ''invalid character in content-length header'')"
| "http_strerror_tab HPE_HUGE_CONTENT_LENGTH =
     (''HPE_HUGE_CONTENT_LENGTH'', ''content-length header too large'')"
| "http_strerror_tab HPE_INVALID_CHUNK_SIZE =
     (''HPE_INVALID_CHUNK_SIZE'', ''invalid character in chunk size header'')"
| "http_strerror_tab HPE_HUGE_CHUNK_SIZE =
     (''HPE_HUGE_CHUNK_SIZE'', ''chunk header size too large'')"
| "http_strerror_tab HPE_INVALID_CONSTANT =
     (''HPE_INVALID_CONSTANT'', ''invalid constant string'')"
| "http_strerror_tab HPE_INVALID_INTERNAL_STATE =
     (''HPE_INVALID_INTERNAL_STATE'', ''encountered unexpected internal state'')"
| "http_strerror_tab HPE_STRICT = (''HPE_STRICT'', ''strict mode assertion failed'')"
| "http_strerror_tab HPE_PAUSED = (''HPE_PAUSED'', ''parser is paused'')"
| "http_strerror_tab HPE_UNKNOWN = (''HPE_UNKNOWN'', ''an unknown error occurred'')"

definition http_errno_name :: "http_errno \<Rightarrow> string" where
  "http_errno_name err = fst (http_strerror_tab err)"

definition http_errno_description :: "http_errno \<Rightarrow> string" where
  "http_errno_description err = snd (http_strerror_tab err)"

end
