(* ===== verification/Http_Chars.thy ===== *)
theory Http_Chars
  imports Http_Types
begin

text \<open>
  The character tables and classes of \<open>http_parser.c\<close>, in the build the repository
  makes (\<open>HTTP_PARSER_STRICT\<close> is 0), and what each class holds.
\<close>

section \<open>The tables\<close>

text \<open>Each table gives 128 entries; C fills the other 128 with zeros.\<close>

definition tokens :: "char list" where
  "tokens =
     ([NUL, NUL, NUL, NUL, NUL, NUL, NUL, NUL,
       NUL, NUL, NUL, NUL, NUL, NUL, NUL, NUL,
       NUL, NUL, NUL, NUL, NUL, NUL, NUL, NUL,
       NUL, NUL, NUL, NUL, NUL, NUL, NUL, NUL] @
      '' !'' @ [CHR 0x22] @ ''#$%&'' @ [CHR 0x27] @
      [NUL, NUL] @ ''*+'' @ [NUL] @ ''-./'' @
      ''01234567'' @
      ''89'' @ [NUL, NUL, NUL, NUL, NUL, NUL] @
      [NUL] @ ''abcdefg'' @
      ''hijklmno'' @
      ''pqrstuvw'' @
      ''xyz'' @ [NUL, NUL, NUL] @ ''^_'' @
      [CHR 0x60] @ ''abcdefg'' @
      ''hijklmno'' @
      ''pqrstuvw'' @
      ''xyz'' @ [NUL] @ ''|}~'' @ [NUL])
     @ replicate 128 NUL"

definition unhex :: "int list" where
  "unhex =
     [-1, -1, -1, -1, -1, -1, -1, -1, -1, -1, -1, -1, -1, -1, -1, -1,
      -1, -1, -1, -1, -1, -1, -1, -1, -1, -1, -1, -1, -1, -1, -1, -1,
      -1, -1, -1, -1, -1, -1, -1, -1, -1, -1, -1, -1, -1, -1, -1, -1,
      0, 1, 2, 3, 4, 5, 6, 7, 8, 9, -1, -1, -1, -1, -1, -1,
      -1, 10, 11, 12, 13, 14, 15, -1, -1, -1, -1, -1, -1, -1, -1, -1,
      -1, -1, -1, -1, -1, -1, -1, -1, -1, -1, -1, -1, -1, -1, -1, -1,
      -1, 10, 11, 12, 13, 14, 15, -1, -1, -1, -1, -1, -1, -1, -1, -1,
      -1, -1, -1, -1, -1, -1, -1, -1, -1, -1, -1, -1, -1, -1, -1, -1]
     @ replicate 128 0"

definition normal_url_char :: "nat list" where
  "normal_url_char =
     [0, 0, 0, 0, 0, 0, 0, 0,
      0, 1, 0, 0, 1, 0, 0, 0,
      0, 0, 0, 0, 0, 0, 0, 0,
      0, 0, 0, 0, 0, 0, 0, 0,
      0, 1, 1, 0, 1, 1, 1, 1,
      1, 1, 1, 1, 1, 1, 1, 1,
      1, 1, 1, 1, 1, 1, 1, 1,
      1, 1, 1, 1, 1, 1, 1, 0,
      1, 1, 1, 1, 1, 1, 1, 1,
      1, 1, 1, 1, 1, 1, 1, 1,
      1, 1, 1, 1, 1, 1, 1, 1,
      1, 1, 1, 1, 1, 1, 1, 1,
      1, 1, 1, 1, 1, 1, 1, 1,
      1, 1, 1, 1, 1, 1, 1, 1,
      1, 1, 1, 1, 1, 1, 1, 1,
      1, 1, 1, 1, 1, 1, 1, 0]
     @ replicate 128 0"

section \<open>The macros\<close>

abbreviation CR :: char where "CR \<equiv> CHR 0x0D"
abbreviation LF :: char where "LF \<equiv> CHR 0x0A"
abbreviation QT :: char where "QT \<equiv> CHR 0x22"
abbreviation BS :: char where "BS \<equiv> CHR 0x5C"
abbreviation HT :: char where "HT \<equiv> CHR 0x09"

text \<open>\<open>(unsigned char)(c | 0x20)\<close> sets bit 5.\<close>

fun LOWER :: "char \<Rightarrow> char" where
  "LOWER (Char b0 b1 b2 b3 b4 b5 b6 b7) = Char b0 b1 b2 b3 b4 True b6 b7"

definition TOKEN :: "char \<Rightarrow> char" where
  "TOKEN c = tokens ! ord c"

definition IS_ALPHA :: "char \<Rightarrow> bool" where
  "IS_ALPHA c \<longleftrightarrow> 97 \<le> ord (LOWER c) \<and> ord (LOWER c) \<le> 122"

definition IS_NUM :: "char \<Rightarrow> bool" where
  "IS_NUM c \<longleftrightarrow> 48 \<le> ord c \<and> ord c \<le> 57"

definition IS_ALPHANUM :: "char \<Rightarrow> bool" where
  "IS_ALPHANUM c \<longleftrightarrow> IS_ALPHA c \<or> IS_NUM c"

definition IS_HEX :: "char \<Rightarrow> bool" where
  "IS_HEX c \<longleftrightarrow> IS_NUM c \<or> (97 \<le> ord (LOWER c) \<and> ord (LOWER c) \<le> 102)"

definition IS_MARK :: "char \<Rightarrow> bool" where
  "IS_MARK c \<longleftrightarrow>
     c = CHR ''-'' \<or> c = CHR ''_'' \<or> c = CHR ''.'' \<or> c = CHR ''!'' \<or> c = CHR ''~'' \<or>
     c = CHR ''*'' \<or> c = CHR 0x27 \<or> c = CHR ''('' \<or> c = CHR '')''"

definition IS_USERINFO_CHAR :: "char \<Rightarrow> bool" where
  "IS_USERINFO_CHAR c \<longleftrightarrow>
     IS_ALPHANUM c \<or> IS_MARK c \<or> c = CHR ''%'' \<or> c = CHR '';'' \<or> c = CHR '':'' \<or>
     c = CHR ''&'' \<or> c = CHR ''='' \<or> c = CHR ''+'' \<or> c = CHR ''$'' \<or> c = CHR '',''"

text \<open>A byte with its high bit set counts as a URL character.\<close>

definition IS_URL_CHAR :: "char \<Rightarrow> bool" where
  "IS_URL_CHAR c \<longleftrightarrow> normal_url_char ! ord c \<noteq> 0 \<or> 128 \<le> ord c"

definition IS_HOST_CHAR :: "char \<Rightarrow> bool" where
  "IS_HOST_CHAR c \<longleftrightarrow> IS_ALPHANUM c \<or> c = CHR ''.'' \<or> c = CHR ''-'' \<or> c = CHR ''_''"

section \<open>What the tables and classes hold\<close>

text \<open>The macro \<open>LOWER\<close> is the bitwise or with \<open>0x20\<close>.\<close>

lemma ord_LOWER: "ord (LOWER c) = ord c OR 32"
  by (rule byte_cases)
    (simp add: all_bool_eq ord_def del: One_nat_def add_2_eq_Suc add_2_eq_Suc')

lemma IS_ALPHA_iff [char_simps]:
  "IS_ALPHA c \<longleftrightarrow> (65 \<le> ord c \<and> ord c \<le> 90) \<or> (97 \<le> ord c \<and> ord c \<le> 122)"
  by (rule byte_cases) (simp add: all_bool_eq IS_ALPHA_def ord_def)

lemma IS_HEX_iff [char_simps]:
  "IS_HEX c \<longleftrightarrow> (48 \<le> ord c \<and> ord c \<le> 57) \<or> (65 \<le> ord c \<and> ord c \<le> 70) \<or>
     (97 \<le> ord c \<and> ord c \<le> 102)"
  by (rule byte_cases) (simp add: all_bool_eq IS_HEX_def IS_NUM_def ord_def)

text \<open>
  The bytes that the parser takes in a header name, by their codes: besides the token
  characters of RFC 2616 the table admits the space (32), the double quote (34) and the
  slash (47).
\<close>

lemma TOKEN_nonzero_iff:
  "TOKEN c \<noteq> NUL \<longleftrightarrow> ord c < 128 \<and>
     ((65 \<le> ord c \<and> ord c \<le> 90) \<or> (97 \<le> ord c \<and> ord c \<le> 122) \<or>
      (48 \<le> ord c \<and> ord c \<le> 57) \<or>
      ord c \<in> set [32, 33, 34, 35, 36, 37, 38, 39, 42, 43, 45, 46, 47, 94, 95, 96, 124, 125, 126])"
  unfolding TOKEN_def tokens_def
  by (rule table_entry [where Q = "\<lambda>n t. t \<noteq> NUL \<longleftrightarrow> n < 128 \<and>
      ((65 \<le> n \<and> n \<le> 90) \<or> (97 \<le> n \<and> n \<le> 122) \<or> (48 \<le> n \<and> n \<le> 57) \<or>
       n \<in> set [32, 33, 34, 35, 36, 37, 38, 39, 42, 43, 45, 46, 47, 94, 95, 96, 124, 125, 126])"])
    (simp_all del: One_nat_def)

text \<open>A token character is lowered: letters are folded, everything else is kept.\<close>

lemma TOKEN_value:
  assumes "TOKEN c \<noteq> NUL"
  shows "TOKEN c = (if IS_ALPHA c then LOWER c else c)"
proof -
  have "(\<lambda>n t. t \<noteq> NUL \<longrightarrow> ord t = (if 65 \<le> n \<and> n \<le> 90 then n + 32 else n))
      (ord c) (tokens ! ord c)"
    unfolding tokens_def
    by (rule table_entry) (simp_all add: ord_def del: One_nat_def)
  then have "ord (TOKEN c) = (if 65 \<le> ord c \<and> ord c \<le> 90 then ord c + 32 else ord c)"
    using assms by (simp add: TOKEN_def)
  also have "\<dots> = ord (if IS_ALPHA c then LOWER c else c)"
    by (rule byte_cases [of _ c]) (simp add: all_bool_eq IS_ALPHA_def ord_def)
  finally show ?thesis by (simp only: ord_inject)
qed

lemma IS_URL_CHAR_iff:
  "IS_URL_CHAR c \<longleftrightarrow>
     128 \<le> ord c \<or> (33 \<le> ord c \<and> ord c < 127 \<and> ord c \<noteq> 35 \<and> ord c \<noteq> 63) \<or>
     ord c = 9 \<or> ord c = 12"
proof -
  have "(\<lambda>n t. t \<noteq> 0 \<longleftrightarrow> (33 \<le> n \<and> n < 127 \<and> n \<noteq> 35 \<and> n \<noteq> 63) \<or> n = 9 \<or> n = 12)
      (ord c) (normal_url_char ! ord c)"
    unfolding normal_url_char_def
    by (rule table_entry) (simp_all del: One_nat_def)
  then show ?thesis
    unfolding IS_URL_CHAR_def by blast
qed

text \<open>
  The value of a hexadecimal digit. The bytes with the high bit set lie in the half of
  the table without initialisers, so they read as the digit 0.
\<close>

definition hex_value :: "nat \<Rightarrow> int option" where
  "hex_value n =
     (if 48 \<le> n \<and> n \<le> 57 then Some (int n - 48)
      else if 65 \<le> n \<and> n \<le> 70 then Some (int n - 55)
      else if 97 \<le> n \<and> n \<le> 102 then Some (int n - 87)
      else None)"

lemma unhex_eq:
  "unhex ! ord c =
     (if 128 \<le> ord c then 0 else case hex_value (ord c) of Some v \<Rightarrow> v | None \<Rightarrow> -1)"
proof -
  have "(\<lambda>n t. t = (if 128 \<le> n then 0 else case hex_value n of Some v \<Rightarrow> v | None \<Rightarrow> -1))
      (ord c) (unhex ! ord c)"
    unfolding unhex_def
    by (rule table_entry) (simp_all add: hex_value_def del: One_nat_def)
  then show ?thesis by simp
qed

lemma unhex_range: "-1 \<le> unhex ! ord c" "unhex ! ord c \<le> 15"
  by (auto simp: unhex_eq hex_value_def)

lemma IS_NUM_digit_value: "IS_NUM c \<Longrightarrow> 0 \<le> digit_value c \<and> digit_value c \<le> 9"
  by (simp add: IS_NUM_def digit_value_def)

end
