(* ===== verification/Http_Frame.thy ===== *)
theory Http_Frame
  imports Http_Chars
begin

text \<open>
  \<open>http_parser_execute\<close> of \<open>src/base/http/c/http_parser.c\<close>. A \<open>'u exec\<close> is the frame
  of one call: the parser, the local copy of its state, the read position, the five
  \<open>*_mark\<close> pointers and \<open>data_or_header_data_start\<close> (pointers into the buffer are
  offsets). Each \<open>case s_...:\<close> of the switch is one definition; how control leaves it is
  an \<open>outcome\<close>: \<open>break\<close>, \<open>goto reexecute_byte\<close>, \<open>return\<close>, \<open>goto error\<close>, or a fault.
\<close>

section \<open>The frame of a call\<close>

text \<open>The token \<open>FOR\<close> of the data callback macros.\<close>

datatype data_cb = header_field | header_value | url | reason | body

record 'u exec =
  parser :: "'u http_parser"
  local_state :: http_state
  pos :: nat
  marks :: "data_cb \<Rightarrow> nat option"
  header_data_start :: nat

datatype 'u outcome =
    Break "'u exec"
  | Reexecute char "'u exec"
  | Return nat "'u http_parser"
  | Goto_error "'u exec"
  | Fault fault

abbreviation goto_state :: "http_state \<Rightarrow> 'u exec \<Rightarrow> 'u exec" where
  "goto_state s e \<equiv> e\<lparr>local_state := s\<rparr>"

definition update_parser :: "('u http_parser \<Rightarrow> 'u http_parser) \<Rightarrow> 'u exec \<Rightarrow> 'u exec" where
  "update_parser f e = e\<lparr>parser := f (parser e)\<rparr>"

section \<open>The macros\<close>

fun on_data :: "'u http_parser_settings \<Rightarrow> data_cb \<Rightarrow> 'u http_data_cb" where
  "on_data S header_field = on_header_field S"
| "on_data S header_value = on_header_value S"
| "on_data S url = on_url S"
| "on_data S reason = on_reason S"
| "on_data S body = on_body S"

fun data_errno :: "data_cb \<Rightarrow> http_errno" where
  "data_errno header_field = HPE_CB_header_field"
| "data_errno header_value = HPE_CB_header_value"
| "data_errno url = HPE_CB_url"
| "data_errno reason = HPE_CB_reason"
| "data_errno body = HPE_CB_body"

text \<open>\<open>SET_ERRNO(e); goto error;\<close>\<close>

definition set_errno :: "http_errno \<Rightarrow> 'u http_parser \<Rightarrow> 'u http_parser" where
  "set_errno er P = P\<lparr>http_errno := er\<rparr>"

definition fail_with :: "http_errno \<Rightarrow> 'u exec \<Rightarrow> 'u outcome" where
  "fail_with er e = Goto_error (update_parser (set_errno er) e)"

text \<open>\<open>parser->state = state\<close>, the first line of the callback macros and of \<open>RETURN\<close>.\<close>

definition sync :: "'u exec \<Rightarrow> 'u http_parser" where
  "sync e = (parser e)\<lparr>state := local_state e\<rparr>"

definition RETURN :: "nat \<Rightarrow> 'u exec \<Rightarrow> 'u outcome" where
  "RETURN r e = Return r (sync e)"

text \<open>
  What follows a callback: a nonzero result sets the error of that callback, and any
  error (the callback may have paused the parser) leaves with \<open>return ret\<close>. What the
  macro is followed by is the continuation \<open>k\<close>.
\<close>

definition after_callback ::
    "http_errno \<Rightarrow> nat \<Rightarrow> int \<times> 'u http_parser \<Rightarrow> ('u http_parser \<Rightarrow> 'u outcome) \<Rightarrow> 'u outcome" where
  "after_callback er ret rP k =
     (let P = (if fst rP \<noteq> 0 then set_errno er (snd rP) else snd rP)
      in if http_errno P \<noteq> HPE_OK then Return ret P else k P)"

definition CALLBACK_NOTIFY_RET ::
    "'u http_cb \<Rightarrow> http_errno \<Rightarrow> nat \<Rightarrow> 'u exec \<Rightarrow> ('u exec \<Rightarrow> 'u outcome) \<Rightarrow> 'u outcome" where
  "CALLBACK_NOTIFY_RET cb er ret e k =
     (let P = sync e
      in if http_errno P \<noteq> HPE_OK then Fault Assertion_failed
         else after_callback er ret (cb P) (\<lambda>P'. k (e\<lparr>parser := P'\<rparr>)))"

definition CALLBACK_NOTIFY ::
    "'u http_cb \<Rightarrow> http_errno \<Rightarrow> 'u exec \<Rightarrow> ('u exec \<Rightarrow> 'u outcome) \<Rightarrow> 'u outcome" where
  "CALLBACK_NOTIFY cb er e k = CALLBACK_NOTIFY_RET cb er (pos e + 1) e k"

definition CALLBACK_NOTIFY_NOADVANCE ::
    "'u http_cb \<Rightarrow> http_errno \<Rightarrow> 'u exec \<Rightarrow> ('u exec \<Rightarrow> 'u outcome) \<Rightarrow> 'u outcome" where
  "CALLBACK_NOTIFY_NOADVANCE cb er e k = CALLBACK_NOTIFY_RET cb er (pos e) e k"

text \<open>
  The data callback gets the bytes from the mark up to \<open>fin\<close>. A range that is not
  inside the buffer is a fault.
\<close>

definition CALLBACK_DATA_RET ::
    "'u http_parser_settings \<Rightarrow> string \<Rightarrow> data_cb \<Rightarrow> nat \<Rightarrow> nat \<Rightarrow> 'u exec \<Rightarrow>
     ('u exec \<Rightarrow> 'u outcome) \<Rightarrow> 'u outcome" where
  "CALLBACK_DATA_RET S buf FOR fin ret e k =
     (let P = sync e
      in if http_errno P \<noteq> HPE_OK then Fault Assertion_failed
         else case marks e FOR of
           None \<Rightarrow> k (e\<lparr>parser := P\<rparr>)
         | Some m \<Rightarrow>
             if fin < m \<or> length buf < fin then Fault Out_of_bounds
             else after_callback (data_errno FOR) ret
                    (on_data S FOR P (byte_range m (fin - m) buf))
                    (\<lambda>P'. k (e\<lparr>parser := P', marks := (marks e)(FOR := None)\<rparr>)))"

definition CALLBACK_DATA ::
    "'u http_parser_settings \<Rightarrow> string \<Rightarrow> data_cb \<Rightarrow> 'u exec \<Rightarrow>
     ('u exec \<Rightarrow> 'u outcome) \<Rightarrow> 'u outcome" where
  "CALLBACK_DATA S buf FOR e k = CALLBACK_DATA_RET S buf FOR (pos e) (pos e + 1) e k"

definition CALLBACK_DATA_NOADVANCE ::
    "'u http_parser_settings \<Rightarrow> string \<Rightarrow> data_cb \<Rightarrow> 'u exec \<Rightarrow>
     ('u exec \<Rightarrow> 'u outcome) \<Rightarrow> 'u outcome" where
  "CALLBACK_DATA_NOADVANCE S buf FOR e k = CALLBACK_DATA_RET S buf FOR (pos e) (pos e) e k"

definition CALLBACK_SPACE ::
    "'u http_parser_settings \<Rightarrow> 'u exec \<Rightarrow> ('u exec \<Rightarrow> 'u outcome) \<Rightarrow> 'u outcome" where
  "CALLBACK_SPACE S e k =
     after_callback HPE_CB_header_value (pos e) (on_header_value S (sync e) '' '')
       (\<lambda>P'. k (e\<lparr>parser := P'\<rparr>))"

definition MARK :: "data_cb \<Rightarrow> 'u exec \<Rightarrow> 'u exec" where
  "MARK FOR e = (if marks e FOR = None then e\<lparr>marks := (marks e)(FOR := Some (pos e))\<rparr> else e)"

definition start_state :: "'u http_parser \<Rightarrow> http_state" where
  "start_state P = (if parser_type P = HTTP_REQUEST then s_pre_start_req else s_pre_start_res)"

definition NEW_MESSAGE :: "'u exec \<Rightarrow> 'u exec" where
  "NEW_MESSAGE e = goto_state (start_state (parser e)) e"

definition has_flag :: "6 word \<Rightarrow> 'u http_parser \<Rightarrow> bool" where
  "has_flag f P \<longleftrightarrow> flags P AND f \<noteq> 0"

definition set_flag :: "6 word \<Rightarrow> 'u http_parser \<Rightarrow> 'u http_parser" where
  "set_flag f P = P\<lparr>flags := flags P OR f\<rparr>"

text \<open>\<open>INT64_MAX\<close> and the range of an \<open>int64_t\<close>; a signed result outside it is a fault.\<close>

definition INT64_MAX :: int where
  "INT64_MAX = 9223372036854775807"

definition int64_ok :: "int \<Rightarrow> bool" where
  "int64_ok x \<longleftrightarrow> - INT64_MAX - 1 \<le> x \<and> x \<le> INT64_MAX"

text \<open>\<open>content_length *= base; content_length += digit;\<close>\<close>

definition shift_content_length :: "int \<Rightarrow> int \<Rightarrow> 'u exec \<Rightarrow> 'u outcome" where
  "shift_content_length base d e =
     (let x = content_length (parser e) * base
      in if \<not> int64_ok x \<or> \<not> int64_ok (x + d) then Fault Signed_overflow
         else Break (update_parser (\<lambda>P. P\<lparr>content_length := x + d\<rparr>) e))"

section \<open>Outcomes, case by case\<close>

text \<open>
  What holds of an outcome: \<open>B\<close> of the frame at a \<open>break\<close>, \<open>R\<close> of a reexecution,
  \<open>T\<close> of a return, \<open>G\<close> of a \<open>goto error\<close>, and \<open>F\<close> of a fault.
\<close>

fun outcome_all ::
    "('u exec \<Rightarrow> bool) \<Rightarrow> (char \<Rightarrow> 'u exec \<Rightarrow> bool) \<Rightarrow> (nat \<Rightarrow> 'u http_parser \<Rightarrow> bool) \<Rightarrow>
     ('u exec \<Rightarrow> bool) \<Rightarrow> bool \<Rightarrow> 'u outcome \<Rightarrow> bool" where
  "outcome_all B R T G F (Break e) = B e"
| "outcome_all B R T G F (Reexecute c e) = R c e"
| "outcome_all B R T G F (Return n P) = T n P"
| "outcome_all B R T G F (Goto_error e) = G e"
| "outcome_all B R T G F (Fault f) = F"

text \<open>
  How far each state is from one that consumes the byte: every \<open>goto reexecute_byte\<close>
  lowers it, so the reexecution of a byte ends.
\<close>

definition reexecution_rank :: "http_state \<Rightarrow> nat" where
  "reexecution_rank s =
     (case s of
        s_pre_start_req_or_res \<Rightarrow> 2 | s_start_req_or_res \<Rightarrow> 1
      | s_pre_start_res \<Rightarrow> 1 | s_pre_start_req \<Rightarrow> 1
      | s_req_spaces_before_url \<Rightarrow> 1 | s_req_host \<Rightarrow> 1
      | s_header_value \<Rightarrow> 1 | s_header_value_lws \<Rightarrow> 3 | s_header_field_start \<Rightarrow> 2
      | s_headers_almost_done \<Rightarrow> 1 | s_body_identity \<Rightarrow> 1
      | _ \<Rightarrow> 0)"

text \<open>One pass of the switch moves the read position forward only.\<close>

definition advances :: "'u exec \<Rightarrow> 'u outcome \<Rightarrow> bool" where
  "advances e = outcome_all (\<lambda>e'. pos e \<le> pos e')
     (\<lambda>_ e'. pos e \<le> pos e' \<and> reexecution_rank (local_state e') < reexecution_rank (local_state e))
     (\<lambda>_ _. True) (\<lambda>_. True) True"

lemmas macro_defs =
  update_parser_def fail_with_def RETURN_def NEW_MESSAGE_def CALLBACK_NOTIFY_def
  CALLBACK_NOTIFY_NOADVANCE_def CALLBACK_DATA_def CALLBACK_DATA_NOADVANCE_def
  CALLBACK_SPACE_def shift_content_length_def

lemma advances_simps [simp]:
  "advances e (Break e') \<longleftrightarrow> pos e \<le> pos e'"
  "advances e (Reexecute c e') \<longleftrightarrow>
     pos e \<le> pos e' \<and> reexecution_rank (local_state e') < reexecution_rank (local_state e)"
  "advances e (Return n P)" "advances e (Goto_error e')" "advances e (Fault f)"
  by (simp_all add: advances_def)

lemma advances_CALLBACK_NOTIFY_RET [simp, intro!]:
  "(\<And>P. advances e (k (e'\<lparr>parser := P\<rparr>))) \<Longrightarrow> advances e (CALLBACK_NOTIFY_RET cb er ret e' k)"
  by (simp add: CALLBACK_NOTIFY_RET_def after_callback_def Let_def)

lemma advances_CALLBACK_DATA_RET [simp, intro!]:
  assumes "\<And>P m. advances e (k (e'\<lparr>parser := P, marks := m\<rparr>))"
  shows "advances e (CALLBACK_DATA_RET S buf FOR fin ret e' k)"
proof -
  have "advances e (k (e'\<lparr>parser := P\<rparr>))" for P
    using assms [where P = P and m = "marks e'"] by simp
  with assms show ?thesis
    by (simp add: CALLBACK_DATA_RET_def after_callback_def Let_def split: option.split)
qed

lemma advances_after_callback [simp, intro!]:
  "(\<And>P. advances e (k P)) \<Longrightarrow> advances e (after_callback er ret rP k)"
  by (simp add: after_callback_def Let_def)

named_theorems advance_rules \<open>each case of the switch moves forward\<close>

end
