(* ===== verification/Http_Lines.thy ===== *)
theory Http_Lines
  imports Http_Frame
begin

text \<open>
  The cases of the switch for the start of a message, the status line of a response and
  the request line (\<open>src/base/http/c/http_parser.c\<close>).
\<close>

section \<open>The start of a message\<close>

definition reset_message :: "'u http_parser \<Rightarrow> 'u http_parser" where
  "reset_message P = P\<lparr>flags := 0, content_length := -1\<rparr>"

definition case_s_pre_start_req_or_res ::
    "'u http_parser_settings \<Rightarrow> char \<Rightarrow> 'u exec \<Rightarrow> 'u outcome" where
  "case_s_pre_start_req_or_res S ch e =
     (if ch = CR \<or> ch = LF then Break e
      else CALLBACK_NOTIFY_NOADVANCE (on_message_begin S) HPE_CB_message_begin
             (goto_state s_start_req_or_res e) (\<lambda>e. Reexecute ch e))"

definition case_s_start_req_or_res :: "char \<Rightarrow> 'u exec \<Rightarrow> 'u outcome" where
  "case_s_start_req_or_res ch e =
     (let e = update_parser reset_message e
      in if ch = CHR ''H'' then Break (goto_state s_res_or_resp_H e)
         else Reexecute ch
                (goto_state s_start_req
                  (update_parser (\<lambda>P. P\<lparr>parser_type := HTTP_REQUEST\<rparr>) e)))"

definition case_s_res_or_resp_H :: "char \<Rightarrow> 'u exec \<Rightarrow> 'u outcome" where
  "case_s_res_or_resp_H ch e =
     (if ch = CHR ''T'' then
        Break (goto_state s_res_HT (update_parser (\<lambda>P. P\<lparr>parser_type := HTTP_RESPONSE\<rparr>) e))
      else if ch \<noteq> CHR ''E'' then fail_with HPE_INVALID_CONSTANT e
      else Break (goto_state s_req_method
             (update_parser
               (\<lambda>P. P\<lparr>parser_type := HTTP_REQUEST, req_method := HTTP_HEAD, index := 2\<rparr>) e)))"

definition case_s_pre_start_res ::
    "'u http_parser_settings \<Rightarrow> char \<Rightarrow> 'u exec \<Rightarrow> 'u outcome" where
  "case_s_pre_start_res S ch e =
     (if ch = CR \<or> ch = LF then Break e
      else CALLBACK_NOTIFY_NOADVANCE (on_message_begin S) HPE_CB_message_begin
             (goto_state s_start_res e) (\<lambda>e. Reexecute ch e))"

definition case_s_start_res :: "char \<Rightarrow> 'u exec \<Rightarrow> 'u outcome" where
  "case_s_start_res ch e =
     (let e = update_parser reset_message e
      in if ch = CHR ''H'' then Break (goto_state s_res_H e)
         else fail_with HPE_INVALID_CONSTANT e)"

definition case_s_pre_start_req ::
    "'u http_parser_settings \<Rightarrow> char \<Rightarrow> 'u exec \<Rightarrow> 'u outcome" where
  "case_s_pre_start_req S ch e =
     (if ch = CR \<or> ch = LF then Break e
      else CALLBACK_NOTIFY_NOADVANCE (on_message_begin S) HPE_CB_message_begin
             (goto_state s_start_req e) (\<lambda>e. Reexecute ch e))"

section \<open>The status line of a response\<close>

text \<open>
  \<open>STRICT_CHECK\<close> is defined as nothing: the letters of \<open>HTTP/\<close> after the first are
  skipped unread.
\<close>

definition case_s_res_H :: "char \<Rightarrow> 'u exec \<Rightarrow> 'u outcome" where
  "case_s_res_H ch e = Break (goto_state s_res_HT e)"

definition case_s_res_HT :: "char \<Rightarrow> 'u exec \<Rightarrow> 'u outcome" where
  "case_s_res_HT ch e = Break (goto_state s_res_HTT e)"

definition case_s_res_HTT :: "char \<Rightarrow> 'u exec \<Rightarrow> 'u outcome" where
  "case_s_res_HTT ch e = Break (goto_state s_res_HTTP e)"

definition case_s_res_HTTP :: "char \<Rightarrow> 'u exec \<Rightarrow> 'u outcome" where
  "case_s_res_HTTP ch e = Break (goto_state s_res_first_http_major e)"

text \<open>\<open>x *= 10; x += ch - '0'\<close> on an \<open>unsigned short\<close>.\<close>

definition push_digit :: "char \<Rightarrow> 16 word \<Rightarrow> 16 word" where
  "push_digit ch x = x * 10 + word_of_int (digit_value ch)"

definition set_http_major :: "(16 word \<Rightarrow> 16 word) \<Rightarrow> 'u http_parser \<Rightarrow> 'u http_parser" where
  "set_http_major f P = P\<lparr>http_major := f (http_major P)\<rparr>"

definition set_http_minor :: "(16 word \<Rightarrow> 16 word) \<Rightarrow> 'u http_parser \<Rightarrow> 'u http_parser" where
  "set_http_minor f P = P\<lparr>http_minor := f (http_minor P)\<rparr>"

definition set_status_code :: "(16 word \<Rightarrow> 16 word) \<Rightarrow> 'u http_parser \<Rightarrow> 'u http_parser" where
  "set_status_code f P = P\<lparr>status_code := f (status_code P)\<rparr>"

definition case_s_res_first_http_major :: "char \<Rightarrow> 'u exec \<Rightarrow> 'u outcome" where
  "case_s_res_first_http_major ch e =
     (if ord ch < 48 \<or> 57 < ord ch then fail_with HPE_INVALID_VERSION e
      else Break (goto_state s_res_http_major
             (update_parser (set_http_major (\<lambda>_. word_of_int (digit_value ch))) e)))"

definition case_s_res_http_major :: "char \<Rightarrow> 'u exec \<Rightarrow> 'u outcome" where
  "case_s_res_http_major ch e =
     (if ch = CHR ''.'' then Break (goto_state s_res_first_http_minor e)
      else if \<not> IS_NUM ch then fail_with HPE_INVALID_VERSION e
      else let e = update_parser (set_http_major (push_digit ch)) e
           in if http_major (parser e) > 999 then fail_with HPE_INVALID_VERSION e else Break e)"

definition case_s_res_first_http_minor :: "char \<Rightarrow> 'u exec \<Rightarrow> 'u outcome" where
  "case_s_res_first_http_minor ch e =
     (if \<not> IS_NUM ch then fail_with HPE_INVALID_VERSION e
      else Break (goto_state s_res_http_minor
             (update_parser (set_http_minor (\<lambda>_. word_of_int (digit_value ch))) e)))"

definition case_s_res_http_minor :: "char \<Rightarrow> 'u exec \<Rightarrow> 'u outcome" where
  "case_s_res_http_minor ch e =
     (if ch = CHR '' '' then Break (goto_state s_res_first_status_code e)
      else if \<not> IS_NUM ch then fail_with HPE_INVALID_VERSION e
      else let e = update_parser (set_http_minor (push_digit ch)) e
           in if http_minor (parser e) > 999 then fail_with HPE_INVALID_VERSION e else Break e)"

definition case_s_res_first_status_code :: "char \<Rightarrow> 'u exec \<Rightarrow> 'u outcome" where
  "case_s_res_first_status_code ch e =
     (if \<not> IS_NUM ch then
        (if ch = CHR '' '' then Break e else fail_with HPE_INVALID_STATUS e)
      else Break (goto_state s_res_status_code
             (update_parser (set_status_code (\<lambda>_. word_of_int (digit_value ch))) e)))"

definition case_s_res_status_code :: "char \<Rightarrow> 'u exec \<Rightarrow> 'u outcome" where
  "case_s_res_status_code ch e =
     (if \<not> IS_NUM ch then
        (if ch = CHR '' '' then Break (goto_state s_res_status e)
         else if ch = CR then Break (goto_state s_res_line_almost_done e)
         else if ch = LF then Break (goto_state s_header_field_start e)
         else fail_with HPE_INVALID_STATUS e)
      else let e = update_parser (set_status_code (push_digit ch)) e
           in if status_code (parser e) > 999 then fail_with HPE_INVALID_STATUS e else Break e)"

definition case_s_res_status ::
    "'u http_parser_settings \<Rightarrow> string \<Rightarrow> char \<Rightarrow> 'u exec \<Rightarrow> 'u outcome" where
  "case_s_res_status S buf ch e =
     (let e = MARK reason e
      in if ch = CR then
           CALLBACK_DATA S buf reason (goto_state s_res_line_almost_done e) (\<lambda>e. Break e)
         else if ch = LF then
           CALLBACK_DATA S buf reason (goto_state s_header_field_start e) (\<lambda>e. Break e)
         else Break e)"

definition case_s_res_line_almost_done :: "char \<Rightarrow> 'u exec \<Rightarrow> 'u outcome" where
  "case_s_res_line_almost_done ch e = Break (goto_state s_header_field_start e)"


section \<open>The request line: the method\<close>

text \<open>The method that the first letter stands for, until a later letter tells more.\<close>

definition start_method :: "char \<Rightarrow> http_method option" where
  "start_method ch =
     (if ch = CHR ''C'' then Some HTTP_CONNECT
      else if ch = CHR ''D'' then Some HTTP_DELETE
      else if ch = CHR ''G'' then Some HTTP_GET
      else if ch = CHR ''H'' then Some HTTP_HEAD
      else if ch = CHR ''L'' then Some HTTP_LOCK
      else if ch = CHR ''M'' then Some HTTP_MKCOL
      else if ch = CHR ''N'' then Some HTTP_NOTIFY
      else if ch = CHR ''O'' then Some HTTP_OPTIONS
      else if ch = CHR ''P'' then Some HTTP_POST
      else if ch = CHR ''R'' then Some HTTP_REPORT
      else if ch = CHR ''S'' then Some HTTP_SUBSCRIBE
      else if ch = CHR ''T'' then Some HTTP_TRACE
      else if ch = CHR ''U'' then Some HTTP_UNLOCK
      else None)"

definition case_s_start_req :: "char \<Rightarrow> 'u exec \<Rightarrow> 'u outcome" where
  "case_s_start_req ch e =
     (let e = update_parser reset_message e
      in if \<not> IS_ALPHA ch then fail_with HPE_INVALID_METHOD e
         else
           let e = update_parser (\<lambda>P. P\<lparr>req_method := HTTP_DELETE, index := 1\<rparr>) e
           in case start_method ch of
                None \<Rightarrow> fail_with HPE_INVALID_METHOD e
              | Some m \<Rightarrow> Break (goto_state s_req_method
                            (update_parser (\<lambda>P. P\<lparr>req_method := m\<rparr>) e)))"

text \<open>
  The chain of \<open>else if\<close> that switches to another method when the byte is not the next
  one of the current method. \<open>Inl er\<close> is \<open>goto error\<close>, with the error set first when
  \<open>er\<close> is \<open>Some\<close>.
\<close>

definition switch_method ::
    "http_method \<Rightarrow> 8 word \<Rightarrow> char \<Rightarrow> http_errno option + http_method" where
  "switch_method m i ch =
     (if m = HTTP_CONNECT then
        (if i = 1 \<and> ch = CHR ''H'' then Inr HTTP_CHECKOUT
         else if i = 2 \<and> ch = CHR ''P'' then Inr HTTP_COPY
         else Inl None)
      else if m = HTTP_MKCOL then
        (if i = 1 \<and> ch = CHR ''O'' then Inr HTTP_MOVE
         else if i = 1 \<and> ch = CHR ''E'' then Inr HTTP_MERGE
         else if i = 1 \<and> ch = CHR ''-'' then Inr HTTP_MSEARCH
         else if i = 2 \<and> ch = CHR ''A'' then Inr HTTP_MKACTIVITY
         else Inl None)
      else if i = 1 \<and> m = HTTP_POST then
        (if ch = CHR ''R'' then Inr HTTP_PROPFIND
         else if ch = CHR ''U'' then Inr HTTP_PUT
         else if ch = CHR ''A'' then Inr HTTP_PATCH
         else Inl None)
      else if i = 2 \<and> m = HTTP_UNLOCK \<and> ch = CHR ''S'' then Inr HTTP_UNSUBSCRIBE
      else if i = 4 \<and> m = HTTP_PROPFIND \<and> ch = CHR ''P'' then Inr HTTP_PROPPATCH
      else Inl (Some HPE_INVALID_METHOD))"

definition case_s_req_method :: "char \<Rightarrow> 'u exec \<Rightarrow> 'u outcome" where
  "case_s_req_method ch e =
     (if ch = NUL then fail_with HPE_INVALID_METHOD e
      else
        let P = parser e;
            advance = (\<lambda>e. Break (update_parser (\<lambda>P. P\<lparr>index := index P + 1\<rparr>) e))
        in case read_cstring (http_method_str (req_method P)) (unat (index P)) of
             None \<Rightarrow> Fault Out_of_bounds
           | Some m \<Rightarrow>
               if ch = CHR '' '' \<and> m = NUL then advance (goto_state s_req_spaces_before_url e)
               else if ch = m then advance e
               else (case switch_method (req_method P) (index P) ch of
                   Inl None \<Rightarrow> Goto_error e
                 | Inl (Some er) \<Rightarrow> fail_with er e
                 | Inr m' \<Rightarrow> advance (update_parser (\<lambda>P. P\<lparr>req_method := m'\<rparr>) e)))"

section \<open>The request line: the URL\<close>

definition case_s_req_spaces_before_url :: "char \<Rightarrow> 'u exec \<Rightarrow> 'u outcome" where
  "case_s_req_spaces_before_url ch e =
     (if ch = CHR '' '' then Break e
      else if req_method (parser e) = HTTP_CONNECT then
        Reexecute ch (goto_state s_req_host_start (MARK url e))
      else if ch = CHR ''/'' \<or> ch = CHR ''*'' then Break (goto_state s_req_path (MARK url e))
      else if IS_ALPHA ch then Break (goto_state s_req_schema (MARK url e))
      else fail_with HPE_INVALID_URL e)"

definition case_s_req_schema :: "char \<Rightarrow> 'u exec \<Rightarrow> 'u outcome" where
  "case_s_req_schema ch e =
     (if IS_ALPHA ch then Break e
      else if ch = CHR '':'' then Break (goto_state s_req_schema_slash e)
      else fail_with HPE_INVALID_URL e)"

definition case_s_req_schema_slash :: "char \<Rightarrow> 'u exec \<Rightarrow> 'u outcome" where
  "case_s_req_schema_slash ch e = Break (goto_state s_req_schema_slash_slash e)"

definition case_s_req_schema_slash_slash :: "char \<Rightarrow> 'u exec \<Rightarrow> 'u outcome" where
  "case_s_req_schema_slash_slash ch e = Break (goto_state s_req_host_start e)"

definition case_s_req_host_start :: "char \<Rightarrow> 'u exec \<Rightarrow> 'u outcome" where
  "case_s_req_host_start ch e =
     (if ch = CHR ''['' then Break (goto_state s_req_host_ipv6 e)
      else if IS_ALPHANUM ch then Break (goto_state s_req_host e)
      else fail_with HPE_INVALID_HOST e)"

definition case_s_req_host :: "char \<Rightarrow> 'u exec \<Rightarrow> 'u outcome" where
  "case_s_req_host ch e =
     (if IS_HOST_CHAR ch then Break e else Reexecute ch (goto_state s_req_host_done e))"

definition case_s_req_host_ipv6 :: "char \<Rightarrow> 'u exec \<Rightarrow> 'u outcome" where
  "case_s_req_host_ipv6 ch e =
     (if IS_HEX ch \<or> ch = CHR '':'' then Break e
      else if ch = CHR '']'' then Break (goto_state s_req_host_done e)
      else fail_with HPE_INVALID_HOST e)"

text \<open>
  What the URL states do with a byte that ends the URL: a space leads to the protocol
  version; a line end makes it an HTTP/0.9 request.
\<close>

definition end_url ::
    "'u http_parser_settings \<Rightarrow> string \<Rightarrow> http_state \<Rightarrow> 'u exec \<Rightarrow> 'u outcome" where
  "end_url S buf s e = CALLBACK_DATA S buf url (goto_state s e) (\<lambda>e. Break e)"

definition set_http_0_9 :: "'u http_parser \<Rightarrow> 'u http_parser" where
  "set_http_0_9 P = P\<lparr>http_major := 0, http_minor := 9\<rparr>"

definition case_s_req_host_done ::
    "'u http_parser_settings \<Rightarrow> string \<Rightarrow> char \<Rightarrow> 'u exec \<Rightarrow> 'u outcome" where
  "case_s_req_host_done S buf ch e =
     (if ch = CHR '':'' then Break (goto_state s_req_port e)
      else if ch = CHR ''/'' then Break (goto_state s_req_path e)
      else if ch = CHR '' '' then end_url S buf s_req_http_start e
      else if ch = CHR ''?'' then Break (goto_state s_req_query_string_start e)
      else fail_with HPE_INVALID_HOST e)"

definition case_s_req_port ::
    "'u http_parser_settings \<Rightarrow> string \<Rightarrow> char \<Rightarrow> 'u exec \<Rightarrow> 'u outcome" where
  "case_s_req_port S buf ch e =
     (if IS_NUM ch then Break e
      else if ch = CHR ''/'' then Break (goto_state s_req_path e)
      else if ch = CHR '' '' then end_url S buf s_req_http_start e
      else if ch = CHR ''?'' then Break (goto_state s_req_query_string_start e)
      else fail_with HPE_INVALID_PORT e)"

definition case_s_req_path ::
    "'u http_parser_settings \<Rightarrow> string \<Rightarrow> char \<Rightarrow> 'u exec \<Rightarrow> 'u outcome" where
  "case_s_req_path S buf ch e =
     (if IS_URL_CHAR ch then Break e
      else if ch = CHR '' '' then end_url S buf s_req_http_start e
      else if ch = CR then end_url S buf s_req_line_almost_done (update_parser set_http_0_9 e)
      else if ch = LF then end_url S buf s_header_field_start (update_parser set_http_0_9 e)
      else if ch = CHR ''?'' then Break (goto_state s_req_query_string_start e)
      else if ch = CHR ''#'' then Break (goto_state s_req_fragment_start e)
      else fail_with HPE_INVALID_PATH e)"

definition case_s_req_query_string_start ::
    "'u http_parser_settings \<Rightarrow> string \<Rightarrow> char \<Rightarrow> 'u exec \<Rightarrow> 'u outcome" where
  "case_s_req_query_string_start S buf ch e =
     (if IS_URL_CHAR ch then Break (goto_state s_req_query_string e)
      else if ch = CHR ''?'' then Break e
      else if ch = CHR '' '' then end_url S buf s_req_http_start e
      else if ch = CR then end_url S buf s_req_line_almost_done (update_parser set_http_0_9 e)
      else if ch = LF then end_url S buf s_header_field_start (update_parser set_http_0_9 e)
      else if ch = CHR ''#'' then Break (goto_state s_req_fragment_start e)
      else fail_with HPE_INVALID_QUERY_STRING e)"

definition case_s_req_query_string ::
    "'u http_parser_settings \<Rightarrow> string \<Rightarrow> char \<Rightarrow> 'u exec \<Rightarrow> 'u outcome" where
  "case_s_req_query_string S buf ch e =
     (if IS_URL_CHAR ch then Break e
      else if ch = CHR ''?'' then Break e
      else if ch = CHR '' '' then end_url S buf s_req_http_start e
      else if ch = CR then end_url S buf s_req_line_almost_done (update_parser set_http_0_9 e)
      else if ch = LF then end_url S buf s_header_field_start (update_parser set_http_0_9 e)
      else if ch = CHR ''#'' then Break (goto_state s_req_fragment_start e)
      else fail_with HPE_INVALID_QUERY_STRING e)"

definition case_s_req_fragment_start ::
    "'u http_parser_settings \<Rightarrow> string \<Rightarrow> char \<Rightarrow> 'u exec \<Rightarrow> 'u outcome" where
  "case_s_req_fragment_start S buf ch e =
     (if IS_URL_CHAR ch then Break (goto_state s_req_fragment e)
      else if ch = CHR '' '' then end_url S buf s_req_http_start e
      else if ch = CR then end_url S buf s_req_line_almost_done (update_parser set_http_0_9 e)
      else if ch = LF then end_url S buf s_header_field_start (update_parser set_http_0_9 e)
      else if ch = CHR ''?'' then Break (goto_state s_req_fragment e)
      else if ch = CHR ''#'' then Break e
      else fail_with HPE_INVALID_FRAGMENT e)"

definition case_s_req_fragment ::
    "'u http_parser_settings \<Rightarrow> string \<Rightarrow> char \<Rightarrow> 'u exec \<Rightarrow> 'u outcome" where
  "case_s_req_fragment S buf ch e =
     (if IS_URL_CHAR ch then Break e
      else if ch = CHR '' '' then end_url S buf s_req_http_start e
      else if ch = CR then end_url S buf s_req_line_almost_done (update_parser set_http_0_9 e)
      else if ch = LF then end_url S buf s_header_field_start (update_parser set_http_0_9 e)
      else if ch = CHR ''?'' \<or> ch = CHR ''#'' then Break e
      else fail_with HPE_INVALID_FRAGMENT e)"

section \<open>The request line: the version\<close>

definition case_s_req_http_start :: "char \<Rightarrow> 'u exec \<Rightarrow> 'u outcome" where
  "case_s_req_http_start ch e =
     (if ch = CHR ''H'' then Break (goto_state s_req_http_H e)
      else if ch = CHR '' '' then Break e
      else fail_with HPE_INVALID_CONSTANT e)"

definition case_s_req_http_H :: "char \<Rightarrow> 'u exec \<Rightarrow> 'u outcome" where
  "case_s_req_http_H ch e = Break (goto_state s_req_http_HT e)"

definition case_s_req_http_HT :: "char \<Rightarrow> 'u exec \<Rightarrow> 'u outcome" where
  "case_s_req_http_HT ch e = Break (goto_state s_req_http_HTT e)"

definition case_s_req_http_HTT :: "char \<Rightarrow> 'u exec \<Rightarrow> 'u outcome" where
  "case_s_req_http_HTT ch e = Break (goto_state s_req_http_HTTP e)"

definition case_s_req_http_HTTP :: "char \<Rightarrow> 'u exec \<Rightarrow> 'u outcome" where
  "case_s_req_http_HTTP ch e = Break (goto_state s_req_first_http_major e)"

definition case_s_req_first_http_major :: "char \<Rightarrow> 'u exec \<Rightarrow> 'u outcome" where
  "case_s_req_first_http_major ch e =
     (if ord ch < 48 \<or> 57 < ord ch then fail_with HPE_INVALID_VERSION e
      else Break (goto_state s_req_http_major
             (update_parser (set_http_major (\<lambda>_. word_of_int (digit_value ch))) e)))"

definition case_s_req_http_major :: "char \<Rightarrow> 'u exec \<Rightarrow> 'u outcome" where
  "case_s_req_http_major ch e =
     (if ch = CHR ''.'' then Break (goto_state s_req_first_http_minor e)
      else if \<not> IS_NUM ch then fail_with HPE_INVALID_VERSION e
      else let e = update_parser (set_http_major (push_digit ch)) e
           in if http_major (parser e) > 999 then fail_with HPE_INVALID_VERSION e else Break e)"

definition case_s_req_first_http_minor :: "char \<Rightarrow> 'u exec \<Rightarrow> 'u outcome" where
  "case_s_req_first_http_minor ch e =
     (if \<not> IS_NUM ch then fail_with HPE_INVALID_VERSION e
      else Break (goto_state s_req_http_minor
             (update_parser (set_http_minor (\<lambda>_. word_of_int (digit_value ch))) e)))"

definition case_s_req_http_minor :: "char \<Rightarrow> 'u exec \<Rightarrow> 'u outcome" where
  "case_s_req_http_minor ch e =
     (if ch = CR then Break (goto_state s_req_line_almost_done e)
      else if ch = LF then Break (goto_state s_header_field_start e)
      else if \<not> IS_NUM ch then fail_with HPE_INVALID_VERSION e
      else let e = update_parser (set_http_minor (push_digit ch)) e
           in if http_minor (parser e) > 999 then fail_with HPE_INVALID_VERSION e else Break e)"

definition case_s_req_line_almost_done :: "char \<Rightarrow> 'u exec \<Rightarrow> 'u outcome" where
  "case_s_req_line_almost_done ch e =
     (if ch \<noteq> LF then fail_with HPE_LF_EXPECTED e
      else Break (goto_state s_header_field_start e))"

section \<open>The cases move forward\<close>

lemma advances_lines [advance_rules]:
  "local_state e = s_pre_start_req_or_res \<Longrightarrow> advances e (case_s_pre_start_req_or_res S ch e)"
  "local_state e = s_start_req_or_res \<Longrightarrow> advances e (case_s_start_req_or_res ch e)"
  "advances e (case_s_res_or_resp_H ch e)"
  "local_state e = s_pre_start_res \<Longrightarrow> advances e (case_s_pre_start_res S ch e)"
  "advances e (case_s_start_res ch e)"
  "local_state e = s_pre_start_req \<Longrightarrow> advances e (case_s_pre_start_req S ch e)"
  "advances e (case_s_res_H ch e)"
  "advances e (case_s_res_HT ch e)"
  "advances e (case_s_res_HTT ch e)"
  "advances e (case_s_res_HTTP ch e)"
  "advances e (case_s_res_first_http_major ch e)"
  "advances e (case_s_res_http_major ch e)"
  "advances e (case_s_res_first_http_minor ch e)"
  "advances e (case_s_res_http_minor ch e)"
  "advances e (case_s_res_first_status_code ch e)"
  "advances e (case_s_res_status_code ch e)"
  "advances e (case_s_res_status S buf ch e)"
  "advances e (case_s_res_line_almost_done ch e)"
  "advances e (case_s_start_req ch e)"
  "advances e (case_s_req_method ch e)"
  "local_state e = s_req_spaces_before_url \<Longrightarrow> advances e (case_s_req_spaces_before_url ch e)"
  "advances e (case_s_req_schema ch e)"
  "advances e (case_s_req_schema_slash ch e)"
  "advances e (case_s_req_schema_slash_slash ch e)"
  "advances e (case_s_req_host_start ch e)"
  "local_state e = s_req_host \<Longrightarrow> advances e (case_s_req_host ch e)"
  "advances e (case_s_req_host_ipv6 ch e)"
  "advances e (case_s_req_host_done S buf ch e)"
  "advances e (case_s_req_port S buf ch e)"
  "advances e (case_s_req_path S buf ch e)"
  "advances e (case_s_req_query_string_start S buf ch e)"
  "advances e (case_s_req_query_string S buf ch e)"
  "advances e (case_s_req_fragment_start S buf ch e)"
  "advances e (case_s_req_fragment S buf ch e)"
  "advances e (case_s_req_http_start ch e)"
  "advances e (case_s_req_http_H ch e)"
  "advances e (case_s_req_http_HT ch e)"
  "advances e (case_s_req_http_HTT ch e)"
  "advances e (case_s_req_http_HTTP ch e)"
  "advances e (case_s_req_first_http_major ch e)"
  "advances e (case_s_req_http_major ch e)"
  "advances e (case_s_req_first_http_minor ch e)"
  "advances e (case_s_req_http_minor ch e)"
  "advances e (case_s_req_line_almost_done ch e)"
  by (simp_all add: case_s_pre_start_req_or_res_def case_s_start_req_or_res_def
      case_s_res_or_resp_H_def case_s_pre_start_res_def case_s_start_res_def
      case_s_pre_start_req_def case_s_res_H_def case_s_res_HT_def case_s_res_HTT_def
      case_s_res_HTTP_def case_s_res_first_http_major_def case_s_res_http_major_def
      case_s_res_first_http_minor_def case_s_res_http_minor_def
      case_s_res_first_status_code_def case_s_res_status_code_def case_s_res_status_def
      case_s_res_line_almost_done_def case_s_start_req_def case_s_req_method_def
      case_s_req_spaces_before_url_def case_s_req_schema_def case_s_req_schema_slash_def
      case_s_req_schema_slash_slash_def case_s_req_host_start_def case_s_req_host_def
      case_s_req_host_ipv6_def case_s_req_host_done_def case_s_req_port_def
      case_s_req_path_def case_s_req_query_string_start_def case_s_req_query_string_def
      case_s_req_fragment_start_def case_s_req_fragment_def case_s_req_http_start_def
      case_s_req_http_H_def case_s_req_http_HT_def case_s_req_http_HTT_def
      case_s_req_http_HTTP_def case_s_req_first_http_major_def case_s_req_http_major_def
      case_s_req_first_http_minor_def case_s_req_http_minor_def
      case_s_req_line_almost_done_def
      macro_defs end_url_def MARK_def Let_def reexecution_rank_def
      split: option.split sum.split)

end
