(* ===== verification/Http_Headers.thy ===== *)
theory Http_Headers
  imports Http_Lines
begin

text \<open>
  The cases of the switch for the header lines and the end of the headers
  (\<open>src/base/http/c/http_parser.c\<close>).
\<close>

section \<open>Header names\<close>

definition CONTENT_LENGTH :: string where "CONTENT_LENGTH = ''content-length''"
definition TRANSFER_ENCODING :: string where "TRANSFER_ENCODING = ''transfer-encoding''"
definition UPGRADE :: string where "UPGRADE = ''upgrade''"
definition CHUNKED :: string where "CHUNKED = ''chunked''"

definition set_header_state :: "header_states \<Rightarrow> 'u http_parser \<Rightarrow> 'u http_parser" where
  "set_header_state h P = P\<lparr>header_state := h\<rparr>"

text \<open>The header that the first byte of a name may begin.\<close>

definition start_header_state :: "char \<Rightarrow> header_states" where
  "start_header_state c =
     (if c = CHR ''c'' then h_matching_content_length
      else if c = CHR ''t'' then h_matching_transfer_encoding
      else if c = CHR ''u'' then h_matching_upgrade
      else h_general)"

definition case_s_header_field_start :: "char \<Rightarrow> 'u exec \<Rightarrow> 'u outcome" where
  "case_s_header_field_start ch e =
     (if ch = CR then Break (goto_state s_headers_almost_done e)
      else if ch = LF then Reexecute ch (goto_state s_headers_almost_done e)
      else
        let c = TOKEN ch
        in if c = NUL then fail_with HPE_INVALID_HEADER_TOKEN e
           else Break (goto_state s_header_field
             (update_parser (\<lambda>P. set_header_state (start_header_state c) (P\<lparr>index := 0\<rparr>))
               (MARK header_field e))))"

text \<open>
  One byte of a name being matched: \<open>name\<close> is the literal, \<open>found\<close> the state when its
  last byte is reached. Reading the terminator of the literal is allowed.
\<close>

definition match_name ::
    "string \<Rightarrow> header_states \<Rightarrow> char \<Rightarrow> 'u http_parser \<Rightarrow> 'u http_parser" where
  "match_name name found c P =
     (let i = index P + 1; P = P\<lparr>index := i\<rparr>
      in if length name < unat i \<or> read_cstring name (unat i) \<noteq> Some c
         then set_header_state h_general P
         else if unat i = length name - 1 then set_header_state found P
         else P)"

text \<open>
  \<open>MOVE_THE_HEAD\<close>, \<open>n\<close> times from position \<open>p\<close>: the position reached, with the byte
  that is not a token when one stops the run.
\<close>

fun move_the_head :: "nat \<Rightarrow> string \<Rightarrow> nat \<Rightarrow> fault + nat \<times> char option" where
  "move_the_head 0 buf p = Inr (p, None)"
| "move_the_head (Suc n) buf p =
     (case read_byte buf (p + 1) of
        None \<Rightarrow> Inl Out_of_bounds
      | Some d \<Rightarrow> if TOKEN d = NUL then Inr (p + 1, Some d) else move_the_head n buf (p + 1))"

text \<open>The label \<open>notatoken\<close>.\<close>

definition notatoken ::
    "'u http_parser_settings \<Rightarrow> string \<Rightarrow> char \<Rightarrow> 'u exec \<Rightarrow> 'u outcome" where
  "notatoken S buf ch e =
     (if ch = CHR '':'' then
        CALLBACK_DATA S buf header_field (goto_state s_header_value_start e) (\<lambda>e. Break e)
      else fail_with HPE_INVALID_HEADER_TOKEN e)"

definition case_s_header_field ::
    "'u http_parser_settings \<Rightarrow> string \<Rightarrow> char \<Rightarrow> 'u exec \<Rightarrow> 'u outcome" where
  "case_s_header_field S buf ch e =
     (let c = TOKEN ch
      in if c = NUL then notatoken S buf ch e
         else case header_state (parser e) of
           h_general \<Rightarrow>
             (let left = length buf - pos e;
                  n = (if 9 \<le> left then 8 else if 4 \<le> left then 3 else 0)
              in case move_the_head n buf (pos e) of
                   Inl f \<Rightarrow> Fault f
                 | Inr (p, None) \<Rightarrow> Break (e\<lparr>pos := p\<rparr>)
                 | Inr (p, Some d) \<Rightarrow> notatoken S buf d (e\<lparr>pos := p\<rparr>))
         | h_matching_content_length \<Rightarrow>
             Break (update_parser (match_name CONTENT_LENGTH h_content_length c) e)
         | h_matching_transfer_encoding \<Rightarrow>
             Break (update_parser (match_name TRANSFER_ENCODING h_transfer_encoding c) e)
         | h_matching_upgrade \<Rightarrow>
             Break (update_parser (match_name UPGRADE h_upgrade c) e)
         | h_content_length \<Rightarrow>
             Break (if ch \<noteq> CHR '' '' then update_parser (set_header_state h_general) e else e)
         | h_transfer_encoding \<Rightarrow>
             Break (if ch \<noteq> CHR '' '' then update_parser (set_header_state h_general) e else e)
         | h_upgrade \<Rightarrow>
             Break (if ch \<noteq> CHR '' '' then update_parser (set_header_state h_general) e else e)
         | _ \<Rightarrow> Fault Assertion_failed)"

section \<open>Header values\<close>

definition case_s_header_value_start ::
    "'u http_parser_settings \<Rightarrow> string \<Rightarrow> char \<Rightarrow> 'u exec \<Rightarrow> 'u outcome" where
  "case_s_header_value_start S buf ch e =
     (if ch = CHR '' '' \<or> ch = HT then Break e
      else
        let e = update_parser (\<lambda>P. P\<lparr>index := 0\<rparr>) (goto_state s_header_value (MARK header_value e))
        in if ch = CR then
             CALLBACK_DATA S buf header_value
               (goto_state s_header_almost_done (update_parser (set_header_state h_general) e))
               (\<lambda>e. Break e)
           else if ch = LF then
             CALLBACK_DATA S buf header_value (goto_state s_header_field_start e) (\<lambda>e. Break e)
           else case header_state (parser e) of
             h_upgrade \<Rightarrow>
               Break (update_parser (\<lambda>P. set_header_state h_general (set_flag F_UPGRADE P)) e)
           | h_transfer_encoding \<Rightarrow>
               Break (update_parser (set_header_state
                 (if LOWER ch = CHR ''c'' then h_matching_transfer_encoding_chunked
                  else h_general)) e)
           | h_content_length \<Rightarrow>
               (if \<not> IS_NUM ch then fail_with HPE_INVALID_CONTENT_LENGTH e
                else Break (update_parser (\<lambda>P. P\<lparr>content_length := digit_value ch\<rparr>) e))
           | _ \<Rightarrow>
               Break (update_parser (set_header_state
                 (if ch = QT then h_general_and_quote else h_general)) e))"

text \<open>
  \<open>MOVE_FAST\<close>, \<open>n\<close> times from position \<open>p\<close>: the position reached, with the line end
  or quote that stops the run when there is one.
\<close>

fun move_fast :: "nat \<Rightarrow> string \<Rightarrow> nat \<Rightarrow> fault + nat \<times> char option" where
  "move_fast 0 buf p = Inr (p, None)"
| "move_fast (Suc n) buf p =
     (case read_byte buf (p + 1) of
        None \<Rightarrow> Inl Out_of_bounds
      | Some d \<Rightarrow>
          if d = CR \<or> d = LF \<or> d = QT then Inr (p + 1, Some d) else move_fast n buf (p + 1))"

lemma move_fast_stop:
  "move_fast n buf p = Inr (q, Some d) \<Longrightarrow> p < q \<and> q < length buf"
  by (induction n buf p rule: move_fast.induct)
    (auto split: option.splits if_splits simp: read_byte_def)

text \<open>The inner switch on \<open>header_state\<close>, for the states that look at one byte.\<close>

definition header_value_byte :: "char \<Rightarrow> 'u exec \<Rightarrow> 'u outcome" where
  "header_value_byte ch e =
     (case header_state (parser e) of
        h_general_and_quote \<Rightarrow>
          Break (if ch = QT then update_parser (set_header_state h_general) e
                 else if ch = BS then
                   update_parser (set_header_state h_general_and_quote_and_escape) e
                 else e)
      | h_general_and_quote_and_escape \<Rightarrow>
          Break (update_parser (set_header_state h_general_and_quote) e)
      | h_transfer_encoding \<Rightarrow> fail_with HPE_INVALID_HEADER_TOKEN e
      | h_content_length \<Rightarrow>
          (if ch = CHR '' '' then Break e
           else if \<not> IS_NUM ch then fail_with HPE_INVALID_CONTENT_LENGTH e
           else if content_length (parser e) > (INT64_MAX - 10) div 10 then
             fail_with HPE_HUGE_CONTENT_LENGTH e
           else shift_content_length 10 (digit_value ch) e)
      | h_matching_transfer_encoding_chunked \<Rightarrow>
          Break (update_parser (match_name CHUNKED h_transfer_encoding_chunked (LOWER ch)) e)
      | h_transfer_encoding_chunked \<Rightarrow>
          Break (if ch \<noteq> CHR '' '' then update_parser (set_header_state h_general) e else e)
      | _ \<Rightarrow>
          Break (goto_state s_header_value (update_parser (set_header_state h_general) e)))"

text \<open>
  The case of \<open>s_header_value\<close>, with the \<open>h_general\<close> branch of the inner switch. The
  jump back to \<open>cr_or_lf_or_qt\<close> is the recursive call; each jump has moved the read
  position on.
\<close>

function case_s_header_value ::
    "'u http_parser_settings \<Rightarrow> string \<Rightarrow> char \<Rightarrow> 'u exec \<Rightarrow> 'u outcome" where
  "case_s_header_value S buf ch e =
     (if ch = CR \<and> header_state (parser e) \<noteq> h_general_and_quote_and_escape then
        CALLBACK_DATA S buf header_value (goto_state s_header_almost_done e) (\<lambda>e. Break e)
      else if ch = LF \<and> header_state (parser e) \<noteq> h_general_and_quote_and_escape then
        CALLBACK_DATA_NOADVANCE S buf header_value (goto_state s_header_almost_done e)
          (\<lambda>e. Reexecute ch e)
      else if header_state (parser e) = h_general then
        (let e' = (if ch = QT then update_parser (set_header_state h_general_and_quote) e
                   else e);
             left = length buf - pos e;
             n = (if 12 \<le> left then 11 else if 5 \<le> left then 4 else 0)
         in case move_fast n buf (pos e) of
              Inl f \<Rightarrow> Fault f
            | Inr (p, None) \<Rightarrow> Break (e'\<lparr>pos := p\<rparr>)
            | Inr (p, Some d) \<Rightarrow> case_s_header_value S buf d (e'\<lparr>pos := p\<rparr>))
      else header_value_byte ch e)"
  by pat_completeness auto

termination
  by (relation "measure (\<lambda>(S, buf, ch, e). length buf - pos e)")
    (auto simp: update_parser_def dest!: move_fast_stop intro: diff_less_mono2)

declare case_s_header_value.simps [simp del]

text \<open>The three ways the case goes, one rule each.\<close>

lemma header_value_line_end:
  assumes "header_state (parser e) \<noteq> h_general_and_quote_and_escape"
  shows "case_s_header_value S buf CR e =
      CALLBACK_DATA S buf header_value (goto_state s_header_almost_done e) (\<lambda>e. Break e)"
    and "case_s_header_value S buf LF e =
      CALLBACK_DATA_NOADVANCE S buf header_value (goto_state s_header_almost_done e)
        (\<lambda>e. Reexecute LF e)"
  using assms by (simp_all add: case_s_header_value.simps)

lemma header_value_general:
  assumes "ch \<noteq> CR" "ch \<noteq> LF" "header_state (parser e) = h_general"
  shows "case_s_header_value S buf ch e =
     (let e' = (if ch = QT then update_parser (set_header_state h_general_and_quote) e else e);
          left = length buf - pos e;
          n = (if 12 \<le> left then 11 else if 5 \<le> left then 4 else 0)
      in case move_fast n buf (pos e) of
           Inl f \<Rightarrow> Fault f
         | Inr (p, None) \<Rightarrow> Break (e'\<lparr>pos := p\<rparr>)
         | Inr (p, Some d) \<Rightarrow> case_s_header_value S buf d (e'\<lparr>pos := p\<rparr>))"
  by (subst case_s_header_value.simps) (simp add: assms)

lemma header_value_other:
  assumes "ch \<noteq> CR \<and> ch \<noteq> LF \<or> header_state (parser e) = h_general_and_quote_and_escape"
    and "header_state (parser e) \<noteq> h_general"
  shows "case_s_header_value S buf ch e = header_value_byte ch e"
  using assms by (subst case_s_header_value.simps) auto

text \<open>
  Proving something of the case: it is enough to treat a line end, a run of bytes that
  is not stopped, a fault of the run, and one byte in another state, since a run that is
  stopped starts the case again further on.
\<close>

lemma header_value_rule [consumes 1, case_names cr lf fault run byte]:
  assumes "Inv ch e"
    and cr: "\<And>e. Inv CR e \<Longrightarrow> header_state (parser e) \<noteq> h_general_and_quote_and_escape \<Longrightarrow>
      P (CALLBACK_DATA S buf header_value (goto_state s_header_almost_done e) (\<lambda>e. Break e))"
    and lf: "\<And>e. Inv LF e \<Longrightarrow> header_state (parser e) \<noteq> h_general_and_quote_and_escape \<Longrightarrow>
      P (CALLBACK_DATA_NOADVANCE S buf header_value (goto_state s_header_almost_done e)
           (\<lambda>e. Reexecute LF e))"
    and fault: "\<And>ch e n f. Inv ch e \<Longrightarrow> header_state (parser e) = h_general \<Longrightarrow>
      n = 0 \<or> pos e + n < length buf \<Longrightarrow> move_fast n buf (pos e) = Inl f \<Longrightarrow> P (Fault f)"
    and run: "\<And>ch e n q d h. Inv ch e \<Longrightarrow> ch \<noteq> CR \<Longrightarrow> ch \<noteq> LF \<Longrightarrow>
      header_state (parser e) = h_general \<Longrightarrow> h = (if ch = QT then h_general_and_quote else h_general) \<Longrightarrow>
      n = 0 \<or> pos e + n < length buf \<Longrightarrow> move_fast n buf (pos e) = Inr (q, d) \<Longrightarrow>
      (case d of None \<Rightarrow> P (Break ((update_parser (set_header_state h) e)\<lparr>pos := q\<rparr>))
       | Some c \<Rightarrow> Inv c ((update_parser (set_header_state h) e)\<lparr>pos := q\<rparr>))"
    and byte: "\<And>ch e. Inv ch e \<Longrightarrow> header_state (parser e) \<noteq> h_general \<Longrightarrow>
      P (header_value_byte ch e)"
  shows "P (case_s_header_value S buf ch e)"
  using assms(1)
proof (induction S \<equiv> S buf \<equiv> buf ch e rule: case_s_header_value.induct)
  case (1 ch e)
  let ?esc = "header_state (parser e) = h_general_and_quote_and_escape"
  consider "ch = CR" "\<not> ?esc" | "ch = LF" "\<not> ?esc"
    | (general) "ch \<noteq> CR" "ch \<noteq> LF" "header_state (parser e) = h_general"
    | (other) "ch \<noteq> CR \<and> ch \<noteq> LF \<or> ?esc" "header_state (parser e) \<noteq> h_general"
    by fastforce
  then show ?case
  proof cases
    case general
    define n :: nat where "n = (let left = length buf - pos e
      in if 12 \<le> left then 11 else if 5 \<le> left then 4 else 0)"
    define e' where "e' = update_parser
      (set_header_state (if ch = QT then h_general_and_quote else h_general)) e"
    have e': "(if ch = QT then update_parser (set_header_state h_general_and_quote) e else e) = e'"
      using general by (simp add: e'_def update_parser_def set_header_state_def)
    have n: "n = 0 \<or> pos e + n < length buf"
      by (auto simp: n_def Let_def)
    show ?thesis
    proof (cases "move_fast n buf (pos e)")
      case (Inl f)
      from fault [OF "1.prems" general(3) n Inl] Inl general show ?thesis
        by (simp add: header_value_general n_def Let_def)
    next
      case (Inr r)
      obtain q d where r: "r = (q, d)" by (cases r)
      note next_inv = run [OF "1.prems" general refl n, folded e'_def, OF Inr [unfolded r]]
      show ?thesis
      proof (cases d)
        case None
        with next_inv Inr r general e' show ?thesis
          by (simp add: header_value_general n_def Let_def)
      next
        case (Some c)
        have "P (case_s_header_value S buf c (e'\<lparr>pos := q\<rparr>))"
          using "1.hyps" [OF _ _ general(3) e' [symmetric] refl _ Inr] next_inv Some r general
          by (simp add: n_def Let_def)
        with Some Inr r general e' show ?thesis
          by (simp add: header_value_general n_def Let_def)
      qed
    qed
  qed (use "1.prems" cr lf byte in \<open>auto simp: header_value_line_end header_value_other\<close>)
qed

definition case_s_header_almost_done ::
    "'u http_parser_settings \<Rightarrow> char \<Rightarrow> 'u exec \<Rightarrow> 'u outcome" where
  "case_s_header_almost_done S ch e =
     (let e = goto_state (if ch = LF then s_header_value_lws else s_header_value) e;
          e = (if header_state (parser e) = h_transfer_encoding_chunked
               then update_parser (set_flag F_CHUNKED) e else e)
      in if ch \<noteq> LF then CALLBACK_SPACE S e (\<lambda>e. Break e) else Break e)"

definition case_s_header_value_lws ::
    "'u http_parser_settings \<Rightarrow> char \<Rightarrow> 'u exec \<Rightarrow> 'u outcome" where
  "case_s_header_value_lws S ch e =
     (if ch = CHR '' '' \<or> ch = HT then
        CALLBACK_SPACE S (goto_state s_header_value_start e) (\<lambda>e. Break e)
      else Reexecute ch (goto_state s_header_field_start e))"

section \<open>The end of the headers\<close>

text \<open>
  \<open>on_headers_complete\<close> gets a null pointer and the number of bytes read; 1 means that
  the message has no body, anything else than 0 and 1 is an error.
\<close>

definition case_s_headers_almost_done ::
    "'u http_parser_settings \<Rightarrow> char \<Rightarrow> 'u exec \<Rightarrow> 'u outcome" where
  "case_s_headers_almost_done S ch e =
     (if has_flag F_TRAILING (parser e) then
        CALLBACK_NOTIFY_NOADVANCE (on_chunk_complete S) HPE_CB_chunk_complete
          (goto_state s_message_done e) (\<lambda>e. Reexecute ch e)
      else
        let e = update_parser
                  (\<lambda>P. P\<lparr>upgrade := has_flag F_UPGRADE P \<or> req_method P = HTTP_CONNECT\<rparr>)
                  (goto_state s_headers_done e);
            (r, P) = on_headers_complete S (parser e) (pos e + 1)
        in if r \<noteq> 0 \<and> r \<noteq> 1 then RETURN (pos e) (e\<lparr>parser := set_errno HPE_CB_headers_complete P\<rparr>)
           else
             let e = e\<lparr>parser := (if r = 1 then set_flag F_SKIPBODY P else P)\<rparr>
             in if http_errno (parser e) \<noteq> HPE_OK then RETURN (pos e) e else Reexecute ch e)"

definition case_s_headers_done ::
    "'u http_parser_settings \<Rightarrow> char \<Rightarrow> 'u exec \<Rightarrow> 'u outcome" where
  "case_s_headers_done S ch e =
     (let e = (update_parser (\<lambda>P. P\<lparr>nread := 0\<rparr>) e)\<lparr>header_data_start := pos e\<rparr>;
          P = parser e;
          hasBody = has_flag F_CHUNKED P \<or> content_length P > 0;
          complete = CALLBACK_NOTIFY (on_message_complete S) HPE_CB_message_complete
                       (NEW_MESSAGE e)
      in if upgrade P \<and> (req_method P = HTTP_CONNECT \<or> has_flag F_SKIPBODY P \<or> \<not> hasBody) then
           complete (\<lambda>e. RETURN (pos e + 1) e)
         else if has_flag F_SKIPBODY P then complete (\<lambda>e. Break e)
         else if has_flag F_CHUNKED P then Break (goto_state s_chunk_size_start e)
         else if content_length P = 0 then complete (\<lambda>e. Break e)
         else if content_length P > 0 then Break (goto_state s_body_identity e)
         else
           let sc = status_code P
           in if parser_type P = HTTP_REQUEST \<or> (100 \<le> sc \<and> sc \<le> 199) \<or> sc = 204 \<or> sc = 304
              then complete (\<lambda>e. Break e)
              else Break (goto_state s_body_identity_eof e))"

section \<open>The cases move forward\<close>

lemma move_the_head_le: "move_the_head n buf p = Inr (q, d) \<Longrightarrow> p \<le> q"
  by (induction n buf p rule: move_the_head.induct)
    (auto split: option.splits if_splits)

lemma move_fast_le: "move_fast n buf p = Inr (q, d) \<Longrightarrow> p \<le> q"
  by (induction n buf p rule: move_fast.induct)
    (auto split: option.splits if_splits)

lemma advances_header_value [advance_rules]:
  assumes "pos e \<le> pos e'" "local_state e = s_header_value"
  shows "advances e (case_s_header_value S buf ch e')"
proof (rule header_value_rule [where Inv = "\<lambda>_ e'. pos e \<le> pos e'"])
  show "pos e \<le> pos e'" by (rule assms)
next
  fix ch and e1 :: "'a exec" and n q d h
  assume "pos e \<le> pos e1" and "move_fast n buf (pos e1) = Inr (q, d)"
  then have "pos e \<le> q" by (auto dest: move_fast_le)
  then show "case d of
      None \<Rightarrow> advances e (Break ((update_parser (set_header_state h) e1)\<lparr>pos := q\<rparr>))
    | Some c \<Rightarrow> pos e \<le> pos ((update_parser (set_header_state h) e1)\<lparr>pos := q\<rparr>)"
    by (simp split: option.split)
next
  fix ch and e1 :: "'a exec"
  assume "pos e \<le> pos e1"
  then show "advances e (header_value_byte ch e1)"
    by (auto simp: header_value_byte_def macro_defs notatoken_def Let_def split: header_states.split)
qed (auto simp: macro_defs notatoken_def assms reexecution_rank_def)

lemma advances_header_field [advance_rules]: "advances e (case_s_header_field S buf ch e)"
proof (cases "TOKEN ch \<noteq> NUL \<and> header_state (parser e) = h_general")
  case True
  obtain n where eq: "case_s_header_field S buf ch e =
      (case move_the_head n buf (pos e) of
         Inl f \<Rightarrow> Fault f
       | Inr (p, None) \<Rightarrow> Break (e\<lparr>pos := p\<rparr>)
       | Inr (p, Some d) \<Rightarrow> notatoken S buf d (e\<lparr>pos := p\<rparr>))"
    using True by (simp add: case_s_header_field_def Let_def)
  show ?thesis
    by (auto simp: eq macro_defs notatoken_def dest!: move_the_head_le split: sum.split option.split)
next
  case False
  then show ?thesis
    by (cases "header_state (parser e)")
      (auto simp: case_s_header_field_def macro_defs notatoken_def Let_def)
qed

lemma advances_header_value_start [advance_rules]: "advances e (case_s_header_value_start S buf ch e)"
  by (cases "header_state (parser e)")
    (auto simp: case_s_header_value_start_def macro_defs notatoken_def MARK_def Let_def)

lemma advances_headers [advance_rules]:
  "local_state e = s_header_field_start \<Longrightarrow> advances e (case_s_header_field_start ch e)"
  "advances e (case_s_header_almost_done S ch e)"
  "local_state e = s_header_value_lws \<Longrightarrow> advances e (case_s_header_value_lws S ch e)"
  "local_state e = s_headers_almost_done \<Longrightarrow> advances e (case_s_headers_almost_done S ch e)"
  "advances e (case_s_headers_done S ch e)"
  by (simp_all add: case_s_header_field_start_def case_s_header_almost_done_def
      case_s_header_value_lws_def case_s_headers_almost_done_def case_s_headers_done_def
      macro_defs MARK_def Let_def reexecution_rank_def split_beta)

end
