(* ===== verification/Http_Body.thy ===== *)
theory Http_Body
  imports Http_Headers
begin

text \<open>
  The cases of the switch for the message body and the chunked coding
  (\<open>src/base/http/c/http_parser.c\<close>).
\<close>

section \<open>Bodies of known or unknown length\<close>

text \<open>
  \<open>MARK(body); content_length -= to_read; p += to_read - 1\<close>, with
  \<open>to_read = MIN(content_length, data + len - p)\<close>. It is reached with a positive
  \<open>content_length\<close> only: the assertion before it fails otherwise.
\<close>

definition read_body :: "string \<Rightarrow> 'u exec \<Rightarrow> 'u exec" where
  "read_body buf e =
     (let to_read = min (content_length (parser e)) (int (length buf) - int (pos e));
          e = update_parser (\<lambda>P. P\<lparr>content_length := content_length P - to_read\<rparr>) (MARK body e)
      in e\<lparr>pos := pos e + nat to_read - 1\<rparr>)"

definition case_s_body_identity ::
    "'u http_parser_settings \<Rightarrow> string \<Rightarrow> char \<Rightarrow> 'u exec \<Rightarrow> 'u outcome" where
  "case_s_body_identity S buf ch e =
     (if \<not> content_length (parser e) > 0 then Fault Assertion_failed
      else
        let e = read_body buf e
        in if content_length (parser e) = 0 then
             CALLBACK_DATA_RET S buf body (pos e + 1) (pos e) (goto_state s_message_done e)
               (\<lambda>e. Reexecute ch e)
           else Break e)"

definition case_s_body_identity_eof :: "string \<Rightarrow> char \<Rightarrow> 'u exec \<Rightarrow> 'u outcome" where
  "case_s_body_identity_eof buf ch e = Break ((MARK body e)\<lparr>pos := length buf - 1\<rparr>)"

definition case_s_message_done ::
    "'u http_parser_settings \<Rightarrow> char \<Rightarrow> 'u exec \<Rightarrow> 'u outcome" where
  "case_s_message_done S ch e =
     (let e = (update_parser (\<lambda>P. P\<lparr>nread := 0\<rparr>) (NEW_MESSAGE e))\<lparr>header_data_start := pos e\<rparr>
      in CALLBACK_NOTIFY (on_message_complete S) HPE_CB_message_complete e
           (\<lambda>e. if upgrade (parser e) then RETURN (pos e + 1) e else Break e))"

section \<open>Chunked bodies\<close>

definition case_s_chunk_size_start :: "char \<Rightarrow> 'u exec \<Rightarrow> 'u outcome" where
  "case_s_chunk_size_start ch e =
     (if \<not> has_flag F_CHUNKED (parser e) then Fault Assertion_failed
      else
        let unhex_val = unhex ! ord ch
        in if unhex_val = -1 then fail_with HPE_INVALID_CHUNK_SIZE e
           else Break (goto_state s_chunk_size
                  (update_parser (\<lambda>P. P\<lparr>content_length := unhex_val\<rparr>) e)))"

definition case_s_chunk_size :: "char \<Rightarrow> 'u exec \<Rightarrow> 'u outcome" where
  "case_s_chunk_size ch e =
     (if \<not> has_flag F_CHUNKED (parser e) then Fault Assertion_failed
      else if ch = CR then Break (goto_state s_chunk_size_almost_done e)
      else
        let unhex_val = unhex ! ord ch
        in if unhex_val = -1 then
             (if ch = CHR '';'' \<or> ch = CHR '' '' then Break (goto_state s_chunk_parameters e)
              else fail_with HPE_INVALID_CHUNK_SIZE e)
           else if content_length (parser e) > (INT64_MAX - unhex_val) div 16 then
             fail_with HPE_HUGE_CHUNK_SIZE e
           else shift_content_length 16 unhex_val e)"

definition case_s_chunk_parameters :: "char \<Rightarrow> 'u exec \<Rightarrow> 'u outcome" where
  "case_s_chunk_parameters ch e =
     (if \<not> has_flag F_CHUNKED (parser e) then Fault Assertion_failed
      else if ch = CR then Break (goto_state s_chunk_size_almost_done e)
      else Break e)"

definition case_s_chunk_size_almost_done ::
    "'u http_parser_settings \<Rightarrow> char \<Rightarrow> 'u exec \<Rightarrow> 'u outcome" where
  "case_s_chunk_size_almost_done S ch e =
     (if \<not> has_flag F_CHUNKED (parser e) then Fault Assertion_failed
      else if content_length (parser e) = 0 then
        CALLBACK_NOTIFY (on_chunk_header S) HPE_CB_chunk_header
          (goto_state s_header_field_start (update_parser (set_flag F_TRAILING) e))
          (\<lambda>e. Break e)
      else
        CALLBACK_NOTIFY (on_chunk_header S) HPE_CB_chunk_header
          (goto_state s_chunk_data e) (\<lambda>e. Break e))"

definition case_s_chunk_data :: "string \<Rightarrow> char \<Rightarrow> 'u exec \<Rightarrow> 'u outcome" where
  "case_s_chunk_data buf ch e =
     (if \<not> has_flag F_CHUNKED (parser e) \<or> \<not> content_length (parser e) > 0 then
        Fault Assertion_failed
      else
        let e = read_body buf e
        in if content_length (parser e) = 0 then Break (goto_state s_chunk_data_almost_done e)
           else Break e)"

definition case_s_chunk_data_almost_done ::
    "'u http_parser_settings \<Rightarrow> string \<Rightarrow> char \<Rightarrow> 'u exec \<Rightarrow> 'u outcome" where
  "case_s_chunk_data_almost_done S buf ch e =
     (if \<not> has_flag F_CHUNKED (parser e) \<or> content_length (parser e) \<noteq> 0 then
        Fault Assertion_failed
      else CALLBACK_DATA S buf body (goto_state s_chunk_data_done e) (\<lambda>e. Break e))"

definition case_s_chunk_data_done ::
    "'u http_parser_settings \<Rightarrow> char \<Rightarrow> 'u exec \<Rightarrow> 'u outcome" where
  "case_s_chunk_data_done S ch e =
     (if \<not> has_flag F_CHUNKED (parser e) then Fault Assertion_failed
      else
        CALLBACK_NOTIFY (on_chunk_complete S) HPE_CB_chunk_complete
          ((update_parser (\<lambda>P. P\<lparr>nread := 0\<rparr>) (goto_state s_chunk_size_start e))
             \<lparr>header_data_start := pos e\<rparr>)
          (\<lambda>e. Break e))"

section \<open>The cases move forward\<close>

lemma advances_bodies [advance_rules]:
  "local_state e = s_body_identity \<Longrightarrow> pos e < length buf \<Longrightarrow> advances e (case_s_body_identity S buf ch e)"
  "pos e < length buf \<Longrightarrow> advances e (case_s_body_identity_eof buf ch e)"
  "advances e (case_s_message_done S ch e)"
  "advances e (case_s_chunk_size_start ch e)"
  "advances e (case_s_chunk_size ch e)"
  "advances e (case_s_chunk_parameters ch e)"
  "advances e (case_s_chunk_size_almost_done S ch e)"
  "pos e < length buf \<Longrightarrow> advances e (case_s_chunk_data buf ch e)"
  "advances e (case_s_chunk_data_almost_done S buf ch e)"
  "advances e (case_s_chunk_data_done S ch e)"
  by (auto simp: case_s_body_identity_def case_s_body_identity_eof_def case_s_message_done_def
      case_s_chunk_size_start_def case_s_chunk_size_def case_s_chunk_parameters_def
      case_s_chunk_size_almost_done_def case_s_chunk_data_def
      case_s_chunk_data_almost_done_def case_s_chunk_data_done_def
      macro_defs MARK_def Let_def reexecution_rank_def read_body_def)

end
