(* ===== verification/Http_Exec.thy ===== *)
theory Http_Exec
  imports Http_Body
begin

text \<open>
  The switch, its reexecution, the loop over the buffer, and the entry points
  \<open>http_parser_execute\<close>, \<open>http_parser_init\<close> and \<open>http_parser_pause\<close>
  (\<open>src/base/http/c/http_parser.c\<close>).
\<close>

section \<open>The switch\<close>

definition case_default :: "'u exec \<Rightarrow> 'u outcome" where
  "case_default e = Fault Assertion_failed"

definition switch_state ::
    "'u http_parser_settings \<Rightarrow> string \<Rightarrow> char \<Rightarrow> 'u exec \<Rightarrow> 'u outcome" where
  "switch_state S buf ch e =
     (case local_state e of
        s_pre_start_req_or_res \<Rightarrow> case_s_pre_start_req_or_res S ch e
      | s_start_req_or_res \<Rightarrow> case_s_start_req_or_res ch e
      | s_res_or_resp_H \<Rightarrow> case_s_res_or_resp_H ch e
      | s_pre_start_res \<Rightarrow> case_s_pre_start_res S ch e
      | s_start_res \<Rightarrow> case_s_start_res ch e
      | s_res_H \<Rightarrow> case_s_res_H ch e
      | s_res_HT \<Rightarrow> case_s_res_HT ch e
      | s_res_HTT \<Rightarrow> case_s_res_HTT ch e
      | s_res_HTTP \<Rightarrow> case_s_res_HTTP ch e
      | s_res_first_http_major \<Rightarrow> case_s_res_first_http_major ch e
      | s_res_http_major \<Rightarrow> case_s_res_http_major ch e
      | s_res_first_http_minor \<Rightarrow> case_s_res_first_http_minor ch e
      | s_res_http_minor \<Rightarrow> case_s_res_http_minor ch e
      | s_res_first_status_code \<Rightarrow> case_s_res_first_status_code ch e
      | s_res_status_code \<Rightarrow> case_s_res_status_code ch e
      | s_res_status \<Rightarrow> case_s_res_status S buf ch e
      | s_res_line_almost_done \<Rightarrow> case_s_res_line_almost_done ch e
      | s_pre_start_req \<Rightarrow> case_s_pre_start_req S ch e
      | s_start_req \<Rightarrow> case_s_start_req ch e
      | s_req_method \<Rightarrow> case_s_req_method ch e
      | s_req_spaces_before_url \<Rightarrow> case_s_req_spaces_before_url ch e
      | s_req_schema \<Rightarrow> case_s_req_schema ch e
      | s_req_schema_slash \<Rightarrow> case_s_req_schema_slash ch e
      | s_req_schema_slash_slash \<Rightarrow> case_s_req_schema_slash_slash ch e
      | s_req_host_start \<Rightarrow> case_s_req_host_start ch e
      | s_req_host \<Rightarrow> case_s_req_host ch e
      | s_req_host_ipv6 \<Rightarrow> case_s_req_host_ipv6 ch e
      | s_req_host_done \<Rightarrow> case_s_req_host_done S buf ch e
      | s_req_port \<Rightarrow> case_s_req_port S buf ch e
      | s_req_path \<Rightarrow> case_s_req_path S buf ch e
      | s_req_query_string_start \<Rightarrow> case_s_req_query_string_start S buf ch e
      | s_req_query_string \<Rightarrow> case_s_req_query_string S buf ch e
      | s_req_fragment_start \<Rightarrow> case_s_req_fragment_start S buf ch e
      | s_req_fragment \<Rightarrow> case_s_req_fragment S buf ch e
      | s_req_http_start \<Rightarrow> case_s_req_http_start ch e
      | s_req_http_H \<Rightarrow> case_s_req_http_H ch e
      | s_req_http_HT \<Rightarrow> case_s_req_http_HT ch e
      | s_req_http_HTT \<Rightarrow> case_s_req_http_HTT ch e
      | s_req_http_HTTP \<Rightarrow> case_s_req_http_HTTP ch e
      | s_req_first_http_major \<Rightarrow> case_s_req_first_http_major ch e
      | s_req_http_major \<Rightarrow> case_s_req_http_major ch e
      | s_req_first_http_minor \<Rightarrow> case_s_req_first_http_minor ch e
      | s_req_http_minor \<Rightarrow> case_s_req_http_minor ch e
      | s_req_line_almost_done \<Rightarrow> case_s_req_line_almost_done ch e
      | s_header_field_start \<Rightarrow> case_s_header_field_start ch e
      | s_header_field \<Rightarrow> case_s_header_field S buf ch e
      | s_header_value_start \<Rightarrow> case_s_header_value_start S buf ch e
      | s_header_value \<Rightarrow> case_s_header_value S buf ch e
      | s_header_almost_done \<Rightarrow> case_s_header_almost_done S ch e
      | s_header_value_lws \<Rightarrow> case_s_header_value_lws S ch e
      | s_headers_almost_done \<Rightarrow> case_s_headers_almost_done S ch e
      | s_headers_done \<Rightarrow> case_s_headers_done S ch e
      | s_body_identity \<Rightarrow> case_s_body_identity S buf ch e
      | s_body_identity_eof \<Rightarrow> case_s_body_identity_eof buf ch e
      | s_message_done \<Rightarrow> case_s_message_done S ch e
      | s_chunk_size_start \<Rightarrow> case_s_chunk_size_start ch e
      | s_chunk_size \<Rightarrow> case_s_chunk_size ch e
      | s_chunk_parameters \<Rightarrow> case_s_chunk_parameters ch e
      | s_chunk_size_almost_done \<Rightarrow> case_s_chunk_size_almost_done S ch e
      | s_chunk_data \<Rightarrow> case_s_chunk_data buf ch e
      | s_chunk_data_almost_done \<Rightarrow> case_s_chunk_data_almost_done S buf ch e
      | s_chunk_data_done \<Rightarrow> case_s_chunk_data_done S ch e
      | _ \<Rightarrow> case_default e)"

lemma advances_switch_state:
  assumes "pos e < length buf"
  shows "advances e (switch_state S buf ch e)"
  by (cases "local_state e") (simp_all add: switch_state_def case_default_def advance_rules assms)

section \<open>The loop over the buffer\<close>

text \<open>
  The switch on one byte, started again for every \<open>goto reexecute_byte\<close>. The rank of
  the state falls each time.
\<close>

function execute_byte ::
    "'u http_parser_settings \<Rightarrow> string \<Rightarrow> char \<Rightarrow> 'u exec \<Rightarrow> 'u outcome" where
  "execute_byte S buf ch e =
     (if pos e < length buf then
        (case switch_state S buf ch e of
           Reexecute ch' e' \<Rightarrow> execute_byte S buf ch' e'
         | r \<Rightarrow> r)
      else Fault Out_of_bounds)"
  by pat_completeness auto

termination
proof (relation "measure (\<lambda>(S, buf, ch, e). reexecution_rank (local_state e))", goal_cases)
  case (2 S buf ch e ch' e')
  with advances_switch_state [of e buf S ch] show ?case by simp
qed simp

declare execute_byte.simps [simp del]

lemma execute_byte_advances: "execute_byte S buf ch e = Break e' \<Longrightarrow> pos e \<le> pos e'"
proof (induction S buf ch e rule: execute_byte.induct)
  case (1 S buf ch e)
  show ?case
  proof (cases "switch_state S buf ch e")
    case (Break e1)
    with "1.prems" advances_switch_state [of e buf S ch] show ?thesis
      by (auto simp: execute_byte.simps [of S buf ch e] split: if_splits)
  next
    case (Reexecute c e1)
    with "1.prems" have "pos e < length buf" "execute_byte S buf c e1 = Break e'"
      by (auto simp: execute_byte.simps [of S buf ch e] split: if_splits)
    with "1.IH" [OF this(1) Reexecute] Reexecute advances_switch_state [of e buf S ch]
    show ?thesis by simp
  qed (use "1.prems" in \<open>auto simp: execute_byte.simps [of S buf ch e] split: if_splits\<close>)
qed

text \<open>
  \<open>for (p = data; p != data + len; p++)\<close>. Leaving the loop at its end is the outcome
  \<open>Break\<close> with \<open>pos = len\<close>.
\<close>

function execute_loop :: "'u http_parser_settings \<Rightarrow> string \<Rightarrow> 'u exec \<Rightarrow> 'u outcome" where
  "execute_loop S buf e =
     (if pos e = length buf then Break e
      else case read_byte buf (pos e) of
        None \<Rightarrow> Fault Out_of_bounds
      | Some ch \<Rightarrow>
          (case execute_byte S buf ch e of
             Break e' \<Rightarrow> execute_loop S buf (e'\<lparr>pos := pos e' + 1\<rparr>)
           | r \<Rightarrow> r))"
  by pat_completeness auto

termination
  by (relation "measure (\<lambda>(S, buf, e). length buf - pos e)")
    (auto simp: read_byte_def split: if_splits dest: execute_byte_advances
      intro!: diff_less_mono2)

declare execute_loop.simps [simp del]

section \<open>The entry points\<close>

text \<open>The label \<open>error\<close>.\<close>

definition at_error :: "'u exec \<Rightarrow> 'u outcome" where
  "at_error e =
     RETURN (pos e)
       (if http_errno (parser e) = HPE_OK then update_parser (set_errno HPE_UNKNOWN) e else e)"

definition HTTP_MAX_HEADER_SIZE :: "32 word" where
  "HTTP_MAX_HEADER_SIZE = 81920"

definition marks_set :: "(data_cb \<Rightarrow> nat option) \<Rightarrow> nat" where
  "marks_set m =
     length (filter (\<lambda>FOR. m FOR \<noteq> None) [header_field, header_value, url, reason, body])"

text \<open>What follows the loop: the overflow check and the callbacks of the open marks.\<close>

definition after_loop :: "'u http_parser_settings \<Rightarrow> string \<Rightarrow> 'u exec \<Rightarrow> 'u outcome" where
  "after_loop S buf e =
     (let e = (if PARSING_HEADER (local_state e)
               then update_parser
                 (\<lambda>P. P\<lparr>nread := nread P + word_of_nat (pos e - header_data_start e)\<rparr>) e
               else e)
      in if PARSING_HEADER (local_state e) \<and> nread (parser e) > HTTP_MAX_HEADER_SIZE then
           at_error (update_parser (set_errno HPE_HEADER_OVERFLOW) e)
         else if \<not> marks_set (marks e) \<le> 1 then Fault Assertion_failed
         else CALLBACK_DATA_NOADVANCE S buf header_field e
           (\<lambda>e. CALLBACK_DATA_NOADVANCE S buf header_value e
           (\<lambda>e. CALLBACK_DATA_NOADVANCE S buf url e
           (\<lambda>e. CALLBACK_DATA_NOADVANCE S buf reason e
           (\<lambda>e. CALLBACK_DATA_NOADVANCE S buf body e
           (\<lambda>e. RETURN (length buf) e))))))"

text \<open>The marks of a call that goes on in the middle of a datum start at the buffer.\<close>

definition url_mark_states :: "http_state list" where
  "url_mark_states =
     [s_req_path, s_req_schema, s_req_schema_slash, s_req_schema_slash_slash, s_req_port,
      s_req_query_string_start, s_req_query_string, s_req_host_start, s_req_host,
      s_req_host_ipv6, s_req_host_done, s_req_fragment_start, s_req_fragment]"

fun initial_mark :: "http_state \<Rightarrow> data_cb \<Rightarrow> nat option" where
  "initial_mark s header_field = (if s = s_header_field then Some 0 else None)"
| "initial_mark s header_value = (if s = s_header_value then Some 0 else None)"
| "initial_mark s url = (if s \<in> set url_mark_states then Some 0 else None)"
| "initial_mark s reason = (if s = s_res_status then Some 0 else None)"
| "initial_mark s body = None"

definition initial_exec :: "'u http_parser \<Rightarrow> 'u exec" where
  "initial_exec P =
     \<lparr>parser = P, local_state = state P, pos = 0, marks = initial_mark (state P),
      header_data_start = 0\<rparr>"

text \<open>The call with \<open>len == 0\<close>, which tells the parser that the stream has ended.\<close>

definition execute_eof :: "'u http_parser_settings \<Rightarrow> 'u http_parser \<Rightarrow> 'u outcome" where
  "execute_eof S P =
     (let e = (initial_exec P)\<lparr>marks := (\<lambda>_. None)\<rparr>
      in if state P = s_body_identity_eof then
           CALLBACK_NOTIFY_NOADVANCE (on_message_complete S) HPE_CB_message_complete e
             (\<lambda>e. RETURN 0 e)
         else if state P = s_pre_start_req_or_res \<or> state P = s_pre_start_res \<or>
                 state P = s_pre_start_req then RETURN 0 e
         else RETURN 1 (update_parser (set_errno HPE_INVALID_EOF_STATE) e))"

definition execute_data ::
    "'u http_parser_settings \<Rightarrow> string \<Rightarrow> 'u http_parser \<Rightarrow> 'u outcome" where
  "execute_data S buf P =
     (case execute_loop S buf (initial_exec P) of
        Break e \<Rightarrow> after_loop S buf e
      | Goto_error e \<Rightarrow> at_error e
      | r \<Rightarrow> r)"

text \<open>The result of a call: the number of bytes parsed, with the parser it leaves.\<close>

definition http_parser_execute ::
    "'u http_parser_settings \<Rightarrow> 'u http_parser \<Rightarrow> string \<Rightarrow> fault + nat \<times> 'u http_parser" where
  "http_parser_execute S P buf =
     (case
        (if http_errno P \<noteq> HPE_OK then RETURN 0 (initial_exec P)
         else if buf = [] then execute_eof S P
         else execute_data S buf P) of
        Return n P' \<Rightarrow> Inr (n, P')
      | Fault f \<Rightarrow> Inl f
      | _ \<Rightarrow> Inl Assertion_failed)"

text \<open>
  \<open>http_parser_init\<close> sets some fields of a parser whose other fields keep what the
  memory held.
\<close>

definition http_parser_init :: "'u http_parser \<Rightarrow> http_parser_type \<Rightarrow> 'u http_parser" where
  "http_parser_init P t =
     P\<lparr>parser_type := t,
       state := (if t = HTTP_REQUEST then s_pre_start_req
                 else if t = HTTP_RESPONSE then s_pre_start_res
                 else s_pre_start_req_or_res),
       nread := 0, upgrade := False, flags := 0, req_method := HTTP_DELETE,
       http_errno := HPE_OK\<rparr>"

definition http_parser_pause :: "'u http_parser \<Rightarrow> bool \<Rightarrow> fault + 'u http_parser" where
  "http_parser_pause P paused =
     (if http_errno P = HPE_OK \<or> http_errno P = HPE_PAUSED
      then Inr (set_errno (if paused then HPE_PAUSED else HPE_OK) P)
      else Inl Assertion_failed)"

end
