(* ===== verification/Http_Safety.thy ===== *)
theory Http_Safety
  imports Http_Exec
begin

text \<open>
  Safety of \<open>http_parser_execute\<close>: from every parser that \<open>http_parser_init\<close>,
  \<open>http_parser_execute\<close> and \<open>http_parser_pause\<close> can produce, a call returns, no
  assertion fails, no byte is read outside the buffer and no signed addition overflows.
  The invariant of the parser, by its state, is \<open>state_inv\<close>.
\<close>

section \<open>The contract of the callbacks\<close>

text \<open>
  The source relies on callbacks that do not change the parser (the comment at the head
  of \<open>http_parser_execute\<close>); they may use \<open>data\<close> and may pause.
\<close>

definition keeps_parser :: "'u http_parser \<Rightarrow> 'u http_parser \<Rightarrow> bool" where
  "keeps_parser P P' \<longleftrightarrow>
     P' = P\<lparr>http_errno := http_errno P', user_data := user_data P'\<rparr> \<and>
     http_errno P' \<in> {HPE_OK, HPE_PAUSED}"

definition polite_cb :: "('u http_parser \<Rightarrow> int \<times> 'u http_parser) \<Rightarrow> bool" where
  "polite_cb cb \<longleftrightarrow> (\<forall>P. http_errno P = HPE_OK \<longrightarrow> keeps_parser P (snd (cb P)))"

definition polite :: "'u http_parser_settings \<Rightarrow> bool" where
  "polite S \<longleftrightarrow>
     polite_cb (on_message_begin S) \<and> polite_cb (on_message_complete S) \<and>
     polite_cb (on_chunk_header S) \<and> polite_cb (on_chunk_complete S) \<and>
     (\<forall>n. polite_cb (\<lambda>P. on_headers_complete S P n)) \<and>
     (\<forall>FOR s. polite_cb (\<lambda>P. on_data S FOR P s))"

lemma politeD:
  assumes "polite S"
  shows "polite_cb (on_message_begin S)" "polite_cb (on_message_complete S)"
    "polite_cb (on_chunk_header S)" "polite_cb (on_chunk_complete S)"
    "polite_cb (\<lambda>P. on_headers_complete S P n)" "polite_cb (\<lambda>P. on_data S FOR P s)"
  using assms by (simp_all add: polite_def)

section \<open>The invariant\<close>

text \<open>What the fields of a parser satisfy in each state.\<close>

definition field_inv ::
    "http_state \<Rightarrow> int \<Rightarrow> 6 word \<Rightarrow> header_states \<Rightarrow> 8 word \<Rightarrow> http_method \<Rightarrow> bool" where
  "field_inv s len fl h i m =
     (case s of
        s_dead \<Rightarrow> False | s_res_status_start \<Rightarrow> False | s_req_server_start \<Rightarrow> False
      | s_req_server \<Rightarrow> False | s_req_server_with_at \<Rightarrow> False
      | s_req_method \<Rightarrow> unat i \<le> length (http_method_str m)
      | s_header_field \<Rightarrow>
          h \<in> {h_general, h_matching_content_length, h_matching_transfer_encoding,
            h_matching_upgrade, h_content_length, h_transfer_encoding, h_upgrade}
      | s_header_value \<Rightarrow> h = h_content_length \<longrightarrow> 0 \<le> len
      | s_header_almost_done \<Rightarrow> h = h_content_length \<longrightarrow> 0 \<le> len
      | s_body_identity \<Rightarrow> 0 < len
      | s_chunk_size_start \<Rightarrow> fl AND F_CHUNKED \<noteq> 0
      | s_chunk_size \<Rightarrow> fl AND F_CHUNKED \<noteq> 0 \<and> 0 \<le> len
      | s_chunk_parameters \<Rightarrow> fl AND F_CHUNKED \<noteq> 0 \<and> 0 \<le> len
      | s_chunk_size_almost_done \<Rightarrow> fl AND F_CHUNKED \<noteq> 0 \<and> 0 \<le> len
      | s_chunk_data \<Rightarrow> fl AND F_CHUNKED \<noteq> 0 \<and> 0 < len
      | s_chunk_data_almost_done \<Rightarrow> fl AND F_CHUNKED \<noteq> 0 \<and> len = 0
      | s_chunk_data_done \<Rightarrow> fl AND F_CHUNKED \<noteq> 0
      | _ \<Rightarrow> True)"

definition state_inv :: "http_state \<Rightarrow> 'u http_parser \<Rightarrow> bool" where
  "state_inv s P \<longleftrightarrow>
     int64_ok (content_length P) \<and>
     field_inv s (content_length P) (flags P) (header_state P) (index P) (req_method P)"

text \<open>A parser between two calls: the invariant matters while it can still run.\<close>

definition parser_inv :: "'u http_parser \<Rightarrow> bool" where
  "parser_inv P \<longleftrightarrow> http_errno P \<in> {HPE_OK, HPE_PAUSED} \<longrightarrow> state_inv (state P) P"

text \<open>The one mark that may be set in a state.\<close>

definition mark_of :: "http_state \<Rightarrow> data_cb option" where
  "mark_of s =
     (case s of
        s_header_field \<Rightarrow> Some header_field
      | s_header_value \<Rightarrow> Some header_value
      | s_res_status \<Rightarrow> Some reason
      | s_req_schema \<Rightarrow> Some url | s_req_schema_slash \<Rightarrow> Some url
      | s_req_schema_slash_slash \<Rightarrow> Some url | s_req_host_start \<Rightarrow> Some url
      | s_req_host \<Rightarrow> Some url | s_req_host_ipv6 \<Rightarrow> Some url | s_req_host_done \<Rightarrow> Some url
      | s_req_port \<Rightarrow> Some url | s_req_path \<Rightarrow> Some url | s_req_query_string_start \<Rightarrow> Some url
      | s_req_query_string \<Rightarrow> Some url | s_req_fragment_start \<Rightarrow> Some url
      | s_req_fragment \<Rightarrow> Some url
      | s_body_identity \<Rightarrow> Some body | s_body_identity_eof \<Rightarrow> Some body
      | s_chunk_data \<Rightarrow> Some body | s_chunk_data_almost_done \<Rightarrow> Some body
      | _ \<Rightarrow> None)"

text \<open>A mark, where one is set, is at most a position.\<close>

definition mark_le :: "nat \<Rightarrow> nat option \<Rightarrow> bool" where
  "mark_le n m = pred_option (\<lambda>k. k \<le> n) m"

lemma mark_le_simps [simp]: "mark_le n None" "mark_le n (Some k) \<longleftrightarrow> k \<le> n"
  by (simp_all add: mark_le_def)

lemma mark_le_mono: "mark_le n m \<Longrightarrow> n \<le> n' \<Longrightarrow> mark_le n' m"
  by (cases m) auto

definition marks_inv :: "'u exec \<Rightarrow> bool" where
  "marks_inv e \<longleftrightarrow>
     (\<forall>FOR. mark_of (local_state e) \<noteq> Some FOR \<longrightarrow> marks e FOR = None) \<and>
     (\<forall>FOR. mark_le (pos e) (marks e FOR))"

definition exec_inv :: "'u exec \<Rightarrow> bool" where
  "exec_inv e \<longleftrightarrow>
     http_errno (parser e) = HPE_OK \<and> state_inv (local_state e) (parser e) \<and>
     header_data_start e \<le> pos e \<and> marks_inv e"

text \<open>
  How a call may stop: it has read the whole buffer, or it leaves an error, or the
  connection switches to another protocol.
\<close>

definition stops_well :: "string \<Rightarrow> nat \<Rightarrow> 'u http_parser \<Rightarrow> bool" where
  "stops_well buf n P \<longleftrightarrow>
     n \<le> length buf \<and> (n = length buf \<or> http_errno P \<noteq> HPE_OK \<or> upgrade P)"

definition safe :: "string \<Rightarrow> 'u outcome \<Rightarrow> bool" where
  "safe buf = outcome_all
     (\<lambda>e. exec_inv e \<and> pos e < length buf) (\<lambda>_ e. exec_inv e \<and> pos e < length buf)
     (\<lambda>n P. stops_well buf n P \<and> parser_inv P)
     (\<lambda>e. pos e < length buf \<and> http_errno (parser e) \<noteq> HPE_PAUSED) False"

lemma safe_simps [simp]:
  "safe buf (Break e) \<longleftrightarrow> exec_inv e \<and> pos e < length buf"
  "safe buf (Reexecute c e) \<longleftrightarrow> exec_inv e \<and> pos e < length buf"
  "safe buf (Return n P) \<longleftrightarrow> stops_well buf n P \<and> parser_inv P"
  "safe buf (Goto_error e) \<longleftrightarrow> pos e < length buf \<and> http_errno (parser e) \<noteq> HPE_PAUSED"
  "\<not> safe buf (Fault f)"
  by (simp_all add: safe_def)

section \<open>The macros keep the invariant\<close>

lemma state_inv_update [simp]:
  "state_inv s (P\<lparr>state := s'\<rparr>) = state_inv s P"
  "state_inv s (P\<lparr>http_errno := er\<rparr>) = state_inv s P"
  "state_inv s (P\<lparr>user_data := u\<rparr>) = state_inv s P"
  "state_inv s (P\<lparr>nread := n\<rparr>) = state_inv s P"
  "state_inv s (P\<lparr>upgrade := b\<rparr>) = state_inv s P"
  "state_inv s (P\<lparr>parser_type := t\<rparr>) = state_inv s P"
  "state_inv s (P\<lparr>http_major := w\<rparr>) = state_inv s P"
  "state_inv s (P\<lparr>http_minor := w\<rparr>) = state_inv s P"
  "state_inv s (P\<lparr>status_code := w\<rparr>) = state_inv s P"
  by (simp_all add: state_inv_def)

lemma http_errno_same: "http_errno P = er \<Longrightarrow> P\<lparr>http_errno := er\<rparr> = P"
  by (cases P) simp

lemma after_callback_polite:
  assumes "polite_cb cb" "http_errno P = HPE_OK" "er \<noteq> HPE_OK" "er \<noteq> HPE_PAUSED"
    and "ret \<le> length buf" "state_inv (state P) P"
    and "\<And>u. safe buf (k (P\<lparr>user_data := u\<rparr>))"
  shows "safe buf (after_callback er ret (cb P) k)"
proof -
  obtain r P' where rP: "cb P = (r, P')" by (cases "cb P")
  from assms(1,2) rP have P': "P' = P\<lparr>http_errno := http_errno P', user_data := user_data P'\<rparr>"
    and errno: "http_errno P' = HPE_OK \<or> http_errno P' = HPE_PAUSED"
    by (auto simp: polite_cb_def keeps_parser_def dest: spec [of _ P])
  have k: "safe buf (k P')" if "http_errno P' = HPE_OK"
  proof -
    from P' that assms(2) have "P' = P\<lparr>user_data := user_data P'\<rparr>"
      by (metis http_errno_same)
    then show ?thesis using assms(7) [of "user_data P'"] by simp
  qed
  have "state P' = state P" by (subst P') simp
  moreover have "state_inv s P' = state_inv s P" for s by (subst P') simp
  ultimately have inv: "state_inv (state P') P'" using assms(6) by simp
  show ?thesis
    using k inv errno assms(3-5)
    by (auto simp: after_callback_def rP Let_def parser_inv_def set_errno_def stops_well_def)
qed

lemma safe_CALLBACK_NOTIFY_RET [simp]:
  assumes "polite_cb cb" "http_errno (parser e) = HPE_OK" "er \<noteq> HPE_OK" "er \<noteq> HPE_PAUSED"
    and "ret \<le> length buf" "state_inv (local_state e) (parser e)"
    and "\<And>u. safe buf (k (e\<lparr>parser := (sync e)\<lparr>user_data := u\<rparr>\<rparr>))"
  shows "safe buf (CALLBACK_NOTIFY_RET cb er ret e k)"
  unfolding CALLBACK_NOTIFY_RET_def Let_def
  using assms by (auto simp: sync_def intro!: after_callback_polite)

lemma safe_CALLBACK_DATA_RET [simp]:
  assumes "polite S" "http_errno (parser e) = HPE_OK"
    and "ret \<le> length buf" "state_inv (local_state e) (parser e)"
    and range: "mark_le fin (marks e FOR)" "fin \<le> length buf"
    and k: "\<And>u. safe buf (k (e\<lparr>parser := (sync e)\<lparr>user_data := u\<rparr>,
                               marks := (marks e)(FOR := None)\<rparr>))"
  shows "safe buf (CALLBACK_DATA_RET S buf FOR fin ret e k)"
proof (cases "marks e FOR")
  case None
  have "(sync e)\<lparr>user_data := user_data (sync e)\<rparr> = sync e" by simp
  moreover have "(marks e)(FOR := None) = marks e" using None by (simp add: fun_upd_idem)
  moreover have "e\<lparr>parser := sync e, marks := marks e\<rparr> = e\<lparr>parser := sync e\<rparr>" by simp
  ultimately have "safe buf (k (e\<lparr>parser := sync e\<rparr>))"
    using k [of "user_data (sync e)"] by metis
  with None assms(2) show ?thesis
    by (simp add: CALLBACK_DATA_RET_def sync_def)
next
  case (Some m)
  have "data_errno FOR \<noteq> HPE_OK" "data_errno FOR \<noteq> HPE_PAUSED"
    by (cases FOR; simp)+
  with Some assms politeD(6) [OF assms(1)] show ?thesis
    by (auto simp: CALLBACK_DATA_RET_def sync_def Let_def not_less
        intro!: after_callback_polite [where cb = "\<lambda>P. on_data S FOR P s" for s])
qed

text \<open>The common shape: the callback of a datum ends it, then \<open>break\<close>.\<close>

lemma safe_data_break [simp]:
  assumes "polite S" "http_errno (parser e) = HPE_OK" "state_inv (local_state e) (parser e)"
    and "header_data_start e \<le> pos e" "pos e < length buf"
    and "\<And>F. FOR \<noteq> F \<Longrightarrow> marks e F = None" "mark_le (pos e) (marks e FOR)"
  shows "safe buf (CALLBACK_DATA S buf FOR e (\<lambda>e. Break e))"
  unfolding CALLBACK_DATA_def
proof (rule safe_CALLBACK_DATA_RET)
  fix u
  have "mark_le (pos e) (marks e F)" for F
    using assms(6,7) by (cases "FOR = F") auto
  with assms show
    "safe buf (Break (e\<lparr>parser := (sync e)\<lparr>user_data := u\<rparr>, marks := (marks e)(FOR := None)\<rparr>))"
    by (auto simp: exec_inv_def marks_inv_def sync_def)
qed (use assms in auto)

lemma safe_CALLBACK_SPACE [simp]:
  assumes "polite S" "http_errno (parser e) = HPE_OK" "pos e \<le> length buf"
    and "state_inv (local_state e) (parser e)"
    and "\<And>u. safe buf (k (e\<lparr>parser := (sync e)\<lparr>user_data := u\<rparr>\<rparr>))"
  shows "safe buf (CALLBACK_SPACE S e k)"
  unfolding CALLBACK_SPACE_def
  using assms politeD(6) [OF assms(1), of header_value "'' ''"]
  by (auto simp: sync_def intro!: after_callback_polite)

lemma safe_fail_with [simp]:
  "er \<noteq> HPE_PAUSED \<Longrightarrow> safe buf (fail_with er e) \<longleftrightarrow> pos e < length buf"
  by (simp add: fail_with_def update_parser_def set_errno_def)

lemma safe_RETURN [simp]:
  "safe buf (RETURN n e) \<longleftrightarrow> n \<le> length buf \<and>
     (n = length buf \<or> http_errno (parser e) \<noteq> HPE_OK \<or> upgrade (parser e)) \<and>
     (http_errno (parser e) \<in> {HPE_OK, HPE_PAUSED} \<longrightarrow> state_inv (local_state e) (parser e))"
  by (simp add: RETURN_def sync_def parser_inv_def stops_well_def)

end
