(* ===== verification/Http_Safety_Cases.thy ===== *)
theory Http_Safety_Cases
  imports Http_Safety
begin

text \<open>
  Every case of the switch keeps \<open>exec_inv\<close>: the lemmas \<open>safe_rules\<close>, one for each
  state that a parser can be in.
\<close>

section \<open>The cases keep the invariant\<close>

named_theorems safe_rules \<open>each case of the switch keeps the invariant\<close>

lemmas safe_unfold =
  exec_inv_def state_inv_def field_inv_def marks_inv_def mark_of_def MARK_def sync_def
  update_parser_def NEW_MESSAGE_def start_state_def reset_message_def
  set_http_major_def set_http_minor_def set_status_code_def set_http_0_9_def end_url_def
  set_header_state_def set_flag_def has_flag_def
  CALLBACK_NOTIFY_def CALLBACK_NOTIFY_NOADVANCE_def CALLBACK_DATA_NOADVANCE_def Let_def

lemma safe_lines [safe_rules]:
  assumes "polite S" "exec_inv e" "pos e < length buf"
  shows "local_state e = s_pre_start_req_or_res \<Longrightarrow> safe buf (case_s_pre_start_req_or_res S ch e)"
    and "local_state e = s_start_req_or_res \<Longrightarrow> safe buf (case_s_start_req_or_res ch e)"
    and "local_state e = s_res_or_resp_H \<Longrightarrow> safe buf (case_s_res_or_resp_H ch e)"
    and "local_state e = s_pre_start_res \<Longrightarrow> safe buf (case_s_pre_start_res S ch e)"
    and "local_state e = s_start_res \<Longrightarrow> safe buf (case_s_start_res ch e)"
    and "local_state e = s_pre_start_req \<Longrightarrow> safe buf (case_s_pre_start_req S ch e)"
    and "local_state e = s_res_H \<Longrightarrow> safe buf (case_s_res_H ch e)"
    and "local_state e = s_res_HT \<Longrightarrow> safe buf (case_s_res_HT ch e)"
    and "local_state e = s_res_HTT \<Longrightarrow> safe buf (case_s_res_HTT ch e)"
    and "local_state e = s_res_HTTP \<Longrightarrow> safe buf (case_s_res_HTTP ch e)"
    and "local_state e = s_res_first_http_major \<Longrightarrow> safe buf (case_s_res_first_http_major ch e)"
    and "local_state e = s_res_http_major \<Longrightarrow> safe buf (case_s_res_http_major ch e)"
    and "local_state e = s_res_first_http_minor \<Longrightarrow> safe buf (case_s_res_first_http_minor ch e)"
    and "local_state e = s_res_http_minor \<Longrightarrow> safe buf (case_s_res_http_minor ch e)"
    and "local_state e = s_res_first_status_code \<Longrightarrow> safe buf (case_s_res_first_status_code ch e)"
    and "local_state e = s_res_status_code \<Longrightarrow> safe buf (case_s_res_status_code ch e)"
    and "local_state e = s_res_status \<Longrightarrow> safe buf (case_s_res_status S buf ch e)"
    and "local_state e = s_res_line_almost_done \<Longrightarrow> safe buf (case_s_res_line_almost_done ch e)"
    and "local_state e = s_req_spaces_before_url \<Longrightarrow> safe buf (case_s_req_spaces_before_url ch e)"
    and "local_state e = s_req_schema \<Longrightarrow> safe buf (case_s_req_schema ch e)"
    and "local_state e = s_req_schema_slash \<Longrightarrow> safe buf (case_s_req_schema_slash ch e)"
    and "local_state e = s_req_schema_slash_slash \<Longrightarrow> safe buf (case_s_req_schema_slash_slash ch e)"
    and "local_state e = s_req_host_start \<Longrightarrow> safe buf (case_s_req_host_start ch e)"
    and "local_state e = s_req_host \<Longrightarrow> safe buf (case_s_req_host ch e)"
    and "local_state e = s_req_host_ipv6 \<Longrightarrow> safe buf (case_s_req_host_ipv6 ch e)"
    and "local_state e = s_req_host_done \<Longrightarrow> safe buf (case_s_req_host_done S buf ch e)"
    and "local_state e = s_req_port \<Longrightarrow> safe buf (case_s_req_port S buf ch e)"
    and "local_state e = s_req_path \<Longrightarrow> safe buf (case_s_req_path S buf ch e)"
    and "local_state e = s_req_query_string_start \<Longrightarrow> safe buf (case_s_req_query_string_start S buf ch e)"
    and "local_state e = s_req_query_string \<Longrightarrow> safe buf (case_s_req_query_string S buf ch e)"
    and "local_state e = s_req_fragment_start \<Longrightarrow> safe buf (case_s_req_fragment_start S buf ch e)"
    and "local_state e = s_req_fragment \<Longrightarrow> safe buf (case_s_req_fragment S buf ch e)"
    and "local_state e = s_req_http_start \<Longrightarrow> safe buf (case_s_req_http_start ch e)"
    and "local_state e = s_req_http_H \<Longrightarrow> safe buf (case_s_req_http_H ch e)"
    and "local_state e = s_req_http_HT \<Longrightarrow> safe buf (case_s_req_http_HT ch e)"
    and "local_state e = s_req_http_HTT \<Longrightarrow> safe buf (case_s_req_http_HTT ch e)"
    and "local_state e = s_req_http_HTTP \<Longrightarrow> safe buf (case_s_req_http_HTTP ch e)"
    and "local_state e = s_req_first_http_major \<Longrightarrow> safe buf (case_s_req_first_http_major ch e)"
    and "local_state e = s_req_http_major \<Longrightarrow> safe buf (case_s_req_http_major ch e)"
    and "local_state e = s_req_first_http_minor \<Longrightarrow> safe buf (case_s_req_first_http_minor ch e)"
    and "local_state e = s_req_http_minor \<Longrightarrow> safe buf (case_s_req_http_minor ch e)"
    and "local_state e = s_req_line_almost_done \<Longrightarrow> safe buf (case_s_req_line_almost_done ch e)"
  using assms
  by (simp_all add: case_s_pre_start_req_or_res_def case_s_start_req_or_res_def
      case_s_res_or_resp_H_def case_s_pre_start_res_def case_s_start_res_def
      case_s_pre_start_req_def case_s_res_H_def case_s_res_HT_def case_s_res_HTT_def
      case_s_res_HTTP_def case_s_res_first_http_major_def case_s_res_http_major_def
      case_s_res_first_http_minor_def case_s_res_http_minor_def
      case_s_res_first_status_code_def case_s_res_status_code_def case_s_res_status_def
      case_s_res_line_almost_done_def case_s_req_spaces_before_url_def
      case_s_req_schema_def case_s_req_schema_slash_def
      case_s_req_schema_slash_slash_def case_s_req_host_start_def case_s_req_host_def
      case_s_req_host_ipv6_def case_s_req_host_done_def case_s_req_port_def
      case_s_req_path_def case_s_req_query_string_start_def case_s_req_query_string_def
      case_s_req_fragment_start_def case_s_req_fragment_def case_s_req_http_start_def
      case_s_req_http_H_def case_s_req_http_HT_def case_s_req_http_HTT_def
      case_s_req_http_HTTP_def case_s_req_first_http_major_def case_s_req_http_major_def
      case_s_req_first_http_minor_def case_s_req_http_minor_def
      case_s_req_line_almost_done_def
      safe_unfold politeD int64_ok_def INT64_MAX_def)

lemma safe_headers [safe_rules]:
  assumes "polite S" "exec_inv e" "pos e < length buf"
  shows "local_state e = s_header_almost_done \<Longrightarrow> safe buf (case_s_header_almost_done S ch e)"
    and "local_state e = s_header_value_lws \<Longrightarrow> safe buf (case_s_header_value_lws S ch e)"
    and "local_state e = s_headers_done \<Longrightarrow> safe buf (case_s_headers_done S ch e)"
  using assms
  by (simp_all add: case_s_header_almost_done_def case_s_header_value_lws_def case_s_headers_done_def
      safe_unfold politeD int64_ok_def INT64_MAX_def)

lemma safe_bodies [safe_rules]:
  assumes "polite S" "exec_inv e" "pos e < length buf"
  shows "local_state e = s_message_done \<Longrightarrow> safe buf (case_s_message_done S ch e)"
    and "local_state e = s_chunk_parameters \<Longrightarrow> safe buf (case_s_chunk_parameters ch e)"
    and "local_state e = s_chunk_size_almost_done \<Longrightarrow> safe buf (case_s_chunk_size_almost_done S ch e)"
    and "local_state e = s_chunk_data_almost_done \<Longrightarrow> safe buf (case_s_chunk_data_almost_done S buf ch e)"
    and "local_state e = s_chunk_data_done \<Longrightarrow> safe buf (case_s_chunk_data_done S ch e)"
  using assms
  by (simp_all add: case_s_message_done_def case_s_chunk_parameters_def
      case_s_chunk_size_almost_done_def case_s_chunk_data_almost_done_def
      case_s_chunk_data_done_def
      safe_unfold politeD int64_ok_def INT64_MAX_def)

text \<open>The method: the index stays inside the string of the current method.\<close>

lemma safe_start_req [safe_rules]:
  assumes "polite S" "exec_inv e" "pos e < length buf" "local_state e = s_start_req"
  shows "safe buf (case_s_start_req ch e)"
proof -
  have "0 < length (http_method_str m)" for m by (cases m) simp_all
  then have "Suc 0 \<le> length (http_method_str m)" for m by (simp add: Suc_le_eq)
  with assms show ?thesis
    by (simp add: case_s_start_req_def safe_unfold int64_ok_def INT64_MAX_def split: option.split)
qed

lemma switch_method_length:
  assumes "switch_method m i ch = Inr m'"
  shows "unat i < length (http_method_str m')"
  using assms by (auto simp: switch_method_def split: if_splits)

lemma switch_method_error: "switch_method m i ch = Inl (Some er) \<Longrightarrow> er = HPE_INVALID_METHOD"
  by (auto simp: switch_method_def split: if_splits)

lemma method_index_step:
  assumes "unat (i :: 8 word) < length (http_method_str m)"
  shows "unat (i + 1) \<le> length (http_method_str m)"
proof -
  have "length (http_method_str m) < 256" by (cases m) simp_all
  with assms have "unat i + 1 < 256" by simp
  then have "unat (i + 1) = unat i + 1"
    using unat_add_lem [of i 1] by simp
  with assms show ?thesis by simp
qed

lemma safe_req_method [safe_rules]:
  assumes "polite S" "exec_inv e" "pos e < length buf" "local_state e = s_req_method"
  shows "safe buf (case_s_req_method ch e)"
proof (cases "ch = NUL")
  case True
  with assms show ?thesis by (simp add: case_s_req_method_def)
next
  case False
  let ?m = "http_method_str (req_method (parser e))" and ?i = "index (parser e)"
  from assms have le: "unat ?i \<le> length ?m"
    by (simp add: exec_inv_def state_inv_def field_inv_def)
  then obtain c where c: "read_cstring ?m (unat ?i) = Some c"
    by (auto simp: read_cstring_def read_byte_def)
  have lt: "unat ?i < length ?m" if "c \<noteq> NUL"
    using c le that by (cases "unat ?i = length ?m") (auto simp: read_cstring_end)
  show ?thesis
    using assms c False lt
    by (auto simp: case_s_req_method_def safe_unfold Let_def dest: switch_method_length switch_method_error
        intro: method_index_step split: sum.split option.split)
qed

section \<open>Header names\<close>

lemma move_the_head_inside:
  "p + n < length buf \<Longrightarrow> \<exists>q d. move_the_head n buf p = Inr (q, d) \<and> p \<le> q \<and> q < length buf"
  by (induction n buf p rule: move_the_head.induct) (force split: option.split)+

lemma safe_header_field_start [safe_rules]:
  assumes "polite S" "exec_inv e" "pos e < length buf" "local_state e = s_header_field_start"
  shows "safe buf (case_s_header_field_start ch e)"
  using assms
  by (simp add: case_s_header_field_start_def start_header_state_def safe_unfold
      int64_ok_def INT64_MAX_def)

lemma match_name_fields [simp]:
  "content_length (match_name name found c P) = content_length P"
  "flags (match_name name found c P) = flags P"
  "http_errno (match_name name found c P) = http_errno P"
  "header_state (match_name name found c P) \<in> {h_general, found, header_state P}"
  by (auto simp: match_name_def Let_def set_header_state_def)

lemma safe_match_name:
  assumes "exec_inv e" "pos e < length buf" "local_state e = s_header_field"
    and "found \<in> {h_content_length, h_transfer_encoding, h_upgrade}"
  shows "safe buf (Break (update_parser (match_name name found c) e))"
proof -
  have "header_state (match_name name found c (parser e)) \<in> {h_general, h_matching_content_length,
      h_matching_transfer_encoding, h_matching_upgrade, h_content_length, h_transfer_encoding,
      h_upgrade}"
    using assms match_name_fields(4) [of name found c "parser e"]
    by (auto simp: exec_inv_def state_inv_def field_inv_def)
  with assms show ?thesis by (simp add: safe_unfold)
qed

lemma safe_header_field [safe_rules]:
  assumes "polite S" "exec_inv e" "pos e < length buf" "local_state e = s_header_field"
  shows "safe buf (case_s_header_field S buf ch e)"
proof -
  have notatoken: "safe buf (notatoken S buf d (e\<lparr>pos := q\<rparr>))"
    if "pos e \<le> q" "q < length buf" for d q
  proof -
    have "mark_le q (marks e F)" for F
      using assms(2) that(1) by (auto simp: exec_inv_def marks_inv_def intro: mark_le_mono)
    with assms that show ?thesis
      by (simp add: notatoken_def safe_unfold)
  qed
  show ?thesis
  proof (cases "TOKEN ch \<noteq> NUL \<and> header_state (parser e) = h_general")
    case True
    define left where "left = length buf - pos e"
    define n :: nat where "n = (if 9 \<le> left then 8 else if 4 \<le> left then 3 else 0)"
    have "pos e + n < length buf"
      using assms(3) by (auto simp: n_def left_def)
    then obtain q d where q: "move_the_head n buf (pos e) = Inr (q, d)" "pos e \<le> q" "q < length buf"
      using move_the_head_inside by blast
    have "case_s_header_field S buf ch e =
        (case d of None \<Rightarrow> Break (e\<lparr>pos := q\<rparr>) | Some d \<Rightarrow> notatoken S buf d (e\<lparr>pos := q\<rparr>))"
      using True q by (simp add: case_s_header_field_def Let_def left_def [symmetric] n_def [symmetric])
    with assms q notatoken [OF q(2,3)] show ?thesis
      by (auto simp: safe_unfold split: option.split intro: mark_le_mono)
  next
    case False
    have "safe buf (notatoken S buf ch e)"
      using notatoken [of "pos e" ch] assms(3) by simp
    moreover note safe_match_name [OF assms(2-4)]
    ultimately show ?thesis
      using False assms(2-)
      by (cases "header_state (parser e)")
        (auto simp: case_s_header_field_def Let_def exec_inv_def state_inv_def field_inv_def
          update_parser_def set_header_state_def marks_inv_def mark_of_def)
  qed
qed

section \<open>Header values\<close>

lemma safe_header_value_start [safe_rules]:
  assumes "polite S" "exec_inv e" "pos e < length buf" "local_state e = s_header_value_start"
  shows "safe buf (case_s_header_value_start S buf ch e)"
proof (cases "header_state (parser e) = h_content_length")
  case True
  have "int64_ok (digit_value ch) \<and> 0 \<le> digit_value ch" if "IS_NUM ch"
    using IS_NUM_digit_value [OF that] by (auto simp: int64_ok_def INT64_MAX_def)
  with True assms show ?thesis
    by (simp add: case_s_header_value_start_def safe_unfold)
next
  case False
  with assms show ?thesis
    by (cases "header_state (parser e)") (simp_all add: case_s_header_value_start_def safe_unfold)
qed

lemma move_fast_inside:
  "p + n < length buf \<Longrightarrow> \<exists>q d. move_fast n buf p = Inr (q, d) \<and> p \<le> q \<and> q < length buf"
  by (induction n buf p rule: move_fast.induct) (force split: option.split)+

lemma shift_content_length_ok:
  assumes "0 \<le> content_length (parser e)" "0 \<le> d" "0 < base"
    and "content_length (parser e) \<le> (INT64_MAX - d) div base"
  defines "x \<equiv> content_length (parser e) * base + d"
  shows "shift_content_length base d e = Break (update_parser (\<lambda>P. P\<lparr>content_length := x\<rparr>) e)"
    and "0 \<le> x" "int64_ok x"
proof -
  let ?c = "content_length (parser e)"
  have "?c * base \<le> (INT64_MAX - d) div base * base"
    using assms by (intro mult_right_mono) auto
  also have "\<dots> \<le> INT64_MAX - d"
    using assms(3) by (simp add: minus_mod_eq_div_mult [symmetric])
  finally have le: "?c * base + d \<le> INT64_MAX" by simp
  moreover have nonneg: "0 \<le> ?c * base" using assms by simp
  ultimately have ok: "int64_ok (?c * base)" "int64_ok (?c * base + d)"
    using assms(2) by (simp_all add: int64_ok_def INT64_MAX_def)
  then show "shift_content_length base d e = Break (update_parser (\<lambda>P. P\<lparr>content_length := x\<rparr>) e)"
    by (simp add: shift_content_length_def Let_def x_def)
  show "0 \<le> x" "int64_ok x" using ok nonneg assms(2) by (simp_all add: x_def)
qed

lemma content_length_guard:
  assumes "IS_NUM ch" "x \<le> (INT64_MAX - 10) div 10"
  shows "x \<le> (INT64_MAX - digit_value ch) div 10"
proof -
  have "(INT64_MAX - 10) div 10 \<le> (INT64_MAX - digit_value ch) div 10"
    using IS_NUM_digit_value [OF assms(1)] by (intro zdiv_mono1) auto
  with assms(2) show ?thesis by simp
qed

lemma safe_header_value_byte:
  assumes "exec_inv e" "pos e < length buf" "local_state e = s_header_value"
  shows "safe buf (header_value_byte ch e)"
proof (cases "header_state (parser e) = h_content_length")
  case True
  have len: "0 \<le> content_length (parser e)"
    using assms True by (simp add: exec_inv_def state_inv_def field_inv_def)
  show ?thesis
  proof (cases "ch = CHR '' '' \<or> \<not> IS_NUM ch \<or> content_length (parser e) > (INT64_MAX - 10) div 10")
    case stop: True
    with assms True show ?thesis
      by (auto simp: header_value_byte_def)
  next
    case False
    then have guard: "IS_NUM ch" "content_length (parser e) \<le> (INT64_MAX - 10) div 10"
      by auto
    note ok = shift_content_length_ok [OF len _ _ content_length_guard [OF guard]]
    have "0 \<le> digit_value ch" using IS_NUM_digit_value [OF guard(1)] by simp
    with assms True False ok show ?thesis
      by (simp add: header_value_byte_def safe_unfold)
  qed
next
  case False
  with assms show ?thesis
    by (cases "header_state (parser e)")
      (auto simp: header_value_byte_def safe_unfold match_name_def)
qed

lemma safe_header_value [safe_rules]:
  fixes e :: "'u exec"
  assumes "polite S" "exec_inv e" "pos e < length buf" "local_state e = s_header_value"
  shows "safe buf (case_s_header_value S buf ch e)"
proof (rule header_value_rule [where
      Inv = "\<lambda>_ e. exec_inv e \<and> pos e < length buf \<and> local_state e = s_header_value"])
  fix ch and e :: "'u exec" and n f
  assume "exec_inv e \<and> pos e < length buf \<and> local_state e = s_header_value"
    and "n = 0 \<or> pos e + n < length buf" "move_fast n buf (pos e) = Inl f"
  moreover from this have "pos e + n < length buf" by auto
  ultimately show "safe buf (Fault f)"
    using move_fast_inside [of "pos e" n buf] by auto
next
  fix ch and e :: "'u exec" and n q d h
  assume e: "exec_inv e \<and> pos e < length buf \<and> local_state e = s_header_value"
    and h: "h = (if ch = QT then h_general_and_quote else h_general)"
    and n: "n = 0 \<or> pos e + n < length buf" and q: "move_fast n buf (pos e) = Inr (q, d)"
  have inside: "pos e \<le> q" "q < length buf"
    using move_fast_inside [of "pos e" n buf] n e q by auto
  have "mark_le q (marks e F)" for F
    using e inside by (auto simp: exec_inv_def marks_inv_def intro: mark_le_mono)
  with e h inside show "case d of
      None \<Rightarrow> safe buf (Break ((update_parser (set_header_state h) e)\<lparr>pos := q\<rparr>))
    | Some c \<Rightarrow> exec_inv ((update_parser (set_header_state h) e)\<lparr>pos := q\<rparr>) \<and>
        pos ((update_parser (set_header_state h) e)\<lparr>pos := q\<rparr>) < length buf \<and>
        local_state ((update_parser (set_header_state h) e)\<lparr>pos := q\<rparr>) = s_header_value"
    by (auto simp: safe_unfold split: option.split)
next
  fix e :: "'u exec"
  assume "exec_inv e \<and> pos e < length buf \<and> local_state e = s_header_value"
  then have e: "local_state e = s_header_value" "exec_inv e" "pos e < length buf" by auto
  with assms(1) show "safe buf (CALLBACK_DATA S buf header_value
      (goto_state s_header_almost_done e) (\<lambda>e. Break e))"
    by (simp add: safe_unfold)
  from assms(1) e show "safe buf (CALLBACK_DATA_NOADVANCE S buf header_value
      (goto_state s_header_almost_done e) (\<lambda>e. Reexecute LF e))"
    by (simp add: safe_unfold)
qed (use assms safe_header_value_byte in auto)

section \<open>The end of the headers\<close>

lemma keeps_parserE:
  assumes "keeps_parser P P'"
  obtains er u where "P' = P\<lparr>http_errno := er, user_data := u\<rparr>" "er = HPE_OK \<or> er = HPE_PAUSED"
  using assms by (auto simp: keeps_parser_def)

lemma safe_headers_almost_done [safe_rules]:
  assumes "polite S" "exec_inv e" "pos e < length buf" "local_state e = s_headers_almost_done"
  shows "safe buf (case_s_headers_almost_done S ch e)"
proof (cases "has_flag F_TRAILING (parser e)")
  case True
  with assms show ?thesis
    by (simp add: case_s_headers_almost_done_def safe_unfold politeD)
next
  case False
  define P where
    "P = (parser e)\<lparr>upgrade := has_flag F_UPGRADE (parser e) \<or> req_method (parser e) = HTTP_CONNECT\<rparr>"
  obtain r P' where r: "on_headers_complete S P (pos e + 1) = (r, P')"
    by (cases "on_headers_complete S P (pos e + 1)")
  have errno: "http_errno P = HPE_OK" and inv: "int64_ok (content_length P)"
    using assms(2) by (simp_all add: P_def exec_inv_def state_inv_def)
  have "keeps_parser P P'"
    using politeD(5) [OF assms(1), of "pos e + 1"] errno r
    by (auto simp: polite_cb_def dest: spec [of _ P])
  then obtain er u where P': "P' = P\<lparr>http_errno := er, user_data := u\<rparr>"
      "er = HPE_OK \<or> er = HPE_PAUSED"
    by (rule keeps_parserE)
  show ?thesis
    using assms False r P'(2) inv
    by (auto simp: P'(1) case_s_headers_almost_done_def safe_unfold P_def set_errno_def)
qed

section \<open>Bodies\<close>

lemma read_body_fields:
  assumes "0 < content_length (parser e)" "pos e < length buf"
  shows "local_state (read_body buf e) = local_state e"
    and "http_errno (parser (read_body buf e)) = http_errno (parser e)"
    and "flags (parser (read_body buf e)) = flags (parser e)"
    and "header_data_start (read_body buf e) = header_data_start e"
    and "FOR \<noteq> body \<Longrightarrow> marks (read_body buf e) FOR = marks e FOR"
    and "pos e \<le> pos (read_body buf e)" "pos (read_body buf e) < length buf"
    and "0 \<le> content_length (parser (read_body buf e))"
    and "content_length (parser (read_body buf e)) \<le> content_length (parser e)"
  using assms
  by (auto simp: read_body_def Let_def update_parser_def MARK_def min_def)

lemma read_body_marks:
  assumes "0 < content_length (parser e)" "pos e < length buf" "\<And>F. mark_le (pos e) (marks e F)"
  shows "mark_le (pos (read_body buf e)) (marks (read_body buf e) FOR)"
proof -
  have "mark_le (pos e) (marks (read_body buf e) FOR)"
    using assms(3) by (auto simp: read_body_def Let_def update_parser_def MARK_def)
  with read_body_fields(6) [OF assms(1,2)] show ?thesis by (rule mark_le_mono [rotated])
qed

lemma safe_body_identity [safe_rules]:
  assumes "polite S" "exec_inv e" "pos e < length buf" "local_state e = s_body_identity"
  shows "safe buf (case_s_body_identity S buf ch e)"
proof -
  have len: "0 < content_length (parser e)" and le: "mark_le (pos e) (marks e F)" for F
    using assms by (auto simp: exec_inv_def state_inv_def field_inv_def marks_inv_def)
  note read = read_body_fields [OF len assms(3)] read_body_marks [OF len assms(3) le]
  from read(10) [of body] have "mark_le (Suc (pos (read_body buf e))) (marks (read_body buf e) body)"
    by (rule mark_le_mono) simp
  with assms len read show ?thesis
    by (simp add: case_s_body_identity_def safe_unfold Suc_le_eq int64_ok_def INT64_MAX_def)
qed

lemma safe_body_identity_eof [safe_rules]:
  assumes "polite S" "exec_inv e" "pos e < length buf" "local_state e = s_body_identity_eof"
  shows "safe buf (case_s_body_identity_eof buf ch e)"
  using assms
  by (auto simp: case_s_body_identity_eof_def safe_unfold intro: mark_le_mono)

lemma safe_chunk_size_start [safe_rules]:
  assumes "polite S" "exec_inv e" "pos e < length buf" "local_state e = s_chunk_size_start"
  shows "safe buf (case_s_chunk_size_start ch e)"
  using assms unhex_range [of ch]
  by (auto simp: case_s_chunk_size_start_def safe_unfold politeD int64_ok_def INT64_MAX_def)

lemma safe_chunk_size [safe_rules]:
  assumes "polite S" "exec_inv e" "pos e < length buf" "local_state e = s_chunk_size"
  shows "safe buf (case_s_chunk_size ch e)"
proof -
  have len: "0 \<le> content_length (parser e)"
    using assms by (simp add: exec_inv_def state_inv_def field_inv_def)
  note ok = shift_content_length_ok [OF len _ _, of "unhex ! ord ch" 16]
  show ?thesis
    using assms unhex_range [of ch] ok
    by (auto simp: case_s_chunk_size_def safe_unfold not_less)
qed

lemma safe_chunk_data [safe_rules]:
  assumes "polite S" "exec_inv e" "pos e < length buf" "local_state e = s_chunk_data"
  shows "safe buf (case_s_chunk_data buf ch e)"
proof -
  have len: "0 < content_length (parser e)" and le: "mark_le (pos e) (marks e F)" for F
    using assms by (auto simp: exec_inv_def state_inv_def field_inv_def marks_inv_def)
  note read = read_body_fields [OF len assms(3)] read_body_marks [OF len assms(3) le]
  from assms len read show ?thesis
    by (simp add: case_s_chunk_data_def safe_unfold int64_ok_def INT64_MAX_def)
qed

end
