(* ===== verification/Http_Execute_Safe.thy ===== *)
theory Http_Execute_Safe
  imports Http_Safety_Cases
begin

text \<open>
  From the cases to the call: the switch, the loop and the entry points keep
  \<open>parser_inv\<close>, so every parser a program can hold satisfies it (\<open>reachable_inv\<close>).
\<close>

section \<open>The switch, the loop and the call\<close>

lemma safe_switch_state:
  assumes "polite S" "exec_inv e" "pos e < length buf"
  shows "safe buf (switch_state S buf ch e)"
proof -
  have "local_state e \<notin> {s_dead, s_res_status_start, s_req_server_start, s_req_server,
      s_req_server_with_at}"
    using assms(2) by (auto simp: exec_inv_def state_inv_def field_inv_def)
  with assms show ?thesis
    by (cases "local_state e") (simp_all add: switch_state_def safe_rules)
qed

text \<open>The outcomes after the reexecutions: a \<open>Reexecute\<close> is not among them.\<close>

lemma safe_execute_byte:
  assumes "polite S" "exec_inv e" "pos e < length buf"
  shows "safe buf (execute_byte S buf ch e) \<and> (\<forall>c e'. execute_byte S buf ch e \<noteq> Reexecute c e')"
  using assms
proof (induction S buf ch e rule: execute_byte.induct)
  case (1 S buf ch e)
  from safe_switch_state [OF "1.prems", of ch] "1.IH" [OF "1.prems"(3)] "1.prems"
  show ?case
    by (cases "switch_state S buf ch e") (simp_all add: execute_byte.simps [of S buf ch e])
qed

definition loop_safe :: "string \<Rightarrow> 'u outcome \<Rightarrow> bool" where
  "loop_safe buf = outcome_all
     (\<lambda>e. exec_inv e \<and> pos e = length buf) (\<lambda>_ _. False)
     (\<lambda>n P. stops_well buf n P \<and> parser_inv P)
     (\<lambda>e. pos e < length buf \<and> http_errno (parser e) \<noteq> HPE_PAUSED) False"

lemma exec_inv_next: "exec_inv e \<Longrightarrow> exec_inv (e\<lparr>pos := pos e + 1\<rparr>)"
  by (auto simp: exec_inv_def marks_inv_def intro: mark_le_mono)

lemma safe_execute_loop:
  assumes "polite S" "exec_inv e" "pos e \<le> length buf"
  shows "loop_safe buf (execute_loop S buf e)"
  using assms
proof (induction S buf e rule: execute_loop.induct)
  case (1 S buf e)
  show ?case
  proof (cases "pos e = length buf")
    case True
    with "1.prems" show ?thesis by (simp add: execute_loop.simps [of S buf e] loop_safe_def)
  next
    case False
    with "1.prems" have lt: "pos e < length buf" by simp
    then have ch: "read_byte buf (pos e) = Some (buf ! pos e)" by (simp add: read_byte_def)
    note byte = safe_execute_byte [OF "1.prems"(1,2) lt, of "buf ! pos e"]
    note IH = "1.IH" [OF False ch _ "1.prems"(1)]
    from byte IH exec_inv_next ch False show ?thesis
      by (cases "execute_byte S buf (buf ! pos e) e")
        (auto simp: execute_loop.simps [of S buf e] loop_safe_def Suc_le_eq)
  qed
qed

lemma exec_inv_initial:
  assumes "parser_inv P" "http_errno P = HPE_OK"
  shows "exec_inv (initial_exec P)"
proof -
  have "mark_le 0 (initial_mark (state P) FOR)"
    "mark_of (state P) \<noteq> Some FOR \<Longrightarrow> initial_mark (state P) FOR = None" for FOR
    by (cases FOR; auto simp: mark_of_def url_mark_states_def split: http_state.splits)+
  with assms show ?thesis
    by (simp add: exec_inv_def initial_exec_def parser_inv_def marks_inv_def)
qed

lemma marks_set_le:
  assumes "exec_inv e"
  shows "marks_set (marks e) \<le> 1"
proof -
  have "marks e FOR = None" if "mark_of (local_state e) \<noteq> Some FOR" for FOR
    using assms that by (simp add: exec_inv_def marks_inv_def)
  then show ?thesis
    by (cases "mark_of (local_state e)"; cases "the (mark_of (local_state e))")
      (auto simp: marks_set_def)
qed

lemma safe_at_error:
  assumes "pos e \<le> length buf" "http_errno (parser e) \<noteq> HPE_PAUSED"
  shows "safe buf (at_error e)"
  using assms by (auto simp: at_error_def update_parser_def set_errno_def)

lemma safe_after_loop:
  assumes "polite S" "exec_inv e" "pos e = length buf"
  shows "safe buf (after_loop S buf e)"
proof -
  let ?n = "\<lambda>P. P\<lparr>nread := nread P + word_of_nat (length buf - header_data_start e)\<rparr>"
  have mark: "mark_le (length buf) (marks e F)" for F
    using assms by (simp add: exec_inv_def marks_inv_def)
  have e: "http_errno (parser e) = HPE_OK" "state_inv (local_state e) (parser e)"
    using assms(2) by (simp_all add: exec_inv_def)
  note set_le = marks_set_le [OF assms(2)]
  show ?thesis
    using assms(1,3) mark e set_le
    by (simp add: after_loop_def Let_def safe_at_error update_parser_def set_errno_def
        CALLBACK_DATA_NOADVANCE_def sync_def)
qed

text \<open>The code after the loop ends in a \<open>return\<close>.\<close>

definition finishes :: "'u outcome \<Rightarrow> bool" where
  "finishes = outcome_all (\<lambda>_. False) (\<lambda>_ _. False) (\<lambda>_ _. True) (\<lambda>_. False) True"

lemma finishes_macros [simp]:
  "finishes (RETURN n e)" "finishes (at_error e)"
  "(\<And>P. finishes (k P)) \<Longrightarrow> finishes (after_callback er ret rP k)"
  "(\<And>e. finishes (k' e)) \<Longrightarrow> finishes (CALLBACK_DATA_RET S buf FOR fin ret e k')"
  "(\<And>e. finishes (k' e)) \<Longrightarrow> finishes (CALLBACK_NOTIFY_RET cb er ret e k')"
  by (auto simp: finishes_def RETURN_def at_error_def after_callback_def Let_def
      CALLBACK_DATA_RET_def CALLBACK_NOTIFY_RET_def split: option.split)

lemma finishes_after_loop: "finishes (after_loop S buf e)"
  by (simp add: after_loop_def Let_def CALLBACK_DATA_NOADVANCE_def) (simp add: finishes_def)

lemma safe_finishes:
  "safe buf r \<Longrightarrow> finishes r \<Longrightarrow> \<exists>n P'. r = Return n P' \<and> stops_well buf n P' \<and> parser_inv P'"
  by (cases r) (auto simp: finishes_def)

lemma safe_execute_data:
  assumes "polite S" "parser_inv P" "http_errno P = HPE_OK"
  shows "\<exists>n P'. execute_data S buf P = Return n P' \<and> stops_well buf n P' \<and> parser_inv P'"
proof -
  have "loop_safe buf (execute_loop S buf (initial_exec P))"
    using assms by (intro safe_execute_loop exec_inv_initial) (simp_all add: initial_exec_def)
  then show ?thesis
    using safe_after_loop [OF assms(1), of _ buf] finishes_after_loop [of S buf]
      safe_at_error [OF less_imp_le, of _ buf]
    by (cases "execute_loop S buf (initial_exec P)")
      (auto simp: execute_data_def loop_safe_def intro!: safe_finishes)
qed

lemma safe_execute_eof:
  assumes "polite S" "parser_inv P" "http_errno P = HPE_OK"
  shows "\<exists>n P'. execute_eof S P = Return n P' \<and> n \<le> 1 \<and> parser_inv P' \<and>
    (n = 0 \<or> http_errno P' \<noteq> HPE_OK)"
proof (cases "state P = s_body_identity_eof")
  case True
  with assms have "state_inv s_body_identity_eof P" by (simp add: parser_inv_def)
  with True assms have "safe [] (execute_eof S P)"
    by (simp add: execute_eof_def Let_def initial_exec_def politeD CALLBACK_NOTIFY_NOADVANCE_def
        sync_def)
  moreover have "finishes (execute_eof S P)"
    by (simp add: execute_eof_def Let_def CALLBACK_NOTIFY_NOADVANCE_def)
  ultimately show ?thesis
    using safe_finishes [of "[]" "execute_eof S P"] by (auto simp: stops_well_def)
next
  case False
  with assms show ?thesis
    by (auto simp: execute_eof_def initial_exec_def RETURN_def sync_def update_parser_def
        set_errno_def parser_inv_def Let_def)
qed

theorem execute_keeps_inv:
  assumes "polite S" "parser_inv P"
  shows "\<exists>n P'. http_parser_execute S P buf = Inr (n, P') \<and> n \<le> max 1 (length buf) \<and>
    (n = length buf \<or> http_errno P' \<noteq> HPE_OK \<or> upgrade P') \<and> parser_inv P'"
proof -
  consider "http_errno P \<noteq> HPE_OK" | "http_errno P = HPE_OK" "buf = []"
    | "http_errno P = HPE_OK" "buf \<noteq> []" by blast
  then show ?thesis
  proof cases
    case 1
    with assms(2) show ?thesis
      by (auto simp: http_parser_execute_def RETURN_def sync_def initial_exec_def)
  next
    case 2
    with safe_execute_eof [OF assms] show ?thesis
      by (auto simp: http_parser_execute_def)
  next
    case 3
    with safe_execute_data [OF assms, of buf] show ?thesis
      by (auto simp: http_parser_execute_def le_max_iff_disj stops_well_def)
  qed
qed

section \<open>The parsers that a program can hold\<close>

text \<open>
  A parser comes from \<open>http_parser_init\<close> (its other fields hold anything an \<open>int64_t\<close>
  can), and goes through calls of \<open>http_parser_execute\<close>, \<open>http_parser_pause\<close> and changes of \<open>data\<close>.
\<close>

inductive reachable :: "'u http_parser_settings \<Rightarrow> 'u http_parser \<Rightarrow> bool" for S where
  init: "int64_ok (content_length P) \<Longrightarrow> reachable S (http_parser_init P t)"
| execute: "reachable S P \<Longrightarrow> http_parser_execute S P buf = Inr (n, P') \<Longrightarrow> reachable S P'"
| pause: "reachable S P \<Longrightarrow> http_parser_pause P b = Inr P' \<Longrightarrow> reachable S P'"
| set_data: "reachable S P \<Longrightarrow> reachable S (P\<lparr>user_data := u\<rparr>)"

lemma reachable_inv:
  assumes "polite S" "reachable S P"
  shows "parser_inv P"
  using assms(2)
proof induction
  case (init P t)
  then show ?case
    by (auto simp: http_parser_init_def parser_inv_def state_inv_def field_inv_def)
next
  case (execute P buf n P')
  with execute_keeps_inv [OF assms(1), of P buf] show ?case by auto
next
  case (pause P b P')
  then show ?case
    by (auto simp: http_parser_pause_def parser_inv_def set_errno_def split: if_splits)
next
  case (set_data P u)
  then show ?case by (simp add: parser_inv_def)
qed

end
