(* ===== verification/Http_Url.thy ===== *)
theory Http_Url
  imports Http_Chars Ctype
begin

text \<open>
  The URL parser of \<open>src/base/http/c/http_parser.c\<close>: \<open>parse_url_char\<close>,
  \<open>http_parse_host_char\<close>, \<open>http_parse_host\<close> and \<open>http_parser_parse_url\<close>. A pointer
  into the URL is an offset; the memory from \<open>buf\<close> on is a list of bytes that may go on
  after the URL, because \<open>strtoul\<close> reads on to the first byte that is not a digit.
\<close>

section \<open>The result structure\<close>

datatype http_parser_url_fields =
  UF_SCHEMA | UF_HOST | UF_PORT | UF_PATH | UF_QUERY | UF_FRAGMENT | UF_USERINFO | UF_MAX

fun uf_number :: "http_parser_url_fields \<Rightarrow> nat" where
  "uf_number UF_SCHEMA = 0"
| "uf_number UF_HOST = 1"
| "uf_number UF_PORT = 2"
| "uf_number UF_PATH = 3"
| "uf_number UF_QUERY = 4"
| "uf_number UF_FRAGMENT = 5"
| "uf_number UF_USERINFO = 6"
| "uf_number UF_MAX = 7"

record http_parser_url =
  field_set :: "16 word"
  port :: "16 word"
  field_off :: "http_parser_url_fields \<Rightarrow> 16 word"
  field_len :: "http_parser_url_fields \<Rightarrow> 16 word"

text \<open>\<open>1 << uf\<close>, as a field of the mask.\<close>

definition uf_bit :: "http_parser_url_fields \<Rightarrow> 16 word" where
  "uf_bit uf = push_bit (uf_number uf) 1"

definition has_field :: "http_parser_url_fields \<Rightarrow> http_parser_url \<Rightarrow> bool" where
  "has_field uf u \<longleftrightarrow> field_set u AND uf_bit uf \<noteq> 0"

definition set_off :: "http_parser_url_fields \<Rightarrow> nat \<Rightarrow> http_parser_url \<Rightarrow> http_parser_url" where
  "set_off uf p u = u\<lparr>field_off := (field_off u)(uf := word_of_nat p)\<rparr>"

definition set_len :: "http_parser_url_fields \<Rightarrow> 16 word \<Rightarrow> http_parser_url \<Rightarrow> http_parser_url" where
  "set_len uf n u = u\<lparr>field_len := (field_len u)(uf := n)\<rparr>"

definition inc_len :: "http_parser_url_fields \<Rightarrow> http_parser_url \<Rightarrow> http_parser_url" where
  "inc_len uf u = set_len uf (field_len u uf + 1) u"

definition add_field :: "http_parser_url_fields \<Rightarrow> http_parser_url \<Rightarrow> http_parser_url" where
  "add_field uf u = u\<lparr>field_set := field_set u OR uf_bit uf\<rparr>"

section \<open>One byte of a URL\<close>

definition parse_url_char :: "http_state \<Rightarrow> char \<Rightarrow> http_state" where
  "parse_url_char s ch =
     (let server =
        (if ch = CHR ''/'' then s_req_path
         else if ch = CHR ''?'' then s_req_query_string_start
         else if ch = CHR ''@'' then s_req_server_with_at
         else if IS_USERINFO_CHAR ch \<or> ch = CHR ''['' \<or> ch = CHR '']'' then s_req_server
         else s_dead);
       query =
        (if IS_URL_CHAR ch then s_req_query_string
         else if ch = CHR ''?'' then s_req_query_string
         else if ch = CHR ''#'' then s_req_fragment_start
         else s_dead)
      in if ch = CHR '' '' \<or> ch = CR \<or> ch = LF then s_dead
         else case s of
           s_req_spaces_before_url \<Rightarrow>
             (if ch = CHR ''/'' \<or> ch = CHR ''*'' then s_req_path
              else if IS_ALPHA ch then s_req_schema
              else s_dead)
         | s_req_schema \<Rightarrow>
             (if IS_ALPHA ch then s
              else if ch = CHR '':'' then s_req_schema_slash
              else s_dead)
         | s_req_schema_slash \<Rightarrow> (if ch = CHR ''/'' then s_req_schema_slash_slash else s_dead)
         | s_req_schema_slash_slash \<Rightarrow> (if ch = CHR ''/'' then s_req_server_start else s_dead)
         | s_req_server_with_at \<Rightarrow> (if ch = CHR ''@'' then s_dead else server)
         | s_req_server_start \<Rightarrow> server
         | s_req_server \<Rightarrow> server
         | s_req_path \<Rightarrow>
             (if IS_URL_CHAR ch then s
              else if ch = CHR ''?'' then s_req_query_string_start
              else if ch = CHR ''#'' then s_req_fragment_start
              else s_dead)
         | s_req_query_string_start \<Rightarrow> query
         | s_req_query_string \<Rightarrow> query
         | s_req_fragment_start \<Rightarrow>
             (if IS_URL_CHAR ch then s_req_fragment
              else if ch = CHR ''?'' then s_req_fragment
              else if ch = CHR ''#'' then s
              else s_dead)
         | s_req_fragment \<Rightarrow>
             (if IS_URL_CHAR ch then s
              else if ch = CHR ''?'' \<or> ch = CHR ''#'' then s
              else s_dead)
         | _ \<Rightarrow> s_dead)"

section \<open>The host\<close>

definition http_parse_host_char :: "http_host_state \<Rightarrow> char \<Rightarrow> http_host_state" where
  "http_parse_host_char s ch =
     (let v6_end = (if ch = CHR '':'' then s_http_host_port_start else s_http_host_dead);
          v6_start = (if IS_HEX ch \<or> ch = CHR '':'' \<or> ch = CHR ''.'' then s_http_host_v6
                      else s_http_host_dead);
          userinfo = (if ch = CHR ''@'' then s_http_host_start
                      else if IS_USERINFO_CHAR ch then s_http_userinfo
                      else s_http_host_dead);
          port_digit = (if IS_NUM ch then s_http_host_port else s_http_host_dead)
      in case s of
           s_http_userinfo \<Rightarrow> userinfo
         | s_http_userinfo_start \<Rightarrow> userinfo
         | s_http_host_start \<Rightarrow>
             (if ch = CHR ''['' then s_http_host_v6_start
              else if IS_HOST_CHAR ch then s_http_host
              else s_http_host_dead)
         | s_http_host \<Rightarrow> (if IS_HOST_CHAR ch then s_http_host else v6_end)
         | s_http_host_v6_end \<Rightarrow> v6_end
         | s_http_host_v6 \<Rightarrow> (if ch = CHR '']'' then s_http_host_v6_end else v6_start)
         | s_http_host_v6_start \<Rightarrow> v6_start
         | s_http_host_port \<Rightarrow> port_digit
         | s_http_host_port_start \<Rightarrow> port_digit
         | _ \<Rightarrow> s_http_host_dead)"

text \<open>How a step of a scan goes: on, with a \<open>return\<close>, or with a fault.\<close>

datatype 'a scan_step = Goes_on 'a | Returns int http_parser_url | Faults fault

text \<open>The \<open>switch (new_s)\<close>: what the byte at \<open>p\<close> belongs to.\<close>

definition note_host_byte ::
    "nat \<Rightarrow> http_host_state \<Rightarrow> http_host_state \<Rightarrow> http_parser_url \<Rightarrow> http_parser_url" where
  "note_host_byte p s new_s u =
     (case new_s of
        s_http_host \<Rightarrow>
          inc_len UF_HOST (if s \<noteq> s_http_host then set_off UF_HOST p u else u)
      | s_http_host_v6 \<Rightarrow>
          inc_len UF_HOST (if s \<noteq> s_http_host_v6 then set_off UF_HOST p u else u)
      | s_http_host_port \<Rightarrow>
          inc_len UF_PORT
            (if s \<noteq> s_http_host_port
             then add_field UF_PORT (set_len UF_PORT 0 (set_off UF_PORT p u)) else u)
      | s_http_userinfo \<Rightarrow>
          inc_len UF_USERINFO
            (if s \<noteq> s_http_userinfo
             then add_field UF_USERINFO (set_len UF_USERINFO 0 (set_off UF_USERINFO p u)) else u)
      | _ \<Rightarrow> u)"

text \<open>The loop, for the \<open>n\<close> bytes from \<open>p\<close>.\<close>

fun parse_host_loop ::
    "nat \<Rightarrow> string \<Rightarrow> nat \<Rightarrow> http_host_state \<Rightarrow> http_parser_url \<Rightarrow>
     (http_host_state \<times> http_parser_url) scan_step" where
  "parse_host_loop 0 mem p s u = Goes_on (s, u)"
| "parse_host_loop (Suc n) mem p s u =
     (case read_byte mem p of
        None \<Rightarrow> Faults Out_of_bounds
      | Some ch \<Rightarrow>
          (let new_s = http_parse_host_char s ch
           in if new_s = s_http_host_dead then Returns 1 u
              else parse_host_loop n mem (p + 1) new_s (note_host_byte p s new_s u)))"

definition unfinished_host :: "http_host_state \<Rightarrow> bool" where
  "unfinished_host s \<longleftrightarrow>
     s \<in> {s_http_host_start, s_http_host_v6_start, s_http_host_v6, s_http_host_port_start,
          s_http_userinfo, s_http_userinfo_start}"

definition http_parse_host :: "string \<Rightarrow> http_parser_url \<Rightarrow> bool \<Rightarrow> fault + int \<times> http_parser_url" where
  "http_parse_host mem u found_at =
     (let off = unat (field_off u UF_HOST); n = unat (field_len u UF_HOST);
          s = (if found_at then s_http_userinfo_start else s_http_host_start)
      in case parse_host_loop n mem off s (set_len UF_HOST 0 u) of
           Faults f \<Rightarrow> Inl f
         | Returns r u \<Rightarrow> Inr (r, u)
         | Goes_on (s, u) \<Rightarrow> Inr (if unfinished_host s then 1 else 0, u))"

section \<open>\<open>strtoul\<close>\<close>

text \<open>
  The C library function in base 10: white space, a sign, digits; \<open>ULONG_MAX\<close> when the
  number does not fit in 64 bits. \<open>None\<close> when it would read past the memory given.
\<close>

fun strtoul_digits :: "string \<Rightarrow> nat \<Rightarrow> nat option" where
  "strtoul_digits [] acc = None"
| "strtoul_digits (c # cs) acc =
     (if IS_NUM c then strtoul_digits cs (acc * 10 + (ord c - 48)) else Some acc)"

definition ULONG_MAX :: nat where "ULONG_MAX = 18446744073709551615"

definition strtoul_sign :: "string \<Rightarrow> nat option" where
  "strtoul_sign cs =
     (case cs of
        [] \<Rightarrow> None
      | c # cs' \<Rightarrow>
          (if c = CHR ''-'' then
             map_option (\<lambda>v. if v > ULONG_MAX then ULONG_MAX
                             else if v = 0 then 0 else ULONG_MAX + 1 - v) (strtoul_digits cs' 0)
           else map_option (min ULONG_MAX)
             (strtoul_digits (if c = CHR ''+'' then cs' else cs) 0)))"

definition strtoul :: "string \<Rightarrow> nat \<Rightarrow> nat option" where
  "strtoul mem p = strtoul_sign (dropWhile isspace (drop p mem))"

section \<open>\<open>http_parser_parse_url\<close>\<close>

text \<open>
  The local variables of the loop. \<open>uf\<close> is written before it is read in every
  iteration, so it is no part of the state.
\<close>

record url_scan =
  url_state :: http_state
  old_uf :: http_parser_url_fields
  found_at :: bool
  parsed :: http_parser_url

definition note_url_byte :: "nat \<Rightarrow> http_parser_url_fields \<Rightarrow> url_scan \<Rightarrow> url_scan" where
  "note_url_byte p uf c =
     (if uf = old_uf c then c\<lparr>parsed := inc_len uf (parsed c)\<rparr>
      else c\<lparr>old_uf := uf, parsed := add_field uf (set_len uf 1 (set_off uf p (parsed c)))\<rparr>)"

definition parse_url_byte :: "nat \<Rightarrow> char \<Rightarrow> url_scan \<Rightarrow> url_scan scan_step" where
  "parse_url_byte p ch c =
     (let s = parse_url_char (url_state c) ch; c = c\<lparr>url_state := s\<rparr>
      in case s of
           s_dead \<Rightarrow> Returns 1 (parsed c)
         | s_req_schema_slash \<Rightarrow> Goes_on c
         | s_req_schema_slash_slash \<Rightarrow> Goes_on c
         | s_req_server_start \<Rightarrow> Goes_on c
         | s_req_query_string_start \<Rightarrow> Goes_on c
         | s_req_fragment_start \<Rightarrow> Goes_on c
         | s_req_schema \<Rightarrow> Goes_on (note_url_byte p UF_SCHEMA c)
         | s_req_server_with_at \<Rightarrow> Goes_on (note_url_byte p UF_HOST (c\<lparr>found_at := True\<rparr>))
         | s_req_server \<Rightarrow> Goes_on (note_url_byte p UF_HOST c)
         | s_req_path \<Rightarrow> Goes_on (note_url_byte p UF_PATH c)
         | s_req_query_string \<Rightarrow> Goes_on (note_url_byte p UF_QUERY c)
         | s_req_fragment \<Rightarrow> Goes_on (note_url_byte p UF_FRAGMENT c)
         | _ \<Rightarrow> Faults Assertion_failed)"

fun parse_url_loop :: "nat \<Rightarrow> string \<Rightarrow> nat \<Rightarrow> url_scan \<Rightarrow> url_scan scan_step" where
  "parse_url_loop 0 mem p c = Goes_on c"
| "parse_url_loop (Suc n) mem p c =
     (case read_byte mem p of
        None \<Rightarrow> Faults Out_of_bounds
      | Some ch \<Rightarrow>
          (case parse_url_byte p ch c of
             Goes_on c \<Rightarrow> parse_url_loop n mem (p + 1) c
           | r \<Rightarrow> r))"

text \<open>What follows the loop: the host, the check of \<open>CONNECT\<close>, the port.\<close>

definition parse_url_port :: "string \<Rightarrow> http_parser_url \<Rightarrow> fault + int \<times> http_parser_url" where
  "parse_url_port mem u =
     (if has_field UF_PORT u then
        (case strtoul mem (unat (field_off u UF_PORT)) of
           None \<Rightarrow> Inl Out_of_bounds
         | Some v \<Rightarrow> if v > 0xffff then Inr (1, u) else Inr (0, u\<lparr>port := word_of_nat v\<rparr>))
      else Inr (0, u))"

definition parse_url_connect :: "string \<Rightarrow> bool \<Rightarrow> http_parser_url \<Rightarrow> fault + int \<times> http_parser_url" where
  "parse_url_connect mem is_connect u =
     (if is_connect \<and> field_set u \<noteq> uf_bit UF_HOST OR uf_bit UF_PORT then Inr (1, u)
      else parse_url_port mem u)"

definition http_parser_parse_url ::
    "string \<Rightarrow> nat \<Rightarrow> bool \<Rightarrow> http_parser_url \<Rightarrow> fault + int \<times> http_parser_url" where
  "http_parser_parse_url mem buflen is_connect u =
     (let c = \<lparr>url_state = (if is_connect then s_req_server_start else s_req_spaces_before_url),
               old_uf = UF_MAX, found_at = False, parsed = u\<lparr>port := 0, field_set := 0\<rparr>\<rparr>
      in case parse_url_loop buflen mem 0 c of
           Faults f \<Rightarrow> Inl f
         | Returns r u \<Rightarrow> Inr (r, u)
         | Goes_on c \<Rightarrow>
             (let u = parsed c
              in if has_field UF_SCHEMA u \<or> has_field UF_HOST u then
                   (case http_parse_host mem u (found_at c) of
                      Inl f \<Rightarrow> Inl f
                    | Inr (r, u) \<Rightarrow> if r \<noteq> 0 then Inr (1, u) else parse_url_connect mem is_connect u)
                 else parse_url_connect mem is_connect u))"

end
