(* ===== verification/Http_Url_Correct.thy ===== *)
theory Http_Url_Correct
  imports Http_Url
begin

text \<open>
  What \<open>http_parser_parse_url\<close> makes of a URL written down from its parts. Both loops
  are first turned into scans of lists, which split at the boundaries of the parts.
\<close>

section \<open>Fields\<close>

lemma uf_number_less: "uf_number uf < 16"
  by (cases uf) simp_all

lemma has_field_bit: "has_field uf u \<longleftrightarrow> bit (field_set u) (uf_number uf)"
  using uf_number_less [of uf]
  by (auto simp: has_field_def uf_bit_def and_exp_eq_0_iff_not_bit push_bit_eq_mult)

lemma bit_uf_bit: "bit (uf_bit uf) n \<longleftrightarrow> n = uf_number uf"
  using uf_number_less [of uf]
  by (auto simp: uf_bit_def bit_exp_iff push_bit_eq_mult possible_bit_def)

lemma uf_number_inject [simp]: "uf_number a = uf_number b \<longleftrightarrow> a = b"
  by (cases a; cases b) simp_all

lemma has_field_simps [simp]:
  "has_field uf (add_field g u) \<longleftrightarrow> uf = g \<or> has_field uf u"
  "has_field uf (set_off g p u) \<longleftrightarrow> has_field uf u"
  "has_field uf (set_len g n u) \<longleftrightarrow> has_field uf u"
  "has_field uf (inc_len g u) \<longleftrightarrow> has_field uf u"
  "has_field uf (u\<lparr>port := w\<rparr>) \<longleftrightarrow> has_field uf u"
  "\<not> has_field uf (u\<lparr>field_set := 0\<rparr>)"
  by (auto simp: has_field_bit add_field_def set_off_def set_len_def inc_len_def bit_or_iff
      bit_uf_bit)

lemma field_off_simps [simp]:
  "field_off (add_field g u) = field_off u"
  "field_off (set_off g p u) = (field_off u)(g := word_of_nat p)"
  "field_off (set_len g n u) = field_off u"
  "field_off (inc_len g u) = field_off u"
  by (simp_all add: add_field_def set_off_def set_len_def inc_len_def)

lemma field_len_simps [simp]:
  "field_len (add_field g u) = field_len u"
  "field_len (set_off g p u) = field_len u"
  "field_len (set_len g n u) = (field_len u)(g := n)"
  "field_len (inc_len g u) = (field_len u)(g := field_len u g + 1)"
  by (simp_all add: add_field_def set_off_def set_len_def inc_len_def)

text \<open>A field written once: \<open>n\<close> bytes from \<open>p\<close>.\<close>

definition put :: "http_parser_url_fields \<Rightarrow> nat \<Rightarrow> nat \<Rightarrow> http_parser_url \<Rightarrow> http_parser_url" where
  "put uf p n u = add_field uf (set_len uf (word_of_nat n) (set_off uf p u))"

lemma put_simps [simp]:
  "has_field f (put uf p n u) \<longleftrightarrow> f = uf \<or> has_field f u"
  "field_off (put uf p n u) = (field_off u)(uf := word_of_nat p)"
  "field_len (put uf p n u) = (field_len u)(uf := word_of_nat n)"
  by (simp_all add: put_def)

lemma inc_put [simp]: "inc_len uf (put uf p n u) = put uf p (n + 1) u"
  by (simp add: put_def inc_len_def set_len_def add_field_def set_off_def add.commute)

lemma put_first: "add_field uf (set_len uf 1 (set_off uf p u)) = put uf p 1 u"
  by (simp add: put_def)

section \<open>The URL, byte by byte\<close>

fun scan_url :: "string \<Rightarrow> nat \<Rightarrow> url_scan \<Rightarrow> url_scan scan_step" where
  "scan_url [] p c = Goes_on c"
| "scan_url (ch # cs) p c =
     (case parse_url_byte p ch c of
        Goes_on c \<Rightarrow> scan_url cs (p + 1) c
      | r \<Rightarrow> r)"

lemma parse_url_loop_scan:
  "p + n \<le> length mem \<Longrightarrow> parse_url_loop n mem p c = scan_url (byte_range p n mem) p c"
proof (induction n mem p c rule: parse_url_loop.induct)
  case (2 n mem p c)
  then have "byte_range p (Suc n) mem = mem ! p # byte_range (p + 1) n mem"
    by (simp add: byte_range_def Cons_nth_drop_Suc [symmetric])
  with 2 show ?case by (simp split: scan_step.split)
qed (simp add: byte_range_def)

lemma scan_url_append:
  "scan_url (as @ bs) p c =
     (case scan_url as p c of
        Goes_on c \<Rightarrow> scan_url bs (p + length as) c
      | r \<Rightarrow> r)"
  by (induction as p c rule: scan_url.induct) (auto split: scan_step.split)

lemma scan_url_through:
  "scan_url as p c = Goes_on c' \<Longrightarrow> scan_url (as @ bs) p c = scan_url bs (p + length as) c'"
  by (simp add: scan_url_append)

definition scan_at :: "http_state \<Rightarrow> http_parser_url_fields \<Rightarrow> bool \<Rightarrow> http_parser_url \<Rightarrow> url_scan" where
  "scan_at s uf at u = \<lparr>url_state = s, old_uf = uf, found_at = at, parsed = u\<rparr>"

text \<open>The field of the bytes that lead to a state.\<close>

fun field_of :: "http_state \<Rightarrow> http_parser_url_fields option" where
  "field_of s_req_schema = Some UF_SCHEMA"
| "field_of s_req_server = Some UF_HOST"
| "field_of s_req_path = Some UF_PATH"
| "field_of s_req_query_string = Some UF_QUERY"
| "field_of s_req_fragment = Some UF_FRAGMENT"
| "field_of _ = None"

lemma parse_url_byte_field:
  assumes "parse_url_char s ch = s'" "field_of s' = Some uf"
  shows "parse_url_byte p ch (scan_at s g at u) =
    Goes_on (scan_at s' uf at (if uf = g then inc_len uf u else put uf p 1 u))"
  using assms
  by (cases s' rule: field_of.cases)
    (auto simp: parse_url_byte_def scan_at_def note_url_byte_def put_def Let_def)

text \<open>A run of bytes that stay in one state makes the field longer.\<close>

lemma scan_run:
  assumes "field_of s = Some uf" "\<forall>ch \<in> set cs. parse_url_char s ch = s"
  shows "scan_url cs p (scan_at s uf at (put uf a n u)) =
    Goes_on (scan_at s uf at (put uf a (n + length cs) u))"
  using assms(2)
proof (induction cs arbitrary: p n)
  case (Cons ch cs)
  then have "parse_url_char s ch = s" by simp
  note step = parse_url_byte_field [OF this assms(1)]
  from Cons.IH Cons.prems show ?case by (simp add: step)
qed simp

text \<open>A part: a first byte that leads to the state of its field, then a run.\<close>

lemma scan_part:
  assumes "parse_url_char s0 ch = s" "field_of s = Some uf" "g \<noteq> uf"
    and "\<forall>ch \<in> set cs. parse_url_char s ch = s"
  shows "scan_url (ch # cs) p (scan_at s0 g at u) =
    Goes_on (scan_at s uf at (put uf p (1 + length cs) u))"
  using parse_url_byte_field [OF assms(1,2)] scan_run [OF assms(2,4)] assms(3) by simp

section \<open>Which bytes stay in which state\<close>

lemma url_classes:
  "IS_ALPHA ch \<Longrightarrow>
     ch \<noteq> CHR '' '' \<and> ch \<noteq> CR \<and> ch \<noteq> LF \<and> ch \<noteq> CHR ''/'' \<and> ch \<noteq> CHR ''*''"
  "IS_URL_CHAR ch \<Longrightarrow> ch \<noteq> CHR '' '' \<and> ch \<noteq> CR \<and> ch \<noteq> LF \<and> ch \<noteq> CHR ''?'' \<and> ch \<noteq> CHR ''#''"
  "IS_USERINFO_CHAR ch \<Longrightarrow>
     ch \<noteq> CHR '' '' \<and> ch \<noteq> CR \<and> ch \<noteq> LF \<and> ch \<noteq> CHR ''/'' \<and> ch \<noteq> CHR ''?'' \<and> ch \<noteq> CHR ''@''"
  "IS_HOST_CHAR ch \<Longrightarrow> IS_USERINFO_CHAR ch"
  "IS_HEX ch \<Longrightarrow> IS_USERINFO_CHAR ch"
  "IS_NUM ch \<Longrightarrow> IS_USERINFO_CHAR ch"
  by (auto simp: IS_ALPHA_iff IS_HEX_iff IS_URL_CHAR_iff IS_USERINFO_CHAR_def IS_ALPHANUM_def
      IS_NUM_def IS_MARK_def IS_HOST_CHAR_def ord_def)

definition server_char :: "char \<Rightarrow> bool" where
  "server_char ch \<longleftrightarrow> IS_USERINFO_CHAR ch \<or> ch = CHR ''['' \<or> ch = CHR '']''"

definition query_char :: "char \<Rightarrow> bool" where
  "query_char ch \<longleftrightarrow> IS_URL_CHAR ch \<or> ch = CHR ''?''"

definition fragment_char :: "char \<Rightarrow> bool" where
  "fragment_char ch \<longleftrightarrow> IS_URL_CHAR ch \<or> ch = CHR ''?'' \<or> ch = CHR ''#''"

lemma sep_classes:
  "\<not> IS_ALPHA CHR '':''" "\<not> IS_URL_CHAR CHR ''?''" "\<not> IS_URL_CHAR CHR ''#''"
  by (simp_all add: IS_ALPHA_iff IS_URL_CHAR_iff ord_def)

lemma parse_url_char_simps:
  "IS_ALPHA ch \<Longrightarrow> parse_url_char s_req_spaces_before_url ch = s_req_schema"
  "IS_ALPHA ch \<Longrightarrow> parse_url_char s_req_schema ch = s_req_schema"
  "parse_url_char s_req_server CHR ''/'' = s_req_path"
  "IS_URL_CHAR ch \<Longrightarrow> parse_url_char s_req_path ch = s_req_path"
  by (simp_all add: parse_url_char_def url_classes(1,2))

lemma parse_url_char_server:
  assumes "server_char ch" "s \<in> {s_req_server_start, s_req_server_with_at, s_req_server}"
  shows "parse_url_char s ch = s_req_server"
  using assms unfolding server_char_def
  by (elim disjE insertE emptyE; simp add: parse_url_char_def url_classes(3))

lemma parse_url_char_query:
  assumes "query_char ch"
  shows "parse_url_char s_req_query_string_start ch = s_req_query_string"
    and "parse_url_char s_req_query_string ch = s_req_query_string"
    and "parse_url_char s_req_fragment_start ch = s_req_fragment"
  using assms unfolding query_char_def
  by (elim disjE; simp add: parse_url_char_def url_classes(2) sep_classes)+

lemma parse_url_char_fragment:
  assumes "fragment_char ch"
  shows "parse_url_char s_req_fragment ch = s_req_fragment"
  using assms unfolding fragment_char_def
  by (elim disjE; simp add: parse_url_char_def url_classes(2) sep_classes)

text \<open>The bytes between the parts.\<close>

lemma scan_separators:
  "scan_url (CHR '':'' # CHR ''/'' # CHR ''/'' # cs) p (scan_at s_req_schema g at u) =
     scan_url cs (p + 3) (scan_at s_req_server_start g at u)"
  "scan_url (CHR ''@'' # cs) p (scan_at s_req_server UF_HOST at (put UF_HOST a n u)) =
     scan_url cs (p + 1) (scan_at s_req_server_with_at UF_HOST True (put UF_HOST a (n + 1) u))"
  "s \<in> {s_req_server, s_req_path} \<Longrightarrow>
     scan_url (CHR ''?'' # cs) p (scan_at s g at u) =
     scan_url cs (p + 1) (scan_at s_req_query_string_start g at u)"
  "s \<in> {s_req_path, s_req_query_string} \<Longrightarrow>
     scan_url (CHR ''#'' # cs) p (scan_at s g at u) =
     scan_url cs (p + 1) (scan_at s_req_fragment_start g at u)"
  by (auto simp: scan_at_def parse_url_byte_def note_url_byte_def Let_def parse_url_char_def
      sep_classes numeral_3_eq_3)

section \<open>A URL and its parts\<close>

record url_parts =
  up_schema :: string
  up_userinfo :: "string option"
  up_host :: string
  up_v6 :: bool
  up_port :: "string option"
  up_path :: "string option"
  up_query :: "string option"
  up_fragment :: "string option"

definition optional :: "('a \<Rightarrow> string) \<Rightarrow> 'a option \<Rightarrow> string" where
  "optional w x = (case x of None \<Rightarrow> [] | Some t \<Rightarrow> w t)"

definition write_host :: "url_parts \<Rightarrow> string" where
  "write_host x = (if up_v6 x then ''['' @ up_host x @ '']'' else up_host x)"

definition write_authority :: "url_parts \<Rightarrow> string" where
  "write_authority x =
     optional (\<lambda>t. t @ ''@'') (up_userinfo x) @ write_host x @ optional ((#) CHR '':'') (up_port x)"

definition write_url :: "url_parts \<Rightarrow> string" where
  "write_url x =
     up_schema x @ ''://'' @ write_authority x @ optional (\<lambda>t. t) (up_path x) @
     optional ((#) CHR ''?'') (up_query x) @ optional ((#) CHR ''#'') (up_fragment x)"

text \<open>The value of a string of decimal digits.\<close>

definition decimal :: "nat \<Rightarrow> string \<Rightarrow> nat" where
  "decimal acc ds = foldl (\<lambda>v c. v * 10 + (ord c - 48)) acc ds"

definition url_parts_ok :: "url_parts \<Rightarrow> bool" where
  "url_parts_ok x \<longleftrightarrow>
     up_schema x \<noteq> [] \<and> list_all IS_ALPHA (up_schema x) \<and>
     pred_option (\<lambda>t. t \<noteq> [] \<and> list_all IS_USERINFO_CHAR t) (up_userinfo x) \<and>
     up_host x \<noteq> [] \<and>
     list_all (if up_v6 x then (\<lambda>c. IS_HEX c \<or> c = CHR '':'' \<or> c = CHR ''.'') else IS_HOST_CHAR)
       (up_host x) \<and>
     pred_option (\<lambda>t. t \<noteq> [] \<and> list_all IS_NUM t \<and> decimal 0 t \<le> 65535) (up_port x) \<and>
     pred_option (\<lambda>t. t \<noteq> [] \<and> hd t = CHR ''/'' \<and> list_all IS_URL_CHAR (tl t)) (up_path x) \<and>
     pred_option (\<lambda>t. t \<noteq> [] \<and> list_all query_char t) (up_query x) \<and>
     pred_option (\<lambda>t. t \<noteq> [] \<and> query_char (hd t) \<and> list_all fragment_char (tl t)) (up_fragment x) \<and>
     (up_fragment x \<noteq> None \<longrightarrow> up_path x \<noteq> None \<or> up_query x \<noteq> None)"

definition put_opt :: "http_parser_url_fields \<Rightarrow> nat \<Rightarrow> string option \<Rightarrow> http_parser_url \<Rightarrow> http_parser_url" where
  "put_opt uf p x u = (case x of None \<Rightarrow> u | Some t \<Rightarrow> put uf p (length t) u)"

section \<open>The first scan, part by part\<close>

lemma scan_schema:
  assumes "t \<noteq> []" "list_all IS_ALPHA t"
  shows "scan_url t p (scan_at s_req_spaces_before_url UF_MAX at u) =
    Goes_on (scan_at s_req_schema UF_SCHEMA at (put UF_SCHEMA p (length t) u))"
proof -
  obtain ch cs where t: "t = ch # cs" using assms(1) by (cases t) auto
  with assms(2) show ?thesis
    by (simp add: scan_part [where s = s_req_schema] parse_url_char_simps list_all_iff del: scan_url.simps(2))
qed

lemma scan_server:
  assumes "t \<noteq> []" "list_all server_char t"
  shows "scan_url t p (scan_at s_req_server_start UF_SCHEMA at u) =
      Goes_on (scan_at s_req_server UF_HOST at (put UF_HOST p (length t) u))"
    and "scan_url t q (scan_at s_req_server_with_at UF_HOST at (put UF_HOST p n u)) =
      Goes_on (scan_at s_req_server UF_HOST at (put UF_HOST p (n + length t) u))"
proof -
  obtain ch cs where t: "t = ch # cs" using assms(1) by (cases t) auto
  with assms(2) show "scan_url t p (scan_at s_req_server_start UF_SCHEMA at u) =
      Goes_on (scan_at s_req_server UF_HOST at (put UF_HOST p (length t) u))"
    by (simp add: scan_part [where s = s_req_server] parse_url_char_server list_all_iff
        del: scan_url.simps(2))
  have "parse_url_char s_req_server_with_at ch = s_req_server"
    using assms(2) t by (simp add: parse_url_char_server)
  from parse_url_byte_field [OF this, of UF_HOST] assms(2)
  show "scan_url t q (scan_at s_req_server_with_at UF_HOST at (put UF_HOST p n u)) =
      Goes_on (scan_at s_req_server UF_HOST at (put UF_HOST p (n + length t) u))"
    by (simp add: t scan_run parse_url_char_server list_all_iff)
qed

lemma server_chars:
  "list_all IS_USERINFO_CHAR t \<Longrightarrow> list_all server_char t"
  by (simp add: list_all_iff server_char_def)

lemma host_server_chars:
  assumes "url_parts_ok x"
  shows "write_host x \<noteq> []"
    and "list_all server_char (write_host x @ optional ((#) CHR '':'') (up_port x))"
proof -
  have colon: "server_char CHR '':''" "server_char CHR ''['' \<and> server_char CHR '']''"
    "server_char CHR ''.''"
    by (simp_all add: server_char_def IS_USERINFO_CHAR_def IS_MARK_def)
  from assms show "write_host x \<noteq> []"
    by (simp add: url_parts_ok_def write_host_def)
  have "list_all server_char (up_host x)"
    using assms colon
    by (auto simp: url_parts_ok_def list_all_iff server_char_def url_classes(4,5) split: if_splits)
  moreover have "list_all server_char t" if "up_port x = Some t" for t
    using assms that by (simp add: url_parts_ok_def list_all_iff server_char_def url_classes(6))
  ultimately show "list_all server_char (write_host x @ optional ((#) CHR '':'') (up_port x))"
    using colon by (simp add: write_host_def optional_def split: option.split)
qed

lemma scan_authority:
  assumes "url_parts_ok x"
  shows "scan_url (write_authority x) p (scan_at s_req_server_start UF_SCHEMA False u) =
    Goes_on (scan_at s_req_server UF_HOST (up_userinfo x \<noteq> None)
      (put UF_HOST p (length (write_authority x)) u))"
proof -
  define server where "server = write_host x @ optional ((#) CHR '':'') (up_port x)"
  have server: "server \<noteq> []" "list_all server_char server"
    using host_server_chars [OF assms] by (simp_all add: server_def)
  have eq: "write_authority x = optional (\<lambda>t. t @ ''@'') (up_userinfo x) @ server"
    by (simp add: write_authority_def server_def)
  show ?thesis
  proof (cases "up_userinfo x")
    case None
    with server show ?thesis
      by (simp add: eq optional_def scan_server(1))
  next
    case (Some t)
    with assms have t: "t \<noteq> []" "list_all server_char t"
      by (simp_all add: url_parts_ok_def server_chars)
    from Some scan_url_through [OF scan_server(1) [OF t]] server show ?thesis
      by (simp add: eq optional_def scan_server(2) scan_separators(2) ac_simps del: scan_url.simps(2))
  qed
qed

lemma scan_path:
  assumes "pred_option (\<lambda>t. t \<noteq> [] \<and> hd t = CHR ''/'' \<and> list_all IS_URL_CHAR (tl t)) x"
  shows "scan_url (optional (\<lambda>t. t) x) p (scan_at s_req_server UF_HOST at u) =
    Goes_on (scan_at (if x = None then s_req_server else s_req_path)
      (if x = None then UF_HOST else UF_PATH) at (put_opt UF_PATH p x u))"
proof (cases x)
  case (Some t)
  with assms obtain cs where "t = CHR ''/'' # cs" "list_all IS_URL_CHAR cs"
    by (cases t) auto
  with Some show ?thesis
    by (simp add: optional_def put_opt_def scan_part [where s = s_req_path] parse_url_char_simps
        list_all_iff del: scan_url.simps(2))
qed (simp add: optional_def put_opt_def)

lemma scan_query:
  assumes "pred_option (\<lambda>t. t \<noteq> [] \<and> list_all query_char t) x" "s \<in> {s_req_server, s_req_path}"
    and "g \<noteq> UF_QUERY"
  shows "scan_url (optional ((#) CHR ''?'') x) p (scan_at s g at u) =
    Goes_on (scan_at (if x = None then s else s_req_query_string)
      (if x = None then g else UF_QUERY) at (put_opt UF_QUERY (p + 1) x u))"
proof (cases x)
  case (Some t)
  with assms obtain ch cs where "t = ch # cs" "query_char ch" "list_all query_char cs"
    by (cases t) auto
  with Some assms show ?thesis
    by (simp add: optional_def put_opt_def scan_part [where s = s_req_query_string]
        parse_url_char_query list_all_iff scan_separators(3) del: scan_url.simps(2))
qed (simp add: optional_def put_opt_def)

lemma scan_fragment:
  assumes "pred_option (\<lambda>t. t \<noteq> [] \<and> query_char (hd t) \<and> list_all fragment_char (tl t)) x"
    and "x \<noteq> None \<longrightarrow> s \<in> {s_req_path, s_req_query_string}" "g \<noteq> UF_FRAGMENT"
  shows "\<exists>s' g'. scan_url (optional ((#) CHR ''#'') x) p (scan_at s g at u) =
    Goes_on (scan_at s' g' at (put_opt UF_FRAGMENT (p + 1) x u))"
proof (cases x)
  case (Some t)
  with assms obtain ch cs where "t = ch # cs" "query_char ch" "list_all fragment_char cs"
    by (cases t) auto
  with Some assms show ?thesis
    by (auto simp: optional_def put_opt_def scan_part [where s = s_req_fragment]
        parse_url_char_query parse_url_char_fragment list_all_iff scan_separators(4)
        simp del: scan_url.simps(2))
qed (auto simp: optional_def put_opt_def)

text \<open>Where the parts begin.\<close>

definition host_start :: "url_parts \<Rightarrow> nat" where
  "host_start x = length (up_schema x) + 3"

definition path_start :: "url_parts \<Rightarrow> nat" where
  "path_start x = host_start x + length (write_authority x)"

definition query_start :: "url_parts \<Rightarrow> nat" where
  "query_start x = path_start x + length (optional (\<lambda>t. t) (up_path x)) + 1"

definition fragment_start :: "url_parts \<Rightarrow> nat" where
  "fragment_start x =
     path_start x + length (optional (\<lambda>t. t) (up_path x)) +
     length (optional ((#) CHR ''?'') (up_query x)) + 1"

definition first_scan :: "url_parts \<Rightarrow> http_parser_url \<Rightarrow> http_parser_url" where
  "first_scan x u =
     put_opt UF_FRAGMENT (fragment_start x) (up_fragment x)
       (put_opt UF_QUERY (query_start x) (up_query x)
         (put_opt UF_PATH (path_start x) (up_path x)
           (put UF_HOST (host_start x) (length (write_authority x))
             (put UF_SCHEMA 0 (length (up_schema x)) u))))"

lemma scan_written_url:
  assumes "url_parts_ok x"
  shows "\<exists>s g. scan_url (write_url x) 0 (scan_at s_req_spaces_before_url UF_MAX False u) =
    Goes_on (scan_at s g (up_userinfo x \<noteq> None) (first_scan x u))"
proof -
  note ok = assms [unfolded url_parts_ok_def]
  define at where "at = (up_userinfo x \<noteq> None)"
  define s1 where "s1 = (if up_path x = None then s_req_server else s_req_path)"
  define g1 where "g1 = (if up_path x = None then UF_HOST else UF_PATH)"
  define s2 where "s2 = (if up_query x = None then s1 else s_req_query_string)"
  define g2 where "g2 = (if up_query x = None then g1 else UF_QUERY)"
  let ?q = "optional ((#) CHR ''?'') (up_query x)" and ?f = "optional ((#) CHR ''#'') (up_fragment x)"
  define u1 where "u1 = put UF_HOST (host_start x) (length (write_authority x))
    (put UF_SCHEMA 0 (length (up_schema x)) u)"
  define u2 where "u2 = put_opt UF_PATH (path_start x) (up_path x) u1"
  define u3 where "u3 = put_opt UF_QUERY (query_start x) (up_query x) u2"
  have schema: "scan_url (up_schema x @ rest) 0 (scan_at s_req_spaces_before_url UF_MAX False u) =
      scan_url rest (length (up_schema x))
        (scan_at s_req_schema UF_SCHEMA False (put UF_SCHEMA 0 (length (up_schema x)) u))" for rest
    using ok by (simp add: scan_url_through [OF scan_schema])
  have authority: "scan_url (write_authority x @ rest) (host_start x)
        (scan_at s_req_server_start UF_SCHEMA False (put UF_SCHEMA 0 (length (up_schema x)) u)) =
      scan_url rest (path_start x) (scan_at s_req_server UF_HOST at u1)" for rest
    by (simp add: scan_url_through [OF scan_authority [OF assms]] path_start_def u1_def at_def)
  have path: "scan_url (optional (\<lambda>t. t) (up_path x) @ rest) (path_start x)
        (scan_at s_req_server UF_HOST at u1) =
      scan_url rest (query_start x - 1) (scan_at s1 g1 at u2)" for rest
    using ok by (simp add: scan_url_through [OF scan_path] query_start_def s1_def g1_def u2_def)
  have query: "scan_url (?q @ rest) (query_start x - 1) (scan_at s1 g1 at u2) =
      scan_url rest (fragment_start x - 1) (scan_at s2 g2 at u3)" for rest
  proof -
    have "scan_url ?q (query_start x - 1) (scan_at s1 g1 at u2) = Goes_on (scan_at s2 g2 at u3)"
      using ok scan_query [of "up_query x" s1 g1 "query_start x - 1"]
      by (simp add: query_start_def u3_def s1_def g1_def s2_def g2_def)
    from scan_url_through [OF this] show ?thesis
      by (simp add: query_start_def fragment_start_def)
  qed
  have "\<exists>s g. scan_url ?f (fragment_start x - 1) (scan_at s2 g2 at u3) =
      Goes_on (scan_at s g at (first_scan x u))"
  proof -
    have "up_fragment x \<noteq> None \<longrightarrow> s2 \<in> {s_req_path, s_req_query_string}" "g2 \<noteq> UF_FRAGMENT"
      using ok by (auto simp: s1_def g1_def s2_def g2_def)
    moreover have "pred_option (\<lambda>t. t \<noteq> [] \<and> query_char (hd t) \<and> list_all fragment_char (tl t))
        (up_fragment x)"
      using ok by simp
    moreover have "first_scan x u = put_opt UF_FRAGMENT (fragment_start x) (up_fragment x) u3"
      by (simp add: first_scan_def u3_def u2_def u1_def)
    ultimately show ?thesis
      using scan_fragment [of "up_fragment x" s2 g2 "fragment_start x - 1" at u3]
      by (simp add: fragment_start_def)
  qed
  then show ?thesis
    unfolding at_def [symmetric]
    by (simp add: write_url_def schema scan_separators(1) host_start_def [symmetric] authority path
        query del: scan_url.simps(2) One_nat_def)
qed

section \<open>The second scan: the authority\<close>

fun scan_host :: "string \<Rightarrow> nat \<Rightarrow> http_host_state \<Rightarrow> http_parser_url \<Rightarrow>
    (http_host_state \<times> http_parser_url) scan_step" where
  "scan_host [] p s u = Goes_on (s, u)"
| "scan_host (ch # cs) p s u =
     (if http_parse_host_char s ch = s_http_host_dead then Returns 1 u
      else scan_host cs (p + 1) (http_parse_host_char s ch)
             (note_host_byte p s (http_parse_host_char s ch) u))"

lemma parse_host_loop_scan:
  "p + n \<le> length mem \<Longrightarrow> parse_host_loop n mem p s u = scan_host (byte_range p n mem) p s u"
proof (induction n mem p s u rule: parse_host_loop.induct)
  case (2 n mem p s u)
  then have "byte_range p (Suc n) mem = mem ! p # byte_range (p + 1) n mem"
    by (simp add: byte_range_def Cons_nth_drop_Suc [symmetric])
  with 2 show ?case by (simp add: Let_def)
qed (simp add: byte_range_def)

lemma scan_host_through:
  "scan_host as p s u = Goes_on (s', u') \<Longrightarrow>
     scan_host (as @ bs) p s u = scan_host bs (p + length as) s' u'"
  by (induction as p s u rule: scan_host.induct) (auto split: if_splits)

text \<open>A run of bytes that stay in a state which writes a field.\<close>

fun host_field :: "http_host_state \<Rightarrow> http_parser_url_fields option" where
  "host_field s_http_host = Some UF_HOST"
| "host_field s_http_host_v6 = Some UF_HOST"
| "host_field s_http_host_port = Some UF_PORT"
| "host_field s_http_userinfo = Some UF_USERINFO"
| "host_field _ = None"

lemma inc_set_len: "inc_len uf (set_len uf n u) = set_len uf (n + 1) u"
  by (simp add: inc_len_def set_len_def)

lemma scan_host_run:
  assumes "host_field s = Some uf" "\<forall>ch \<in> set cs. http_parse_host_char s ch = s"
  shows "scan_host cs p s (set_len uf (word_of_nat n) u) =
    Goes_on (s, set_len uf (word_of_nat (n + length cs)) u)"
  using assms(2)
proof (induction cs arbitrary: p n)
  case (Cons ch cs)
  have live: "s \<noteq> s_http_host_dead" using assms(1) by auto
  have "note_host_byte p s s (set_len uf (word_of_nat n) u) = set_len uf (word_of_nat (n + 1)) u"
    using assms(1)
    by (cases s rule: host_field.cases) (auto simp: note_host_byte_def inc_set_len add.commute)
  with Cons.IH [of "p + 1" "n + 1"] Cons.prems live show ?case by simp
qed simp

lemma host_classes:
  "IS_USERINFO_CHAR ch \<Longrightarrow> ch \<noteq> CHR ''@''"
  "IS_HEX ch \<or> ch = CHR '':'' \<or> ch = CHR ''.'' \<Longrightarrow> ch \<noteq> CHR '']''"
  "IS_HOST_CHAR ch \<Longrightarrow> ch \<noteq> CHR ''[''"
  "\<not> IS_HOST_CHAR CHR '':''"
  by (auto simp: IS_USERINFO_CHAR_def IS_ALPHANUM_def IS_ALPHA_iff IS_NUM_def IS_MARK_def IS_HEX_iff
      IS_HOST_CHAR_def ord_def)

lemma http_parse_host_char_simps:
  "IS_USERINFO_CHAR ch \<Longrightarrow> http_parse_host_char s_http_userinfo_start ch = s_http_userinfo"
  "IS_USERINFO_CHAR ch \<Longrightarrow> http_parse_host_char s_http_userinfo ch = s_http_userinfo"
  "http_parse_host_char s_http_userinfo CHR ''@'' = s_http_host_start"
  "http_parse_host_char s_http_host_start CHR ''['' = s_http_host_v6_start"
  "IS_HOST_CHAR ch \<Longrightarrow> http_parse_host_char s_http_host_start ch = s_http_host"
  "IS_HOST_CHAR ch \<Longrightarrow> http_parse_host_char s_http_host ch = s_http_host"
  "http_parse_host_char s_http_host CHR '':'' = s_http_host_port_start"
  "http_parse_host_char s_http_host_v6 CHR '']'' = s_http_host_v6_end"
  "http_parse_host_char s_http_host_v6_end CHR '':'' = s_http_host_port_start"
  "IS_NUM ch \<Longrightarrow> http_parse_host_char s_http_host_port_start ch = s_http_host_port"
  "IS_NUM ch \<Longrightarrow> http_parse_host_char s_http_host_port ch = s_http_host_port"
  by (simp_all add: http_parse_host_char_def host_classes)

lemma http_parse_host_char_v6:
  assumes "IS_HEX ch \<or> ch = CHR '':'' \<or> ch = CHR ''.''" "s \<in> {s_http_host_v6_start, s_http_host_v6}"
  shows "http_parse_host_char s ch = s_http_host_v6"
  using assms(2) assms(1) host_classes(2) [OF assms(1)]
  by (elim insertE emptyE; simp add: http_parse_host_char_def)

text \<open>The parts of the authority.\<close>

lemma put_set_len: "put uf p n u = set_len uf (word_of_nat n) (add_field uf (set_off uf p u))"
  by (simp add: put_def add_field_def set_len_def set_off_def)

lemma scan_host_put:
  assumes "host_field s = Some uf" "\<forall>ch \<in> set cs. http_parse_host_char s ch = s"
  shows "scan_host cs p s (put uf a n u) = Goes_on (s, put uf a (n + length cs) u)"
  using scan_host_run [OF assms] by (simp add: put_set_len)

lemma scan_userinfo:
  assumes "t \<noteq> []" "list_all IS_USERINFO_CHAR t"
  shows "scan_host t p s_http_userinfo_start u =
    Goes_on (s_http_userinfo, put UF_USERINFO p (length t) u)"
proof -
  obtain ch cs where t: "t = ch # cs" using assms(1) by (cases t) auto
  have "note_host_byte p s_http_userinfo_start s_http_userinfo u = put UF_USERINFO p 1 u"
    by (simp add: note_host_byte_def put_def inc_len_def add_field_def set_len_def set_off_def)
  with assms(2) t show ?thesis
    by (simp add: http_parse_host_char_simps scan_host_put [of _ _ _ _ _ 1, simplified] list_all_iff)
qed

lemma scan_port:
  assumes "t \<noteq> []" "list_all IS_NUM t"
  shows "scan_host t p s_http_host_port_start u =
    Goes_on (s_http_host_port, put UF_PORT p (length t) u)"
proof -
  obtain ch cs where t: "t = ch # cs" using assms(1) by (cases t) auto
  have "note_host_byte p s_http_host_port_start s_http_host_port u = put UF_PORT p 1 u"
    by (simp add: note_host_byte_def put_def inc_len_def add_field_def set_len_def set_off_def)
  with assms(2) t show ?thesis
    by (simp add: http_parse_host_char_simps scan_host_put [of _ _ _ _ _ 1, simplified] list_all_iff)
qed

text \<open>The length of the host has been reset to 0, so it counts the bytes of the name.\<close>

definition place :: "nat \<Rightarrow> nat \<Rightarrow> http_parser_url \<Rightarrow> http_parser_url" where
  "place p n u = set_len UF_HOST (word_of_nat n) (set_off UF_HOST p u)"

lemma scan_name:
  assumes "t \<noteq> []" "list_all IS_HOST_CHAR t" "field_len u UF_HOST = 0"
  shows "scan_host t p s_http_host_start u = Goes_on (s_http_host, place p (length t) u)"
proof -
  obtain ch cs where t: "t = ch # cs" using assms(1) by (cases t) auto
  have "note_host_byte p s_http_host_start s_http_host u = place p 1 u"
    using assms(3) by (simp add: note_host_byte_def place_def inc_len_def set_len_def set_off_def)
  with assms(2) t scan_host_run [of s_http_host UF_HOST cs "p + 1" 1 "set_off UF_HOST p u"] show ?thesis
    by (simp add: http_parse_host_char_simps place_def list_all_iff)
qed

lemma scan_v6:
  assumes "t \<noteq> []" "list_all (\<lambda>c. IS_HEX c \<or> c = CHR '':'' \<or> c = CHR ''.'') t"
    and "field_len u UF_HOST = 0"
  shows "scan_host (''['' @ t @ '']'') p s_http_host_start u =
    Goes_on (s_http_host_v6_end, place (p + 1) (length t) u)"
proof -
  obtain ch cs where t: "t = ch # cs" using assms(1) by (cases t) auto
  have "note_host_byte (p + 1) s_http_host_v6_start s_http_host_v6 u = place (p + 1) 1 u"
    using assms(3) by (simp add: note_host_byte_def place_def inc_len_def set_len_def set_off_def)
  moreover have run: "scan_host cs (p + 2) s_http_host_v6 (place (p + 1) 1 u) =
      Goes_on (s_http_host_v6, place (p + 1) (1 + length cs) u)"
    using assms(2) t
      scan_host_run [of s_http_host_v6 UF_HOST cs "p + 2" 1 "set_off UF_HOST (p + 1) u"]
    by (simp add: http_parse_host_char_v6 place_def list_all_iff)
  moreover note scan_host_through [OF run]
  moreover have "note_host_byte q s s_http_host_v6_start w = w"
    "note_host_byte q s s_http_host_v6_end w = w" for q s w
    by (simp_all add: note_host_byte_def)
  moreover have "http_parse_host_char s_http_host_v6_start ch = s_http_host_v6"
    using assms(2) t by (simp add: http_parse_host_char_v6)
  ultimately show ?thesis
    using t by (simp add: http_parse_host_char_simps)
qed

definition userinfo_length :: "url_parts \<Rightarrow> nat" where
  "userinfo_length x = length (optional (\<lambda>t. t @ ''@'') (up_userinfo x))"

definition second_scan :: "nat \<Rightarrow> url_parts \<Rightarrow> http_parser_url \<Rightarrow> http_parser_url" where
  "second_scan p x u =
     put_opt UF_PORT (p + userinfo_length x + length (write_host x) + 1) (up_port x)
       (place (p + userinfo_length x + (if up_v6 x then 1 else 0)) (length (up_host x))
         (put_opt UF_USERINFO p (up_userinfo x) u))"

lemma scan_written_host:
  assumes "url_parts_ok x" "field_len u UF_HOST = 0"
  shows "\<exists>s \<in> {s_http_host, s_http_host_v6_end}. scan_host (write_host x) p s_http_host_start u =
    Goes_on (s, place (p + (if up_v6 x then 1 else 0)) (length (up_host x)) u)"
  using assms scan_v6 [of "up_host x" u p] scan_name [of "up_host x" u p]
  by (cases "up_v6 x") (auto simp: url_parts_ok_def write_host_def)

lemma scan_written_authority:
  assumes "url_parts_ok x" "field_len u UF_HOST = 0"
  shows "\<exists>s. \<not> unfinished_host s \<and> scan_host (write_authority x) p
      (if up_userinfo x \<noteq> None then s_http_userinfo_start else s_http_host_start) u =
    Goes_on (s, second_scan p x u)"
proof -
  define u1 where "u1 = put_opt UF_USERINFO p (up_userinfo x) u"
  define u2 where "u2 = place (p + userinfo_length x + (if up_v6 x then 1 else 0)) (length (up_host x)) u1"
  have userinfo: "scan_host (optional (\<lambda>t. t @ ''@'') (up_userinfo x) @ rest) p
      (if up_userinfo x \<noteq> None then s_http_userinfo_start else s_http_host_start) u =
    scan_host rest (p + userinfo_length x) s_http_host_start u1" for rest
  proof (cases "up_userinfo x")
    case (Some t)
    with assms(1) have "t \<noteq> []" "list_all IS_USERINFO_CHAR t" by (simp_all add: url_parts_ok_def)
    from scan_host_through [OF scan_userinfo [OF this]] show ?thesis
      by (simp add: Some optional_def userinfo_length_def u1_def put_opt_def
          http_parse_host_char_simps note_host_byte_def)
  qed (simp add: optional_def userinfo_length_def u1_def put_opt_def)
  have "field_len u1 UF_HOST = 0"
    using assms(2) by (simp add: u1_def put_opt_def split: option.split)
  then obtain s where s: "s \<in> {s_http_host, s_http_host_v6_end}"
    "scan_host (write_host x) (p + userinfo_length x) s_http_host_start u1 = Goes_on (s, u2)"
    using scan_written_host [OF assms(1), of u1 "p + userinfo_length x"] by (auto simp: u2_def)
  have port: "\<exists>s'. \<not> unfinished_host s' \<and> scan_host (optional ((#) CHR '':'') (up_port x)) q s u2 =
      Goes_on (s', put_opt UF_PORT (q + 1) (up_port x) u2)" for q
  proof (cases "up_port x")
    case None
    with s(1) show ?thesis
      by (auto simp: optional_def put_opt_def unfinished_host_def)
  next
    case (Some t)
    with assms(1) have "t \<noteq> []" "list_all IS_NUM t" by (simp_all add: url_parts_ok_def)
    note digits = scan_port [OF this]
    have colon: "http_parse_host_char s CHR '':'' = s_http_host_port_start"
      using s(1) by (auto simp: http_parse_host_char_simps)
    show ?thesis
      by (rule exI [of _ s_http_host_port])
        (simp add: Some optional_def put_opt_def colon digits unfinished_host_def note_host_byte_def)
  qed
  have "second_scan p x u =
      put_opt UF_PORT (p + userinfo_length x + length (write_host x) + 1) (up_port x) u2"
    by (simp add: second_scan_def u1_def u2_def)
  with port [of "p + userinfo_length x + length (write_host x)"] show ?thesis
    unfolding write_authority_def userinfo scan_host_through [OF s(2)] by simp
qed

section \<open>The port\<close>

lemma strtoul_digits_decimal:
  "list_all IS_NUM ds \<Longrightarrow> \<not> IS_NUM c \<Longrightarrow> strtoul_digits (ds @ c # rest) acc = Some (decimal acc ds)"
  by (induction ds arbitrary: acc) (auto simp: decimal_def)

lemma strtoul_decimal:
  assumes "drop p mem = ds @ c # rest" "ds \<noteq> []" "list_all IS_NUM ds" "\<not> IS_NUM c"
    and "decimal 0 ds \<le> 65535"
  shows "strtoul mem p = Some (decimal 0 ds)"
proof -
  obtain d ds' where ds: "ds = d # ds'" using assms(2) by (cases ds) auto
  with assms(3) have "\<not> isspace d" "d \<noteq> CHR ''-''" "d \<noteq> CHR ''+''"
    by (auto simp: isspace_def IS_NUM_def ord_def)
  with assms strtoul_digits_decimal [OF assms(3,4), of rest 0] ds show ?thesis
    by (simp add: strtoul_def strtoul_sign_def ULONG_MAX_def min_def)
qed

section \<open>The fields of the result\<close>

definition read_field :: "string \<Rightarrow> http_parser_url \<Rightarrow> http_parser_url_fields \<Rightarrow> string option" where
  "read_field mem u uf =
     (if has_field uf u then Some (byte_range (unat (field_off u uf)) (unat (field_len u uf)) mem)
      else None)"

lemma put_opt_simps [simp]:
  "has_field f (put_opt uf p x u) \<longleftrightarrow> (f = uf \<and> x \<noteq> None) \<or> has_field f u"
  "field_off (put_opt uf p x u) f = (if f = uf \<and> x \<noteq> None then word_of_nat p else field_off u f)"
  "field_len (put_opt uf p x u) f =
     (if f = uf \<and> x \<noteq> None then word_of_nat (length (the x)) else field_len u f)"
  by (auto simp: put_opt_def split: option.split)

lemma place_simps [simp]:
  "has_field f (place p n u) = has_field f u"
  "field_off (place p n u) f = (if f = UF_HOST then word_of_nat p else field_off u f)"
  "field_len (place p n u) f = (if f = UF_HOST then word_of_nat n else field_len u f)"
  by (auto simp: place_def)

lemma unat_16: "n \<le> 65535 \<Longrightarrow> unat (word_of_nat n :: 16 word) = n"
  by (simp add: unat_of_nat)

lemma read_fieldI:
  assumes "has_field uf u \<longleftrightarrow> x \<noteq> None"
    and "\<And>t. x = Some t \<Longrightarrow> mem = a @ t @ b \<and> length a + length t \<le> 65535 \<and>
      field_off u uf = word_of_nat (length a) \<and> field_len u uf = word_of_nat (length t)"
  shows "read_field mem u uf = x"
proof (cases x)
  case (Some t)
  with assms(2) [OF Some] assms(1) show ?thesis
    using byte_range_append_middle [of a t b] by (simp add: read_field_def unat_16)
qed (use assms in \<open>simp add: read_field_def\<close>)

definition result_fields :: "url_parts \<Rightarrow> http_parser_url \<Rightarrow> http_parser_url" where
  "result_fields x u = second_scan (host_start x) x (set_len UF_HOST 0 (first_scan x u))"

lemmas result_field_defs =
  result_fields_def second_scan_def first_scan_def host_start_def path_start_def query_start_def
  fragment_start_def userinfo_length_def write_url_def write_authority_def write_host_def
  optional_def

lemma read_result_fields:
  fixes x rest v
  defines "mem \<equiv> write_url x @ rest" and "u \<equiv> result_fields x (v\<lparr>field_set := 0\<rparr>)"
  assumes len: "length (write_url x) \<le> 65535"
  shows "read_field mem u UF_SCHEMA = Some (up_schema x)"
    and "read_field mem u UF_USERINFO = up_userinfo x"
    and "read_field mem u UF_HOST = Some (up_host x)"
    and "read_field mem u UF_PORT = up_port x"
    and "read_field mem u UF_PATH = up_path x"
    and "read_field mem u UF_QUERY = up_query x"
    and "read_field mem u UF_FRAGMENT = up_fragment x"
proof -
  let ?opt = "optional (\<lambda>t. t)" and ?query = "optional ((#) CHR ''?'') (up_query x)"
  let ?port = "optional ((#) CHR '':'') (up_port x)"
  let ?fragment = "optional ((#) CHR ''#'') (up_fragment x)"
  let ?to_host = "up_schema x @ ''://''"
  let ?to_name = "?to_host @ optional (\<lambda>t. t @ ''@'') (up_userinfo x)"
  let ?to_path = "?to_host @ write_authority x"
  let ?to_query = "?to_path @ ?opt (up_path x)"
  show "read_field mem u UF_SCHEMA = Some (up_schema x)"
    by (rule read_fieldI [where a = "[]"]) (use len in \<open>auto simp: u_def mem_def result_field_defs\<close>)
  show "read_field mem u UF_HOST = Some (up_host x)"
    by (rule read_fieldI [where a = "?to_name @ (if up_v6 x then ''['' else [])"
          and b = "(if up_v6 x then '']'' else []) @ ?port @ ?opt (up_path x) @ ?query @ ?fragment @ rest"])
      (use len in \<open>auto simp: u_def mem_def result_field_defs\<close>)
  show "read_field mem u UF_USERINFO = up_userinfo x"
    by (rule read_fieldI [where a = ?to_host])
      (use len in \<open>auto simp: u_def mem_def result_field_defs\<close>)
  show "read_field mem u UF_PORT = up_port x"
    by (rule read_fieldI [where a = "?to_name @ write_host x @ '':''"])
      (use len in \<open>auto simp: u_def mem_def result_field_defs\<close>)
  show "read_field mem u UF_PATH = up_path x"
    by (rule read_fieldI [where a = ?to_path])
      (use len in \<open>auto simp: u_def mem_def result_field_defs\<close>)
  show "read_field mem u UF_QUERY = up_query x"
    by (rule read_fieldI [where a = "?to_query @ ''?''"])
      (use len in \<open>auto simp: u_def mem_def result_field_defs\<close>)
  show "read_field mem u UF_FRAGMENT = up_fragment x"
    by (rule read_fieldI [where a = "?to_query @ ?query @ ''#''"])
      (use len in \<open>auto simp: u_def mem_def result_field_defs\<close>)
qed

section \<open>The whole call\<close>

lemma host_after_first_scan:
  assumes "length (write_url x) \<le> 65535"
  shows "unat (field_off (first_scan x u) UF_HOST) = host_start x"
    and "unat (field_len (first_scan x u) UF_HOST) = length (write_authority x)"
proof -
  have "host_start x \<le> 65535" "length (write_authority x) \<le> 65535"
    using assms by (simp_all add: write_url_def host_start_def)
  then show "unat (field_off (first_scan x u) UF_HOST) = host_start x"
    "unat (field_len (first_scan x u) UF_HOST) = length (write_authority x)"
    by (simp_all add: first_scan_def unat_16)
qed

lemma parse_host_written:
  assumes "url_parts_ok x" "length (write_url x) \<le> 65535"
  shows "http_parse_host (write_url x @ rest) (first_scan x u) (up_userinfo x \<noteq> None) =
    Inr (0, result_fields x u)"
proof -
  let ?s = "if up_userinfo x \<noteq> None then s_http_userinfo_start else s_http_host_start"
  have "byte_range (host_start x) (length (write_authority x)) (write_url x @ rest) = write_authority x"
    by (simp add: write_url_def host_start_def byte_range_def)
  moreover have "host_start x + length (write_authority x) \<le> length (write_url x @ rest)"
    by (simp add: write_url_def host_start_def)
  moreover obtain s where "\<not> unfinished_host s"
    "scan_host (write_authority x) (host_start x) ?s (set_len UF_HOST 0 (first_scan x u)) =
      Goes_on (s, result_fields x u)"
    using scan_written_authority [OF assms(1), of "set_len UF_HOST 0 (first_scan x u)" "host_start x"]
    by (auto simp: result_fields_def)
  ultimately show ?thesis
    by (simp add: http_parse_host_def Let_def host_after_first_scan [OF assms(2)] parse_host_loop_scan
        del: if_split)
qed

lemma port_after_scans:
  assumes "up_port x = Some t"
  shows "field_off (result_fields x u) UF_PORT =
    word_of_nat (host_start x + userinfo_length x + length (write_host x) + 1)"
  using assms by (simp add: result_fields_def second_scan_def)

lemma parse_port_written:
  fixes u :: http_parser_url
  assumes ok: "url_parts_ok x" and len: "length (write_url x) \<le> 65535" and c: "\<not> IS_NUM c"
    and u': "u' = result_fields x (u\<lparr>field_set := 0\<rparr>)"
  shows "parse_url_connect (write_url x @ c # rest) False u' =
    Inr (0, case up_port x of None \<Rightarrow> u' | Some t \<Rightarrow> u'\<lparr>port := word_of_nat (decimal 0 t)\<rparr>)"
proof (cases "up_port x")
  case None
  then have "\<not> has_field UF_PORT u'"
    by (simp add: u' result_field_defs)
  with None show ?thesis by (simp add: parse_url_connect_def parse_url_port_def)
next
  case (Some t)
  let ?p = "host_start x + userinfo_length x + length (write_host x) + 1"
  let ?tail = "optional (\<lambda>t. t) (up_path x) @ optional ((#) CHR ''?'') (up_query x) @
    optional ((#) CHR ''#'') (up_fragment x)"
  from ok Some have t: "t \<noteq> []" "list_all IS_NUM t" "decimal 0 t \<le> 65535"
    by (simp_all add: url_parts_ok_def)
  have "?p \<le> 65535"
    using len Some by (simp add: write_url_def write_authority_def host_start_def userinfo_length_def
        optional_def)
  then have off: "unat (field_off u' UF_PORT) = ?p"
    unfolding u' port_after_scans [OF Some] by (rule unat_16)
  let ?pre = "up_schema x @ ''://'' @ optional (\<lambda>t. t @ ''@'') (up_userinfo x) @ write_host x @ '':''"
  have pre: "write_url x @ c # rest = ?pre @ t @ ?tail @ c # rest"
    using Some by (simp add: write_url_def write_authority_def optional_def)
  have "length ?pre = ?p"
    by (simp add: host_start_def userinfo_length_def)
  then have "drop ?p (write_url x @ c # rest) = t @ ?tail @ c # rest"
    unfolding pre by (metis append_eq_conv_conj)
  moreover obtain d ds where "?tail @ c # rest = d # ds" "\<not> IS_NUM d"
  proof (cases "?tail")
    case Nil
    with c that show ?thesis by simp
  next
    case (Cons d ds)
    have "d \<in> {CHR ''/'', CHR ''?'', CHR ''#''}"
    proof (cases "up_path x")
      case None
      with Cons show ?thesis by (auto simp: optional_def split: option.splits)
    next
      case (Some p)
      with ok have "p \<noteq> []" "hd p = CHR ''/''" by (simp_all add: url_parts_ok_def)
      with Some Cons show ?thesis by (cases p) (simp_all add: optional_def)
    qed
    then have "\<not> IS_NUM d" by (auto simp: IS_NUM_def ord_def)
    with Cons that show ?thesis by simp
  qed
  ultimately have "strtoul (write_url x @ c # rest) ?p = Some (decimal 0 t)"
    using t by (intro strtoul_decimal) auto
  moreover have "has_field UF_PORT u'"
    using Some by (simp add: u' result_field_defs)
  ultimately show ?thesis
    using t(3) by (simp add: parse_url_connect_def parse_url_port_def off Some)
qed

text \<open>
  A URL written from its parts is parsed, whatever the result structure held before, and
  its fields are the parts again.
\<close>

lemma parse_written_url:
  fixes u :: http_parser_url
  assumes ok: "url_parts_ok x" and len: "length (write_url x) \<le> 65535" and c: "\<not> IS_NUM c"
  defines "u' \<equiv> result_fields x (u\<lparr>port := 0, field_set := 0\<rparr>)"
  shows "http_parser_parse_url (write_url x @ c # rest) (length (write_url x)) False u =
    Inr (0, case up_port x of None \<Rightarrow> u' | Some t \<Rightarrow> u'\<lparr>port := word_of_nat (decimal 0 t)\<rparr>)"
proof -
  let ?mem = "write_url x @ c # rest" and ?u = "u\<lparr>port := 0, field_set := 0\<rparr>"
  obtain s g where scan: "scan_url (write_url x) 0 (scan_at s_req_spaces_before_url UF_MAX False ?u) =
      Goes_on (scan_at s g (up_userinfo x \<noteq> None) (first_scan x ?u))"
    using scan_written_url [OF ok] by blast
  have "byte_range 0 (length (write_url x)) ?mem = write_url x"
    by (simp add: byte_range_def)
  moreover have "has_field UF_HOST (first_scan x ?u)"
    by (simp add: first_scan_def)
  ultimately show ?thesis
    unfolding u'_def using scan parse_host_written [OF ok len, of "c # rest" ?u]
      parse_port_written [OF ok len c refl, of rest "u\<lparr>port := 0\<rparr>"]
    by (simp add: http_parser_parse_url_def Let_def parse_url_loop_scan scan_at_def del: not_None_eq)
qed

lemma port_of_result:
  assumes "port u = 0"
  shows "port (result_fields x u) = 0"
  using assms
  by (simp add: result_fields_def second_scan_def first_scan_def put_opt_def put_def place_def
      add_field_def set_len_def set_off_def split: option.split)

lemma read_field_port [simp]: "read_field mem (u\<lparr>port := w\<rparr>) uf = read_field mem u uf"
  by (simp add: read_field_def)

end
