(* ===== verification/Http_Url_Safe.thy ===== *)
theory Http_Url_Safe
  imports Http_Url_Correct
begin

text \<open>
  Safety of \<open>http_parser_parse_url\<close> on any bytes: every read is inside the memory, no
  assertion fails, and the fields of an accepted URL lie inside it.
\<close>

definition field_end :: "http_parser_url_fields \<Rightarrow> http_parser_url \<Rightarrow> nat" where
  "field_end uf u = unat (field_off u uf) + unat (field_len u uf)"

lemma unat_inc:
  assumes "unat (w :: 16 word) < 65535"
  shows "unat (w + 1) = unat w + 1"
  using assms unat_add_lem [of w 1] by simp

lemma field_end_simps [simp]:
  "field_end f (u\<lparr>port := w\<rparr>) = field_end f u"
  "field_end f (u\<lparr>field_set := v\<rparr>) = field_end f u"
  "field_end f (add_field g u) = field_end f u"
  "f \<noteq> g \<Longrightarrow> field_end f (set_len g n u) = field_end f u"
  "f \<noteq> g \<Longrightarrow> field_end f (set_off g p u) = field_end f u"
  "f \<noteq> g \<Longrightarrow> field_end f (inc_len g u) = field_end f u"
  "f \<noteq> g \<Longrightarrow> field_end f (put g p k u) = field_end f u"
  by (simp_all add: field_end_def add_field_def)

lemma field_end_put: "p \<le> 65535 \<Longrightarrow> n \<le> 65535 \<Longrightarrow> field_end f (put f p n u) = p + n"
  by (simp add: field_end_def unat_16)

lemma field_end_inc: "field_end f u < 65535 \<Longrightarrow> field_end f (inc_len f u) = field_end f u + 1"
  by (simp add: field_end_def unat_inc)

section \<open>The first scan\<close>

definition url_fields :: "http_parser_url_fields set" where
  "url_fields = {UF_SCHEMA, UF_HOST, UF_PATH, UF_QUERY, UF_FRAGMENT}"

definition scan_inv :: "nat \<Rightarrow> nat \<Rightarrow> url_scan \<Rightarrow> bool" where
  "scan_inv n p c \<longleftrightarrow>
     (\<forall>uf. has_field uf (parsed c) \<longrightarrow> uf \<in> url_fields \<and> field_end uf (parsed c) \<le> p) \<and>
     (old_uf c = UF_MAX \<or> has_field (old_uf c) (parsed c)) \<and>
     field_end UF_HOST (parsed c) \<le> n"

lemma scan_inv_note:
  assumes "scan_inv n p c" "p < n" "uf \<in> url_fields"
    and has: "\<And>f. has_field f u \<longleftrightarrow> f = uf \<or> has_field f (parsed c)"
    and same: "\<And>f. f \<noteq> uf \<Longrightarrow> field_end f u = field_end f (parsed c)"
    and fin: "field_end uf u \<le> p + 1"
  shows "scan_inv n (p + 1) (c\<lparr>old_uf := uf, parsed := u\<rparr>)"
proof -
  have "field_end f u \<le> p + 1" if "has_field f u" for f
    using that assms(1) has fin same [of f] by (cases "f = uf") (auto simp: scan_inv_def)
  moreover have "field_end UF_HOST u \<le> n"
    using assms(1,2) fin same [of UF_HOST] by (cases "uf = UF_HOST") (auto simp: scan_inv_def)
  ultimately show ?thesis
    using assms(1,3) has by (auto simp: scan_inv_def)
qed

lemma note_url_byte_inv:
  assumes "scan_inv n p c" "p < n" "n \<le> 65535" "uf \<in> url_fields"
  shows "scan_inv n (p + 1) (note_url_byte p uf c)"
proof (cases "uf = old_uf c")
  case True
  with assms have "has_field uf (parsed c)" "field_end uf (parsed c) \<le> p"
    by (auto simp: scan_inv_def url_fields_def)
  moreover from this assms have "field_end uf (inc_len uf (parsed c)) \<le> p + 1"
    by (simp add: field_end_inc)
  ultimately show ?thesis
    using scan_inv_note [OF assms(1,2,4), of "inc_len uf (parsed c)"] True
    by (auto simp: note_url_byte_def)
next
  case False
  have "field_end uf (put uf p 1 (parsed c)) = p + 1"
    using assms by (simp add: field_end_put)
  then show ?thesis
    using scan_inv_note [OF assms(1,2,4), of "put uf p 1 (parsed c)"] False
    by (simp add: note_url_byte_def put_first)
qed

lemma scan_inv_more [simp]:
  "scan_inv n p (c\<lparr>url_state := s\<rparr>) = scan_inv n p c"
  "scan_inv n p (c\<lparr>found_at := b\<rparr>) = scan_inv n p c"
  by (simp_all add: scan_inv_def)

lemma scan_inv_Suc: "scan_inv n p c \<Longrightarrow> scan_inv n (p + 1) c"
  by (auto simp: scan_inv_def le_SucI)

lemma parse_url_char_range:
  "parse_url_char s ch \<in> {s_dead, s_req_schema, s_req_schema_slash, s_req_schema_slash_slash,
     s_req_server_start, s_req_server, s_req_server_with_at, s_req_path, s_req_query_string_start,
     s_req_query_string, s_req_fragment_start, s_req_fragment}" (is "_ \<in> ?R")
proof -
  have if_in: "(if b then x else y) \<in> A" if "x \<in> A" "y \<in> A" for b and x y :: http_state and A
    using that by simp
  define R where "R = ?R"
  have "s_dead \<in> R" "s_req_schema \<in> R" "s_req_schema_slash \<in> R" "s_req_schema_slash_slash \<in> R"
    "s_req_server_start \<in> R" "s_req_server \<in> R" "s_req_server_with_at \<in> R" "s_req_path \<in> R"
    "s_req_query_string_start \<in> R" "s_req_query_string \<in> R" "s_req_fragment_start \<in> R"
    "s_req_fragment \<in> R"
    by (simp_all add: R_def)
  then have "parse_url_char s ch \<in> R"
    unfolding parse_url_char_def Let_def by (cases s) (simp_all add: if_in del: if_split)
  then show ?thesis by (simp only: R_def)
qed

lemma parse_url_byte_inv:
  assumes "scan_inv n p c" "p < n" "n \<le> 65535"
  shows "(\<exists>u. parse_url_byte p ch c = Returns 1 u) \<or>
    (\<exists>c'. parse_url_byte p ch c = Goes_on c' \<and> scan_inv n (p + 1) c')"
proof -
  have noted: "scan_inv n (p + 1) (note_url_byte p uf c')" if "uf \<in> url_fields" "scan_inv n p c'" for uf c'
    using note_url_byte_inv [OF that(2) assms(2,3) that(1)] .
  note keep = scan_inv_Suc [OF assms(1)]
  show ?thesis
    using parse_url_char_range [of "url_state c" ch]
    by (elim insertE emptyE)
      (simp_all add: parse_url_byte_def Let_def noted keep assms(1) url_fields_def del: One_nat_def Suc_eq_plus1 add_Suc_right)
qed

lemma parse_url_loop_inv:
  assumes "scan_inv n p c" "p + k = n" "n \<le> 65535" "n \<le> length mem"
  shows "(\<exists>u. parse_url_loop k mem p c = Returns 1 u) \<or>
    (\<exists>c'. parse_url_loop k mem p c = Goes_on c' \<and> scan_inv n n c')"
  using assms
proof (induction k mem p c rule: parse_url_loop.induct)
  case (2 k mem p c)
  from parse_url_byte_inv [OF "2.prems"(1), of "mem ! p"] "2.prems"
  consider u where "parse_url_byte p (mem ! p) c = Returns 1 u"
    | c' where "parse_url_byte p (mem ! p) c = Goes_on c'" "scan_inv n (p + 1) c'"
    by auto
  then show ?case
    using 2 by cases auto
qed simp

section \<open>The second scan\<close>

text \<open>
  The host starts with length 0; a field that the scan writes ends where the scan is. The
  port begins with a digit.
\<close>

definition host_inv :: "string \<Rightarrow> nat \<Rightarrow> nat \<Rightarrow> http_host_state \<Rightarrow> http_parser_url \<Rightarrow> bool" where
  "host_inv mem n p s u \<longleftrightarrow>
     (\<forall>uf. has_field uf u \<longrightarrow> uf \<noteq> UF_MAX \<and> field_end uf u \<le> n) \<and>
     (\<forall>uf \<in> {UF_PORT, UF_USERINFO}. has_field uf u \<longrightarrow> field_end uf u \<le> p) \<and>
     field_end UF_HOST u \<le> p \<and>
     (s \<notin> {s_http_host, s_http_host_v6, s_http_host_v6_end, s_http_host_port_start, s_http_host_port}
        \<longrightarrow> field_len u UF_HOST = 0) \<and>
     (s = s_http_userinfo \<longrightarrow> has_field UF_USERINFO u) \<and>
     (s = s_http_host_port \<longrightarrow> has_field UF_PORT u) \<and>
     (has_field UF_PORT u \<longrightarrow> unat (field_off u UF_PORT) < n \<and> IS_NUM (mem ! unat (field_off u UF_PORT)))"

text \<open>The states before and after a byte.\<close>

lemma http_parse_host_char_cases:
  assumes "http_parse_host_char s ch = s'" "s' \<noteq> s_http_host_dead"
  obtains "s' = s_http_userinfo" "s \<in> {s_http_userinfo_start, s_http_userinfo}"
  | "s' = s_http_host_start" "s \<in> {s_http_userinfo_start, s_http_userinfo}"
  | "s' = s_http_host_v6_start" "s = s_http_host_start"
  | "s' = s_http_host" "s \<in> {s_http_host_start, s_http_host}"
  | "s' = s_http_host_v6" "s \<in> {s_http_host_v6_start, s_http_host_v6}"
  | "s' = s_http_host_v6_end" "s = s_http_host_v6"
  | "s' = s_http_host_port_start" "s \<in> {s_http_host, s_http_host_v6_end}"
  | "s' = s_http_host_port" "s \<in> {s_http_host_port_start, s_http_host_port}" "IS_NUM ch"
  using assms
  by (cases s) (auto simp: http_parse_host_char_def split: if_splits)

lemma field_end_inc_if:
  "field_end g u < 65535 \<Longrightarrow> field_end f (inc_len g u) = (if f = g then field_end g u + 1 else field_end f u)"
  using field_end_inc [of g u] by simp

lemma field_end_put_if:
  "p < 65535 \<Longrightarrow> field_end f (put g p (Suc 0) u) = (if f = g then p + 1 else field_end f u)"
  using field_end_put [of p 1 g u] by simp

lemma field_end_place_if:
  "p < 65535 \<Longrightarrow> field_end f (place p (Suc 0) u) = (if f = UF_HOST then p + 1 else field_end f u)"
  using unat_16 [of p] unat_16 [of 1] by (simp add: field_end_def)

lemma note_host_byte_eq:
  "note_host_byte p s s_http_userinfo u =
     (if s = s_http_userinfo then inc_len UF_USERINFO u else put UF_USERINFO p 1 u)"
  "note_host_byte p s s_http_host_port u =
     (if s = s_http_host_port then inc_len UF_PORT u else put UF_PORT p 1 u)"
  "field_len u UF_HOST = 0 \<Longrightarrow> s \<noteq> s_http_host \<Longrightarrow> note_host_byte p s s_http_host u = place p 1 u"
  "field_len u UF_HOST = 0 \<Longrightarrow> s \<noteq> s_http_host_v6 \<Longrightarrow> note_host_byte p s s_http_host_v6 u = place p 1 u"
  "note_host_byte p s_http_host s_http_host u = inc_len UF_HOST u"
  "note_host_byte p s_http_host_v6 s_http_host_v6 u = inc_len UF_HOST u"
  "s' \<in> {s_http_host_start, s_http_host_v6_start, s_http_host_v6_end, s_http_host_port_start} \<Longrightarrow>
     note_host_byte p s s' u = u"
  by (auto simp: note_host_byte_def put_def place_def inc_len_def add_field_def set_len_def set_off_def)

lemma host_inv_note:
  assumes inv: "host_inv mem n p s u" and p: "p < n" "n \<le> 65535"
    and step: "http_parse_host_char s (mem ! p) = s'" "s' \<noteq> s_http_host_dead"
  shows "host_inv mem n (p + 1) s' (note_host_byte p s s' u)"
proof -
  have small: "p < 65535" "\<And>uf. field_end uf u \<le> p \<Longrightarrow> field_end uf u < 65535" using p by auto
  have off: "unat (word_of_nat p :: 16 word) = p" using p by (simp add: unat_16)
  show ?thesis
    using step
  proof (cases rule: http_parse_host_char_cases)
    case 1
    with inv p small show ?thesis
      by (auto simp: host_inv_def note_host_byte_eq field_end_inc_if field_end_put_if le_SucI)
  next
    case 8
    with inv p small off show ?thesis
      by (auto simp: host_inv_def note_host_byte_eq field_end_inc_if field_end_put_if le_SucI
          split: if_splits)
  next
    case 4
    with inv p small show ?thesis
      by (auto simp: host_inv_def note_host_byte_eq field_end_inc_if field_end_place_if le_SucI)
  next
    case 5
    with inv p small show ?thesis
      by (auto simp: host_inv_def note_host_byte_eq field_end_inc_if field_end_place_if le_SucI)
  qed (use inv in \<open>auto simp: host_inv_def note_host_byte_eq le_SucI\<close>)
qed

lemma parse_host_loop_inv:
  assumes "host_inv mem n p s u" "p + k \<le> n" "n \<le> 65535" "n \<le> length mem"
  shows "(\<exists>u'. parse_host_loop k mem p s u = Returns 1 u') \<or>
    (\<exists>s' u'. parse_host_loop k mem p s u = Goes_on (s', u') \<and> host_inv mem n (p + k) s' u')"
  using assms
proof (induction k mem p s u rule: parse_host_loop.induct)
  case (2 k mem p s u)
  show ?case
  proof (cases "http_parse_host_char s (mem ! p) = s_http_host_dead")
    case True
    with "2.prems" show ?thesis by simp
  next
    case False
    have "host_inv mem n (p + 1) (http_parse_host_char s (mem ! p))
        (note_host_byte p s (http_parse_host_char s (mem ! p)) u)"
      using "2.prems" False by (intro host_inv_note) auto
    with 2 False show ?thesis by (simp add: Let_def)
  qed
qed simp

section \<open>The whole call\<close>

lemma strtoul_digits_Some: "\<exists>c \<in> set cs. \<not> IS_NUM c \<Longrightarrow> \<exists>v. strtoul_digits cs acc = Some v"
  by (induction cs arbitrary: acc) auto

lemma strtoul_Some:
  assumes "IS_NUM (mem ! p)" "p \<le> k" "k < length mem" "\<not> IS_NUM (mem ! k)"
  shows "\<exists>v. strtoul mem p = Some v"
proof -
  obtain d ds where ds: "drop p mem = d # ds"
    using assms(2,3) by (metis Cons_nth_drop_Suc le_less_trans)
  then have "d = mem ! p" by (metis assms(2,3) hd_drop_conv_nth le_less_trans list.sel(1))
  with assms(1) have d: "IS_NUM d" by simp
  then have "\<not> isspace d" "d \<noteq> CHR ''-''" "d \<noteq> CHR ''+''"
    by (auto simp: isspace_def IS_NUM_def ord_def)
  moreover have "mem ! k \<in> set (drop p mem)"
    using assms(2,3) by (auto simp: in_set_conv_nth intro!: exI [of _ "k - p"])
  then have "\<exists>v. strtoul_digits (d # ds) 0 = Some v"
    using assms(4) ds by (intro strtoul_digits_Some) auto
  ultimately show ?thesis
    using ds by (auto simp: strtoul_def strtoul_sign_def)
qed

definition fields_inside :: "nat \<Rightarrow> http_parser_url \<Rightarrow> bool" where
  "fields_inside n u \<longleftrightarrow> (\<forall>uf. has_field uf u \<longrightarrow> uf \<noteq> UF_MAX \<and> field_end uf u \<le> n)"

lemma parse_host_inv:
  assumes "scan_inv n n c" "n \<le> 65535" "n \<le> length mem"
  shows "\<exists>r u'. http_parse_host mem (parsed c) b = Inr (r, u') \<and>
    (r = 0 \<longrightarrow> (\<exists>s. host_inv mem n n s u'))"
proof -
  let ?u = "set_len UF_HOST 0 (parsed c)"
  let ?s = "if b then s_http_userinfo_start else s_http_host_start"
  let ?p = "unat (field_off (parsed c) UF_HOST)" and ?k = "unat (field_len (parsed c) UF_HOST)"
  have host: "field_end UF_HOST ?u = ?p" by (simp add: field_end_def)
  have le: "?p + ?k \<le> n" using assms(1) by (simp add: scan_inv_def field_end_def)
  have "field_end uf ?u \<le> n" if "has_field uf (parsed c)" for uf
    using that assms(1) host le by (cases "uf = UF_HOST") (auto simp: scan_inv_def)
  with assms(1) host have "host_inv mem n ?p ?s ?u"
    by (auto simp: host_inv_def scan_inv_def url_fields_def)
  then consider u' where "parse_host_loop ?k mem ?p ?s ?u = Returns 1 u'"
    | s' u' where "parse_host_loop ?k mem ?p ?s ?u = Goes_on (s', u')" "host_inv mem n (?p + ?k) s' u'"
    using parse_host_loop_inv [OF _ le assms(2,3), of ?s ?u] by blast
  then show ?thesis
  proof cases
    case 2
    have "host_inv mem n n s' u'"
      using 2(2) le by (auto simp: host_inv_def intro: le_trans)
    with 2(1) show ?thesis by (auto simp: http_parse_host_def Let_def)
  qed (simp add: http_parse_host_def Let_def)
qed

lemma parse_url_port_inside:
  assumes "host_inv mem n n s u \<or> scan_inv n n c \<and> parsed c = u"
    and "n \<le> k" "k < length mem" "\<not> IS_NUM (mem ! k)"
  shows "\<exists>r u'. parse_url_connect mem is_connect u = Inr (r, u') \<and> r \<in> {0, 1} \<and>
    (r = 0 \<longrightarrow> fields_inside n u')"
proof -
  have inside: "fields_inside n u"
    using assms(1) by (auto simp: fields_inside_def host_inv_def scan_inv_def url_fields_def)
  have "\<exists>v. strtoul mem (unat (field_off u UF_PORT)) = Some v" if "has_field UF_PORT u"
    using assms that by (intro strtoul_Some [of mem _ k]) (auto simp: host_inv_def scan_inv_def url_fields_def)
  with inside show ?thesis
    by (auto simp: parse_url_connect_def parse_url_port_def fields_inside_def)
qed

lemma parse_url_inside:
  assumes n: "n \<le> 65535" and k: "n \<le> k" "k < length mem" "\<not> IS_NUM (mem ! k)"
    and host: "field_end UF_HOST u \<le> n"
  shows "\<exists>r u'. http_parser_parse_url mem n is_connect u = Inr (r, u') \<and> r \<in> {0, 1} \<and>
    (r = 0 \<longrightarrow> fields_inside n u')"
proof -
  define c where "c = \<lparr>url_state = (if is_connect then s_req_server_start else s_req_spaces_before_url),
    old_uf = UF_MAX, found_at = False, parsed = u\<lparr>port := 0, field_set := 0\<rparr>\<rparr>"
  have mem: "n \<le> length mem" using k by simp
  have "scan_inv n 0 c"
    using host by (simp add: scan_inv_def c_def)
  then consider u' where "parse_url_loop n mem 0 c = Returns 1 u'"
    | c' where "parse_url_loop n mem 0 c = Goes_on c'" "scan_inv n n c'"
    using parse_url_loop_inv [OF _ _ n mem, of 0 c n] by auto
  then show ?thesis
  proof cases
    case 1
    then show ?thesis by (simp add: http_parser_parse_url_def Let_def c_def [symmetric])
  next
    case 2
    from parse_host_inv [OF 2(2) n mem, of "found_at c'"] obtain r u' where
      h: "http_parse_host mem (parsed c') (found_at c') = Inr (r, u')"
        "r = 0 \<Longrightarrow> \<exists>s. host_inv mem n n s u'"
      by auto
    have "\<exists>r u''. parse_url_connect mem is_connect u' = Inr (r, u'') \<and> r \<in> {0, 1} \<and>
        (r = 0 \<longrightarrow> fields_inside n u'')" if "r = 0"
      using h(2) [OF that] k by (blast intro: parse_url_port_inside)
    moreover have "\<exists>r u''. parse_url_connect mem is_connect (parsed c') = Inr (r, u'') \<and> r \<in> {0, 1} \<and>
        (r = 0 \<longrightarrow> fields_inside n u'')"
      using 2(2) k by (blast intro: parse_url_port_inside)
    ultimately show ?thesis
      using 2(1) h(1) by (simp add: http_parser_parse_url_def Let_def c_def [symmetric])
  qed
qed

end
