(* ===== verification/Coding.thy ===== *)
theory Coding
  imports Prelude
begin

text \<open>
  The encodings of \<open>src/base/coding.h\<close>, \<open>src/base/coding.cc\<close> and
  \<open>src/base/raw_coding.h\<close>: fixed-length little-endian numbers and variable-length
  numbers. Bytes are \<open>8 word\<close>; a pointer with its limit is the list of the bytes between
  them, and a decoder that returns a pointer returns the bytes that are left.
\<close>

type_synonym byte = "8 word"

section \<open>Fixed-length numbers\<close>

text \<open>
  \<open>memcpy(buf, &value, n)\<close> on a little-endian machine copies the bytes of the value from
  the least significant one.
\<close>

definition value_bytes :: "nat \<Rightarrow> 'a::len word \<Rightarrow> byte list" where
  "value_bytes n v = map (\<lambda>i. ucast (drop_bit (8 * i) v)) [0..<n]"

definition EncodeFixed16 :: "bool \<Rightarrow> 16 word \<Rightarrow> byte list" where
  "EncodeFixed16 kLittleEndian v =
     (if kLittleEndian then value_bytes 2 v
      else [ucast (v AND 0xff), ucast (drop_bit 8 v AND 0xff)])"

definition EncodeFixed32 :: "bool \<Rightarrow> 32 word \<Rightarrow> byte list" where
  "EncodeFixed32 kLittleEndian v =
     (if kLittleEndian then value_bytes 4 v
      else [ucast (v AND 0xff), ucast (drop_bit 8 v AND 0xff), ucast (drop_bit 16 v AND 0xff),
            ucast (drop_bit 24 v AND 0xff)])"

definition EncodeFixed64 :: "bool \<Rightarrow> 64 word \<Rightarrow> byte list" where
  "EncodeFixed64 kLittleEndian v =
     (if kLittleEndian then value_bytes 8 v
      else [ucast (v AND 0xff), ucast (drop_bit 8 v AND 0xff), ucast (drop_bit 16 v AND 0xff),
            ucast (drop_bit 24 v AND 0xff), ucast (drop_bit 32 v AND 0xff),
            ucast (drop_bit 40 v AND 0xff), ucast (drop_bit 48 v AND 0xff),
            ucast (drop_bit 56 v AND 0xff)])"

definition PutFixed16 :: "bool \<Rightarrow> byte list \<Rightarrow> 16 word \<Rightarrow> byte list" where
  "PutFixed16 kLittleEndian dst v = dst @ EncodeFixed16 kLittleEndian v"

definition PutFixed32 :: "bool \<Rightarrow> byte list \<Rightarrow> 32 word \<Rightarrow> byte list" where
  "PutFixed32 kLittleEndian dst v = dst @ EncodeFixed32 kLittleEndian v"

definition PutFixed64 :: "bool \<Rightarrow> byte list \<Rightarrow> 64 word \<Rightarrow> byte list" where
  "PutFixed64 kLittleEndian dst v = dst @ EncodeFixed64 kLittleEndian v"

text \<open>
  The decoders read without a bounds check: \<open>None\<close> when the bytes are not there. On a
  little-endian machine \<open>memcpy\<close> puts the bytes into the value, else they are shifted
  and or-ed.
\<close>

fun bytes_value :: "byte list \<Rightarrow> 'a::len word" where
  "bytes_value [] = 0"
| "bytes_value (b # bs) = ucast b OR push_bit 8 (bytes_value bs)"

definition DecodeFixed16 :: "bool \<Rightarrow> byte list \<Rightarrow> 16 word option" where
  "DecodeFixed16 kLittleEndian p =
     (if length p < 2 then None
      else Some (if kLittleEndian then bytes_value (take 2 p)
                 else ucast (p ! 0) OR push_bit 8 (ucast (p ! 1))))"

definition DecodeFixed32 :: "bool \<Rightarrow> byte list \<Rightarrow> 32 word option" where
  "DecodeFixed32 kLittleEndian p =
     (if length p < 4 then None
      else Some (if kLittleEndian then bytes_value (take 4 p)
                 else ucast (p ! 0) OR push_bit 8 (ucast (p ! 1)) OR push_bit 16 (ucast (p ! 2))
                   OR push_bit 24 (ucast (p ! 3))))"

definition DecodeFixed64 :: "bool \<Rightarrow> byte list \<Rightarrow> 64 word option" where
  "DecodeFixed64 kLittleEndian p =
     (if length p < 8 then None
      else if kLittleEndian then Some (bytes_value (take 8 p))
      else (case (DecodeFixed32 False p, DecodeFixed32 False (drop 4 p)) of
          (Some lo, Some hi) \<Rightarrow> Some (push_bit 32 (ucast hi) OR ucast lo)
        | _ \<Rightarrow> None))"

section \<open>Variable-length numbers\<close>

definition EncodeVarint32 :: "32 word \<Rightarrow> byte list" where
  "EncodeVarint32 v =
     (if v < push_bit 7 1 then [ucast v]
      else if v < push_bit 14 1 then [ucast (v OR 128), ucast (drop_bit 7 v)]
      else if v < push_bit 21 1 then
        [ucast (v OR 128), ucast (drop_bit 7 v OR 128), ucast (drop_bit 14 v)]
      else if v < push_bit 28 1 then
        [ucast (v OR 128), ucast (drop_bit 7 v OR 128), ucast (drop_bit 14 v OR 128),
         ucast (drop_bit 21 v)]
      else
        [ucast (v OR 128), ucast (drop_bit 7 v OR 128), ucast (drop_bit 14 v OR 128),
         ucast (drop_bit 21 v OR 128), ucast (drop_bit 28 v)])"

definition PutVarint32 :: "byte list \<Rightarrow> 32 word \<Rightarrow> byte list" where
  "PutVarint32 dst v = dst @ EncodeVarint32 v"

lemma drop_bit_7_less: "128 \<le> v \<Longrightarrow> unat (drop_bit 7 v) < unat (v :: 64 word)"
  by (simp add: drop_bit_eq_div word_le_nat_alt unat_div)

function EncodeVarint64 :: "64 word \<Rightarrow> byte list" where
  "EncodeVarint64 v =
     (if 128 \<le> v then ucast ((v AND 127) OR 128) # EncodeVarint64 (drop_bit 7 v) else [ucast v])"
  by pat_completeness auto

termination
  by (relation "measure unat") (simp_all add: drop_bit_7_less)

declare EncodeVarint64.simps [simp del]

definition PutVarint64 :: "byte list \<Rightarrow> 64 word \<Rightarrow> byte list" where
  "PutVarint64 dst v = dst @ EncodeVarint64 v"

function VarintLength_loop :: "64 word \<Rightarrow> nat \<Rightarrow> nat" where
  "VarintLength_loop v len = (if 128 \<le> v then VarintLength_loop (drop_bit 7 v) (len + 1) else len)"
  by pat_completeness auto

termination
  by (relation "measure (\<lambda>(v, len). unat v)") (simp_all add: drop_bit_7_less)

declare VarintLength_loop.simps [simp del]

definition VarintLength :: "64 word \<Rightarrow> nat" where
  "VarintLength v = VarintLength_loop v 1"

text \<open>
  The loops of the two decoders, over the shift: they stop after the byte whose shift is
  \<open>final\<close>, or at the limit, with \<open>NULL\<close>.
\<close>

fun get_varint_loop :: "nat \<Rightarrow> nat \<Rightarrow> 'a::len word \<Rightarrow> byte list \<Rightarrow> ('a word \<times> byte list) option" where
  "get_varint_loop final shift result [] = None"
| "get_varint_loop final shift result (b # p) =
     (if final < shift then None
      else if b AND 128 \<noteq> 0 then
        get_varint_loop final (shift + 7) (result OR push_bit shift (ucast b AND 127)) p
      else Some (result OR push_bit shift (ucast b), p))"

definition GetVarint32PtrFallback :: "byte list \<Rightarrow> (32 word \<times> byte list) option" where
  "GetVarint32PtrFallback p = get_varint_loop 28 0 0 p"

definition GetVarint32Ptr :: "byte list \<Rightarrow> (32 word \<times> byte list) option" where
  "GetVarint32Ptr p =
     (case p of
        b # p' \<Rightarrow> if (ucast b :: 32 word) AND 128 = 0 then Some (ucast b, p')
                  else GetVarint32PtrFallback p
      | [] \<Rightarrow> GetVarint32PtrFallback p)"

definition GetVarint64Ptr :: "byte list \<Rightarrow> (64 word \<times> byte list) option" where
  "GetVarint64Ptr p = get_varint_loop 63 0 0 p"

text \<open>The versions on a \<open>StringPiece\<close>: the value with the piece left, or \<open>false\<close>.\<close>

definition GetVarint32 :: "byte list \<Rightarrow> (32 word \<times> byte list) option" where
  "GetVarint32 input = GetVarint32Ptr input"

definition GetVarint64 :: "byte list \<Rightarrow> (64 word \<times> byte list) option" where
  "GetVarint64 input = GetVarint64Ptr input"

end
