(* ===== verification/Stringpiece.thy ===== *)
theory Stringpiece
  imports Coding "HOL-Library.List_Lexorder"
begin

text \<open>
  \<open>src/base/stringpiece.h\<close> and \<open>stringpiece.cc\<close>: a piece of memory with its length is the
  list of its bytes. The comparison is the lexicographic order of the library on lists of
  bytes, which the table code sorts by; the searches find the first and the last place.
\<close>

section \<open>Comparison\<close>

text \<open>\<open>memcmp\<close> compares the bytes as \<open>unsigned char\<close>; only the sign of its result is used.\<close>

fun memcmp :: "byte list \<Rightarrow> byte list \<Rightarrow> int" where
  "memcmp (a # as) (b # bs) = (if a = b then memcmp as bs else uint a - uint b)"
| "memcmp _ _ = 0"

definition compare :: "byte list \<Rightarrow> byte list \<Rightarrow> int" where
  "compare a b =
     (let min_len = (if length a < length b then length a else length b);
          r = memcmp (take min_len a) (take min_len b) in
      if r = 0 then if length a < length b then - 1 else if length b < length a then 1 else r
      else r)"

definition starts_with :: "byte list \<Rightarrow> byte list \<Rightarrow> bool" where
  "starts_with s x \<longleftrightarrow> length x \<le> length s \<and> memcmp (take (length x) s) x = 0"

definition ends_with :: "byte list \<Rightarrow> byte list \<Rightarrow> bool" where
  "ends_with s x \<longleftrightarrow> length x \<le> length s \<and> memcmp (drop (length s - length x) s) x = 0"

definition equal_pieces :: "byte list \<Rightarrow> byte list \<Rightarrow> bool" where
  "equal_pieces x y \<longleftrightarrow> length x = length y \<and> memcmp x y = 0"

section \<open>Parts of a piece\<close>

definition remove_prefix :: "nat \<Rightarrow> byte list \<Rightarrow> fault + byte list" where
  "remove_prefix n s = (if n \<le> length s then Inr (drop n s) else Inl Assertion_failed)"

definition remove_suffix :: "nat \<Rightarrow> byte list \<Rightarrow> fault + byte list" where
  "remove_suffix n s =
     (if n \<le> length s then Inr (take (length s - n) s) else Inl Assertion_failed)"

text \<open>\<open>Consume\<close> returns whether the prefix was there, with the piece that is left.\<close>

definition Consume :: "byte list \<Rightarrow> byte list \<Rightarrow> fault + bool \<times> byte list" where
  "Consume x s =
     (if starts_with s x then
        (case remove_prefix (length x) s of Inl f \<Rightarrow> Inl f | Inr s \<Rightarrow> Inr (True, s))
      else Inr (False, s))"

definition npos :: nat where
  "npos = 2 ^ 64 - 1"

definition substr :: "nat \<Rightarrow> nat \<Rightarrow> byte list \<Rightarrow> byte list" where
  "substr pos n s =
     (let pos = (if length s < pos then length s else pos);
          n = (if length s - pos < n then length s - pos else n) in
      take n (drop pos s))"

section \<open>Searches\<close>

text \<open>\<open>memchr\<close> on the bytes from \<open>p\<close> on: the address of the first \<open>c\<close>, or \<open>NULL\<close>.\<close>

fun memchr :: "nat \<Rightarrow> byte list \<Rightarrow> byte \<Rightarrow> nat option" where
  "memchr p [] c = None"
| "memchr p (b # bs) c = (if b = c then Some p else memchr (p + 1) bs c)"

definition find_char :: "byte list \<Rightarrow> byte \<Rightarrow> nat \<Rightarrow> nat" where
  "find_char s c pos =
     (if length s \<le> pos then npos
      else (case memchr pos (drop pos s) c of Some result \<Rightarrow> result | None \<Rightarrow> npos))"

text \<open>The loop of \<open>rfind\<close>, \<open>n\<close> bytes above \<open>data_\<close>: it ends below \<open>data_\<close>.\<close>

primrec rfind_loop :: "byte list \<Rightarrow> byte \<Rightarrow> nat \<Rightarrow> nat" where
  "rfind_loop s c 0 = npos"
| "rfind_loop s c (Suc n) = (if s ! n = c then n else rfind_loop s c n)"

definition rfind_char :: "byte list \<Rightarrow> byte \<Rightarrow> nat \<Rightarrow> nat" where
  "rfind_char s c pos =
     (if length s = 0 then npos else rfind_loop s c (min pos (length s - 1) + 1))"

text \<open>\<open>std::search\<close>: whether the second sequence occurs in the first before its end.\<close>

fun search_before_end :: "byte list \<Rightarrow> byte list \<Rightarrow> bool" where
  "search_before_end [] t = False"
| "search_before_end (b # s) t = (take (length t) (b # s) = t \<or> search_before_end s t)"

definition contains :: "byte list \<Rightarrow> byte list \<Rightarrow> bool" where
  "contains s t = search_before_end s t"

section \<open>The order\<close>

lemma compare_simps:
  "compare [] [] = 0" "compare [] (b # bs) = - 1" "compare (a # as) [] = 1"
  "compare (a # as) (b # bs) = (if a = b then compare as bs else uint a - uint b)"
  by (simp_all add: compare_def Let_def word_uint_eq_iff [symmetric])

lemma compare_sign:
  "compare a b < 0 \<longleftrightarrow> a < b" "compare a b = 0 \<longleftrightarrow> a = b" "0 < compare a b \<longleftrightarrow> b < a"
proof -
  have uint: "uint x = uint y \<longleftrightarrow> x = y" for x y :: byte by (simp add: word_uint_eq_iff)
  show "compare a b < 0 \<longleftrightarrow> a < b"
    by (induction a b rule: list_induct2') (auto simp: compare_simps word_less_def)
  show "compare a b = 0 \<longleftrightarrow> a = b"
    by (induction a b rule: list_induct2') (auto simp: compare_simps uint)
  show "0 < compare a b \<longleftrightarrow> b < a"
    by (induction a b rule: list_induct2') (auto simp: compare_simps word_less_def)
qed

lemma compare_nonneg: "0 \<le> compare a b \<longleftrightarrow> b \<le> a"
  using compare_sign(1) [of a b] by auto

lemma memcmp_zero: "length a = length b \<Longrightarrow> memcmp a b = 0 \<longleftrightarrow> a = b"
  by (induction a b rule: list_induct2') (auto simp: word_uint_eq_iff)

lemma equal_pieces_eq: "equal_pieces x y \<longleftrightarrow> x = y"
  by (auto simp: equal_pieces_def memcmp_zero)

lemma starts_with_iff: "starts_with s x \<longleftrightarrow> (\<exists>rest. s = x @ rest)"
proof
  assume "starts_with s x"
  then have "take (length x) s = x" using memcmp_zero [of "take (length x) s" x] by (simp add: starts_with_def)
  then show "\<exists>rest. s = x @ rest" by (metis append_take_drop_id)
qed (auto simp: starts_with_def memcmp_zero)

lemma ends_with_iff: "ends_with s x \<longleftrightarrow> (\<exists>rest. s = rest @ x)"
proof
  assume "ends_with s x"
  then have "drop (length s - length x) s = x"
    using memcmp_zero [of "drop (length s - length x) s" x] by (simp add: ends_with_def)
  then show "\<exists>rest. s = rest @ x" by (metis append_take_drop_id)
qed (auto simp: ends_with_def memcmp_zero)

lemma Consume_eq: "Consume x s = Inr (if starts_with s x then (True, drop (length x) s) else (False, s))"
  by (simp add: Consume_def remove_prefix_def starts_with_def)

section \<open>The searches\<close>

lemma memchr_None: "memchr p s c = None \<longleftrightarrow> c \<notin> set s"
  by (induction s arbitrary: p) auto

lemma memchr_Some:
  "memchr p s c = Some q \<longleftrightarrow> p \<le> q \<and> q - p < length s \<and> s ! (q - p) = c \<and> (\<forall>i < q - p. s ! i \<noteq> c)"
proof (induction s arbitrary: p)
  case (Cons b s)
  show ?case
  proof (cases "p < q")
    case True
    then obtain k where q: "q = Suc (p + k)" using less_iff_Suc_add by blast
    show ?thesis
      using Cons.IH [of "Suc p"] unfolding q by (auto simp: All_less_Suc2)
  next
    case False
    then show ?thesis
      using Cons.IH [of "Suc p"] by (cases "p = q") auto
  qed
qed simp

lemma find_char_first:
  "find_char s c pos = i \<Longrightarrow> i \<noteq> npos \<Longrightarrow>
    pos \<le> i \<and> i < length s \<and> s ! i = c \<and> (\<forall>j. pos \<le> j \<and> j < i \<longrightarrow> s ! j \<noteq> c)"
proof -
  assume find: "find_char s c pos = i" "i \<noteq> npos"
  then have mem: "memchr pos (drop pos s) c = Some i" and pos: "pos < length s"
    by (auto simp: find_char_def split: if_splits option.splits)
  from mem pos have facts: "pos \<le> i" "i < length s" "s ! i = c"
    and before: "\<And>k. k < i - pos \<Longrightarrow> s ! (pos + k) \<noteq> c"
    unfolding memchr_Some by auto
  have "s ! j \<noteq> c" if "pos \<le> j" "j < i" for j
    using before [of "j - pos"] that by simp
  with facts show ?thesis by blast
qed

lemma find_char_none:
  "length s < npos \<Longrightarrow> find_char s c pos = npos \<longleftrightarrow> (\<forall>i. pos \<le> i \<and> i < length s \<longrightarrow> s ! i \<noteq> c)"
proof -
  assume len: "length s < npos"
  show ?thesis
  proof (cases "memchr pos (drop pos s) c")
    case None
    then have "c \<notin> set (drop pos s)" by (simp add: memchr_None)
    then have "s ! i \<noteq> c" if "pos \<le> i" "i < length s" for i
      using that nth_mem [of "i - pos" "drop pos s"] by auto
    with None show ?thesis by (auto simp: find_char_def)
  next
    case (Some q)
    then have q: "pos \<le> q" "q < length s" "s ! q = c" by (auto simp: memchr_Some)
    with Some len show ?thesis by (auto simp: find_char_def)
  qed
qed

lemma rfind_loop_last:
  "n \<le> npos \<Longrightarrow> rfind_loop s c n \<noteq> npos \<Longrightarrow>
    rfind_loop s c n < n \<and> s ! rfind_loop s c n = c \<and> (\<forall>j. rfind_loop s c n < j \<and> j < n \<longrightarrow> s ! j \<noteq> c)"
proof (induction n)
  case (Suc n)
  then show ?case by (cases "s ! n = c") (auto simp: less_Suc_eq)
qed simp

lemma rfind_loop_none: "n \<le> npos \<Longrightarrow> rfind_loop s c n = npos \<longleftrightarrow> (\<forall>j<n. s ! j \<noteq> c)"
proof (induction n)
  case (Suc n)
  then show ?case by (cases "s ! n = c") (auto simp: less_Suc_eq)
qed simp

lemma contains_iff: "contains s t \<longleftrightarrow> (\<exists>i < length s. take (length t) (drop i s) = t)"
  unfolding contains_def
proof (induction s)
  case (Cons b s)
  then show ?case
    by (simp only: search_before_end.simps length_Cons Ex_less_Suc2 drop_0 drop_Suc_Cons)
qed simp

end
