(* ===== verification/Block_Builder.thy ===== *)
theory Block_Builder
  imports Stringpiece
begin

text \<open>
  \<open>src/base/io/table/block_builder.cc\<close>: the builder of a block of the table format, whose
  keys share prefixes with the key before them between two restart points. Offsets and
  lengths are stored in 32 bits, as in the code; a failed \<open>assert\<close> is a fault.
\<close>

datatype compression_type = kNoCompression | kSnappyCompression

record options =
  block_size :: nat
  block_restart_interval :: int
  compression :: compression_type

definition default_options :: options where
  "default_options =
     \<lparr>block_size = 262144, block_restart_interval = 16, compression = kSnappyCompression\<rparr>"

record block_builder =
  buffer :: "byte list"
  restarts :: "32 word list"
  counter :: int
  finished :: bool
  last_key :: "byte list"

text \<open>\<open>std::string::resize\<close>, which fills up with NUL.\<close>

definition resize :: "nat \<Rightarrow> byte list \<Rightarrow> byte list" where
  "resize n s = take n s @ replicate (n - length s) 0"

definition make_block_builder :: "options \<Rightarrow> fault + block_builder" where
  "make_block_builder opts =
     (if 1 \<le> block_restart_interval opts then
        Inr \<lparr>buffer = [], restarts = [0], counter = 0, finished = False, last_key = []\<rparr>
      else Inl Assertion_failed)"

definition Reset :: "block_builder \<Rightarrow> block_builder" where
  "Reset b = b\<lparr>buffer := [], restarts := [0], counter := 0, finished := False, last_key := []\<rparr>"

definition CurrentSizeEstimate :: "block_builder \<Rightarrow> nat" where
  "CurrentSizeEstimate b = length (buffer b) + length (restarts b) * 4 + 4"

definition builder_empty :: "block_builder \<Rightarrow> bool" where
  "builder_empty b \<longleftrightarrow> buffer b = []"

text \<open>\<open>Finish\<close> returns the contents with the builder; \<open>restarts_.size()\<close> is cut to 32 bits.\<close>

primrec put_restarts :: "bool \<Rightarrow> 32 word list \<Rightarrow> byte list \<Rightarrow> byte list" where
  "put_restarts kLittleEndian [] buf = buf"
| "put_restarts kLittleEndian (r # rs) buf = put_restarts kLittleEndian rs (PutFixed32 kLittleEndian buf r)"

definition Finish :: "bool \<Rightarrow> block_builder \<Rightarrow> byte list \<times> block_builder" where
  "Finish kLittleEndian b =
     (let buf = put_restarts kLittleEndian (restarts b) (buffer b);
          buf = PutFixed32 kLittleEndian buf (word_of_nat (length (restarts b))) in
      (buf, b\<lparr>buffer := buf, finished := True\<rparr>))"

text \<open>The loop that counts how many bytes two strings share, from \<open>shared\<close> on.\<close>

function shared_loop :: "byte list \<Rightarrow> byte list \<Rightarrow> nat \<Rightarrow> nat \<Rightarrow> nat" where
  "shared_loop a b min_length shared =
     (if shared < min_length \<and> a ! shared = b ! shared then shared_loop a b min_length (shared + 1)
      else shared)"
  by pat_completeness auto

termination
  by (relation "measure (\<lambda>(_, _, min_length, shared). min_length - shared)") auto

declare shared_loop.simps [simp del]

definition Add :: "options \<Rightarrow> byte list \<Rightarrow> byte list \<Rightarrow> block_builder \<Rightarrow> fault + block_builder" where
  "Add opts key value b =
     (if finished b then Inl Assertion_failed
      else if \<not> counter b \<le> block_restart_interval opts then Inl Assertion_failed
      else if \<not> (buffer b = [] \<or> 0 < compare key (last_key b)) then Inl Assertion_failed
      else
        let (shared, b) =
              (if counter b < block_restart_interval opts then
                 (shared_loop (last_key b) key (min (length (last_key b)) (length key)) 0, b)
               else
                 (0, b\<lparr>restarts := restarts b @ [word_of_nat (length (buffer b))], counter := 0\<rparr>));
            non_shared = length key - shared;
            buf = PutVarint32 (buffer b) (word_of_nat shared);
            buf = PutVarint32 buf (word_of_nat non_shared);
            buf = PutVarint32 buf (word_of_nat (length value));
            buf = buf @ take non_shared (drop shared key);
            buf = buf @ value;
            lk = resize shared (last_key b) @ take non_shared (drop shared key)
        in if lk = key then
             Inr (b\<lparr>buffer := buf, last_key := lk, counter := counter b + 1\<rparr>)
           else Inl Assertion_failed)"

text \<open>The entries of a block in the order in which they are added.\<close>

fun add_all :: "options \<Rightarrow> (byte list \<times> byte list) list \<Rightarrow> block_builder \<Rightarrow> fault + block_builder" where
  "add_all opts [] b = Inr b"
| "add_all opts ((key, value) # es) b =
     (case Add opts key value b of Inl f \<Rightarrow> Inl f | Inr b \<Rightarrow> add_all opts es b)"

end
