(* ===== verification/Status.thy ===== *)
theory Status
  imports Prelude
begin

text \<open>
  \<open>src/base/status.h\<close>, \<open>status.cc\<close> and \<open>errors.h\<close>: the status that an operation
  returns. The pointer to the state is \<open>None\<close> for success.
\<close>

datatype error_code =
  OK | CANCELLED | UNKNOWN | INVALID_ARGUMENT | DEADLINE_EXCEEDED | NOT_FOUND | ALREADY_EXISTS
| PERMISSION_DENIED | UNAUTHENTICATED | RESOURCE_EXHAUSTED | FAILED_PRECONDITION | ABORTED
| OUT_OF_RANGE | UNIMPLEMENTED | INTERNAL | UNAVAILABLE | DATA_LOSS
| DO_NOT_USE_RESERVED_FOR_FUTURE_EXPANSION

record status_state =
  state_code :: error_code
  state_msg :: string

type_synonym status = "status_state option"

definition OK_status :: status where
  "OK_status = None"

definition make_status :: "error_code \<Rightarrow> string \<Rightarrow> fault + status" where
  "make_status code msg =
     (if code \<noteq> OK then Inr (Some \<lparr>state_code = code, state_msg = msg\<rparr>) else Inl Assertion_failed)"

definition is_ok :: "status \<Rightarrow> bool" where
  "is_ok s \<longleftrightarrow> s = None"

definition status_code_of :: "status \<Rightarrow> error_code" where
  "status_code_of s = (case s of None \<Rightarrow> OK | Some st \<Rightarrow> state_code st)"

definition error_message :: "status \<Rightarrow> string" where
  "error_message s = (case s of None \<Rightarrow> '''' | Some st \<Rightarrow> state_msg st)"

definition Update :: "status \<Rightarrow> status \<Rightarrow> status" where
  "Update new_status s = (if is_ok s then new_status else s)"

fun code_text :: "error_code \<Rightarrow> string" where
  "code_text CANCELLED = ''Cancelled''"
| "code_text UNKNOWN = ''Unknown''"
| "code_text INVALID_ARGUMENT = ''Invalid argument''"
| "code_text DEADLINE_EXCEEDED = ''Deadline exceeded''"
| "code_text NOT_FOUND = ''Not found''"
| "code_text ALREADY_EXISTS = ''Already exists''"
| "code_text PERMISSION_DENIED = ''Permission denied''"
| "code_text UNAUTHENTICATED = ''Unauthenticated''"
| "code_text RESOURCE_EXHAUSTED = ''Resource exhausted''"
| "code_text FAILED_PRECONDITION = ''Failed precondition''"
| "code_text ABORTED = ''Aborted''"
| "code_text OUT_OF_RANGE = ''Out of range''"
| "code_text UNIMPLEMENTED = ''Unimplemented''"
| "code_text INTERNAL = ''Internal''"
| "code_text UNAVAILABLE = ''Unavailable''"
| "code_text DATA_LOSS = ''Data loss''"
| "code_text DO_NOT_USE_RESERVED_FOR_FUTURE_EXPANSION = ''Unknown code(20)''"
| "code_text OK = ''Unknown code(0)''"

definition ToString :: "status \<Rightarrow> string" where
  "ToString s =
     (case s of None \<Rightarrow> ''OK'' | Some st \<Rightarrow> code_text (state_code st) @ '': '' @ state_msg st)"

text \<open>Equality compares the pointers first, here the absence of a state, then the texts.\<close>

definition equal_status :: "status \<Rightarrow> status \<Rightarrow> bool" where
  "equal_status s t \<longleftrightarrow> s = None \<and> t = None \<or> ToString s = ToString t"

definition DataLoss :: "string \<Rightarrow> status" where
  "DataLoss msg = Some \<lparr>state_code = DATA_LOSS, state_msg = msg\<rparr>"

definition IsDataLoss :: "status \<Rightarrow> bool" where
  "IsDataLoss s \<longleftrightarrow> status_code_of s = DATA_LOSS"

definition AppendToMessage :: "string \<Rightarrow> status \<Rightarrow> fault + status" where
  "AppendToMessage args s =
     make_status (status_code_of s) (error_message s @ [CHR 0x0A, CHR 0x09] @ args)"

lemma code_text_no_colon: "list_all (\<lambda>c. c \<noteq> CHR '':'') (code_text c)"
  by (cases c) simp_all

lemma code_text_inject: "code_text c = code_text d \<Longrightarrow> c = d"
  by (cases c; cases d; simp)

lemma code_text_prefix:
  assumes "code_text c @ '': '' @ m = code_text d @ '': '' @ n"
  shows "c = d \<and> m = n"
proof -
  have before: "takeWhile (\<lambda>c. c \<noteq> CHR '':'') (code_text e @ '': '' @ x) = code_text e" for e x
    using code_text_no_colon [of e] by (subst takeWhile_append2) (auto simp: list_all_iff)
  from arg_cong [OF assms, of "takeWhile (\<lambda>c. c \<noteq> CHR '':'')"]
  have "code_text c = code_text d" unfolding before .
  then have "c = d" by (rule code_text_inject)
  with assms show ?thesis by simp
qed

lemma ToString_OK: "''OK'' \<noteq> code_text c @ '': '' @ m"
  by (cases c) simp_all

lemma ToString_inject: "ToString s = ToString t \<longleftrightarrow> s = t"
proof
  assume eq: "ToString s = ToString t"
  show "s = t"
  proof (cases s)
    case None
    have "t = None"
    proof (cases t)
      case (Some a)
      with None eq ToString_OK [of "state_code a" "state_msg a"] show ?thesis
        by (simp only: ToString_def option.case simp_thms)
    qed
    with None show ?thesis by simp
  next
    case s: (Some a)
    show ?thesis
    proof (cases t)
      case None
      with s eq [symmetric] ToString_OK [of "state_code a" "state_msg a"] show ?thesis
        by (simp only: ToString_def option.case simp_thms)
    next
      case (Some b)
      with eq s have "state_code a = state_code b \<and> state_msg a = state_msg b"
        by (intro code_text_prefix) (simp add: ToString_def)
      with s Some show ?thesis by simp
    qed
  qed
qed simp

lemma equal_status_eq: "equal_status s t \<longleftrightarrow> s = t"
  by (auto simp: equal_status_def ToString_inject)

end
