(* ===== verification/Coding_Laws.thy ===== *)
theory Coding_Laws
  imports Coding
begin

text \<open>
  The encodings and their decoders: both branches of each fixed-length routine agree,
  variable-length numbers are digits to the base 128, and decoding inverts encoding.
\<close>

section \<open>The bytes of the fixed-length encodings\<close>

lemma ucast_and_255 [simp]: "(ucast (v AND 255 :: 'a::len word) :: byte) = ucast v"
proof -
  have "(255 :: 'a word) = mask 8" by (simp add: mask_eq_exp_minus_1)
  then have "v AND 255 = take_bit 8 v" by (simp add: take_bit_eq_mask)
  then show ?thesis
    by (auto intro!: bit_eqI simp: bit_ucast_iff bit_take_bit_iff dest: bit_imp_le_length)
qed

text \<open>Both branches of the encoders write the same bytes.\<close>

lemma EncodeFixed_branches:
  "EncodeFixed16 True v16 = EncodeFixed16 False v16"
  "EncodeFixed32 True v32 = EncodeFixed32 False v32"
  "EncodeFixed64 True v64 = EncodeFixed64 False v64"
  by (simp_all add: EncodeFixed16_def EncodeFixed32_def EncodeFixed64_def value_bytes_def upt_rec)

lemma EncodeFixed_eq [simp]:
  "EncodeFixed16 le v16 = value_bytes 2 v16"
  "EncodeFixed32 le v32 = value_bytes 4 v32"
  "EncodeFixed64 le v64 = value_bytes 8 v64"
  using EncodeFixed_branches(1) [of v16] EncodeFixed_branches(2) [of v32] EncodeFixed_branches(3) [of v64]
  by (cases le; simp add: EncodeFixed16_def EncodeFixed32_def EncodeFixed64_def)+

lemma length_value_bytes [simp]: "length (value_bytes n v) = n"
  by (simp add: value_bytes_def)

lemma value_bytes_Suc: "value_bytes (Suc n) v = ucast v # value_bytes n (drop_bit 8 v)"
  by (simp add: value_bytes_def upt_conv_Cons map_Suc_upt [symmetric] del: upt_Suc)
    (simp add: drop_bit_drop_bit ac_simps)

lemma bytes_value_value_bytes: "bytes_value (value_bytes n v) = take_bit (8 * n) v"
proof (induction n arbitrary: v)
  case 0
  then show ?case by (simp add: value_bytes_def)
next
  case (Suc n)
  have "ucast (ucast v :: byte) OR push_bit 8 (take_bit (8 * n) (drop_bit 8 v)) =
      take_bit (8 * Suc n) v"
    by (rule bit_eqI)
      (auto simp: bit_or_iff bit_ucast_iff bit_push_bit_iff bit_take_bit_iff bit_drop_bit_eq
        possible_bit_def dest: bit_imp_le_length)
  with Suc show ?case by (simp add: value_bytes_Suc)
qed

text \<open>Both branches of the decoders read the same value.\<close>

lemma take_nths:
  "2 \<le> length p \<Longrightarrow> take 2 p = [p ! 0, p ! 1]"
  "4 \<le> length p \<Longrightarrow> take 4 p = [p ! 0, p ! 1, p ! 2, p ! 3]"
  "8 \<le> length p \<Longrightarrow> take 8 p = take 4 p @ take 4 (drop 4 p)"
  using take_add [of 4 4 p] by (auto simp: Suc_le_length_iff numeral_eq_Suc)

lemma bit_bytes_value:
  "bit (bytes_value bs :: 'a::len word) n \<longleftrightarrow>
     n < LENGTH('a) \<and> n div 8 < length bs \<and> bit (bs ! (n div 8)) (n mod 8)"
proof (induction bs arbitrary: n)
  case (Cons b bs)
  show ?case
  proof (cases "n < 8")
    case True
    then show ?thesis by (auto simp: bit_or_iff bit_ucast_iff bit_push_bit_iff)
  next
    case False
    then have "n div 8 = Suc ((n - 8) div 8)" "n mod 8 = (n - 8) mod 8"
      by (simp_all add: div_if mod_if)
    with False Cons.IH [of "n - 8"] show ?thesis
      by (auto simp: bit_or_iff bit_ucast_iff bit_push_bit_iff possible_bit_def dest: bit_imp_le_length)
  qed
qed simp

lemma ucast_bytes_value:
  assumes "8 * length bs \<le> LENGTH('b)"
  shows "(ucast (bytes_value bs :: 'b::len word) :: 'a::len word) = bytes_value bs"
proof (rule bit_eqI)
  fix n
  have "n < LENGTH('b)" if "n div 8 < length bs"
    using that assms by (simp add: div_less_iff_less_mult)
  then show "bit (ucast (bytes_value bs :: 'b word) :: 'a word) n = bit (bytes_value bs :: 'a word) n"
    by (auto simp: bit_ucast_iff bit_bytes_value)
qed

lemma bytes_value_append:
  "bytes_value (as @ bs) = bytes_value as OR push_bit (8 * length as) (bytes_value bs)"
  by (induction as) (simp_all add: push_bit_or push_bit_push_bit ac_simps)

lemma DecodeFixed_branches:
  "DecodeFixed16 True p = DecodeFixed16 False p"
  "DecodeFixed32 True p = DecodeFixed32 False p"
  "DecodeFixed64 True p = DecodeFixed64 False p"
proof -
  show "DecodeFixed16 True p = DecodeFixed16 False p"
    by (auto simp: DecodeFixed16_def take_nths not_less push_bit_or push_bit_push_bit)
  show 32: "DecodeFixed32 True p = DecodeFixed32 False p" for p
    by (auto simp: DecodeFixed32_def take_nths not_less push_bit_or push_bit_push_bit)
  show "DecodeFixed64 True p = DecodeFixed64 False p"
    by (auto simp: DecodeFixed64_def 32 [symmetric]) (auto simp: DecodeFixed32_def not_less take_nths(3)
        bytes_value_append ucast_bytes_value or.commute)
qed

lemma DecodeFixed_encoded:
  "DecodeFixed16 le (value_bytes 2 v16 @ rest) = Some v16"
  "DecodeFixed32 le (value_bytes 4 v32 @ rest) = Some v32"
  "DecodeFixed64 True (value_bytes 8 v64 @ rest) = Some v64"
proof -
  have "DecodeFixed16 True (value_bytes 2 v16 @ rest) = Some v16"
    by (simp add: DecodeFixed16_def bytes_value_value_bytes take_bit_word_eq_self)
  then show "DecodeFixed16 le (value_bytes 2 v16 @ rest) = Some v16"
    using DecodeFixed_branches(1) by (cases le) simp_all
  have "DecodeFixed32 True (value_bytes 4 v32 @ rest) = Some v32"
    by (simp add: DecodeFixed32_def bytes_value_value_bytes take_bit_word_eq_self)
  then show "DecodeFixed32 le (value_bytes 4 v32 @ rest) = Some v32"
    using DecodeFixed_branches(2) by (cases le) simp_all
  show "DecodeFixed64 True (value_bytes 8 v64 @ rest) = Some v64"
    by (simp add: DecodeFixed64_def bytes_value_value_bytes take_bit_word_eq_self)
qed

section \<open>Variable-length numbers\<close>

text \<open>The encoding as digits to the base 128, least significant first.\<close>

fun varint_bytes :: "nat \<Rightarrow> byte list" where
  "varint_bytes n =
     (if n < 128 then [word_of_nat n] else word_of_nat (n mod 128 + 128) # varint_bytes (n div 128))"

declare varint_bytes.simps [simp del]

lemma varint_bytes_small: "n < 128 \<Longrightarrow> varint_bytes n = [word_of_nat n]"
  by (simp add: varint_bytes.simps)

lemma varint_bytes_large:
  "128 \<le> n \<Longrightarrow> varint_bytes n = word_of_nat (n mod 128 + 128) # varint_bytes (n div 128)"
  by (subst varint_bytes.simps) simp

lemma bit_128 [simp]: "bit (128 :: 'a::semiring_bit_operations) n \<longleftrightarrow> possible_bit TYPE('a) n \<and> n = 7"
proof -
  have "(128 :: 'a) = 2 ^ 7" by simp
  then show ?thesis by (simp only: bit_exp_iff)
qed

lemma mod_128_plus: "n mod 128 + 128 = take_bit 7 n OR (128 :: nat)"
proof -
  have "take_bit 7 n + (128 :: nat) = take_bit 7 n OR 128"
    by (rule disjunctive_add) (auto simp: bit_take_bit_iff)
  then show ?thesis by (simp add: take_bit_eq_mod)
qed

lemma continuation_byte:
  assumes "8 \<le> LENGTH('a::len)"
  shows "(ucast (w OR 128 :: 'a word) :: byte) = word_of_nat (unat w mod 128 + 128)"
    and "(ucast ((w AND 127) OR 128 :: 'a word) :: byte) = word_of_nat (unat w mod 128 + 128)"
proof -
  have 127: "(127 :: 'a word) = mask 7" by (simp add: mask_eq_exp_minus_1)
  have "bit (word_of_nat (unat w mod 128 + 128) :: byte) n \<longleftrightarrow> n < 8 \<and> (bit w n \<and> n < 7 \<or> n = 7)" for n
    unfolding mod_128_plus of_nat_or_eq
    by (auto simp: bit_or_iff bit_of_nat_iff bit_take_bit_iff bit_unsigned_iff possible_bit_def)
  note rhs = this
  have lhs: "bit (ucast (w OR 128) :: byte) n \<longleftrightarrow> n < 8 \<and> (bit w n \<and> n < 7 \<or> n = 7)"
    "bit (ucast ((w AND 127) OR 128) :: byte) n \<longleftrightarrow> n < 8 \<and> (bit w n \<and> n < 7 \<or> n = 7)" for n
    using assms by (auto simp: 127 bit_ucast_iff bit_or_iff bit_and_iff bit_mask_iff possible_bit_def)
  show "(ucast (w OR 128) :: byte) = word_of_nat (unat w mod 128 + 128)"
    "(ucast ((w AND 127) OR 128) :: byte) = word_of_nat (unat w mod 128 + 128)"
    by (rule bit_eqI, simp only: lhs rhs)+
qed

lemma last_byte: "(ucast w :: byte) = word_of_nat (unat (w :: 'a::len word))"
  by simp

lemma unat_drop_7: "unat (drop_bit 7 w) = unat (w :: 'a::len word) div 128"
  unfolding unat_drop_bit_eq by (simp add: drop_bit_eq_div)

lemma EncodeVarint64_eq: "EncodeVarint64 v = varint_bytes (unat v)"
proof (induction v rule: EncodeVarint64.induct)
  case (1 v)
  have "128 \<le> v \<longleftrightarrow> 128 \<le> unat v" by (simp add: word_le_nat_alt)
  with 1 show ?case
    by (simp add: EncodeVarint64.simps [of v] varint_bytes_small varint_bytes_large
        continuation_byte(2) unat_drop_7)
qed

lemma varint_bytes_rec:
  "varint_bytes n =
     (if n < 128 then [word_of_nat n] else word_of_nat (n mod 128 + 128) # varint_bytes (n div 128))"
  by (rule varint_bytes.simps)

lemma EncodeVarint32_eq: "EncodeVarint32 v = varint_bytes (unat v)"
proof -
  define n where "n = unat v"
  have less: "v < push_bit 7 1 \<longleftrightarrow> n < 128" "v < push_bit 14 1 \<longleftrightarrow> n < 16384"
    "v < push_bit 21 1 \<longleftrightarrow> n < 2097152" "v < push_bit 28 1 \<longleftrightarrow> n < 268435456"
    by (simp_all add: word_less_nat_alt n_def)
  have drop: "unat (drop_bit 7 v) = n div 128" "unat (drop_bit 14 v) = n div 128 div 128"
    "unat (drop_bit 21 v) = n div 128 div 128 div 128"
    "unat (drop_bit 28 v) = n div 128 div 128 div 128 div 128"
    unfolding unat_drop_bit_eq by (simp_all add: drop_bit_eq_div div_mult2_eq [symmetric] n_def)
  have bytes: "(ucast (v OR 128) :: byte) = word_of_nat (n mod 128 + 128)"
    "(ucast v :: byte) = word_of_nat n"
    "\<And>k. (ucast (drop_bit k v OR 128) :: byte) = word_of_nat (unat (drop_bit k v) mod 128 + 128)"
    "\<And>k. (ucast (drop_bit k v) :: byte) = word_of_nat (unat (drop_bit k v))"
    by (simp_all add: continuation_byte(1) n_def)
  have div: "n div 128 < 128 \<longleftrightarrow> n < 16384" "n div 128 div 128 < 128 \<longleftrightarrow> n < 2097152"
    "n div 128 div 128 div 128 < 128 \<longleftrightarrow> n < 268435456"
    by (simp_all add: div_mult2_eq [symmetric] div_less_iff_less_mult)
  have nv: "n < 2 ^ LENGTH(32)" unfolding n_def by (rule unsigned_less)
  have max: "n div 128 div 128 div 128 div 128 < 128"
    using nv by (simp add: div_mult2_eq [symmetric] n_def div_less_iff_less_mult)
  note step = varint_bytes_rec [of n] varint_bytes_rec [of "n div 128"]
    varint_bytes_rec [of "n div 128 div 128"] varint_bytes_rec [of "n div 128 div 128 div 128"]
    varint_bytes_rec [of "n div 128 div 128 div 128 div 128"]
  show ?thesis
    unfolding EncodeVarint32_def less bytes drop step div n_def [symmetric]
    by (cases "n < 128"; cases "n < 16384"; cases "n < 2097152"; cases "n < 268435456"; simp add: max)
qed

text \<open>The decoders undo the digits, whatever bytes follow.\<close>

lemma split_digit:
  "(word_of_nat (n mod 128) :: 'a::len word) OR push_bit 7 (word_of_nat (n div 128)) = word_of_nat n"
proof -
  have "n mod 128 = take_bit 7 n" "n div 128 = drop_bit 7 n"
    by (simp_all add: take_bit_eq_mod drop_bit_eq_div)
  then show ?thesis
    by (auto intro!: bit_eqI simp: bit_or_iff bit_push_bit_iff bit_of_nat_iff bit_take_bit_iff
        bit_drop_bit_eq possible_bit_def)
qed

lemma continuation_bits:
  fixes n :: nat
  defines "b \<equiv> word_of_nat (n mod 128 + 128) :: byte"
  assumes "8 \<le> LENGTH('a::len)"
  shows "b AND 128 \<noteq> 0" "(ucast b AND 127 :: 'a word) = word_of_nat (n mod 128)"
proof -
  have b: "bit b k \<longleftrightarrow> k < 8 \<and> (k < 7 \<and> bit n k \<or> k = 7)" for k
    unfolding b_def mod_128_plus of_nat_or_eq
    by (auto simp: bit_or_iff bit_of_nat_iff bit_take_bit_iff possible_bit_def)
  have "bit (b AND 128) 7" by (simp add: bit_and_iff b possible_bit_def)
  then show "b AND 128 \<noteq> 0" by auto
  have 127: "(127 :: 'a word) = mask 7" and n: "n mod 128 = take_bit 7 n"
    by (simp_all add: mask_eq_exp_minus_1 take_bit_eq_mod)
  show "(ucast b AND 127 :: 'a word) = word_of_nat (n mod 128)"
    using assms(2) unfolding 127 n
    by (auto intro!: bit_eqI simp: bit_and_iff bit_ucast_iff bit_mask_iff b bit_of_nat_iff
        bit_take_bit_iff possible_bit_def simp del: mask_numeral)
qed

lemma final_bits:
  assumes "n < 128" "8 \<le> LENGTH('a::len)"
  shows "(word_of_nat n :: byte) AND 128 = 0" "(ucast (word_of_nat n :: byte) :: 'a word) = word_of_nat n"
proof -
  have n: "n = take_bit 7 n" using assms(1) by (simp add: take_bit_nat_eq_self)
  have b: "bit (word_of_nat n :: byte) k \<longleftrightarrow> k < 7 \<and> bit n k" for k
    by (subst n) (auto simp: bit_of_nat_iff bit_take_bit_iff possible_bit_def)
  show "(word_of_nat n :: byte) AND 128 = 0"
    by (rule bit_eqI) (auto simp: bit_and_iff b)
  have "k < 7 \<and> k < 8" if "bit n k" for k
    using that by (subst (asm) n) (simp add: bit_take_bit_iff)
  then show "(ucast (word_of_nat n :: byte) :: 'a word) = word_of_nat n"
    using assms(2) by (auto intro!: bit_eqI simp: bit_ucast_iff b bit_of_nat_iff possible_bit_def)
qed

lemma get_varint_loop_bytes:
  fixes result :: "'a::len word"
  assumes "8 \<le> LENGTH('a)" "shift + 7 * (length (varint_bytes n) - 1) \<le> final"
  shows "get_varint_loop final shift result (varint_bytes n @ rest) =
    Some (result OR push_bit shift (word_of_nat n), rest)"
  using assms(2)
proof (induction n arbitrary: shift result rule: varint_bytes.induct)
  case (1 n)
  show ?case
  proof (cases "n < 128")
    case True
    with "1.prems" final_bits [OF True assms(1)] show ?thesis
      by (simp add: varint_bytes_small)
  next
    case False
    then have "varint_bytes (n div 128) \<noteq> []"
      by (subst varint_bytes.simps) simp
    then obtain k where k: "length (varint_bytes (n div 128)) = Suc k"
      by (cases "varint_bytes (n div 128)") auto
    have "push_bit shift (word_of_nat (n mod 128)) OR push_bit (shift + 7) (word_of_nat (n div 128)) =
        push_bit shift (word_of_nat n :: 'a word)"
      unfolding split_digit [of n, symmetric] push_bit_or by (simp add: push_bit_push_bit)
    moreover have "shift + 7 + 7 * (length (varint_bytes (n div 128)) - 1) \<le> final"
      using "1.prems" False k by (simp add: varint_bytes_large)
    note IH = "1.IH" [OF False this]
    moreover have "(final < shift) = False" using "1.prems" by simp
    moreover have "128 \<le> n" using False by simp
    ultimately show ?thesis
      using continuation_bits [OF assms(1), of n]
      by (simp only: varint_bytes_large append_Cons get_varint_loop.simps if_False if_True IH or.assoc
          simp_thms)
  qed
qed

lemma length_varint_bytes: "n < 128 ^ k \<Longrightarrow> 0 < k \<Longrightarrow> length (varint_bytes n) \<le> k"
proof (induction n arbitrary: k rule: varint_bytes.induct)
  case (1 n)
  show ?case
  proof (cases "n < 128")
    case True
    with "1.prems" show ?thesis by (simp add: varint_bytes_small)
  next
    case False
    with "1.prems" obtain j where k: "k = Suc j" "0 < j"
      by (cases k; cases "k - 1") auto
    with "1.prems" have "n div 128 < 128 ^ j" by (simp add: div_less_iff_less_mult mult.commute)
    with "1.IH" [OF False this] False k show ?thesis by (simp add: varint_bytes_large)
  qed
qed

lemma length_Varint32: "length (varint_bytes (unat (v :: 32 word))) \<le> 5"
proof (rule length_varint_bytes)
  have "unat v < 2 ^ LENGTH(32)" by (rule unsigned_less)
  then show "unat v < 128 ^ 5" by simp
qed simp

lemma length_Varint64: "length (varint_bytes (unat (v :: 64 word))) \<le> 10"
proof (rule length_varint_bytes)
  have "unat v < 2 ^ LENGTH(64)" by (rule unsigned_less)
  then show "unat v < 128 ^ 10" by simp
qed simp

lemma GetVarint64_encoded: "GetVarint64 (EncodeVarint64 v @ rest) = Some (v, rest)"
  using get_varint_loop_bytes [where result = "0 :: 64 word" and shift = 0 and n = "unat v" and final = 63
      and rest = rest] length_Varint64 [of v]
  by (simp add: GetVarint64_def GetVarint64Ptr_def EncodeVarint64_eq)

text \<open>The fast path of \<open>GetVarint32Ptr\<close> agrees with its fallback.\<close>

lemma GetVarint32Ptr_eq: "GetVarint32Ptr p = GetVarint32PtrFallback p"
proof (cases p)
  case (Cons b p')
  have "(ucast b :: 32 word) AND 128 = 0 \<longleftrightarrow> b AND 128 = 0"
  proof -
    have "(ucast b :: 32 word) AND 128 = ucast (b AND 128)"
      by (rule bit_eqI) (auto simp: bit_and_iff bit_ucast_iff possible_bit_def)
    moreover have "(ucast w :: 32 word) = 0 \<longleftrightarrow> w = 0" for w :: byte
    proof
      assume zero: "(ucast w :: 32 word) = 0"
      have "bit w k = False" for k
        using arg_cong [OF zero, of "\<lambda>x. bit x k"] bit_imp_le_length [of w k]
        by (auto simp: bit_ucast_iff possible_bit_def)
      then show "w = 0" by (auto intro: bit_eqI)
    qed simp
    ultimately show ?thesis by simp
  qed
  with Cons show ?thesis
    by (simp add: GetVarint32Ptr_def GetVarint32PtrFallback_def)
qed (simp add: GetVarint32Ptr_def)

lemma GetVarint32_encoded: "GetVarint32 (EncodeVarint32 v @ rest) = Some (v, rest)"
  using get_varint_loop_bytes [where result = "0 :: 32 word" and shift = 0 and n = "unat v" and final = 28
      and rest = rest] length_Varint32 [of v]
  by (simp add: GetVarint32_def GetVarint32Ptr_eq GetVarint32PtrFallback_def EncodeVarint32_eq)

lemma VarintLength_loop_eq: "VarintLength_loop v k + 1 = k + length (EncodeVarint64 v)"
  by (induction v k rule: VarintLength_loop.induct)
    (subst VarintLength_loop.simps, subst EncodeVarint64.simps, simp)

lemma VarintLength_eq: "VarintLength v = length (EncodeVarint64 v)"
  using VarintLength_loop_eq [of v 1] by (simp add: VarintLength_def)

end
