(* ===== verification/Codec.thy ===== *)
theory Codec
  imports Coding_Laws
begin

text \<open>
  What a caller of \<open>src/base/coding.h\<close> relies on, as a contract: a value that has been
  appended to a string is read back from the front of it, with the bytes that follow left
  over. The encodings of the file, and the pairs of them that \<open>io/table/format.cc\<close> writes,
  fulfil it.
\<close>

section \<open>The contract\<close>

text \<open>Reading \<open>n\<close> values one after the other, as the readers of the table format do.\<close>

fun get_many :: "(byte list \<Rightarrow> ('v \<times> byte list) option) \<Rightarrow> nat \<Rightarrow> byte list
    \<Rightarrow> ('v list \<times> byte list) option" where
  "get_many get 0 input = Some ([], input)"
| "get_many get (Suc n) input =
     (case get input of
        None \<Rightarrow> None
      | Some (v, input) \<Rightarrow>
          (case get_many get n input of
             None \<Rightarrow> None
           | Some (vs, input) \<Rightarrow> Some (v # vs, input)))"

definition put_pair :: "('u \<Rightarrow> byte list) \<Rightarrow> ('v \<Rightarrow> byte list) \<Rightarrow> 'u \<times> 'v \<Rightarrow> byte list" where
  "put_pair put1 put2 = (\<lambda>(u, v). put1 u @ put2 v)"

definition get_pair :: "(byte list \<Rightarrow> ('u \<times> byte list) option)
    \<Rightarrow> (byte list \<Rightarrow> ('v \<times> byte list) option) \<Rightarrow> byte list \<Rightarrow> (('u \<times> 'v) \<times> byte list) option" where
  "get_pair get1 get2 input =
     (case get1 input of
        None \<Rightarrow> None
      | Some (u, input) \<Rightarrow>
          (case get2 input of
             None \<Rightarrow> None
           | Some (v, input) \<Rightarrow> Some ((u, v), input)))"

locale codec =
  fixes put :: "'v \<Rightarrow> byte list"
    and get :: "byte list \<Rightarrow> ('v \<times> byte list) option"
  assumes get_put: "get (put v @ rest) = Some (v, rest)"
begin

lemma get_put_end: "get (put v) = Some (v, [])"
  using get_put [of v "[]"] by simp

lemma put_prefix_free:
  assumes "put v @ xs = put w @ ys"
  shows "v = w \<and> xs = ys"
proof -
  have "Some (v, xs) = Some (w, ys)"
    unfolding get_put [symmetric] assms ..
  then show ?thesis by simp
qed

lemma put_inject: "put v = put w \<Longrightarrow> v = w"
  using put_prefix_free [of v "[]" w "[]"] by simp

lemma get_many_puts: "get_many get (length vs) (concat (map put vs) @ rest) = Some (vs, rest)"
  by (induction vs) (simp_all add: get_put)

end

locale codec_pair = fst: codec put1 get1 + snd: codec put2 get2
  for put1 :: "'u \<Rightarrow> byte list" and get1 :: "byte list \<Rightarrow> ('u \<times> byte list) option"
    and put2 :: "'v \<Rightarrow> byte list" and get2 :: "byte list \<Rightarrow> ('v \<times> byte list) option"
begin

lemma get_put_pair: "get_pair get1 get2 (put_pair put1 put2 uv @ rest) = Some (uv, rest)"
  by (cases uv) (simp add: put_pair_def get_pair_def fst.get_put snd.get_put)

end

sublocale codec_pair \<subseteq> pair: codec "put_pair put1 put2" "get_pair get1 get2"
  by unfold_locales (rule get_put_pair)

section \<open>The encodings fulfil it\<close>

lemma drop_encoded: "drop 4 (value_bytes 4 v @ rest) = rest"
  by (simp add: value_bytes_def)

definition get_fixed32 :: "bool \<Rightarrow> byte list \<Rightarrow> (32 word \<times> byte list) option" where
  "get_fixed32 kLittleEndian p = map_option (\<lambda>v. (v, drop 4 p)) (DecodeFixed32 kLittleEndian p)"

interpretation fixed32: codec "EncodeFixed32 kLittleEndian" "get_fixed32 kLittleEndian" for kLittleEndian
  by unfold_locales
    (simp only: get_fixed32_def EncodeFixed_eq DecodeFixed_encoded option.map drop_encoded)

interpretation varint32: codec EncodeVarint32 GetVarint32
  by unfold_locales (rule GetVarint32_encoded)

interpretation varint64: codec EncodeVarint64 GetVarint64
  by unfold_locales (rule GetVarint64_encoded)

interpretation varint64_pair: codec_pair EncodeVarint64 GetVarint64 EncodeVarint64 GetVarint64 ..

section \<open>Malformed input\<close>

text \<open>A decoder that succeeds has read a piece off the front of its input.\<close>

lemma get_varint_loop_splits:
  "get_varint_loop final shift result p = Some (v, rest) \<Longrightarrow> \<exists>used. used \<noteq> [] \<and> p = used @ rest"
proof (induction final shift result p rule: get_varint_loop.induct)
  case (2 final shift result b p)
  show ?case
  proof (cases "b AND 128 = 0")
    case True
    with "2.prems" show ?thesis
      by (intro exI [of _ "[b]"]) (simp split: if_splits)
  next
    case False
    with "2.prems" have go: "\<not> final < shift"
      and "get_varint_loop final (shift + 7) (result OR push_bit shift (ucast b AND 127)) p = Some (v, rest)"
      by (simp_all split: if_splits)
    note IH = "2.IH" [OF go False this(2)]
    then obtain used where "p = used @ rest" by blast
    then show ?thesis by (intro exI [of _ "b # used"]) simp
  qed
qed simp

text \<open>The continuation bit is on every byte of an encoding but the last.\<close>

lemma varint_bytes_continue: "Suc k < length (varint_bytes n) \<Longrightarrow> varint_bytes n ! k AND 128 \<noteq> 0"
proof (induction n arbitrary: k rule: varint_bytes.induct)
  case (1 n)
  show ?case
  proof (cases "n < 128")
    case True
    with "1.prems" show ?thesis by (simp add: varint_bytes_small)
  next
    case False
    then have bytes: "varint_bytes n = word_of_nat (n mod 128 + 128) # varint_bytes (n div 128)"
      by (simp only: varint_bytes_large not_less)
    show ?thesis
    proof (cases k)
      case 0
      then show ?thesis
        unfolding bytes 
        by (simp only: nth_Cons_0) (rule continuation_bits(1) [where 'a = 8], simp)
    next
      case (Suc j)
      with "1.prems" have "Suc j < length (varint_bytes (n div 128))"
        unfolding bytes by simp
      from "1.IH" [OF False this] show ?thesis
        unfolding bytes Suc nth_Cons_Suc .
    qed
  qed
qed

lemma get_varint_loop_truncated:
  "(\<And>k. k < length p \<Longrightarrow> p ! k AND 128 \<noteq> 0) \<Longrightarrow> get_varint_loop final shift result p = None"
proof (induction final shift result p rule: get_varint_loop.induct)
  case (2 final shift result b p)
  have "b AND 128 \<noteq> 0" using "2.prems" [of 0] by simp
  moreover have "k < length p \<Longrightarrow> p ! k AND 128 \<noteq> 0" for k
    using "2.prems" [of "Suc k"] by simp
  ultimately show ?case
    using "2.IH" by simp
qed simp

lemma get_varint_truncated:
  "k < length (varint_bytes n) \<Longrightarrow> get_varint_loop final shift result (take k (varint_bytes n)) = None"
  by (rule get_varint_loop_truncated) (simp add: varint_bytes_continue)

end
