(* ===== verification/Block.thy ===== *)
theory Block
  imports Block_Builder Status Codec
begin

text \<open>
  \<open>src/base/io/table/block.h\<close> and \<open>block.cc\<close>: a block that was read, and the iterator
  over its entries. A pointer into the block is an offset; a read outside the block and a
  failed \<open>assert\<close> are faults. Offsets that the code keeps in \<open>uint32\<close> are words.
\<close>

section \<open>The block\<close>

record block_contents =
  contents :: "byte list"
  cachable :: bool
  heap_allocated :: bool

record block =
  block_data :: "byte list"
  blk_size :: nat
  restart_offset :: "32 word"
  owned :: bool

text \<open>A \<open>DecodeFixed32\<close> at an offset of the block.\<close>

definition fixed32_at :: "bool \<Rightarrow> byte list \<Rightarrow> nat \<Rightarrow> fault + 32 word" where
  "fixed32_at kLittleEndian data p =
     (case DecodeFixed32 kLittleEndian (drop p data) of None \<Rightarrow> Inl Out_of_bounds | Some v \<Rightarrow> Inr v)"

definition NumRestarts :: "bool \<Rightarrow> block \<Rightarrow> fault + 32 word" where
  "NumRestarts kLittleEndian b =
     (if 4 \<le> blk_size b then fixed32_at kLittleEndian (block_data b) (blk_size b - 4)
      else Inl Assertion_failed)"

text \<open>
  The constructor leaves \<open>restart_offset_\<close> as it finds it when it rejects the contents;
  \<open>junk\<close> is what it finds.
\<close>

definition make_block :: "bool \<Rightarrow> 32 word \<Rightarrow> block_contents \<Rightarrow> fault + block" where
  "make_block kLittleEndian junk c =
     (let b = \<lparr>block_data = contents c, blk_size = length (contents c), restart_offset = junk,
               owned = heap_allocated c\<rparr> in
      if blk_size b < 4 then Inr (b\<lparr>blk_size := 0\<rparr>)
      else
        let max_restarts_allowed = (blk_size b - 4) div 4 in
        (case NumRestarts kLittleEndian b of
           Inl f \<Rightarrow> Inl f
         | Inr n \<Rightarrow>
             if max_restarts_allowed < unat n then Inr (b\<lparr>blk_size := 0\<rparr>)
             else Inr (b\<lparr>restart_offset := word_of_nat (blk_size b - unat (1 + n) * 4)\<rparr>)))"

section \<open>An entry\<close>

text \<open>
  \<open>DecodeEntry\<close> on the bytes from \<open>p\<close> to \<open>limit\<close>: the offset after the three numbers with
  the numbers, or \<open>NULL\<close>. The last test adds two lengths in 32 bits.
\<close>

definition decode_lengths ::
    "byte list \<Rightarrow> (byte list \<times> 32 word \<times> 32 word \<times> 32 word) option" where
  "decode_lengths p =
     (let shared = ucast (p ! 0) :: 32 word;
          non_shared = ucast (p ! 1) :: 32 word;
          value_length = ucast (p ! 2) :: 32 word in
      if (shared OR non_shared OR value_length) < 128 then
        Some (drop 3 p, shared, non_shared, value_length)
      else
        (case GetVarint32Ptr p of
           None \<Rightarrow> None
         | Some (shared, p) \<Rightarrow>
             (case GetVarint32Ptr p of
                None \<Rightarrow> None
              | Some (non_shared, p) \<Rightarrow>
                  (case GetVarint32Ptr p of
                     None \<Rightarrow> None
                   | Some (value_length, p) \<Rightarrow> Some (p, shared, non_shared, value_length)))))"

definition DecodeEntry ::
    "byte list \<Rightarrow> nat \<Rightarrow> nat \<Rightarrow> fault + (nat \<times> 32 word \<times> 32 word \<times> 32 word) option" where
  "DecodeEntry data p limit =
     (if int limit - int p < 3 then Inr None
      else if length data < limit then Inl Out_of_bounds
      else
        (case decode_lengths (drop p (take limit data)) of
           None \<Rightarrow> Inr None
         | Some (rest, shared, non_shared, value_length) \<Rightarrow>
             if word_of_nat (length rest) < non_shared + value_length then Inr None
             else Inr (Some (limit - length rest, shared, non_shared, value_length))))"

section \<open>The iterator\<close>

text \<open>
  \<open>value_\<close> is a piece of the block, its offset with its length, or a piece of the empty
  string literal (\<open>None\<close>), as after construction and after an error.
\<close>

record block_iter =
  it_data :: "byte list"
  it_restarts :: "32 word"
  it_num_restarts :: "32 word"
  it_current :: "32 word"
  it_restart_index :: "32 word"
  it_key :: "byte list"
  it_value :: "(nat \<times> nat) option"
  it_status :: status

definition make_iter :: "byte list \<Rightarrow> 32 word \<Rightarrow> 32 word \<Rightarrow> fault + block_iter" where
  "make_iter data rs n =
     (if 0 < n then
        Inr \<lparr>it_data = data, it_restarts = rs, it_num_restarts = n, it_current = rs, it_restart_index = n,
             it_key = [], it_value = None, it_status = OK_status\<rparr>
      else Inl Assertion_failed)"

definition Valid :: "block_iter \<Rightarrow> bool" where
  "Valid it \<longleftrightarrow> it_current it < it_restarts it"

definition iter_key :: "block_iter \<Rightarrow> fault + byte list" where
  "iter_key it = (if Valid it then Inr (it_key it) else Inl Assertion_failed)"

text \<open>The bytes of \<open>value()\<close>, for a caller that reads all of the piece.\<close>

definition iter_value :: "block_iter \<Rightarrow> fault + byte list" where
  "iter_value it =
     (if \<not> Valid it then Inl Assertion_failed
      else
        (case it_value it of
           None \<Rightarrow> Inr []
         | Some (off, n) \<Rightarrow>
             if off + n \<le> length (it_data it) then Inr (take n (drop off (it_data it)))
             else Inl Out_of_bounds))"

text \<open>
  The difference of two pointers into different objects, for a \<open>value_\<close> outside the
  block, is a fault.
\<close>

definition NextEntryOffset :: "block_iter \<Rightarrow> fault + 32 word" where
  "NextEntryOffset it =
     (case it_value it of None \<Rightarrow> Inl Out_of_bounds | Some (off, n) \<Rightarrow> Inr (word_of_nat (off + n)))"

definition GetRestartPoint :: "bool \<Rightarrow> block_iter \<Rightarrow> 32 word \<Rightarrow> fault + 32 word" where
  "GetRestartPoint kLittleEndian it i =
     (if i < it_num_restarts it then
        fixed32_at kLittleEndian (it_data it) (unat (it_restarts it) + unat i * 4)
      else Inl Assertion_failed)"

definition SeekToRestartPoint :: "bool \<Rightarrow> 32 word \<Rightarrow> block_iter \<Rightarrow> fault + block_iter" where
  "SeekToRestartPoint kLittleEndian i it =
     (case GetRestartPoint kLittleEndian it i of
        Inl f \<Rightarrow> Inl f
      | Inr off \<Rightarrow> Inr (it\<lparr>it_key := [], it_restart_index := i, it_value := Some (unat off, 0)\<rparr>))"

definition CorruptionError :: "block_iter \<Rightarrow> block_iter" where
  "CorruptionError it =
     it\<lparr>it_current := it_restarts it, it_restart_index := it_num_restarts it,
        it_status := DataLoss ''bad entry in block'', it_key := [], it_value := None\<rparr>"

text \<open>The loop that moves \<open>restart_index_\<close> up to \<open>current_\<close>.\<close>

lemma unat_Suc: "j < n \<Longrightarrow> unat (j + 1 :: 'a::len word) = unat j + 1"
proof -
  assume "j < n"
  then have "unat j + 1 \<le> unat n" by (simp add: word_less_nat_alt)
  also have "unat n < 2 ^ LENGTH('a)" by (rule unsigned_less)
  finally show ?thesis by (simp add: unat_word_ariths mod_less)
qed

function advance_restart :: "bool \<Rightarrow> 32 word \<Rightarrow> block_iter \<Rightarrow> fault + 32 word" where
  "advance_restart kLittleEndian i it =
     (if i + 1 < it_num_restarts it then
        (case GetRestartPoint kLittleEndian it (i + 1) of
           Inl f \<Rightarrow> Inl f
         | Inr off \<Rightarrow>
             if off < it_current it then advance_restart kLittleEndian (i + 1) it else Inr i)
      else Inr i)"
  by pat_completeness auto

termination
proof (relation "measure (\<lambda>(_, i, it). unat (it_num_restarts it) - unat (i + 1))")
  fix i :: "32 word" and it :: block_iter
  assume less: "i + 1 < it_num_restarts it"
  have "unat (i + 1 + 1) = unat (i + 1) + 1" by (rule unat_Suc [OF less])
  moreover have "unat (i + 1) < unat (it_num_restarts it)" using less by (simp add: word_less_nat_alt)
  ultimately show "((le, i + 1, it), (le, i, it)) \<in> measure (\<lambda>(_, i, it). unat (it_num_restarts it) - unat (i + 1))"
    for le :: bool
    by simp
qed simp

declare advance_restart.simps [simp del]

definition ParseNextKey :: "bool \<Rightarrow> block_iter \<Rightarrow> fault + bool \<times> block_iter" where
  "ParseNextKey kLittleEndian it =
     (case NextEntryOffset it of
        Inl f \<Rightarrow> Inl f
      | Inr off \<Rightarrow>
          let it = it\<lparr>it_current := off\<rparr>; p = unat off; limit = unat (it_restarts it) in
          if limit \<le> p then
            Inr (False, it\<lparr>it_current := it_restarts it, it_restart_index := it_num_restarts it\<rparr>)
          else
            (case DecodeEntry (it_data it) p limit of
               Inl f \<Rightarrow> Inl f
             | Inr None \<Rightarrow> Inr (False, CorruptionError it)
             | Inr (Some (p, shared, non_shared, value_length)) \<Rightarrow>
                 if length (it_key it) < unat shared then Inr (False, CorruptionError it)
                 else if length (it_data it) < p + unat non_shared then Inl Out_of_bounds
                 else
                   let it = it\<lparr>it_key := resize (unat shared) (it_key it) @
                                  take (unat non_shared) (drop p (it_data it)),
                               it_value := Some (p + unat non_shared, unat value_length)\<rparr> in
                   (case advance_restart kLittleEndian (it_restart_index it) it of
                      Inl f \<Rightarrow> Inl f
                    | Inr i \<Rightarrow> Inr (True, it\<lparr>it_restart_index := i\<rparr>))))"

definition Next :: "bool \<Rightarrow> block_iter \<Rightarrow> fault + block_iter" where
  "Next kLittleEndian it =
     (if Valid it then map_sum id snd (ParseNextKey kLittleEndian it) else Inl Assertion_failed)"

definition SeekToFirst :: "bool \<Rightarrow> block_iter \<Rightarrow> fault + block_iter" where
  "SeekToFirst kLittleEndian it =
     (case SeekToRestartPoint kLittleEndian 0 it of
        Inl f \<Rightarrow> Inl f
      | Inr it \<Rightarrow> map_sum id snd (ParseNextKey kLittleEndian it))"

text \<open>
  The binary search over the restart points: \<open>None\<close> inside is a corrupt entry. Its
  arithmetic wraps, so that it need not end on a block of \<open>2 ^ 31\<close> restart points.
\<close>

partial_function (option) seek_restart ::
    "bool \<Rightarrow> byte list \<Rightarrow> block_iter \<Rightarrow> 32 word \<Rightarrow> 32 word \<Rightarrow> (fault + 32 word option) option" where
  "seek_restart kLittleEndian target it left right =
     (if left < right then
        let mid = (left + right + 1) div 2 in
        (case GetRestartPoint kLittleEndian it mid of
           Inl f \<Rightarrow> Some (Inl f)
         | Inr region_offset \<Rightarrow>
             (case DecodeEntry (it_data it) (unat region_offset) (unat (it_restarts it)) of
                Inl f \<Rightarrow> Some (Inl f)
              | Inr None \<Rightarrow> Some (Inr None)
              | Inr (Some (key_ptr, shared, non_shared, value_length)) \<Rightarrow>
                  if shared \<noteq> 0 then Some (Inr None)
                  else if length (it_data it) < key_ptr + unat non_shared then Some (Inl Out_of_bounds)
                  else if compare (take (unat non_shared) (drop key_ptr (it_data it))) target < 0 then
                    seek_restart kLittleEndian target it mid right
                  else seek_restart kLittleEndian target it left (mid - 1)))
      else Some (Inr (Some left)))"

text \<open>
  The linear search. Every entry it parses ends after the entry before it, whatever the
  block holds, so it ends: the number of bytes up to the restart array shrinks.
\<close>

definition next_offset :: "block_iter \<Rightarrow> nat" where
  "next_offset it = (case it_value it of None \<Rightarrow> 0 | Some (off, n) \<Rightarrow> (off + n) mod 2 ^ 32)"

lemma GetVarint32Ptr_shorter: "GetVarint32Ptr p = Some (v, rest) \<Longrightarrow> length rest < length p"
  unfolding GetVarint32Ptr_eq GetVarint32PtrFallback_def by (auto dest!: get_varint_loop_splits)

lemma decode_lengths_shorter:
  "decode_lengths p = Some (rest, l) \<Longrightarrow> 3 \<le> length p \<Longrightarrow> length rest < length p"
  by (auto simp: decode_lengths_def Let_def split: if_splits option.splits dest!: GetVarint32Ptr_shorter)

lemma DecodeEntry_inside:
  assumes "DecodeEntry data p limit = Inr (Some (q, shared, non_shared, value_length))" "limit < 2 ^ 32"
  shows "p < q" "q + unat (non_shared + value_length) \<le> limit"
proof -
  let ?seg = "drop p (take limit data)"
  from assms(1) obtain rest where rest: "decode_lengths ?seg = Some (rest, shared, non_shared, value_length)"
    and q: "q = limit - length rest" and len: "p + 3 \<le> limit" "limit \<le> length data"
    and fits: "\<not> (word_of_nat (length rest) :: 32 word) < non_shared + value_length"
    by (auto simp: DecodeEntry_def split: if_splits option.splits)
  have seg: "length ?seg = limit - p" using len by simp
  then have less: "length rest < limit - p"
    using decode_lengths_shorter [OF rest] len by simp
  then show "p < q" using q by simp
  have "unat (word_of_nat (length rest) :: 32 word) = length rest"
    using less assms(2) by (simp add: unat_of_nat)
  with fits have "unat (non_shared + value_length) \<le> length rest"
    by (simp add: word_less_nat_alt)
  then show "q + unat (non_shared + value_length) \<le> limit" using q less by simp
qed

lemma ParseNextKey_progress:
  assumes "ParseNextKey le it = Inr (True, it')"
  shows "next_offset it < next_offset it'" "next_offset it' \<le> unat (it_restarts it)"
    and "it_restarts it' = it_restarts it"
proof -
  from assms obtain off q shared non_shared value_length k i
    where off: "NextEntryOffset it = Inr off" and "unat off < unat (it_restarts it)"
      and entry: "DecodeEntry (it_data it) (unat off) (unat (it_restarts it)) =
        Inr (Some (q, shared, non_shared, value_length))"
      and it': "it' = it\<lparr>it_current := off, it_key := k,
        it_value := Some (q + unat non_shared, unat value_length), it_restart_index := i\<rparr>"
    by (auto simp: ParseNextKey_def Let_def split: sum.splits if_splits option.splits)
  have limit: "unat (it_restarts it) < 2 ^ 32"
    using unsigned_less [of "it_restarts it"] by simp
  note inside = DecodeEntry_inside [OF entry limit]
  have "unat off = next_offset it"
    using off by (auto simp: NextEntryOffset_def next_offset_def unat_of_nat simp del: of_nat_add
        split: option.splits)
  moreover have "next_offset it' = q + unat (non_shared + value_length)"
  proof -
    have "next_offset it' = (q + (unat non_shared + unat value_length) mod 2 ^ 32) mod 2 ^ 32"
      by (simp add: it' next_offset_def add.assoc mod_add_right_eq)
    also have "(unat non_shared + unat value_length) mod 2 ^ 32 = unat (non_shared + value_length)"
      by (simp add: unat_word_ariths)
    finally show ?thesis using inside(2) limit by simp
  qed
  ultimately show "next_offset it < next_offset it'" "next_offset it' \<le> unat (it_restarts it)"
    using inside by simp_all
  show "it_restarts it' = it_restarts it" by (simp add: it')
qed

lemma ParseNextKey_shrinks:
  "ParseNextKey le it = Inr (True, it') \<Longrightarrow>
    unat (it_restarts it') - next_offset it' < unat (it_restarts it) - next_offset it"
  using ParseNextKey_progress [of le it it'] by simp

function seek_linear :: "bool \<Rightarrow> byte list \<Rightarrow> block_iter \<Rightarrow> fault + block_iter" where
  "seek_linear kLittleEndian target it =
     (case ParseNextKey kLittleEndian it of
        Inl f \<Rightarrow> Inl f
      | Inr (parsed, it') \<Rightarrow>
          if \<not> parsed then Inr it'
          else if 0 \<le> compare (it_key it') target then Inr it'
          else seek_linear kLittleEndian target it')"
  by pat_completeness auto

termination
  by (relation "measure (\<lambda>(_, _, it). unat (it_restarts it) - next_offset it)")
    (auto dest: ParseNextKey_shrinks)

declare seek_linear.simps [simp del]

text \<open>\<open>Seek\<close>: \<open>None\<close> when the binary search does not end.\<close>

definition Seek :: "bool \<Rightarrow> byte list \<Rightarrow> block_iter \<Rightarrow> (fault + block_iter) option" where
  "Seek kLittleEndian target it =
     (case seek_restart kLittleEndian target it 0 (it_num_restarts it - 1) of
        None \<Rightarrow> None
      | Some (Inl f) \<Rightarrow> Some (Inl f)
      | Some (Inr None) \<Rightarrow> Some (Inr (CorruptionError it))
      | Some (Inr (Some left)) \<Rightarrow>
          (case SeekToRestartPoint kLittleEndian left it of
             Inl f \<Rightarrow> Some (Inl f)
           | Inr it \<Rightarrow> Some (seek_linear kLittleEndian target it)))"

section \<open>The iterator of a block\<close>

text \<open>
  \<open>EmptyIterator\<close> of \<open>iterator.cc\<close> has nothing but a status; the virtual calls on an
  iterator are case distinctions.
\<close>

datatype iterator = Block_Iter block_iter | Empty_Iter status

definition NewEmptyIterator :: iterator where
  "NewEmptyIterator = Empty_Iter OK_status"

definition NewErrorIterator :: "status \<Rightarrow> iterator" where
  "NewErrorIterator s = Empty_Iter s"

definition NewIterator :: "bool \<Rightarrow> block \<Rightarrow> fault + iterator" where
  "NewIterator kLittleEndian b =
     (if blk_size b < 4 then Inr (NewErrorIterator (DataLoss ''bad block contents''))
      else
        (case NumRestarts kLittleEndian b of
           Inl f \<Rightarrow> Inl f
         | Inr n \<Rightarrow>
             if n = 0 then Inr NewEmptyIterator
             else map_sum id Block_Iter (make_iter (block_data b) (restart_offset b) n)))"

primrec iterator_Valid :: "iterator \<Rightarrow> bool" where
  "iterator_Valid (Block_Iter it) = Valid it"
| "iterator_Valid (Empty_Iter s) = False"

primrec iterator_status :: "iterator \<Rightarrow> status" where
  "iterator_status (Block_Iter it) = it_status it"
| "iterator_status (Empty_Iter s) = s"

primrec iterator_key :: "iterator \<Rightarrow> fault + byte list" where
  "iterator_key (Block_Iter it) = iter_key it"
| "iterator_key (Empty_Iter s) = Inl Assertion_failed"

primrec iterator_value :: "iterator \<Rightarrow> fault + byte list" where
  "iterator_value (Block_Iter it) = iter_value it"
| "iterator_value (Empty_Iter s) = Inl Assertion_failed"

primrec iterator_Next :: "bool \<Rightarrow> iterator \<Rightarrow> fault + iterator" where
  "iterator_Next kLittleEndian (Block_Iter it) = map_sum id Block_Iter (Next kLittleEndian it)"
| "iterator_Next kLittleEndian (Empty_Iter s) = Inl Assertion_failed"

primrec iterator_SeekToFirst :: "bool \<Rightarrow> iterator \<Rightarrow> fault + iterator" where
  "iterator_SeekToFirst kLittleEndian (Block_Iter it) =
     map_sum id Block_Iter (SeekToFirst kLittleEndian it)"
| "iterator_SeekToFirst kLittleEndian (Empty_Iter s) = Inr (Empty_Iter s)"

primrec iterator_Seek :: "bool \<Rightarrow> byte list \<Rightarrow> iterator \<Rightarrow> (fault + iterator) option" where
  "iterator_Seek kLittleEndian target (Block_Iter it) =
     map_option (map_sum id Block_Iter) (Seek kLittleEndian target it)"
| "iterator_Seek kLittleEndian target (Empty_Iter s) = Some (Inr (Empty_Iter s))"

end
