(* ===== verification/Format.thy ===== *)
theory Format
  imports Block Crc32c
begin

text \<open>
  \<open>src/base/io/table/format.h\<close> and \<open>format.cc\<close>: the handle of a block, the footer of a
  table and the reading of a block from a file. The file is a function for its virtual
  \<open>Read\<close>, the compression library a record of functions; both are parameters.
\<close>

section \<open>Handles\<close>

record block_handle =
  handle_offset :: "64 word"
  handle_size :: "64 word"

definition make_handle :: block_handle where
  "make_handle = \<lparr>handle_offset = NOT 0, handle_size = NOT 0\<rparr>"

definition EncodeHandle :: "byte list \<Rightarrow> block_handle \<Rightarrow> fault + byte list" where
  "EncodeHandle dst h =
     (if handle_offset h = NOT 0 then Inl Assertion_failed
      else if handle_size h = NOT 0 then Inl Assertion_failed
      else Inr (PutVarint64 (PutVarint64 dst (handle_offset h)) (handle_size h)))"

text \<open>
  \<open>DecodeFrom\<close> fills in the handle and moves the input as far as it gets.
\<close>

definition DecodeHandle :: "byte list \<Rightarrow> block_handle \<Rightarrow> status \<times> block_handle \<times> byte list" where
  "DecodeHandle input h =
     (case GetVarint64 input of
        None \<Rightarrow> (DataLoss ''bad block handle'', h, input)
      | Some (off, input) \<Rightarrow>
          let h = h\<lparr>handle_offset := off\<rparr> in
          (case GetVarint64 input of
             None \<Rightarrow> (DataLoss ''bad block handle'', h, input)
           | Some (n, input) \<Rightarrow> (OK_status, h\<lparr>handle_size := n\<rparr>, input)))"

section \<open>The footer\<close>

record footer =
  metaindex_handle :: block_handle
  index_handle :: block_handle

definition make_footer :: footer where
  "make_footer = \<lparr>metaindex_handle = make_handle, index_handle = make_handle\<rparr>"

definition kMaxEncodedLength :: nat where
  "kMaxEncodedLength = 10 + 10"

definition kEncodedLength :: nat where
  "kEncodedLength = 2 * kMaxEncodedLength + 8"

definition kTableMagicNumber :: "64 word" where
  "kTableMagicNumber = 0xdb4775248b80fb57"

text \<open>The padding resizes all of the string, also what was there before the footer.\<close>

definition EncodeFooter :: "bool \<Rightarrow> byte list \<Rightarrow> footer \<Rightarrow> fault + byte list" where
  "EncodeFooter kLittleEndian dst f =
     (let original_size = length dst in
      case EncodeHandle dst (metaindex_handle f) of
        Inl e \<Rightarrow> Inl e
      | Inr dst \<Rightarrow>
          (case EncodeHandle dst (index_handle f) of
             Inl e \<Rightarrow> Inl e
           | Inr dst \<Rightarrow>
               let dst = resize (2 * kMaxEncodedLength) dst;
                   dst = PutFixed32 kLittleEndian dst (ucast (kTableMagicNumber AND 0xffffffff));
                   dst = PutFixed32 kLittleEndian dst (ucast (drop_bit 32 kTableMagicNumber)) in
               if length dst = original_size + kEncodedLength then Inr dst else Inl Assertion_failed))"

text \<open>The magic number is read without a look at the size of the input.\<close>

definition DecodeFooter :: "bool \<Rightarrow> byte list \<Rightarrow> footer \<Rightarrow> fault + status \<times> footer \<times> byte list" where
  "DecodeFooter kLittleEndian input f =
     (let magic_ptr = kEncodedLength - 8 in
      case (fixed32_at kLittleEndian input magic_ptr, fixed32_at kLittleEndian input (magic_ptr + 4)) of
        (Inr magic_lo, Inr magic_hi) \<Rightarrow>
          let magic = push_bit 32 (ucast magic_hi) OR ucast magic_lo in
          if magic \<noteq> kTableMagicNumber then
            Inr (DataLoss ''not an sstable (bad magic number)'', f, input)
          else
            let (s, h, rest) = DecodeHandle input (metaindex_handle f);
                f = f\<lparr>metaindex_handle := h\<rparr> in
            if \<not> is_ok s then Inr (s, f, rest)
            else
              let (s, h, rest) = DecodeHandle rest (index_handle f);
                  f = f\<lparr>index_handle := h\<rparr> in
              if \<not> is_ok s then Inr (s, f, rest)
              else Inr (s, f, drop (magic_ptr + 8) input)
      | _ \<Rightarrow> Inl Out_of_bounds)"

section \<open>Reading a block\<close>

definition kBlockTrailerSize :: "64 word" where
  "kBlockTrailerSize = 5"

text \<open>
  \<open>Read(offset, n, &result, scratch)\<close>: the status, the bytes of the result, and whether the
  result lies in \<open>scratch\<close>.
\<close>

type_synonym file_read = "64 word \<Rightarrow> 64 word \<Rightarrow> status \<times> byte list \<times> bool"

text \<open>
  The functions of \<open>src/base/platform/snappy.h\<close>, which call the Snappy library:
  \<open>Snappy_Compress\<close>, \<open>Snappy_GetUncompressedLength\<close> and \<open>Snappy_Uncompress\<close>, each with
  \<open>None\<close> for \<open>false\<close>.
\<close>

record snappy =
  Snappy_Compress :: "byte list \<Rightarrow> byte list option"
  Snappy_GetUncompressedLength :: "byte list \<Rightarrow> nat option"
  Snappy_Uncompress :: "byte list \<Rightarrow> byte list option"

text \<open>What the machine and the libraries decide: byte order, addresses of buffers, Snappy.\<close>

record platform =
  pf_little_endian :: bool
  pf_address :: nat
  pf_snappy :: snappy

definition compression_code :: "compression_type \<Rightarrow> byte" where
  "compression_code t = (case t of kNoCompression \<Rightarrow> 0 | kSnappyCompression \<Rightarrow> 1)"

definition read_bytes :: "byte list \<Rightarrow> nat \<Rightarrow> fault + byte list" where
  "read_bytes bytes n = (if n \<le> length bytes then Inr (take n bytes) else Inl Out_of_bounds)"

definition no_contents :: block_contents where
  "no_contents = \<lparr>contents = [], cachable = False, heap_allocated = False\<rparr>"

text \<open>The sums of sizes wrap in 64 bits; the bytes of the trailer are then not there.\<close>

definition ReadBlock :: "platform \<Rightarrow> file_read \<Rightarrow> block_handle \<Rightarrow> fault + status \<times> block_contents" where
  "ReadBlock pf file handle =
     (let n = handle_size handle;
          (s, bytes, in_scratch) = file (handle_offset handle) (n + kBlockTrailerSize) in
      if \<not> is_ok s then Inr (s, no_contents)
      else if length bytes \<noteq> unat (n + kBlockTrailerSize) then
        Inr (DataLoss ''truncated block read'', no_contents)
      else
        (case (fixed32_at (pf_little_endian pf) bytes (unat n + 1), read_bytes bytes (unat n + 1)) of
           (Inr stored, Inr checked) \<Rightarrow>
             (case Value (pf_little_endian pf) (pf_address pf) checked of
                None \<Rightarrow> Inl Out_of_bounds
              | Some actual \<Rightarrow>
                  if actual \<noteq> Unmask stored then
                    Inr (DataLoss ''block checksum mismatch'', no_contents)
                  else if bytes ! unat n = compression_code kNoCompression then
                    Inr (OK_status, \<lparr>contents = take (unat n) bytes, cachable = in_scratch,
                                     heap_allocated = in_scratch\<rparr>)
                  else if bytes ! unat n = compression_code kSnappyCompression then
                    (case Snappy_GetUncompressedLength (pf_snappy pf) (take (unat n) bytes) of
                       None \<Rightarrow> Inr (DataLoss ''corrupted compressed block contents'', no_contents)
                     | Some ulength \<Rightarrow>
                         (case Snappy_Uncompress (pf_snappy pf) (take (unat n) bytes) of
                            None \<Rightarrow> Inr (DataLoss ''corrupted compressed block contents'', no_contents)
                          | Some ubuf \<Rightarrow>
                              Inr (OK_status, \<lparr>contents = resize ulength ubuf, cachable = True,
                                               heap_allocated = True\<rparr>)))
                  else Inr (DataLoss ''bad block type'', no_contents))
         | _ \<Rightarrow> Inl Out_of_bounds))"

end
