(* ===== verification/Table.thy ===== *)
theory Table
  imports Format
begin

text \<open>
  \<open>src/base/io/table/two_level_iterator.cc\<close> and \<open>table.cc\<close>: the iterator over the blocks
  that an index iterator names, the opening of a table, its iterator and its searches.
\<close>

section \<open>The two-level iterator\<close>

record two_level =
  index_iter :: iterator
  data_iter :: "iterator option"
  tl_status :: status
  data_block_handle :: "byte list"

definition NewTwoLevelIterator :: "iterator \<Rightarrow> two_level" where
  "NewTwoLevelIterator index =
     \<lparr>index_iter = index, data_iter = None, tl_status = OK_status, data_block_handle = []\<rparr>"

definition tl_Valid :: "two_level \<Rightarrow> bool" where
  "tl_Valid t \<longleftrightarrow> (case data_iter t of None \<Rightarrow> False | Some d \<Rightarrow> iterator_Valid d)"

definition tl_key :: "two_level \<Rightarrow> fault + byte list" where
  "tl_key t =
     (if tl_Valid t then (case data_iter t of None \<Rightarrow> Inl Out_of_bounds | Some d \<Rightarrow> iterator_key d)
      else Inl Assertion_failed)"

definition tl_value :: "two_level \<Rightarrow> fault + byte list" where
  "tl_value t =
     (if tl_Valid t then (case data_iter t of None \<Rightarrow> Inl Out_of_bounds | Some d \<Rightarrow> iterator_value d)
      else Inl Assertion_failed)"

definition tl_get_status :: "two_level \<Rightarrow> status" where
  "tl_get_status t =
     (if \<not> is_ok (iterator_status (index_iter t)) then iterator_status (index_iter t)
      else
        (case data_iter t of
           None \<Rightarrow> tl_status t
         | Some d \<Rightarrow> if \<not> is_ok (iterator_status d) then iterator_status d else tl_status t))"

definition SaveError :: "status \<Rightarrow> two_level \<Rightarrow> two_level" where
  "SaveError s t = (if is_ok (tl_status t) \<and> \<not> is_ok s then t\<lparr>tl_status := s\<rparr> else t)"

definition SetDataIterator :: "iterator option \<Rightarrow> two_level \<Rightarrow> two_level" where
  "SetDataIterator d t =
     (let t = (case data_iter t of None \<Rightarrow> t | Some old \<Rightarrow> SaveError (iterator_status old) t) in
      t\<lparr>data_iter := d\<rparr>)"

type_synonym block_function = "byte list \<Rightarrow> fault + iterator"

definition InitDataBlock :: "block_function \<Rightarrow> two_level \<Rightarrow> fault + two_level" where
  "InitDataBlock fn t =
     (if \<not> iterator_Valid (index_iter t) then Inr (SetDataIterator None t)
      else
        (case iterator_value (index_iter t) of
           Inl e \<Rightarrow> Inl e
         | Inr handle \<Rightarrow>
             if data_iter t \<noteq> None \<and> compare handle (data_block_handle t) = 0 then Inr t
             else
               (case fn handle of
                  Inl e \<Rightarrow> Inl e
                | Inr d \<Rightarrow> Inr (SetDataIterator (Some d) (t\<lparr>data_block_handle := handle\<rparr>)))))"

definition data_SeekToFirst :: "bool \<Rightarrow> two_level \<Rightarrow> fault + two_level" where
  "data_SeekToFirst kLittleEndian t =
     (case data_iter t of
        None \<Rightarrow> Inr t
      | Some d \<Rightarrow>
          (case iterator_SeekToFirst kLittleEndian d of
             Inl e \<Rightarrow> Inl e
           | Inr d \<Rightarrow> Inr (t\<lparr>data_iter := Some d\<rparr>)))"

text \<open>
  The body of the loop of \<open>SkipEmptyDataBlocksForward\<close>. The loop ends since the index
  iterator moves on: what is left before it shrinks, whatever the index block holds.
\<close>

definition skip_step :: "bool \<Rightarrow> block_function \<Rightarrow> two_level \<Rightarrow> fault + two_level" where
  "skip_step kLittleEndian fn t =
     (case iterator_Next kLittleEndian (index_iter t) of
        Inl e \<Rightarrow> Inl e
      | Inr i \<Rightarrow>
          (case InitDataBlock fn (t\<lparr>index_iter := i\<rparr>) of
             Inl e \<Rightarrow> Inl e
           | Inr t \<Rightarrow> data_SeekToFirst kLittleEndian t))"

primrec iterator_left :: "iterator \<Rightarrow> nat" where
  "iterator_left (Block_Iter it) = (if Valid it then Suc (unat (it_restarts it) - next_offset it) else 0)"
| "iterator_left (Empty_Iter s) = 0"

lemma iterator_Next_left: "iterator_Next le it = Inr it' \<Longrightarrow> iterator_left it' < iterator_left it"
proof (cases it)
  case (Block_Iter b)
  assume "iterator_Next le it = Inr it'"
  then obtain b' ok where valid: "Valid b" and parse: "ParseNextKey le b = Inr (ok, b')" and it': "it' = Block_Iter b'"
    by (cases "ParseNextKey le b") (auto simp: Block_Iter Next_def split: if_splits)
  show ?thesis
  proof (cases ok)
    case True
    with parse have "unat (it_restarts b') - next_offset b' < unat (it_restarts b) - next_offset b"
      by (intro ParseNextKey_shrinks) simp
    then show ?thesis using valid by (simp add: Block_Iter it')
  next
    case False
    with parse have "\<not> Valid b'"
      by (auto simp: ParseNextKey_def Let_def Valid_def CorruptionError_def split: sum.splits if_splits option.splits)
    then show ?thesis using valid by (simp add: Block_Iter it')
  qed
qed simp

lemma InitDataBlock_index: "InitDataBlock fn t = Inr t' \<Longrightarrow> index_iter t' = index_iter t"
  by (auto simp: InitDataBlock_def SetDataIterator_def SaveError_def Let_def split: if_splits sum.splits option.splits)

lemma skip_step_left: "skip_step le fn t = Inr t' \<Longrightarrow> iterator_left (index_iter t') < iterator_left (index_iter t)"
  by (auto simp: skip_step_def data_SeekToFirst_def split: sum.splits option.splits
      dest!: iterator_Next_left InitDataBlock_index)

function SkipEmptyDataBlocksForward :: "bool \<Rightarrow> block_function \<Rightarrow> two_level \<Rightarrow> fault + two_level" where
  "SkipEmptyDataBlocksForward kLittleEndian fn t =
     (if data_iter t = None \<or> \<not> tl_Valid t then
        if \<not> iterator_Valid (index_iter t) then Inr (SetDataIterator None t)
        else
          (case skip_step kLittleEndian fn t of
             Inl e \<Rightarrow> Inl e
           | Inr t' \<Rightarrow> SkipEmptyDataBlocksForward kLittleEndian fn t')
      else Inr t)"
  by pat_completeness auto

termination
  by (relation "measure (\<lambda>(_, _, t). iterator_left (index_iter t))") (auto dest: skip_step_left)

declare SkipEmptyDataBlocksForward.simps [simp del]

definition tl_SeekToFirst :: "bool \<Rightarrow> block_function \<Rightarrow> two_level \<Rightarrow> fault + two_level" where
  "tl_SeekToFirst kLittleEndian fn t =
     (case iterator_SeekToFirst kLittleEndian (index_iter t) of
        Inl e \<Rightarrow> Inl e
      | Inr i \<Rightarrow>
          (case InitDataBlock fn (t\<lparr>index_iter := i\<rparr>) of
             Inl e \<Rightarrow> Inl e
           | Inr t \<Rightarrow>
               (case data_SeekToFirst kLittleEndian t of
                  Inl e \<Rightarrow> Inl e
                | Inr t \<Rightarrow> SkipEmptyDataBlocksForward kLittleEndian fn t)))"

definition tl_Next :: "bool \<Rightarrow> block_function \<Rightarrow> two_level \<Rightarrow> fault + two_level" where
  "tl_Next kLittleEndian fn t =
     (if \<not> tl_Valid t then Inl Assertion_failed
      else
        (case data_iter t of
           None \<Rightarrow> Inl Out_of_bounds
         | Some d \<Rightarrow>
             (case iterator_Next kLittleEndian d of
                Inl e \<Rightarrow> Inl e
              | Inr d \<Rightarrow> SkipEmptyDataBlocksForward kLittleEndian fn (t\<lparr>data_iter := Some d\<rparr>))))"

definition data_Seek :: "bool \<Rightarrow> byte list \<Rightarrow> two_level \<Rightarrow> (fault + two_level) option" where
  "data_Seek kLittleEndian target t =
     (case data_iter t of
        None \<Rightarrow> Some (Inr t)
      | Some d \<Rightarrow>
          map_option (map_sum id (\<lambda>d. t\<lparr>data_iter := Some d\<rparr>)) (iterator_Seek kLittleEndian target d))"

definition tl_Seek :: "bool \<Rightarrow> block_function \<Rightarrow> byte list \<Rightarrow> two_level \<Rightarrow> (fault + two_level) option" where
  "tl_Seek kLittleEndian fn target t =
     (case iterator_Seek kLittleEndian target (index_iter t) of
        None \<Rightarrow> None
      | Some (Inl e) \<Rightarrow> Some (Inl e)
      | Some (Inr i) \<Rightarrow>
          (case InitDataBlock fn (t\<lparr>index_iter := i\<rparr>) of
             Inl e \<Rightarrow> Some (Inl e)
           | Inr t \<Rightarrow>
               (case data_Seek kLittleEndian target t of
                  None \<Rightarrow> None
                | Some (Inl e) \<Rightarrow> Some (Inl e)
                | Some (Inr t) \<Rightarrow> Some (SkipEmptyDataBlocksForward kLittleEndian fn t))))"

section \<open>The table\<close>

record table =
  t_options :: options
  t_file :: file_read
  t_metaindex_handle :: block_handle
  t_index_block :: block

text \<open>
  \<open>Table::Open\<close>: the status with the table, if it is opened. \<open>junk\<close> is what the
  constructor of a block finds in memory.
\<close>

definition TableOpen ::
    "platform \<Rightarrow> 32 word \<Rightarrow> options \<Rightarrow> file_read \<Rightarrow> 64 word \<Rightarrow> fault + status \<times> table option" where
  "TableOpen pf junk opts file file_size =
     (if unat file_size < kEncodedLength then Inr (DataLoss ''file is too short to be an sstable'', None)
      else
        let (s, footer_input, _) = file (file_size - word_of_nat kEncodedLength) (word_of_nat kEncodedLength) in
        if \<not> is_ok s then Inr (s, None)
        else
          (case DecodeFooter (pf_little_endian pf) footer_input make_footer of
             Inl e \<Rightarrow> Inl e
           | Inr (s, footer, _) \<Rightarrow>
               if \<not> is_ok s then Inr (s, None)
               else
                 (case ReadBlock pf file (index_handle footer) of
                    Inl e \<Rightarrow> Inl e
                  | Inr (s, c) \<Rightarrow>
                      if \<not> is_ok s then Inr (s, None)
                      else
                        (case make_block (pf_little_endian pf) junk c of
                           Inl e \<Rightarrow> Inl e
                         | Inr index_block \<Rightarrow>
                             Inr (s, Some \<lparr>t_options = opts, t_file = file,
                                          t_metaindex_handle = metaindex_handle footer,
                                          t_index_block = index_block\<rparr>)))))"

definition BlockReader :: "platform \<Rightarrow> 32 word \<Rightarrow> table \<Rightarrow> block_function" where
  "BlockReader pf junk t index_value =
     (let (s, handle, _) = DecodeHandle index_value make_handle in
      if \<not> is_ok s then Inr (NewErrorIterator s)
      else
        (case ReadBlock pf (t_file t) handle of
           Inl e \<Rightarrow> Inl e
         | Inr (s, c) \<Rightarrow>
             if \<not> is_ok s then Inr (NewErrorIterator s)
             else
               (case make_block (pf_little_endian pf) junk c of
                  Inl e \<Rightarrow> Inl e
                | Inr b \<Rightarrow> NewIterator (pf_little_endian pf) b)))"

definition TableNewIterator :: "platform \<Rightarrow> table \<Rightarrow> fault + two_level" where
  "TableNewIterator pf t = map_sum id NewTwoLevelIterator (NewIterator (pf_little_endian pf) (t_index_block t))"

text \<open>\<open>InternalGet\<close> with its callback \<open>saver\<close> on the state \<open>arg\<close>.\<close>

definition InternalGet ::
    "platform \<Rightarrow> 32 word \<Rightarrow> table \<Rightarrow> byte list \<Rightarrow> (byte list \<Rightarrow> byte list \<Rightarrow> 'a \<Rightarrow> 'a) \<Rightarrow> 'a
      \<Rightarrow> (fault + status \<times> 'a) option" where
  "InternalGet pf junk t k saver arg =
     (case NewIterator (pf_little_endian pf) (t_index_block t) of
        Inl e \<Rightarrow> Some (Inl e)
      | Inr iiter \<Rightarrow>
          (case iterator_Seek (pf_little_endian pf) k iiter of
             None \<Rightarrow> None
           | Some (Inl e) \<Rightarrow> Some (Inl e)
           | Some (Inr iiter) \<Rightarrow>
               if \<not> iterator_Valid iiter then Some (Inr (iterator_status iiter, arg))
               else
                 (case iterator_value iiter of
                    Inl e \<Rightarrow> Some (Inl e)
                  | Inr handle \<Rightarrow>
                      (case BlockReader pf junk t handle of
                         Inl e \<Rightarrow> Some (Inl e)
                       | Inr block_iter \<Rightarrow>
                           (case iterator_Seek (pf_little_endian pf) k block_iter of
                              None \<Rightarrow> None
                            | Some (Inl e) \<Rightarrow> Some (Inl e)
                            | Some (Inr block_iter) \<Rightarrow>
                                let s = iterator_status block_iter;
                                    s = (if is_ok s then iterator_status iiter else s) in
                                if iterator_Valid block_iter then
                                  (case (iterator_key block_iter, iterator_value block_iter) of
                                     (Inr k', Inr v) \<Rightarrow> Some (Inr (s, saver k' v arg))
                                   | _ \<Rightarrow> Some (Inl Out_of_bounds))
                                else Some (Inr (s, arg)))))))"

definition ApproximateOffsetOf :: "platform \<Rightarrow> table \<Rightarrow> byte list \<Rightarrow> (fault + 64 word) option" where
  "ApproximateOffsetOf pf t key =
     (case NewIterator (pf_little_endian pf) (t_index_block t) of
        Inl e \<Rightarrow> Some (Inl e)
      | Inr index \<Rightarrow>
          (case iterator_Seek (pf_little_endian pf) key index of
             None \<Rightarrow> None
           | Some (Inl e) \<Rightarrow> Some (Inl e)
           | Some (Inr index) \<Rightarrow>
               if iterator_Valid index then
                 (case iterator_value index of
                    Inl e \<Rightarrow> Some (Inl e)
                  | Inr input \<Rightarrow>
                      let (s, handle, _) = DecodeHandle input make_handle in
                      Some (Inr (if is_ok s then handle_offset handle
                                 else handle_offset (t_metaindex_handle t))))
               else Some (Inr (handle_offset (t_metaindex_handle t)))))"

end
