(* ===== verification/Table_Builder.thy ===== *)
theory Table_Builder
  imports Format
begin

text \<open>
  \<open>src/base/io/table/table_builder.cc\<close>: the builder of a table, which writes blocks to a
  file and keeps an index block with a key between every two of them. The file is a state
  with its virtual \<open>Append\<close>. \<open>Add\<close>, \<open>Flush\<close> and \<open>Finish\<close> of \<open>TableBuilder\<close> are
  \<open>TableAdd\<close>, \<open>TableFlush\<close> and \<open>TableFinish\<close> here.
\<close>

section \<open>Keys of the index\<close>

definition FindShortestSeparator :: "byte list \<Rightarrow> byte list \<Rightarrow> fault + byte list" where
  "FindShortestSeparator start limit =
     (let min_length = min (length start) (length limit);
          diff_index = shared_loop start limit min_length 0 in
      if min_length \<le> diff_index then Inr start
      else
        let diff_byte = start ! diff_index in
        if diff_byte < 0xff \<and> unat diff_byte + 1 < unat (limit ! diff_index) then
          let start = resize (diff_index + 1) (start[diff_index := diff_byte + 1]) in
          if compare start limit < 0 then Inr start else Inl Assertion_failed
        else Inr start)"

text \<open>The loop of \<open>FindShortSuccessor\<close>, from index \<open>i\<close> on.\<close>

function short_successor_loop :: "nat \<Rightarrow> byte list \<Rightarrow> byte list" where
  "short_successor_loop i key =
     (if i < length key then
        if key ! i \<noteq> 0xff then resize (i + 1) (key[i := key ! i + 1])
        else short_successor_loop (i + 1) key
      else key)"
  by pat_completeness auto

termination
  by (relation "measure (\<lambda>(i, key). length key - i)") auto

declare short_successor_loop.simps [simp del]

definition FindShortSuccessor :: "byte list \<Rightarrow> byte list" where
  "FindShortSuccessor key = short_successor_loop 0 key"

section \<open>The state\<close>

record 'f rep =
  r_options :: options
  index_block_options :: options
  r_file :: 'f
  r_offset :: "64 word"
  r_status :: status
  data_block :: block_builder
  index_block :: block_builder
  r_last_key :: "byte list"
  num_entries :: int
  closed :: bool
  pending_index_entry :: bool
  pending_handle :: block_handle
  compressed_output :: "byte list"

type_synonym 'f append = "byte list \<Rightarrow> 'f \<Rightarrow> status \<times> 'f"

text \<open>
  The two block builders are made before the interval of the index is set to 1; they see
  their options through pointers.
\<close>

definition make_rep :: "options \<Rightarrow> 'f \<Rightarrow> fault + 'f rep" where
  "make_rep opt f =
     (case (make_block_builder opt, make_block_builder opt) of
        (Inr db, Inr ib) \<Rightarrow>
          Inr \<lparr>r_options = opt, index_block_options = opt\<lparr>block_restart_interval := 1\<rparr>, r_file = f,
               r_offset = 0, r_status = OK_status, data_block = db, index_block = ib, r_last_key = [],
               num_entries = 0, closed = False, pending_index_entry = False,
               pending_handle = make_handle, compressed_output = []\<rparr>
      | _ \<Rightarrow> Inl Assertion_failed)"

definition rep_ok :: "'f rep \<Rightarrow> bool" where
  "rep_ok r \<longleftrightarrow> is_ok (r_status r)"

section \<open>Writing a block\<close>

definition WriteRawBlock ::
    "platform \<Rightarrow> 'f append \<Rightarrow> byte list \<Rightarrow> compression_type \<Rightarrow> 'f rep \<Rightarrow> fault + block_handle \<times> 'f rep" where
  "WriteRawBlock pf Append block_contents type r =
     (let handle = \<lparr>handle_offset = r_offset r, handle_size = word_of_nat (length block_contents)\<rparr>;
          (s, f) = Append block_contents (r_file r);
          r = r\<lparr>r_status := s, r_file := f\<rparr> in
      if is_ok s then
        (case Value (pf_little_endian pf) (pf_address pf) block_contents of
           None \<Rightarrow> Inl Out_of_bounds
         | Some crc \<Rightarrow>
             (case Extend (pf_little_endian pf) (pf_address pf) crc [compression_code type] of
                None \<Rightarrow> Inl Out_of_bounds
              | Some crc \<Rightarrow>
                  let trailer = compression_code type # EncodeFixed32 (pf_little_endian pf) (Mask crc);
                      (s, f) = Append trailer (r_file r);
                      r = r\<lparr>r_status := s, r_file := f\<rparr> in
                  if is_ok s then
                    Inr (handle, r\<lparr>r_offset := r_offset r + (word_of_nat (length block_contents) + kBlockTrailerSize)\<rparr>)
                  else Inr (handle, r)))
      else Inr (handle, r))"

text \<open>
  What \<open>WriteBlock\<close> stores for the contents of a block: the compressed form when it saves
  an eighth.
\<close>

definition stored_form :: "platform \<Rightarrow> compression_type \<Rightarrow> byte list \<Rightarrow> byte list \<times> compression_type" where
  "stored_form pf type raw =
     (case type of
        kNoCompression \<Rightarrow> (raw, kNoCompression)
      | kSnappyCompression \<Rightarrow>
          (case Snappy_Compress (pf_snappy pf) raw of
             None \<Rightarrow> (raw, kNoCompression)
           | Some compressed \<Rightarrow>
               if length compressed < length raw - length raw div 8 then (compressed, kSnappyCompression)
               else (raw, kNoCompression)))"

text \<open>\<open>WriteBlock\<close> on a block builder: the handle, the builder after its \<open>Reset\<close>, the state.\<close>

definition WriteBlock ::
    "platform \<Rightarrow> 'f append \<Rightarrow> block_builder \<Rightarrow> 'f rep \<Rightarrow> fault + block_handle \<times> block_builder \<times> 'f rep" where
  "WriteBlock pf Append block r =
     (if \<not> rep_ok r then Inl Assertion_failed
      else
        let (raw, block) = Finish (pf_little_endian pf) block;
            (block_contents, type) = stored_form pf (compression (r_options r)) raw in
        case WriteRawBlock pf Append block_contents type r of
          Inl e \<Rightarrow> Inl e
        | Inr (handle, r) \<Rightarrow> Inr (handle, Reset block, r\<lparr>compressed_output := []\<rparr>))"

section \<open>The operations\<close>

definition TableFlush :: "platform \<Rightarrow> 'f append \<Rightarrow> 'f rep \<Rightarrow> fault + 'f rep" where
  "TableFlush pf Append r =
     (if closed r then Inl Assertion_failed
      else if \<not> rep_ok r then Inr r
      else if builder_empty (data_block r) then Inr r
      else if pending_index_entry r then Inl Assertion_failed
      else
        (case WriteBlock pf Append (data_block r) r of
           Inl e \<Rightarrow> Inl e
         | Inr (handle, block, r) \<Rightarrow>
             let r = r\<lparr>data_block := block, pending_handle := handle\<rparr> in
             Inr (if rep_ok r then r\<lparr>pending_index_entry := True\<rparr> else r)))"

text \<open>The index entry for the pending block, with the key that separates it.\<close>

definition add_index_entry :: "byte list \<Rightarrow> 'f rep \<Rightarrow> fault + 'f rep" where
  "add_index_entry separator r =
     (case EncodeHandle [] (pending_handle r) of
        Inl e \<Rightarrow> Inl e
      | Inr handle_encoding \<Rightarrow>
          (case Add (index_block_options r) separator handle_encoding (index_block r) of
             Inl e \<Rightarrow> Inl e
           | Inr b \<Rightarrow> Inr (r\<lparr>r_last_key := separator, index_block := b, pending_index_entry := False\<rparr>)))"

definition kOverlyLargeBlockRatio :: nat where
  "kOverlyLargeBlockRatio = 2"

text \<open>The first part of \<open>Add\<close>: the order is checked, and a large pair gets a block of its own.\<close>

definition before_add :: "platform \<Rightarrow> 'f append \<Rightarrow> byte list \<Rightarrow> byte list \<Rightarrow> 'f rep \<Rightarrow> fault + 'f rep" where
  "before_add pf Append key value r =
     (if 0 < num_entries r then
        if \<not> 0 < compare key (r_last_key r) then Inl Assertion_failed
        else
          let this_entry_bytes = length key + length value in
          if (kOverlyLargeBlockRatio * block_size (r_options r)) mod 2 ^ 64 \<le> this_entry_bytes then
            TableFlush pf Append r
          else Inr r
      else Inr r)"

definition TableAdd :: "platform \<Rightarrow> 'f append \<Rightarrow> byte list \<Rightarrow> byte list \<Rightarrow> 'f rep \<Rightarrow> fault + 'f rep" where
  "TableAdd pf Append key value r =
     (if closed r then Inl Assertion_failed
      else if \<not> rep_ok r then Inr r
      else
        (case before_add pf Append key value r of
           Inl e \<Rightarrow> Inl e
         | Inr r \<Rightarrow>
             (case (if pending_index_entry r then
                      if \<not> builder_empty (data_block r) then Inl Assertion_failed
                      else
                        (case FindShortestSeparator (r_last_key r) key of
                           Inl e \<Rightarrow> Inl e
                         | Inr separator \<Rightarrow> add_index_entry separator r)
                    else Inr r) of
                Inl e \<Rightarrow> Inl e
              | Inr r \<Rightarrow>
                  (case Add (r_options r) key value (data_block r) of
                     Inl e \<Rightarrow> Inl e
                   | Inr b \<Rightarrow>
                       let r = r\<lparr>r_last_key := key, num_entries := num_entries r + 1, data_block := b\<rparr> in
                       if block_size (r_options r) \<le> CurrentSizeEstimate (data_block r) then
                         TableFlush pf Append r
                       else Inr r))))"

text \<open>The three parts of \<open>Finish\<close>: the metaindex block, the index block, the footer.\<close>

definition finish_metaindex :: "platform \<Rightarrow> 'f append \<Rightarrow> 'f rep \<Rightarrow> fault + block_handle \<times> 'f rep" where
  "finish_metaindex pf Append r =
     (if rep_ok r then
        (case make_block_builder (r_options r) of
           Inl e \<Rightarrow> Inl e
         | Inr meta_index_block \<Rightarrow>
             (case WriteBlock pf Append meta_index_block r of
                Inl e \<Rightarrow> Inl e
              | Inr (handle, _, r) \<Rightarrow> Inr (handle, r)))
      else Inr (make_handle, r))"

definition finish_index :: "platform \<Rightarrow> 'f append \<Rightarrow> 'f rep \<Rightarrow> fault + block_handle \<times> 'f rep" where
  "finish_index pf Append r =
     (if rep_ok r then
        (case (if pending_index_entry r then add_index_entry (FindShortSuccessor (r_last_key r)) r else Inr r) of
           Inl e \<Rightarrow> Inl e
         | Inr r \<Rightarrow>
             (case WriteBlock pf Append (index_block r) r of
                Inl e \<Rightarrow> Inl e
              | Inr (handle, block, r) \<Rightarrow> Inr (handle, r\<lparr>index_block := block\<rparr>)))
      else Inr (make_handle, r))"

definition finish_footer :: "platform \<Rightarrow> 'f append \<Rightarrow> footer \<Rightarrow> 'f rep \<Rightarrow> fault + 'f rep" where
  "finish_footer pf Append footer r =
     (if rep_ok r then
        (case EncodeFooter (pf_little_endian pf) [] footer of
           Inl e \<Rightarrow> Inl e
         | Inr footer_encoding \<Rightarrow>
             let (s, f) = Append footer_encoding (r_file r);
                 r = r\<lparr>r_status := s, r_file := f\<rparr> in
             Inr (if is_ok s then r\<lparr>r_offset := r_offset r + word_of_nat (length footer_encoding)\<rparr> else r))
      else Inr r)"

definition TableFinish :: "platform \<Rightarrow> 'f append \<Rightarrow> 'f rep \<Rightarrow> fault + status \<times> 'f rep" where
  "TableFinish pf Append r =
     (case TableFlush pf Append r of
        Inl e \<Rightarrow> Inl e
      | Inr r \<Rightarrow>
          if closed r then Inl Assertion_failed
          else
            (case finish_metaindex pf Append (r\<lparr>closed := True\<rparr>) of
               Inl e \<Rightarrow> Inl e
             | Inr (metaindex_block_handle, r) \<Rightarrow>
                 (case finish_index pf Append r of
                    Inl e \<Rightarrow> Inl e
                  | Inr (index_block_handle, r) \<Rightarrow>
                      map_sum id (\<lambda>r. (r_status r, r))
                        (finish_footer pf Append
                          \<lparr>metaindex_handle = metaindex_block_handle, index_handle = index_block_handle\<rparr> r))))"

definition Abandon :: "'f rep \<Rightarrow> fault + 'f rep" where
  "Abandon r = (if closed r then Inl Assertion_failed else Inr (r\<lparr>closed := True\<rparr>))"

text \<open>The destructor catches a builder that was not closed.\<close>

definition delete_builder :: "'f rep \<Rightarrow> fault + unit" where
  "delete_builder r = (if closed r then Inr () else Inl Assertion_failed)"

definition NumEntries :: "'f rep \<Rightarrow> 64 word" where
  "NumEntries r = word_of_int (num_entries r)"

definition FileSize :: "'f rep \<Rightarrow> 64 word" where
  "FileSize r = r_offset r"

end
