(* ===== verification/Block_Layout.thy ===== *)
theory Block_Layout
  imports Block
begin

text \<open>
  What a block is made of: the entries with the number of bytes each shares with the key
  before it, and the entries that are restart points. The builder writes the image of such
  a list, and keeps the invariant that ties its fields to it.
\<close>

section \<open>Images\<close>

type_synonym entry = "nat \<times> byte list \<times> byte list"

abbreviation e_shared :: "entry \<Rightarrow> nat" where
  "e_shared e \<equiv> fst e"

abbreviation e_key :: "entry \<Rightarrow> byte list" where
  "e_key e \<equiv> fst (snd e)"

abbreviation e_value :: "entry \<Rightarrow> byte list" where
  "e_value e \<equiv> snd (snd e)"

definition encode_entry :: "entry \<Rightarrow> byte list" where
  "encode_entry e =
     EncodeVarint32 (word_of_nat (e_shared e)) @
     EncodeVarint32 (word_of_nat (length (e_key e) - e_shared e)) @
     EncodeVarint32 (word_of_nat (length (e_value e))) @ drop (e_shared e) (e_key e) @ e_value e"

definition body :: "entry list \<Rightarrow> byte list" where
  "body xs = concat (map encode_entry xs)"

definition offset :: "entry list \<Rightarrow> nat \<Rightarrow> nat" where
  "offset xs i = length (body (take i xs))"

definition prev_key :: "entry list \<Rightarrow> nat \<Rightarrow> byte list" where
  "prev_key xs i = (if i = 0 then [] else e_key (xs ! (i - 1)))"

definition shares :: "byte list \<Rightarrow> entry \<Rightarrow> bool" where
  "shares k e \<longleftrightarrow> e_shared e \<le> length k \<and> take (e_shared e) (e_key e) = take (e_shared e) k"

definition entries_ok :: "entry list \<Rightarrow> bool" where
  "entries_ok xs \<longleftrightarrow> (\<forall>i < length xs. shares (prev_key xs i) (xs ! i))"

definition restarts_ok :: "entry list \<Rightarrow> nat list \<Rightarrow> bool" where
  "restarts_ok xs ris \<longleftrightarrow> ris \<noteq> [] \<and> hd ris = 0 \<and> sorted_wrt (<) ris \<and>
     (\<forall>r \<in> set ris. r < max 1 (length xs)) \<and> (\<forall>r \<in> set ris. r < length xs \<longrightarrow> e_shared (xs ! r) = 0)"

definition restart_array :: "bool \<Rightarrow> entry list \<Rightarrow> nat list \<Rightarrow> byte list" where
  "restart_array le xs ris =
     concat (map (\<lambda>r. EncodeFixed32 le (word_of_nat (offset xs r))) ris) @
     EncodeFixed32 le (word_of_nat (length ris))"

definition block_image :: "bool \<Rightarrow> entry list \<Rightarrow> nat list \<Rightarrow> byte list" where
  "block_image le xs ris = body xs @ restart_array le xs ris"

lemma body_append [simp]: "body (xs @ ys) = body xs @ body ys"
  by (simp add: body_def)

lemma body_simps [simp]: "body [] = []" "body (x # xs) = encode_entry x @ body xs"
  by (simp_all add: body_def)

lemma offset_0 [simp]: "offset xs 0 = 0"
  by (simp add: offset_def)

lemma offset_all: "length xs \<le> i \<Longrightarrow> offset xs i = length (body xs)"
  by (simp add: offset_def)

lemma offset_Suc: "i < length xs \<Longrightarrow> offset xs (Suc i) = offset xs i + length (encode_entry (xs ! i))"
  by (simp add: offset_def take_Suc_conv_app_nth)

lemma offset_append: "i \<le> length xs \<Longrightarrow> offset (xs @ ys) i = offset xs i"
  by (simp add: offset_def)

lemma offset_le: "offset xs i \<le> length (body xs)"
proof -
  have "length (body xs) = length (body (take i xs)) + length (body (drop i xs))"
    by (simp flip: length_append body_append)
  then show ?thesis by (simp add: offset_def)
qed

lemma body_split: "i < length xs \<Longrightarrow> drop (offset xs i) (body xs) = encode_entry (xs ! i) @ body (drop (Suc i) xs)"
proof -
  assume i: "i < length xs"
  have "body xs = body (take i xs) @ encode_entry (xs ! i) @ body (drop (Suc i) xs)"
    using i by (simp flip: body_append body_simps(2) add: Cons_nth_drop_Suc)
  then show ?thesis by (simp add: offset_def)
qed

lemma varint32_nonempty: "0 < length (EncodeVarint32 v)"
  by (simp add: EncodeVarint32_def)

lemma encode_entry_length: "3 \<le> length (encode_entry e)"
  using varint32_nonempty [of "word_of_nat (e_shared e)"]
    varint32_nonempty [of "word_of_nat (length (e_key e) - e_shared e)"]
    varint32_nonempty [of "word_of_nat (length (e_value e))"]
  unfolding encode_entry_def length_append by linarith

lemma offset_less: "i < length xs \<Longrightarrow> offset xs i + 3 \<le> length (body xs)"
  using offset_Suc [of i xs] offset_le [of xs "Suc i"] encode_entry_length [of "xs ! i"] by simp

lemma shares_length: "shares k e \<Longrightarrow> e_shared e \<le> length (e_key e)"
proof -
  assume "shares k e"
  then have "length (take (e_shared e) (e_key e)) = length (take (e_shared e) k)" "e_shared e \<le> length k"
    by (simp_all add: shares_def)
  then show ?thesis by simp
qed

section \<open>The builder writes images\<close>

lemma shared_loop_agrees:
  "\<forall>i < shared. a ! i = b ! i \<Longrightarrow> shared \<le> m \<Longrightarrow>
    shared_loop a b m shared \<le> m \<and> (\<forall>i < shared_loop a b m shared. a ! i = b ! i)"
proof (induction a b m shared rule: shared_loop.induct)
  case (1 a b m shared)
  show ?case
  proof (cases "shared < m \<and> a ! shared = b ! shared")
    case True
    with "1.IH" [OF True] "1.prems" show ?thesis
      by (subst (1 2) shared_loop.simps) (simp add: less_Suc_eq)
  next
    case False
    then have "shared_loop a b m shared = shared" by (subst shared_loop.simps) auto
    with "1.prems" show ?thesis by simp
  qed
qed

definition entries_of :: "entry list \<Rightarrow> (byte list \<times> byte list) list" where
  "entries_of xs = map snd xs"

definition builder_inv :: "options \<Rightarrow> entry list \<Rightarrow> nat list \<Rightarrow> block_builder \<Rightarrow> bool" where
  "builder_inv opts xs ris b \<longleftrightarrow>
     entries_ok xs \<and> restarts_ok xs ris \<and> buffer b = body xs \<and>
     restarts b = map (\<lambda>r. word_of_nat (offset xs r)) ris \<and> last_key b = prev_key xs (length xs) \<and>
     0 \<le> counter b \<and> counter b \<le> block_restart_interval opts \<and> 1 \<le> block_restart_interval opts \<and>
     \<not> finished b \<and> (xs = [] \<longrightarrow> counter b = 0 \<and> ris = [0])"

lemma make_builder_inv:
  "1 \<le> block_restart_interval opts \<Longrightarrow> \<exists>b. make_block_builder opts = Inr b \<and> builder_inv opts [] [0] b"
  by (simp add: make_block_builder_def builder_inv_def entries_ok_def restarts_ok_def prev_key_def)

lemma Reset_inv: "1 \<le> block_restart_interval opts \<Longrightarrow> builder_inv opts [] [0] (Reset b)"
  by (simp add: Reset_def builder_inv_def entries_ok_def restarts_ok_def prev_key_def)

lemma entries_ok_snoc:
  "entries_ok xs \<Longrightarrow> shares (prev_key xs (length xs)) e \<Longrightarrow> entries_ok (xs @ [e])"
  by (auto simp: entries_ok_def prev_key_def nth_append less_Suc_eq)

lemma restarts_ok_snoc: "restarts_ok xs ris \<Longrightarrow> xs \<noteq> [] \<Longrightarrow> restarts_ok (xs @ [e]) ris"
  by (auto simp: restarts_ok_def nth_append max_def Suc_le_eq split: if_splits)

lemma restarts_ok_first: "e_shared e = 0 \<Longrightarrow> restarts_ok [e] [0]"
  by (simp add: restarts_ok_def)

lemma restarts_ok_new:
  "restarts_ok xs ris \<Longrightarrow> xs \<noteq> [] \<Longrightarrow> e_shared e = 0 \<Longrightarrow> restarts_ok (xs @ [e]) (ris @ [length xs])"
  by (auto simp: restarts_ok_def nth_append sorted_wrt_append max_def Suc_le_eq split: if_splits)

lemma restart_offsets_append:
  "restarts_ok xs ris \<Longrightarrow> map (\<lambda>r. word_of_nat (offset (xs @ ys) r)) ris = map (\<lambda>r. word_of_nat (offset xs r)) ris"
  by (auto simp: restarts_ok_def offset_append max_def split: if_splits)

lemma prev_key_snoc [simp]: "prev_key (xs @ [e]) (Suc (length xs)) = e_key e"
  by (simp add: prev_key_def)

lemma shared_loop_shares:
  "shares k (shared_loop k key (min (length k) (length key)) 0, key, value)"
proof -
  define s where "s = shared_loop k key (min (length k) (length key)) 0"
  have "s \<le> min (length k) (length key) \<and> (\<forall>i < s. k ! i = key ! i)"
    unfolding s_def by (rule shared_loop_agrees) simp_all
  then have "s \<le> length k" "take s key = take s k"
    by (auto intro!: nth_equalityI)
  then show ?thesis by (simp add: shares_def s_def)
qed

lemma shares_rebuild: "shares k e \<Longrightarrow> resize (e_shared e) k @ drop (e_shared e) (e_key e) = e_key e"
proof -
  assume sh: "shares k e"
  then have "resize (e_shared e) k = take (e_shared e) (e_key e)"
    by (simp add: shares_def resize_def)
  then show ?thesis by simp
qed

text \<open>What \<open>Add\<close> appends, once its assertions hold and the number of shared bytes is known.\<close>

lemma Add_appends:
  assumes "\<not> finished b" "counter b \<le> block_restart_interval opts"
    and "buffer b = [] \<or> last_key b < key"
    and restart: "\<not> counter b < block_restart_interval opts \<Longrightarrow> s = 0"
    and share: "counter b < block_restart_interval opts \<Longrightarrow>
      s = shared_loop (last_key b) key (min (length (last_key b)) (length key)) 0"
    and sh: "shares (last_key b) (s, key, value)"
  shows "Add opts key value b =
    Inr \<lparr>buffer = buffer b @ encode_entry (s, key, value),
         restarts = (if counter b < block_restart_interval opts then restarts b
                     else restarts b @ [word_of_nat (length (buffer b))]),
         counter = (if counter b < block_restart_interval opts then counter b + 1 else 1),
         finished = False, last_key = key\<rparr>"
proof -
  have lk: "resize s (last_key b) @ drop s key = key"
    using shares_rebuild [OF sh] by simp
  have take: "take (length key - s) (drop s key) = drop s key" by simp
  show ?thesis
  proof (cases "counter b < block_restart_interval opts")
    case True
    with assms(1-3) lk share [OF True, symmetric] show ?thesis
      by (simp add: Add_def Let_def compare_sign take encode_entry_def PutVarint32_def)
  next
    case False
    with assms(1-3) lk restart [OF False] show ?thesis
      by (simp add: Add_def Let_def compare_sign take encode_entry_def PutVarint32_def)
  qed
qed

lemma Add_inv:
  assumes inv: "builder_inv opts xs ris b" and order: "xs = [] \<or> prev_key xs (length xs) < key"
  shows "\<exists>b' s ris'. Add opts key value b = Inr b' \<and> builder_inv opts (xs @ [(s, key, value)]) ris' b'"
proof -
  note inv' = inv [unfolded builder_inv_def]
  define s where "s = (if counter b < block_restart_interval opts then
    shared_loop (last_key b) key (min (length (last_key b)) (length key)) 0 else 0)"
  define e where "e = (s, key, value)"
  have sh: "shares (last_key b) e"
    using shared_loop_shares [of "last_key b" key "value"] by (simp add: s_def e_def shares_def)
  have add: "Add opts key value b =
    Inr \<lparr>buffer = buffer b @ encode_entry e,
         restarts = (if counter b < block_restart_interval opts then restarts b
                     else restarts b @ [word_of_nat (length (buffer b))]),
         counter = (if counter b < block_restart_interval opts then counter b + 1 else 1),
         finished = False, last_key = key\<rparr>" (is "_ = Inr ?b'")
    unfolding e_def using inv' order sh by (intro Add_appends) (auto simp: s_def e_def)
  have entries: "entries_ok (xs @ [e])"
    using inv' sh by (intro entries_ok_snoc) simp_all
  show ?thesis
  proof (cases "counter b < block_restart_interval opts")
    case True
    have "e_shared e = 0" if "xs = []"
    proof -
      have "last_key b = []" using inv' that by (simp add: prev_key_def)
      with sh show ?thesis by (simp add: shares_def)
    qed
    then have "restarts_ok (xs @ [e]) ris"
      using inv' restarts_ok_snoc [of xs ris e] restarts_ok_first [of e] by (cases "xs = []") simp_all
    with True inv' entries have "builder_inv opts (xs @ [e]) ris ?b'"
      by (simp add: builder_inv_def restart_offsets_append prev_key_def e_def)
    with add show ?thesis unfolding e_def by blast
  next
    case False
    with inv' have xs: "xs \<noteq> []" by auto
    have "e_shared e = 0" using False by (simp add: e_def s_def)
    with xs inv' have "restarts_ok (xs @ [e]) (ris @ [length xs])"
      by (intro restarts_ok_new) simp_all
    with False inv' entries have "builder_inv opts (xs @ [e]) (ris @ [length xs]) ?b'"
      by (simp add: builder_inv_def restart_offsets_append prev_key_def e_def offset_append offset_all)
    with add show ?thesis unfolding e_def by blast
  qed
qed

text \<open>Keys in order, after the key \<open>k\<close> if there is one.\<close>

fun keys_after :: "byte list option \<Rightarrow> (byte list \<times> byte list) list \<Rightarrow> bool" where
  "keys_after k [] = True"
| "keys_after k ((key, value) # es) =
     ((case k of None \<Rightarrow> True | Some k \<Rightarrow> k < key) \<and> keys_after (Some key) es)"

lemma keys_after_sorted: "keys_after k es \<Longrightarrow> sorted_wrt (<) (map fst es)"
proof -
  have "keys_after k es \<Longrightarrow> sorted_wrt (<) (map fst es) \<and> (\<forall>k' \<in> set (map fst es). \<forall>l. k = Some l \<longrightarrow> l < k')" for k
    by (induction k es rule: keys_after.induct) (auto split: option.splits)
  then show "keys_after k es \<Longrightarrow> sorted_wrt (<) (map fst es)" by blast
qed

lemma sorted_keys_after: "sorted_wrt (<) (map fst es) \<Longrightarrow> keys_after None es"
proof -
  have "sorted_wrt (<) (map fst es) \<Longrightarrow> (\<And>l. k = Some l \<Longrightarrow> \<forall>e \<in> set es. l < fst e) \<Longrightarrow> keys_after k es" for k
    by (induction k es rule: keys_after.induct) (auto split: option.splits)
  from this [of None] show "sorted_wrt (<) (map fst es) \<Longrightarrow> keys_after None es" by simp
qed

lemma add_all_inv:
  "builder_inv opts xs ris b \<Longrightarrow> keys_after (if xs = [] then None else Some (prev_key xs (length xs))) es \<Longrightarrow>
    \<exists>b' xs' ris'. add_all opts es b = Inr b' \<and> builder_inv opts (xs @ xs') ris' b' \<and> entries_of xs' = es"
proof (induction es arbitrary: xs ris b)
  case Nil
  then show ?case by (intro exI [of _ b] exI [of _ "[]"] exI [of _ ris]) (simp add: entries_of_def)
next
  case (Cons e es)
  obtain key v where e: "e = (key, v)" by (cases e)
  with Cons.prems(2) have "xs = [] \<or> prev_key xs (length xs) < key" by (auto split: if_splits)
  from Add_inv [OF Cons.prems(1) this, of v] obtain b1 s ris1
    where b1: "Add opts key v b = Inr b1" "builder_inv opts (xs @ [(s, key, v)]) ris1 b1" by blast
  from Cons.prems(2) e have "keys_after (Some key) es" by (auto split: if_splits)
  with Cons.IH [OF b1(2)] obtain b' xs' ris' where
    "add_all opts es b1 = Inr b'" "builder_inv opts ((xs @ [(s, key, v)]) @ xs') ris' b'" "entries_of xs' = es"
    by auto
  with b1(1) e show ?case
    by (intro exI [of _ b'] exI [of _ "(s, key, v) # xs'"] exI [of _ ris']) (simp add: entries_of_def)
qed

lemma put_restarts_eq: "put_restarts le rs buf = buf @ concat (map (EncodeFixed32 le) rs)"
  by (induction rs arbitrary: buf) (simp_all add: PutFixed32_def)

lemma Finish_image: "builder_inv opts xs ris b \<Longrightarrow> fst (Finish le b) = block_image le xs ris"
  by (simp add: builder_inv_def Finish_def Let_def put_restarts_eq PutFixed32_def block_image_def restart_array_def
      comp_def)

lemma concat_length: "(\<And>x. x \<in> set xs \<Longrightarrow> length (f x) = n) \<Longrightarrow> length (concat (map f xs)) = length xs * n"
  by (induction xs) auto

lemma length_EncodeFixed32: "length (EncodeFixed32 le v) = 4"
  by (simp add: EncodeFixed32_def value_bytes_def)

lemma length_image: "length (block_image le xs ris) = length (body xs) + 4 * length ris + 4"
  by (simp add: block_image_def restart_array_def concat_length [where n = 4] length_EncodeFixed32)

lemma CurrentSizeEstimate_exact:
  "builder_inv opts xs ris b \<Longrightarrow> CurrentSizeEstimate b = length (fst (Finish le b))"
  unfolding Finish_image length_image by (simp add: builder_inv_def CurrentSizeEstimate_def)

end
