(* ===== verification/Block_Correct.thy ===== *)
theory Block_Correct
  imports Block_Layout
begin

text \<open>
  The iterator on the image of a list of entries: it decodes every entry it stands before,
  so that it goes through the entries from the first to the last, and a search stops at
  the first key that is not smaller than the target.
\<close>

section \<open>Decoding an entry\<close>

lemma varint_bytes_first: "\<exists>b bs. varint_bytes n = b # bs \<and> (b AND 128 = 0 \<longrightarrow> n < 128)"
proof (cases "n < 128")
  case True
  then show ?thesis by (simp add: varint_bytes_small)
next
  case False
  then show ?thesis
    using continuation_bits(1) [where 'a = 8, of n]
    by (intro exI [of _ "word_of_nat (n mod 128 + 128)"] exI [of _ "varint_bytes (n div 128)"])
      (simp only: varint_bytes_large not_less simp_thms, simp)
qed

lemma less_128: "(w :: 32 word) < 128 \<longleftrightarrow> drop_bit 7 w = 0"
proof -
  have "w < 128 \<longleftrightarrow> unat w < 128" by (simp add: word_less_nat_alt)
  also have "\<dots> \<longleftrightarrow> unat (drop_bit 7 w) = 0" by (simp add: unat_drop_7 div_eq_0_iff)
  finally show ?thesis by (simp add: unat_eq_zero)
qed

lemma or_less_128: "(a OR b OR c :: 32 word) < 128 \<longleftrightarrow> a < 128 \<and> b < 128 \<and> c < 128"
  unfolding less_128 drop_bit_or or_eq_0_iff ..

lemma unat_ucast_byte: "unat (ucast (b :: byte) :: 32 word) = unat b"
proof -
  have "unat b < 256" using unsigned_less [of b] by simp
  then show ?thesis by (simp add: unsigned_ucast_eq take_bit_nat_eq_self)
qed

lemma ucast_ucast_small: "unat w < 128 \<Longrightarrow> (ucast (ucast w :: byte) :: 32 word) = w"
proof -
  assume "unat w < 128"
  then have "(ucast w :: byte) = word_of_nat (unat w)" "(ucast (word_of_nat (unat w) :: byte) :: 32 word) = word_of_nat (unat w)"
    by (simp, intro final_bits(2)) simp_all
  then show ?thesis by simp
qed

lemma byte_less_128: "(ucast b :: 32 word) < 128 \<longleftrightarrow> b AND 128 = 0" for b :: byte
proof
  assume "(ucast b :: 32 word) < 128"
  then have "unat b < 128" by (simp add: word_less_nat_alt unat_ucast_byte)
  from final_bits(1) [where 'a = 8, OF this] show "b AND 128 = 0" by simp
next
  assume zero: "b AND 128 = 0"
  have "\<not> bit b 7"
    using arg_cong [OF zero, of "\<lambda>w. bit w 7"] by (simp add: bit_and_iff possible_bit_def)
  then have "\<not> bit b k" if "7 \<le> k" for k
    using that bit_imp_le_length [of b k] by (cases "k = 7") auto
  then have "drop_bit 7 (ucast b :: 32 word) = 0"
    by (intro bit_eqI) (simp add: bit_drop_bit_eq bit_ucast_iff)
  then show "(ucast b :: 32 word) < 128" by (simp add: less_128)
qed

lemma decode_lengths_encoded:
  "decode_lengths (EncodeVarint32 a @ EncodeVarint32 b @ EncodeVarint32 c @ rest) = Some (rest, a, b, c)"
  (is "decode_lengths ?p = _")
proof (cases "(ucast (?p ! 0) OR ucast (?p ! 1) OR ucast (?p ! 2) :: 32 word) < 128")
  case True
  obtain a0 as where a: "EncodeVarint32 a = a0 # as" "a0 AND 128 = 0 \<longrightarrow> unat a < 128"
    unfolding EncodeVarint32_eq using varint_bytes_first by blast
  obtain b0 bs where b: "EncodeVarint32 b = b0 # bs" "b0 AND 128 = 0 \<longrightarrow> unat b < 128"
    unfolding EncodeVarint32_eq using varint_bytes_first by blast
  obtain c0 cs where c: "EncodeVarint32 c = c0 # cs" "c0 AND 128 = 0 \<longrightarrow> unat c < 128"
    unfolding EncodeVarint32_eq using varint_bytes_first by blast
  have "ucast a0 < (128 :: 32 word)" using True a(1) by (simp add: or_less_128)
  then have a': "unat a < 128" using a(2) by (simp add: byte_less_128)
  then have a_eq: "EncodeVarint32 a = [ucast a]" by (simp add: EncodeVarint32_eq varint_bytes_small)
  have "ucast b0 < (128 :: 32 word)" using True a_eq b(1) by (simp add: or_less_128)
  then have b': "unat b < 128" using b(2) by (simp add: byte_less_128)
  then have b_eq: "EncodeVarint32 b = [ucast b]" by (simp add: EncodeVarint32_eq varint_bytes_small)
  have "ucast c0 < (128 :: 32 word)" using True a_eq b_eq c(1) by (simp add: or_less_128)
  then have c': "unat c < 128" using c(2) by (simp add: byte_less_128)
  then have c_eq: "EncodeVarint32 c = [ucast c]" by (simp add: EncodeVarint32_eq varint_bytes_small)
  show ?thesis
    using True unfolding a_eq b_eq c_eq by (simp add: decode_lengths_def ucast_ucast_small a' b' c')
next
  case False
  then show ?thesis
    unfolding decode_lengths_def Let_def
    by (simp only: if_False varint32.get_put [unfolded GetVarint32_def] option.case prod.case)
qed

section \<open>The iterator on an image\<close>

definition image_ok :: "bool \<Rightarrow> entry list \<Rightarrow> nat list \<Rightarrow> bool" where
  "image_ok le xs ris \<longleftrightarrow> entries_ok xs \<and> restarts_ok xs ris \<and> length (block_image le xs ris) < 2 ^ 32"

definition on_image :: "bool \<Rightarrow> entry list \<Rightarrow> nat list \<Rightarrow> block_iter \<Rightarrow> bool" where
  "on_image le xs ris it \<longleftrightarrow> it_data it = block_image le xs ris \<and>
     it_restarts it = word_of_nat (length (body xs)) \<and> it_num_restarts it = word_of_nat (length ris)"

text \<open>The iterator is about to parse entry \<open>i\<close>; it stands at entry \<open>i\<close>.\<close>

definition before :: "entry list \<Rightarrow> nat \<Rightarrow> block_iter \<Rightarrow> bool" where
  "before xs i it \<longleftrightarrow> (\<exists>off n. it_value it = Some (off, n) \<and> off + n = offset xs i) \<and>
     (i < length xs \<longrightarrow> shares (it_key it) (xs ! i))"

definition at_entry :: "entry list \<Rightarrow> nat \<Rightarrow> block_iter \<Rightarrow> bool" where
  "at_entry xs i it \<longleftrightarrow> i < length xs \<and> it_current it = word_of_nat (offset xs i) \<and>
     it_key it = e_key (xs ! i) \<and>
     it_value it = Some (offset xs (Suc i) - length (e_value (xs ! i)), length (e_value (xs ! i)))"

lemma unat_small: "n < 2 ^ 32 \<Longrightarrow> unat (word_of_nat n :: 32 word) = n"
  by (simp add: unat_of_nat)

lemma image_sizes:
  assumes "image_ok le xs ris"
  shows "length (body xs) < 2 ^ 32" "length ris < 2 ^ 30" "offset xs i < 2 ^ 32"
  using assms offset_le [of xs i] by (simp_all add: image_ok_def length_image)

lemma restart_offset_le: "image_ok le xs ris \<Longrightarrow> length (body xs) \<le> length (block_image le xs ris)"
  by (simp add: length_image)

lemma drop_concat:
  "(\<And>x. x \<in> set xs \<Longrightarrow> length (f x) = n) \<Longrightarrow> j \<le> length xs \<Longrightarrow>
    drop (j * n) (concat (map f xs)) = concat (map f (drop j xs))"
proof (induction xs arbitrary: j)
  case (Cons x xs)
  then show ?case by (cases j) auto
qed simp

lemma GetRestartPoint_image:
  assumes "image_ok le xs ris" "on_image le xs ris it" "j < length ris"
  shows "GetRestartPoint le it (word_of_nat j) = Inr (word_of_nat (offset xs (ris ! j)))"
proof -
  note sizes = image_sizes [OF assms(1)]
  have j: "unat (word_of_nat j :: 32 word) = j" "word_of_nat j < (word_of_nat (length ris) :: 32 word)"
    using assms(3) sizes(2) by (simp_all add: unat_small word_less_nat_alt)
  have "drop (length (body xs) + j * 4) (block_image le xs ris) =
      EncodeFixed32 le (word_of_nat (offset xs (ris ! j))) @
      concat (map (\<lambda>r. EncodeFixed32 le (word_of_nat (offset xs r))) (drop (Suc j) ris)) @
      EncodeFixed32 le (word_of_nat (length ris))"
  proof -
    define f where "f = (\<lambda>r. EncodeFixed32 le (word_of_nat (offset xs r)))"
    have f: "length (f r) = 4" for r by (simp only: f_def length_EncodeFixed32)
    have "drop (j * 4) (concat (map f ris)) = concat (map f (drop j ris))"
      using f assms(3) by (intro drop_concat) simp_all
    also have "\<dots> = f (ris ! j) @ concat (map f (drop (Suc j) ris))"
      using assms(3) by (simp add: Cons_nth_drop_Suc [symmetric])
    finally have "drop (j * 4) (concat (map f ris)) = f (ris ! j) @ concat (map f (drop (Suc j) ris))" .
    moreover have "j * 4 \<le> length (concat (map f ris))"
      using assms(3) f by (subst concat_length [where n = 4]) simp_all
    ultimately have "drop (length (body xs) + j * 4) (block_image le xs ris) =
        f (ris ! j) @ concat (map f (drop (Suc j) ris)) @ EncodeFixed32 le (word_of_nat (length ris))"
      by (simp add: block_image_def restart_array_def f_def [symmetric] del: EncodeFixed_eq)
    then show ?thesis by (simp only: f_def)
  qed
  then show ?thesis
    using assms(2) j sizes by (simp add: GetRestartPoint_def on_image_def unat_small fixed32_at_def
        EncodeFixed_eq DecodeFixed_encoded del: drop_drop)
qed

lemma DecodeEntry_image:
  assumes "image_ok le xs ris" "i < length xs"
  defines "e \<equiv> xs ! i"
  defines "q \<equiv> offset xs (Suc i) - length (e_value e) - (length (e_key e) - e_shared e)"
  shows "DecodeEntry (block_image le xs ris) (offset xs i) (length (body xs)) =
      Inr (Some (q, word_of_nat (e_shared e), word_of_nat (length (e_key e) - e_shared e),
        word_of_nat (length (e_value e))))"
    and "take (length (e_key e) - e_shared e) (drop q (block_image le xs ris)) = drop (e_shared e) (e_key e)"
    and "offset xs (Suc i) = q + (length (e_key e) - e_shared e) + length (e_value e)"
    and "take (length (e_value e)) (drop (q + (length (e_key e) - e_shared e)) (block_image le xs ris)) = e_value e"
proof -
  define tail where "tail = body (drop (Suc i) xs)"
  have sh: "e_shared e \<le> length (e_key e)"
    using assms(1,2) shares_length [of "prev_key xs i" "xs ! i"]
    by (simp add: image_ok_def entries_ok_def e_def)
  have seg: "drop (offset xs i) (body xs) = encode_entry e @ tail"
    unfolding tail_def e_def by (rule body_split [OF assms(2)])
  have next_off: "offset xs (Suc i) = offset xs i + length (encode_entry e)"
    unfolding e_def by (rule offset_Suc [OF assms(2)])
  have len: "length (body xs) = offset xs (Suc i) + length tail"
    using arg_cong [OF seg, of length] next_off offset_le [of xs i] by simp
  define bs where "bs = drop (e_shared e) (e_key e) @ e_value e @ tail"
  have bs: "length bs = (length (e_key e) - e_shared e) + length (e_value e) + length tail"
    by (simp add: bs_def)
  have part: "(length (e_key e) - e_shared e) + length (e_value e) \<le> length (encode_entry e)"
    by (simp add: encode_entry_def)
  then have q: "q = length (body xs) - length bs"
    unfolding q_def len bs next_off by simp
  show off: "offset xs (Suc i) = q + (length (e_key e) - e_shared e) + length (e_value e)"
    using part unfolding q_def next_off by simp
  have code: "encode_entry e @ tail =
      EncodeVarint32 (word_of_nat (e_shared e)) @
      EncodeVarint32 (word_of_nat (length (e_key e) - e_shared e)) @
      EncodeVarint32 (word_of_nat (length (e_value e))) @ bs"
    by (simp add: encode_entry_def bs_def)
  have at_q: "drop q (block_image le xs ris) = bs @ restart_array le xs ris"
  proof -
    have "drop q (body xs) = drop (length (encode_entry e @ tail) - length bs) (drop (offset xs i) (body xs))"
      unfolding seg drop_drop q [symmetric] using part off next_off len bs
      by (simp add: drop_drop seg [symmetric])
    also have "\<dots> = bs" unfolding seg code by simp
    finally show ?thesis using len off by (simp add: block_image_def)
  qed
  show "take (length (e_key e) - e_shared e) (drop q (block_image le xs ris)) = drop (e_shared e) (e_key e)"
    unfolding at_q bs_def by simp
  show "take (length (e_value e)) (drop (q + (length (e_key e) - e_shared e)) (block_image le xs ris)) = e_value e"
    unfolding add.commute [of q] drop_drop [symmetric] at_q bs_def by simp
  have "take (length (body xs)) (block_image le xs ris) = body xs" by (simp add: block_image_def)
  then have seg': "drop (offset xs i) (take (length (body xs)) (block_image le xs ris)) =
      EncodeVarint32 (word_of_nat (e_shared e)) @
      EncodeVarint32 (word_of_nat (length (e_key e) - e_shared e)) @
      EncodeVarint32 (word_of_nat (length (e_value e))) @ bs"
    unfolding code [symmetric] seg [symmetric] by simp
  have small: "length bs < 2 ^ 32"
    using image_sizes(1) [OF assms(1)] len bs off by simp
  have "\<not> word_of_nat (length bs) <
      (word_of_nat (length (e_key e) - e_shared e) + word_of_nat (length (e_value e)) :: 32 word)"
    using small bs by (simp add: word_less_nat_alt unat_of_nat flip: of_nat_add)
  moreover have "int (length (body xs)) - int (offset xs i) \<ge> 3"
    using offset_less [OF assms(2)] by simp
  ultimately show "DecodeEntry (block_image le xs ris) (offset xs i) (length (body xs)) =
      Inr (Some (q, word_of_nat (e_shared e), word_of_nat (length (e_key e) - e_shared e),
        word_of_nat (length (e_value e))))"
    unfolding DecodeEntry_def seg' decode_lengths_encoded
    using restart_offset_le [OF assms(1)] by (simp add: q)
qed

section \<open>Parsing\<close>

lemma key_length: "entries_ok xs \<Longrightarrow> i < length xs \<Longrightarrow> length (e_key (xs ! i)) \<le> offset xs (Suc i)"
proof (induction i)
  case 0
  then have "e_shared (xs ! 0) = 0" by (auto simp: entries_ok_def prev_key_def shares_def)
  then show ?case using 0 by (simp add: offset_Suc encode_entry_def)
next
  case (Suc i)
  then have "shares (e_key (xs ! i)) (xs ! Suc i)" by (auto simp: entries_ok_def prev_key_def)
  then have "e_shared (xs ! Suc i) \<le> length (e_key (xs ! i))" by (simp add: shares_def)
  also have "\<dots> \<le> offset xs (Suc i)" using Suc by simp
  finally show ?case
    using Suc.prems(2) by (simp add: offset_Suc [of "Suc i"] encode_entry_def)
qed

lemma advance_restart_total:
  "image_ok le xs ris \<Longrightarrow> on_image le xs ris it \<Longrightarrow> \<exists>r. advance_restart le i it = Inr r"
proof (induction le i it rule: advance_restart.induct)
  case (1 le i it)
  show ?case
  proof (cases "i + 1 < it_num_restarts it")
    case True
    define j where "j = unat (i + 1)"
    have j: "i + 1 = word_of_nat j" by (simp add: j_def)
    have "j < length ris"
      using True "1.prems" image_sizes(2) [OF "1.prems"(1)]
      by (simp add: j_def on_image_def word_less_nat_alt unat_small)
    from GetRestartPoint_image [OF "1.prems" this]
    have point: "GetRestartPoint le it (i + 1) = Inr (word_of_nat (offset xs (ris ! j)))"
      unfolding j .
    show ?thesis
    proof (cases "word_of_nat (offset xs (ris ! j)) < it_current it")
      case less: True
      from "1.IH" [OF True point less "1.prems"] True point less show ?thesis
        by (subst advance_restart.simps) simp
    next
      case False
      with True point show ?thesis by (subst advance_restart.simps) simp
    qed
  next
    case False
    then have "advance_restart le i it = Inr i" by (subst advance_restart.simps) simp
    then show ?thesis by simp
  qed
qed

lemma on_image_update:
  "on_image le xs ris (it\<lparr>it_current := c\<rparr>) = on_image le xs ris it"
  "on_image le xs ris (it\<lparr>it_key := k\<rparr>) = on_image le xs ris it"
  "on_image le xs ris (it\<lparr>it_value := v\<rparr>) = on_image le xs ris it"
  "on_image le xs ris (it\<lparr>it_restart_index := r\<rparr>) = on_image le xs ris it"
  by (simp_all add: on_image_def)

lemma at_entry_before:
  assumes "image_ok le xs ris" "at_entry xs i it"
  shows "before xs (Suc i) it"
proof -
  have i: "i < length xs" using assms(2) by (simp add: at_entry_def)
  have "length (e_value (xs ! i)) \<le> offset xs (Suc i)"
    using DecodeEntry_image(3) [OF assms(1) i] by simp
  moreover have "shares (e_key (xs ! i)) (xs ! Suc i)" if "Suc i < length xs"
    using assms(1) that by (auto simp: image_ok_def entries_ok_def prev_key_def)
  ultimately show ?thesis using assms(2) by (simp add: before_def at_entry_def)
qed

lemma ParseNextKey_entry:
  assumes ok: "image_ok le xs ris" and on: "on_image le xs ris it" and "before xs i it" "i < length xs"
  shows "\<exists>it'. ParseNextKey le it = Inr (True, it') \<and> on_image le xs ris it' \<and> at_entry xs i it' \<and>
    it_status it' = it_status it"
proof -
  define e where "e = xs ! i"
  define q where "q = offset xs (Suc i) - length (e_value e) - (length (e_key e) - e_shared e)"
  note sizes = image_sizes [OF ok]
  note entry = DecodeEntry_image [OF ok assms(4), folded e_def, folded q_def]
  from assms(3,4) obtain off n where "value": "it_value it = Some (off, n)" "off + n = offset xs i"
    and sh: "shares (it_key it) e"
    by (auto simp: before_def e_def)
  have keys: "length (e_key e) \<le> offset xs (Suc i)" "e_shared e \<le> length (e_key e)"
    using key_length [of xs i] ok assms(4) shares_length [OF sh] by (simp_all add: image_ok_def e_def)
  have small: "e_shared e < 2 ^ 32" "length (e_key e) - e_shared e < 2 ^ 32" "length (e_value e) < 2 ^ 32"
    using keys entry(3) sizes(3) [of "Suc i"] by simp_all
  note words = small [THEN unat_small] sizes(3) [THEN unat_small] sizes(1) [THEN unat_small]
  define it1 where "it1 = it\<lparr>it_current := word_of_nat (offset xs i), it_key := e_key e,
    it_value := Some (q + (length (e_key e) - e_shared e), length (e_value e))\<rparr>"
  have on1: "on_image le xs ris it1" using on by (simp add: it1_def on_image_update)
  from advance_restart_total [OF ok this] obtain r
    where r: "advance_restart le (it_restart_index it) it1 = Inr r" by blast
  have key: "resize (e_shared e) (it_key it) @ drop (e_shared e) (e_key e) = e_key e"
    by (rule shares_rebuild [OF sh])
  have "offset xs i < length (body xs)" using offset_less [OF assms(4)] by simp
  moreover have "q + (length (e_key e) - e_shared e) \<le> length (block_image le xs ris)"
    using entry(3) offset_le [of xs "Suc i"] by (simp add: length_image)
  moreover have "e_shared e \<le> length (it_key it)" using sh by (simp add: shares_def)
  moreover have "it_data it = block_image le xs ris" "it_restarts it = word_of_nat (length (body xs))"
    using on by (simp_all add: on_image_def)
  moreover have "NextEntryOffset it = Inr (word_of_nat (offset xs i))"
    by (simp add: NextEntryOffset_def "value" flip: of_nat_add)
  ultimately have "ParseNextKey le it = Inr (True, it1\<lparr>it_restart_index := r\<rparr>)"
    using r unfolding it1_def
    by (simp add: ParseNextKey_def Let_def words entry(1,2) key not_less)
  moreover have "at_entry xs i (it1\<lparr>it_restart_index := r\<rparr>)"
    using assms(4) entry(3) by (simp add: at_entry_def it1_def e_def)
  moreover have "it_status (it1\<lparr>it_restart_index := r\<rparr>) = it_status it" by (simp add: it1_def)
  ultimately show ?thesis using on1 by (metis on_image_update(4))
qed

lemma ParseNextKey_end:
  assumes ok: "image_ok le xs ris" and on: "on_image le xs ris it" and "before xs (length xs) it"
  shows "\<exists>it'. ParseNextKey le it = Inr (False, it') \<and> on_image le xs ris it' \<and> \<not> Valid it' \<and>
    it_status it' = it_status it"
proof -
  note sizes = image_sizes [OF ok]
  from assms(3) have "NextEntryOffset it = Inr (word_of_nat (offset xs (length xs)))"
    by (auto simp: before_def NextEntryOffset_def simp flip: of_nat_add)
  then have "ParseNextKey le it = Inr (False, it\<lparr>it_current := it_restarts it,
      it_restart_index := it_num_restarts it\<rparr>)"
    using on sizes by (simp add: ParseNextKey_def Let_def offset_all unat_small on_image_def)
  then show ?thesis using on by (simp add: on_image_def Valid_def)
qed

lemma at_entry_Valid:
  assumes "image_ok le xs ris" "on_image le xs ris it" "at_entry xs i it"
  shows "Valid it" "iter_key it = Inr (e_key (xs ! i))" "iter_value it = Inr (e_value (xs ! i))"
proof -
  have i: "i < length xs" using assms(3) by (simp add: at_entry_def)
  note entry = DecodeEntry_image [OF assms(1) i]
  have "offset xs i < length (body xs)" using offset_less [OF i] by simp
  then show valid: "Valid it"
    using assms(2,3) image_sizes(1,3) [OF assms(1)]
    by (simp add: Valid_def on_image_def at_entry_def word_less_nat_alt unat_small)
  then show "iter_key it = Inr (e_key (xs ! i))"
    using assms(3) by (simp add: iter_key_def at_entry_def)
  have "offset xs (Suc i) \<le> length (block_image le xs ris)"
    using offset_le [of xs "Suc i"] by (simp add: length_image)
  then show "iter_value it = Inr (e_value (xs ! i))"
    using valid assms(2,3) entry(3,4) by (simp add: iter_value_def at_entry_def on_image_def)
qed

section \<open>Iteration\<close>

text \<open>
  Where an iterator stands on the image of entries: at entry \<open>i\<close>, or past the last one.
\<close>

definition stands :: "bool \<Rightarrow> entry list \<Rightarrow> nat list \<Rightarrow> nat \<Rightarrow> block_iter \<Rightarrow> bool" where
  "stands le xs ris i it \<longleftrightarrow> on_image le xs ris it \<and> it_status it = OK_status \<and>
     (if i < length xs then at_entry xs i it else i = length xs \<and> \<not> Valid it)"

lemma ParseNextKey_stands:
  assumes "image_ok le xs ris" "on_image le xs ris it" "before xs i it" "i \<le> length xs"
    and "it_status it = OK_status"
  shows "\<exists>it'. ParseNextKey le it = Inr (i < length xs, it') \<and> stands le xs ris i it'"
proof (cases "i < length xs")
  case True
  with ParseNextKey_entry [OF assms(1-3)] assms(5) show ?thesis by (auto simp: stands_def)
next
  case False
  with assms(4) have "i = length xs" by simp
  with ParseNextKey_end [OF assms(1,2)] assms(3,5) show ?thesis by (auto simp: stands_def)
qed

lemma SeekToRestartPoint_image:
  assumes "image_ok le xs ris" "on_image le xs ris it" "j < length ris"
  shows "\<exists>it'. SeekToRestartPoint le (word_of_nat j) it = Inr it' \<and> on_image le xs ris it' \<and>
    before xs (ris ! j) it' \<and> it_status it' = it_status it"
proof -
  have "ris ! j \<in> set ris" using assms(3) by simp
  then have "e_shared (xs ! (ris ! j)) = 0" if "ris ! j < length xs"
    using assms(1) that by (simp add: image_ok_def restarts_ok_def)
  then have "before xs (ris ! j) (it\<lparr>it_key := [], it_restart_index := word_of_nat j,
      it_value := Some (offset xs (ris ! j), 0)\<rparr>)"
    by (simp add: before_def shares_def)
  then show ?thesis
    using GetRestartPoint_image [OF assms] assms(2) image_sizes(3) [OF assms(1)]
    by (simp add: SeekToRestartPoint_def on_image_update unat_small)
qed

lemma restart_first: "image_ok le xs ris \<Longrightarrow> 0 < length ris \<and> ris ! 0 = 0"
  by (cases ris) (simp_all add: image_ok_def restarts_ok_def)

lemma SeekToFirst_stands:
  assumes "image_ok le xs ris" "on_image le xs ris it" "it_status it = OK_status"
  shows "\<exists>it'. SeekToFirst le it = Inr it' \<and> stands le xs ris 0 it'"
proof -
  from SeekToRestartPoint_image [OF assms(1,2), of 0] restart_first [OF assms(1)] assms(3)
  obtain it1 where it1: "SeekToRestartPoint le 0 it = Inr it1" "on_image le xs ris it1"
    "before xs 0 it1" "it_status it1 = OK_status"
    by auto
  from ParseNextKey_stands [OF assms(1) it1(2,3) _ it1(4)] it1(1) show ?thesis
    by (auto simp: SeekToFirst_def)
qed

lemma Next_stands:
  assumes "image_ok le xs ris" "stands le xs ris i it" "i < length xs"
  shows "\<exists>it'. Next le it = Inr it' \<and> stands le xs ris (Suc i) it'"
proof -
  from assms(2,3) have on: "on_image le xs ris it" "at_entry xs i it" "it_status it = OK_status"
    by (simp_all add: stands_def)
  from ParseNextKey_stands [OF assms(1) on(1) at_entry_before [OF assms(1) on(2)] _ on(3)] assms(3)
  obtain it' where "ParseNextKey le it = Inr (Suc i < length xs, it')" "stands le xs ris (Suc i) it'" by auto
  then show ?thesis using at_entry_Valid(1) [OF assms(1) on(1,2)] by (simp add: Next_def)
qed

section \<open>Search\<close>

text \<open>The entry that a search is to find: the first whose key is not smaller than the target.\<close>

definition lower_bound :: "byte list \<Rightarrow> entry list \<Rightarrow> nat" where
  "lower_bound target xs = length (takeWhile (\<lambda>e. e_key e < target) xs)"

lemma lower_bound_eq:
  assumes "\<forall>k < i. e_key (xs ! k) < target" "i \<le> length xs" "i < length xs \<Longrightarrow> \<not> e_key (xs ! i) < target"
  shows "lower_bound target xs = i"
proof -
  have "takeWhile (\<lambda>e. e_key e < target) xs = take i xs"
    using assms(1,3) by (intro takeWhile_eq_take_P_nth) auto
  with assms(2) show ?thesis by (simp add: lower_bound_def)
qed

lemma seek_linear_stands:
  assumes "image_ok le xs ris" "i \<le> length xs"
  shows "on_image le xs ris it \<Longrightarrow> before xs i it \<Longrightarrow> it_status it = OK_status \<Longrightarrow>
    \<forall>k < i. e_key (xs ! k) < target \<Longrightarrow>
    \<exists>it'. seek_linear le target it = Inr it' \<and> stands le xs ris (lower_bound target xs) it'"
  using assms(2)
proof (induction "length xs - i" arbitrary: i it)
  case (0 i it)
  then have i: "i = length xs" by simp
  from ParseNextKey_stands [OF assms(1) "0.prems"(1,2) _ "0.prems"(3)] i
  obtain it' where it': "ParseNextKey le it = Inr (False, it')" "stands le xs ris i it'" by auto
  moreover have "lower_bound target xs = i"
    using "0.prems"(4) i by (intro lower_bound_eq) simp_all
  ultimately show ?case by (subst seek_linear.simps) simp
next
  case (Suc m i it)
  then have i: "i < length xs" by simp
  from ParseNextKey_stands [OF assms(1) Suc.prems(1,2) _ Suc.prems(3)] i
  obtain it' where it': "ParseNextKey le it = Inr (True, it')" "stands le xs ris i it'" by auto
  then have on: "on_image le xs ris it'" "at_entry xs i it'" "it_status it' = OK_status"
    using i by (simp_all add: stands_def)
  then have key: "it_key it' = e_key (xs ! i)" by (simp add: at_entry_def)
  show ?case
  proof (cases "e_key (xs ! i) < target")
    case True
    then have "\<forall>k < Suc i. e_key (xs ! k) < target"
      using Suc.prems(4) by (simp add: less_Suc_eq)
    moreover have "m = length xs - Suc i" using Suc.hyps(2) by simp
    ultimately have "\<exists>it''. seek_linear le target it' = Inr it'' \<and>
        stands le xs ris (lower_bound target xs) it''"
      using Suc.hyps(1) [OF _ on(1) at_entry_before [OF assms(1) on(2)] on(3)] i by simp
    moreover have "\<not> target \<le> e_key (xs ! i)" using True by simp
    ultimately show ?thesis
      using it'(1) key by (subst seek_linear.simps) (simp add: compare_nonneg)
  next
    case False
    then have "lower_bound target xs = i"
      using Suc.prems(4) i by (intro lower_bound_eq) simp_all
    then show ?thesis
      using it' key False by (subst seek_linear.simps) (simp add: compare_nonneg not_less)
  qed
qed

lemma restart_entry:
  assumes "image_ok le xs ris" "j < length ris" "0 < j"
  shows "ris ! j < length xs" "e_shared (xs ! (ris ! j)) = 0"
proof -
  have "ris ! 0 < ris ! j"
    using assms by (intro sorted_wrt_nth_less) (simp_all add: image_ok_def restarts_ok_def)
  moreover have "ris ! j < max 1 (length xs)" "ris ! j \<in> set ris"
    using assms by (simp_all add: image_ok_def restarts_ok_def)
  ultimately show "ris ! j < length xs" by (simp add: max_def split: if_splits)
  with \<open>ris ! j \<in> set ris\<close> show "e_shared (xs ! (ris ! j)) = 0"
    using assms(1) by (simp add: image_ok_def restarts_ok_def)
qed

lemma word_half: "n < 2 ^ 32 \<Longrightarrow> (word_of_nat n :: 32 word) div 2 = word_of_nat (n div 2)"
proof -
  assume "n < 2 ^ 32"
  then have "unat ((word_of_nat n :: 32 word) div 2) = n div 2"
    by (simp add: unat_div unat_small)
  with \<open>n < 2 ^ 32\<close> show ?thesis by (simp add: word_unat_eq_iff unat_small)
qed

lemma seek_restart_finds:
  assumes ok: "image_ok le xs ris" and on: "on_image le xs ris it"
  shows "left \<le> right \<Longrightarrow> right < length ris \<Longrightarrow>
    left = 0 \<or> e_key (xs ! (ris ! left)) < target \<Longrightarrow>
    \<exists>j < length ris. seek_restart le target it (word_of_nat left) (word_of_nat right) =
        Some (Inr (Some (word_of_nat j))) \<and> (j = 0 \<or> e_key (xs ! (ris ! j)) < target)"
proof (induction "right - left" arbitrary: left right rule: less_induct)
  case less
  note sizes = image_sizes [OF ok]
  have words: "(word_of_nat left < (word_of_nat right :: 32 word)) = (left < right)"
    using less.prems(1,2) sizes(2) by (simp add: word_less_nat_alt unat_small)
  show ?case
  proof (cases "left < right")
    case False
    with less.prems words show ?thesis
      by (intro exI [of _ left]) (simp add: seek_restart.simps)
  next
    case True
    define m where "m = (left + right + 1) div 2"
    have m: "left < m" "m \<le> right" "0 < m" using True by (simp_all add: m_def)
    have mid: "(word_of_nat left + word_of_nat right + 1) div 2 = (word_of_nat m :: 32 word)"
      using word_half [of "left + right + 1"] less.prems(2) True sizes(2) by (simp add: m_def add.commute)
    have "(word_of_nat m - 1 :: 32 word) = word_of_nat (m - 1)" using m(3) by (cases m) simp_all
    note words = words mid this
    have m': "m < length ris" using m(2) less.prems(2) by simp
    note point = GetRestartPoint_image [OF ok on m']
    note entry = restart_entry [OF ok m' m(3)]
    define e where "e = xs ! (ris ! m)"
    define q where "q = offset xs (Suc (ris ! m)) - length (e_value e) - length (e_key e)"
    have e: "e_shared e = 0" using entry(2) by (simp add: e_def)
    have decode: "DecodeEntry (block_image le xs ris) (offset xs (ris ! m)) (length (body xs)) =
        Inr (Some (q, 0, word_of_nat (length (e_key e)), word_of_nat (length (e_value e))))"
      "take (length (e_key e)) (drop q (block_image le xs ris)) = e_key e"
      "offset xs (Suc (ris ! m)) = q + length (e_key e) + length (e_value e)"
      using DecodeEntry_image [OF ok entry(1), folded e_def] e by (simp_all add: q_def)
    have "length (e_key e) < 2 ^ 32" using decode(3) sizes(3) [of "Suc (ris ! m)"] by simp
    note small = this [THEN unat_small] sizes(3) [THEN unat_small] sizes(1) [THEN unat_small]
    have inside: "\<not> length (block_image le xs ris) < q + length (e_key e)"
      using decode(3) offset_le [of xs "Suc (ris ! m)"] by (simp add: length_image)
    have step: "seek_restart le target it (word_of_nat left) (word_of_nat right) =
        (if e_key e < target then seek_restart le target it (word_of_nat m) (word_of_nat right)
         else seek_restart le target it (word_of_nat left) (word_of_nat (m - 1)))"
      using on True point unfolding on_image_def
      by (subst seek_restart.simps) (simp add: words Let_def small decode inside compare_sign)
    show ?thesis
    proof (cases "e_key e < target")
      case less': True
      then show ?thesis
        unfolding step using less.hyps [of right m] m m' less.prems by (simp add: e_def)
    next
      case False
      have "left \<le> m - 1" "m - 1 < length ris" "m - 1 - left < right - left" using m m' by simp_all
      with False less.hyps [of "m - 1" left] less.prems(3) show ?thesis unfolding step by simp
    qed
  qed
qed

lemma Seek_stands:
  assumes ok: "image_ok le xs ris" and on: "on_image le xs ris it" and "it_status it = OK_status"
    and sorted: "sorted_wrt (<) (map e_key xs)"
  shows "\<exists>it'. Seek le target it = Some (Inr it') \<and> stands le xs ris (lower_bound target xs) it'"
proof -
  have len: "0 < length ris" using restart_first [OF ok] by simp
  have last: "it_num_restarts it - 1 = word_of_nat (length ris - 1)"
    using on len by (cases ris) (simp_all add: on_image_def)
  obtain j where j: "j < length ris" "j = 0 \<or> e_key (xs ! (ris ! j)) < target"
    and search: "seek_restart le target it 0 (word_of_nat (length ris - 1)) = Some (Inr (Some (word_of_nat j)))"
    using seek_restart_finds [OF ok on, of 0 "length ris - 1"] len by auto
  from SeekToRestartPoint_image [OF ok on j(1)] assms(3) obtain it1
    where it1: "SeekToRestartPoint le (word_of_nat j) it = Inr it1" "on_image le xs ris it1"
      "before xs (ris ! j) it1" "it_status it1 = OK_status"
    by auto
  have bound: "ris ! j \<le> length xs"
    using restart_entry(1) [OF ok j(1)] restart_first [OF ok] by (cases "j = 0") simp_all
  have "e_key (xs ! k) < target" if "k < ris ! j" for k
  proof -
    have pos: "0 < j" using that restart_first [OF ok] by (cases j) simp_all
    then have lt: "ris ! j < length xs" by (rule restart_entry(1) [OF ok j(1)])
    have "map e_key xs ! k < map e_key xs ! (ris ! j)"
      using sorted that lt by (intro sorted_wrt_nth_less) simp_all
    then have "e_key (xs ! k) < e_key (xs ! (ris ! j))" using that lt by simp
    also have "\<dots> < target" using j(2) pos by simp
    finally show ?thesis .
  qed
  with seek_linear_stands [OF ok bound it1(2,3,4)] show ?thesis
    using it1(1) search by (auto simp: Seek_def last)
qed

end
