(* ===== verification/Iterator.thy ===== *)
theory Iterator
  imports Block_Correct
begin

text \<open>
  The contract of \<open>src/base/io/table/iterator.h\<close>: an iterator yields the pairs of a
  sequence that is sorted by key. It stands at a pair or past the last one. A client that
  keeps to the contract reads the whole sequence, and finds a key by a search. The
  iterator of a block and \<open>EmptyIterator\<close> fulfil it.
\<close>

section \<open>Clients\<close>

type_synonym pairs = "(byte list \<times> byte list) list"

text \<open>The loop \<open>for (; it->Valid(); it->Next())\<close> over all that is left, for at most \<open>n\<close> pairs.\<close>

fun scan :: "('i \<Rightarrow> bool) \<Rightarrow> ('i \<Rightarrow> fault + byte list) \<Rightarrow> ('i \<Rightarrow> fault + byte list) \<Rightarrow> ('i \<Rightarrow> fault + 'i)
    \<Rightarrow> nat \<Rightarrow> 'i \<Rightarrow> (fault + pairs \<times> 'i) option" where
  "scan valid key val next 0 it = (if valid it then None else Some (Inr ([], it)))"
| "scan valid key val next (Suc n) it =
     (if \<not> valid it then Some (Inr ([], it))
      else
        (case (key it, val it, next it) of
           (Inr k, Inr v, Inr it') \<Rightarrow>
             map_option (map_sum id (map_prod (Cons (k, v)) id)) (scan valid key val next n it')
         | _ \<Rightarrow> Some (Inl Assertion_failed)))"

text \<open>
  A client that moves the iterator about, as \<open>Harness::TestRandomAccess\<close> of
  \<open>table_unittest.cc\<close> does: after a step it looks at the pair the iterator stands at, or sees
  that there is none. \<open>Next\<close> is called on a valid iterator only.
\<close>

datatype step = Step_Next | Step_SeekToFirst | Step_Seek "byte list"

type_synonym seen = "(byte list \<times> byte list) option"

definition look :: "('i \<Rightarrow> bool) \<Rightarrow> ('i \<Rightarrow> fault + byte list) \<Rightarrow> ('i \<Rightarrow> fault + byte list) \<Rightarrow> 'i
    \<Rightarrow> fault + seen" where
  "look valid key val it =
     (if \<not> valid it then Inr None
      else (case (key it, val it) of (Inr k, Inr v) \<Rightarrow> Inr (Some (k, v)) | _ \<Rightarrow> Inl Assertion_failed))"

fun walk :: "('i \<Rightarrow> bool) \<Rightarrow> ('i \<Rightarrow> fault + byte list) \<Rightarrow> ('i \<Rightarrow> fault + byte list) \<Rightarrow> ('i \<Rightarrow> fault + 'i)
    \<Rightarrow> ('i \<Rightarrow> fault + 'i) \<Rightarrow> (byte list \<Rightarrow> 'i \<Rightarrow> (fault + 'i) option)
    \<Rightarrow> step list \<Rightarrow> 'i \<Rightarrow> (fault + seen list) option" where
  "walk valid key val next first seek [] it = Some (Inr [])"
| "walk valid key val next first seek (Step_Next # ss) it =
     (if valid it then
        (case next it of
           Inl f \<Rightarrow> Some (Inl f)
         | Inr it \<Rightarrow>
             (case look valid key val it of
                Inl f \<Rightarrow> Some (Inl f)
              | Inr p \<Rightarrow> map_option (map_sum id (Cons p)) (walk valid key val next first seek ss it)))
      else walk valid key val next first seek ss it)"
| "walk valid key val next first seek (Step_SeekToFirst # ss) it =
     (case first it of
        Inl f \<Rightarrow> Some (Inl f)
      | Inr it \<Rightarrow>
          (case look valid key val it of
             Inl f \<Rightarrow> Some (Inl f)
           | Inr p \<Rightarrow> map_option (map_sum id (Cons p)) (walk valid key val next first seek ss it)))"
| "walk valid key val next first seek (Step_Seek target # ss) it =
     (case seek target it of
        None \<Rightarrow> None
      | Some (Inl f) \<Rightarrow> Some (Inl f)
      | Some (Inr it) \<Rightarrow>
          (case look valid key val it of
             Inl f \<Rightarrow> Some (Inl f)
           | Inr p \<Rightarrow> map_option (map_sum id (Cons p)) (walk valid key val next first seek ss it)))"

text \<open>Where a search is to stop: the first pair whose key is not smaller than the target.\<close>

definition first_at_least :: "byte list \<Rightarrow> pairs \<Rightarrow> nat" where
  "first_at_least target es = length (takeWhile (\<lambda>e. fst e < target) es)"

text \<open>The same steps on the sequence itself, with a position in it: what the client is to see.\<close>

definition pair_at :: "pairs \<Rightarrow> nat \<Rightarrow> seen" where
  "pair_at es i = (if i < length es then Some (es ! i) else None)"

fun walk_pairs :: "pairs \<Rightarrow> step list \<Rightarrow> nat \<Rightarrow> seen list" where
  "walk_pairs es [] i = []"
| "walk_pairs es (Step_Next # ss) i =
     (if i < length es then pair_at es (Suc i) # walk_pairs es ss (Suc i) else walk_pairs es ss i)"
| "walk_pairs es (Step_SeekToFirst # ss) i = pair_at es 0 # walk_pairs es ss 0"
| "walk_pairs es (Step_Seek target # ss) i =
     pair_at es (first_at_least target es) # walk_pairs es ss (first_at_least target es)"

abbreviation sorted_pairs :: "pairs \<Rightarrow> bool" where
  "sorted_pairs es \<equiv> sorted_wrt (<) (map fst es)"

lemma first_at_least_le: "first_at_least target es \<le> length es"
  by (simp add: first_at_least_def length_takeWhile_le)

lemma first_at_least_before: "i < first_at_least target es \<Longrightarrow> fst (es ! i) < target"
  unfolding first_at_least_def by (metis nth_mem set_takeWhileD takeWhile_nth)

lemma first_at_least_key: "first_at_least target es < length es \<Longrightarrow> target \<le> fst (es ! first_at_least target es)"
  unfolding first_at_least_def using nth_length_takeWhile [of "\<lambda>e. fst e < target" es] by auto

lemma first_at_least_append:
  "first_at_least target (xs @ ys) =
    (if first_at_least target xs < length xs then first_at_least target xs
     else length xs + first_at_least target ys)"
  by (induction xs) (auto simp: first_at_least_def)

lemma first_at_least_lookup:
  fixes es :: pairs and k :: "byte list"
  assumes "sorted_pairs es"
  defines "i \<equiv> first_at_least k es"
  shows "map_of es k = (if i < length es \<and> fst (es ! i) = k then Some (snd (es ! i)) else None)"
proof (cases "i < length es \<and> fst (es ! i) = k")
  case True
  have "distinct (map fst es)"
    using assms(1) by (simp add: strict_sorted_iff)
  moreover have "(k, snd (es ! i)) \<in> set es" using True by (metis nth_mem prod.collapse)
  ultimately show ?thesis using True by simp
next
  case False
  have "k \<notin> fst ` set es"
  proof
    assume "k \<in> fst ` set es"
    then obtain j where j: "j < length es" "fst (es ! j) = k" by (auto simp: in_set_conv_nth)
    then have "\<not> j < i" using first_at_least_before [of j k es] by (auto simp: i_def)
    moreover have "\<not> i < j"
    proof
      assume "i < j"
      then have "map fst es ! i < map fst es ! j"
        using assms(1) j by (intro sorted_wrt_nth_less) simp_all
      then have "fst (es ! i) < k" using \<open>i < j\<close> j by simp
      moreover have "k \<le> fst (es ! i)"
        using first_at_least_key [of k es] \<open>i < j\<close> j(1) by (simp add: i_def)
      ultimately show False by simp
    qed
    ultimately show False using False j by auto
  qed
  with False show ?thesis by (auto simp: map_of_eq_None_iff)
qed

section \<open>The contract\<close>

locale sorted_iterator =
  fixes valid :: "'i \<Rightarrow> bool" and key val :: "'i \<Rightarrow> fault + byte list"
    and next_it seek_first :: "'i \<Rightarrow> fault + 'i" and seek :: "byte list \<Rightarrow> 'i \<Rightarrow> (fault + 'i) option"
    and status :: "'i \<Rightarrow> status"
    and source :: "pairs \<Rightarrow> 'i \<Rightarrow> bool" and stands_at :: "pairs \<Rightarrow> nat \<Rightarrow> 'i \<Rightarrow> bool"
  assumes source_sorted: "source es it \<Longrightarrow> sorted_pairs es"
    and stands_source: "stands_at es i it \<Longrightarrow> source es it"
    and stands_le: "stands_at es i it \<Longrightarrow> i \<le> length es"
    and stands_ok: "stands_at es i it \<Longrightarrow> status it = OK_status"
    and valid_iff: "stands_at es i it \<Longrightarrow> valid it \<longleftrightarrow> i < length es"
    and key_at: "stands_at es i it \<Longrightarrow> i < length es \<Longrightarrow> key it = Inr (fst (es ! i))"
    and val_at: "stands_at es i it \<Longrightarrow> i < length es \<Longrightarrow> val it = Inr (snd (es ! i))"
    and next_at: "stands_at es i it \<Longrightarrow> i < length es \<Longrightarrow>
      \<exists>it'. next_it it = Inr it' \<and> stands_at es (Suc i) it'"
    and first_at: "source es it \<Longrightarrow> \<exists>it'. seek_first it = Inr it' \<and> stands_at es 0 it'"
    and seek_at: "source es it \<Longrightarrow>
      \<exists>it'. seek target it = Some (Inr it') \<and> stands_at es (first_at_least target es) it'"
begin

lemma scan_rest:
  "stands_at es i it \<Longrightarrow> length es - i \<le> n \<Longrightarrow>
    \<exists>it'. scan valid key val next_it n it = Some (Inr (drop i es, it')) \<and> stands_at es (length es) it'"
proof (induction n arbitrary: i it)
  case 0
  then have "i = length es" using stands_le [OF "0.prems"(1)] by simp
  with 0 show ?case by (simp add: valid_iff [OF "0.prems"(1)])
next
  case (Suc n)
  show ?case
  proof (cases "i < length es")
    case True
    from next_at [OF Suc.prems(1) True] obtain it1
      where it1: "next_it it = Inr it1" "stands_at es (Suc i) it1" by blast
    have "length es - Suc i \<le> n" using Suc.prems(2) True by simp
    from Suc.IH [OF it1(2) this] obtain it'
      where "scan valid key val next_it n it1 = Some (Inr (drop (Suc i) es, it'))" "stands_at es (length es) it'"
      by blast
    then show ?thesis
      using True Suc.prems(1) it1(1)
      by (simp add: valid_iff [OF Suc.prems(1)] key_at val_at Cons_nth_drop_Suc)
  next
    case False
    then have "i = length es" using stands_le [OF Suc.prems(1)] by simp
    with Suc.prems show ?thesis by (simp add: valid_iff [OF Suc.prems(1)])
  qed
qed

lemma scan_all:
  assumes "source es it"
  shows "\<exists>it0 it'. seek_first it = Inr it0 \<and>
    scan valid key val next_it (length es) it0 = Some (Inr (es, it')) \<and> status it' = OK_status"
proof -
  from first_at [OF assms] obtain it0 where it0: "seek_first it = Inr it0" "stands_at es 0 it0" by blast
  from scan_rest [OF it0(2), of "length es"] it0(1) show ?thesis by (auto dest: stands_ok)
qed

lemma look_at: "stands_at es i it \<Longrightarrow> look valid key val it = Inr (pair_at es i)"
  using valid_iff [of es i it] key_at [of es i it] val_at [of es i it]
  by (cases "i < length es") (simp_all add: look_def pair_at_def)

text \<open>A fresh iterator is not valid; it is as good as one past the end.\<close>

definition may_walk :: "pairs \<Rightarrow> nat \<Rightarrow> 'i \<Rightarrow> bool" where
  "may_walk es i it \<longleftrightarrow> source es it \<and> (stands_at es i it \<or> i = length es \<and> \<not> valid it)"

lemma walk_sees:
  "may_walk es i it \<Longrightarrow>
    walk valid key val next_it seek_first seek ss it = Some (Inr (walk_pairs es ss i))"
proof (induction ss arbitrary: i it)
  case (Cons s ss)
  have go: "stands_at es j it' \<Longrightarrow>
      walk valid key val next_it seek_first seek ss it' = Some (Inr (walk_pairs es ss j))" for j it'
    using Cons.IH [of j it'] stands_source [of es j it'] by (simp add: may_walk_def)
  have src: "source es it" using Cons.prems by (simp add: may_walk_def)
  show ?case
  proof (cases s)
    case Step_Next
    show ?thesis
    proof (cases "i < length es")
      case True
      then have st: "stands_at es i it" using Cons.prems by (auto simp: may_walk_def)
      from next_at [OF st True] obtain it' where it': "next_it it = Inr it'" "stands_at es (Suc i) it'"
        by blast
      then show ?thesis
        using valid_iff [OF st] True go [OF it'(2)] look_at [OF it'(2)] by (simp add: Step_Next)
    next
      case False
      then have "\<not> valid it" using Cons.prems valid_iff [of es i it] by (auto simp: may_walk_def)
      with False Cons.IH [OF Cons.prems] show ?thesis by (simp add: Step_Next)
    qed
  next
    case Step_SeekToFirst
    from first_at [OF src] obtain it' where "seek_first it = Inr it'" "stands_at es 0 it'" by blast
    then show ?thesis using go look_at by (simp add: Step_SeekToFirst)
  next
    case (Step_Seek target)
    from seek_at [OF src, of target] obtain it'
      where "seek target it = Some (Inr it')" "stands_at es (first_at_least target es) it'" by blast
    then show ?thesis using go look_at by (simp add: Step_Seek)
  qed
qed simp

lemma fresh_walk_sees:
  "source es it \<Longrightarrow> \<not> valid it \<Longrightarrow>
    walk valid key val next_it seek_first seek ss it = Some (Inr (walk_pairs es ss (length es)))"
  by (rule walk_sees) (simp add: may_walk_def)

lemma seek_lookup:
  assumes "source es it"
  shows "\<exists>it'. seek k it = Some (Inr it') \<and> status it' = OK_status \<and>
    map_of es k = (if valid it' \<and> key it' = Inr k then (case val it' of Inr v \<Rightarrow> Some v | _ \<Rightarrow> None) else None)"
proof -
  from seek_at [OF assms] obtain it'
    where it': "seek k it = Some (Inr it')" "stands_at es (first_at_least k es) it'" by blast
  note lookup = first_at_least_lookup [OF source_sorted [OF assms], of k]
  show ?thesis
    using it'(1) stands_ok [OF it'(2)] valid_iff [OF it'(2)] key_at [OF it'(2)] val_at [OF it'(2)] lookup
    by auto
qed

end

section \<open>The iterators of a block fulfil it\<close>

definition block_source :: "bool \<Rightarrow> pairs \<Rightarrow> block_iter \<Rightarrow> bool" where
  "block_source le es it \<longleftrightarrow> (\<exists>xs ris. image_ok le xs ris \<and> on_image le xs ris it \<and>
     it_status it = OK_status \<and> es = map snd xs \<and> sorted_pairs es)"

definition block_stands :: "bool \<Rightarrow> pairs \<Rightarrow> nat \<Rightarrow> block_iter \<Rightarrow> bool" where
  "block_stands le es i it \<longleftrightarrow> (\<exists>xs ris. image_ok le xs ris \<and> stands le xs ris i it \<and>
     es = map snd xs \<and> sorted_pairs es)"

lemma lower_bound_first: "lower_bound target xs = first_at_least target (map snd xs)"
  by (induction xs) (simp_all add: lower_bound_def first_at_least_def)

lemma e_key_fst: "map e_key xs = map fst (map snd xs)"
  by simp

interpretation block_iterator: sorted_iterator Valid iter_key iter_value "Next le" "SeekToFirst le"
    "Seek le" it_status "block_source le" "block_stands le" for le
proof unfold_locales
  fix es it i target
  show "block_source le es it \<Longrightarrow> sorted_pairs es" by (auto simp: block_source_def)
  {
    assume "block_stands le es i it"
    then obtain xs ris where ok: "image_ok le xs ris" and st: "stands le xs ris i it"
      and es: "es = map snd xs" "sorted_pairs es" by (auto simp: block_stands_def)
    have on: "on_image le xs ris it" "it_status it = OK_status" using st by (auto simp: stands_def)
    show "block_source le es it" using ok on es by (auto simp: block_source_def)
    show "i \<le> length es" using st es by (auto simp: stands_def split: if_splits)
    show "it_status it = OK_status" by (rule on(2))
    show "Valid it \<longleftrightarrow> i < length es"
      using st es at_entry_Valid(1) [OF ok on(1)] by (auto simp: stands_def split: if_splits)
    assume i: "i < length es"
    then have e: "at_entry xs i it" using st es by (simp add: stands_def)
    show "iter_key it = Inr (fst (es ! i))" "iter_value it = Inr (snd (es ! i))"
      using at_entry_Valid(2,3) [OF ok on(1) e] i es by simp_all
    show "\<exists>it'. Next le it = Inr it' \<and> block_stands le es (Suc i) it'"
      using Next_stands [OF ok st] i es ok unfolding block_stands_def by auto
  }
  assume "block_source le es it"
  then obtain xs ris where ok: "image_ok le xs ris" and on: "on_image le xs ris it" "it_status it = OK_status"
    and es: "es = map snd xs" "sorted_pairs es" by (auto simp: block_source_def)
  show "\<exists>it'. SeekToFirst le it = Inr it' \<and> block_stands le es 0 it'"
    using SeekToFirst_stands [OF ok on] ok es unfolding block_stands_def by blast
  have "sorted_wrt (<) (map e_key xs)" using es by (simp only: e_key_fst)
  from Seek_stands [OF ok on this, of target] ok es
  show "\<exists>it'. Seek le target it = Some (Inr it') \<and> block_stands le es (first_at_least target es) it'"
    unfolding block_stands_def by (auto simp: lower_bound_first)
qed

primrec iterator_source :: "bool \<Rightarrow> pairs \<Rightarrow> iterator \<Rightarrow> bool" where
  "iterator_source le es (Block_Iter it) = block_source le es it"
| "iterator_source le es (Empty_Iter s) = (es = [] \<and> s = OK_status)"

primrec iterator_stands :: "bool \<Rightarrow> pairs \<Rightarrow> nat \<Rightarrow> iterator \<Rightarrow> bool" where
  "iterator_stands le es i (Block_Iter it) = block_stands le es i it"
| "iterator_stands le es i (Empty_Iter s) = (es = [] \<and> i = 0 \<and> s = OK_status)"

interpretation any_iterator: sorted_iterator iterator_Valid iterator_key iterator_value "iterator_Next le"
    "iterator_SeekToFirst le" "iterator_Seek le" iterator_status "iterator_source le" "iterator_stands le" for le
proof unfold_locales
  fix es it i target
  show "iterator_source le es it \<Longrightarrow> sorted_pairs es"
    by (cases it) (simp_all add: block_iterator.source_sorted)
  show "iterator_stands le es i it \<Longrightarrow> iterator_source le es it"
    by (cases it) (simp_all add: block_iterator.stands_source)
  show "iterator_stands le es i it \<Longrightarrow> i \<le> length es"
    by (cases it) (simp_all add: block_iterator.stands_le)
  show "iterator_stands le es i it \<Longrightarrow> iterator_status it = OK_status"
    by (cases it) (simp_all add: block_iterator.stands_ok)
  show "iterator_stands le es i it \<Longrightarrow> iterator_Valid it \<longleftrightarrow> i < length es"
    by (cases it) (simp_all add: block_iterator.valid_iff)
  show "iterator_stands le es i it \<Longrightarrow> i < length es \<Longrightarrow> iterator_key it = Inr (fst (es ! i))"
    by (cases it) (simp_all add: block_iterator.key_at)
  show "iterator_stands le es i it \<Longrightarrow> i < length es \<Longrightarrow> iterator_value it = Inr (snd (es ! i))"
    by (cases it) (simp_all add: block_iterator.val_at)
  show "iterator_stands le es i it \<Longrightarrow> i < length es \<Longrightarrow>
      \<exists>it'. iterator_Next le it = Inr it' \<and> iterator_stands le es (Suc i) it'"
  proof (cases it)
    case (Block_Iter b)
    moreover assume "iterator_stands le es i it" "i < length es"
    ultimately obtain b' where "Next le b = Inr b'" "block_stands le es (Suc i) b'"
      using block_iterator.next_at [of le es i b] by auto
    with Block_Iter show ?thesis by (intro exI [of _ "Block_Iter b'"]) simp
  qed simp
  show "iterator_source le es it \<Longrightarrow> \<exists>it'. iterator_SeekToFirst le it = Inr it' \<and> iterator_stands le es 0 it'"
  proof (cases it)
    case (Block_Iter b)
    moreover assume "iterator_source le es it"
    ultimately obtain b' where "SeekToFirst le b = Inr b'" "block_stands le es 0 b'"
      using block_iterator.first_at [of le es b] by auto
    with Block_Iter show ?thesis by (intro exI [of _ "Block_Iter b'"]) simp
  qed simp
  show "iterator_source le es it \<Longrightarrow>
      \<exists>it'. iterator_Seek le target it = Some (Inr it') \<and> iterator_stands le es (first_at_least target es) it'"
  proof (cases it)
    case (Block_Iter b)
    moreover assume "iterator_source le es it"
    ultimately obtain b' where "Seek le target b = Some (Inr b')"
      "block_stands le es (first_at_least target es) b'"
      using block_iterator.seek_at [of le es b target] by auto
    with Block_Iter show ?thesis by (intro exI [of _ "Block_Iter b'"]) simp
  qed (simp add: first_at_least_def)
qed

section \<open>From the builder to the iterator\<close>

text \<open>
  \<open>BlockConstructor::FinishImpl\<close> of \<open>table_unittest.cc\<close>: the contents of the block built
  from pairs, and the iterator on such contents.
\<close>

definition build_block :: "bool \<Rightarrow> options \<Rightarrow> pairs \<Rightarrow> fault + byte list" where
  "build_block kLittleEndian opts es =
     (case make_block_builder opts of
        Inl f \<Rightarrow> Inl f
      | Inr b \<Rightarrow> (case add_all opts es b of Inl f \<Rightarrow> Inl f | Inr b \<Rightarrow> Inr (fst (Finish kLittleEndian b))))"

definition open_block :: "bool \<Rightarrow> 32 word \<Rightarrow> byte list \<Rightarrow> fault + iterator" where
  "open_block kLittleEndian junk data =
     (case make_block kLittleEndian junk \<lparr>contents = data, cachable = False, heap_allocated = False\<rparr> of
        Inl f \<Rightarrow> Inl f
      | Inr b \<Rightarrow> NewIterator kLittleEndian b)"

lemma make_block_image:
  assumes "image_ok le xs ris"
  shows "\<exists>b. make_block le junk \<lparr>contents = block_image le xs ris, cachable = c, heap_allocated = h\<rparr> = Inr b \<and>
    blk_size b = length (block_image le xs ris) \<and>
    NewIterator le b = map_sum id Block_Iter (make_iter (block_image le xs ris)
      (word_of_nat (length (body xs))) (word_of_nat (length ris)))"
proof -
  note sizes = image_sizes [OF assms]
  have ris: "0 < length ris" using restart_first [OF assms] by simp
  have "drop (length (body xs) + 4 * length ris) (block_image le xs ris) = EncodeFixed32 le (word_of_nat (length ris))"
    by (simp add: block_image_def restart_array_def concat_length [where n = 4] length_EncodeFixed32
        del: EncodeFixed_eq)
  then have num: "fixed32_at le (block_image le xs ris) (length (block_image le xs ris) - 4) =
      Inr (word_of_nat (length ris))"
    using fixed32.get_put_end [of le] by (simp add: length_image fixed32_at_def get_fixed32_def
        split: option.splits)
  have nz: "(word_of_nat (length ris) :: 32 word) \<noteq> 0"
  proof
    assume "(word_of_nat (length ris) :: 32 word) = 0"
    then have "unat (word_of_nat (length ris) :: 32 word) = 0" by simp
    with ris sizes(2) show False by (simp add: unat_small)
  qed
  have plus: "unat (1 + word_of_nat (length ris) :: 32 word) = length ris + 1"
    using sizes(2) unat_small [of "1 + length ris"] by simp
  show ?thesis
    using num nz plus sizes(2)
    by (simp add: make_block_def Let_def NumRestarts_def length_image unat_small NewIterator_def)
qed

lemma NewIterator_source:
  assumes "image_ok le xs ris" "sorted_pairs (map snd xs)"
  shows "\<exists>b it. make_block le junk \<lparr>contents = block_image le xs ris, cachable = c, heap_allocated = h\<rparr> = Inr b \<and>
    NewIterator le b = Inr it \<and> iterator_source le (map snd xs) it \<and> \<not> iterator_Valid it"
proof -
  have "0 < length ris" "length ris < 2 ^ 30" using restart_first [OF assms(1)] image_sizes(2) [OF assms(1)] by auto
  then have "0 < (word_of_nat (length ris) :: 32 word)" by (simp add: word_less_nat_alt unat_small)
  then obtain it where it: "make_iter (block_image le xs ris) (word_of_nat (length (body xs)))
      (word_of_nat (length ris)) = Inr it" "on_image le xs ris it" "it_status it = OK_status" "\<not> Valid it"
    by (simp add: make_iter_def on_image_def Valid_def)
  then have "iterator_source le (map snd xs) (Block_Iter it)"
    using assms by (auto simp: block_source_def)
  with make_block_image [OF assms(1), of junk c h] it(1,4) show ?thesis by auto
qed

text \<open>What the readers of a table need of the contents of a block that holds given pairs.\<close>

definition holds_pairs :: "bool \<Rightarrow> pairs \<Rightarrow> byte list \<Rightarrow> bool" where
  "holds_pairs le es data \<longleftrightarrow> sorted_pairs es \<and> (length data < 2 ^ 32 \<longrightarrow>
     (\<forall>junk c h. \<exists>b it. make_block le junk \<lparr>contents = data, cachable = c, heap_allocated = h\<rparr> = Inr b \<and>
       NewIterator le b = Inr it \<and> iterator_source le es it \<and> \<not> iterator_Valid it))"

lemma Finish_holds:
  assumes "builder_inv opts xs ris b" "sorted_pairs (entries_of xs)"
  shows "holds_pairs le (entries_of xs) (fst (Finish le b))"
proof -
  note img = Finish_image [OF assms(1), of le]
  have "image_ok le xs ris" if "length (fst (Finish le b)) < 2 ^ 32"
    using assms(1) that by (simp add: image_ok_def builder_inv_def img)
  then show ?thesis
    using NewIterator_source assms(2) unfolding holds_pairs_def entries_of_def img by blast
qed

lemma build_block_holds:
  assumes "1 \<le> block_restart_interval opts" "sorted_pairs es"
  shows "\<exists>data. build_block le opts es = Inr data \<and> holds_pairs le es data"
proof -
  from make_builder_inv [OF assms(1)] obtain b0
    where b0: "make_block_builder opts = Inr b0" "builder_inv opts [] [0] b0" by blast
  from add_all_inv [OF b0(2), of es] sorted_keys_after [OF assms(2)] obtain b xs ris
    where b: "add_all opts es b0 = Inr b" "builder_inv opts xs ris b" "entries_of xs = es" by auto
  with Finish_holds [OF b(2), of le] assms(2) b0(1) show ?thesis by (simp add: build_block_def)
qed

lemma open_block_source:
  assumes "holds_pairs le es data" "length data < 2 ^ 32"
  shows "\<exists>it. open_block le junk data = Inr it \<and> iterator_source le es it \<and> \<not> iterator_Valid it"
proof -
  from assms obtain b it where "make_block le junk \<lparr>contents = data, cachable = False, heap_allocated = False\<rparr> = Inr b"
    "NewIterator le b = Inr it" "iterator_source le es it" "\<not> iterator_Valid it"
    unfolding holds_pairs_def by blast
  then show ?thesis by (simp add: open_block_def)
qed

end
