(* ===== verification/Crc32c_Laws.thy ===== *)
theory Crc32c_Laws
  imports Crc32c Coding_Laws
begin

text \<open>
  The checksum that is defined bit by bit, as division by the Castagnoli polynomial; the
  four tables hold it for one to four bytes; the steps and loops of \<open>Extend\<close> compute it
  wherever the buffer lies. A byte that changes is always noticed, and the mask can be
  taken off.
\<close>

section \<open>The checksum bit by bit\<close>

text \<open>Division by the Castagnoli polynomial, low bit first.\<close>

definition crc_bit :: "32 word \<Rightarrow> 32 word" where
  "crc_bit l = (if bit l 0 then drop_bit 1 l XOR 0x82F63B78 else drop_bit 1 l)"

definition crc_byte :: "byte \<Rightarrow> 32 word \<Rightarrow> 32 word" where
  "crc_byte b l = (crc_bit ^^ 8) (l XOR ucast b)"

definition crc32c :: "32 word \<Rightarrow> byte list \<Rightarrow> 32 word" where
  "crc32c crc bs = fold crc_byte bs (crc XOR 0xffffffff) XOR 0xffffffff"

lemma crc_bit_xor: "crc_bit (x XOR y) = crc_bit x XOR crc_bit y"
proof -
  have "drop_bit 1 (x XOR y) = drop_bit 1 x XOR drop_bit 1 y" by (rule drop_bit_xor)
  then show ?thesis
    by (cases "bit x 0"; cases "bit y 0") (simp_all only: crc_bit_def bit_xor_iff if_True if_False
        simp_thms xor.assoc xor.left_commute xor.commute xor_self_eq xor.right_neutral xor.left_neutral)
qed

lemma crc_bit_0 [simp]: "crc_bit 0 = 0"
  by (simp add: crc_bit_def)

lemma crc_bits_xor: "(crc_bit ^^ n) (x XOR y) = (crc_bit ^^ n) x XOR (crc_bit ^^ n) y"
  by (induction n) (simp_all add: crc_bit_xor)

lemma crc_bits_0 [simp]: "(crc_bit ^^ n) 0 = 0"
  by (induction n) simp_all

lemma crc_bit_eq_0: "crc_bit l = 0 \<Longrightarrow> l = 0"
proof -
  assume zero: "crc_bit l = 0"
  have even: "\<not> bit l 0"
  proof
    assume "bit l 0"
    then have "bit (crc_bit l) 31"
      using bit_imp_le_length [of l 32] by (auto simp: crc_bit_def bit_xor_iff bit_drop_bit_eq)
    with zero show False by simp
  qed
  have "bit l n = False" for n
    using even arg_cong [OF zero, of "\<lambda>w. bit w (n - 1)"]
    by (cases n) (simp_all add: crc_bit_def bit_drop_bit_eq)
  then show "l = 0" by (auto intro: bit_eqI)
qed

lemma xor_eq_0: "x XOR y = 0 \<Longrightarrow> x = (y :: 'a::len word)"
proof (rule bit_eqI)
  fix n
  assume "x XOR y = 0"
  then have "bit (x XOR y) n = False" by simp
  then show "bit x n = bit y n" by (auto simp: bit_xor_iff)
qed

lemma crc_bits_inject: "(crc_bit ^^ n) x = (crc_bit ^^ n) y \<Longrightarrow> x = y"
proof (induction n arbitrary: x y)
  case (Suc n)
  have "crc_bit ((crc_bit ^^ n) x XOR (crc_bit ^^ n) y) = 0"
    using Suc.prems by (simp add: crc_bit_xor)
  then have "(crc_bit ^^ n) x XOR (crc_bit ^^ n) y = 0" by (rule crc_bit_eq_0)
  then have "(crc_bit ^^ n) x = (crc_bit ^^ n) y"
    by (rule xor_eq_0)
  then show ?case by (rule Suc.IH)
qed simp

text \<open>Bits that are zero shift out.\<close>

lemma crc_bits_shift: "take_bit n l = 0 \<Longrightarrow> (crc_bit ^^ n) l = drop_bit n l"
proof (induction n arbitrary: l)
  case (Suc n)
  have bits: "\<not> bit l k" if "k < Suc n" for k
    using arg_cong [OF Suc.prems, of "\<lambda>w. bit w k"] that by (simp add: bit_take_bit_iff)
  have "take_bit n (drop_bit 1 l) = 0"
    by (rule bit_eqI) (auto simp: bit_take_bit_iff bit_drop_bit_eq bits)
  then have "(crc_bit ^^ n) (drop_bit 1 l) = drop_bit (Suc n) l"
    using Suc.IH by simp
  moreover have "crc_bit l = drop_bit 1 l"
    using bits [of 0] by (simp add: crc_bit_def)
  ultimately show ?case by (simp only: funpow_Suc_right o_apply)
qed simp

lemma crc_bits_push: "(crc_bit ^^ (n + m)) (push_bit n (ucast (b :: byte))) = (crc_bit ^^ m) (ucast b)"
  if "n \<le> 24"
proof -
  have "n + k < 32" if "bit b k" for k
    using bit_imp_le_length [OF that] \<open>n \<le> 24\<close> by simp
  then have "(crc_bit ^^ n) (push_bit n (ucast b)) = ucast b"
    by (subst crc_bits_shift) (auto intro!: bit_eqI simp: bit_take_bit_iff bit_push_bit_iff
        bit_drop_bit_eq bit_ucast_iff possible_bit_def)
  then show ?thesis by (simp add: add.commute [of n] funpow_add)
qed

section \<open>The tables hold it\<close>

text \<open>
  A table of a linear function is given by its entries at the powers of two: each run of
  entries is the run before it, offset by such an entry.
\<close>

definition doubles :: "32 word list \<Rightarrow> nat \<Rightarrow> bool" where
  "doubles t b \<longleftrightarrow> drop (2 ^ b) (take (2 ^ Suc b) t) = map ((XOR) (t ! (2 ^ b))) (take (2 ^ b) t)"

lemma power_plus_bits: "j < 2 ^ b \<Longrightarrow> (2 ^ b + j :: nat) = 2 ^ b XOR j"
proof -
  assume "j < 2 ^ b"
  then have j: "j = take_bit b j" by (simp add: take_bit_nat_eq_self)
  have disj: "\<not> (bit (2 ^ b :: nat) n \<and> bit j n)" for n
    by (subst j) (simp add: bit_take_bit_iff bit_exp_iff)
  then have "2 ^ b + j = 2 ^ b OR j"
    by (intro disjunctive_add) blast
  also have "\<dots> = 2 ^ b XOR j"
    using disj by (auto intro!: bit_eqI simp: bit_or_iff bit_xor_iff)
  finally show ?thesis .
qed

lemma linear_table:
  fixes f :: "32 word \<Rightarrow> 32 word"
  assumes linear: "\<And>x y. f (x XOR y) = f x XOR f y"
    and len: "length t = 256" and zero: "t ! 0 = f 0"
    and basis: "\<And>b. b < 8 \<Longrightarrow> t ! (2 ^ b) = f (2 ^ b)" and runs: "\<And>b. b < 8 \<Longrightarrow> doubles t b"
  shows "b \<le> 8 \<Longrightarrow> i < 2 ^ b \<Longrightarrow> t ! i = f (word_of_nat i)"
proof (induction b arbitrary: i)
  case 0
  with zero show ?case by simp
next
  case (Suc b)
  show ?case
  proof (cases "i < 2 ^ b")
    case True
    with Suc show ?thesis by simp
  next
    case False
    then obtain j where i: "i = 2 ^ b + j" by (metis le_add_diff_inverse not_less)
    with Suc.prems have j: "j < 2 ^ b" by simp
    have "(2::nat) ^ Suc b \<le> 2 ^ 8" using Suc.prems(1) by (rule power_increasing) simp
    then have size: "2 ^ b + 2 ^ b \<le> length t" using len by simp
    have "t ! i = drop (2 ^ b) (take (2 ^ Suc b) t) ! j"
      using size j by (simp add: i nth_take)
    also have "\<dots> = t ! (2 ^ b) XOR t ! j"
      using runs [of b] Suc.prems(1) size j unfolding doubles_def by simp
    also have "\<dots> = f (2 ^ b XOR word_of_nat j)"
      using basis [of b] Suc.IH [of j] Suc.prems(1) j by (simp add: linear)
    also have "f (2 ^ b XOR word_of_nat j) = f (word_of_nat i :: 32 word)"
      unfolding i power_plus_bits [OF j] by (simp add: of_nat_xor_eq)
    finally show ?thesis .
  qed
qed

primrec iterates :: "('a \<Rightarrow> 'a) \<Rightarrow> nat \<Rightarrow> 'a \<Rightarrow> 'a list" where
  "iterates f 0 x = []"
| "iterates f (Suc n) x = x # iterates f n (f x)"

lemma nth_iterates: "k < n \<Longrightarrow> iterates f n x ! k = (f ^^ k) x"
  by (induction n arbitrary: k x) (auto simp: nth_Cons funpow_swap1 split: nat.splits)

definition basis_entries :: "32 word list" where
  "basis_entries = concat (map (\<lambda>t. rev (map (\<lambda>b. t ! (2 ^ b)) [0..<8])) [table0, table1, table2, table3])"

lemma basis_entries_eq: "basis_entries = iterates crc_bit 32 0x82F63B78"
  by code_simp

lemma doubles_all:
  "list_all (doubles table0) [0..<8]" "list_all (doubles table1) [0..<8]"
  "list_all (doubles table2) [0..<8]" "list_all (doubles table3) [0..<8]"
  by (simp_all add: doubles_def upt_rec table0_def table1_def table2_def table3_def)

lemma basis_entry:
  assumes "k < 4" "b < 8"
  shows "[table0, table1, table2, table3] ! k ! (2 ^ b) = (crc_bit ^^ (8 * k + 8)) (2 ^ b)"
proof -
  have "basis_entries ! (8 * k + (7 - b)) = [table0, table1, table2, table3] ! k ! (2 ^ b)"
  proof -
    define j where "j = 7 - b"
    then have j: "j < 8" by simp
    have "k = 0 \<or> k = 1 \<or> k = 2 \<or> k = 3" using assms(1) by linarith
    moreover have "rev (map f [0..<8]) ! j = f b" for f :: "nat \<Rightarrow> 32 word"
      using assms(2) unfolding j_def by (subst rev_nth) auto
    ultimately show ?thesis
      using j unfolding j_def [symmetric] by (elim disjE) (simp_all add: basis_entries_def nth_append)
  qed
  moreover have "basis_entries ! (8 * k + (7 - b)) = (crc_bit ^^ (8 * k + (7 - b))) 0x82F63B78"
    unfolding basis_entries_eq using assms by (intro nth_iterates) simp
  moreover have "(crc_bit ^^ (8 * k + 8)) (2 ^ b) = (crc_bit ^^ (8 * k + (7 - b))) ((crc_bit ^^ Suc b) (2 ^ b))"
    using assms(2) unfolding funpow_add [THEN fun_cong, unfolded o_apply, symmetric]
    by (simp add: add.commute del: funpow.simps)
  moreover have "(crc_bit ^^ Suc b) (2 ^ b) = 0x82F63B78"
  proof -
    have "(crc_bit ^^ b) (2 ^ b) = 1"
      using assms(2) by (subst crc_bits_shift) (auto intro!: bit_eqI simp: bit_take_bit_iff bit_exp_iff
          bit_drop_bit_eq bit_1_iff possible_bit_def)
    then show ?thesis by (simp add: crc_bit_def)
  qed
  ultimately show ?thesis by (simp only:)
qed

lemma table_lengths: "length table0 = 256" "length table1 = 256" "length table2 = 256" "length table3 = 256"
  by (simp_all add: table0_def table1_def table2_def table3_def)

lemma table_zeros: "table0 ! 0 = 0" "table1 ! 0 = 0" "table2 ! 0 = 0" "table3 ! 0 = 0"
  by (simp_all add: table0_def table1_def table2_def table3_def)

lemma table_eq:
  assumes "i < 256"
  shows "table0 ! i = (crc_bit ^^ 8) (word_of_nat i)" "table1 ! i = (crc_bit ^^ 16) (word_of_nat i)"
    "table2 ! i = (crc_bit ^^ 24) (word_of_nat i)" "table3 ! i = (crc_bit ^^ 32) (word_of_nat i)"
proof -
  have i: "i < 2 ^ 8" using assms by simp
  note table = linear_table [where b = 8 and i = i, OF crc_bits_xor, OF _ _ _ _ order_refl i]
  have runs: "b < 8 \<Longrightarrow> list_all P [0..<8] \<Longrightarrow> P b" for P and b :: nat
    by (auto simp: list_all_iff)
  show "table0 ! i = (crc_bit ^^ 8) (word_of_nat i)"
    using basis_entry [of 0] by (intro table runs [OF _ doubles_all(1)])
      (simp_all only: table_lengths table_zeros crc_bits_0, simp_all)
  show "table1 ! i = (crc_bit ^^ 16) (word_of_nat i)"
    using basis_entry [of 1] by (intro table runs [OF _ doubles_all(2)])
      (simp_all only: table_lengths table_zeros crc_bits_0, simp_all)
  show "table2 ! i = (crc_bit ^^ 24) (word_of_nat i)"
    using basis_entry [of 2] by (intro table runs [OF _ doubles_all(3)])
      (simp_all only: table_lengths table_zeros crc_bits_0, simp_all)
  show "table3 ! i = (crc_bit ^^ 32) (word_of_nat i)"
    using basis_entry [of 3] by (intro table runs [OF _ doubles_all(4)])
      (simp_all only: table_lengths table_zeros crc_bits_0, simp_all)
qed

section \<open>The steps compute it\<close>

lemma crc_byte_table: "crc_byte b l = table0 ! unat ((l AND 0xff) XOR ucast b) XOR drop_bit 8 l"
proof -
  have 255: "(0xff :: 32 word) = mask 8" by (simp add: mask_eq_exp_minus_1)
  define c where "c = (l AND 0xff) XOR ucast b"
  have "c = take_bit 8 (l XOR ucast b)"
    unfolding c_def 255 by (rule bit_eqI)
      (auto simp: bit_xor_iff bit_and_iff bit_mask_iff bit_take_bit_iff bit_ucast_iff dest: bit_imp_le_length)
  then have "unat c = take_bit 8 (unat (l XOR ucast b))" by (simp only: unsigned_take_bit_eq)
  then have c: "unat c < 256" by (simp add: take_bit_eq_mod)
  have "drop_bit 8 (ucast b :: 32 word) = 0"
    by (rule bit_eqI) (auto simp: bit_drop_bit_eq bit_ucast_iff dest: bit_imp_le_length)
  have split: "l XOR ucast b = c XOR push_bit 8 (drop_bit 8 l)"
    unfolding c_def 255 by (rule bit_eqI) (auto simp: bit_xor_iff bit_and_iff bit_mask_iff
        bit_push_bit_iff bit_drop_bit_eq bit_ucast_iff possible_bit_def dest: bit_imp_le_length)
  have "n < 24" if "bit l (8 + n)" for n
    using bit_imp_le_length [OF that] by simp
  then have "(crc_bit ^^ 8) (push_bit 8 (drop_bit 8 l)) = drop_bit 8 l"
    by (subst crc_bits_shift) (auto intro!: bit_eqI simp: bit_take_bit_iff bit_push_bit_iff
        bit_drop_bit_eq possible_bit_def)
  then show ?thesis
    unfolding crc_byte_def split crc_bits_xor c_def [symmetric] table_eq(1) [OF c] by simp
qed

lemma STEP1_crc: "STEP1 (l, b # p) = Some (crc_byte b l, p)"
  by (simp add: Let_def crc_byte_table)

lemma crc_bytes_four:
  "fold crc_byte [b0, b1, b2, b3] l =
    (crc_bit ^^ 32) (l XOR ucast b0 XOR push_bit 8 (ucast b1) XOR push_bit 16 (ucast b2) XOR
      push_bit 24 (ucast b3))"
proof -
  have add: "(crc_bit ^^ 8) ((crc_bit ^^ m) x) = (crc_bit ^^ (m + 8)) x" for m x
    by (simp only: add.commute [of m] funpow_add o_apply)
  show ?thesis
    unfolding crc_bits_xor
    using crc_bits_push [of 8 24 b1] crc_bits_push [of 16 16 b2] crc_bits_push [of 24 8 b3]
    by (simp add: crc_byte_def crc_bits_xor add xor.assoc del: funpow.simps)
qed

lemma and_255: "w AND 0xff = (ucast (ucast w :: byte) :: 32 word)"
proof -
  have 255: "(0xff :: 32 word) = mask 8" by (simp add: mask_eq_exp_minus_1)
  show ?thesis
    unfolding 255 by (rule bit_eqI) (auto simp: bit_and_iff bit_mask_iff bit_ucast_iff
        dest: bit_imp_le_length)
qed

lemma word_bytes:
  "(c :: 32 word) = ucast (ucast c :: byte) XOR push_bit 8 (ucast (ucast (drop_bit 8 c) :: byte)) XOR
    push_bit 16 (ucast (ucast (drop_bit 16 c) :: byte)) XOR push_bit 24 (ucast (ucast (drop_bit 24 c) :: byte))"
proof (rule bit_eqI)
  fix n
  assume "possible_bit TYPE(32 word) n"
  then have "n < 8 \<or> 8 \<le> n \<and> n < 16 \<or> 16 \<le> n \<and> n < 24 \<or> 24 \<le> n \<and> n < 32"
    by (auto simp: possible_bit_def)
  then show "bit c n = bit (ucast (ucast c :: byte) XOR push_bit 8 (ucast (ucast (drop_bit 8 c) :: byte)) XOR
    push_bit 16 (ucast (ucast (drop_bit 16 c) :: byte)) XOR push_bit 24 (ucast (ucast (drop_bit 24 c) :: byte)) :: 32 word) n"
    by (elim disjE conjE) (auto simp: bit_xor_iff bit_push_bit_iff bit_ucast_iff bit_drop_bit_eq possible_bit_def)
qed

lemma drop_24: "drop_bit 24 c = (ucast (ucast (drop_bit 24 c) :: byte) :: 32 word)"
  by (rule bit_eqI) (auto simp: bit_ucast_iff bit_drop_bit_eq possible_bit_def dest: bit_imp_le_length)

lemma table_byte:
  "table0 ! unat (ucast (b :: byte) :: 32 word) = (crc_bit ^^ 8) (ucast b)"
  "table1 ! unat (ucast (b :: byte) :: 32 word) = (crc_bit ^^ 16) (ucast b)"
  "table2 ! unat (ucast (b :: byte) :: 32 word) = (crc_bit ^^ 24) (ucast b)"
  "table3 ! unat (ucast (b :: byte) :: 32 word) = (crc_bit ^^ 32) (ucast b)"
proof -
  have less: "unat b < 256" using unsigned_less [of b] by simp
  then have eq: "unat (ucast b :: 32 word) = unat b"
    by (simp add: unsigned_ucast_eq take_bit_nat_eq_self)
  have "(word_of_nat (unat b) :: 32 word) = ucast b" by simp
  then show "table0 ! unat (ucast b :: 32 word) = (crc_bit ^^ 8) (ucast b)"
    "table1 ! unat (ucast b :: 32 word) = (crc_bit ^^ 16) (ucast b)"
    "table2 ! unat (ucast b :: 32 word) = (crc_bit ^^ 24) (ucast b)"
    "table3 ! unat (ucast b :: 32 word) = (crc_bit ^^ 32) (ucast b)"
    unfolding eq by (simp_all only: table_eq [OF less])
qed

lemma STEP4_crc: "STEP4 le (l, b0 # b1 # b2 # b3 # p) = Some (fold crc_byte [b0, b1, b2, b3] l, p)"
proof -
  define w :: "32 word" where
    "w = ucast b0 XOR push_bit 8 (ucast b1) XOR push_bit 16 (ucast b2) XOR push_bit 24 (ucast b3)"
  define c where "c = l XOR w"
  have load: "LE_LOAD32 le (b0 # b1 # b2 # b3 # p) = Some w"
  proof -
    have "LE_LOAD32 le (b0 # b1 # b2 # b3 # p) =
        Some (ucast b0 OR push_bit 8 (ucast b1) OR push_bit 16 (ucast b2) OR push_bit 24 (ucast b3))"
      using DecodeFixed_branches(2) by (cases le) (simp_all add: LE_LOAD32_def DecodeFixed32_def)
    also have "ucast b0 OR push_bit 8 (ucast b1) OR push_bit 16 (ucast b2) OR push_bit 24 (ucast b3) = w"
      unfolding w_def by (rule bit_eqI) (auto simp: bit_or_iff bit_xor_iff bit_push_bit_iff bit_ucast_iff
          dest: bit_imp_le_length)
    finally show ?thesis .
  qed
  have "fold crc_byte [b0, b1, b2, b3] l = (crc_bit ^^ 32) c"
    unfolding crc_bytes_four c_def w_def by (simp only: xor.assoc)
  also have "(crc_bit ^^ 32) c = table3 ! unat (c AND 0xff) XOR table2 ! unat (drop_bit 8 c AND 0xff) XOR
      table1 ! unat (drop_bit 16 c AND 0xff) XOR table0 ! unat (drop_bit 24 c)"
  proof -
    have pieces: "unat (c AND 0xff) = unat (ucast (ucast c :: byte) :: 32 word)"
      "unat (drop_bit 8 c AND 0xff) = unat (ucast (ucast (drop_bit 8 c) :: byte) :: 32 word)"
      "unat (drop_bit 16 c AND 0xff) = unat (ucast (ucast (drop_bit 16 c) :: byte) :: 32 word)"
      "unat (drop_bit 24 c) = unat (ucast (ucast (drop_bit 24 c) :: byte) :: 32 word)"
      by (simp_all only: and_255 drop_24 [of c, symmetric])
    have pushed: "(crc_bit ^^ 32) (push_bit 8 (ucast b)) = (crc_bit ^^ 24) (ucast b)"
      "(crc_bit ^^ 32) (push_bit 16 (ucast b)) = (crc_bit ^^ 16) (ucast b)"
      "(crc_bit ^^ 32) (push_bit 24 (ucast b)) = (crc_bit ^^ 8) (ucast b)" for b :: byte
      using crc_bits_push [of 8 24 b] crc_bits_push [of 16 16 b] crc_bits_push [of 24 8 b] by simp_all
    show ?thesis
      unfolding pieces table_byte
      by (subst word_bytes [of c]) (simp only: crc_bits_xor pushed)
  qed
  finally show ?thesis
    by (simp add: load c_def Let_def)
qed

text \<open>Every loop folds the bytes that it consumes.\<close>

definition crc_state :: "32 word \<Rightarrow> byte list \<Rightarrow> 32 word \<times> byte list \<Rightarrow> bool" where
  "crc_state l p s \<longleftrightarrow> fold crc_byte (snd s) (fst s) = fold crc_byte p l"

lemma STEP1_steps:
  "n \<le> length p \<Longrightarrow> \<exists>s. repeat_step n STEP1 (l, p) = Some s \<and> crc_state l p s \<and> length (snd s) = length p - n"
proof (induction n arbitrary: l p)
  case (Suc n)
  then obtain b p' where p: "p = b # p'" "n \<le> length p'" by (cases p) auto
  with Suc.IH [of p' "crc_byte b l"] show ?case
    by (simp add: STEP1_crc crc_state_def del: STEP1.simps)
qed (simp add: crc_state_def)

lemma STEP4_steps:
  "4 * n \<le> length p \<Longrightarrow>
    \<exists>s. repeat_step n (STEP4 le) (l, p) = Some s \<and> crc_state l p s \<and> length (snd s) = length p - 4 * n"
proof (induction n arbitrary: l p)
  case (Suc n)
  then have "4 \<le> length p" by simp
  then obtain b0 b1 b2 b3 p' where p: "p = b0 # b1 # b2 # b3 # p'"
    by (auto simp: numeral_eq_Suc Suc_le_length_iff)
  with Suc.prems Suc.IH [of p' "fold crc_byte [b0, b1, b2, b3] l"] show ?case
    by (simp add: STEP4_crc crc_state_def del: STEP4.simps)
qed (simp add: crc_state_def)

lemma words_loop_crc: "\<exists>s'. words_loop le n s = Some s' \<and> crc_state (fst s) (snd s) s'"
proof (induction le n s rule: words_loop.induct)
  case (1 le n s)
  show ?case
  proof (cases "0 < n \<and> 4 * n \<le> length (snd s)")
    case True
    with STEP4_steps [of n "snd s" le "fst s"] obtain s1
      where s1: "repeat_step n (STEP4 le) s = Some s1" "crc_state (fst s) (snd s) s1"
      by auto
    from "1.IH" [OF True s1(1)] s1 True show ?thesis
      by (subst words_loop.simps) (auto simp: crc_state_def)
  next
    case False
    then have "words_loop le n s = Some s"
      unfolding words_loop.simps [of le n s] by (rule if_not_P)
    then show ?thesis by (simp add: crc_state_def)
  qed
qed

lemma Extend_eq: "Extend le addr crc buf = Some (crc32c crc buf)"
proof -
  define l where "l = crc XOR 0xffffffff"
  define x where "x = (addr + 3) div 4 * 4"
  have "x \<le> addr + length buf \<Longrightarrow> x - addr \<le> length buf" by simp
  then obtain s1 where s1: "(if x \<le> addr + length buf then repeat_step (x - addr) STEP1 (l, buf)
      else Some (l, buf)) = Some s1" "crc_state l buf s1"
    using STEP1_steps [of "x - addr" buf l]
    by (cases "x \<le> addr + length buf") (auto simp: crc_state_def simp del: split_paired_Ex)
  obtain s2 where s2: "words_loop le 4 s1 = Some s2" "crc_state (fst s1) (snd s1) s2"
    using words_loop_crc by blast
  obtain s3 where s3: "words_loop le 1 s2 = Some s3" "crc_state (fst s2) (snd s2) s3"
    using words_loop_crc by blast
  obtain s4 where s4: "repeat_step (length (snd s3)) STEP1 s3 = Some s4" "crc_state (fst s3) (snd s3) s4"
    "snd s4 = []"
    using STEP1_steps [of "length (snd s3)" "snd s3" "fst s3"] by auto
  have "fst s4 = fold crc_byte buf l"
    using s1(2) s2(2) s3(2) s4(2,3) by (simp add: crc_state_def)
  then show ?thesis
    unfolding Extend_def Let_def l_def [symmetric] x_def [symmetric] s1(1)
    by (simp add: s2 s3 s4 crc32c_def l_def split_beta del: One_nat_def)
qed

lemma crc32c_append: "crc32c (crc32c crc xs) ys = crc32c crc (xs @ ys)"
  by (simp add: crc32c_def xor.assoc)

text \<open>A register is recovered from its image, so two streams that differ in one byte differ.\<close>

lemma crc_byte_inject: "crc_byte b x = crc_byte b y \<Longrightarrow> x = y"
proof -
  assume "crc_byte b x = crc_byte b y"
  then have "x XOR ucast b = y XOR ucast b" unfolding crc_byte_def by (rule crc_bits_inject)
  then have "(x XOR ucast b) XOR ucast b = (y XOR ucast b) XOR ucast b" by (simp only:)
  then show "x = y" by (simp add: xor.assoc)
qed

lemma crc_fold_inject: "fold crc_byte bs x = fold crc_byte bs y \<Longrightarrow> x = y"
  by (induction bs arbitrary: x y) (auto dest: crc_byte_inject)

lemma crc32c_one_byte:
  assumes "b \<noteq> b'"
  shows "crc32c crc (xs @ b # ys) \<noteq> crc32c crc (xs @ b' # ys)"
proof
  assume eq: "crc32c crc (xs @ b # ys) = crc32c crc (xs @ b' # ys)"
  define l where "l = fold crc_byte xs (crc XOR 0xffffffff)"
  have "crc_byte b l = crc_byte b' l"
  proof (rule crc_fold_inject)
    have "crc32c crc (xs @ b # ys) XOR 0xffffffff = crc32c crc (xs @ b' # ys) XOR 0xffffffff"
      using eq by (simp only:)
    then show "fold crc_byte ys (crc_byte b l) = fold crc_byte ys (crc_byte b' l)"
      by (simp add: crc32c_def xor.assoc l_def)
  qed
  then have "l XOR ucast b = l XOR ucast b'" unfolding crc_byte_def by (rule crc_bits_inject)
  then have "l XOR (l XOR ucast b) = l XOR (l XOR ucast b')" by (simp only:)
  then have "(ucast b :: 32 word) = ucast b'" by (simp add: xor.assoc [symmetric])
  then have "(ucast (ucast b :: 32 word) :: byte) = ucast (ucast b' :: 32 word)" by (simp only:)
  moreover have "(ucast (ucast w :: 32 word) :: byte) = w" for w :: byte
    by (rule bit_eqI) (auto simp: bit_ucast_iff possible_bit_def)
  ultimately show False using assms by simp
qed

text \<open>The mask is a bijection.\<close>

lemma rotate_inverse:
  "drop_bit 17 (drop_bit 15 w OR push_bit 17 w) OR push_bit 15 (drop_bit 15 w OR push_bit 17 w) = (w :: 32 word)"
proof (rule bit_eqI)
  fix n
  assume "possible_bit TYPE(32 word) n"
  then have n: "n < 32" by (simp add: possible_bit_def)
  have "\<not> bit w (15 + (17 + n))" using bit_imp_le_length [of w "15 + (17 + n)"] by auto
  then show "bit (drop_bit 17 (drop_bit 15 w OR push_bit 17 w) OR push_bit 15 (drop_bit 15 w OR push_bit 17 w)) n = bit w n"
    using n by (cases "n < 15") (auto simp: bit_or_iff bit_drop_bit_eq bit_push_bit_iff possible_bit_def)
qed

lemma Unmask_Mask: "Unmask (Mask crc) = crc"
  unfolding Unmask_def Mask_def Let_def add_diff_cancel_right' by (rule rotate_inverse)

end
