(* ===== verification/Format_Laws.thy ===== *)
theory Format_Laws
  imports Table_Builder Iterator Crc32c_Laws
begin

text \<open>
  Handles, footers and blocks read back what was written. The file is the one that the
  unit test of the table uses, a string that is appended to and read from.
\<close>

section \<open>The files of the unit test\<close>

text \<open>\<open>StringSink\<close> and \<open>StringSource\<close> of \<open>table_unittest.cc\<close>.\<close>

definition sink_append :: "byte list append" where
  "sink_append data file = (OK_status, file @ data)"

definition source_read :: "byte list \<Rightarrow> file_read" where
  "source_read file off n =
     (if length file < unat off then
        (Some \<lparr>state_code = INVALID_ARGUMENT, state_msg = ''invalid Read offset''\<rparr>, [], False)
      else
        let n = (if length file < unat (off + n) then length file - unat off else unat n) in
        (OK_status, take n (drop (unat off) file), True))"

section \<open>Handles\<close>

definition put_handle :: "block_handle \<Rightarrow> byte list" where
  "put_handle h = EncodeVarint64 (handle_offset h) @ EncodeVarint64 (handle_size h)"

definition get_handle :: "byte list \<Rightarrow> (block_handle \<times> byte list) option" where
  "get_handle input =
     (case DecodeHandle input make_handle of (s, h, rest) \<Rightarrow> if is_ok s then Some (h, rest) else None)"

definition handle_set :: "block_handle \<Rightarrow> bool" where
  "handle_set h \<longleftrightarrow> handle_offset h \<noteq> NOT 0 \<and> handle_size h \<noteq> NOT 0"

lemma EncodeHandle_eq: "handle_set h \<Longrightarrow> EncodeHandle dst h = Inr (dst @ put_handle h)"
  by (simp add: EncodeHandle_def handle_set_def put_handle_def PutVarint64_def)

lemma DecodeHandle_put: "DecodeHandle (put_handle h @ rest) h0 = (OK_status, h, rest)"
  by (simp add: DecodeHandle_def put_handle_def GetVarint64_encoded)

interpretation handle: codec put_handle get_handle
  by unfold_locales (simp add: get_handle_def DecodeHandle_put is_ok_def OK_status_def)

lemma length_put_handle: "length (put_handle h) \<le> 20"
  using length_Varint64 [of "handle_offset h"] length_Varint64 [of "handle_size h"]
  by (simp add: put_handle_def EncodeVarint64_eq)

section \<open>Footers\<close>

lemma fixed32_at_put: "length xs = n \<Longrightarrow> fixed32_at le (xs @ EncodeFixed32 le v @ ys) n = Inr v"
  by (simp add: fixed32_at_def EncodeFixed_eq DecodeFixed_encoded)

lemma magic_halves:
  "push_bit 32 (ucast (ucast (drop_bit 32 kTableMagicNumber) :: 32 word)) OR
    ucast (ucast (kTableMagicNumber AND 0xffffffff) :: 32 word) = kTableMagicNumber"
  by code_simp

definition footer_bytes :: "bool \<Rightarrow> footer \<Rightarrow> byte list" where
  "footer_bytes le f =
     resize 40 (put_handle (metaindex_handle f) @ put_handle (index_handle f)) @
     EncodeFixed32 le (ucast (kTableMagicNumber AND 0xffffffff)) @
     EncodeFixed32 le (ucast (drop_bit 32 kTableMagicNumber))"

lemma length_resize [simp]: "length (resize n s) = n"
  by (simp add: resize_def)

lemma length_footer: "length (footer_bytes le f) = kEncodedLength"
  by (simp add: footer_bytes_def length_EncodeFixed32 kEncodedLength_def kMaxEncodedLength_def
      del: EncodeFixed_eq)

lemma EncodeFooter_eq:
  "handle_set (metaindex_handle f) \<Longrightarrow> handle_set (index_handle f) \<Longrightarrow>
    EncodeFooter le [] f = Inr (footer_bytes le f)"
  using length_footer [of le f]
  by (simp add: EncodeFooter_def EncodeHandle_eq Let_def PutFixed32_def footer_bytes_def
      kEncodedLength_def kMaxEncodedLength_def del: EncodeFixed_eq)

lemma DecodeFooter_bytes: "DecodeFooter le (footer_bytes le f) f0 = Inr (OK_status, f, [])"
proof -
  define hs where "hs = put_handle (metaindex_handle f) @ put_handle (index_handle f)"
  have "length hs \<le> 40"
    using length_put_handle [of "metaindex_handle f"] length_put_handle [of "index_handle f"]
    by (simp add: hs_def)
  then have hs: "resize 40 hs = hs @ replicate (40 - length hs) 0" by (simp add: resize_def)
  have lo: "fixed32_at le (footer_bytes le f) 40 = Inr (ucast (kTableMagicNumber AND 0xffffffff))"
    unfolding footer_bytes_def by (rule fixed32_at_put) simp
  have hi: "fixed32_at le (footer_bytes le f) 44 = Inr (ucast (drop_bit 32 kTableMagicNumber))"
    using fixed32_at_put [of "resize 40 hs @ EncodeFixed32 le (ucast (kTableMagicNumber AND 0xffffffff))" 44 le
        "ucast (drop_bit 32 kTableMagicNumber)" "[]"]
    by (simp add: footer_bytes_def hs_def length_EncodeFixed32 del: EncodeFixed_eq)
  have input: "footer_bytes le f = put_handle (metaindex_handle f) @ put_handle (index_handle f) @
      (replicate (40 - length hs) 0 @ EncodeFixed32 le (ucast (kTableMagicNumber AND 0xffffffff)) @
       EncodeFixed32 le (ucast (drop_bit 32 kTableMagicNumber)))"
    unfolding footer_bytes_def hs_def [symmetric] hs by (simp add: hs_def del: EncodeFixed_eq)
  have one: "DecodeHandle (footer_bytes le f) h0 = (OK_status, metaindex_handle f, put_handle (index_handle f) @
      (replicate (40 - length hs) 0 @ EncodeFixed32 le (ucast (kTableMagicNumber AND 0xffffffff)) @
       EncodeFixed32 le (ucast (drop_bit 32 kTableMagicNumber))))" for h0
    unfolding input by (rule DecodeHandle_put)
  have "drop 48 (footer_bytes le f) = []"
    using length_footer [of le f] by (simp add: kEncodedLength_def kMaxEncodedLength_def)
  then show ?thesis
    using lo hi one by (simp add: DecodeFooter_def Let_def kEncodedLength_def kMaxEncodedLength_def
        magic_halves DecodeHandle_put is_ok_def OK_status_def del: EncodeFixed_eq)
qed

section \<open>Blocks in a file\<close>

text \<open>What the code relies on in the Snappy library: what it compressed, it gives back.\<close>

definition snappy_ok :: "snappy \<Rightarrow> bool" where
  "snappy_ok sn \<longleftrightarrow> (\<forall>x c. Snappy_Compress sn x = Some c \<longrightarrow>
     Snappy_GetUncompressedLength sn c = Some (length x) \<and> Snappy_Uncompress sn c = Some x)"

definition unpack :: "snappy \<Rightarrow> compression_type \<Rightarrow> byte list \<Rightarrow> byte list option" where
  "unpack sn ty stored =
     (case ty of
        kNoCompression \<Rightarrow> Some stored
      | kSnappyCompression \<Rightarrow>
          (case (Snappy_GetUncompressedLength sn stored, Snappy_Uncompress sn stored) of
             (Some n, Some raw) \<Rightarrow> Some (resize n raw)
           | _ \<Rightarrow> None))"

definition block_bytes :: "bool \<Rightarrow> compression_type \<Rightarrow> byte list \<Rightarrow> byte list" where
  "block_bytes le ty stored =
     stored @ compression_code ty # EncodeFixed32 le (Mask (crc32c 0 (stored @ [compression_code ty])))"

definition block_at :: "platform \<Rightarrow> byte list \<Rightarrow> block_handle \<Rightarrow> byte list \<Rightarrow> bool" where
  "block_at pf file h raw \<longleftrightarrow> (\<exists>stored ty before after.
     file = before @ block_bytes (pf_little_endian pf) ty stored @ after \<and> length file < 2 ^ 63 \<and>
     handle_offset h = word_of_nat (length before) \<and> handle_size h = word_of_nat (length stored) \<and>
     unpack (pf_snappy pf) ty stored = Some raw)"

lemma block_at_append: "block_at pf file h raw \<Longrightarrow> length (file @ out) < 2 ^ 63 \<Longrightarrow> block_at pf (file @ out) h raw"
  unfolding block_at_def by fastforce

lemma length_block_bytes: "length (block_bytes le ty stored) = length stored + 5"
  by (simp add: block_bytes_def length_EncodeFixed32 del: EncodeFixed_eq)

lemma unat_64: "n < 2 ^ 63 \<Longrightarrow> unat (word_of_nat n :: 64 word) = n"
  by (simp add: unat_of_nat)

lemma unat_64_plus:
  "n + m < 2 ^ 63 \<Longrightarrow> unat (word_of_nat n + word_of_nat m :: 64 word) = n + m"
  using unat_64 [of "n + m"] by simp

lemma source_read_inside:
  assumes "off + n \<le> length file" "length file < 2 ^ 63"
  shows "source_read file (word_of_nat off) (word_of_nat n) = (OK_status, take n (drop off file), True)"
proof -
  have "unat (word_of_nat off :: 64 word) = off" "unat (word_of_nat n :: 64 word) = n"
    "unat (word_of_nat off + word_of_nat n :: 64 word) = off + n"
    using assms by (auto intro!: unat_64 unat_64_plus)
  then show ?thesis using assms by (simp add: source_read_def Let_def)
qed

lemma compression_code_inject: "compression_code a = compression_code b \<longleftrightarrow> a = b"
  by (cases a; cases b) (simp_all add: compression_code_def)

lemma ReadBlock_at:
  assumes "block_at pf file h raw"
  shows "\<exists>c a. ReadBlock pf (source_read file) h =
    Inr (OK_status, \<lparr>contents = raw, cachable = c, heap_allocated = a\<rparr>)"
proof -
  define le where "le = pf_little_endian pf"
  from assms obtain stored ty before after
    where fl: "file = before @ block_bytes le ty stored @ after" "length file < 2 ^ 63"
      and h: "handle_offset h = word_of_nat (length before)" "handle_size h = word_of_nat (length stored)"
      and un: "unpack (pf_snappy pf) ty stored = Some raw"
    by (auto simp: block_at_def le_def)
  define n where "n = length stored"
  have len: "length file = length before + (n + 5) + length after"
    using fl(1) by (simp add: length_block_bytes n_def)
  have n: "unat (word_of_nat n :: 64 word) = n"
    using len fl(2) by (intro unat_64) simp
  have m: "word_of_nat n + kBlockTrailerSize = word_of_nat (n + 5)"
    by (simp add: kBlockTrailerSize_def)
  then have um: "unat (word_of_nat n + kBlockTrailerSize) = n + 5"
    using len fl(2) by (simp only: m) (intro unat_64, simp)
  have hs: "handle_size h = word_of_nat n" by (simp add: h n_def)
  have bytes: "source_read file (handle_offset h) (word_of_nat n + kBlockTrailerSize) =
      (OK_status, block_bytes le ty stored, True)"
    unfolding m h(1) using len fl
    by (subst source_read_inside) (simp_all add: length_block_bytes n_def)
  have crc: "fixed32_at le (block_bytes le ty stored) (n + 1) =
      Inr (Mask (crc32c 0 (stored @ [compression_code ty])))"
    using fixed32_at_put [of "stored @ [compression_code ty]" "n + 1" le _ "[]"]
    by (simp add: block_bytes_def n_def del: EncodeFixed_eq)
  have checked: "read_bytes (block_bytes le ty stored) (n + 1) = Inr (stored @ [compression_code ty])"
    by (simp add: read_bytes_def length_block_bytes n_def)
      (simp add: block_bytes_def del: EncodeFixed_eq)
  have parts: "block_bytes le ty stored ! n = compression_code ty" "take n (block_bytes le ty stored) = stored"
    by (simp_all add: block_bytes_def n_def del: EncodeFixed_eq)
  have "length (block_bytes le ty stored) = n + 5" by (simp add: length_block_bytes n_def)
  note facts = bytes um n crc checked parts hs this
  have read: "ReadBlock pf (source_read file) h =
     (if compression_code ty = compression_code kNoCompression then
        Inr (OK_status, \<lparr>contents = stored, cachable = True, heap_allocated = True\<rparr>)
      else if compression_code ty = compression_code kSnappyCompression then
        (case Snappy_GetUncompressedLength (pf_snappy pf) stored of
           None \<Rightarrow> Inr (DataLoss ''corrupted compressed block contents'', no_contents)
         | Some ulength \<Rightarrow>
             (case Snappy_Uncompress (pf_snappy pf) stored of
                None \<Rightarrow> Inr (DataLoss ''corrupted compressed block contents'', no_contents)
              | Some ubuf \<Rightarrow>
                  Inr (OK_status, \<lparr>contents = resize ulength ubuf, cachable = True, heap_allocated = True\<rparr>)))
      else Inr (DataLoss ''bad block type'', no_contents))"
    by (simp only: ReadBlock_def Let_def facts prod.case le_def [symmetric] is_ok_def OK_status_def
        simp_thms if_False sum.case Value_def Extend_eq option.case Unmask_Mask)
  show ?thesis
  proof (cases ty)
    case kNoCompression
    with un have "raw = stored" by (simp add: unpack_def)
    with kNoCompression show ?thesis unfolding read by (intro exI [of _ True]) simp
  next
    case kSnappyCompression
    with un obtain k ubuf where "Snappy_GetUncompressedLength (pf_snappy pf) stored = Some k"
      "Snappy_Uncompress (pf_snappy pf) stored = Some ubuf" "raw = resize k ubuf"
      by (auto simp: unpack_def split: option.splits)
    with kSnappyCompression show ?thesis
      unfolding read by (intro exI [of _ True]) (simp add: compression_code_inject)
  qed
qed

lemma resize_all: "resize (length xs) xs = xs"
  by (simp add: resize_def)

lemma stored_form_unpack:
  assumes "snappy_ok (pf_snappy pf)" "stored_form pf ty raw = (stored, ty')"
  shows "unpack (pf_snappy pf) ty' stored = Some raw" "length stored \<le> length raw"
proof -
  have "unpack (pf_snappy pf) ty' stored = Some raw \<and> length stored \<le> length raw"
  proof (cases "ty = kSnappyCompression \<and> ty' = kSnappyCompression")
    case True
    with assms(2) have "Snappy_Compress (pf_snappy pf) raw = Some stored" "length stored \<le> length raw"
      by (auto simp: stored_form_def split: option.splits if_splits)
    with assms(1) True show ?thesis by (simp add: snappy_ok_def unpack_def resize_all)
  next
    case False
    with assms(2) show ?thesis
      by (auto simp: stored_form_def unpack_def split: option.splits if_splits compression_type.splits)
  qed
  then show "unpack (pf_snappy pf) ty' stored = Some raw" "length stored \<le> length raw" by simp_all
qed

text \<open>The fields of a builder of a table that writing a block leaves alone.\<close>

definition file_tied :: "byte list rep \<Rightarrow> bool" where
  "file_tied r \<longleftrightarrow> r_status r = OK_status \<and> r_offset r = word_of_nat (length (r_file r))"

lemma WriteBlock_at:
  assumes "snappy_ok (pf_snappy pf)" "file_tied r"
    and raw: "raw = fst (Finish (pf_little_endian pf) b)"
    and size: "length (r_file r) + length raw + 5 < 2 ^ 63"
  shows "\<exists>h out. WriteBlock pf sink_append b r =
      Inr (h, Reset (snd (Finish (pf_little_endian pf) b)),
        r\<lparr>r_status := OK_status, r_file := r_file r @ out, r_offset := word_of_nat (length (r_file r @ out)),
          compressed_output := []\<rparr>) \<and>
    length out \<le> length raw + 5 \<and> handle_set h \<and> block_at pf (r_file r @ out) h raw"
proof -
  define le where "le = pf_little_endian pf"
  obtain stored ty where form: "stored_form pf (compression (r_options r)) raw = (stored, ty)" by fastforce
  note un = stored_form_unpack [OF assms(1) form]
  define h where "h = \<lparr>handle_offset = word_of_nat (length (r_file r)), handle_size = word_of_nat (length stored)\<rparr>"
  define out where "out = block_bytes le ty stored"
  have len: "length out = length stored + 5" by (simp add: out_def length_block_bytes)
  have small: "length (r_file r) < 2 ^ 63" "length stored < 2 ^ 63" using size un(2) by simp_all
  have "unat (NOT 0 :: 64 word) = 18446744073709551615"
    by (simp add: unsigned_minus_1_eq_mask mask_eq_exp_minus_1)
  then have "n < 2 ^ 63 \<Longrightarrow> (word_of_nat n :: 64 word) \<noteq> NOT 0" for n
    using unat_64 [of n] by auto
  then have set: "handle_set h" using small by (simp add: handle_set_def h_def)
  have "block_at pf (r_file r @ out) h raw"
    unfolding block_at_def using size un len
    by (intro exI [of _ stored] exI [of _ ty] exI [of _ "r_file r"] exI [of _ "[]"])
      (simp add: out_def h_def le_def)
  moreover have "WriteBlock pf sink_append b r =
      Inr (h, Reset (snd (Finish (pf_little_endian pf) b)),
        r\<lparr>r_status := OK_status, r_file := r_file r @ out, r_offset := word_of_nat (length (r_file r @ out)),
          compressed_output := []\<rparr>)"
    using assms(2) form
    by (simp add: WriteBlock_def Let_def file_tied_def rep_ok_def is_ok_def raw [symmetric] split_beta
        WriteRawBlock_def sink_append_def OK_status_def Value_def Extend_eq crc32c_append out_def
        block_bytes_def h_def kBlockTrailerSize_def le_def length_EncodeFixed32 del: EncodeFixed_eq)
  ultimately show ?thesis
    using set len un(2) by (intro exI [of _ h] exI [of _ out]) (simp del: of_nat_add)
qed

end
