(* ===== verification/Table_Built.thy ===== *)
theory Table_Built
  imports Format_Laws
begin

text \<open>
  What the builder of a table writes: blocks that hold the pairs in their order, and an
  index block with a handle and a separating key for each of them. The invariant ties the
  state of the builder to the pairs added so far.
\<close>

section \<open>Keys of the index\<close>

lemma append_less: "(p @ x < p @ y) = (x < (y :: byte list))"
  by (induction p) simp_all

lemma shared_loop_stops:
  "shared \<le> m \<Longrightarrow> shared_loop a b m shared < m \<Longrightarrow>
    a ! shared_loop a b m shared \<noteq> b ! shared_loop a b m shared"
proof (induction a b m shared rule: shared_loop.induct)
  case (1 a b m shared)
  show ?case
  proof (cases "shared < m \<and> a ! shared = b ! shared")
    case True
    then have step: "shared_loop a b m shared = shared_loop a b m (shared + 1)"
      by (subst shared_loop.simps) simp
    show ?thesis
      unfolding step using "1.IH" [OF True] "1.prems" True unfolding step by simp
  next
    case False
    then have "shared_loop a b m shared = shared" by (subst shared_loop.simps) auto
    with "1.prems" False show ?thesis by simp
  qed
qed

lemma shared_split:
  assumes "i < length a" "i < length b" "\<forall>k < i. a ! k = b ! k"
  shows "a = take i a @ a ! i # drop (Suc i) a" "b = take i a @ b ! i # drop (Suc i) b"
proof -
  show "a = take i a @ a ! i # drop (Suc i) a" using assms(1) by (simp add: Cons_nth_drop_Suc)
  have "take i a = take i b" using assms by (auto intro!: nth_equalityI)
  then show "b = take i a @ b ! i # drop (Suc i) b" using assms(2) by (simp add: Cons_nth_drop_Suc)
qed

lemma byte_Suc: "(d :: byte) < 0xff \<Longrightarrow> d < d + 1 \<and> unat (d + 1) = unat d + 1"
  using unat_Suc [of d "0xff"] by (simp add: word_less_nat_alt)

lemma FindShortestSeparator_between:
  assumes "a < b"
  shows "\<exists>s. FindShortestSeparator a b = Inr s \<and> a \<le> s \<and> s < b \<and> length s \<le> length a"
proof -
  define m where "m = min (length a) (length b)"
  define i where "i = shared_loop a b m 0"
  have i: "i \<le> m" "\<forall>k < i. a ! k = b ! k"
    using shared_loop_agrees [of 0 a b m] by (simp_all add: i_def)
  note sep = FindShortestSeparator_def [of a b, unfolded Let_def, folded m_def, folded i_def]
  show ?thesis
  proof (cases "m \<le> i")
    case True
    with assms show ?thesis unfolding sep by simp
  next
    case False
    then have bounds: "i < length a" "i < length b" by (simp_all add: m_def)
    show ?thesis
    proof (cases "a ! i < 0xff \<and> unat (a ! i) + 1 < unat (b ! i)")
      case True
      define s where "s = resize (i + 1) (a[i := a ! i + 1])"
      have s: "s = take i a @ [a ! i + 1]"
        using bounds(1) by (simp add: s_def resize_def take_Suc_conv_app_nth)
      have less: "a ! i < a ! i + 1" "unat (a ! i + 1) = unat (a ! i) + 1"
        using byte_Suc [of "a ! i"] True by simp_all
      have "a ! i + 1 < b ! i" using True less(2) by (simp add: word_less_nat_alt)
      then have "s < b"
        by (subst shared_split(2) [OF bounds i(2)]) (simp add: s append_less)
      moreover have "a < s"
        by (subst shared_split(1) [OF bounds i(2)]) (simp add: s append_less less(1))
      moreover have "length s \<le> length a" using bounds(1) by (simp add: s)
      ultimately show ?thesis
        using False True unfolding sep s_def [symmetric] by (simp add: compare_sign)
    next
      case no: False
      with False assms show ?thesis unfolding sep by auto
    qed
  qed
qed

lemma short_successor_loop_above:
  "key \<le> short_successor_loop i key \<and> length (short_successor_loop i key) \<le> length key"
proof (induction i key rule: short_successor_loop.induct)
  case (1 i key)
  show ?case
  proof (cases "i < length key \<and> key ! i \<noteq> 0xff")
    case True
    then have s: "short_successor_loop i key = take i key @ [key ! i + 1]"
      by (subst short_successor_loop.simps) (simp add: resize_def take_Suc_conv_app_nth)
    have "unat (key ! i) < 256" using unsigned_less [of "key ! i"] by simp
    moreover have "unat (key ! i) \<noteq> 255"
      using True by (simp add: word_unat_eq_iff)
    ultimately have "key ! i < 0xff" by (simp add: word_less_nat_alt)
    then have "key ! i < key ! i + 1" using byte_Suc by blast
    moreover have "key = take i key @ key ! i # drop (Suc i) key"
      using True by (simp add: Cons_nth_drop_Suc)
    ultimately have "key < take i key @ [key ! i + 1]"
      by (metis append_less Cons_less_Cons)
    then show ?thesis using True by (simp add: s)
  next
    case False
    with "1.IH" show ?thesis by (subst (1 2) short_successor_loop.simps) auto
  qed
qed

lemma FindShortSuccessor_above: "key \<le> FindShortSuccessor key" "length (FindShortSuccessor key) \<le> length key"
  using short_successor_loop_above [of key 0] by (simp_all add: FindShortSuccessor_def)

section \<open>Sizes\<close>

definition cost :: "nat \<Rightarrow> pairs \<Rightarrow> nat" where
  "cost c es = sum_list (map (\<lambda>(k, v). length k + length v + c) es)"

lemma cost_simps [simp]: "cost c [] = 0" "cost c ((k, v) # es) = length k + length v + c + cost c es"
  "cost c (xs @ ys) = cost c xs + cost c ys"
  by (simp_all add: cost_def)

lemma length_body: "length (body xs) \<le> cost 15 (entries_of xs)"
proof -
  have "length (encode_entry e) \<le> length (e_key e) + length (e_value e) + 15" for e
    using length_Varint32 [of "word_of_nat (e_shared e)"]
      length_Varint32 [of "word_of_nat (length (e_key e) - e_shared e)"]
      length_Varint32 [of "word_of_nat (length (e_value e))"]
    by (simp add: encode_entry_def EncodeVarint32_eq)
  note entry = this
  show ?thesis
  proof (induction xs)
    case (Cons e xs)
    with entry [of e] show ?case by (cases e) (simp add: entries_of_def)
  qed (simp add: entries_of_def)
qed

lemma cost_mono: "cost c es + d * length es = cost (c + d) es"
  by (induction es) (auto simp: algebra_simps)

lemma restarts_few: "restarts_ok xs ris \<Longrightarrow> length ris \<le> length xs + 1"
proof -
  assume ok: "restarts_ok xs ris"
  then have "distinct ris" by (auto simp: restarts_ok_def strict_sorted_iff)
  then have "length ris = card (set ris)" by (simp add: distinct_card)
  also have "\<dots> \<le> card {..< max 1 (length xs)}"
    using ok by (intro card_mono) (auto simp: restarts_ok_def)
  finally show ?thesis by simp
qed

lemma Finish_length: "builder_inv opts xs ris b \<Longrightarrow> length (fst (Finish le b)) \<le> cost 19 (entries_of xs) + 8"
proof -
  assume inv: "builder_inv opts xs ris b"
  have "cost 15 (entries_of xs) + 4 * length (entries_of xs) = cost 19 (entries_of xs)"
    using cost_mono [of 15 "entries_of xs" 4] by simp
  moreover have "length (body xs) \<le> cost 15 (entries_of xs)" "length ris \<le> length xs + 1"
    using inv length_body restarts_few by (auto simp: builder_inv_def)
  ultimately show ?thesis
    unfolding Finish_image [OF inv] length_image by (simp add: entries_of_def)
qed

section \<open>The blocks of a table\<close>

text \<open>A block that was written, with the key that follows it in the index.\<close>

type_synonym index_item = "byte list \<times> block_handle \<times> pairs"

abbreviation item_handle :: "index_item \<Rightarrow> block_handle" where
  "item_handle d \<equiv> fst (snd d)"

abbreviation item_pairs :: "index_item \<Rightarrow> pairs" where
  "item_pairs d \<equiv> snd (snd d)"

definition index_pair :: "index_item \<Rightarrow> byte list \<times> byte list" where
  "index_pair d = (fst d, put_handle (item_handle d))"

definition all_pairs :: "index_item list \<Rightarrow> pairs" where
  "all_pairs ds = concat (map item_pairs ds)"

definition block_holds :: "platform \<Rightarrow> byte list \<Rightarrow> block_handle \<Rightarrow> pairs \<Rightarrow> bool" where
  "block_holds pf file h ps \<longleftrightarrow> handle_set h \<and>
     (\<exists>raw. block_at pf file h raw \<and> holds_pairs (pf_little_endian pf) ps raw \<and> length raw < 2 ^ 32)"

text \<open>The key of every item lies between its pairs and all pairs after them.\<close>

fun separated :: "index_item list \<Rightarrow> pairs \<Rightarrow> bool" where
  "separated [] rest = True"
| "separated (d # ds) rest \<longleftrightarrow> item_pairs d \<noteq> [] \<and> (\<forall>p \<in> set (item_pairs d). fst p \<le> fst d) \<and>
     (\<forall>p \<in> set (all_pairs ds @ rest). fst d < fst p) \<and> separated ds rest"

lemma all_pairs_simps [simp]: "all_pairs [] = []" "all_pairs (d # ds) = item_pairs d @ all_pairs ds"
  "all_pairs (xs @ ys) = all_pairs xs @ all_pairs ys"
  by (simp_all add: all_pairs_def)

lemma separated_snoc: "separated (ds @ [d]) rest \<longleftrightarrow> separated ds (item_pairs d @ rest) \<and> separated [d] rest"
  by (induction ds) auto

lemma separated_extend: "separated ds rest \<Longrightarrow> \<forall>d \<in> set ds. fst d < fst p \<Longrightarrow> separated ds (rest @ [p])"
  by (induction ds) auto

lemma separated_less: "separated ds rest \<Longrightarrow> d \<in> set ds \<Longrightarrow> p \<in> set rest \<Longrightarrow> fst d < fst p"
  by (induction ds) auto

lemma block_holds_append:
  "block_holds pf file h ps \<Longrightarrow> length (file @ out) < 2 ^ 63 \<Longrightarrow> block_holds pf (file @ out) h ps"
  unfolding block_holds_def using block_at_append by blast

definition pending_pairs :: "(block_handle \<times> pairs) option \<Rightarrow> pairs" where
  "pending_pairs pend = (case pend of None \<Rightarrow> [] | Some (h, ps) \<Rightarrow> ps)"

lemma pending_pairs_simps [simp]: "pending_pairs None = []" "pending_pairs (Some (h, ps)) = ps"
  by (simp_all add: pending_pairs_def)

text \<open>
  The parts of a builder: the blocks that are in the index, the block whose index entry is
  pending, the entries of the block that is being built.
\<close>

definition index_ok :: "'f rep \<Rightarrow> index_item list \<Rightarrow> bool" where
  "index_ok r ds \<longleftrightarrow> index_block_options r = r_options r\<lparr>block_restart_interval := 1\<rparr> \<and>
     (\<exists>ixs iris. builder_inv (index_block_options r) ixs iris (index_block r) \<and>
        entries_of ixs = map index_pair ds) \<and>
     cost 19 (map index_pair ds) \<le> cost 64 (all_pairs ds)"

definition pending_ok :: "platform \<Rightarrow> byte list rep \<Rightarrow> (block_handle \<times> pairs) option \<Rightarrow> entry list \<Rightarrow> bool" where
  "pending_ok pf r pend xs \<longleftrightarrow>
     (case pend of
        None \<Rightarrow> \<not> pending_index_entry r
      | Some (h, ps) \<Rightarrow> pending_index_entry r \<and> pending_handle r = h \<and> xs = [] \<and> ps \<noteq> [] \<and>
          block_holds pf (r_file r) h ps)"

definition parts :: "platform \<Rightarrow> byte list rep \<Rightarrow> pairs \<Rightarrow> index_item list
    \<Rightarrow> (block_handle \<times> pairs) option \<Rightarrow> entry list \<Rightarrow> bool" where
  "parts pf r es ds pend xs \<longleftrightarrow> file_tied r \<and> 1 \<le> block_restart_interval (r_options r) \<and>
     index_ok r ds \<and> (\<exists>ris. builder_inv (r_options r) xs ris (data_block r)) \<and>
     (\<forall>d \<in> set ds. block_holds pf (r_file r) (item_handle d) (item_pairs d)) \<and>
     separated ds (pending_pairs pend @ entries_of xs) \<and> pending_ok pf r pend xs \<and>
     es = all_pairs ds @ pending_pairs pend @ entries_of xs \<and> sorted_pairs es \<and>
     num_entries r = int (length es) \<and> length (r_file r) \<le> cost 64 (all_pairs ds @ pending_pairs pend)"

lemma builder_empty_iff: "builder_inv opts xs ris b \<Longrightarrow> builder_empty b \<longleftrightarrow> xs = []"
proof -
  assume inv: "builder_inv opts xs ris b"
  have "body xs = [] \<longleftrightarrow> xs = []"
  proof (cases xs)
    case (Cons e ys)
    have "encode_entry e \<noteq> []" using encode_entry_length [of e] by auto
    then show ?thesis by (simp add: Cons)
  qed simp
  with inv show ?thesis by (simp add: builder_empty_def builder_inv_def)
qed

lemma Finish_Reset: "1 \<le> block_restart_interval opts \<Longrightarrow> builder_inv opts [] [0] (Reset b)"
  by (rule Reset_inv)

lemma cost_nonempty: "ps \<noteq> [] \<Longrightarrow> c \<le> cost c ps"
  by (cases ps) auto

lemma cost_le: "c \<le> d \<Longrightarrow> cost c es \<le> cost d es"
  using cost_mono [of c es "d - c"] by simp

lemma cost_block: "ps \<noteq> [] \<Longrightarrow> cost 19 ps + 13 \<le> cost 64 ps"
  using cost_mono [of 19 ps 45] by (cases ps) auto

lemma sorted_append1: "sorted_pairs (xs @ ys) \<Longrightarrow> sorted_pairs xs"
  "sorted_pairs (xs @ ys) \<Longrightarrow> sorted_pairs ys"
  by (simp_all add: sorted_wrt_append)

lemma index_ok_cong:
  "r_options r' = r_options r \<Longrightarrow> index_block_options r' = index_block_options r \<Longrightarrow>
    index_block r' = index_block r \<Longrightarrow> index_ok r' ds = index_ok r ds"
  by (simp only: index_ok_def)

section \<open>Flushing a block\<close>

lemma TableFlush_parts:
  assumes sn: "snappy_ok (pf_snappy pf)" and parts: "parts pf r es ds None xs" and xs: "xs \<noteq> []"
    and open_file: "\<not> closed r" and small: "cost 64 es + 64 < 2 ^ 32"
  shows "\<exists>r' h. TableFlush pf sink_append r = Inr r' \<and> parts pf r' es ds (Some (h, entries_of xs)) [] \<and>
    r_last_key r' = r_last_key r \<and> r_options r' = r_options r \<and> closed r' = closed r"
proof -
  note p = parts [unfolded parts_def]
  from p obtain ris where data: "builder_inv (r_options r) xs ris (data_block r)" by blast
  have es: "es = all_pairs ds @ entries_of xs" using p by simp
  define raw where "raw = fst (Finish (pf_little_endian pf) (data_block r))"
  have ps: "entries_of xs \<noteq> []" using xs by (simp add: entries_of_def)
  have raw: "length raw \<le> cost 19 (entries_of xs) + 8"
    unfolding raw_def by (rule Finish_length [OF data])
  have tail: "cost 19 (entries_of xs) + 13 \<le> cost 64 (entries_of xs)" by (rule cost_block [OF ps])
  have size: "length (r_file r) + length raw + 5 < 2 ^ 32"
    using p raw tail small es by simp
  then have size': "length (r_file r) + length raw + 5 < 2 ^ 63" by simp
  from WriteBlock_at [OF sn _ raw_def size'] p obtain h out where wb: "WriteBlock pf sink_append (data_block r) r =
      Inr (h, Reset (snd (Finish (pf_little_endian pf) (data_block r))),
        r\<lparr>r_status := OK_status, r_file := r_file r @ out, r_offset := word_of_nat (length (r_file r @ out)),
          compressed_output := []\<rparr>)"
    and out: "length out \<le> length raw + 5" "handle_set h" "block_at pf (r_file r @ out) h raw"
    by blast
  have fileout: "length (r_file r @ out) < 2 ^ 63" using out(1) size' by simp
  have ps_sorted: "sorted_pairs (entries_of xs)" using p es by (simp add: sorted_wrt_append)
  have "holds_pairs (pf_little_endian pf) (entries_of xs) raw"
    unfolding raw_def by (rule Finish_holds [OF data ps_sorted])
  with out size have holding: "block_holds pf (r_file r @ out) h (entries_of xs)"
    unfolding block_holds_def by auto
  define r' where "r' = r\<lparr>r_status := OK_status, r_file := r_file r @ out,
    r_offset := word_of_nat (length (r_file r @ out)), compressed_output := [],
    data_block := Reset (snd (Finish (pf_little_endian pf) (data_block r))), pending_handle := h,
    pending_index_entry := True\<rparr>"
  have "TableFlush pf sink_append r = Inr r'"
    using p wb builder_empty_iff [OF data] xs open_file
    by (simp add: TableFlush_def file_tied_def rep_ok_def is_ok_def OK_status_def pending_ok_def r'_def Let_def)
  moreover have "parts pf r' es ds (Some (h, entries_of xs)) []"
  proof -
    have "builder_inv (r_options r') [] [0] (data_block r')"
      using p by (simp add: r'_def Reset_inv)
    moreover have "\<forall>d \<in> set ds. block_holds pf (r_file r') (item_handle d) (item_pairs d)"
      using p fileout block_holds_append by (auto simp: r'_def)
    moreover have "index_ok r' ds"
      using p by (subst index_ok_cong [of _ r]) (simp_all add: r'_def)
    moreover have "length (r_file r') \<le> cost 64 (all_pairs ds @ entries_of xs)"
      using p out(1) raw tail by (simp add: r'_def)
    ultimately show ?thesis
      using p ps holding unfolding parts_def
      by (auto simp: r'_def file_tied_def pending_ok_def entries_of_def simp del: of_nat_add)
  qed
  ultimately show ?thesis by (intro exI [of _ r'] exI [of _ h]) (simp add: r'_def)
qed

section \<open>An index entry\<close>

lemma prev_key_entries: "xs \<noteq> [] \<Longrightarrow> prev_key xs (length xs) = fst (last (entries_of xs))"
  by (simp add: prev_key_def entries_of_def last_conv_nth)

lemma last_in_pairs: "ps \<noteq> [] \<Longrightarrow> last ps \<in> set ps"
  by simp

lemma sorted_last: "sorted_pairs ps \<Longrightarrow> p \<in> set ps \<Longrightarrow> fst p \<le> fst (last ps)"
proof (induction ps)
  case (Cons q ps)
  then show ?case by (cases "ps = []") (auto intro: less_imp_le)
qed simp

lemma cost_last: "ps \<noteq> [] \<Longrightarrow> length (fst (last ps)) + c \<le> cost c ps"
proof (induction ps)
  case (Cons q ps)
  then show ?case by (cases q; cases "ps = []") auto
qed simp

lemma add_index_entry_parts:
  assumes parts: "parts pf r es ds (Some (h, ps)) []"
    and key: "fst (last ps) \<le> s" "length s \<le> length (fst (last ps))"
  shows "\<exists>r'. add_index_entry s r = Inr r' \<and> parts pf r' es (ds @ [(s, h, ps)]) None [] \<and>
    r_last_key r' = s \<and> r_options r' = r_options r \<and> closed r' = closed r"
proof -
  note p = parts [unfolded parts_def]
  have pend: "pending_handle r = h" "ps \<noteq> []" "block_holds pf (r_file r) h ps"
    using p by (simp_all add: pending_ok_def)
  have es: "es = all_pairs ds @ ps" using p by (simp add: entries_of_def)
  have sorted: "sorted_pairs ps" using p es by (simp add: sorted_wrt_append)
  from p obtain ixs iris where opts: "index_block_options r = r_options r\<lparr>block_restart_interval := 1\<rparr>"
    and index: "builder_inv (index_block_options r) ixs iris (index_block r)"
      "entries_of ixs = map index_pair ds"
    and size: "cost 19 (map index_pair ds) \<le> cost 64 (all_pairs ds)"
    unfolding index_ok_def by blast
  have last: "last ps \<in> set ps" using pend(2) by (rule last_in_pairs)
  have "prev_key ixs (length ixs) < s" if "ixs \<noteq> []"
  proof -
    have ne: "ds \<noteq> []" using index(2) that by (auto simp: entries_of_def)
    have "prev_key ixs (length ixs) = fst (last ds)"
      using prev_key_entries [OF that] index(2) ne by (simp add: last_map index_pair_def)
    moreover have "fst (last ds) < fst (last ps)"
      using p ne last by (intro separated_less [of ds ps]) (auto simp: entries_of_def)
    ultimately show ?thesis using key(1) by simp
  qed
  with Add_inv [OF index(1), of s "put_handle h"] obtain b' sh iris'
    where add: "Add (index_block_options r) s (put_handle h) (index_block r) = Inr b'"
      "builder_inv (index_block_options r) (ixs @ [(sh, s, put_handle h)]) iris' b'" by blast
  have enc: "EncodeHandle [] (pending_handle r) = Inr (put_handle h)"
    using pend by (simp add: EncodeHandle_eq block_holds_def)
  define r' where "r' = r\<lparr>r_last_key := s, index_block := b', pending_index_entry := False\<rparr>"
  define d where "d = (s, h, ps)"
  have "add_index_entry s r = Inr r'" using enc add(1) by (simp add: add_index_entry_def r'_def)
  moreover have "index_ok r' (ds @ [d])"
  proof -
    have "entries_of (ixs @ [(sh, s, put_handle h)]) = map index_pair (ds @ [d])"
      using index(2) by (simp add: entries_of_def index_pair_def d_def)
    moreover have "cost 19 (map index_pair (ds @ [d])) \<le> cost 64 (all_pairs (ds @ [d]))"
      using size length_put_handle [of h] key(2) cost_last [OF pend(2), of 64]
      by (simp add: index_pair_def d_def)
    ultimately show ?thesis
      using add(2) opts unfolding index_ok_def r'_def by (auto simp del: map_append)
  qed
  moreover have "separated (ds @ [d]) []"
  proof -
    have "separated ds ps" using p by (simp add: entries_of_def)
    moreover have "\<forall>q \<in> set ps. fst q \<le> s" using sorted_last [OF sorted] key(1) order_trans by blast
    ultimately show ?thesis using pend(2) by (simp add: separated_snoc d_def)
  qed
  moreover have "r_file r' = r_file r" "closed r' = closed r" "r_options r' = r_options r"
    "data_block r' = data_block r" "pending_index_entry r' = False" "r_status r' = r_status r"
    "r_offset r' = r_offset r" "num_entries r' = num_entries r" "r_last_key r' = s"
    by (simp_all add: r'_def)
  moreover have "sorted_wrt (<) (map fst (all_pairs ds) @ map fst ps)" using p es by simp
  ultimately show ?thesis
    using p pend(3) unfolding parts_def d_def
    by (intro exI [of _ r']) (simp add: file_tied_def pending_ok_def entries_of_def)
qed

section \<open>Adding a pair\<close>

lemma data_add_parts:
  assumes parts: "parts pf r es ds None xs" and before: "\<forall>d \<in> set ds. fst d < key"
    and sorted: "sorted_pairs (es @ [(key, v)])"
  shows "\<exists>b' xs'. Add (r_options r) key v (data_block r) = Inr b' \<and> xs' \<noteq> [] \<and>
    parts pf (r\<lparr>r_last_key := key, num_entries := num_entries r + 1, data_block := b'\<rparr>)
      (es @ [(key, v)]) ds None xs'"
proof -
  note p = parts [unfolded parts_def]
  from p obtain ris where data: "builder_inv (r_options r) xs ris (data_block r)" by blast
  have es: "es = all_pairs ds @ entries_of xs" using p by simp
  have "prev_key xs (length xs) < key" if "xs \<noteq> []"
  proof -
    have "entries_of xs \<noteq> []" using that by (simp add: entries_of_def)
    then have "last (entries_of xs) \<in> set es" by (simp add: es)
    then show ?thesis using sorted prev_key_entries [OF that] by (simp add: sorted_wrt_append)
  qed
  with Add_inv [OF data, of key v] obtain b' sh ris'
    where add: "Add (r_options r) key v (data_block r) = Inr b'"
      "builder_inv (r_options r) (xs @ [(sh, key, v)]) ris' b'" by blast
  define r' where "r' = r\<lparr>r_last_key := key, num_entries := num_entries r + 1, data_block := b'\<rparr>"
  define xs' where "xs' = xs @ [(sh, key, v)]"
  have entries: "entries_of xs' = entries_of xs @ [(key, v)]" by (simp add: xs'_def entries_of_def)
  have "separated ds (entries_of xs @ [(key, v)])"
    using p before by (intro separated_extend) simp_all
  moreover have "index_ok r' ds" using p by (subst index_ok_cong [of _ r]) (simp_all add: r'_def)
  moreover have "\<exists>ris. builder_inv (r_options r') xs' ris (data_block r')"
    using add(2) by (auto simp: r'_def xs'_def)
  ultimately have "parts pf r' (es @ [(key, v)]) ds None xs'"
    using p es sorted entries unfolding parts_def
    by (simp add: r'_def file_tied_def pending_ok_def)
  with add(1) show ?thesis
    by (intro exI [of _ b'] exI [of _ xs']) (simp add: r'_def xs'_def)
qed

text \<open>
  The invariant between two calls: the last key is that of the last pair, and the blocks in
  the index are followed by a pair.
\<close>

definition table_inv :: "platform \<Rightarrow> byte list rep \<Rightarrow> pairs \<Rightarrow> bool" where
  "table_inv pf r es \<longleftrightarrow> \<not> closed r \<and> (\<exists>ds pend xs. parts pf r es ds pend xs \<and>
     (es \<noteq> [] \<longrightarrow> r_last_key r = fst (last es)) \<and> (pend = None \<and> xs = [] \<longrightarrow> ds = []))"

lemma parts_facts:
  "parts pf r es ds pend xs \<Longrightarrow> r_status r = OK_status \<and> num_entries r = int (length es)"
  by (simp add: parts_def file_tied_def)

lemma table_inv_facts:
  assumes "table_inv pf r es"
  shows "\<not> closed r" "rep_ok r" "num_entries r = int (length es)" "es \<noteq> [] \<Longrightarrow> r_last_key r = fst (last es)"
proof -
  from assms obtain ds pend xs where op: "\<not> closed r" and "parts pf r es ds pend xs" and last: "es \<noteq> [] \<longrightarrow> r_last_key r = fst (last es)"
    unfolding table_inv_def by blast
  from parts_facts [OF this(2)] last op
  show "\<not> closed r" "rep_ok r" "num_entries r = int (length es)" "es \<noteq> [] \<Longrightarrow> r_last_key r = fst (last es)"
    by (simp_all add: rep_ok_def is_ok_def OK_status_def)
qed

lemma make_rep_inv:
  assumes "1 \<le> block_restart_interval opt"
  shows "\<exists>r. make_rep opt [] = Inr r \<and> table_inv pf r [] \<and> r_options r = opt"
proof -
  from make_builder_inv [OF assms] obtain b where b: "make_block_builder opt = Inr b" "builder_inv opt [] [0] b"
    by blast
  have b': "builder_inv (opt\<lparr>block_restart_interval := 1\<rparr>) [] [0] b"
    using b(2) by (simp add: builder_inv_def)
  define r :: "byte list rep" where "r = \<lparr>r_options = opt, index_block_options = opt\<lparr>block_restart_interval := 1\<rparr>,
    r_file = [], r_offset = 0, r_status = OK_status, data_block = b, index_block = b, r_last_key = [],
    num_entries = 0, closed = False, pending_index_entry = False, pending_handle = make_handle,
    compressed_output = []\<rparr>"
  have "make_rep opt [] = Inr r" by (simp add: make_rep_def b(1) r_def)
  moreover have "parts pf r [] [] None []"
  proof -
    have "index_ok r []"
      unfolding index_ok_def using b' by (auto simp: r_def entries_of_def)
    then show ?thesis
      using b(2) assms unfolding parts_def
      by (auto simp: r_def file_tied_def pending_ok_def entries_of_def)
  qed
  moreover have "\<not> closed r" by (simp add: r_def)
  ultimately show ?thesis by (intro exI [of _ r]) (auto simp: table_inv_def r_def)
qed

lemma TableFlush_inv:
  assumes "snappy_ok (pf_snappy pf)" "table_inv pf r es" "cost 64 es + 64 < 2 ^ 32"
  shows "\<exists>r'. TableFlush pf sink_append r = Inr r' \<and> table_inv pf r' es \<and> r_options r' = r_options r \<and>
    (\<exists>ds pend. parts pf r' es ds pend [] \<and> (pend = None \<longrightarrow> ds = []) \<and>
      (es \<noteq> [] \<longrightarrow> r_last_key r' = fst (last es)))"
proof -
  from assms(2) obtain ds pend xs where op: "\<not> closed r" and parts: "parts pf r es ds pend xs"
    and last: "es \<noteq> [] \<longrightarrow> r_last_key r = fst (last es)" and first: "pend = None \<and> xs = [] \<longrightarrow> ds = []"
    by (auto simp: table_inv_def)
  note p = parts [unfolded parts_def]
  from p obtain ris where data: "builder_inv (r_options r) xs ris (data_block r)" by blast
  show ?thesis
  proof (cases "xs = []")
    case True
    have "TableFlush pf sink_append r = Inr r"
      using p op True builder_empty_iff [OF data]
      by (simp add: TableFlush_def file_tied_def rep_ok_def is_ok_def OK_status_def)
    then show ?thesis using assms(2) parts last first True by blast
  next
    case False
    then have "pend = None" using p by (auto simp: pending_ok_def split: option.splits)
    with TableFlush_parts [OF assms(1) _ False op assms(3)] parts obtain r' h
      where r': "TableFlush pf sink_append r = Inr r'" "parts pf r' es ds (Some (h, entries_of xs)) []"
        "r_last_key r' = r_last_key r" "r_options r' = r_options r" "closed r' = closed r" by blast
    then have last': "es \<noteq> [] \<longrightarrow> r_last_key r' = fst (last es)" using last by simp
    have "table_inv pf r' es"
      unfolding table_inv_def using r'(2,5) op last'
      by (intro conjI exI [of _ ds] exI [of _ "Some (h, entries_of xs)"] exI [of _ "[]"]) simp_all
    moreover have "\<exists>ds pend. parts pf r' es ds pend [] \<and> (pend = None \<longrightarrow> ds = []) \<and>
        (es \<noteq> [] \<longrightarrow> r_last_key r' = fst (last es))"
      using r'(2) last' by (intro exI [of _ ds] exI [of _ "Some (h, entries_of xs)"]) simp
    ultimately show ?thesis using r'(1,4) by blast
  qed
qed

lemma before_add_inv:
  assumes "snappy_ok (pf_snappy pf)" "table_inv pf r es" "cost 64 es + 64 < 2 ^ 32"
    and sorted: "sorted_pairs (es @ [(key, v)])"
  shows "\<exists>r'. before_add pf sink_append key v r = Inr r' \<and> table_inv pf r' es \<and> r_options r' = r_options r"
proof (cases "es = []")
  case True
  then have "num_entries r = 0" using table_inv_facts(3) [OF assms(2)] by simp
  with assms(2) show ?thesis by (simp add: before_add_def)
next
  case False
  then have num: "0 < num_entries r" and last: "r_last_key r = fst (last es)"
    using table_inv_facts(3,4) [OF assms(2)] by simp_all
  have "last es \<in> set es" using False by simp
  then have "r_last_key r < key" using sorted last by (simp add: sorted_wrt_append)
  with num TableFlush_inv [OF assms(1-3)] assms(2) show ?thesis
    by (auto simp: before_add_def compare_sign Let_def)
qed

lemma TableAdd_inv:
  assumes sn: "snappy_ok (pf_snappy pf)" and inv: "table_inv pf r es"
    and small: "cost 64 (es @ [(key, v)]) + 64 < 2 ^ 32" and sorted: "sorted_pairs (es @ [(key, v)])"
  shows "\<exists>r'. TableAdd pf sink_append key v r = Inr r' \<and> table_inv pf r' (es @ [(key, v)]) \<and>
    r_options r' = r_options r"
proof -
  have small': "cost 64 es + 64 < 2 ^ 32" using small by simp
  note start = table_inv_facts(1,2) [OF inv]
  from before_add_inv [OF sn inv small' sorted] obtain r1
    where r1: "before_add pf sink_append key v r = Inr r1" "table_inv pf r1 es" "r_options r1 = r_options r"
    by blast
  define add_index where "add_index = (if pending_index_entry r1 then
      if \<not> builder_empty (data_block r1) then Inl Assertion_failed
      else (case FindShortestSeparator (r_last_key r1) key of
              Inl e \<Rightarrow> Inl e | Inr separator \<Rightarrow> add_index_entry separator r1)
    else Inr r1)"
  have "\<exists>r2 ds xs. add_index = Inr r2 \<and> parts pf r2 es ds None xs \<and> (\<forall>d \<in> set ds. fst d < key) \<and>
    r_options r2 = r_options r \<and> \<not> closed r2"
  proof -
    from r1(2) obtain ds pend xs where parts: "parts pf r1 es ds pend xs"
      and last: "es \<noteq> [] \<longrightarrow> r_last_key r1 = fst (last es)" and first: "pend = None \<and> xs = [] \<longrightarrow> ds = []"
      by (auto simp: table_inv_def)
    note op = table_inv_facts(1) [OF r1(2)]
    note p = parts [unfolded parts_def]
    from p obtain ris where data: "builder_inv (r_options r1) xs ris (data_block r1)" by blast
    have rest: "fst d < key" if "d \<in> set ds" "pending_pairs pend @ entries_of xs \<noteq> []" for d
    proof -
      define q where "q = hd (pending_pairs pend @ entries_of xs)"
      have q: "q \<in> set (pending_pairs pend @ entries_of xs)" unfolding q_def using that(2) by (rule hd_in_set)
      then have "fst d < fst q" using p that(1) separated_less by blast
      moreover have "q \<in> set es" using q p by auto
      then have "fst q < key" using sorted by (simp add: sorted_wrt_append)
      ultimately show ?thesis by (rule order.strict_trans)
    qed
    show ?thesis
    proof (cases pend)
      case None
      then have "add_index = Inr r1" using p by (simp add: add_index_def pending_ok_def)
      moreover have "\<forall>d \<in> set ds. fst d < key"
        using rest first None by (cases "xs = []") (auto simp: entries_of_def)
      ultimately show ?thesis using parts None r1(3) op by blast
    next
      case (Some hp)
      obtain h ps where hp: "hp = (h, ps)" by (cases hp)
      have pend': "pending_index_entry r1" "xs = []" "ps \<noteq> []" using p Some hp by (auto simp: pending_ok_def)
      have es: "es = all_pairs ds @ ps" using p Some hp pend'(2) by (simp add: entries_of_def)
      have lk: "r_last_key r1 = fst (last ps)" using last es pend'(3) by simp
      have "last ps \<in> set es" using es pend'(3) by simp
      then have "fst (last ps) < key" using sorted by (simp add: sorted_wrt_append)
      from FindShortestSeparator_between [OF this] obtain s
        where s: "FindShortestSeparator (r_last_key r1) key = Inr s" "fst (last ps) \<le> s" "s < key"
          "length s \<le> length (fst (last ps))" unfolding lk by blast
      from add_index_entry_parts [OF _ s(2,4)] parts Some hp pend'(2) obtain r2
        where r2: "add_index_entry s r1 = Inr r2" "parts pf r2 es (ds @ [(s, h, ps)]) None []"
          "r_options r2 = r_options r1" "closed r2 = closed r1" by blast
      have "add_index = Inr r2"
        using pend' s(1) r2(1) builder_empty_iff [OF data] by (simp add: add_index_def)
      moreover have "\<forall>d \<in> set (ds @ [(s, h, ps)]). fst d < key"
        using rest s(3) Some hp pend'(3) by auto
      ultimately show ?thesis
        using r2(2,3,4) r1(3) op by (intro exI [of _ r2] exI [of _ "ds @ [(s, h, ps)]"] exI [of _ "[]"]) simp
    qed
  qed
  then obtain r2 ds xs where r2: "add_index = Inr r2" "parts pf r2 es ds None xs" "\<forall>d \<in> set ds. fst d < key"
    "r_options r2 = r_options r" "\<not> closed r2" by blast
  from data_add_parts [OF r2(2,3) sorted] obtain b' xs' where b': "Add (r_options r2) key v (data_block r2) = Inr b'"
    "xs' \<noteq> []" "parts pf (r2\<lparr>r_last_key := key, num_entries := num_entries r2 + 1, data_block := b'\<rparr>)
      (es @ [(key, v)]) ds None xs'" by blast
  define r3 where "r3 = r2\<lparr>r_last_key := key, num_entries := num_entries r2 + 1, data_block := b'\<rparr>"
  have inv3: "table_inv pf r3 (es @ [(key, v)])"
    using b'(2,3) r2(5) unfolding table_inv_def r3_def [symmetric] by (auto simp: r3_def)
  have step: "TableAdd pf sink_append key v r =
      (if block_size (r_options r3) \<le> CurrentSizeEstimate (data_block r3) then TableFlush pf sink_append r3
       else Inr r3)"
    unfolding TableAdd_def Let_def add_index_def [symmetric]
    using start r1(1) r2(1) b'(1) by (simp add: add_index_def [symmetric] r3_def [symmetric])
  show ?thesis
    using TableFlush_inv [OF sn inv3 small] inv3 r2(4) unfolding step by (auto simp: r3_def)
qed

section \<open>Finishing the table\<close>

text \<open>What a finished file holds.\<close>

definition table_file :: "platform \<Rightarrow> byte list \<Rightarrow> pairs \<Rightarrow> index_item list \<Rightarrow> footer \<Rightarrow> bool" where
  "table_file pf file es ds f \<longleftrightarrow> length file < 2 ^ 33 \<and>
     (\<exists>blocks. file = blocks @ footer_bytes (pf_little_endian pf) f) \<and>
     block_holds pf file (index_handle f) (map index_pair ds) \<and>
     (\<forall>d \<in> set ds. block_holds pf file (item_handle d) (item_pairs d)) \<and>
     separated ds [] \<and> es = all_pairs ds \<and> sorted_pairs es"

lemma separated_append: "separated (xs @ ys) rest \<Longrightarrow> separated ys rest"
  by (induction xs) auto

lemma separated_sorted: "separated ds rest \<Longrightarrow> sorted_pairs (map index_pair ds)"
proof (induction ds)
  case (Cons d ds)
  have "fst d < fst d'" if "d' \<in> set ds" for d'
  proof -
    from that obtain ds1 ds2 where split: "ds = ds1 @ d' # ds2" by (auto dest: split_list)
    have "separated (d' # ds2) rest"
      using Cons.prems split separated_append [of "d # ds1" "d' # ds2" rest] by simp
    then obtain p where p: "p \<in> set (item_pairs d')" "fst p \<le> fst d'"
      by (cases "item_pairs d'") auto
    then have "fst d < fst p" using Cons.prems split by (auto simp: all_pairs_def)
    with p(2) show ?thesis by simp
  qed
  with Cons show ?case by (auto simp: index_pair_def)
qed simp

text \<open>Adding an index entry does not look at the file.\<close>

lemma add_index_entry_file:
  "add_index_entry s (r\<lparr>r_status := st, r_file := f, r_offset := off, compressed_output := out, closed := c\<rparr>) =
    map_sum id (\<lambda>r. r\<lparr>r_status := st, r_file := f, r_offset := off, compressed_output := out, closed := c\<rparr>)
      (add_index_entry s r)"
  by (simp add: add_index_entry_def split: sum.splits)

lemma add_index_entry_same_file: "add_index_entry s r = Inr r' \<Longrightarrow> r_file r' = r_file r"
  by (auto simp: add_index_entry_def split: sum.splits)

lemma index_block_length:
  assumes "index_ok r ds" "cost 64 (all_pairs ds) + 64 < 2 ^ 32" "separated ds rest"
  shows "length (fst (Finish le (index_block r))) \<le> cost 64 (all_pairs ds) + 8"
    "holds_pairs le (map index_pair ds) (fst (Finish le (index_block r)))"
proof -
  from assms(1) obtain ixs iris where index: "builder_inv (index_block_options r) ixs iris (index_block r)"
    "entries_of ixs = map index_pair ds" and size: "cost 19 (map index_pair ds) \<le> cost 64 (all_pairs ds)"
    unfolding index_ok_def by blast
  show "length (fst (Finish le (index_block r))) \<le> cost 64 (all_pairs ds) + 8"
    using Finish_length [OF index(1), of le] size index(2) by simp
  have "sorted_pairs (entries_of ixs)" unfolding index(2) by (rule separated_sorted [OF assms(3)])
  from Finish_holds [OF index(1) this, of le]
  show "holds_pairs le (map index_pair ds) (fst (Finish le (index_block r)))" unfolding index(2) .
qed

text \<open>The state with which the index block is written, before the file has grown.\<close>

lemma index_entry_done:
  assumes "parts pf r es ds pend []" "pend = None \<longrightarrow> ds = []" "es \<noteq> [] \<longrightarrow> r_last_key r = fst (last es)"
  shows "\<exists>r' ds'. (if pending_index_entry r then add_index_entry (FindShortSuccessor (r_last_key r)) r else Inr r) =
      Inr r' \<and> parts pf r' es ds' None [] \<and> r_options r' = r_options r"
proof (cases pend)
  case None
  with assms(1) have "\<not> pending_index_entry r" by (simp add: parts_def pending_ok_def)
  with assms(1) None show ?thesis by (intro exI [of _ r] exI [of _ ds]) simp
next
  case (Some hp)
  obtain h ps where hp: "hp = (h, ps)" by (cases hp)
  have p: "pending_index_entry r" "ps \<noteq> []" "es = all_pairs ds @ ps"
    using assms(1) Some hp by (auto simp: parts_def pending_ok_def entries_of_def)
  then have lk: "r_last_key r = fst (last ps)" using assms(3) by simp
  have "parts pf r es ds (Some (h, ps)) []" using assms(1) Some hp by simp
  from add_index_entry_parts [OF this FindShortSuccessor_above]
  show ?thesis unfolding lk using p(1) FindShortSuccessor_above by auto
qed

lemma TableFinish_file:
  assumes sn: "snappy_ok (pf_snappy pf)" and inv: "table_inv pf r es" and small: "cost 64 es + 64 < 2 ^ 32"
  shows "\<exists>r' ds f. TableFinish pf sink_append r = Inr (OK_status, r') \<and> table_file pf (r_file r') es ds f \<and>
    closed r' \<and> FileSize r' = word_of_nat (length (r_file r'))"
proof -
  define le where "le = pf_little_endian pf"
  from TableFlush_inv [OF sn inv small] obtain r1 ds pend where r1: "TableFlush pf sink_append r = Inr r1"
    "table_inv pf r1 es" "parts pf r1 es ds pend []" "pend = None \<longrightarrow> ds = []"
    "es \<noteq> [] \<longrightarrow> r_last_key r1 = fst (last es)" by blast
  from index_entry_done [OF r1(3-5)] obtain r2 ds2 where r2:
    "(if pending_index_entry r1 then add_index_entry (FindShortSuccessor (r_last_key r1)) r1 else Inr r1) = Inr r2"
    "parts pf r2 es ds2 None []" "r_options r2 = r_options r1" by blast
  note p = r1(3) [unfolded parts_def] and p2 = r2(2) [unfolded parts_def]
  have opts: "1 \<le> block_restart_interval (r_options r1)" and tied: "r_status r1 = OK_status"
    "r_offset r1 = word_of_nat (length (r_file r1))" using p by (simp_all add: file_tied_def)
  have es: "es = all_pairs ds2" using p2 by (simp add: entries_of_def)
  have files: "r_file r2 = r_file r1" "length (r_file r2) \<le> cost 64 es"
    using r2(1) p2 es by (auto dest: add_index_entry_same_file simp: entries_of_def split: if_splits)
  from make_builder_inv [OF opts] obtain mb where mb: "make_block_builder (r_options r1) = Inr mb"
    "builder_inv (r_options r1) [] [0] mb" by blast
  define raw1 where "raw1 = fst (Finish le mb)"
  have raw1: "length raw1 \<le> 8"
    using Finish_length [OF mb(2), of le] by (simp add: raw1_def entries_of_def)
  define r1' where "r1' = r1\<lparr>closed := True\<rparr>"
  have size1: "length (r_file r1') + length raw1 + 5 < 2 ^ 63"
    using files small raw1 by (simp add: r1'_def)
  have "file_tied r1'" using tied by (simp add: file_tied_def r1'_def)
  from WriteBlock_at [OF sn this raw1_def [unfolded le_def] size1] obtain mh m where meta:
    "WriteBlock pf sink_append mb r1' = Inr (mh, Reset (snd (Finish (pf_little_endian pf) mb)),
        r1'\<lparr>r_status := OK_status, r_file := r_file r1' @ m, r_offset := word_of_nat (length (r_file r1' @ m)),
          compressed_output := []\<rparr>)"
    "length m \<le> length raw1 + 5" "handle_set mh" "block_at pf (r_file r1' @ m) mh raw1" by blast
  define upd where "upd = (\<lambda>r :: byte list rep. r\<lparr>r_status := OK_status, r_file := r_file r1 @ m,
    r_offset := word_of_nat (length (r_file r1 @ m)), compressed_output := [], closed := True\<rparr>)"
  have step1: "finish_metaindex pf sink_append (r1\<lparr>closed := True\<rparr>) = Inr (mh, upd r1)"
    using meta(1) mb(1) tied(1)
    by (simp add: finish_metaindex_def rep_ok_def is_ok_def OK_status_def upd_def r1'_def)
  define raw2 where "raw2 = fst (Finish le (index_block r2))"
  have index: "index_ok r2 ds2" "separated ds2 []" using p2 by (simp_all add: entries_of_def)
  have raw2: "length raw2 \<le> cost 64 es + 8" "holds_pairs le (map index_pair ds2) raw2"
    using index_block_length [OF index(1) _ index(2), of le] small es by (simp_all add: raw2_def)
  have "file_tied (upd r2)" by (simp add: upd_def file_tied_def)
  moreover have size2: "length (r_file (upd r2)) + length raw2 + 5 < 2 ^ 33"
    using files small raw1 raw2(1) meta(2) by (simp add: upd_def)
  moreover have "raw2 = fst (Finish (pf_little_endian pf) (index_block r2))" by (simp add: raw2_def le_def)
  ultimately obtain ih i where ind: "WriteBlock pf sink_append (index_block r2) (upd r2) =
      Inr (ih, Reset (snd (Finish (pf_little_endian pf) (index_block r2))),
        upd r2\<lparr>r_status := OK_status, r_file := r_file (upd r2) @ i,
          r_offset := word_of_nat (length (r_file (upd r2) @ i)), compressed_output := []\<rparr>)"
    "length i \<le> length raw2 + 5" "handle_set ih" "block_at pf (r_file (upd r2) @ i) ih raw2"
    using WriteBlock_at [OF sn, of "upd r2" raw2 "index_block r2"] by auto
  have "(if pending_index_entry (upd r1) then add_index_entry (FindShortSuccessor (r_last_key (upd r1))) (upd r1)
      else Inr (upd r1)) = Inr (upd r2)"
    using r2(1) by (simp add: upd_def add_index_entry_file split: if_splits)
  then have step2: "finish_index pf sink_append (upd r1) = Inr (ih,
      upd r2\<lparr>r_file := r_file (upd r2) @ i, r_offset := word_of_nat (length (r_file (upd r2) @ i)),
        index_block := Reset (snd (Finish (pf_little_endian pf) (index_block r2)))\<rparr>)"
  proof -
    have "rep_ok (upd r1)" "index_block (upd r2) = index_block r2"
      by (simp_all add: upd_def rep_ok_def is_ok_def OK_status_def)
    then show ?thesis
      unfolding finish_index_def
      using ind(1) \<open>(if pending_index_entry (upd r1) then _ else _) = _\<close>
      by (simp only: if_True sum.case prod.case) (simp add: upd_def)
  qed
  define r3 where "r3 = upd r2\<lparr>r_file := r_file (upd r2) @ i,
    r_offset := word_of_nat (length (r_file (upd r2) @ i)),
    index_block := Reset (snd (Finish (pf_little_endian pf) (index_block r2)))\<rparr>"
  define f where "f = \<lparr>metaindex_handle = mh, index_handle = ih\<rparr>"
  define fc where "fc = r_file r3 @ footer_bytes le f"
  have enc: "EncodeFooter le [] f = Inr (footer_bytes le f)"
    using meta(3) ind(3) by (intro EncodeFooter_eq) (simp_all add: f_def)
  define r4 where "r4 = r3\<lparr>r_status := OK_status, r_file := fc, r_offset := word_of_nat (length fc)\<rparr>"
  have tied3: "r_status r3 = OK_status" "r_offset r3 = word_of_nat (length (r_file r3))"
    by (simp_all add: r3_def upd_def)
  then have step3: "finish_footer pf sink_append f r3 = Inr r4"
    using enc by (simp add: finish_footer_def rep_ok_def is_ok_def OK_status_def sink_append_def le_def
        r4_def fc_def)
  have fin: "TableFinish pf sink_append r = Inr (OK_status, r4)"
    unfolding TableFinish_def r1(1)
    using table_inv_facts(1) [OF r1(2)] step1 step2 [folded r3_def] step3
    by (simp add: f_def [symmetric]) (simp add: r4_def)
  have file_eq: "fc = r_file r1 @ m @ i @ footer_bytes le f"
    by (simp add: fc_def r3_def upd_def)
  have fits: "length fc < 2 ^ 33"
    using files small raw1 raw2(1) meta(2) ind(2) length_footer [of le f]
    by (simp add: file_eq upd_def kEncodedLength_def kMaxEncodedLength_def)
  then have short: "length fc < 2 ^ 63" by simp
  have "block_at pf fc ih raw2"
    using block_at_append [OF ind(4), of "footer_bytes le f"] short
    by (simp add: file_eq upd_def)
  then have "block_holds pf fc (index_handle f) (map index_pair ds2)"
    using ind(3) raw2 small unfolding block_holds_def by (auto simp: f_def le_def)
  moreover have "\<forall>d \<in> set ds2. block_holds pf fc (item_handle d) (item_pairs d)"
    using p2 block_holds_append [where out = "m @ i @ footer_bytes le f"] short
    by (auto simp: file_eq files(1))
  moreover have "\<exists>blocks. fc = blocks @ footer_bytes le f" by (simp add: file_eq)
  moreover have "sorted_pairs es" using p2 by blast
  ultimately have "table_file pf fc es ds2 f"
    using fits index(2) es unfolding table_file_def le_def by simp
  moreover have "closed r4" by (simp add: r4_def r3_def upd_def)
  ultimately show ?thesis
    using fin by (intro exI [of _ r4] exI [of _ ds2] exI [of _ f]) (simp add: r4_def FileSize_def)
qed

section \<open>Building a table\<close>

text \<open>
  \<open>TableConstructor::FinishImpl\<close> of \<open>table_unittest.cc\<close>, up to the finished file: the pairs
  are added one by one, and the status is checked after each.
\<close>

fun table_add_all :: "platform \<Rightarrow> pairs \<Rightarrow> byte list rep \<Rightarrow> fault + byte list rep" where
  "table_add_all pf [] r = Inr r"
| "table_add_all pf ((key, v) # es) r =
     (case TableAdd pf sink_append key v r of
        Inl e \<Rightarrow> Inl e
      | Inr r \<Rightarrow> if is_ok (r_status r) then table_add_all pf es r else Inl Assertion_failed)"

definition build_table :: "platform \<Rightarrow> options \<Rightarrow> pairs \<Rightarrow> fault + status \<times> byte list" where
  "build_table pf opt es =
     (case make_rep opt [] of
        Inl e \<Rightarrow> Inl e
      | Inr r \<Rightarrow>
          (case table_add_all pf es r of
             Inl e \<Rightarrow> Inl e
           | Inr r \<Rightarrow>
               (case TableFinish pf sink_append r of
                  Inl e \<Rightarrow> Inl e
                | Inr (s, r) \<Rightarrow>
                    if FileSize r = word_of_nat (length (r_file r)) then Inr (s, r_file r)
                    else Inl Assertion_failed)))"

lemma table_add_all_inv:
  "snappy_ok (pf_snappy pf) \<Longrightarrow> table_inv pf r done \<Longrightarrow> cost 64 (done @ es) + 64 < 2 ^ 32 \<Longrightarrow>
    sorted_pairs (done @ es) \<Longrightarrow> \<exists>r'. table_add_all pf es r = Inr r' \<and> table_inv pf r' (done @ es)"
proof (induction es arbitrary: r "done")
  case (Cons e es)
  obtain key v where e: "e = (key, v)" by (cases e)
  have "cost 64 (done @ [(key, v)]) + 64 < 2 ^ 32" using Cons.prems(3) e by simp
  moreover have "sorted_pairs (done @ [(key, v)])" using Cons.prems(4) e by (simp add: sorted_wrt_append)
  ultimately obtain r1 where r1: "TableAdd pf sink_append key v r = Inr r1" "table_inv pf r1 (done @ [(key, v)])"
    using TableAdd_inv [OF Cons.prems(1,2)] by blast
  have "is_ok (r_status r1)" using table_inv_facts(2) [OF r1(2)] by (simp add: rep_ok_def)
  moreover from Cons.IH [OF Cons.prems(1) r1(2)] Cons.prems(3,4) e
  obtain r' where "table_add_all pf es r1 = Inr r'" "table_inv pf r' ((done @ [(key, v)]) @ es)" by auto
  ultimately show ?case using r1(1) e by simp
qed simp

lemma build_table_file:
  assumes "snappy_ok (pf_snappy pf)" "1 \<le> block_restart_interval opt" "sorted_pairs es"
    "cost 64 es + 64 < 2 ^ 32"
  shows "\<exists>fc ds f. build_table pf opt es = Inr (OK_status, fc) \<and> table_file pf fc es ds f"
proof -
  from make_rep_inv [OF assms(2)] obtain r where r: "make_rep opt [] = Inr r" "table_inv pf r []" by blast
  from table_add_all_inv [OF assms(1) r(2), of es] assms(3,4) obtain r1
    where r1: "table_add_all pf es r = Inr r1" "table_inv pf r1 es" by auto
  from TableFinish_file [OF assms(1) r1(2) assms(4)] obtain r2 ds f
    where r2: "TableFinish pf sink_append r1 = Inr (OK_status, r2)" "table_file pf (r_file r2) es ds f"
      "FileSize r2 = word_of_nat (length (r_file r2))" by blast
  then have "build_table pf opt es = Inr (OK_status, r_file r2)"
    using r(1) r1(1) by (simp add: build_table_def)
  with r2(2) show ?thesis by blast
qed

end
