(* ===== verification/Table_Read.thy ===== *)
theory Table_Read
  imports Table Table_Built
begin

text \<open>
  The two-level iterator fulfils the contract of an iterator, for the pairs of all blocks
  that its index names; the iterator of an opened table is such an iterator.
\<close>

section \<open>Sequences of blocks\<close>

lemma seek_blocks:
  "separated ds [] \<Longrightarrow> first_at_least target (all_pairs ds) =
    (let b = first_at_least target (map index_pair ds) in
     if b < length ds then length (all_pairs (take b ds)) + first_at_least target (item_pairs (ds ! b))
     else length (all_pairs ds))"
proof (induction ds)
  case (Cons d ds)
  show ?case
  proof (cases "fst d < target")
    case True
    then have "\<forall>p \<in> set (item_pairs d). fst p < target" using Cons.prems by auto
    then have here: "first_at_least target (item_pairs d) = length (item_pairs d)"
      by (simp add: first_at_least_def takeWhile_eq_all_conv [THEN iffD2])
    have "first_at_least target (map index_pair (d # ds)) = Suc (first_at_least target (map index_pair ds))"
      using True by (simp add: first_at_least_def index_pair_def)
    then show ?thesis
      using Cons here by (simp add: first_at_least_append Let_def)
  next
    case False
    then have zero: "first_at_least target (map index_pair (d # ds)) = 0"
      by (simp add: first_at_least_def index_pair_def)
    have "first_at_least target (all_pairs ds) = 0"
    proof (cases "all_pairs ds")
      case (Cons p ps)
      then have "fst d < fst p" using Cons.prems by simp
      then have "\<not> fst p < target" using False by simp
      then show ?thesis by (simp add: Cons first_at_least_def)
    qed (simp add: first_at_least_def)
    then show ?thesis
      using first_at_least_le [of target "item_pairs d"] unfolding zero
      by (simp add: first_at_least_append Let_def)
  qed
qed (simp add: first_at_least_def)

lemma all_pairs_take: "b < length ds \<Longrightarrow> all_pairs (take (Suc b) ds) = all_pairs (take b ds) @ item_pairs (ds ! b)"
  by (simp add: take_Suc_conv_app_nth)

lemma all_pairs_nth:
  assumes "b < length ds" "j < length (item_pairs (ds ! b))"
  shows "length (all_pairs (take b ds)) + j < length (all_pairs ds)"
    "all_pairs ds ! (length (all_pairs (take b ds)) + j) = item_pairs (ds ! b) ! j"
proof -
  have "all_pairs ds = all_pairs (take b ds) @ item_pairs (ds ! b) @ all_pairs (drop (Suc b) ds)"
    using assms(1) by (metis all_pairs_simps(2,3) id_take_nth_drop)
  then show "length (all_pairs (take b ds)) + j < length (all_pairs ds)"
    "all_pairs ds ! (length (all_pairs (take b ds)) + j) = item_pairs (ds ! b) ! j"
    using assms(2) by (simp_all add: nth_append)
qed

lemma separated_nonempty: "separated ds rest \<Longrightarrow> d \<in> set ds \<Longrightarrow> item_pairs d \<noteq> []"
  by (induction ds) auto

section \<open>The state of a two-level iterator\<close>

definition reads :: "bool \<Rightarrow> block_function \<Rightarrow> index_item list \<Rightarrow> bool" where
  "reads le fn ds \<longleftrightarrow> (\<forall>d \<in> set ds. \<exists>it. fn (put_handle (item_handle d)) = Inr it \<and>
     iterator_source le (item_pairs d) it)"

definition data_ok :: "bool \<Rightarrow> index_item list \<Rightarrow> two_level \<Rightarrow> bool" where
  "data_ok le ds t \<longleftrightarrow> (\<forall>dit. data_iter t = Some dit \<longrightarrow> (\<exists>ps. iterator_source le ps dit \<and>
     (\<forall>d \<in> set ds. put_handle (item_handle d) = data_block_handle t \<longrightarrow> item_pairs d = ps)))"

definition blocks_ok :: "bool \<Rightarrow> block_function \<Rightarrow> pairs \<Rightarrow> index_item list \<Rightarrow> bool" where
  "blocks_ok le fn es ds \<longleftrightarrow> es = all_pairs ds \<and> separated ds [] \<and> sorted_pairs es \<and> reads le fn ds"

definition state_ok :: "bool \<Rightarrow> index_item list \<Rightarrow> two_level \<Rightarrow> bool" where
  "state_ok le ds t \<longleftrightarrow> iterator_source le (map index_pair ds) (index_iter t) \<and> tl_status t = OK_status \<and>
     data_ok le ds t"

text \<open>The index iterator is at block \<open>b\<close>, the data iterator at pair \<open>j\<close> of it.\<close>

definition at_block :: "bool \<Rightarrow> index_item list \<Rightarrow> nat \<Rightarrow> nat \<Rightarrow> two_level \<Rightarrow> bool" where
  "at_block le ds b j t \<longleftrightarrow> iterator_stands le (map index_pair ds) b (index_iter t) \<and>
     (if b < length ds then \<exists>dit. data_iter t = Some dit \<and> iterator_stands le (item_pairs (ds ! b)) j dit \<and>
        data_block_handle t = put_handle (item_handle (ds ! b))
      else data_iter t = None \<and> j = 0)"

lemma source_status: "iterator_source le es it \<Longrightarrow> iterator_status it = OK_status"
  by (cases it) (auto simp: block_source_def)

lemma source_unique: "iterator_source le es it \<Longrightarrow> iterator_source le es' it \<Longrightarrow> es = es'"
proof -
  assume src: "iterator_source le es it" "iterator_source le es' it"
  from any_iterator.first_at [OF src(1)] obtain a where a: "iterator_SeekToFirst le it = Inr a"
    "iterator_stands le es 0 a" by blast
  from any_iterator.first_at [OF src(2)] a(1) have a': "iterator_stands le es' 0 a" by auto
  define n where "n = max (length es) (length es')"
  from any_iterator.scan_rest [OF a(2), of n] any_iterator.scan_rest [OF a', of n]
  show "es = es'" by (auto simp: n_def)
qed

lemma SetDataIterator_ok:
  assumes "state_ok le ds t"
  shows "SetDataIterator d t = t\<lparr>data_iter := d\<rparr>"
proof (cases "data_iter t")
  case (Some old)
  with assms have "iterator_status old = OK_status"
    using source_status by (auto simp: state_ok_def data_ok_def)
  with Some show ?thesis by (simp add: SetDataIterator_def SaveError_def is_ok_def OK_status_def)
qed (simp add: SetDataIterator_def)

lemma InitDataBlock_ok:
  assumes reads: "reads le fn ds" and ok: "state_ok le ds t"
    and idx: "iterator_stands le (map index_pair ds) b (index_iter t)"
  shows "\<exists>t'. InitDataBlock fn t = Inr t' \<and> state_ok le ds t' \<and> index_iter t' = index_iter t \<and>
    (if b < length ds then \<exists>dit. data_iter t' = Some dit \<and> iterator_source le (item_pairs (ds ! b)) dit \<and>
       data_block_handle t' = put_handle (item_handle (ds ! b))
     else data_iter t' = None)"
proof (cases "b < length ds")
  case False
  then have "\<not> iterator_Valid (index_iter t)" using any_iterator.valid_iff [OF idx] by simp
  then have "InitDataBlock fn t = Inr (t\<lparr>data_iter := None\<rparr>)"
    by (simp add: InitDataBlock_def SetDataIterator_ok [OF ok])
  then show ?thesis using ok False by (simp add: state_ok_def data_ok_def)
next
  case True
  define d where "d = ds ! b"
  have d: "d \<in> set ds" using True by (simp add: d_def)
  have valid: "iterator_Valid (index_iter t)" using any_iterator.valid_iff [OF idx] True by simp
  have handle: "iterator_value (index_iter t) = Inr (put_handle (item_handle d))"
    using any_iterator.val_at [OF idx] True by (simp add: index_pair_def d_def)
  show ?thesis
  proof (cases "data_iter t \<noteq> None \<and> compare (put_handle (item_handle d)) (data_block_handle t) = 0")
    case same: True
    then obtain dit where dit: "data_iter t = Some dit" "put_handle (item_handle d) = data_block_handle t"
      by (auto simp: compare_sign)
    then have "iterator_source le (item_pairs d) dit" using ok d by (auto simp: state_ok_def data_ok_def)
    then show ?thesis
      using ok valid handle same dit True by (simp add: InitDataBlock_def d_def)
  next
    case new: False
    from reads d obtain dit where dit: "fn (put_handle (item_handle d)) = Inr dit"
      "iterator_source le (item_pairs d) dit" by (auto simp: reads_def)
    define t' where "t' = t\<lparr>data_block_handle := put_handle (item_handle d), data_iter := Some dit\<rparr>"
    have "state_ok le ds t'"
    proof -
      have "item_pairs d' = item_pairs d"
        if same: "d' \<in> set ds" "put_handle (item_handle d') = put_handle (item_handle d)" for d'
      proof -
        from reads same(1) obtain dit' where "fn (put_handle (item_handle d')) = Inr dit'"
          "iterator_source le (item_pairs d') dit'" by (auto simp: reads_def)
        with same(2) dit show ?thesis using source_unique by auto
      qed
      then show ?thesis using ok dit(2) by (auto simp: state_ok_def data_ok_def t'_def)
    qed
    moreover have "InitDataBlock fn t = Inr t'"
    proof -
      have "SetDataIterator (Some dit) (t\<lparr>data_block_handle := put_handle (item_handle d)\<rparr>) = t'"
      proof (cases "data_iter t")
        case (Some old)
        with ok have "iterator_status old = OK_status"
          using source_status by (auto simp: state_ok_def data_ok_def)
        with Some show ?thesis by (simp add: SetDataIterator_def SaveError_def is_ok_def OK_status_def t'_def)
      qed (simp add: SetDataIterator_def t'_def)
      then show ?thesis using valid handle new dit(1) by (auto simp: InitDataBlock_def)
    qed
    ultimately show ?thesis using dit(2) True by (simp add: t'_def d_def)
  qed
qed

definition tl_source :: "bool \<Rightarrow> block_function \<Rightarrow> pairs \<Rightarrow> two_level \<Rightarrow> bool" where
  "tl_source le fn es t \<longleftrightarrow> (\<exists>ds. blocks_ok le fn es ds \<and> state_ok le ds t)"

definition tl_stands :: "bool \<Rightarrow> block_function \<Rightarrow> pairs \<Rightarrow> nat \<Rightarrow> two_level \<Rightarrow> bool" where
  "tl_stands le fn es i t \<longleftrightarrow> (\<exists>ds b j. blocks_ok le fn es ds \<and> state_ok le ds t \<and> at_block le ds b j t \<and>
     b \<le> length ds \<and> i = length (all_pairs (take b ds)) + j \<and>
     (b < length ds \<longrightarrow> j < length (item_pairs (ds ! b))))"

lemma stands_here:
  assumes "blocks_ok le fn es ds" "state_ok le ds t" "at_block le ds b j t" "b \<le> length ds"
    "b < length ds \<longrightarrow> j < length (item_pairs (ds ! b))"
  shows "tl_stands le fn es (length (all_pairs (take b ds)) + j) t"
  using assms unfolding tl_stands_def by blast

lemma data_SeekToFirst_at:
  assumes "state_ok le ds t" "iterator_stands le (map index_pair ds) b (index_iter t)"
    and "if b < length ds then \<exists>dit. data_iter t = Some dit \<and> iterator_source le (item_pairs (ds ! b)) dit \<and>
       data_block_handle t = put_handle (item_handle (ds ! b))
     else data_iter t = None"
  shows "\<exists>t'. data_SeekToFirst le t = Inr t' \<and> state_ok le ds t' \<and> at_block le ds b 0 t' \<and>
    index_iter t' = index_iter t"
proof (cases "b < length ds")
  case False
  with assms show ?thesis by (simp add: data_SeekToFirst_def at_block_def)
next
  case True
  with assms(3) obtain dit where dit: "data_iter t = Some dit" "iterator_source le (item_pairs (ds ! b)) dit"
    "data_block_handle t = put_handle (item_handle (ds ! b))" by auto
  from any_iterator.first_at [OF dit(2)] obtain dit' where dit': "iterator_SeekToFirst le dit = Inr dit'"
    "iterator_stands le (item_pairs (ds ! b)) 0 dit'" by blast
  have "iterator_source le (item_pairs (ds ! b)) dit'" using any_iterator.stands_source [OF dit'(2)] .
  moreover obtain ps where ps: "iterator_source le ps dit"
    "\<forall>d \<in> set ds. put_handle (item_handle d) = data_block_handle t \<longrightarrow> item_pairs d = ps"
    using assms(1) dit(1) by (auto simp: state_ok_def data_ok_def)
  moreover have "ps = item_pairs (ds ! b)" using source_unique [OF ps(1) dit(2)] .
  ultimately have "state_ok le ds (t\<lparr>data_iter := Some dit'\<rparr>)"
    using assms(1) by (auto simp: state_ok_def data_ok_def)
  then show ?thesis using True dit dit' assms(2) by (simp add: data_SeekToFirst_def at_block_def)
qed

text \<open>A data iterator that has moved within its block.\<close>

lemma data_moved:
  assumes "state_ok le ds t" "at_block le ds b j t" "b < length ds"
    "iterator_stands le (item_pairs (ds ! b)) j' dit'"
  shows "state_ok le ds (t\<lparr>data_iter := Some dit'\<rparr>)" "at_block le ds b j' (t\<lparr>data_iter := Some dit'\<rparr>)"
proof -
  from assms(2,3) obtain dit where dit: "data_iter t = Some dit" "iterator_stands le (item_pairs (ds ! b)) j dit"
    "data_block_handle t = put_handle (item_handle (ds ! b))"
    by (auto simp: at_block_def)
  obtain ps where ps: "iterator_source le ps dit"
    "\<forall>d \<in> set ds. put_handle (item_handle d) = data_block_handle t \<longrightarrow> item_pairs d = ps"
    using assms(1) dit(1) by (auto simp: state_ok_def data_ok_def)
  have "ps = item_pairs (ds ! b)"
    by (rule source_unique [OF ps(1) any_iterator.stands_source [OF dit(2)]])
  then show "state_ok le ds (t\<lparr>data_iter := Some dit'\<rparr>)"
    using assms(1) ps(2) any_iterator.stands_source [OF assms(4)] by (auto simp: state_ok_def data_ok_def)
  show "at_block le ds b j' (t\<lparr>data_iter := Some dit'\<rparr>)"
    using assms(2,3,4) dit(3) by (auto simp: at_block_def)
qed

lemma at_block_Valid:
  assumes "at_block le ds b j t"
  shows "tl_Valid t \<longleftrightarrow> b < length ds \<and> j < length (item_pairs (ds ! b))"
  using assms any_iterator.valid_iff unfolding at_block_def tl_Valid_def
  by (cases "b < length ds") auto

lemma skip_valid: "tl_Valid t \<Longrightarrow> SkipEmptyDataBlocksForward le fn t = Inr t"
  by (subst SkipEmptyDataBlocksForward.simps) (auto simp: tl_Valid_def)

lemma skip_stands:
  assumes blocks: "blocks_ok le fn es ds" and ok: "state_ok le ds t" and at: "at_block le ds b j t"
    and j: "b < length ds \<longrightarrow> j \<le> length (item_pairs (ds ! b))" and b: "b \<le> length ds"
  shows "\<exists>t'. SkipEmptyDataBlocksForward le fn t = Inr t' \<and>
    tl_stands le fn es (length (all_pairs (take b ds)) + j) t'"
proof -
  have done': "\<exists>t'. SkipEmptyDataBlocksForward le fn t = Inr t' \<and>
      tl_stands le fn es (length (all_pairs (take b ds)) + j) t'"
    if "state_ok le ds t" "at_block le ds b j t" "b \<le> length ds"
      "b < length ds \<longrightarrow> j < length (item_pairs (ds ! b))" for t b j
  proof (cases "b < length ds")
    case True
    with that have "tl_Valid t" using at_block_Valid by blast
    with stands_here [OF blocks that] show ?thesis by (auto simp: skip_valid)
  next
    case False
    with that have idx: "iterator_stands le (map index_pair ds) b (index_iter t)" "data_iter t = None" "j = 0"
      by (auto simp: at_block_def)
    have "\<not> iterator_Valid (index_iter t)" using any_iterator.valid_iff [OF idx(1)] False by simp
    then have "SkipEmptyDataBlocksForward le fn t = Inr t"
      using idx(2) by (subst SkipEmptyDataBlocksForward.simps) (simp add: SetDataIterator_def)
    with stands_here [OF blocks that] show ?thesis by blast
  qed
  show ?thesis
  proof (cases "b < length ds \<longrightarrow> j < length (item_pairs (ds ! b))")
    case True
    from done' [OF ok at b this] show ?thesis .
  next
    case False
    then have bl: "b < length ds" and je: "j = length (item_pairs (ds ! b))" using j by auto
    have idx: "iterator_stands le (map index_pair ds) b (index_iter t)" using at by (simp add: at_block_def)
    have valid: "iterator_Valid (index_iter t)" "\<not> tl_Valid t"
      using any_iterator.valid_iff [OF idx] bl at_block_Valid [OF at] je by auto
    from any_iterator.next_at [OF idx] bl obtain i' where i': "iterator_Next le (index_iter t) = Inr i'"
      "iterator_stands le (map index_pair ds) (Suc b) i'" by auto
    have ok': "state_ok le ds (t\<lparr>index_iter := i'\<rparr>)"
      using ok any_iterator.stands_source [OF i'(2)] by (simp add: state_ok_def data_ok_def)
    have "reads le fn ds" using blocks by (simp add: blocks_ok_def)
    from InitDataBlock_ok [OF this ok', of "Suc b"] i'(2) obtain t1
      where t1: "InitDataBlock fn (t\<lparr>index_iter := i'\<rparr>) = Inr t1" "state_ok le ds t1" "index_iter t1 = i'"
        "if Suc b < length ds then \<exists>dit. data_iter t1 = Some dit \<and> iterator_source le (item_pairs (ds ! Suc b)) dit \<and>
           data_block_handle t1 = put_handle (item_handle (ds ! Suc b)) else data_iter t1 = None"
      by auto
    from data_SeekToFirst_at [OF t1(2) _ t1(4)] i'(2) t1(3) obtain t2
      where t2: "data_SeekToFirst le t1 = Inr t2" "state_ok le ds t2" "at_block le ds (Suc b) 0 t2" by auto
    have step: "skip_step le fn t = Inr t2" using i'(1) t1(1) t2(1) by (simp add: skip_step_def)
    then have skip: "SkipEmptyDataBlocksForward le fn t = SkipEmptyDataBlocksForward le fn t2"
      using valid by (subst SkipEmptyDataBlocksForward.simps) simp
    have ne: "0 < length (item_pairs (ds ! Suc b))" if "Suc b < length ds"
      using separated_nonempty [of ds "[]" "ds ! Suc b"] blocks that by (simp add: blocks_ok_def)
    have "length (all_pairs (take b ds)) + j = length (all_pairs (take (Suc b) ds)) + 0"
      using all_pairs_take [OF bl] je by simp
    with done' [OF t2(2,3)] bl ne skip show ?thesis by simp
  qed
qed

section \<open>The contract\<close>

lemma tl_stands_length:
  assumes "blocks_ok le fn es ds" "b \<le> length ds" "b < length ds \<longrightarrow> j < length (item_pairs (ds ! b))"
    "at_block le ds b j t"
  shows "length (all_pairs (take b ds)) + j \<le> length es"
    "length (all_pairs (take b ds)) + j < length es \<longleftrightarrow> b < length ds"
proof -
  have es: "es = all_pairs ds" using assms(1) by (simp add: blocks_ok_def)
  have "length (all_pairs (take b ds)) + j < length (all_pairs ds)" if "b < length ds"
    using all_pairs_nth(1) [OF that] assms(3) that by blast
  moreover have "length (all_pairs (take b ds)) + j = length (all_pairs ds)" if "\<not> b < length ds"
    using assms(2,4) that by (auto simp: at_block_def)
  ultimately show "length (all_pairs (take b ds)) + j \<le> length es"
    "length (all_pairs (take b ds)) + j < length es \<longleftrightarrow> b < length ds"
    unfolding es by (cases "b < length ds"; force)+
qed

lemma tl_next:
  assumes "tl_stands le fn es i t" "i < length es"
  shows "\<exists>t'. tl_Next le fn t = Inr t' \<and> tl_stands le fn es (Suc i) t'"
proof -
  from assms(1) obtain ds b j where blocks: "blocks_ok le fn es ds" and ok: "state_ok le ds t"
    and at: "at_block le ds b j t" and b: "b \<le> length ds" and i: "i = length (all_pairs (take b ds)) + j"
    and j: "b < length ds \<longrightarrow> j < length (item_pairs (ds ! b))"
    by (auto simp: tl_stands_def)
  have bl: "b < length ds" using tl_stands_length(2) [OF blocks b j at] assms(2) i by simp
  with j have jl: "j < length (item_pairs (ds ! b))" by simp
  from at bl obtain dit where dit: "data_iter t = Some dit" "iterator_stands le (item_pairs (ds ! b)) j dit"
    by (auto simp: at_block_def)
  from any_iterator.next_at [OF dit(2) jl] obtain dit' where dit': "iterator_Next le dit = Inr dit'"
    "iterator_stands le (item_pairs (ds ! b)) (Suc j) dit'" by blast
  note moved = data_moved [OF ok at bl dit'(2)]
  have "Suc j \<le> length (item_pairs (ds ! b))" using jl by simp
  with skip_stands [OF blocks moved _ b] obtain t'
    where "SkipEmptyDataBlocksForward le fn (t\<lparr>data_iter := Some dit'\<rparr>) = Inr t'"
      "tl_stands le fn es (length (all_pairs (take b ds)) + Suc j) t'" by blast
  moreover have "tl_Valid t" using at_block_Valid [OF at] bl jl by simp
  ultimately show ?thesis using dit(1) dit'(1) i by (simp add: tl_Next_def)
qed

lemma tl_first:
  assumes "tl_source le fn es t"
  shows "\<exists>t'. tl_SeekToFirst le fn t = Inr t' \<and> tl_stands le fn es 0 t'"
proof -
  from assms obtain ds where blocks: "blocks_ok le fn es ds" and ok: "state_ok le ds t"
    by (auto simp: tl_source_def)
  have reads: "reads le fn ds" using blocks by (simp add: blocks_ok_def)
  from any_iterator.first_at [of le "map index_pair ds" "index_iter t"] ok obtain i'
    where i': "iterator_SeekToFirst le (index_iter t) = Inr i'" "iterator_stands le (map index_pair ds) 0 i'"
    by (auto simp: state_ok_def)
  have ok': "state_ok le ds (t\<lparr>index_iter := i'\<rparr>)"
    using ok any_iterator.stands_source [OF i'(2)] by (simp add: state_ok_def data_ok_def)
  from InitDataBlock_ok [OF reads ok', of 0] i'(2) obtain t1
    where t1: "InitDataBlock fn (t\<lparr>index_iter := i'\<rparr>) = Inr t1" "state_ok le ds t1" "index_iter t1 = i'"
      "if 0 < length ds then \<exists>dit. data_iter t1 = Some dit \<and> iterator_source le (item_pairs (ds ! 0)) dit \<and>
         data_block_handle t1 = put_handle (item_handle (ds ! 0)) else data_iter t1 = None"
    by auto
  from data_SeekToFirst_at [OF t1(2) _ t1(4)] i'(2) t1(3) obtain t2
    where t2: "data_SeekToFirst le t1 = Inr t2" "state_ok le ds t2" "at_block le ds 0 0 t2" by auto
  from skip_stands [OF blocks t2(2,3)] i'(1) t1(1) t2(1) show ?thesis by (simp add: tl_SeekToFirst_def)
qed

lemma tl_seek:
  assumes "tl_source le fn es t"
  shows "\<exists>t'. tl_Seek le fn target t = Some (Inr t') \<and> tl_stands le fn es (first_at_least target es) t'"
proof -
  from assms obtain ds where blocks: "blocks_ok le fn es ds" and ok: "state_ok le ds t"
    by (auto simp: tl_source_def)
  have reads: "reads le fn ds" and es: "es = all_pairs ds" and sep: "separated ds []"
    using blocks by (simp_all add: blocks_ok_def)
  define b where "b = first_at_least target (map index_pair ds)"
  have b: "b \<le> length ds" using first_at_least_le [of target "map index_pair ds"] by (simp add: b_def)
  from any_iterator.seek_at [of le "map index_pair ds" "index_iter t" target] ok obtain i'
    where i': "iterator_Seek le target (index_iter t) = Some (Inr i')" "iterator_stands le (map index_pair ds) b i'"
    by (auto simp: state_ok_def b_def)
  have ok': "state_ok le ds (t\<lparr>index_iter := i'\<rparr>)"
    using ok any_iterator.stands_source [OF i'(2)] by (simp add: state_ok_def data_ok_def)
  from InitDataBlock_ok [OF reads ok', of b] i'(2) obtain t1
    where t1: "InitDataBlock fn (t\<lparr>index_iter := i'\<rparr>) = Inr t1" "state_ok le ds t1" "index_iter t1 = i'"
      "if b < length ds then \<exists>dit. data_iter t1 = Some dit \<and> iterator_source le (item_pairs (ds ! b)) dit \<and>
         data_block_handle t1 = put_handle (item_handle (ds ! b)) else data_iter t1 = None"
    by auto
  note split = seek_blocks [OF sep, of target, folded b_def, unfolded Let_def]
  show ?thesis
  proof (cases "b < length ds")
    case False
    then have "data_iter t1 = None" and bl: "b = length ds" using t1(4) b by simp_all
    then have seek: "data_Seek le target t1 = Some (Inr t1)" "at_block le ds b 0 t1"
      using i'(2) t1(3) by (simp_all add: data_Seek_def at_block_def)
    have "first_at_least target es = length (all_pairs (take b ds)) + 0"
      using split False bl by (simp add: es)
    with skip_stands [OF blocks t1(2) seek(2) _ b] False i'(1) t1(1) seek(1) show ?thesis
      by (simp add: tl_Seek_def)
  next
    case True
    with t1(4) obtain dit where dit: "data_iter t1 = Some dit" "iterator_source le (item_pairs (ds ! b)) dit"
      "data_block_handle t1 = put_handle (item_handle (ds ! b))" by auto
    define j where "j = first_at_least target (item_pairs (ds ! b))"
    from any_iterator.seek_at [OF dit(2), of target] obtain dit'
      where dit': "iterator_Seek le target dit = Some (Inr dit')" "iterator_stands le (item_pairs (ds ! b)) j dit'"
      by (auto simp: j_def)
    define t2 where "t2 = t1\<lparr>data_iter := Some dit'\<rparr>"
    obtain ps where ps: "iterator_source le ps dit"
      "\<forall>d \<in> set ds. put_handle (item_handle d) = data_block_handle t1 \<longrightarrow> item_pairs d = ps"
      using t1(2) dit(1) by (auto simp: state_ok_def data_ok_def)
    have "ps = item_pairs (ds ! b)" by (rule source_unique [OF ps(1) dit(2)])
    then have ok2: "state_ok le ds t2"
      using t1(2) ps(2) any_iterator.stands_source [OF dit'(2)] by (auto simp: state_ok_def data_ok_def t2_def)
    have at2: "at_block le ds b j t2"
      using True i'(2) t1(3) dit(3) dit'(2) by (simp add: at_block_def t2_def)
    have seek: "data_Seek le target t1 = Some (Inr t2)" using dit(1) dit'(1) by (simp add: data_Seek_def t2_def)
    have "first_at_least target es = length (all_pairs (take b ds)) + j"
      using split True by (simp add: es j_def)
    moreover have "j \<le> length (item_pairs (ds ! b))" unfolding j_def by (rule first_at_least_le)
    ultimately show ?thesis
      using skip_stands [OF blocks ok2 at2 _ b] i'(1) t1(1) seek by (simp add: tl_Seek_def)
  qed
qed

interpretation two_level: sorted_iterator tl_Valid tl_key tl_value "tl_Next le fn" "tl_SeekToFirst le fn"
    "tl_Seek le fn" tl_get_status "tl_source le fn" "tl_stands le fn" for le fn
proof unfold_locales
  fix es i t target
  show "tl_source le fn es t \<Longrightarrow> sorted_pairs es" by (auto simp: tl_source_def blocks_ok_def)
  show "tl_source le fn es t \<Longrightarrow> \<exists>t'. tl_SeekToFirst le fn t = Inr t' \<and> tl_stands le fn es 0 t'"
    by (rule tl_first)
  show "tl_source le fn es t \<Longrightarrow>
      \<exists>t'. tl_Seek le fn target t = Some (Inr t') \<and> tl_stands le fn es (first_at_least target es) t'"
    by (rule tl_seek)
  show "tl_stands le fn es i t \<Longrightarrow> i < length es \<Longrightarrow>
      \<exists>t'. tl_Next le fn t = Inr t' \<and> tl_stands le fn es (Suc i) t'"
    by (rule tl_next)
  assume "tl_stands le fn es i t"
  then obtain ds b j where blocks: "blocks_ok le fn es ds" and ok: "state_ok le ds t"
    and at: "at_block le ds b j t" and b: "b \<le> length ds" and i: "i = length (all_pairs (take b ds)) + j"
    and j: "b < length ds \<longrightarrow> j < length (item_pairs (ds ! b))"
    by (auto simp: tl_stands_def)
  note len = tl_stands_length [OF blocks b j at, folded i]
  show "tl_source le fn es t" using blocks ok by (auto simp: tl_source_def)
  show "i \<le> length es" by (rule len(1))
  have "iterator_status (index_iter t) = OK_status" "tl_status t = OK_status"
    using ok source_status by (auto simp: state_ok_def)
  moreover have "iterator_status dit = OK_status" if "data_iter t = Some dit" for dit
    using ok that source_status by (auto simp: state_ok_def data_ok_def)
  ultimately show "tl_get_status t = OK_status"
    by (auto simp: tl_get_status_def is_ok_def OK_status_def split: option.splits)
  show valid: "tl_Valid t \<longleftrightarrow> i < length es" using at_block_Valid [OF at] j len(2) by auto
  assume il: "i < length es"
  then have bl: "b < length ds" using len(2) by simp
  with j have jl: "j < length (item_pairs (ds ! b))" by simp
  from at bl obtain dit where dit: "data_iter t = Some dit" "iterator_stands le (item_pairs (ds ! b)) j dit"
    by (auto simp: at_block_def)
  have "es ! i = item_pairs (ds ! b) ! j"
    using all_pairs_nth(2) [OF bl jl] blocks i by (simp add: blocks_ok_def)
  then show "tl_key t = Inr (fst (es ! i))" "tl_value t = Inr (snd (es ! i))"
    using valid il dit(1) any_iterator.key_at [OF dit(2) jl] any_iterator.val_at [OF dit(2) jl]
    by (simp_all add: tl_key_def tl_value_def)
qed

end
