(* ===== verification/Block_Properties.thy ===== *)
theory Block_Properties
  imports Iterator
begin

text \<open>What the builder and the iterator of a block promise together.\<close>

section \<open>A search ends\<close>

lemma half_between:
  fixes left right :: "32 word"
  assumes "left < right" "unat right < 2 ^ 31"
  defines "mid \<equiv> (left + right + 1) div 2"
  shows "unat left < unat mid" "unat mid \<le> unat right" "unat (mid - 1) = unat mid - 1"
proof -
  define l r where "l = unat left" and "r = unat right"
  have lr: "l < r" "r < 2 ^ 31" "left = word_of_nat l" "right = word_of_nat r"
    using assms by (simp_all add: l_def r_def word_less_nat_alt)
  have "left + right + 1 = word_of_nat (l + r + 1)" by (simp add: lr)
  moreover have "l + r + 1 < 2 ^ 32" using lr(1,2) by simp
  ultimately have mid: "mid = word_of_nat ((l + r + 1) div 2)"
    unfolding mid_def by (simp only: word_half)
  have "(l + r + 1) div 2 < 2 ^ 32" using lr(1,2) by simp
  then have um: "unat mid = (l + r + 1) div 2" unfolding mid by (rule unat_small)
  then show "unat left < unat mid" "unat mid \<le> unat right"
    using lr(1) by (simp_all add: l_def [symmetric] r_def [symmetric])
  have "0 < (l + r + 1) div 2" using lr(1) by simp
  then show "unat (mid - 1) = unat mid - 1"
    using um by (simp add: unat_minus_one unat_eq_zero [symmetric] mid_def)
qed

lemma seek_restart_returns:
  "unat right < 2 ^ 31 \<Longrightarrow> left \<le> right \<Longrightarrow>
    \<exists>r. seek_restart le target it left right = Some r \<and>
      (\<forall>j. r = Inr (Some j) \<longrightarrow> left \<le> j \<and> j \<le> right)"
proof (induction "unat right - unat left" arbitrary: left right rule: less_induct)
  case less
  show ?case
  proof (cases "left < right")
    case False
    then show ?thesis using less.prems by (subst seek_restart.simps) simp
  next
    case True
    define mid where "mid = (left + right + 1) div 2"
    note half = half_between [OF True less.prems(1), folded mid_def]
    have le: "left \<le> mid" "mid \<le> right" "left \<le> mid - 1" "mid - 1 \<le> right"
      using half by (simp_all add: word_le_nat_alt)
    have "unat right - unat mid < unat right - unat left" using half by simp
    from less.hyps [OF this less.prems(1) le(2)] le(1)
    have up: "\<exists>r. seek_restart le target it mid right = Some r \<and> (\<forall>j. r = Inr (Some j) \<longrightarrow> left \<le> j \<and> j \<le> right)"
      using order_trans by blast
    have "unat (mid - 1) - unat left < unat right - unat left" "unat (mid - 1) < 2 ^ 31"
      using half less.prems(1) by simp_all
    from less.hyps [OF this le(3)] le(4)
    have down: "\<exists>r. seek_restart le target it left (mid - 1) = Some r \<and> (\<forall>j. r = Inr (Some j) \<longrightarrow> left \<le> j \<and> j \<le> right)"
      using order_trans by blast
    from True up down show ?thesis
      by (subst seek_restart.simps)
        (simp add: mid_def [symmetric] Let_def split: sum.splits option.splits prod.splits)
  qed
qed

lemma Seek_returns:
  assumes "unat (it_num_restarts it) \<le> 2 ^ 31" "0 < it_num_restarts it"
  shows "Seek le target it \<noteq> None"
proof -
  have "it_num_restarts it \<noteq> 0" using assms(2) by auto
  then have "unat (it_num_restarts it - 1) = unat (it_num_restarts it) - 1"
    by (rule unat_minus_one)
  moreover have "0 < unat (it_num_restarts it)" using assms(2) by (simp add: word_less_nat_alt)
  ultimately have "unat (it_num_restarts it - 1) < 2 ^ 31" using assms(1) by linarith
  from seek_restart_returns [OF this, of 0 le target it] show ?thesis
    by (auto simp: Seek_def split: sum.splits option.splits)
qed

text \<open>Every iterator of a block of at most \<open>2 ^ 33\<close> bytes has that few restart points.\<close>

lemma NewIterator_restarts:
  assumes "make_block le junk c = Inr b" "NewIterator le b = Inr (Block_Iter it)"
  shows "0 < it_num_restarts it \<and> unat (it_num_restarts it) \<le> length (contents c) div 4"
proof -
  have "4 \<le> blk_size b" using assms(2) by (auto simp: NewIterator_def NewErrorIterator_def split: if_splits)
  with assms(1) obtain n where n: "NumRestarts le b = Inr n" "unat n \<le> (length (contents c) - 4) div 4"
    by (auto simp: make_block_def Let_def NumRestarts_def split: if_splits sum.splits)
  with assms(2) \<open>4 \<le> blk_size b\<close> have "0 < it_num_restarts it" "it_num_restarts it = n"
    by (auto simp: NewIterator_def make_iter_def NewEmptyIterator_def word_neq_0_conv split: if_splits)
  then show ?thesis using n(2) by simp
qed

lemma iterator_Seek_returns:
  assumes "make_block le junk c = Inr b" "NewIterator le b = Inr it" "length (contents c) \<le> 2 ^ 33"
  shows "\<exists>r. iterator_Seek le target it = Some r"
proof (cases it)
  case (Block_Iter bi)
  with NewIterator_restarts assms have "0 < it_num_restarts bi" "unat (it_num_restarts bi) \<le> length (contents c) div 4"
    by blast+
  with Seek_returns [of bi le target] assms(3) show ?thesis by (auto simp: Block_Iter)
qed simp

section \<open>Samples\<close>

definition sample_pairs :: pairs where
  "sample_pairs = [([97], [1, 2]), ([97, 98], []), ([98], [3])]"

definition sample_options :: options where
  "sample_options = \<lparr>block_size = 10, block_restart_interval = 2, compression = kNoCompression\<rparr>"

definition sample_block :: "byte list" where
  "sample_block =
     [0, 1, 2, 97, 1, 2, 1, 1, 0, 98, 0, 1, 1, 98, 3, 0, 0, 0, 0, 10, 0, 0, 0, 2, 0, 0, 0]"

lemma sample_sorted: "sorted_pairs sample_pairs"
  by (simp add: sample_pairs_def)

lemma sample_built: "build_block True sample_options sample_pairs = Inr sample_block"
  by code_simp

lemma sample_fits: "length sample_block < 2 ^ 32"
  by (simp add: sample_block_def)

text \<open>
  A block of one entry whose key length \<open>2 ^ 32 - 1\<close> and value length 1 add up to 0 in 32
  bits.
\<close>

definition overflowing_block :: "byte list" where
  "overflowing_block = [0, 0xFF, 0xFF, 0xFF, 0xFF, 0x0F, 1, 0, 0, 0, 0, 1, 0, 0, 0]"

section \<open>Properties\<close>

text \<open>
  C8. Refinement: the iterator of a block that was built from pairs in the order of their
  keys behaves as a cursor in the sequence of the pairs. Whatever steps a client takes, it
  sees what it would see there.
\<close>

theorem block_refines_pairs:
  assumes "sorted_pairs es" "build_block le opts es = Inr data" "length data < 2 ^ 32"
    and "1 \<le> block_restart_interval opts"
  shows "\<exists>it. open_block le junk data = Inr it \<and>
    walk iterator_Valid iterator_key iterator_value (iterator_Next le) (iterator_SeekToFirst le)
      (iterator_Seek le) steps it = Some (Inr (walk_pairs es steps (length es)))"
proof -
  have "holds_pairs le es data"
    using build_block_holds [OF assms(4,1), of le] assms(2) by simp
  from open_block_source [OF this assms(3), of junk] obtain it
    where "open_block le junk data = Inr it" "iterator_source le es it" "\<not> iterator_Valid it" by blast
  then show ?thesis using any_iterator.fresh_walk_sees by blast
qed

theorem block_refines_pairs_witness:
  "\<exists>it. open_block True 0 sample_block = Inr it \<and>
    walk iterator_Valid iterator_key iterator_value (iterator_Next True) (iterator_SeekToFirst True)
      (iterator_Seek True) [Step_Seek [97, 1], Step_Next, Step_Next] it =
      Some (Inr [Some ([97, 98], []), Some ([98], [3]), None])"
proof -
  have "walk_pairs sample_pairs [Step_Seek [97, 1], Step_Next, Step_Next] (length sample_pairs) =
      [Some ([97, 98], []), Some ([98], [3]), None]"
    by code_simp
  with block_refines_pairs [OF sample_sorted sample_built sample_fits, of 0
      "[Step_Seek [97, 1], Step_Next, Step_Next]"]
  show ?thesis by (simp add: sample_options_def)
qed

text \<open>
  Round trip: going through the block from its first entry gives the pairs back, in
  their order, and ends without an error.
\<close>

theorem block_roundtrip:
  assumes "sorted_pairs es" "build_block le opts es = Inr data" "length data < 2 ^ 32"
    and "1 \<le> block_restart_interval opts"
  shows "\<exists>it it0 it'. open_block le junk data = Inr it \<and> iterator_SeekToFirst le it = Inr it0 \<and>
    scan iterator_Valid iterator_key iterator_value (iterator_Next le) (length es) it0 = Some (Inr (es, it')) \<and>
    iterator_status it' = OK_status"
proof -
  have "holds_pairs le es data"
    using build_block_holds [OF assms(4,1), of le] assms(2) by simp
  from open_block_source [OF this assms(3), of junk] obtain it
    where "open_block le junk data = Inr it" "iterator_source le es it" by blast
  then show ?thesis using any_iterator.scan_all by blast
qed

theorem block_roundtrip_witness:
  "\<exists>it it0 it'. open_block True 0 sample_block = Inr it \<and> iterator_SeekToFirst True it = Inr it0 \<and>
    scan iterator_Valid iterator_key iterator_value (iterator_Next True) 3 it0 = Some (Inr (sample_pairs, it')) \<and>
    iterator_status it' = OK_status"
proof -
  have "length sample_pairs = 3" "1 \<le> block_restart_interval sample_options"
    by (simp_all add: sample_pairs_def sample_options_def)
  with block_roundtrip [OF sample_sorted sample_built sample_fits, of 0] show ?thesis by simp
qed

text \<open>
  Building never fails: pairs in the order of their keys are added without a failed
  assertion, and the estimate of the size is the size that \<open>Finish\<close> then gives.
\<close>

theorem building_succeeds:
  assumes "1 \<le> block_restart_interval opts" "sorted_pairs es"
  shows "\<exists>b0 b. make_block_builder opts = Inr b0 \<and> add_all opts es b0 = Inr b \<and>
    CurrentSizeEstimate b = length (fst (Finish le b))"
proof -
  from make_builder_inv [OF assms(1)] obtain b0
    where b0: "make_block_builder opts = Inr b0" "builder_inv opts [] [0] b0" by blast
  from add_all_inv [OF b0(2), of es] sorted_keys_after [OF assms(2)] obtain b xs ris
    where "add_all opts es b0 = Inr b" "builder_inv opts xs ris b" by auto
  with CurrentSizeEstimate_exact b0(1) show ?thesis by blast
qed

theorem building_succeeds_witness:
  "\<exists>b0 b. make_block_builder sample_options = Inr b0 \<and> add_all sample_options sample_pairs b0 = Inr b \<and>
    CurrentSizeEstimate b = length (fst (Finish True b))"
  using building_succeeds [OF _ sample_sorted, of sample_options True] by (simp add: sample_options_def)

text \<open>
  Termination: a search in any block of less than 8 GiB returns, whatever the block
  holds. (The linear part always does: its termination is proved with its definition.)
\<close>

theorem block_search_returns:
  assumes "make_block le junk c = Inr b" "NewIterator le b = Inr it" "length (contents c) \<le> 2 ^ 33"
  shows "\<exists>r. iterator_Seek le target it = Some r"
  by (rule iterator_Seek_returns [OF assms])

theorem block_search_returns_witness:
  "\<exists>b it r. make_block True 0 \<lparr>contents = overflowing_block, cachable = True, heap_allocated = True\<rparr> = Inr b \<and>
    NewIterator True b = Inr it \<and> iterator_Seek True [1] it = Some r"
proof -
  define c where "c = \<lparr>contents = overflowing_block, cachable = True, heap_allocated = True\<rparr>"
  have "case make_block True 0 c of Inr b \<Rightarrow> (case NewIterator True b of Inr _ \<Rightarrow> True | _ \<Rightarrow> False) | _ \<Rightarrow> False"
    unfolding c_def by code_simp
  then obtain b it where b: "make_block True 0 c = Inr b" "NewIterator True b = Inr it"
    by (auto split: sum.splits)
  have "length (contents c) \<le> 2 ^ 33" by (simp add: c_def overflowing_block_def)
  from block_search_returns [OF b this] b show ?thesis unfolding c_def by blast
qed

text \<open>
  C27. What the 32-bit test of \<open>DecodeEntry\<close> lets through: there is a block of 15 bytes on
  which \<open>SeekToFirst\<close> reads outside the block, though the contents are only malformed.
\<close>

theorem corrupt_block_overread:
  "(case open_block True junk overflowing_block of
      Inl f \<Rightarrow> None
    | Inr it \<Rightarrow> Some (iterator_SeekToFirst True it)) = Some (Inl Out_of_bounds)"
proof -
  define it where "it = \<lparr>it_data = overflowing_block, it_restarts = 7, it_num_restarts = 1, it_current = 7,
    it_restart_index = 1, it_key = [], it_value = None, it_status = OK_status\<rparr>"
  have "open_block True junk overflowing_block = Inr (Block_Iter it)"
    unfolding it_def by code_simp
  moreover have "GetRestartPoint True it 0 = Inr 0"
    unfolding it_def by code_simp
  moreover have "DecodeEntry overflowing_block 0 7 = Inr (Some (7, 0, 0xFFFFFFFF, 1))"
    by code_simp
  ultimately show ?thesis
    by (simp add: SeekToFirst_def SeekToRestartPoint_def ParseNextKey_def NextEntryOffset_def it_def Let_def
        overflowing_block_def)
qed

end
