(* ===== verification/Table_Properties.thy ===== *)
theory Table_Properties
  imports Table_Read Block_Properties
begin

text \<open>
  Tables as a whole: a table that was built is opened, and its iterator and its searches
  find the pairs it was built from. What a damaged file leads to.
\<close>

section \<open>Opening a finished file\<close>

text \<open>
  The end of \<open>TableConstructor::FinishImpl\<close> with \<open>NewIterator\<close>: the file is opened and an
  iterator made. \<open>Inr None\<close>: the status of \<open>Table::Open\<close> was not ok.
\<close>

definition open_table :: "platform \<Rightarrow> 32 word \<Rightarrow> options \<Rightarrow> byte list \<Rightarrow> fault + table option" where
  "open_table pf junk opts fc =
     (case TableOpen pf junk opts (source_read fc) (word_of_nat (length fc)) of
        Inl e \<Rightarrow> Inl e
      | Inr (s, t) \<Rightarrow> Inr (if is_ok s then t else None))"

lemma footer_read:
  assumes "table_file pf fc es ds f"
  shows "source_read fc (word_of_nat (length fc) - word_of_nat kEncodedLength) (word_of_nat kEncodedLength) =
    (OK_status, footer_bytes (pf_little_endian pf) f, True)"
proof -
  from assms obtain blocks where fc: "fc = blocks @ footer_bytes (pf_little_endian pf) f" "length fc < 2 ^ 33"
    by (auto simp: table_file_def)
  have len: "length fc = length blocks + kEncodedLength" by (simp add: fc(1) length_footer)
  have off: "(word_of_nat (length fc) - word_of_nat kEncodedLength :: 64 word) = word_of_nat (length blocks)"
    by (simp add: len)
  show ?thesis
    unfolding off by (subst source_read_inside) (use len fc(2) in \<open>simp_all add: fc(1) length_footer\<close>)
qed

lemma block_opens:
  assumes "block_holds pf fc h ps"
  shows "\<exists>c b it. ReadBlock pf (source_read fc) h = Inr (OK_status, c) \<and>
    make_block (pf_little_endian pf) junk c = Inr b \<and> NewIterator (pf_little_endian pf) b = Inr it \<and>
    iterator_source (pf_little_endian pf) ps it \<and> \<not> iterator_Valid it"
proof -
  from assms obtain raw where raw: "block_at pf fc h raw" "holds_pairs (pf_little_endian pf) ps raw"
    "length raw < 2 ^ 32" by (auto simp: block_holds_def)
  from ReadBlock_at [OF raw(1)] raw(2,3) show ?thesis unfolding holds_pairs_def by metis
qed

text \<open>A table that reads the pairs: its index block, and the blocks that the index names.\<close>

definition table_reads :: "platform \<Rightarrow> 32 word \<Rightarrow> pairs \<Rightarrow> index_item list \<Rightarrow> table \<Rightarrow> bool" where
  "table_reads pf junk es ds t \<longleftrightarrow> blocks_ok (pf_little_endian pf) (BlockReader pf junk t) es ds \<and>
     (\<exists>it. NewIterator (pf_little_endian pf) (t_index_block t) = Inr it \<and>
        iterator_source (pf_little_endian pf) (map index_pair ds) it \<and> \<not> iterator_Valid it)"

lemma TableOpen_reads:
  assumes "table_file pf fc es ds f"
  shows "\<exists>t. open_table pf junk opts fc = Inr (Some t) \<and> table_reads pf junk es ds t"
proof -
  define le where "le = pf_little_endian pf"
  note tf = assms [unfolded table_file_def]
  from tf obtain blocks where fc: "fc = blocks @ footer_bytes le f" "length fc < 2 ^ 33"
    by (auto simp: le_def)
  have "unat (word_of_nat (length fc) :: 64 word) = length fc" using fc(2) by (intro unat_64) simp
  then have size: "\<not> unat (word_of_nat (length fc) :: 64 word) < kEncodedLength"
    by (simp add: fc(1) length_footer)
  from tf have "block_holds pf fc (index_handle f) (map index_pair ds)" by blast
  from block_opens [OF this, of junk] obtain c b it
    where index: "ReadBlock pf (source_read fc) (index_handle f) = Inr (OK_status, c)"
      "make_block le junk c = Inr b" "NewIterator le b = Inr it"
      "iterator_source le (map index_pair ds) it" "\<not> iterator_Valid it"
    unfolding le_def by blast
  define t where "t = \<lparr>t_options = opts, t_file = source_read fc,
    t_metaindex_handle = metaindex_handle f, t_index_block = b\<rparr>"
  have "open_table pf junk opts fc = Inr (Some t)"
    using size index(1,2)
    by (simp add: open_table_def TableOpen_def Let_def footer_read [OF assms] DecodeFooter_bytes
        le_def [symmetric] is_ok_def OK_status_def t_def)
  moreover have "reads le (BlockReader pf junk t) ds"
    unfolding reads_def
  proof
    fix d assume "d \<in> set ds"
    then have "block_holds pf fc (item_handle d) (item_pairs d)" using tf by blast
    from block_opens [OF this, of junk] DecodeHandle_put [of "item_handle d" "[]" make_handle]
    show "\<exists>it. BlockReader pf junk t (put_handle (item_handle d)) = Inr it \<and> iterator_source le (item_pairs d) it"
      by (auto simp: BlockReader_def t_def is_ok_def OK_status_def le_def)
  qed
  ultimately show ?thesis
    using tf index(3-5) unfolding table_reads_def blocks_ok_def le_def
    by (intro exI [of _ t]) (auto simp: t_def)
qed

lemma TableNewIterator_source:
  assumes "table_reads pf junk es ds t"
  shows "\<exists>it. TableNewIterator pf t = Inr it \<and> \<not> tl_Valid it \<and>
    tl_source (pf_little_endian pf) (BlockReader pf junk t) es it"
proof -
  from assms obtain it where it: "NewIterator (pf_little_endian pf) (t_index_block t) = Inr it"
    "iterator_source (pf_little_endian pf) (map index_pair ds) it"
    and blocks: "blocks_ok (pf_little_endian pf) (BlockReader pf junk t) es ds"
    by (auto simp: table_reads_def)
  have "state_ok (pf_little_endian pf) ds (NewTwoLevelIterator it)"
    using it(2) by (simp add: state_ok_def NewTwoLevelIterator_def data_ok_def)
  with it blocks show ?thesis
    by (auto simp: TableNewIterator_def tl_source_def tl_Valid_def NewTwoLevelIterator_def)
qed

section \<open>Searches\<close>

text \<open>
  Where a key is looked for: the only block that can hold it is the first whose key in the
  index is not smaller.
\<close>

lemma separated_later:
  "separated ds rest \<Longrightarrow> b < length ds \<Longrightarrow> p \<in> set (all_pairs (drop (Suc b) ds)) \<Longrightarrow> fst (ds ! b) < fst p"
proof (induction ds arbitrary: b)
  case (Cons d ds)
  then show ?case by (cases b) auto
qed simp

lemma not_in_gap:
  assumes sep: "separated ds []" and sorted: "sorted_pairs (all_pairs ds)"
    and b: "b = first_at_least k (map index_pair ds)" "b < length ds"
    and past: "\<not> first_at_least k (item_pairs (ds ! b)) < length (item_pairs (ds ! b))"
  shows "map_of (all_pairs ds) k = None"
proof -
  define i where "i = length (all_pairs (take (Suc b) ds))"
  have "first_at_least k (item_pairs (ds ! b)) = length (item_pairs (ds ! b))"
    using past first_at_least_le [of k "item_pairs (ds ! b)"] by simp
  then have i: "first_at_least k (all_pairs ds) = i"
    using seek_blocks [OF sep, of k] b by (simp add: Let_def i_def all_pairs_take)
  have "fst (all_pairs ds ! i) \<noteq> k" if "i < length (all_pairs ds)"
  proof -
    have split: "all_pairs ds = all_pairs (take (Suc b) ds) @ all_pairs (drop (Suc b) ds)"
      by (metis all_pairs_simps(3) append_take_drop_id)
    then have later: "all_pairs (drop (Suc b) ds) \<noteq> []" using that by (auto simp: i_def)
    moreover have "all_pairs ds ! i = all_pairs (drop (Suc b) ds) ! 0"
      by (subst split) (simp add: i_def nth_append)
    ultimately have "fst (ds ! b) < fst (all_pairs ds ! i)"
      using separated_later [OF sep b(2)] by simp
    moreover have "k \<le> fst (map index_pair ds ! b)"
      using first_at_least_key [of k "map index_pair ds"] b by simp
    ultimately show ?thesis using b(2) by (auto simp: index_pair_def)
  qed
  then show ?thesis using first_at_least_lookup [OF sorted, of k] i by auto
qed

lemma InternalGet_reads:
  assumes reads: "table_reads pf junk es ds t"
  shows "\<exists>p. InternalGet pf junk t k saver arg =
      Some (Inr (OK_status, case p of None \<Rightarrow> arg | Some (k', v) \<Rightarrow> saver k' v arg)) \<and>
    (p = None \<or> p = pair_at es (first_at_least k es)) \<and> (map_of es k \<noteq> None \<longrightarrow> p = Some (k, the (map_of es k)))"
proof -
  define le where "le = pf_little_endian pf"
  from reads obtain iit where iit: "NewIterator le (t_index_block t) = Inr iit"
    "iterator_source le (map index_pair ds) iit"
    and blocks: "blocks_ok le (BlockReader pf junk t) es ds" by (auto simp: table_reads_def le_def)
  then have es: "es = all_pairs ds" "separated ds []" "sorted_pairs (all_pairs ds)"
    "reads le (BlockReader pf junk t) ds" by (auto simp: blocks_ok_def)
  define b where "b = first_at_least k (map index_pair ds)"
  from any_iterator.seek_at [OF iit(2), of k] obtain iit' where seek: "iterator_Seek le k iit = Some (Inr iit')"
    "iterator_stands le (map index_pair ds) b iit'" unfolding b_def by blast
  note st = any_iterator.stands_ok [OF seek(2)] any_iterator.valid_iff [OF seek(2)]
  note lookup = first_at_least_lookup [OF es(3), of k]
  show ?thesis
  proof (cases "b < length ds")
    case False
    then have "\<not> first_at_least k (all_pairs ds) < length (all_pairs ds)"
      using seek_blocks [OF es(2), of k] by (simp add: b_def Let_def)
    with lookup have "map_of es k = None" by (simp add: es(1))
    with False st iit(1) seek(1) show ?thesis
      by (intro exI [of _ None]) (simp add: InternalGet_def le_def)
  next
    case True
    define d where "d = ds ! b"
    have "d \<in> set ds" using True by (simp add: d_def)
    with es(4) obtain bit where bit: "BlockReader pf junk t (put_handle (item_handle d)) = Inr bit"
      "iterator_source le (item_pairs d) bit" unfolding reads_def by blast
    define j where "j = first_at_least k (item_pairs d)"
    from any_iterator.seek_at [OF bit(2), of k] obtain bit' where seek2: "iterator_Seek le k bit = Some (Inr bit')"
      "iterator_stands le (item_pairs d) j bit'" unfolding j_def by blast
    note st2 = any_iterator.stands_ok [OF seek2(2)] any_iterator.valid_iff [OF seek2(2)]
    have handle: "iterator_value iit' = Inr (put_handle (item_handle d))"
      using any_iterator.val_at [OF seek(2)] True by (simp add: index_pair_def d_def)
    show ?thesis
    proof (cases "j < length (item_pairs d)")
      case False
      then have "map_of es k = None"
        using not_in_gap [OF es(2,3) b_def True] by (simp add: es(1) j_def d_def)
      with False True st st2 iit(1) seek(1) seek2(1) bit(1) handle show ?thesis
        by (intro exI [of _ None]) (simp add: InternalGet_def le_def is_ok_def OK_status_def)
    next
      case inside: True
      define i where "i = first_at_least k es"
      have "i = length (all_pairs (take b ds)) + j"
        using seek_blocks [OF es(2), of k] True by (simp add: b_def Let_def j_def d_def i_def es(1))
      with all_pairs_nth [OF True, of j] inside have p: "pair_at es i = Some (item_pairs d ! j)"
        by (simp add: pair_at_def es(1) d_def)
      have "pair_at es i = Some (k, the (map_of es k))" if "map_of es k \<noteq> None"
        using lookup that by (auto simp: pair_at_def es(1) i_def split: if_splits intro!: prod_eqI)
      moreover have "InternalGet pf junk t k saver arg =
          Some (Inr (OK_status, case pair_at es i of None \<Rightarrow> arg | Some (k', v) \<Rightarrow> saver k' v arg))"
        using True st st2 inside iit(1) seek(1) seek2(1) bit(1) handle any_iterator.key_at [OF seek2(2) inside]
          any_iterator.val_at [OF seek2(2) inside] p
        by (simp add: InternalGet_def le_def is_ok_def OK_status_def split_beta)
      ultimately show ?thesis by (intro exI [of _ "pair_at es i"]) (simp add: i_def)
    qed
  qed
qed


lemma ApproximateOffsetOf_reads:
  assumes reads: "table_reads pf junk es ds t" and k: "k \<in> fst ` set es"
  shows "\<exists>d \<in> set ds. k \<in> fst ` set (item_pairs d) \<and>
    ApproximateOffsetOf pf t k = Some (Inr (handle_offset (item_handle d)))"
proof -
  define le where "le = pf_little_endian pf"
  from reads obtain iit where iit: "NewIterator le (t_index_block t) = Inr iit"
    "iterator_source le (map index_pair ds) iit"
    and es: "es = all_pairs ds" "separated ds []" "sorted_pairs (all_pairs ds)"
    by (auto simp: table_reads_def le_def blocks_ok_def)
  define b where "b = first_at_least k (map index_pair ds)"
  from any_iterator.seek_at [OF iit(2), of k] obtain iit' where seek: "iterator_Seek le k iit = Some (Inr iit')"
    "iterator_stands le (map index_pair ds) b iit'" unfolding b_def by blast
  have found: "map_of es k \<noteq> None" using k by (simp add: map_of_eq_None_iff)
  note lookup = first_at_least_lookup [OF es(3), of k]
  have b: "b < length ds"
    using found lookup seek_blocks [OF es(2), of k] by (cases "b < length ds") (auto simp: b_def Let_def es(1))
  define d where "d = ds ! b"
  define j where "j = first_at_least k (item_pairs d)"
  have j: "j < length (item_pairs d)"
    using not_in_gap [OF es(2,3) b_def b] found unfolding es(1) j_def d_def by blast
  have "first_at_least k es = length (all_pairs (take b ds)) + j"
    using seek_blocks [OF es(2), of k] b by (simp add: b_def Let_def j_def d_def es(1))
  with all_pairs_nth [OF b, of j] j found lookup have "fst (item_pairs d ! j) = k"
    by (auto simp: es(1) d_def split: if_splits)
  then have "k \<in> fst ` set (item_pairs d)" using j by force
  moreover have "ApproximateOffsetOf pf t k = Some (Inr (handle_offset (item_handle d)))"
    using b iit(1) seek(1) any_iterator.valid_iff [OF seek(2)] any_iterator.val_at [OF seek(2)]
      DecodeHandle_put [of "item_handle d" "[]" make_handle]
    by (simp add: ApproximateOffsetOf_def le_def index_pair_def d_def is_ok_def OK_status_def)
  ultimately show ?thesis using b by (intro bexI [of _ d]) (simp_all add: d_def)
qed

section \<open>Searches end\<close>

text \<open>
  Whatever a file holds, as long as its blocks are below 8 GiB. A file of that size gives
  no larger block; Snappy stores the length of the original in 32 bits.
\<close>

definition snappy_small :: "snappy \<Rightarrow> bool" where
  "snappy_small sn \<longleftrightarrow> (\<forall>c n. Snappy_GetUncompressedLength sn c = Some n \<longrightarrow> n < 2 ^ 32)"

lemma source_read_short:
  "source_read fc off n = (s, bytes, b) \<Longrightarrow> length bytes \<le> length fc"
  by (auto simp: source_read_def Let_def split: if_splits)

lemma ReadBlock_short:
  assumes "ReadBlock pf (source_read fc) h = Inr (s, c)" "length fc \<le> 2 ^ 33" "snappy_small (pf_snappy pf)"
  shows "length (contents c) \<le> 2 ^ 33"
proof -
  obtain s' bytes b where read: "source_read fc (handle_offset h) (handle_size h + kBlockTrailerSize) = (s', bytes, b)"
    by (metis prod_cases3)
  with source_read_short assms(2) have "length bytes \<le> 2 ^ 33" by fastforce
  moreover have "length (resize n u) \<le> 2 ^ 33" if "Snappy_GetUncompressedLength (pf_snappy pf) c = Some n" for n u c
    using that assms(3) by (fastforce simp: snappy_small_def)
  ultimately show ?thesis
    using assms(1) unfolding ReadBlock_def Let_def read
    by (auto simp: no_contents_def split: if_splits sum.splits option.splits simp del: length_resize)
qed

lemma BlockReader_search_returns:
  assumes "BlockReader pf junk t h = Inr it" "t_file t = source_read fc" "length fc \<le> 2 ^ 33"
    "snappy_small (pf_snappy pf)"
  shows "\<exists>r. iterator_Seek (pf_little_endian pf) k it = Some r"
  using assms(1) ReadBlock_short [OF _ assms(3,4)] iterator_Seek_returns
  by (auto simp: BlockReader_def assms(2) NewErrorIterator_def split: prod.splits if_splits sum.splits)

lemma opened_small:
  assumes "open_table pf junk opts fc = Inr (Some t)"
  shows "t_file t = source_read fc \<and>
    (\<exists>c h s. ReadBlock pf (source_read fc) h = Inr (s, c) \<and> make_block (pf_little_endian pf) junk c = Inr (t_index_block t))"
proof -
  from assms obtain s where "TableOpen pf junk opts (source_read fc) (word_of_nat (length fc)) = Inr (s, Some t)"
    by (auto simp: open_table_def split: sum.splits if_splits)
  then show ?thesis
    unfolding TableOpen_def Let_def by (auto split: if_splits prod.splits sum.splits; blast)
qed

lemma InternalGet_returns:
  assumes "open_table pf junk opts fc = Inr (Some t)" "length fc \<le> 2 ^ 33" "snappy_small (pf_snappy pf)"
  shows "\<exists>r. InternalGet pf junk t k saver arg = Some r"
proof (cases "NewIterator (pf_little_endian pf) (t_index_block t)")
  case (Inr iit)
  from opened_small [OF assms(1)] obtain c h s where t: "t_file t = source_read fc"
    "ReadBlock pf (source_read fc) h = Inr (s, c)" "make_block (pf_little_endian pf) junk c = Inr (t_index_block t)"
    by blast
  from iterator_Seek_returns [OF t(3) Inr ReadBlock_short [OF t(2) assms(2,3)], of k] obtain r
    where "iterator_Seek (pf_little_endian pf) k iit = Some r" ..
  with Inr BlockReader_search_returns [OF _ t(1) assms(2,3), of junk _ _ k] show ?thesis
    by (fastforce simp: InternalGet_def Let_def split: sum.splits option.splits)
qed (simp add: InternalGet_def)


section \<open>Damaged files\<close>

lemma list_update_mid: "i < length ys \<Longrightarrow> (xs @ ys @ zs)[length xs + i := b] = xs @ ys[i := b] @ zs"
  by (simp add: list_update_append)

text \<open>
  A byte of a block in the file is changed, or the byte with the type of the block: the
  checksum does not match any more.
\<close>

lemma ReadBlock_changed:
  fixes before :: "byte list"
  assumes fl: "fc = before @ block_bytes (pf_little_endian pf) ty stored @ after" "length fc < 2 ^ 63"
    and h: "handle_offset h = word_of_nat (length before)" "handle_size h = word_of_nat (length stored)"
    and i: "i \<le> length stored" "(stored @ [compression_code ty]) ! i \<noteq> b"
  shows "ReadBlock pf (source_read (fc[length before + i := b])) h =
    Inr (DataLoss ''block checksum mismatch'', no_contents)"
proof -
  define le where "le = pf_little_endian pf"
  define n where "n = length stored"
  define old where "old = stored @ [compression_code ty]"
  define new where "new = old[i := b]"
  define tail where "tail = EncodeFixed32 le (Mask (crc32c 0 old))"
  have bytes: "block_bytes le ty stored = old @ tail" by (simp add: block_bytes_def old_def tail_def)
  have lens: "length old = n + 1" "length new = n + 1" "length tail = 4"
    by (simp_all add: old_def new_def n_def tail_def length_EncodeFixed32 del: EncodeFixed_eq)
  have changed: "fc[length before + i := b] = before @ (new @ tail) @ after"
    using list_update_mid [of i "old @ tail" before after b] i(1)
    by (simp add: fl(1) bytes le_def [symmetric] new_def list_update_append lens n_def)
  have split: "old = take i old @ old ! i # drop (Suc i) old" "new = take i old @ b # drop (Suc i) old"
    using i(1) by (simp_all add: lens n_def new_def Cons_nth_drop_Suc upd_conv_take_nth_drop)
  have diff: "crc32c 0 old \<noteq> crc32c 0 new"
    by (subst split(1), subst split(2)) (rule crc32c_one_byte, use i(2) in \<open>simp add: old_def\<close>)
  have len: "length before + (n + 5) + length after < 2 ^ 63"
    using fl by (simp add: bytes le_def [symmetric] lens)
  have n: "unat (word_of_nat n :: 64 word) = n" using len by (intro unat_64) simp
  have m: "word_of_nat n + kBlockTrailerSize = word_of_nat (n + 5)" by (simp add: kBlockTrailerSize_def)
  then have um: "unat (word_of_nat n + kBlockTrailerSize) = n + 5"
    using len by (simp only: m) (intro unat_64, simp)
  have read: "source_read (fc[length before + i := b]) (handle_offset h) (word_of_nat n + kBlockTrailerSize) =
      (OK_status, new @ tail, True)"
    unfolding m h(1) changed by (subst source_read_inside) (use len in \<open>simp_all add: lens\<close>)
  have stored: "fixed32_at le (new @ tail) (n + 1) = Inr (Mask (crc32c 0 old))"
    using fixed32_at_put [OF lens(2), of le _ "[]"] by (simp add: tail_def del: EncodeFixed_eq)
  have checked: "read_bytes (new @ tail) (n + 1) = Inr new"
    by (simp add: read_bytes_def lens)
  have "length (new @ tail) = n + 5" by (simp add: lens)
  note facts = read um n stored checked this h(2) [folded n_def]
  show ?thesis
    using diff by (simp only: ReadBlock_def Let_def facts prod.case le_def [symmetric] is_ok_def OK_status_def
        simp_thms if_False sum.case Value_def Extend_eq option.case Unmask_Mask) simp
qed

lemma EncodeFooter_after:
  assumes "EncodeFooter le dst f = Inr dst'"
  shows "dst = []"
  using assms by (auto simp: EncodeFooter_def Let_def PutFixed32_def kEncodedLength_def kMaxEncodedLength_def
      length_EncodeFixed32 split: sum.splits if_splits simp del: EncodeFixed_eq)

section \<open>A sample\<close>

text \<open>In place of Snappy: a run of equal bytes becomes the byte and the length of the run.\<close>

definition sample_snappy :: snappy where
  "sample_snappy =
     \<lparr>Snappy_Compress = (\<lambda>x. if x \<noteq> [] \<and> length x < 256 \<and> list_all (\<lambda>b. b = hd x) x
          then Some [hd x, word_of_nat (length x)] else None),
      Snappy_GetUncompressedLength = (\<lambda>c. if length c = 2 then Some (unat (c ! 1)) else None),
      Snappy_Uncompress = (\<lambda>c. if length c = 2 then Some (replicate (unat (c ! 1)) (c ! 0)) else None)\<rparr>"

definition sample_platform :: platform where
  "sample_platform = \<lparr>pf_little_endian = True, pf_address = 0, pf_snappy = sample_snappy\<rparr>"

lemma sample_snappy_ok: "snappy_ok (pf_snappy sample_platform)" "snappy_small (pf_snappy sample_platform)"
proof -
  have run: "list_all (\<lambda>b. b = hd x) x \<Longrightarrow> replicate (length x) (hd x) = x" for x :: "byte list"
    by (simp add: list_all_iff replicate_length_same)
  have "unat (word_of_nat n :: byte) = n" if "n < 256" for n using that by (simp add: unat_of_nat)
  with run show "snappy_ok (pf_snappy sample_platform)"
    by (simp add: snappy_ok_def sample_platform_def sample_snappy_def)
  have "unat b < 2 ^ 32" for b :: byte
  proof -
    have "unat b < 256" using unsigned_less [of b] by simp
    then show ?thesis by simp
  qed
  then show "snappy_small (pf_snappy sample_platform)"
    by (simp add: snappy_small_def sample_platform_def sample_snappy_def)
qed

definition sample_table_options :: options where
  "sample_table_options = \<lparr>block_size = 14, block_restart_interval = 16, compression = kSnappyCompression\<rparr>"

lemma sample_fits_table: "1 \<le> block_restart_interval sample_table_options" "cost 64 sample_pairs + 64 < 2 ^ 32"
  by (simp_all add: sample_table_options_def sample_pairs_def)

definition sample_table :: "byte list" where
  "sample_table =
     (case build_table sample_platform sample_table_options sample_pairs of Inr (_, fc) \<Rightarrow> fc | _ \<Rightarrow> [])"


lemma sample_table_built: "build_table sample_platform sample_table_options sample_pairs = Inr (OK_status, sample_table)"
proof -
  from build_table_file [OF sample_snappy_ok(1) sample_fits_table(1) sample_sorted sample_fits_table(2)]
  show ?thesis by (auto simp: sample_table_def)
qed

lemma sample_table_opens:
  "\<exists>t. open_table sample_platform junk opts sample_table = Inr (Some t)"
proof -
  from build_table_file [OF sample_snappy_ok(1) sample_fits_table(1) sample_sorted sample_fits_table(2)]
  obtain ds f where "table_file sample_platform sample_table sample_pairs ds f"
    by (auto simp: sample_table_def)
  from TableOpen_reads [OF this, of junk opts] show ?thesis by blast
qed

section \<open>Properties\<close>

text \<open>What building and opening a table gives, for the proofs of the properties.\<close>

lemma built_table_reads:
  assumes "snappy_ok (pf_snappy pf)" "1 \<le> block_restart_interval opts" "sorted_pairs es"
    "cost 64 es + 64 < 2 ^ 32"
  shows "\<exists>fc ds f t. build_table pf opts es = Inr (OK_status, fc) \<and> table_file pf fc es ds f \<and>
    open_table pf junk ropts fc = Inr (Some t) \<and> table_reads pf junk es ds t"
  using build_table_file [OF assms] TableOpen_reads [of pf _ es _ _ junk ropts] by metis

text \<open>
  C5. Refinement: pairs in the order of their keys are built into a table without a failed
  assertion, the file is opened, and the two-level iterator behaves as a cursor in the
  sequence of the pairs, whatever steps a client takes.
\<close>

theorem table_refines_pairs:
  assumes "snappy_ok (pf_snappy pf)" "1 \<le> block_restart_interval opts" "sorted_pairs es"
    "cost 64 es + 64 < 2 ^ 32"
  shows "\<exists>fc t it. build_table pf opts es = Inr (OK_status, fc) \<and>
    open_table pf junk ropts fc = Inr (Some t) \<and> TableNewIterator pf t = Inr it \<and>
    walk tl_Valid tl_key tl_value (tl_Next (pf_little_endian pf) (BlockReader pf junk t))
      (tl_SeekToFirst (pf_little_endian pf) (BlockReader pf junk t))
      (tl_Seek (pf_little_endian pf) (BlockReader pf junk t)) steps it =
      Some (Inr (walk_pairs es steps (length es)))"
  using built_table_reads [OF assms, of junk ropts] TableNewIterator_source [of pf junk es]
    two_level.fresh_walk_sees by metis

theorem table_refines_pairs_witness:
  "\<exists>fc t it. build_table sample_platform sample_table_options sample_pairs = Inr (OK_status, fc) \<and>
    open_table sample_platform 0 sample_table_options fc = Inr (Some t) \<and>
    TableNewIterator sample_platform t = Inr it \<and>
    walk tl_Valid tl_key tl_value (tl_Next True (BlockReader sample_platform 0 t))
      (tl_SeekToFirst True (BlockReader sample_platform 0 t))
      (tl_Seek True (BlockReader sample_platform 0 t)) [Step_Seek [97, 1], Step_Next, Step_Next] it =
      Some (Inr [Some ([97, 98], []), Some ([98], [3]), None])"
proof -
  have "walk_pairs sample_pairs [Step_Seek [97, 1], Step_Next, Step_Next] (length sample_pairs) =
      [Some ([97, 98], []), Some ([98], [3]), None]"
    by code_simp
  moreover have "pf_little_endian sample_platform" by (simp add: sample_platform_def)
  ultimately show ?thesis
    using table_refines_pairs [OF sample_snappy_ok(1) sample_fits_table(1) sample_sorted sample_fits_table(2),
      of 0 sample_table_options "[Step_Seek [97, 1], Step_Next, Step_Next]"] by simp
qed

text \<open>
  C6. Round trip: a table that was built is opened, and going through it from its first
  pair gives the pairs back, in their order, and ends without an error.
\<close>

theorem table_roundtrip:
  assumes "snappy_ok (pf_snappy pf)" "1 \<le> block_restart_interval opts" "sorted_pairs es"
    "cost 64 es + 64 < 2 ^ 32"
  shows "\<exists>fc t it it0 it'. build_table pf opts es = Inr (OK_status, fc) \<and>
    open_table pf junk ropts fc = Inr (Some t) \<and> TableNewIterator pf t = Inr it \<and>
    tl_SeekToFirst (pf_little_endian pf) (BlockReader pf junk t) it = Inr it0 \<and>
    scan tl_Valid tl_key tl_value (tl_Next (pf_little_endian pf) (BlockReader pf junk t)) (length es) it0 =
      Some (Inr (es, it')) \<and> tl_get_status it' = OK_status"
  using built_table_reads [OF assms, of junk ropts] TableNewIterator_source [of pf junk es]
    two_level.scan_all by metis

theorem table_roundtrip_witness:
  "\<exists>fc t it it0 it'. build_table sample_platform sample_table_options sample_pairs = Inr (OK_status, fc) \<and>
    open_table sample_platform 0 sample_table_options fc = Inr (Some t) \<and>
    TableNewIterator sample_platform t = Inr it \<and>
    tl_SeekToFirst True (BlockReader sample_platform 0 t) it = Inr it0 \<and>
    scan tl_Valid tl_key tl_value (tl_Next True (BlockReader sample_platform 0 t)) 3 it0 =
      Some (Inr (sample_pairs, it')) \<and> tl_get_status it' = OK_status"
proof -
  have "length sample_pairs = 3" "pf_little_endian sample_platform"
    by (simp_all add: sample_pairs_def sample_platform_def)
  then show ?thesis
    using table_roundtrip [OF sample_snappy_ok(1) sample_fits_table(1) sample_sorted sample_fits_table(2),
      of 0 sample_table_options] by simp
qed

text \<open>
  C7. Lookup: \<open>InternalGet\<close> on a table that was built hands its callback one pair at most. It
  is the pair of the key if the table has it, and else none, or the pair that follows.
\<close>

theorem table_lookup:
  assumes "snappy_ok (pf_snappy pf)" "1 \<le> block_restart_interval opts" "sorted_pairs es"
    "cost 64 es + 64 < 2 ^ 32"
  shows "\<exists>fc t p. build_table pf opts es = Inr (OK_status, fc) \<and> open_table pf junk ropts fc = Inr (Some t) \<and>
    InternalGet pf junk t k saver arg =
      Some (Inr (OK_status, case p of None \<Rightarrow> arg | Some (k', v) \<Rightarrow> saver k' v arg)) \<and>
    (p = None \<or> p = pair_at es (first_at_least k es)) \<and>
    (map_of es k \<noteq> None \<longrightarrow> p = Some (k, the (map_of es k)))"
  using built_table_reads [OF assms, of junk ropts] InternalGet_reads [of pf junk es _ _ k saver arg] by metis

theorem table_lookup_witness:
  "\<exists>fc t. build_table sample_platform sample_table_options sample_pairs = Inr (OK_status, fc) \<and>
    open_table sample_platform 0 sample_table_options fc = Inr (Some t) \<and>
    InternalGet sample_platform 0 t [97] (\<lambda>k v _. Some (k, v)) None = Some (Inr (OK_status, Some ([97], [1, 2])))"
proof -
  have "map_of sample_pairs [97] = Some [1, 2]" by (simp add: sample_pairs_def)
  with table_lookup [OF sample_snappy_ok(1) sample_fits_table(1) sample_sorted sample_fits_table(2),
      of 0 sample_table_options "[97]" "\<lambda>k v _. Some (k, v)" None]
  show ?thesis by auto
qed

text \<open>
  \<open>ApproximateOffsetOf\<close> on a table that was built gives, for a key of the table, the
  offset at which a block with that key is stored.
\<close>

theorem table_offset:
  assumes "snappy_ok (pf_snappy pf)" "1 \<le> block_restart_interval opts" "sorted_pairs es"
    "cost 64 es + 64 < 2 ^ 32" "k \<in> fst ` set es"
  shows "\<exists>fc t h ps. build_table pf opts es = Inr (OK_status, fc) \<and> open_table pf junk ropts fc = Inr (Some t) \<and>
    ApproximateOffsetOf pf t k = Some (Inr (handle_offset h)) \<and> block_holds pf fc h ps \<and> k \<in> fst ` set ps"
proof -
  from built_table_reads [OF assms(1-4), of junk ropts] obtain fc ds f t
    where t: "build_table pf opts es = Inr (OK_status, fc)" "table_file pf fc es ds f"
      "open_table pf junk ropts fc = Inr (Some t)" "table_reads pf junk es ds t" by blast
  from ApproximateOffsetOf_reads [OF t(4) assms(5)] obtain d where "d \<in> set ds"
    "k \<in> fst ` set (item_pairs d)" "ApproximateOffsetOf pf t k = Some (Inr (handle_offset (item_handle d)))"
    by blast
  with t(1-3) show ?thesis unfolding table_file_def by blast
qed

theorem table_offset_witness:
  "\<exists>fc t h ps. build_table sample_platform sample_table_options sample_pairs = Inr (OK_status, fc) \<and>
    open_table sample_platform 0 sample_table_options fc = Inr (Some t) \<and>
    ApproximateOffsetOf sample_platform t [98] = Some (Inr (handle_offset h)) \<and>
    block_holds sample_platform fc h ps \<and> [98] \<in> fst ` set ps"
proof (rule table_offset [OF sample_snappy_ok(1) sample_fits_table(1) sample_sorted sample_fits_table(2)])
  show "[98] \<in> fst ` set sample_pairs" by (simp add: sample_pairs_def)
qed

text \<open>
  A search in an opened table does not run for ever, whatever a file of at most 8 GiB holds, if Snappy
  does not blow up its blocks: it ends with a result or with a read outside a damaged block.
\<close>

theorem table_search_returns:
  assumes "open_table pf junk opts fc = Inr (Some t)" "length fc \<le> 2 ^ 33" "snappy_small (pf_snappy pf)"
  shows "\<exists>r. InternalGet pf junk t k saver arg = Some r"
  by (rule InternalGet_returns [OF assms])

theorem table_search_returns_witness:
  "\<exists>fc t r. open_table sample_platform 0 sample_table_options fc = Inr (Some t) \<and>
    InternalGet sample_platform 0 t [97] (\<lambda>k v _. Some v) None = Some r"
proof -
  from built_table_reads [OF sample_snappy_ok(1) sample_fits_table(1) sample_sorted sample_fits_table(2),
      of 0 sample_table_options]
  obtain fc ds f t where t: "open_table sample_platform 0 sample_table_options fc = Inr (Some t)"
    "table_file sample_platform fc sample_pairs ds f" by blast
  from t(2) have "length fc \<le> 2 ^ 33" by (simp add: table_file_def)
  from table_search_returns [OF t(1) this sample_snappy_ok(2), of "[97]" "\<lambda>k v _. Some v" None] t(1)
  show ?thesis by blast
qed

text \<open>
  C22. Damage: if a byte of a stored block, or the byte with its type, is not what was
  written, \<open>ReadBlock\<close> reports a checksum mismatch and returns no contents.
\<close>

theorem changed_byte_is_detected:
  assumes "fc = pre @ block_bytes (pf_little_endian pf) ty stored @ post" "length fc < 2 ^ 63"
    and "handle_offset h = word_of_nat (length pre)" "handle_size h = word_of_nat (length stored)"
    and "i \<le> length stored" "(stored @ [compression_code ty]) ! i \<noteq> b"
  shows "ReadBlock pf (source_read (fc[length pre + i := b])) h =
    Inr (DataLoss ''block checksum mismatch'', no_contents)"
  by (rule ReadBlock_changed [OF assms])

theorem changed_byte_is_detected_witness:
  "ReadBlock sample_platform (source_read ((block_bytes True kNoCompression [1, 2, 3])[1 := 7]))
     \<lparr>handle_offset = 0, handle_size = 3\<rparr> = Inr (DataLoss ''block checksum mismatch'', no_contents)"
  using changed_byte_is_detected [of "block_bytes True kNoCompression [1, 2, 3]" "[]" sample_platform
      kNoCompression "[1, 2, 3]" "[]" "\<lparr>handle_offset = 0, handle_size = 3\<rparr>" 1 7]
  by (simp add: sample_platform_def length_block_bytes)

text \<open>
  A handle whose size is \<open>2 ^ 64 - 5\<close>: the size with the trailer wraps to 0, the read of
  nothing succeeds, and \<open>ReadBlock\<close> looks for the trailer outside what was read.
\<close>

theorem huge_handle_overread:
  "ReadBlock pf (source_read fc) \<lparr>handle_offset = 0, handle_size = - 5\<rparr> = Inl Out_of_bounds"
proof -
  have "source_read fc 0 0 = (OK_status, [], True)" by (simp add: source_read_def)
  moreover have "fixed32_at (pf_little_endian pf) [] n = Inl Out_of_bounds" for n
    by (simp add: fixed32_at_def DecodeFixed32_def)
  moreover have "unat (- 5 :: 64 word) = 18446744073709551611" by simp
  ultimately show ?thesis
    by (simp add: ReadBlock_def Let_def kBlockTrailerSize_def is_ok_def OK_status_def)
qed

text \<open>
  \<open>Footer::EncodeTo\<close> on a string that is not empty never gets past its assertion: the
  padding is to a fixed size and not relative to the size before.
\<close>

theorem footer_needs_empty_string:
  assumes "dst \<noteq> []"
  shows "EncodeFooter le dst f = Inl Assertion_failed"
proof -
  have "EncodeHandle d h = Inl e \<Longrightarrow> e = Assertion_failed" for d h e
    by (simp add: EncodeHandle_def split: if_splits)
  then show ?thesis
    using EncodeFooter_after [of le dst f] assms
    by (cases "EncodeFooter le dst f") (auto simp: EncodeFooter_def Let_def split: sum.splits if_splits)
qed

theorem footer_needs_empty_string_witness:
  "EncodeFooter True [0] make_footer = Inl Assertion_failed"
  by (rule footer_needs_empty_string) simp

end
