(* ===== verification/Encoding_Properties.thy ===== *)
theory Encoding_Properties
  imports Codec Crc32c_Laws Stringpiece Status
begin

text \<open>
  The properties of the leaves of the library: the encodings of numbers, the checksum, the
  pieces of strings and the status.
\<close>

section \<open>Encodings\<close>

text \<open>
  C23. Round trip of \<open>coding.cc\<close>, 64 bits: what \<open>PutVarint64\<close> appends is read back, whatever
  follows it, it is as long as \<open>VarintLength\<close> says, and never longer than the 10 bytes of
  the buffers of the callers.
\<close>

theorem varint64_roundtrip:
  "\<exists>code. PutVarint64 dst v = dst @ code \<and> GetVarint64 (code @ rest) = Some (v, rest) \<and>
    length code = VarintLength v \<and> length code \<le> 10"
  by (simp add: PutVarint64_def GetVarint64_encoded VarintLength_eq)
    (simp add: EncodeVarint64_eq length_Varint64)

text \<open>
  Round trip, 32 bits: the unrolled encoder and the decoder with its fast path for one
  byte. A 32-bit number has the code that it has as a 64-bit number.
\<close>

theorem varint32_roundtrip:
  "\<exists>code. PutVarint32 dst v = dst @ code \<and> GetVarint32 (code @ rest) = Some (v, rest) \<and>
    code = EncodeVarint64 (ucast v) \<and> length code \<le> 5"
proof -
  have "unat v < 2 ^ 32" using unsigned_less [where 'a = nat, of v] by simp
  then have "unat (ucast v :: 64 word) = unat v" by (simp add: unsigned_ucast_eq take_bit_nat_eq_self)
  then show ?thesis
    by (simp add: PutVarint32_def GetVarint32_encoded)
      (simp add: EncodeVarint32_eq EncodeVarint64_eq length_Varint32)
qed

text \<open>
  Errors: a code that is cut off is not read as another number, in either width.
\<close>

theorem truncated_varint_is_rejected:
  "(k < length (EncodeVarint32 v) \<longrightarrow> GetVarint32 (take k (EncodeVarint32 v)) = None) \<and>
   (k < length (EncodeVarint64 w) \<longrightarrow> GetVarint64 (take k (EncodeVarint64 w)) = None)"
  by (simp add: GetVarint32_def GetVarint32Ptr_eq GetVarint32PtrFallback_def GetVarint64_def GetVarint64Ptr_def
      EncodeVarint32_eq EncodeVarint64_eq get_varint_truncated)

theorem truncated_varint_is_rejected_witness:
  "GetVarint32 (take 2 (EncodeVarint32 100000)) = None \<and> GetVarint64 (take 2 (EncodeVarint64 100000)) = None"
proof -
  have "2 < length (EncodeVarint32 100000)" "2 < length (EncodeVarint64 100000)" by code_simp+
  then show ?thesis
    using truncated_varint_is_rejected [of 2 100000 100000] by simp
qed

text \<open>
  Equivalence: the fixed-width encoders and decoders have a branch for each byte order
  of the machine. Both give the little-endian bytes, and both read them.
\<close>

theorem fixed_branches_agree:
  "EncodeFixed16 le v16 = EncodeFixed16 le' v16 \<and> EncodeFixed32 le v32 = EncodeFixed32 le' v32 \<and>
   EncodeFixed64 le v64 = EncodeFixed64 le' v64 \<and> DecodeFixed16 le p = DecodeFixed16 le' p \<and>
   DecodeFixed32 le p = DecodeFixed32 le' p \<and> DecodeFixed64 le p = DecodeFixed64 le' p \<and>
   DecodeFixed16 le (EncodeFixed16 le' v16 @ rest) = Some v16 \<and>
   DecodeFixed32 le (EncodeFixed32 le' v32 @ rest) = Some v32 \<and>
   DecodeFixed64 le (EncodeFixed64 le' v64 @ rest) = Some v64"
proof -
  have "DecodeFixed64 b (value_bytes 8 v64 @ rest) = Some v64" for b
    using DecodeFixed_branches(3) DecodeFixed_encoded(3) by (cases b) simp_all
  moreover have "DecodeFixed16 a p = DecodeFixed16 b p" "DecodeFixed32 a p = DecodeFixed32 b p"
    "DecodeFixed64 a p = DecodeFixed64 b p" for a b
    using DecodeFixed_branches [of p] by (cases a; cases b; simp)+
  ultimately show ?thesis by (simp add: DecodeFixed_encoded)
qed

text \<open>
  Sequences: the codes of numbers one after the other, as the handles of a footer are,
  are read back one by one.
\<close>

theorem varint_sequences:
  "get_many GetVarint32 (length vs) (concat (map EncodeVarint32 vs) @ rest) = Some (vs, rest) \<and>
   get_many GetVarint64 (length ws) (concat (map EncodeVarint64 ws) @ rest) = Some (ws, rest)"
  by (simp add: varint32.get_many_puts varint64.get_many_puts)

section \<open>The checksum\<close>

text \<open>
  C21. Equivalence: \<open>crc32c::Extend\<close> never reads outside a table or the buffer, and it is the
  checksum that divides bit by bit, wherever the buffer lies and on either byte order.
\<close>

theorem crc32c_is_the_checksum:
  "Extend le addr crc buf = Some (crc32c crc buf)"
  by (rule Extend_eq)

text \<open>
  A checksum is extended piece by piece, and two buffers that differ in one byte have
  different checksums, also behind the mask with which a table stores them.
\<close>

theorem crc32c_extends_and_detects:
  "(case Value le a1 xs of None \<Rightarrow> None | Some c \<Rightarrow> Extend le a2 c ys) = Value le a3 (xs @ ys) \<and>
   (b \<noteq> b' \<longrightarrow> map_option Mask (Value le a1 (xs @ b # ys)) \<noteq> map_option Mask (Value le a1 (xs @ b' # ys)))"
proof -
  have "Mask c = Mask d \<Longrightarrow> c = d" for c d by (metis Unmask_Mask)
  then show ?thesis using crc32c_one_byte [of b b' 0 xs ys]
    by (auto simp: Value_def Extend_eq crc32c_append)
qed

theorem crc32c_extends_and_detects_witness:
  "map_option Mask (Value True 0 ([1] @ 2 # [3])) \<noteq> map_option Mask (Value True 0 ([1] @ 7 # [3]))"
  using crc32c_extends_and_detects [where xs = "[1]" and ys = "[3]" and b = 2 and b' = 7] by simp

section \<open>Pieces of strings\<close>

text \<open>
  \<open>StringPiece::compare\<close> is the lexicographic order of the bytes, a piece before what it
  is a prefix of; \<open>==\<close>, \<open>starts_with\<close> and \<open>ends_with\<close> are what they say.
\<close>

theorem compare_is_lexicographic:
  "(compare a b < 0 \<longleftrightarrow> a < b) \<and> (compare a b = 0 \<longleftrightarrow> a = b) \<and> (0 < compare a b \<longleftrightarrow> b < a) \<and>
   (equal_pieces a b \<longleftrightarrow> a = b) \<and> (starts_with a b \<longleftrightarrow> (\<exists>rest. a = b @ rest)) \<and>
   (ends_with a b \<longleftrightarrow> (\<exists>rest. a = rest @ b)) \<and>
   Consume b a = Inr (if starts_with a b then (True, drop (length b) a) else (False, a))"
  by (intro conjI compare_sign equal_pieces_eq starts_with_iff ends_with_iff Consume_eq)

text \<open>
  \<open>find\<close> gives the first place of a character from a position on, \<open>rfind\<close> the last place
  up to one, and \<open>npos\<close> where there is none.
\<close>

theorem searches_find:
  assumes "length s < npos"
  shows "(let i = find_char s c pos in
      if i = npos then \<forall>j. pos \<le> j \<and> j < length s \<longrightarrow> s ! j \<noteq> c
      else pos \<le> i \<and> i < length s \<and> s ! i = c \<and> (\<forall>j. pos \<le> j \<and> j < i \<longrightarrow> s ! j \<noteq> c)) \<and>
    (let i = rfind_char s c pos in
      if i = npos then \<forall>j. j \<le> pos \<and> j < length s \<longrightarrow> s ! j \<noteq> c
      else i \<le> pos \<and> i < length s \<and> s ! i = c \<and> (\<forall>j. i < j \<and> j \<le> pos \<and> j < length s \<longrightarrow> s ! j \<noteq> c))"
proof (rule conjI)
  show "let i = find_char s c pos in
      if i = npos then \<forall>j. pos \<le> j \<and> j < length s \<longrightarrow> s ! j \<noteq> c
      else pos \<le> i \<and> i < length s \<and> s ! i = c \<and> (\<forall>j. pos \<le> j \<and> j < i \<longrightarrow> s ! j \<noteq> c)"
    using find_char_first [of s c pos] find_char_none [OF assms, of c pos] by (auto simp: Let_def)
  define n where "n = min pos (length s - 1) + 1"
  have n: "n \<le> npos" using assms by (simp add: n_def)
  show "let i = rfind_char s c pos in
      if i = npos then \<forall>j. j \<le> pos \<and> j < length s \<longrightarrow> s ! j \<noteq> c
      else i \<le> pos \<and> i < length s \<and> s ! i = c \<and> (\<forall>j. i < j \<and> j \<le> pos \<and> j < length s \<longrightarrow> s ! j \<noteq> c)"
  proof (cases "s = []")
    case False
    then have iff: "j < n \<longleftrightarrow> j \<le> pos \<and> j < length s" for j by (cases s) (auto simp: n_def)
    have "rfind_char s c pos = rfind_loop s c n" using False by (simp add: rfind_char_def n_def)
    then show ?thesis
      using rfind_loop_last [OF n, of s c] rfind_loop_none [OF n, of s c] by (auto simp: iff Let_def)
  qed (simp add: rfind_char_def Let_def)
qed

theorem searches_find_witness:
  "let s = [1, 2, 1, 2 :: byte] in
    (let i = find_char s 2 2 in
      if i = npos then \<forall>j. 2 \<le> j \<and> j < length s \<longrightarrow> s ! j \<noteq> 2
      else 2 \<le> i \<and> i < length s \<and> s ! i = 2 \<and> (\<forall>j. 2 \<le> j \<and> j < i \<longrightarrow> s ! j \<noteq> 2)) \<and>
    (let i = rfind_char s 2 2 in
      if i = npos then \<forall>j. j \<le> 2 \<and> j < length s \<longrightarrow> s ! j \<noteq> 2
      else i \<le> 2 \<and> i < length s \<and> s ! i = 2 \<and> (\<forall>j. i < j \<and> j \<le> 2 \<and> j < length s \<longrightarrow> s ! j \<noteq> 2))"
  unfolding Let_def [of "[1, 2, 1, 2]"] by (rule searches_find) (simp add: npos_def)

section \<open>Status\<close>

text \<open>
  \<open>Status::ToString\<close> tells any two statuses apart, so that \<open>operator==\<close>, which compares
  these texts, is equality of code and message.
\<close>

theorem status_texts_differ:
  "(ToString s = ToString t \<longleftrightarrow> s = t) \<and> (equal_status s t \<longleftrightarrow> s = t)"
  by (simp add: ToString_inject equal_status_eq)

end
