(* ===== verification/Thread_Pool.thy ===== *)
theory Thread_Pool
  imports Prelude "HOL-Library.Multiset"
begin

text \<open>
  \<open>src/base/thread/simple_thread_pool.h\<close>: the pool of threads behind \<open>ThreadPool\<close>. A step
  is what a thread does between taking the mutex and giving it up, so the steps of all
  threads are interleaved in any order.
\<close>

section \<open>The state\<close>

text \<open>
  Where a thread is in \<open>WorkerLoop\<close>: before its first \<open>lock\<close>, in the wait for its
  \<open>Waiter\<close> with \<open>ready\<close> and \<open>task\<close>, at a task outside of the lock, or past the loop. The
  \<open>Waiter\<close> is a local variable of the loop: it is gone with it.
\<close>

datatype 'a worker = Starting | Waiting bool "'a option" | Running 'a | Gone

text \<open>
  The destructor: not called yet; in the wait for \<open>empty_\<close>, with whether it has been
  notified; past it, joining the threads.
\<close>

datatype closing = Open | Draining bool | Joining

text \<open>\<open>scheduled\<close> and \<open>executed\<close> record the calls of \<open>Schedule\<close> and \<open>ExecuteTask\<close>.\<close>

record 'a pool =
  waiters :: "nat list"
  pending :: "'a list"
  exiting :: bool
  workers :: "'a worker list"
  closing :: closing
  scheduled :: "'a list"
  executed :: "'a list"

definition make_pool :: "nat \<Rightarrow> 'a pool" where
  "make_pool num_threads =
     \<lparr>waiters = [], pending = [], exiting = False, workers = replicate num_threads Starting,
      closing = Open, scheduled = [], executed = []\<rparr>"

section \<open>The operations\<close>

definition set_worker :: "nat \<Rightarrow> 'a worker \<Rightarrow> 'a pool \<Rightarrow> 'a pool" where
  "set_worker i w p = p\<lparr>workers := (workers p)[i := w]\<rparr>"

text \<open>A waiter of a thread that has left its loop is a dangling pointer.\<close>

definition Schedule :: "'a \<Rightarrow> 'a pool \<Rightarrow> fault + 'a pool" where
  "Schedule task p =
     (let p = p\<lparr>scheduled := scheduled p @ [task]\<rparr> in
      if waiters p = [] then Inr (p\<lparr>pending := pending p @ [task]\<rparr>)
      else
        let waiter = last (waiters p); p = p\<lparr>waiters := butlast (waiters p)\<rparr> in
        (case workers p ! waiter of
           Waiting ready _ \<Rightarrow> Inr (set_worker waiter (Waiting True (Some task)) p)
         | _ \<Rightarrow> Inl Out_of_bounds))"

definition notify_empty :: "'a pool \<Rightarrow> 'a pool" where
  "notify_empty p = (case closing p of Draining _ \<Rightarrow> p\<lparr>closing := Draining True\<rparr> | _ \<Rightarrow> p)"

text \<open>\<open>WorkerLoop\<close> from the head of the loop to the next place that gives up the mutex.\<close>

definition loop_head :: "nat \<Rightarrow> 'a pool \<Rightarrow> fault + 'a pool" where
  "loop_head i p =
     (if exiting p then Inr (set_worker i Gone p)
      else
        (case pending p of
           [] \<Rightarrow>
             if length (waiters p) < length (workers p) then
               Inr (set_worker i (Waiting False None) (p\<lparr>waiters := waiters p @ [i]\<rparr>))
             else Inl Assertion_failed
         | task # rest \<Rightarrow>
             let p = p\<lparr>pending := rest\<rparr>;
                 p = (if rest = [] then notify_empty p else p) in
             Inr (set_worker i (Running task) p)))"

text \<open>What thread \<open>i\<close> does next; \<open>None\<close> when it waits or is gone.\<close>

definition worker_turn :: "nat \<Rightarrow> 'a pool \<Rightarrow> (fault + 'a pool) option" where
  "worker_turn i p =
     (case workers p ! i of
        Starting \<Rightarrow> Some (loop_head i p)
      | Waiting False _ \<Rightarrow> None
      | Waiting True (Some task) \<Rightarrow> Some (Inr (set_worker i (Running task) p))
      | Waiting True None \<Rightarrow> Some (loop_head i p)
      | Running task \<Rightarrow> Some (loop_head i (p\<lparr>executed := executed p @ [task]\<rparr>))
      | Gone \<Rightarrow> None)"

definition wake :: "nat list \<Rightarrow> 'a worker list \<Rightarrow> 'a worker list" where
  "wake ws = fold (\<lambda>w xs. xs[w := Waiting True None]) ws"

definition let_go :: "'a pool \<Rightarrow> 'a pool" where
  "let_go p = p\<lparr>exiting := True, workers := wake (waiters p) (workers p), closing := Joining\<rparr>"

text \<open>The destructor, up to its first wait, and after a wait.\<close>

definition delete_pool :: "'a pool \<Rightarrow> 'a pool" where
  "delete_pool p = (if pending p = [] then let_go p else p\<lparr>closing := Draining False\<rparr>)"

definition delete_turn :: "'a pool \<Rightarrow> 'a pool option" where
  "delete_turn p = (if closing p = Draining True then Some (delete_pool p) else None)"

section \<open>Runs\<close>

text \<open>
  The steps that the pool takes by itself, and those with its callers. Nobody schedules a
  task once the destructor has set \<open>exiting_\<close>.
\<close>

inductive work_step :: "'a pool \<Rightarrow> 'a pool \<Rightarrow> bool" where
  turn: "i < length (workers p) \<Longrightarrow> worker_turn i p = Some (Inr q) \<Longrightarrow> work_step p q"
| drain: "delete_turn p = Some q \<Longrightarrow> work_step p q"

inductive pool_step :: "'a pool \<Rightarrow> 'a pool \<Rightarrow> bool" where
  work: "work_step p q \<Longrightarrow> pool_step p q"
| schedule: "\<not> exiting p \<Longrightarrow> Schedule task p = Inr q \<Longrightarrow> pool_step p q"
| delete: "closing p = Open \<Longrightarrow> pool_step p (delete_pool p)"

inductive pool_reachable :: "nat \<Rightarrow> 'a pool \<Rightarrow> bool" for n where
  start: "pool_reachable n (make_pool n)"
| step: "pool_reachable n p \<Longrightarrow> pool_step p q \<Longrightarrow> pool_reachable n q"

inductive work_run :: "'a pool \<Rightarrow> 'a pool \<Rightarrow> bool" where
  here: "work_run p p"
| more: "work_step p q \<Longrightarrow> work_run q r \<Longrightarrow> work_run p r"

section \<open>The tasks that threads hold\<close>

primrec in_hand :: "'a worker \<Rightarrow> 'a multiset" where
  "in_hand Starting = {#}"
| "in_hand (Waiting r x) = (case x of None \<Rightarrow> {#} | Some t \<Rightarrow> {#t#})"
| "in_hand (Running t) = {#t#}"
| "in_hand Gone = {#}"

definition held :: "'a worker list \<Rightarrow> 'a multiset" where
  "held ws = sum_list (map in_hand ws)"

lemma held_update: "i < length ws \<Longrightarrow> held (ws[i := w]) + in_hand (ws ! i) = held ws + in_hand w"
proof (induction ws arbitrary: i)
  case (Cons v ws)
  show ?case
  proof (cases i)
    case (Suc j)
    with Cons.IH [of j] Cons.prems show ?thesis by (simp add: held_def ac_simps)
  qed (simp add: held_def ac_simps)
qed simp

lemma held_none: "\<forall>w \<in> set ws. in_hand w = {#} \<Longrightarrow> held ws = {#}"
  by (induction ws) (simp_all add: held_def)

lemma held_less:
  "i < length ws \<Longrightarrow> in_hand (ws ! i) = x + in_hand w \<Longrightarrow> held ws = held (ws[i := w]) + x"
  using held_update [of i ws w] by (simp add: ac_simps)

lemma length_wake [simp]: "length (wake is ws) = length ws"
  unfolding wake_def by (induction "is" arbitrary: ws) simp_all

lemma wake_nth: "i < length ws \<Longrightarrow> wake is ws ! i = (if i \<in> set is then Waiting True None else ws ! i)"
  unfolding wake_def
proof (induction "is" arbitrary: ws)
  case (Cons j js)
  then show ?case by (cases "i = j") auto
qed simp

section \<open>The invariant\<close>

definition pool_inv :: "nat \<Rightarrow> 'a pool \<Rightarrow> bool" where
  "pool_inv n p \<longleftrightarrow> length (workers p) = n \<and> distinct (waiters p) \<and>
     (if exiting p then (\<forall>i < n. \<forall>x. workers p ! i \<noteq> Waiting False x)
      else
        (\<forall>i. i \<in> set (waiters p) \<longleftrightarrow> i < n \<and> workers p ! i = Waiting False None) \<and>
        (\<forall>i < n. workers p ! i \<noteq> Gone \<and> workers p ! i \<noteq> Waiting True None \<and>
          (\<forall>t. workers p ! i \<noteq> Waiting False (Some t)))) \<and>
     (pending p \<noteq> [] \<longrightarrow> waiters p = [] \<and> \<not> exiting p) \<and>
     (exiting p \<longleftrightarrow> closing p = Joining) \<and> (closing p = Draining False \<longrightarrow> pending p \<noteq> []) \<and>
     mset (scheduled p) = mset (executed p) + mset (pending p) + held (workers p)"

lemma held_Starting: "held (replicate n Starting) = {#}"
  by (induction n) (simp_all add: held_def)

lemma make_pool_inv: "pool_inv n (make_pool n)"
  by (simp add: pool_inv_def make_pool_def held_Starting)

lemma waiters_subset: "pool_inv n p \<Longrightarrow> \<not> exiting p \<Longrightarrow> set (waiters p) \<subseteq> {..< n}"
  by (auto simp: pool_inv_def)

lemma waiters_few:
  assumes "pool_inv n p" "\<not> exiting p" "i < n" "i \<notin> set (waiters p)"
  shows "length (waiters p) < length (workers p)"
proof -
  have "insert i (set (waiters p)) \<subseteq> {..< n}" using waiters_subset [OF assms(1,2)] assms(3) by simp
  then have "card (insert i (set (waiters p))) \<le> n"
    using card_mono [of "{..< n}" "insert i (set (waiters p))"] by simp
  then show ?thesis using assms by (simp add: pool_inv_def distinct_card)
qed


text \<open>A thread on its way to the head of the loop is as good as one that starts.\<close>

lemma loop_head_Starting: "loop_head i (set_worker i Starting p) = loop_head i p"
  by (simp add: loop_head_def set_worker_def notify_empty_def Let_def split: list.split closing.split)

lemma restart_inv:
  assumes inv: "pool_inv n p" and i: "i < n" and w: "workers p ! i = w"
    and old: "w = Starting \<and> done = [] \<or> w = Waiting True None \<and> done = [] \<or> (\<exists>t. w = Running t \<and> done = [t])"
  shows "pool_inv n (set_worker i Starting (p\<lparr>executed := executed p @ done\<rparr>))"
proof -
  have "in_hand w = mset done" using old by auto
  with w have "held (workers p) = held ((workers p)[i := Starting]) + mset done"
    using inv i by (intro held_less) (auto simp: pool_inv_def)
  moreover have "i \<notin> set (waiters p)" if "\<not> exiting p" using inv that w old by (auto simp: pool_inv_def)
  ultimately show ?thesis
    using inv i w unfolding pool_inv_def
    by (cases "exiting p") (auto simp: set_worker_def nth_list_update ac_simps)
qed

lemma loop_head_inv:
  assumes inv: "pool_inv n p" and i: "i < n" and w: "workers p ! i = Starting"
  shows "\<exists>q. loop_head i p = Inr q \<and> pool_inv n q \<and> length (workers q) = n"
proof -
  have len: "length (workers p) = n" using inv by (simp add: pool_inv_def)
  have held: "held (workers p) + in_hand v = held ((workers p)[i := v])" for v
    using held_update [of i "workers p" v] i len w by simp
  show ?thesis
  proof (cases "exiting p")
    case True
    with inv i len held [of Gone] show ?thesis
      by (auto simp: loop_head_def pool_inv_def set_worker_def nth_list_update)
  next
    case False
    have new: "i \<notin> set (waiters p)" using inv False w by (auto simp: pool_inv_def)
    show ?thesis
    proof (cases "pending p")
      case Nil
      then show ?thesis
        using inv i len False new waiters_few [OF inv False i new] held [of "Waiting False None"] w
        by (auto simp: loop_head_def pool_inv_def set_worker_def nth_list_update)
    next
      case (Cons task rest)
      define c where "c = (if rest = [] then notify_empty (p\<lparr>pending := rest\<rparr>) else p\<lparr>pending := rest\<rparr>)"
      have c: "workers c = workers p" "waiters c = waiters p" "exiting c = exiting p" "pending c = rest"
        "executed c = executed p" "scheduled c = scheduled p" "closing c = Joining \<longleftrightarrow> closing p = Joining"
        "closing c = Draining False \<longrightarrow> rest \<noteq> []"
        using inv Cons by (auto simp: c_def notify_empty_def pool_inv_def split: closing.splits)
      have "loop_head i p = Inr (set_worker i (Running task) c)"
        using False Cons by (simp add: loop_head_def c_def)
      moreover have "pool_inv n (set_worker i (Running task) c)"
        using inv i len False Cons c held [of "Running task"] w unfolding pool_inv_def
        by (auto simp: set_worker_def nth_list_update held [symmetric])
      ultimately show ?thesis using c(1) len by (simp add: set_worker_def)
    qed
  qed
qed

lemma worker_turn_inv:
  assumes inv: "pool_inv n p" and i: "i < n" and turn: "worker_turn i p = Some r"
  shows "\<exists>q. r = Inr q \<and> pool_inv n q"
proof -
  have len: "length (workers p) = n" using inv by (simp add: pool_inv_def)
  have go: "\<exists>q. loop_head i (p\<lparr>executed := executed p @ done\<rparr>) = Inr q \<and> pool_inv n q"
    if "workers p ! i = Starting \<and> done = [] \<or> workers p ! i = Waiting True None \<and> done = [] \<or>
      (\<exists>t. workers p ! i = Running t \<and> done = [t])" for "done"
  proof -
    from loop_head_inv [OF restart_inv [OF inv i refl that] i] i len obtain q
      where "loop_head i (set_worker i Starting (p\<lparr>executed := executed p @ done\<rparr>)) = Inr q" "pool_inv n q"
      by (auto simp: set_worker_def)
    then show ?thesis unfolding loop_head_Starting by blast
  qed
  show ?thesis
  proof (cases "workers p ! i")
    case Starting
    with go [of "[]"] turn show ?thesis by (auto simp: worker_turn_def)
  next
    case (Waiting b x)
    show ?thesis
    proof (cases x)
      case None
      with Waiting go [of "[]"] turn show ?thesis
        by (cases b) (auto simp: worker_turn_def)
    next
      case (Some t)
      with Waiting turn have w: "workers p ! i = Waiting True (Some t)"
        and r: "r = Inr (set_worker i (Running t) p)"
        by (auto simp: worker_turn_def split: bool.splits)
      have "held ((workers p)[i := Running t]) = held (workers p)"
        using held_less [of i "workers p" "{#}" "Running t"] i len w by simp
      moreover have "i \<notin> set (waiters p)" if "\<not> exiting p" using inv that w by (auto simp: pool_inv_def)
      ultimately have "pool_inv n (set_worker i (Running t) p)"
        using inv i len w unfolding pool_inv_def
        by (cases "exiting p") (auto simp: set_worker_def nth_list_update)
      with r show ?thesis by blast
    qed
  next
    case (Running t)
    with go [of "[t]"] turn show ?thesis by (auto simp: worker_turn_def)
  next
    case Gone
    with turn show ?thesis by (simp add: worker_turn_def)
  qed
qed

lemma Schedule_inv:
  assumes inv: "pool_inv n p" and go: "\<not> exiting p"
  shows "\<exists>q. Schedule task p = Inr q \<and> pool_inv n q"
proof (cases "waiters p = []")
  case True
  with inv go show ?thesis by (auto simp: Schedule_def pool_inv_def)
next
  case False
  define w where "w = last (waiters p)"
  have ws: "waiters p = butlast (waiters p) @ [w]" using False by (simp add: w_def)
  have w: "w < n" "workers p ! w = Waiting False None"
    using inv go False last_in_set [of "waiters p"] by (auto simp: pool_inv_def w_def)
  have len: "length (workers p) = n" using inv by (simp add: pool_inv_def)
  have dist: "w \<notin> set (butlast (waiters p))" "distinct (butlast (waiters p))"
    using inv ws by (metis (no_types) pool_inv_def distinct_append not_distinct_conv_prefix distinct_butlast)+
  have mem: "i \<in> set (butlast (waiters p)) \<longleftrightarrow> i \<in> set (waiters p) \<and> i \<noteq> w" for i
    using dist(1) by (subst (2) ws) auto
  have held: "held ((workers p)[w := Waiting True (Some task)]) = held (workers p) + {#task#}"
    using held_update [of w "workers p" "Waiting True (Some task)"] w len by simp
  define q where "q = set_worker w (Waiting True (Some task))
    (p\<lparr>scheduled := scheduled p @ [task], waiters := butlast (waiters p)\<rparr>)"
  have "Schedule task p = Inr q"
    using False w(2) by (simp add: Schedule_def Let_def w_def [symmetric] q_def)
  moreover have "pool_inv n q"
    using inv go False w len held dist(2) unfolding pool_inv_def
    by (auto simp: q_def set_worker_def nth_list_update mem)
  ultimately show ?thesis by blast
qed

lemma held_wake:
  "\<forall>i \<in> set is. i < length ws \<and> in_hand (ws ! i) = {#} \<Longrightarrow> held (wake is ws) = held ws"
  unfolding wake_def
proof (induction "is" arbitrary: ws)
  case (Cons j js)
  have "held (ws[j := Waiting True None]) = held ws"
    using held_less [of j ws "{#}" "Waiting True None"] Cons.prems by simp
  moreover have "\<forall>i \<in> set js. i < length (ws[j := Waiting True None]) \<and>
      in_hand (ws[j := Waiting True None] ! i) = {#}"
    using Cons.prems by (auto simp: nth_list_update)
  ultimately show ?case using Cons.IH [of "ws[j := Waiting True None]"] by simp
qed simp

lemma delete_pool_inv:
  assumes inv: "pool_inv n p" and open': "closing p = Open \<or> closing p = Draining True"
  shows "pool_inv n (delete_pool p)"
proof (cases "pending p = []")
  case True
  have go: "\<not> exiting p" using inv open' by (auto simp: pool_inv_def)
  have len: "length (workers p) = n" using inv by (simp add: pool_inv_def)
  have "held (wake (waiters p) (workers p)) = held (workers p)"
    using inv go by (intro held_wake) (auto simp: pool_inv_def)
  then show ?thesis
    using inv go True len unfolding pool_inv_def
    by (auto simp: delete_pool_def let_go_def wake_nth split: if_splits)
next
  case False
  with inv open' show ?thesis by (auto simp: delete_pool_def pool_inv_def)
qed

lemma work_step_inv: "work_step p q \<Longrightarrow> pool_inv n p \<Longrightarrow> pool_inv n q"
proof (induction rule: work_step.induct)
  case (turn i p q)
  then show ?case using worker_turn_inv [of n p i "Inr q"] by (auto simp: pool_inv_def)
next
  case (drain p q)
  then show ?case using delete_pool_inv [of n p] by (auto simp: delete_turn_def split: if_splits)
qed

lemma pool_step_inv: "pool_step p q \<Longrightarrow> pool_inv n p \<Longrightarrow> pool_inv n q"
proof (induction rule: pool_step.induct)
  case (work p q)
  then show ?case using work_step_inv by blast
next
  case (schedule p task q)
  then show ?case using Schedule_inv [of n p task] by auto
next
  case (delete p)
  then show ?case using delete_pool_inv by blast
qed

lemma pool_reachable_inv: "pool_reachable n p \<Longrightarrow> pool_inv n p"
  by (induction rule: pool_reachable.induct) (auto intro: make_pool_inv pool_step_inv)

section \<open>The pool comes to rest\<close>

primrec worker_weight :: "'a worker \<Rightarrow> nat" where
  "worker_weight Starting = 2"
| "worker_weight (Waiting r x) = (case x of None \<Rightarrow> 1 | Some t \<Rightarrow> 4)"
| "worker_weight (Running t) = 3"
| "worker_weight Gone = 0"

definition pool_weight :: "'a pool \<Rightarrow> nat" where
  "pool_weight p = 3 * length (pending p) + sum_list (map worker_weight (workers p)) +
     (case closing p of Draining True \<Rightarrow> 2 | Draining False \<Rightarrow> 1 | _ \<Rightarrow> 0)"

lemma weights_update:
  "i < length ws \<Longrightarrow> sum_list (map worker_weight (ws[i := w])) + worker_weight (ws ! i) =
    sum_list (map worker_weight ws) + worker_weight w"
proof (induction ws arbitrary: i)
  case (Cons v ws)
  then show ?case by (cases i) auto
qed simp

lemma weights_wake:
  "\<forall>i \<in> set is. i < length ws \<and> ws ! i = Waiting False None \<Longrightarrow> distinct is \<Longrightarrow>
    sum_list (map worker_weight (wake is ws)) = sum_list (map worker_weight ws)"
  unfolding wake_def
proof (induction "is" arbitrary: ws)
  case (Cons j js)
  have "sum_list (map worker_weight (ws[j := Waiting True None])) = sum_list (map worker_weight ws)"
    using weights_update [of j ws "Waiting True None"] Cons.prems by simp
  moreover have "\<forall>i \<in> set js. i < length (ws[j := Waiting True None]) \<and>
      ws[j := Waiting True None] ! i = Waiting False None"
    using Cons.prems by (auto simp: nth_list_update)
  ultimately show ?case using Cons.IH [of "ws[j := Waiting True None]"] Cons.prems(2) by simp
qed simp

lemma loop_head_weight:
  assumes i: "i < length (workers p)" and q: "loop_head i p = Inr q"
    and w: "2 \<le> worker_weight (workers p ! i) \<or> exiting p \<and> 1 \<le> worker_weight (workers p ! i)"
  shows "pool_weight q < pool_weight p"
proof -
  note up = weights_update [OF i]
  show ?thesis
  proof (cases "exiting p")
    case True
    with q up [of Gone] w show ?thesis by (auto simp: loop_head_def pool_weight_def set_worker_def)
  next
    case False
    show ?thesis
    proof (cases "pending p")
      case Nil
      with False q up [of "Waiting False None"] w show ?thesis
        by (auto simp: loop_head_def pool_weight_def set_worker_def split: if_splits)
    next
      case (Cons task rest)
      with False q up [of "Running task"] w show ?thesis
        by (auto simp: loop_head_def pool_weight_def set_worker_def Let_def notify_empty_def
            split: if_splits closing.splits bool.splits)
    qed
  qed
qed

lemma work_step_weight: "work_step p q \<Longrightarrow> pool_inv n p \<Longrightarrow> pool_weight q < pool_weight p"
proof (induction rule: work_step.induct)
  case (turn i p q)
  have n: "i < n" using turn by (simp add: pool_inv_def)
  show ?case
  proof (cases "workers p ! i")
    case Starting
    with turn show ?thesis using loop_head_weight [of i p q] by (simp add: worker_turn_def)
  next
    case (Waiting r x)
    show ?thesis
    proof (cases x)
      case None
      with Waiting turn(2) have w: "workers p ! i = Waiting True None" "loop_head i p = Inr q"
        by (auto simp: worker_turn_def split: bool.splits)
      then have "exiting p" using turn.prems n by (auto simp: pool_inv_def)
      with w turn(1) show ?thesis using loop_head_weight [of i p q] by simp
    next
      case (Some t)
      with Waiting turn(2) have "q = set_worker i (Running t) p"
        by (auto simp: worker_turn_def split: bool.splits)
      then show ?thesis
        using weights_update [OF turn(1), of "Running t"] Waiting Some by (simp add: pool_weight_def set_worker_def)
    qed
  next
    case (Running t)
    with turn have "loop_head i (p\<lparr>executed := executed p @ [t]\<rparr>) = Inr q"
      by (simp add: worker_turn_def)
    with Running turn(1) have "pool_weight q < pool_weight (p\<lparr>executed := executed p @ [t]\<rparr>)"
      using loop_head_weight [of i "p\<lparr>executed := executed p @ [t]\<rparr>" q] by simp
    then show ?thesis by (simp add: pool_weight_def)
  next
    case Gone
    with turn show ?thesis by (simp add: worker_turn_def)
  qed
next
  case (drain p q)
  then have c: "closing p = Draining True" "q = delete_pool p" by (auto simp: delete_turn_def split: if_splits)
  then have "\<not> exiting p" using drain.prems by (simp add: pool_inv_def)
  then have "sum_list (map worker_weight (wake (waiters p) (workers p))) = sum_list (map worker_weight (workers p))"
    using drain.prems by (intro weights_wake) (auto simp: pool_inv_def)
  with c show ?case by (auto simp: delete_pool_def let_go_def pool_weight_def)
qed

text \<open>A pool at rest: every thread waits for a task or has left, and every task was executed.\<close>

definition at_rest :: "'a pool \<Rightarrow> bool" where
  "at_rest p \<longleftrightarrow> pending p = [] \<and> mset (executed p) = mset (scheduled p) \<and>
     (\<forall>w \<in> set (workers p). if closing p = Open then w = Waiting False None else w = Gone)"

lemma stuck_at_rest:
  assumes inv: "pool_inv n p" and n: "0 < n" and stuck: "\<nexists>q. work_step p q"
  shows "at_rest p"
proof -
  have len: "length (workers p) = n" using inv by (simp add: pool_inv_def)
  have none: "worker_turn i p = None" if "i < n" for i
  proof (cases "worker_turn i p")
    case (Some r)
    with worker_turn_inv [OF inv that] obtain q where "r = Inr q" by blast
    with Some that len stuck work_step.turn show ?thesis by blast
  qed simp
  have idle: "(\<exists>x. workers p ! i = Waiting False x) \<or> workers p ! i = Gone" if "i < n" for i
    using none [OF that] by (cases "workers p ! i") (auto simp: worker_turn_def split: bool.splits option.splits)
  have held: "held (workers p) = {#}" if "\<forall>i < n. in_hand (workers p ! i) = {#}"
  proof -
    have "\<forall>w \<in> set (workers p). in_hand w = {#}" using that len by (auto simp: in_set_conv_nth)
    then show ?thesis by (rule held_none)
  qed
  have nodrain: "closing p \<noteq> Draining True"
    using stuck work_step.drain [of p "delete_pool p"] by (auto simp: delete_turn_def)
  show ?thesis
  proof (cases "exiting p")
    case True
    then have gone: "\<forall>i < n. workers p ! i = Gone" using idle inv by (auto simp: pool_inv_def)
    then have "\<forall>w \<in> set (workers p). w = Gone" using len by (auto simp: in_set_conv_nth)
    moreover have "held (workers p) = {#}" using gone by (intro held) simp
    ultimately show ?thesis
      using inv True unfolding at_rest_def pool_inv_def by auto
  next
    case False
    then have "workers p ! i \<noteq> Gone \<and> (\<forall>t. workers p ! i \<noteq> Waiting False (Some t))" if "i < n" for i
      using inv that by (simp add: pool_inv_def)
    with idle have waiting: "\<forall>i < n. workers p ! i = Waiting False None" by (metis not_Some_eq)
    then have "\<forall>w \<in> set (workers p). w = Waiting False None" using len by (auto simp: in_set_conv_nth)
    moreover have "held (workers p) = {#}" using waiting by (intro held) simp
    moreover have "waiters p \<noteq> []" using waiting n False inv by (auto simp: pool_inv_def)
    then have "pending p = []" using inv by (auto simp: pool_inv_def)
    moreover have "closing p = Open"
      using inv False nodrain calculation(3) by (cases "closing p") (auto simp: pool_inv_def)
    ultimately show ?thesis
      using inv unfolding at_rest_def pool_inv_def by auto
  qed
qed

lemma work_run_reachable: "work_run p q \<Longrightarrow> pool_reachable n p \<Longrightarrow> pool_reachable n q"
  by (induction rule: work_run.induct) (auto intro: pool_reachable.step pool_step.work)

lemma no_endless_work:
  assumes "pool_inv n (f 0)"
  shows "\<not> (\<forall>i. work_step (f i) (f (Suc i)))"
proof
  assume steps: "\<forall>i. work_step (f i) (f (Suc i))"
  have inv: "pool_inv n (f i)" for i
    by (induction i) (use assms steps work_step_inv in blast)+
  have "pool_weight (f i) + i \<le> pool_weight (f 0)" for i
  proof (induction i)
    case (Suc i)
    then show ?case using work_step_weight [OF _ inv, of i "f (Suc i)"] steps by fastforce
  qed simp
  from this [of "Suc (pool_weight (f 0))"] show False by simp
qed


section \<open>A task that schedules another while the pool is deleted\<close>

lemma turn_reachable:
  "pool_reachable n p \<Longrightarrow> i < length (workers p) \<Longrightarrow> worker_turn i p = Some (Inr q) \<Longrightarrow> pool_reachable n q"
  by (blast intro: pool_reachable.step pool_step.work work_step.turn)

lemma schedule_reachable:
  "pool_reachable n p \<Longrightarrow> \<not> exiting p \<Longrightarrow> Schedule task p = Inr q \<Longrightarrow> pool_reachable n q"
  by (blast intro: pool_reachable.step pool_step.schedule)

lemma delete_reachable:
  "pool_reachable n p \<Longrightarrow> closing p = Open \<Longrightarrow> pool_reachable n (delete_pool p)"
  by (blast intro: pool_reachable.step pool_step.delete)

lemmas pool_eval = make_pool_def worker_turn_def loop_head_def set_worker_def Schedule_def delete_pool_def
  let_go_def wake_def numeral_2_eq_2 Let_def

text \<open>Thread 0 is at its task, thread 1 has left, and its waiter is still in the list.\<close>

definition late_pool :: "'a \<Rightarrow> 'a pool" where
  "late_pool task =
     \<lparr>waiters = [1], pending = [], exiting = True, workers = [Running task, Gone], closing = Joining,
      scheduled = [task], executed = []\<rparr>"

lemma late_pool_reachable: "pool_reachable 2 (late_pool task)"
proof -
  define q1 :: "'a pool" where "q1 = \<lparr>waiters = [1], pending = [], exiting = False,
    workers = [Starting, Waiting False None], closing = Open, scheduled = [], executed = []\<rparr>"
  define q2 :: "'a pool" where "q2 = \<lparr>waiters = [1, 0], pending = [], exiting = False,
    workers = [Waiting False None, Waiting False None], closing = Open, scheduled = [], executed = []\<rparr>"
  define q3 where "q3 = \<lparr>waiters = [1], pending = [], exiting = False,
    workers = [Waiting True (Some task), Waiting False None], closing = Open, scheduled = [task], executed = []\<rparr>"
  define q4 where "q4 = \<lparr>waiters = [1], pending = [], exiting = False,
    workers = [Running task, Waiting False None], closing = Open, scheduled = [task], executed = []\<rparr>"
  have "pool_reachable 2 q1"
    by (rule turn_reachable [OF pool_reachable.start, of 1]) (simp_all add: pool_eval q1_def)
  then have "pool_reachable 2 q2"
    by (rule turn_reachable [of _ _ 0]) (simp_all add: pool_eval q1_def q2_def)
  then have "pool_reachable 2 q3"
    by (rule schedule_reachable [of _ _ task]) (simp_all add: pool_eval q2_def q3_def)
  then have "pool_reachable 2 q4"
    by (rule turn_reachable [of _ _ 0]) (simp_all add: pool_eval q3_def q4_def)
  then have "pool_reachable 2 (delete_pool q4)"
    by (rule delete_reachable) (simp add: q4_def)
  then show ?thesis
    by (rule turn_reachable [of _ _ 1]) (simp_all add: pool_eval q4_def late_pool_def)
qed

end
