(* ===== verification/Parallel_For.thy ===== *)
theory Parallel_For
  imports Prelude "HOL-Library.Multiset"
begin

text \<open>
  \<open>src/base/thread/device_thread_pool.h\<close>: \<open>ParallelFor\<close> cuts a range of indices into blocks
  that the threads of a pool work on, and \<open>Barrier\<close> waits for all of them.
\<close>

section \<open>The choice of the blocks\<close>

text \<open>What can go wrong: an empty \<open>std::function\<close> is called, or a fault of the arithmetic.\<close>

datatype call_error = Empty_function | C_fault fault

definition INT_MAX :: int where
  "INT_MAX = 2 ^ 31 - 1"

definition divup :: "int \<Rightarrow> int \<Rightarrow> call_error + int" where
  "divup x y =
     (if y \<le> 0 then Inl (C_fault Assertion_failed)
      else if INT_MAX < x + y then Inl (C_fault Signed_overflow)
      else Inr ((x + y - 1) div y))"

text \<open>
  What is computed in floating point: \<open>DeviceCostModel::NumThreads\<close>, the block sizes
  \<open>1.0 / TaskSize\<close> and twice that as indices, the efficiency of a number of blocks, and
  the two comparisons of efficiencies.
\<close>

record 'd cost_model =
  NumThreads_for :: "int \<Rightarrow> int \<Rightarrow> int"
  block_size_f :: int
  block_size_f2 :: int
  efficiency :: "int \<Rightarrow> int \<Rightarrow> 'd"
  nearly_as_good :: "'d \<Rightarrow> 'd \<Rightarrow> bool"
  less_good :: "'d \<Rightarrow> 'd \<Rightarrow> bool"

type_synonym align = "(int \<Rightarrow> int) option"

definition call_align :: "align \<Rightarrow> int \<Rightarrow> call_error + int" where
  "call_align block_align x = (case block_align of None \<Rightarrow> Inl Empty_function | Some f \<Rightarrow> Inr (f x))"

text \<open>The first block size. It is aligned if it is not 0, not if there is an alignment.\<close>

definition first_block_size :: "int \<Rightarrow> 'd cost_model \<Rightarrow> align \<Rightarrow> call_error + int" where
  "first_block_size n cm block_align =
     (let block_size = min n (max 1 (block_size_f cm)) in
      if block_size \<noteq> 0 then
        (case call_align block_align block_size of
           Inl e \<Rightarrow> Inl e
         | Inr new_block_size \<Rightarrow>
             if new_block_size < block_size then Inl (C_fault Assertion_failed)
             else Inr (min n new_block_size))
      else Inr block_size)"

definition efficiency_of :: "'d cost_model \<Rightarrow> int \<Rightarrow> int \<Rightarrow> call_error + 'd" where
  "efficiency_of cm threads block_count =
     (case divup block_count threads of
        Inl e \<Rightarrow> Inl e
      | Inr d \<Rightarrow>
          if INT_MAX < d * threads then Inl (C_fault Signed_overflow)
          else Inr (efficiency cm block_count (d * threads)))"

definition coarser_size :: "int \<Rightarrow> align \<Rightarrow> int \<Rightarrow> call_error + int" where
  "coarser_size n block_align prev_block_count =
     (case divup n (prev_block_count - 1) of
        Inl e \<Rightarrow> Inl e
      | Inr coarser \<Rightarrow>
          if block_align \<noteq> None then
            (case call_align block_align coarser of
               Inl e \<Rightarrow> Inl e
             | Inr aligned \<Rightarrow>
                 if aligned < coarser then Inl (C_fault Assertion_failed) else Inr (min n aligned))
          else Inr coarser)"

text \<open>The loop over coarser blocks; the result is the block size with the block count.\<close>

function coarser_loop ::
    "int \<Rightarrow> int \<Rightarrow> 'd cost_model \<Rightarrow> align \<Rightarrow> int \<Rightarrow> int \<Rightarrow> int \<Rightarrow> int \<Rightarrow> 'd \<Rightarrow> call_error + int \<times> int" where
  "coarser_loop n threads cm block_align max_block_size prev block_size block_count max_efficiency =
     (if prev \<le> 1 then Inr (block_size, block_count)
      else
        (case coarser_size n block_align prev of
           Inl e \<Rightarrow> Inl e
         | Inr coarser \<Rightarrow>
             if max_block_size < coarser then Inr (block_size, block_count)
             else
               (case divup n coarser of
                  Inl e \<Rightarrow> Inl e
                | Inr n_coarser \<Rightarrow>
                    if \<not> n_coarser < prev then Inl (C_fault Assertion_failed)
                    else
                      (case efficiency_of cm threads n_coarser of
                         Inl e \<Rightarrow> Inl e
                       | Inr eff \<Rightarrow>
                           if nearly_as_good cm eff max_efficiency then
                             coarser_loop n threads cm block_align max_block_size n_coarser coarser n_coarser
                               (if less_good cm max_efficiency eff then eff else max_efficiency)
                           else
                             coarser_loop n threads cm block_align max_block_size n_coarser block_size block_count
                               max_efficiency))))"
  by pat_completeness auto

termination
  by (relation "measure (\<lambda>(_, _, _, _, _, prev, _, _, _). nat prev)") auto

declare coarser_loop.simps [simp del]

definition choose_blocks :: "int \<Rightarrow> int \<Rightarrow> 'd cost_model \<Rightarrow> align \<Rightarrow> call_error + int \<times> int" where
  "choose_blocks n threads cm block_align =
     (let max_block_size = min n (max 1 (block_size_f2 cm)) in
      case first_block_size n cm block_align of
        Inl e \<Rightarrow> Inl e
      | Inr block_size \<Rightarrow>
          (case divup n block_size of
             Inl e \<Rightarrow> Inl e
           | Inr block_count \<Rightarrow>
               (case efficiency_of cm threads block_count of
                  Inl e \<Rightarrow> Inl e
                | Inr max_efficiency \<Rightarrow>
                    coarser_loop n threads cm block_align max_block_size block_count block_size block_count
                      max_efficiency)))"

section \<open>The ranges\<close>

text \<open>One call of \<open>HandleRange\<close>: the range goes to \<open>f\<close>, or two halves are scheduled.\<close>

datatype range_action = Leaf_range | Split_at int

definition HandleRange :: "int \<Rightarrow> int \<Rightarrow> int \<Rightarrow> call_error + range_action" where
  "HandleRange block_size first limit =
     (if limit - first \<le> block_size then Inr Leaf_range
      else
        (case divup ((limit - first) div 2) block_size of
           Inl e \<Rightarrow> Inl e
         | Inr d \<Rightarrow>
             if INT_MAX < first + d * block_size then Inl (C_fault Signed_overflow)
             else Inr (Split_at (first + d * block_size))))"

text \<open>
  The work on the pool: the ranges that are scheduled, in any order, the calls of \<open>f\<close>,
  and what is left of the n_coarser of the barrier.
\<close>

record range_work =
  todo :: "(int \<times> int) multiset"
  calls :: "(int \<times> int) multiset"
  barrier_count :: int

inductive range_step :: "int \<Rightarrow> range_work \<Rightarrow> range_work \<Rightarrow> bool" for block_size where
  leaf: "(first, limit) \<in># todo w \<Longrightarrow> HandleRange block_size first limit = Inr Leaf_range \<Longrightarrow>
    range_step block_size w
      (w\<lparr>todo := todo w - {#(first, limit)#}, calls := calls w + {#(first, limit)#},
         barrier_count := barrier_count w - 1\<rparr>)"
| halve: "(first, limit) \<in># todo w \<Longrightarrow> HandleRange block_size first limit = Inr (Split_at mid) \<Longrightarrow>
    range_step block_size w
      (w\<lparr>todo := todo w - {#(first, limit)#} + {#(mid, limit), (first, mid)#}\<rparr>)"

inductive range_run :: "int \<Rightarrow> range_work \<Rightarrow> range_work \<Rightarrow> bool" for block_size where
  here: "range_run block_size w w"
| more: "range_step block_size w v \<Longrightarrow> range_run block_size v u \<Longrightarrow> range_run block_size w u"

text \<open>
  \<open>ParallelFor\<close>: one call of \<open>f\<close> for the whole range, or the block size with the work as it
  starts.
\<close>

datatype 'w parallel = Whole_range | In_blocks int 'w

definition ParallelFor :: "int \<Rightarrow> int \<Rightarrow> 'd cost_model \<Rightarrow> align \<Rightarrow> call_error + range_work parallel" where
  "ParallelFor n threads cm block_align =
     (if n \<le> 1 \<or> threads = 1 \<or> NumThreads_for cm n threads = 1 then Inr Whole_range
      else
        (case choose_blocks n threads cm block_align of
           Inl e \<Rightarrow> Inl e
         | Inr (block_size, block_count) \<Rightarrow>
             Inr (In_blocks block_size
               \<lparr>todo = {#(0, n)#}, calls = {#}, barrier_count = block_count\<rparr>)))"

text \<open>\<open>ThreadPool::ParallelFor\<close> and the overload it calls: there is no alignment.\<close>

definition ThreadPool_ParallelFor :: "int \<Rightarrow> int \<Rightarrow> 'd cost_model \<Rightarrow> call_error + range_work parallel" where
  "ThreadPool_ParallelFor n threads cm =
     (if n < 0 \<or> INT_MAX < n then Inl (C_fault Assertion_failed)
      else ParallelFor n threads cm None)"


section \<open>Rounding up\<close>

definition cdiv :: "int \<Rightarrow> int \<Rightarrow> int" where
  "cdiv x y = (x + y - 1) div y"

lemma cdiv_le_iff: "0 < y \<Longrightarrow> cdiv x y \<le> k \<longleftrightarrow> x \<le> k * y"
proof -
  assume y: "0 < y"
  define q where "q = (x + y - 1) div y"
  define r where "r = (x + y - 1) mod y"
  have eq: "x + y - 1 = q * y + r" "0 \<le> r" "r < y" using y by (simp_all add: q_def r_def)
  have "q \<le> k \<longleftrightarrow> x \<le> k * y"
  proof
    assume "q \<le> k"
    then have "q * y \<le> k * y" using y by (intro mult_right_mono) simp_all
    then show "x \<le> k * y" using eq by linarith
  next
    assume "x \<le> k * y"
    then have "q * y < (k + 1) * y" using eq y by (simp add: distrib_right)
    then show "q \<le> k" using y by (simp add: mult_less_cancel_right)
  qed
  then show ?thesis by (simp add: cdiv_def q_def)
qed

lemma cdiv_bounds: "0 < y \<Longrightarrow> x \<le> cdiv x y * y \<and> cdiv x y * y < x + y"
  using cdiv_le_iff [of y x "cdiv x y"] cdiv_le_iff [of y x "cdiv x y - 1"]
  by (simp add: algebra_simps)

lemma cdiv_pos: "0 < y \<Longrightarrow> 0 < x \<Longrightarrow> 0 < cdiv x y"
  using cdiv_le_iff [of y x 0] by simp

lemma cdiv_coarser: "0 < y \<Longrightarrow> 0 < x \<Longrightarrow> cdiv x y \<le> s \<Longrightarrow> cdiv x s \<le> y"
proof -
  assume le: "0 < y" "0 < x" "cdiv x y \<le> s"
  then have "0 < s" using cdiv_pos [of y x] by simp
  with le show ?thesis using cdiv_le_iff [of y x s] cdiv_le_iff [of s x y] by (simp add: mult.commute)
qed

lemma divup_eq: "0 < y \<Longrightarrow> x + y \<le> INT_MAX \<Longrightarrow> divup x y = Inr (cdiv x y)"
  by (simp add: divup_def cdiv_def)

section \<open>Consecutive blocks\<close>

function blocks_of :: "int \<Rightarrow> int \<times> int \<Rightarrow> (int \<times> int) multiset" where
  "blocks_of b (lo, hi) =
     (if b \<le> 0 \<or> hi - lo \<le> b then {#(lo, hi)#} else {#(lo, lo + b)#} + blocks_of b (lo + b, hi))"
  by pat_completeness auto

termination
  by (relation "measure (\<lambda>(b, lo, hi). nat (hi - lo))") auto

declare blocks_of.simps [simp del]

lemma blocks_of_split:
  assumes "0 < b" "lo + int q * b < hi" "0 < q"
  shows "blocks_of b (lo, hi) = blocks_of b (lo, lo + int q * b) + blocks_of b (lo + int q * b, hi)"
  using assms(2,3)
proof (induction q arbitrary: lo)
  case (Suc q)
  have far: "lo + b + int q * b < hi" using Suc.prems(1) by (simp add: algebra_simps)
  have "0 \<le> int q * b" using assms(1) by simp
  with far have "lo + b < hi" by linarith
  then have step: "blocks_of b (lo, hi) = {#(lo, lo + b)#} + blocks_of b (lo + b, hi)"
    using assms(1) by (subst blocks_of.simps) simp
  show ?case
  proof (cases "q = 0")
    case True
    have "blocks_of b (lo, lo + b) = {#(lo, lo + b)#}" by (subst blocks_of.simps) simp
    with True step show ?thesis by simp
  next
    case False
    then have "0 < int q * b" using assms(1) by simp
    moreover have eq: "lo + int (Suc q) * b = lo + b + int q * b" by (simp add: distrib_right)
    ultimately have "blocks_of b (lo, lo + int (Suc q) * b) =
        {#(lo, lo + b)#} + blocks_of b (lo + b, lo + b + int q * b)"
      unfolding eq using assms(1) by (subst blocks_of.simps) simp
    with step Suc.IH [OF far] False show ?thesis by (simp add: algebra_simps)
  qed
qed simp

lemma size_blocks_of: "0 < b \<Longrightarrow> lo < hi \<Longrightarrow> int (size (blocks_of b (lo, hi))) = cdiv (hi - lo) b"
proof (induction b "(lo, hi)" arbitrary: lo rule: blocks_of.induct)
  case (1 b lo)
  show ?case
  proof (cases "hi - lo \<le> b")
    case True
    then have "cdiv (hi - lo) b \<le> 1" using "1.prems" by (simp add: cdiv_le_iff)
    with cdiv_pos [of b "hi - lo"] "1.prems" have "cdiv (hi - lo) b = 1" by simp
    with True show ?thesis by (subst blocks_of.simps) simp
  next
    case False
    have "cdiv (hi - lo) b = cdiv (hi - (lo + b)) b + 1"
    proof (rule antisym)
      define c d where cd: "c = cdiv (hi - lo) b" "d = cdiv (hi - (lo + b)) b"
      have c: "hi - lo \<le> c * b" and d: "hi - (lo + b) \<le> d * b"
        using cdiv_bounds "1.prems" by (auto simp: cd)
      have "hi - lo \<le> (d + 1) * b" using d by (simp add: distrib_right)
      then show "cdiv (hi - lo) b \<le> cdiv (hi - (lo + b)) b + 1"
        using "1.prems" by (simp only: cdiv_le_iff cd)
      have "hi - (lo + b) \<le> (c - 1) * b" using c by (simp add: left_diff_distrib)
      then have "cdiv (hi - (lo + b)) b \<le> c - 1" using "1.prems" by (simp only: cdiv_le_iff)
      then show "cdiv (hi - (lo + b)) b + 1 \<le> cdiv (hi - lo) b" by (simp add: cd)
    qed
    with "1.hyps" "1.prems" False show ?thesis by (subst blocks_of.simps) simp
  qed
qed

text \<open>Every index is in one of the blocks, and only in one.\<close>

lemma blocks_of_cover:
  "0 < b \<Longrightarrow> lo < hi \<Longrightarrow>
    size {#r \<in># blocks_of b (lo, hi). fst r \<le> i \<and> i < snd r#} = (if lo \<le> i \<and> i < hi then 1 else 0)"
proof (induction b "(lo, hi)" arbitrary: lo rule: blocks_of.induct)
  case (1 b lo)
  show ?case
  proof (cases "hi - lo \<le> b")
    case True
    then show ?thesis by (subst blocks_of.simps) simp
  next
    case False
    with "1.hyps" "1.prems" show ?thesis by (subst blocks_of.simps) auto
  qed
qed

lemma blocks_of_small:
  "0 < b \<Longrightarrow> lo < hi \<Longrightarrow> r \<in># blocks_of b (lo, hi) \<Longrightarrow> lo \<le> fst r \<and> fst r < snd r \<and> snd r \<le> hi \<and> snd r - fst r \<le> b"
proof (induction b "(lo, hi)" arbitrary: lo rule: blocks_of.induct)
  case (1 b lo)
  show ?case
  proof (cases "hi - lo \<le> b")
    case True
    with "1.prems" show ?thesis by (simp add: blocks_of.simps)
  next
    case False
    then have "blocks_of b (lo, hi) = {#(lo, lo + b)#} + blocks_of b (lo + b, hi)"
      using "1.prems" by (subst blocks_of.simps) simp
    with "1.hyps" "1.prems" False show ?thesis by auto
  qed
qed


section \<open>The choice of the blocks does not fail\<close>

definition block_ok :: "int \<Rightarrow> int \<times> int \<Rightarrow> bool" where
  "block_ok n bc = (0 < fst bc \<and> fst bc \<le> n \<and> snd bc = cdiv n (fst bc))"

text \<open>Machines of the usual size: no more than \<open>2 ^ 30\<close> indices, \<open>2 ^ 29\<close> threads.\<close>

definition sizes_ok :: "int \<Rightarrow> int \<Rightarrow> bool" where
  "sizes_ok n threads \<longleftrightarrow> 1 < n \<and> n \<le> 2 ^ 30 - 1 \<and> 1 < threads \<and> threads \<le> 2 ^ 29"

lemma cdiv_le_self: "0 < y \<Longrightarrow> 0 \<le> x \<Longrightarrow> cdiv x y \<le> x"
proof -
  assume "0 < y" "0 \<le> x"
  then have "x * 1 \<le> x * y" by (intro mult_left_mono) simp_all
  with \<open>0 < y\<close> show ?thesis by (simp add: cdiv_le_iff)
qed

lemma efficiency_of_ok:
  assumes "sizes_ok n threads" "0 < c" "c \<le> n"
  shows "\<exists>e. efficiency_of cm threads c = Inr e"
proof -
  have "c + threads \<le> INT_MAX" using assms by (simp add: sizes_ok_def INT_MAX_def)
  moreover have "0 < threads" using assms(1) by (simp add: sizes_ok_def)
  ultimately show ?thesis
    using cdiv_bounds [of threads c] by (simp add: efficiency_of_def divup_eq)
qed

lemma coarser_size_ok:
  assumes sizes: "sizes_ok n threads" and align: "\<forall>f. block_align = Some f \<longrightarrow> (\<forall>x. x \<le> f x)"
    and k: "0 < k" "k < n"
  shows "\<exists>s. coarser_size n block_align (k + 1) = Inr s \<and> cdiv n k \<le> s \<and> s \<le> n"
proof -
  have n: "1 < n" "n \<le> 2 ^ 30 - 1" using sizes by (simp_all add: sizes_ok_def)
  have "divup n k = Inr (cdiv n k)" using k n by (intro divup_eq) (simp_all add: INT_MAX_def)
  moreover have "cdiv n k \<le> n" using k n by (intro cdiv_le_self) simp_all
  ultimately show ?thesis
    using align by (cases block_align) (auto simp: coarser_size_def call_align_def not_less)
qed

lemma coarser_loop_ok:
  assumes sizes: "sizes_ok n threads" and align: "\<forall>f. block_align = Some f \<longrightarrow> (\<forall>x. x \<le> f x)"
  shows "prev \<le> n \<Longrightarrow> block_ok n (block_size, block_count) \<Longrightarrow>
    \<exists>bc. coarser_loop n threads cm block_align mx prev block_size block_count eff = Inr bc \<and> block_ok n bc"
proof (induction "nat prev" arbitrary: prev block_size block_count eff rule: less_induct)
  case less
  have n: "1 < n" "n \<le> 2 ^ 30 - 1" using sizes by (simp_all add: sizes_ok_def)
  show ?case
  proof (cases "prev \<le> 1")
    case True
    with less.prems(2) show ?thesis by (subst coarser_loop.simps) simp
  next
    case False
    define k where "k = prev - 1"
    have k: "0 < k" "k < n" "prev = k + 1" using False less.prems(1) by (simp_all add: k_def)
    from coarser_size_ok [OF sizes align k(1,2)] obtain s
      where s: "coarser_size n block_align prev = Inr s" "cdiv n k \<le> s" "s \<le> n" unfolding k(3) by blast
    have spos: "0 < s" using s(2) cdiv_pos [of k n] k n by simp
    have d: "divup n s = Inr (cdiv n s)"
      using s spos n by (intro divup_eq) (simp_all add: INT_MAX_def)
    have c: "cdiv n s \<le> k" "0 < cdiv n s" using k n s spos by (auto intro: cdiv_coarser cdiv_pos)
    have "cdiv n s \<le> n" using c(1) k by simp
    from efficiency_of_ok [OF sizes c(2) this, of cm] obtain e where e: "efficiency_of cm threads (cdiv n s) = Inr e"
      by blast
    have new: "block_ok n (s, cdiv n s)" using s spos by (simp add: block_ok_def)
    note rec = less.hyps [of "cdiv n s"]
    have less': "nat (cdiv n s) < nat prev" "cdiv n s \<le> n" using c k by simp_all
    show ?thesis
      using rec [OF less' new] rec [OF less' less.prems(2)] s(1) d e c k False less.prems(2)
      by (subst coarser_loop.simps) (auto simp: Let_def)
  qed
qed

lemma choose_blocks_ok:
  assumes sizes: "sizes_ok n threads" and align: "\<forall>x. x \<le> f x"
  shows "\<exists>bc. choose_blocks n threads cm (Some f) = Inr bc \<and> block_ok n bc"
proof -
  have n: "1 < n" "n \<le> 2 ^ 30 - 1" using sizes by (simp_all add: sizes_ok_def)
  define b where "b = min n (f (min n (max 1 (block_size_f cm))))"
  have "min n (max 1 (block_size_f cm)) \<le> f (min n (max 1 (block_size_f cm)))" using align by blast
  then have first: "first_block_size n cm (Some f) = Inr b" and b: "0 < b" "b \<le> n"
    using n by (auto simp: first_block_size_def call_align_def b_def Let_def)
  have d: "divup n b = Inr (cdiv n b)" using b n by (intro divup_eq) (simp_all add: INT_MAX_def)
  have c: "0 < cdiv n b" "cdiv n b \<le> n" using b n by (auto intro: cdiv_pos cdiv_le_self)
  from efficiency_of_ok [OF sizes c, of cm] obtain e where e: "efficiency_of cm threads (cdiv n b) = Inr e"
    by blast
  have "block_ok n (b, cdiv n b)" using b by (simp add: block_ok_def)
  from coarser_loop_ok [OF sizes _ c(2) this, of "Some f" cm] align first d e show ?thesis
    by (simp add: choose_blocks_def)
qed

section \<open>The ranges are cut into the blocks\<close>

lemma HandleRange_ok:
  assumes "0 < b" "0 \<le> first" "first < limit" "limit \<le> 2 ^ 30 - 1" "b \<le> 2 ^ 30 - 1"
  shows "limit - first \<le> b \<and> HandleRange b first limit = Inr Leaf_range \<and>
      blocks_of b (first, limit) = {#(first, limit)#} \<or>
    (\<exists>mid. HandleRange b first limit = Inr (Split_at mid) \<and> first < mid \<and> mid < limit \<and>
      blocks_of b (first, limit) = blocks_of b (first, mid) + blocks_of b (mid, limit))"
proof (cases "limit - first \<le> b")
  case True
  then have "blocks_of b (first, limit) = {#(first, limit)#}" by (subst blocks_of.simps) simp
  with True show ?thesis by (simp add: HandleRange_def)
next
  case False
  define h where "h = (limit - first) div 2"
  define d where "d = cdiv h b"
  have h: "0 < h" "2 * h \<le> limit - first" "limit - first \<le> 2 * h + 1" using False assms by (simp_all add: h_def)
  have d: "0 < d" "d * b < h + b" using cdiv_pos [OF assms(1) h(1)] cdiv_bounds [OF assms(1), of h] by (simp_all add: d_def)
  have inside: "d * b < limit - first"
  proof (cases "h \<le> b")
    case True
    then have "d \<le> 1" using assms(1) by (simp add: d_def cdiv_le_iff)
    with d(1) have "d = 1" by simp
    with False show ?thesis by simp
  next
    case False
    with d(2) h(2) show ?thesis by linarith
  qed
  have pos: "0 < d * b" using d(1) assms(1) by simp
  have "divup h b = Inr d"
    unfolding d_def using assms h by (intro divup_eq) (simp_all add: INT_MAX_def)
  then have "HandleRange b first limit = Inr (Split_at (first + d * b))"
    using False inside assms by (simp add: HandleRange_def h_def INT_MAX_def)
  moreover have "blocks_of b (first, limit) = blocks_of b (first, first + d * b) + blocks_of b (first + d * b, limit)"
    using blocks_of_split [OF assms(1), of first "nat d" limit] d(1) inside by simp
  ultimately show ?thesis using pos inside by auto
qed

definition work_ok :: "int \<Rightarrow> int \<Rightarrow> range_work \<Rightarrow> bool" where
  "work_ok n b w \<longleftrightarrow> (\<forall>r \<in># todo w. 0 \<le> fst r \<and> fst r < snd r \<and> snd r \<le> n) \<and>
     calls w + (\<Sum>r \<in># todo w. blocks_of b r) = blocks_of b (0, n) \<and>
     barrier_count w = int (size (\<Sum>r \<in># todo w. blocks_of b r))"

definition work_left :: "int \<Rightarrow> range_work \<Rightarrow> nat" where
  "work_left b w = (\<Sum>r \<in># todo w. 2 * size (blocks_of b r) - 1)"

lemma blocks_of_nonempty: "0 < size (blocks_of b r)"
  by (cases r) (simp add: blocks_of.simps)

lemma range_step_ok:
  assumes "range_step b w v" "work_ok n b w" "0 < b" "b \<le> n" "n \<le> 2 ^ 30 - 1"
  shows "work_ok n b v \<and> work_left b v < work_left b w"
  using assms
proof (induction rule: range_step.induct)
  case (leaf first limit w)
  then obtain rest where rest: "todo w = add_mset (first, limit) rest" by (blast dest: multi_member_split)
  have r: "0 \<le> first" "first < limit" "limit \<le> n" using leaf.prems(1) rest by (auto simp: work_ok_def)
  then have "blocks_of b (first, limit) = {#(first, limit)#}"
    using HandleRange_ok [of b first limit] leaf by auto
  with leaf.prems(1) rest show ?case by (auto simp: work_ok_def work_left_def)
next
  case (halve first limit w mid)
  then obtain rest where rest: "todo w = add_mset (first, limit) rest" by (blast dest: multi_member_split)
  have r: "0 \<le> first" "first < limit" "limit \<le> n" using halve.prems(1) rest by (auto simp: work_ok_def)
  then have mid: "first < mid" "mid < limit"
    "blocks_of b (first, limit) = blocks_of b (first, mid) + blocks_of b (mid, limit)"
    using HandleRange_ok [of b first limit] halve by auto
  have "0 < size (blocks_of b (first, mid))" "0 < size (blocks_of b (mid, limit))"
    by (rule blocks_of_nonempty)+
  with halve.prems(1) rest r mid show ?case by (auto simp: work_ok_def work_left_def ac_simps)
qed

lemma range_run_ok:
  "range_run b w u \<Longrightarrow> work_ok n b w \<Longrightarrow> 0 < b \<Longrightarrow> b \<le> n \<Longrightarrow> n \<le> 2 ^ 30 - 1 \<Longrightarrow> work_ok n b u"
proof (induction rule: range_run.induct)
  case (more w v u)
  then show ?case using range_step_ok by blast
qed simp

lemma range_stuck:
  assumes ok: "work_ok n b w" and b: "0 < b" "b \<le> n" "n \<le> 2 ^ 30 - 1" and stuck: "\<nexists>v. range_step b w v"
  shows "todo w = {#} \<and> barrier_count w = 0 \<and> calls w = blocks_of b (0, n)"
proof -
  have "todo w = {#}"
  proof (rule ccontr)
    assume "todo w \<noteq> {#}"
    then obtain first limit where r: "(first, limit) \<in># todo w" by (metis multiset_nonemptyE surj_pair)
    then have "0 \<le> first" "first < limit" "limit \<le> n" using ok by (auto simp: work_ok_def)
    with HandleRange_ok [of b first limit] b r stuck show False
      by (blast dest: range_step.leaf range_step.halve intro: order_trans)
  qed
  with ok show ?thesis by (simp add: work_ok_def)
qed

end
