(* ===== verification/Barrier.thy ===== *)
theory Barrier
  imports Prelude "HOL-Library.Multiset" "HOL-Library.Word"
begin

unbundle bit_operations_syntax

text \<open>
  The class \<open>Barrier\<close> of \<open>src/base/thread/device_thread_pool.h\<close>: one thread waits until the
  others have all called \<open>Notify\<close>. The steps are the atomic operations on \<open>state_\<close> and what
  is done under the mutex, interleaved in any order.
\<close>

section \<open>The state\<close>

text \<open>
  Where a call of \<open>Notify\<close> is: before its \<open>fetch_sub\<close>, at the \<open>unique_lock\<close>, with the lock
  before and after \<open>notify_all\<close>, or returned. The call of \<open>Wait\<close>: before its \<open>fetch_or\<close>, at
  the \<open>unique_lock\<close>, with the lock before the test of the loop, in \<open>cv_.wait\<close>, woken up and
  before it has the lock again, or returned.
\<close>

datatype notifier = Working | At_lock | Locked | Told | Finished
datatype waiting = Coming | At_wait_lock | Testing | Sleeping | Woken | Returned

record barrier =
  bits :: "32 word"
  notified :: bool
  mutex_held :: bool
  notifiers :: "notifier multiset"
  waiter :: waiting

definition make_barrier :: "32 word \<Rightarrow> barrier" where
  "make_barrier n =
     \<lparr>bits = push_bit 1 n, notified = False, mutex_held = False,
      notifiers = replicate_mset (unat n) Working, waiter = Coming\<rparr>"

section \<open>The operations\<close>

text \<open>What a call of \<open>Notify\<close> does next; \<open>None\<close> when it has to wait for the mutex.\<close>

fun Notify_turn :: "notifier \<Rightarrow> barrier \<Rightarrow> (fault + notifier \<times> barrier) option" where
  "Notify_turn Working b =
     (let v = bits b - 2; b = b\<lparr>bits := v\<rparr> in
      if v \<noteq> 1 then
        (if (v + 2) AND NOT 1 = 0 then Some (Inl Assertion_failed) else Some (Inr (Finished, b)))
      else Some (Inr (At_lock, b)))"
| "Notify_turn At_lock b =
     (if mutex_held b then None else Some (Inr (Locked, b\<lparr>mutex_held := True\<rparr>)))"
| "Notify_turn Locked b =
     (if notified b then Some (Inl Assertion_failed)
      else
        Some (Inr (Told, b\<lparr>notified := True, waiter := (if waiter b = Sleeping then Woken else waiter b)\<rparr>)))"
| "Notify_turn Told b = Some (Inr (Finished, b\<lparr>mutex_held := False\<rparr>))"
| "Notify_turn Finished b = None"

definition Wait_turn :: "barrier \<Rightarrow> barrier option" where
  "Wait_turn b =
     (case waiter b of
        Coming \<Rightarrow>
          let v = bits b; b = b\<lparr>bits := v OR 1\<rparr> in
          if drop_bit 1 v = 0 then Some (b\<lparr>waiter := Returned\<rparr>) else Some (b\<lparr>waiter := At_wait_lock\<rparr>)
      | At_wait_lock \<Rightarrow> if mutex_held b then None else Some (b\<lparr>mutex_held := True, waiter := Testing\<rparr>)
      | Testing \<Rightarrow>
          if notified b then Some (b\<lparr>mutex_held := False, waiter := Returned\<rparr>)
          else Some (b\<lparr>mutex_held := False, waiter := Sleeping\<rparr>)
      | Sleeping \<Rightarrow> None
      | Woken \<Rightarrow> if mutex_held b then None else Some (b\<lparr>mutex_held := True, waiter := Testing\<rparr>)
      | Returned \<Rightarrow> None)"

text \<open>The destructor.\<close>

definition delete_barrier :: "barrier \<Rightarrow> fault + unit" where
  "delete_barrier b = (if drop_bit 1 (bits b) = 0 then Inr () else Inl Assertion_failed)"

text \<open>A condition variable may also wake up without a cause.\<close>

inductive barrier_step :: "barrier \<Rightarrow> barrier \<Rightarrow> bool" where
  notify: "who \<in># notifiers b \<Longrightarrow> Notify_turn who b = Some (Inr (who', c)) \<Longrightarrow>
    barrier_step b (c\<lparr>notifiers := notifiers b - {#who#} + {#who'#}\<rparr>)"
| wait: "Wait_turn b = Some c \<Longrightarrow> barrier_step b c"

inductive barrier_reachable :: "32 word \<Rightarrow> barrier \<Rightarrow> bool" for n where
  start: "barrier_reachable n (make_barrier n)"
| step: "barrier_reachable n b \<Longrightarrow> barrier_step b c \<Longrightarrow> barrier_reachable n c"
| spurious: "barrier_reachable n b \<Longrightarrow> waiter b = Sleeping \<Longrightarrow> barrier_reachable n (b\<lparr>waiter := Woken\<rparr>)"

section \<open>The invariant\<close>

text \<open>
  The calls of \<open>Notify\<close>: \<open>k\<close> are to come, which is what \<open>state_\<close> counts, and at most one is
  past the last \<open>fetch_sub\<close> and not finished. With this one the flag, the mutex and the
  waiter can only be in a few ways.
\<close>

primrec raising :: "notifier option \<Rightarrow> notifier multiset" where
  "raising None = {#}"
| "raising (Some who) = {#who#}"

fun phase_ok :: "nat \<Rightarrow> notifier option \<Rightarrow> bool \<Rightarrow> bool \<Rightarrow> waiting \<Rightarrow> bool" where
  "phase_ok k None False held w =
     (w = Coming \<and> \<not> held \<or> w = Returned \<and> \<not> held \<and> k = 0 \<or>
      w \<in> {At_wait_lock, Sleeping, Woken} \<and> \<not> held \<and> 0 < k \<or> w = Testing \<and> held \<and> 0 < k)"
| "phase_ok k None True held w =
     (k = 0 \<and> (w \<in> {At_wait_lock, Woken, Returned} \<and> \<not> held \<or> w = Testing \<and> held))"
| "phase_ok k (Some At_lock) told held w =
     (k = 0 \<and> \<not> told \<and> (w \<in> {At_wait_lock, Sleeping, Woken} \<and> \<not> held \<or> w = Testing \<and> held))"
| "phase_ok k (Some Locked) told held w =
     (k = 0 \<and> \<not> told \<and> held \<and> w \<in> {At_wait_lock, Sleeping, Woken})"
| "phase_ok k (Some Told) told held w = (k = 0 \<and> told \<and> held \<and> w \<in> {At_wait_lock, Woken})"
| "phase_ok k (Some who) told held w = False"

definition barrier_at :: "nat \<Rightarrow> nat \<Rightarrow> notifier option \<Rightarrow> barrier \<Rightarrow> bool" where
  "barrier_at n k alarm b \<longleftrightarrow>
     notifiers b = replicate_mset k Working + raising alarm +
       replicate_mset (n - k - size (raising alarm)) Finished \<and>
     k + size (raising alarm) \<le> n \<and>
     unat (bits b) = 2 * k + (if waiter b = Coming then 0 else 1) \<and>
     phase_ok k alarm (notified b) (mutex_held b) (waiter b)"

lemma make_barrier_at: "unat n < 2 ^ 31 \<Longrightarrow> barrier_at (unat n) (unat n) None (make_barrier n)"
  by (simp add: barrier_at_def make_barrier_def push_bit_eq_mult unat_word_ariths)

lemma bits_facts:
  assumes "unat (v :: 32 word) = 2 * k + w" "w = 0 \<or> w = 1"
  shows "0 < k \<Longrightarrow> unat (v - 2) = 2 * (k - 1) + w" "0 < k \<Longrightarrow> (v - 2 + 2) AND NOT 1 \<noteq> 0"
    "w = 0 \<Longrightarrow> unat (v OR 1) = 2 * k + 1" "drop_bit 1 v = 0 \<longleftrightarrow> k = 0"
proof -
  show drop: "drop_bit 1 v = 0 \<longleftrightarrow> k = 0"
  proof -
    have "drop_bit 1 v = 0 \<longleftrightarrow> unat (drop_bit 1 v) = 0" by (simp add: unsigned_eq_0_iff)
    also have "unat (drop_bit 1 v) = k"
      using assms by (auto simp: drop_bit_eq_div unat_div)
    finally show ?thesis .
  qed
  show "unat (v - 2) = 2 * (k - 1) + w" if "0 < k"
  proof -
    have "2 \<le> v" using assms that by (simp add: word_le_nat_alt)
    then show ?thesis using assms that by (simp add: unat_sub_if_size word_le_nat_alt)
  qed
  show "(v - 2 + 2) AND NOT 1 \<noteq> 0" if "0 < k"
  proof
    assume "(v - 2 + 2) AND NOT 1 = 0"
    then have "v AND NOT 1 = 0" by simp
    then have clear: "\<not> bit (v AND NOT 1) (Suc m)" for m by simp
    have "\<not> bit v (Suc m)" for m
      using clear [of m] bit_imp_le_length [of v "Suc m"] by (auto simp: bit_simps)
    then have "drop_bit 1 v = 0" by (intro bit_word_eqI) (simp add: bit_simps)
    with drop that show False by simp
  qed
  show "unat (v OR 1) = 2 * k + 1" if "w = 0"
  proof -
    have "even (unat v)" using assms that by simp
    moreover have "unat (v OR 1) = unat v OR unat (1 :: 32 word)" by (rule unsigned_or_eq)
    ultimately show ?thesis using assms that by (simp add: or_one_eq del: One_nat_def)
  qed
qed

section \<open>Every step keeps the invariant\<close>

lemma finished_more: "Suc j \<le> n \<Longrightarrow> add_mset x (replicate_mset (n - Suc j) x) = replicate_mset (n - j) x"
  by (simp flip: replicate_mset_Suc add: Suc_diff_Suc)

lemma Notify_turn_ok:
  assumes inv: "barrier_at n k alarm b" and who: "who \<in># notifiers b" and turn: "Notify_turn who b = Some r"
  shows "\<exists>who' c k' alarm'. r = Inr (who', c) \<and>
    barrier_at n k' alarm' (c\<lparr>notifiers := notifiers b - {#who#} + {#who'#}\<rparr>)"
proof (cases who)
  case Working
  with inv who obtain j where k: "k = Suc j"
    by (cases k; cases alarm) (auto simp: barrier_at_def split: if_splits)
  with inv have none: "alarm = None" "\<not> notified b"
    by (cases alarm; cases "the alarm"; cases "notified b"; simp add: barrier_at_def)+
  define w where "w = (if waiter b = Coming then 0 else 1 :: nat)"
  have w: "w = 0 \<or> w = 1" by (simp add: w_def)
  have v: "unat (bits b) = 2 * Suc j + w" using inv k by (simp add: barrier_at_def w_def)
  note bf = bits_facts [OF v w]
  have sub: "unat (bits b - 2) = 2 * j + w" using bf(1) by simp
  show ?thesis
  proof (cases "j = 0 \<and> waiter b \<noteq> Coming")
    case True
    with sub have "bits b - 2 = 1" by (simp add: w_def word_unat_eq_iff)
    with inv k none True turn Working have
      "r = Inr (At_lock, b\<lparr>bits := 1\<rparr>)"
      "barrier_at n 0 (Some At_lock) (b\<lparr>bits := 1, notifiers := notifiers b - {#who#} + {#At_lock#}\<rparr>)"
      by (auto simp: barrier_at_def)
    then show ?thesis by auto
  next
    case False
    with sub have "bits b - 2 \<noteq> 1" by (auto simp: w_def word_unat_eq_iff)
    with turn Working bf(2) have r: "r = Inr (Finished, b\<lparr>bits := bits b - 2\<rparr>)" by (simp add: Let_def)
    have "phase_ok j None False (mutex_held b) (waiter b)"
      using inv k none False by (auto simp: barrier_at_def)
    then have "barrier_at n j None
        (b\<lparr>bits := bits b - 2, notifiers := notifiers b - {#who#} + {#Finished#}\<rparr>)"
      using inv k none sub Working by (auto simp: barrier_at_def w_def finished_more)
    with r show ?thesis by auto
  qed
next
  case At_lock
  with inv who have alarm: "alarm = Some At_lock" by (cases alarm) (auto simp: barrier_at_def split: if_splits)
  with inv At_lock turn have "r = Inr (Locked, b\<lparr>mutex_held := True\<rparr>)"
    "barrier_at n k (Some Locked) (b\<lparr>mutex_held := True, notifiers := notifiers b - {#who#} + {#Locked#}\<rparr>)"
    by (auto simp: barrier_at_def split: if_splits)
  then show ?thesis by auto
next
  case Locked
  with inv who have alarm: "alarm = Some Locked" by (cases alarm) (auto simp: barrier_at_def split: if_splits)
  define c where "c = b\<lparr>notified := True, waiter := (if waiter b = Sleeping then Woken else waiter b)\<rparr>"
  have "r = Inr (Told, c)" "barrier_at n k (Some Told) (c\<lparr>notifiers := notifiers b - {#who#} + {#Told#}\<rparr>)"
    using inv Locked turn alarm by (auto simp: barrier_at_def c_def)
  then show ?thesis by auto
next
  case Told
  with inv who have alarm: "alarm = Some Told" by (cases alarm) (auto simp: barrier_at_def split: if_splits)
  with inv Told turn have "r = Inr (Finished, b\<lparr>mutex_held := False\<rparr>)"
    "barrier_at n k None (b\<lparr>mutex_held := False, notifiers := notifiers b - {#who#} + {#Finished#}\<rparr>)"
    by (auto simp: barrier_at_def finished_more [of 0, simplified])
  then show ?thesis by auto
qed (use turn in simp)

lemma Wait_turn_ok:
  assumes inv: "barrier_at n k alarm b" and turn: "Wait_turn b = Some c"
  shows "barrier_at n k alarm c"
proof (cases "waiter b = Coming")
  case True
  have v: "unat (bits b) = 2 * k + 0" using inv True by (simp add: barrier_at_def)
  note bf = bits_facts [OF v]
  have none: "alarm = None" "\<not> notified b"
    using inv True by (cases alarm; cases "the alarm"; cases "notified b"; simp add: barrier_at_def)+
  have "unat (bits b OR 1) = 2 * k + 1" "drop_bit 1 (bits b) = 0 \<longleftrightarrow> k = 0" using bf(3,4) by simp_all
  with inv True turn none show ?thesis
    by (cases "k = 0") (auto simp: barrier_at_def Wait_turn_def Let_def simp del: drop_bit_Suc)
next
  case False
  show ?thesis
  proof (cases alarm)
    case None
    with inv turn False show ?thesis
      by (cases "notified b"; cases "waiter b") (auto simp: barrier_at_def Wait_turn_def split: if_splits)
  next
    case (Some who)
    with inv turn False show ?thesis
      by (cases who; cases "waiter b") (auto simp: barrier_at_def Wait_turn_def split: if_splits)
  qed
qed

lemma barrier_reachable_at: "barrier_reachable n b \<Longrightarrow> unat n < 2 ^ 31 \<Longrightarrow> \<exists>k alarm. barrier_at (unat n) k alarm b"
proof (induction rule: barrier_reachable.induct)
  case start
  then show ?case using make_barrier_at by blast
next
  case (step b c)
  then obtain k alarm where inv: "barrier_at (unat n) k alarm b" by blast
  from step.hyps(2) show ?case
  proof cases
    case (notify who who' c)
    with Notify_turn_ok [OF inv notify(2,3)] show ?thesis by auto
  next
    case wait
    with Wait_turn_ok [OF inv] show ?thesis by blast
  qed
next
  case (spurious b)
  then obtain k alarm where "barrier_at (unat n) k alarm b" by blast
  with spurious have "barrier_at (unat n) k alarm (b\<lparr>waiter := Woken\<rparr>)"
    by (cases alarm; cases "the alarm"; cases "notified b") (auto simp: barrier_at_def)
  then show ?case by blast
qed

section \<open>The barrier opens\<close>

text \<open>The steps that a barrier takes before it is at rest, wake-ups without a cause left aside.\<close>

primrec notifier_weight :: "notifier \<Rightarrow> nat" where
  "notifier_weight Working = 8"
| "notifier_weight At_lock = 7"
| "notifier_weight Locked = 6"
| "notifier_weight Told = 1"
| "notifier_weight Finished = 0"

primrec waiting_weight :: "waiting \<Rightarrow> nat" where
  "waiting_weight Coming = 3"
| "waiting_weight At_wait_lock = 2"
| "waiting_weight Testing = 1"
| "waiting_weight Sleeping = 0"
| "waiting_weight Woken = 2"
| "waiting_weight Returned = 0"

definition barrier_weight :: "barrier \<Rightarrow> nat" where
  "barrier_weight b = (\<Sum>who \<in># notifiers b. notifier_weight who) + waiting_weight (waiter b)"

lemma barrier_step_weight: "barrier_step b c \<Longrightarrow> barrier_weight c < barrier_weight b"
proof (induction rule: barrier_step.induct)
  case (notify who b who' c)
  then obtain rest where rest: "notifiers b = add_mset who rest" by (blast dest: multi_member_split)
  from notify(2) rest show ?case
    by (cases who) (auto simp: barrier_weight_def Let_def split: if_splits)
next
  case (wait b c)
  then show ?case
    by (cases "waiter b") (auto simp: barrier_weight_def Wait_turn_def Let_def split: if_splits)
qed

definition barrier_open :: "barrier \<Rightarrow> bool" where
  "barrier_open b \<longleftrightarrow> waiter b = Returned \<and> (\<forall>who \<in># notifiers b. who = Finished)"

lemma barrier_stuck:
  assumes inv: "barrier_at n k alarm b" and stuck: "\<nexists>c. barrier_step b c"
  shows "barrier_open b"
proof -
  have no_turn: "Notify_turn who b = None" if "who \<in># notifiers b" for who
  proof (cases "Notify_turn who b")
    case (Some r)
    with Notify_turn_ok [OF inv that] obtain who' c where "r = Inr (who', c)" by blast
    with Some that stuck show ?thesis by (auto dest: barrier_step.notify)
  qed simp
  have no_wait: "Wait_turn b = None" using stuck by (cases "Wait_turn b") (auto dest: barrier_step.wait)
  have "Notify_turn Working b \<noteq> None" by (simp add: Let_def)
  with no_turn [of Working] have "Working \<notin># notifiers b" by (rule contrapos_nn [rotated])
  then have k: "k = 0" using inv by (cases k) (auto simp: barrier_at_def)
  show ?thesis
  proof (cases alarm)
    case None
    with inv k no_wait show ?thesis
      by (cases "notified b"; cases "waiter b")
        (auto simp: barrier_at_def barrier_open_def Wait_turn_def Let_def split: if_splits)
  next
    case (Some who)
    then have "Notify_turn who b = None" using inv by (intro no_turn) (simp add: barrier_at_def)
    with inv k no_wait Some show ?thesis
      by (cases who; cases "waiter b")
        (auto simp: barrier_at_def Wait_turn_def split: if_splits)
  qed
qed

lemma returned_facts:
  assumes "barrier_at n k alarm b" "waiter b = Returned"
  shows "barrier_open b \<and> delete_barrier b = Inr () \<and> \<not> mutex_held b"
proof -
  have "k = 0 \<and> alarm = None \<and> \<not> mutex_held b"
    using assms by (cases alarm; cases "the alarm"; cases "notified b"; simp add: barrier_at_def)
  with assms bits_facts(4) [of "bits b" 0 1] show ?thesis
    by (auto simp: barrier_open_def delete_barrier_def barrier_at_def split: if_splits)
qed

end
