(* ===== verification/Concurrency_Properties.thy ===== *)
theory Concurrency_Properties
  imports Thread_Pool Parallel_For Barrier
begin

text \<open>
  The properties of the threads of \<open>src/base/thread\<close>: the pool, the barrier and the parallel
  loop on top of them. They hold for every interleaving of the steps of the threads.
\<close>

section \<open>The pool\<close>

text \<open>
  C9. Liveness of \<open>SimpleThreadPoolBase\<close>: from every state that is reached, with callers
  that schedule tasks and with the destructor, a pool of one thread or more comes to rest
  when it is left alone, whatever the scheduler does: its threads cannot go on for ever, and
  where none can go on, every task that was scheduled has been executed once, and every
  thread waits for a task or, if the destructor was called, has left its loop, so that the
  destructor joins it.
\<close>

theorem pool_drains:
  assumes "pool_reachable n p" "0 < n"
  shows "\<not> (\<exists>f. f 0 = p \<and> (\<forall>i. work_step (f i) (f (Suc i)))) \<and>
    (\<forall>q. work_run p q \<longrightarrow> (\<exists>r. work_step q r) \<or> at_rest q)"
proof (intro conjI allI impI)
  show "\<not> (\<exists>f. f 0 = p \<and> (\<forall>i. work_step (f i) (f (Suc i))))"
    using no_endless_work pool_reachable_inv [OF assms(1)] by blast
  show "(\<exists>r. work_step q r) \<or> at_rest q" if "work_run p q" for q
    using stuck_at_rest [OF pool_reachable_inv [OF work_run_reachable [OF that assms(1)]] assms(2)] by blast
qed

theorem pool_drains_witness:
  "pool_reachable 2 (late_pool ''task'') \<and>
    ((\<exists>r. work_step (late_pool ''task'') r) \<or> at_rest (late_pool ''task''))"
  using pool_drains [OF late_pool_reachable, of "''task''"] late_pool_reachable [of "''task''"]
    work_run.here [of "late_pool ''task''"] by simp

text \<open>
  C10. The invariant of the pool: no task is lost and none is executed twice. In every state
  that is reached, what was scheduled is what was executed, what is pending and what a thread
  holds; the next turn of a thread never runs into a fault, and neither does \<open>Schedule\<close>
  before the destructor has set \<open>exiting_\<close>.
\<close>

theorem no_task_lost:
  assumes "pool_reachable n p"
  shows "mset (scheduled p) = mset (executed p) + mset (pending p) + held (workers p) \<and>
    (\<forall>i < n. \<forall>e. worker_turn i p \<noteq> Some (Inl e)) \<and>
    (\<not> exiting p \<longrightarrow> (\<exists>q. Schedule task p = Inr q))"
proof (intro conjI allI impI)
  note inv = pool_reachable_inv [OF assms]
  show "mset (scheduled p) = mset (executed p) + mset (pending p) + held (workers p)"
    using inv by (simp add: pool_inv_def)
  show "worker_turn i p \<noteq> Some (Inl e)" if "i < n" for i e
    using worker_turn_inv [OF inv that] by fastforce
  show "\<exists>q. Schedule task p = Inr q" if "\<not> exiting p" using Schedule_inv [OF inv that] by blast
qed

theorem no_task_lost_witness:
  "pool_reachable 3 (make_pool 3) \<and> (\<exists>q. Schedule ''task'' (make_pool 3) = Inr q)"
  using no_task_lost [OF pool_reachable.start, of 3 "''task''"] pool_reachable.start [of 3]
  by (simp add: make_pool_def)

text \<open>
  C30. Errors: a task that schedules another while the pool is being deleted may find the
  waiter of a thread that has left: the destructor notifies the waiters and leaves them in
  \<open>waiters_\<close>, so \<open>Schedule\<close> writes through a pointer to a local variable that is gone.
\<close>

theorem late_schedule:
  "pool_reachable 2 (late_pool task) \<and> Schedule task' (late_pool task) = Inl Out_of_bounds"
  by (rule conjI [OF late_pool_reachable]) (simp add: late_pool_def Schedule_def)

section \<open>The barrier\<close>

text \<open>
  C11. Safety and liveness of \<open>Barrier\<close>, for up to \<open>2 ^ 31 - 1\<close> calls of \<open>Notify\<close> and one
  \<open>Wait\<close> in any order: no assertion fails. When \<open>Wait\<close> has returned, all calls of \<open>Notify\<close>
  have returned, the mutex is free and the check of the destructor holds, so the barrier can
  go. And \<open>Wait\<close> does return: each step brings the barrier nearer to its end, and it stops
  at the end only.
\<close>

theorem barrier_waits:
  assumes "barrier_reachable n b" "unat n < 2 ^ 31"
  shows "(\<forall>who \<in># notifiers b. \<forall>e. Notify_turn who b \<noteq> Some (Inl e)) \<and>
    (waiter b = Returned \<longrightarrow> barrier_open b \<and> delete_barrier b = Inr () \<and> \<not> mutex_held b) \<and>
    (\<forall>c. barrier_step b c \<longrightarrow> barrier_weight c < barrier_weight b) \<and>
    ((\<exists>c. barrier_step b c) \<or> barrier_open b)"
proof -
  from barrier_reachable_at [OF assms] obtain k alarm where inv: "barrier_at (unat n) k alarm b" by blast
  have "Notify_turn who b \<noteq> Some (Inl e)" if "who \<in># notifiers b" for who e
    using Notify_turn_ok [OF inv that] by fastforce
  then show ?thesis
    using returned_facts [OF inv] barrier_step_weight barrier_stuck [OF inv] by blast
qed

theorem barrier_waits_witness:
  "barrier_reachable 2 (make_barrier 2) \<and> (\<exists>c. barrier_step (make_barrier 2) c)"
proof -
  have "\<not> barrier_open (make_barrier 2)" by (simp add: barrier_open_def make_barrier_def)
  with barrier_waits [OF barrier_reachable.start, of 2] show ?thesis
    by (simp add: barrier_reachable.start)
qed

section \<open>The parallel loop\<close>

text \<open>
  C12. \<open>ParallelFor\<close> with an alignment that rounds up, for at most \<open>2 ^ 30 - 1\<close> indices and
  \<open>2 ^ 29\<close> threads: whatever the cost model answers, no assertion fails and no sum overflows
  in the choice of the blocks. The threads then finish the ranges in any order: the work ends
  (each step brings it nearer), and when it has ended, every index from 0 to \<open>n - 1\<close> was in
  exactly one of the ranges that \<open>f\<close> was called with, none of them is empty or larger than a
  block, and \<open>Notify\<close> was called as often as the barrier expects.
\<close>

theorem parallel_for_covers:
  assumes "sizes_ok n threads" "\<forall>x. x \<le> f x" "NumThreads_for cm n threads \<noteq> 1"
  shows "\<exists>b w. ParallelFor n threads cm (Some f) = Inr (In_blocks b w) \<and>
    (\<forall>u. range_run b w u \<longrightarrow>
      (\<forall>v. range_step b u v \<longrightarrow> work_left b v < work_left b u) \<and>
      ((\<exists>v. range_step b u v) \<or>
        todo u = {#} \<and> barrier_count u = 0 \<and> barrier_count w = int (size (calls u)) \<and>
        (\<forall>i. size {#r \<in># calls u. fst r \<le> i \<and> i < snd r#} = (if 0 \<le> i \<and> i < n then 1 else 0)) \<and>
        (\<forall>r \<in># calls u. fst r < snd r \<and> snd r - fst r \<le> b)))"
proof -
  have n: "1 < n" "n \<le> 2 ^ 30 - 1" "threads \<noteq> 1" using assms(1) by (auto simp: sizes_ok_def)
  from choose_blocks_ok [OF assms(1,2), of cm] obtain b c
    where bc: "choose_blocks n threads cm (Some f) = Inr (b, c)" "0 < b" "b \<le> n" "c = cdiv n b"
    by (auto simp: block_ok_def)
  define w where "w = \<lparr>todo = {#(0, n)#}, calls = {#}, barrier_count = c\<rparr>"
  have start: "work_ok n b w"
    using size_blocks_of [OF bc(2), of 0 n] n bc(4) by (simp add: work_ok_def w_def)
  have blocks: "barrier_count w = int (size (blocks_of b (0, n)))"
    using size_blocks_of [OF bc(2), of 0 n] n bc(4) by (simp add: w_def)
  have "ParallelFor n threads cm (Some f) = Inr (In_blocks b w)"
    using n assms(3) bc(1) by (simp add: ParallelFor_def w_def)
  moreover have "(\<forall>v. range_step b u v \<longrightarrow> work_left b v < work_left b u) \<and>
      ((\<exists>v. range_step b u v) \<or>
        todo u = {#} \<and> barrier_count u = 0 \<and> barrier_count w = int (size (calls u)) \<and>
        (\<forall>i. size {#r \<in># calls u. fst r \<le> i \<and> i < snd r#} = (if 0 \<le> i \<and> i < n then 1 else 0)) \<and>
        (\<forall>r \<in># calls u. fst r < snd r \<and> snd r - fst r \<le> b))" if "range_run b w u" for u
  proof (intro conjI allI impI)
    note ok = range_run_ok [OF that start bc(2,3) n(2)]
    show "work_left b v < work_left b u" if "range_step b u v" for v
      using range_step_ok [OF that ok bc(2,3) n(2)] by simp
    show "(\<exists>v. range_step b u v) \<or>
        todo u = {#} \<and> barrier_count u = 0 \<and> barrier_count w = int (size (calls u)) \<and>
        (\<forall>i. size {#r \<in># calls u. fst r \<le> i \<and> i < snd r#} = (if 0 \<le> i \<and> i < n then 1 else 0)) \<and>
        (\<forall>r \<in># calls u. fst r < snd r \<and> snd r - fst r \<le> b)"
    proof (cases "\<exists>v. range_step b u v")
      case False
      from range_stuck [OF ok bc(2,3) n(2) False] have
        u: "todo u = {#}" "barrier_count u = 0" "calls u = blocks_of b (0, n)" by simp_all
      moreover have "size {#r \<in># calls u. fst r \<le> i \<and> i < snd r#} = (if 0 \<le> i \<and> i < n then 1 else 0)" for i
        using blocks_of_cover [OF bc(2), of 0 n i] n(1) u(3) by simp
      moreover have "\<forall>r \<in># calls u. fst r < snd r \<and> snd r - fst r \<le> b"
        using blocks_of_small [OF bc(2), of 0 n] n(1) u(3) by simp
      ultimately show ?thesis using blocks by simp
    qed simp
  qed
  ultimately show ?thesis by blast
qed

text \<open>A cost model that wants blocks of about four indices, and an alignment to even sizes.\<close>

definition sample_costs :: "int cost_model" where
  "sample_costs =
     \<lparr>NumThreads_for = (\<lambda>n threads. threads), block_size_f = 3, block_size_f2 = 6,
      efficiency = (\<lambda>count slots. 100 * count div slots), nearly_as_good = (\<lambda>x y. y \<le> x + 1),
      less_good = (\<lambda>x y. x < y)\<rparr>"

theorem parallel_for_covers_witness:
  "\<exists>b w. ParallelFor 10 4 sample_costs (Some (\<lambda>x. x + x mod 2)) = Inr (In_blocks b w) \<and>
    ((\<exists>v. range_step b w v) \<or> barrier_count w = 0)"
proof -
  have "sizes_ok 10 4" "\<forall>x::int. x \<le> x + x mod 2" "NumThreads_for sample_costs 10 4 \<noteq> 1"
    by (simp_all add: sizes_ok_def sample_costs_def)
  from parallel_for_covers [OF this] show ?thesis by (blast intro: range_run.intros)
qed

text \<open>
  C29. Errors: without an alignment the parallel loop throws. \<open>ParallelFor\<close> tests whether the
  block size is not 0 where it means whether there is an alignment, and calls the empty
  function; \<open>ThreadPool::ParallelFor\<close> always passes none. Only a loop that runs as one range
  does not get there.
\<close>

theorem parallel_for_needs_alignment:
  "ThreadPool_ParallelFor n threads cm =
    (if n < 0 \<or> INT_MAX < n then Inl (C_fault Assertion_failed)
     else if n \<le> 1 \<or> threads = 1 \<or> NumThreads_for cm n threads = 1 then Inr Whole_range
     else Inl Empty_function)"
proof (cases "n \<le> 1")
  case False
  then have "min n (max 1 (block_size_f cm)) \<noteq> 0" by simp
  with False show ?thesis
    by (simp add: ThreadPool_ParallelFor_def ParallelFor_def choose_blocks_def first_block_size_def
        call_align_def Let_def)
qed (simp add: ThreadPool_ParallelFor_def ParallelFor_def)

end
