(* ===== verification/Bitmap.thy ===== *)
theory Bitmap
  imports Prelude
begin

text \<open>
  \<open>src/base/bitmap.h\<close> and \<open>src/base/bitmap.cc\<close>: a fixed number of bits in an array of
  32-bit words. \<open>size_t\<close> is 64 bits wide.
\<close>

section \<open>The state and the operations\<close>

record bitmap =
  nbits :: nat
  bitmap_words :: "32 word list"

definition kBits :: nat where
  "kBits = 32"

definition NumWords :: "nat \<Rightarrow> nat" where
  "NumWords n = ((n + kBits - 1) mod 2 ^ 64) div kBits"

text \<open>\<open>1ull << i\<close>, truncated to a \<open>Word\<close>.\<close>

definition Mask :: "nat \<Rightarrow> 32 word" where
  "Mask i = ucast (push_bit i 1 :: 64 word)"

definition empty_bitmap :: bitmap where
  "empty_bitmap = \<lparr>nbits = 0, bitmap_words = []\<rparr>"

text \<open>The words are kept or allocated; \<open>memset\<close> clears all of them in both cases.\<close>

definition Reset :: "nat \<Rightarrow> bitmap \<Rightarrow> bitmap" where
  "Reset n b = b\<lparr>bitmap_words := replicate (NumWords n) 0, nbits := n\<rparr>"

definition make_bitmap :: "nat \<Rightarrow> bitmap" where
  "make_bitmap n = Reset n empty_bitmap"

definition word_at :: "bitmap \<Rightarrow> nat \<Rightarrow> fault + 32 word" where
  "word_at b k = (if k < length (bitmap_words b) then Inr (bitmap_words b ! k) else Inl Out_of_bounds)"

text \<open>The word of the bit \<open>i\<close>, with the check that \<open>get\<close>, \<open>set\<close> and \<open>clear\<close> begin with.\<close>

definition word_of :: "bitmap \<Rightarrow> nat \<Rightarrow> fault + 32 word" where
  "word_of b i = (if i < nbits b then word_at b (i div kBits) else Inl Assertion_failed)"

definition get_bit :: "nat \<Rightarrow> bitmap \<Rightarrow> fault + bool" where
  "get_bit i b =
     (case word_of b i of Inl e \<Rightarrow> Inl e | Inr w \<Rightarrow> Inr (w AND Mask (i mod kBits) \<noteq> 0))"

definition set_bit_at :: "nat \<Rightarrow> bitmap \<Rightarrow> fault + bitmap" where
  "set_bit_at i b =
     (case word_of b i of
        Inl e \<Rightarrow> Inl e
      | Inr w \<Rightarrow> Inr (b\<lparr>bitmap_words := (bitmap_words b)[i div kBits := w OR Mask (i mod kBits)]\<rparr>))"

definition clear_bit :: "nat \<Rightarrow> bitmap \<Rightarrow> fault + bitmap" where
  "clear_bit i b =
     (case word_of b i of
        Inl e \<Rightarrow> Inl e
      | Inr w \<Rightarrow> Inr (b\<lparr>bitmap_words := (bitmap_words b)[i div kBits := w AND NOT (Mask (i mod kBits))]\<rparr>))"

definition kLowestBitSet :: "nat list" where
  "kLowestBitSet =
    [0, 1, 2, 1, 3, 1, 2, 1, 4, 1, 2, 1, 3, 1, 2, 1,
     5, 1, 2, 1, 3, 1, 2, 1, 4, 1, 2, 1, 3, 1, 2, 1,
     6, 1, 2, 1, 3, 1, 2, 1, 4, 1, 2, 1, 3, 1, 2, 1,
     5, 1, 2, 1, 3, 1, 2, 1, 4, 1, 2, 1, 3, 1, 2, 1,
     7, 1, 2, 1, 3, 1, 2, 1, 4, 1, 2, 1, 3, 1, 2, 1,
     5, 1, 2, 1, 3, 1, 2, 1, 4, 1, 2, 1, 3, 1, 2, 1,
     6, 1, 2, 1, 3, 1, 2, 1, 4, 1, 2, 1, 3, 1, 2, 1,
     5, 1, 2, 1, 3, 1, 2, 1, 4, 1, 2, 1, 3, 1, 2, 1,
     8, 1, 2, 1, 3, 1, 2, 1, 4, 1, 2, 1, 3, 1, 2, 1,
     5, 1, 2, 1, 3, 1, 2, 1, 4, 1, 2, 1, 3, 1, 2, 1,
     6, 1, 2, 1, 3, 1, 2, 1, 4, 1, 2, 1, 3, 1, 2, 1,
     5, 1, 2, 1, 3, 1, 2, 1, 4, 1, 2, 1, 3, 1, 2, 1,
     7, 1, 2, 1, 3, 1, 2, 1, 4, 1, 2, 1, 3, 1, 2, 1,
     5, 1, 2, 1, 3, 1, 2, 1, 4, 1, 2, 1, 3, 1, 2, 1,
     6, 1, 2, 1, 3, 1, 2, 1, 4, 1, 2, 1, 3, 1, 2, 1,
     5, 1, 2, 1, 3, 1, 2, 1, 4, 1, 2, 1, 3, 1, 2, 1]"

definition FindFirstSet :: "32 word \<Rightarrow> nat" where
  "FindFirstSet w =
     (if w AND 0xff \<noteq> 0 then kLowestBitSet ! unat (w AND 0xff)
      else if drop_bit 8 w AND 0xff \<noteq> 0 then kLowestBitSet ! unat (drop_bit 8 w AND 0xff) + 8
      else if drop_bit 16 w AND 0xff \<noteq> 0 then kLowestBitSet ! unat (drop_bit 16 w AND 0xff) + 16
      else if drop_bit 24 w AND 0xff \<noteq> 0 then kLowestBitSet ! unat (drop_bit 24 w AND 0xff) + 24
      else 0)"

function first_unset_loop :: "bitmap \<Rightarrow> nat \<Rightarrow> 64 word \<Rightarrow> fault + nat" where
  "first_unset_loop b i skip_bits =
     (if i < NumWords (nbits b) then
        (case word_at b i of
           Inl e \<Rightarrow> Inl e
         | Inr w \<Rightarrow>
             let word = ucast ((ucast w :: 64 word) OR skip_bits) :: 32 word; r = FindFirstSet (NOT word) in
             if r \<noteq> 0 then
               let result = i * kBits + (r - 1) in Inr (if nbits b < result then nbits b else result)
             else first_unset_loop b (i + 1) 0)
      else Inr (nbits b))"
  by pat_completeness auto

termination
  by (relation "measure (\<lambda>(b, i, _). NumWords (nbits b) - i)") auto

declare first_unset_loop.simps [simp del]

definition FirstUnset :: "nat \<Rightarrow> bitmap \<Rightarrow> fault + nat" where
  "FirstUnset start b =
     (if nbits b \<le> start then Inr (nbits b)
      else first_unset_loop b (start div kBits) (push_bit (start mod kBits) 1 - 1))"

primrec bits_to_string :: "bitmap \<Rightarrow> nat list \<Rightarrow> fault + string" where
  "bits_to_string b [] = Inr []"
| "bits_to_string b (i # is) =
     (case get_bit i b of
        Inl e \<Rightarrow> Inl e
      | Inr v \<Rightarrow>
          (case bits_to_string b is of
             Inl e \<Rightarrow> Inl e
           | Inr s \<Rightarrow> Inr ((if v then CHR ''1'' else CHR ''0'') # s)))"

definition ToString :: "bitmap \<Rightarrow> fault + string" where
  "ToString b = bits_to_string b [0..<nbits b]"

section \<open>The abstract bit vector\<close>

definition bitmap_ok :: "bitmap \<Rightarrow> bool" where
  "bitmap_ok b \<longleftrightarrow> nbits b \<le> 2 ^ 64 - 32 \<and> length (bitmap_words b) = (nbits b + 31) div 32"

definition bit_list :: "bitmap \<Rightarrow> bool list" where
  "bit_list b = map (\<lambda>i. bit (bitmap_words b ! (i div 32)) (i mod 32)) [0..<nbits b]"

lemma length_bit_list [simp]: "length (bit_list b) = nbits b"
  by (simp add: bit_list_def)

lemma nth_bit_list [simp]: "i < nbits b \<Longrightarrow> bit_list b ! i = bit (bitmap_words b ! (i div 32)) (i mod 32)"
  by (simp add: bit_list_def)

lemma NumWords_small: "n \<le> 2 ^ 64 - 32 \<Longrightarrow> NumWords n = (n + 31) div 32"
  by (simp add: NumWords_def kBits_def)

lemma Reset_ok: "n \<le> 2 ^ 64 - 32 \<Longrightarrow> bitmap_ok (Reset n b) \<and> bit_list (Reset n b) = replicate n False"
  by (auto simp: bitmap_ok_def Reset_def NumWords_small bit_list_def map_replicate_const intro!: nth_equalityI)

lemma bit_Mask: "i < 32 \<Longrightarrow> bit (Mask i) j \<longleftrightarrow> j = i"
  by (auto simp: Mask_def bit_simps)

lemma word_of_ok:
  assumes "bitmap_ok b" "i < nbits b"
  shows "word_of b i = Inr (bitmap_words b ! (i div 32))" "i div 32 < length (bitmap_words b)"
proof -
  show "i div 32 < length (bitmap_words b)" using assms by (simp add: bitmap_ok_def)
  then show "word_of b i = Inr (bitmap_words b ! (i div 32))"
    using assms by (simp add: word_of_def word_at_def kBits_def)
qed

lemma and_Mask: "i < 32 \<Longrightarrow> w AND Mask i \<noteq> 0 \<longleftrightarrow> bit w i"
proof (cases "bit w i")
  case True
  assume "i < 32"
  with True have "bit (w AND Mask i) i" by (simp add: bit_simps bit_Mask)
  with True show ?thesis by auto
next
  case False
  assume "i < 32"
  with False have "w AND Mask i = 0" by (intro bit_word_eqI) (auto simp: bit_simps bit_Mask)
  with False show ?thesis by simp
qed

lemma get_bit_ok: "bitmap_ok b \<Longrightarrow> i < nbits b \<Longrightarrow> get_bit i b = Inr (bit_list b ! i)"
  by (simp add: get_bit_def word_of_ok kBits_def and_Mask)

lemma update_word_ok:
  assumes ok: "bitmap_ok b" and i: "i < nbits b"
    and w: "\<And>j. j < 32 \<Longrightarrow> bit w j = (if j = i mod 32 then v else bit (bitmap_words b ! (i div 32)) j)"
  shows "bitmap_ok (b\<lparr>bitmap_words := (bitmap_words b)[i div 32 := w]\<rparr>) \<and>
    bit_list (b\<lparr>bitmap_words := (bitmap_words b)[i div 32 := w]\<rparr>) = (bit_list b)[i := v]"
proof (intro conjI nth_equalityI)
  fix j assume "j < length (bit_list (b\<lparr>bitmap_words := (bitmap_words b)[i div 32 := w]\<rparr>))"
  then have j: "j < nbits b" by simp
  have "i = j" if "i div 32 = j div 32" "i mod 32 = j mod 32"
    using that by (metis div_mult_mod_eq)
  then show "bit_list (b\<lparr>bitmap_words := (bitmap_words b)[i div 32 := w]\<rparr>) ! j = (bit_list b)[i := v] ! j"
    using j i word_of_ok(2) [OF ok i] w [of "j mod 32"] by (auto simp: nth_list_update)
qed (use ok in \<open>simp_all add: bitmap_ok_def\<close>)

lemma set_bit_ok:
  assumes "bitmap_ok b" "i < nbits b"
  shows "\<exists>c. set_bit_at i b = Inr c \<and> bitmap_ok c \<and> bit_list c = (bit_list b)[i := True]"
  using update_word_ok [OF assms, of "bitmap_words b ! (i div 32) OR Mask (i mod 32)" True] word_of_ok [OF assms]
  by (auto simp: set_bit_at_def kBits_def bit_simps bit_Mask)

lemma clear_bit_ok:
  assumes "bitmap_ok b" "i < nbits b"
  shows "\<exists>c. clear_bit i b = Inr c \<and> bitmap_ok c \<and> bit_list c = (bit_list b)[i := False]"
  using update_word_ok [OF assms, of "bitmap_words b ! (i div 32) AND NOT (Mask (i mod 32))" False] word_of_ok [OF assms]
  by (auto simp: clear_bit_def kBits_def bit_simps bit_Mask)

lemma ToString_ok: "bitmap_ok b \<Longrightarrow> ToString b = Inr (map (\<lambda>v. if v then CHR ''1'' else CHR ''0'') (bit_list b))"
proof -
  assume ok: "bitmap_ok b"
  have "\<forall>i \<in> set is. i < nbits b \<Longrightarrow>
      bits_to_string b is = Inr (map (\<lambda>i. if bit_list b ! i then CHR ''1'' else CHR ''0'') is)" for "is"
    by (induction "is") (simp_all add: get_bit_ok [OF ok])
  then show ?thesis by (simp add: ToString_def bit_list_def)
qed

section \<open>The first set bit\<close>

definition lowest_entry :: "nat \<Rightarrow> nat \<Rightarrow> bool" where
  "lowest_entry i x = (if i = 0 then x = 0 else 1 \<le> x \<and> x \<le> 8 \<and> bit i (x - 1) \<and> take_bit (x - 1) i = 0)"

lemma lowest_table: "table_ok lowest_entry 0 kLowestBitSet"
  by (simp add: kLowestBitSet_def lowest_entry_def bit_iff_odd take_bit_eq_mod)

lemma kLowestBitSet_nth:
  assumes "k < 256" "k \<noteq> 0"
  shows "1 \<le> kLowestBitSet ! k \<and> kLowestBitSet ! k \<le> 8 \<and> bit k (kLowestBitSet ! k - 1) \<and>
    (\<forall>j < kLowestBitSet ! k - 1. \<not> bit k j)"
proof -
  have "length kLowestBitSet = 256" by (simp add: kLowestBitSet_def)
  with table_ok_nth [OF lowest_table, of k] assms have entry: "lowest_entry k (kLowestBitSet ! k)" by simp
  then have "take_bit (kLowestBitSet ! k - 1) k = 0" using assms(2) by (simp add: lowest_entry_def)
  then have "\<not> bit (take_bit (kLowestBitSet ! k - 1) k) j" for j by simp
  then show ?thesis using entry assms(2) by (simp add: lowest_entry_def bit_take_bit_iff)
qed

text \<open>One of the four bytes of a word.\<close>

lemma word_byte:
  fixes w :: "32 word"
  assumes "s + 8 \<le> 32"
  defines "v \<equiv> drop_bit s w AND 0xff"
  shows "v = 0 \<Longrightarrow> \<forall>j. s \<le> j \<and> j < s + 8 \<longrightarrow> \<not> bit w j"
    "v \<noteq> 0 \<Longrightarrow> 1 \<le> kLowestBitSet ! unat v \<and> kLowestBitSet ! unat v \<le> 8 \<and>
      bit w (s + (kLowestBitSet ! unat v - 1)) \<and> (\<forall>j. s \<le> j \<and> j < s + (kLowestBitSet ! unat v - 1) \<longrightarrow> \<not> bit w j)"
proof -
  have ff: "(0xff :: 32 word) = mask 8" by (simp add: mask_eq_exp_minus_1)
  have bits: "bit v j \<longleftrightarrow> j < 8 \<and> bit w (s + j)" for j
    using assms(1) by (auto simp: v_def ff bit_simps)
  show "\<forall>j. s \<le> j \<and> j < s + 8 \<longrightarrow> \<not> bit w j" if "v = 0"
  proof (intro allI impI)
    fix j assume j: "s \<le> j \<and> j < s + 8"
    have "\<not> bit v (j - s)" using that by simp
    with bits [of "j - s"] j show "\<not> bit w j" by auto
  qed
  assume v: "v \<noteq> 0"
  have "unat v < 256"
  proof -
    have "take_bit 8 v = v" by (rule bit_word_eqI) (auto simp: bit_simps bits)
    then have "unat v = take_bit 8 (unat v)" by (metis unsigned_take_bit_eq)
    with take_bit_nat_less_exp [of 8 "unat v"] show ?thesis by simp
  qed
  moreover have "unat v \<noteq> 0" using v by (simp add: unsigned_eq_0_iff)
  moreover have uv: "bit (unat v) j \<longleftrightarrow> bit v j" for j by (auto simp: bit_unsigned_iff dest: bit_imp_le_length)
  ultimately have low: "1 \<le> kLowestBitSet ! unat v" "kLowestBitSet ! unat v \<le> 8"
    "bit v (kLowestBitSet ! unat v - 1)" "\<forall>j < kLowestBitSet ! unat v - 1. \<not> bit v j"
    using kLowestBitSet_nth [of "unat v"] unfolding uv by blast+
  have "\<not> bit w j" if "s \<le> j" "j < s + (kLowestBitSet ! unat v - 1)" for j
  proof -
    have "\<not> bit v (j - s)" "j - s < 8" "s + (j - s) = j" using low(2,4) that by auto
    then show ?thesis using bits [of "j - s"] by simp
  qed
  then show "1 \<le> kLowestBitSet ! unat v \<and> kLowestBitSet ! unat v \<le> 8 \<and>
      bit w (s + (kLowestBitSet ! unat v - 1)) \<and> (\<forall>j. s \<le> j \<and> j < s + (kLowestBitSet ! unat v - 1) \<longrightarrow> \<not> bit w j)"
    using low(1,2,3) bits by blast
qed

lemma FindFirstSet_spec:
  "(FindFirstSet w = 0 \<longleftrightarrow> w = 0) \<and>
   (FindFirstSet w \<noteq> 0 \<longrightarrow> FindFirstSet w \<le> 32 \<and> bit w (FindFirstSet w - 1) \<and> (\<forall>j < FindFirstSet w - 1. \<not> bit w j))"
proof -
  define part where "part s = drop_bit s w AND 0xff" for s
  define low where "low s = kLowestBitSet ! unat (part s)" for s
  have zero: "part s = 0 \<Longrightarrow> s + 8 \<le> 32 \<Longrightarrow> s \<le> j \<Longrightarrow> j < s + 8 \<Longrightarrow> \<not> bit w j" for s j
    using word_byte(1) [of s w] by (auto simp: part_def)
  have found: "1 \<le> low s \<and> low s \<le> 8 \<and> bit w (s + (low s - 1)) \<and> (\<forall>j. s \<le> j \<and> j < s + (low s - 1) \<longrightarrow> \<not> bit w j)"
    if "part s \<noteq> 0" "s + 8 \<le> 32" for s
    using word_byte(2) [of s w] that unfolding part_def low_def by blast
  have result: ?thesis
    if "FindFirstSet w = s + low s" "part s \<noteq> 0" "s + 8 \<le> 32" "\<forall>j < s. \<not> bit w j" for s
  proof -
    have r: "FindFirstSet w - 1 = s + (low s - 1)" "0 < FindFirstSet w" "FindFirstSet w \<le> 32"
      using found [OF that(2,3)] that(1,3) by auto
    moreover have "\<not> bit w j" if "j < s + (low s - 1)" for j
      using found [OF \<open>part s \<noteq> 0\<close> \<open>s + 8 \<le> 32\<close>] \<open>\<forall>j < s. \<not> bit w j\<close> that by (cases "j < s") auto
    moreover have "bit w (s + (low s - 1))" using found [OF that(2,3)] by blast
    moreover from this have "w \<noteq> 0" by auto
    ultimately show ?thesis unfolding r(1) by auto
  qed
  have def: "FindFirstSet w =
     (if part 0 \<noteq> 0 then 0 + low 0 else if part 8 \<noteq> 0 then 8 + low 8 else if part 16 \<noteq> 0 then 16 + low 16
      else if part 24 \<noteq> 0 then 24 + low 24 else 0)"
    by (simp add: FindFirstSet_def part_def low_def)
  consider "part 0 \<noteq> 0" | "part 0 = 0" "part 8 \<noteq> 0" | "part 0 = 0" "part 8 = 0" "part 16 \<noteq> 0"
    | "part 0 = 0" "part 8 = 0" "part 16 = 0" "part 24 \<noteq> 0" | "part 0 = 0" "part 8 = 0" "part 16 = 0" "part 24 = 0"
    by blast
  then show ?thesis
  proof cases
    case 1
    then show ?thesis by (intro result [of 0]) (simp_all add: def)
  next
    case 2
    then show ?thesis by (intro result [of 8]) (use zero [of 0] in \<open>simp_all add: def\<close>)
  next
    case 3
    have "\<not> bit w j" if "j < 16" for j using zero [of 0 j] zero [of 8 j] 3 that by linarith
    with 3 show ?thesis by (intro result [of 16]) (simp_all add: def)
  next
    case 4
    have "\<not> bit w j" if "j < 24" for j using zero [of 0 j] zero [of 8 j] zero [of 16 j] 4 that by linarith
    with 4 show ?thesis by (intro result [of 24]) (simp_all add: def)
  next
    case 5
    have "\<not> bit w j" if "j < 32" for j
      using zero [of 0 j] zero [of 8 j] zero [of 16 j] zero [of 24 j] 5 that by linarith
    then have "w = 0" by (intro bit_word_eqI) simp
    moreover have "FindFirstSet w = 0" using 5 by (simp add: def)
    ultimately show ?thesis by simp
  qed
qed

section \<open>The first unset bit\<close>

text \<open>What \<open>FirstUnset\<close> is about: the length of the run of set bits from \<open>start\<close> on.\<close>

definition run_end :: "nat \<Rightarrow> bool list \<Rightarrow> nat" where
  "run_end start bs = (if length bs \<le> start then length bs else start + length (takeWhile (\<lambda>v. v) (drop start bs)))"

lemma run_end_eq:
  assumes "r \<le> length bs" "\<And>j. start \<le> j \<Longrightarrow> j < r \<Longrightarrow> bs ! j" "r < length bs \<Longrightarrow> start \<le> r \<and> \<not> bs ! r"
    "length bs \<le> start \<Longrightarrow> r = length bs"
  shows "run_end start bs = r"
proof (cases "length bs \<le> start")
  case False
  have le: "start \<le> r" using assms(3) [THEN conjunct1] False assms(1) by linarith
  have "takeWhile (\<lambda>v. v) (drop start bs) = take (r - start) (drop start bs)"
  proof (rule takeWhile_eq_take_P_nth)
    show "drop start bs ! i" if "i < r - start" "i < length (drop start bs)" for i
      using assms(2) [of "start + i"] that by simp
    show "\<not> drop start bs ! (r - start)" if "r - start < length (drop start bs)"
      using assms(3) that le by auto
  qed
  with False le assms(1) show ?thesis by (simp add: run_end_def)
qed (use assms(4) in \<open>simp add: run_end_def\<close>)

lemma first_unset_loop_ok:
  assumes ok: "bitmap_ok b"
  shows "k < 32 \<Longrightarrow> \<exists>r. first_unset_loop b i (push_bit k 1 - 1) = Inr r \<and> r \<le> nbits b \<and>
    (\<forall>j. i * 32 + k \<le> j \<and> j < r \<longrightarrow> bit_list b ! j) \<and> (r < nbits b \<longrightarrow> i * 32 + k \<le> r \<and> \<not> bit_list b ! r)"
proof (induction "NumWords (nbits b) - i" arbitrary: i k rule: less_induct)
  case less
  have n: "NumWords (nbits b) = (nbits b + 31) div 32" "length (bitmap_words b) = (nbits b + 31) div 32"
    using ok by (simp_all add: bitmap_ok_def NumWords_small)
  show ?case
  proof (cases "i < NumWords (nbits b)")
    case False
    then have "nbits b \<le> i * 32" using n by linarith
    with False show ?thesis by (subst first_unset_loop.simps) auto
  next
    case True
    define w where "w = bitmap_words b ! i"
    define u where "u = NOT (ucast ((ucast w :: 64 word) OR (push_bit k 1 - 1)) :: 32 word)"
    have at: "word_at b i = Inr w" using True n by (simp add: word_at_def w_def)
    have mask: "(push_bit k 1 - 1 :: 64 word) = mask k" by (simp add: mask_eq_exp_minus_1 push_bit_eq_mult)
    have u: "bit u j \<longleftrightarrow> \<not> bit w j \<and> k \<le> j" if "j < 32" for j
      using that less.prems unfolding u_def mask by (auto simp: bit_simps)
    have listed: "bit_list b ! j = bit w (j - i * 32)" if "i * 32 \<le> j" "j < i * 32 + 32" "j < nbits b" for j
    proof -
      have "j div 32 = i" using that by (simp add: div_nat_eqI)
      moreover from this have "j mod 32 = j - i * 32" by (simp add: modulo_nat_def)
      ultimately show ?thesis using that by (simp add: w_def)
    qed
    show ?thesis
    proof (cases "FindFirstSet u = 0")
      case True
      then have "u = 0" using FindFirstSet_spec [of u] by simp
      then have set: "bit w j" if "k \<le> j" "j < 32" for j using u [of j] that by simp
      have "NumWords (nbits b) - (i + 1) < NumWords (nbits b) - i" using \<open>i < NumWords (nbits b)\<close> by simp
      from less.hyps [OF this, of 0] obtain r where r: "first_unset_loop b (i + 1) 0 = Inr r" "r \<le> nbits b"
        "\<forall>j. i * 32 + 32 \<le> j \<and> j < r \<longrightarrow> bit_list b ! j" "r < nbits b \<longrightarrow> i * 32 + 32 \<le> r \<and> \<not> bit_list b ! r"
        by (auto simp: algebra_simps)
      have "bit_list b ! j" if "i * 32 + k \<le> j" "j < r" for j
        using listed [of j] set [of "j - i * 32"] r(2,3) that by (cases "j < i * 32 + 32") auto
      moreover have "first_unset_loop b i (push_bit k 1 - 1) = Inr r"
        using at \<open>i < NumWords (nbits b)\<close> True r(1)
        by (subst first_unset_loop.simps) (simp add: u_def Let_def del: push_bit_of_1)
      ultimately show ?thesis using r less.prems by auto
    next
      case False
      define q where "q = FindFirstSet u - 1"
      have q: "q < 32" "bit u q" "\<forall>j < q. \<not> bit u j"
        using FindFirstSet_spec [of u] False by (auto simp: q_def)
      define r where "r = min (nbits b) (i * 32 + q)"
      have "first_unset_loop b i (push_bit k 1 - 1) = Inr r"
        using at \<open>i < NumWords (nbits b)\<close> False
        by (subst first_unset_loop.simps) (simp add: u_def [symmetric] r_def q_def Let_def kBits_def min_def del: push_bit_of_1)
      moreover have "bit_list b ! j" if "i * 32 + k \<le> j" "j < r" for j
      proof -
        have "j - i * 32 < q" "j - i * 32 < 32" "k \<le> j - i * 32" "j < i * 32 + 32" "i * 32 \<le> j" "j < nbits b"
          using that q(1) by (auto simp: r_def)
        then show ?thesis using listed [of j] u [of "j - i * 32"] q(3) by blast
      qed
      moreover have "i * 32 + k \<le> r \<and> \<not> bit_list b ! r" if "r < nbits b"
        using listed [of r] u [OF q(1)] q(1,2) that by (auto simp: r_def)
      ultimately show ?thesis by (auto simp: r_def)
    qed
  qed
qed

lemma FirstUnset_ok:
  assumes "bitmap_ok b"
  shows "FirstUnset start b = Inr (run_end start (bit_list b))"
proof (cases "nbits b \<le> start")
  case False
  have "start mod 32 < 32" by simp
  from first_unset_loop_ok [OF assms this, of "start div 32"] False show ?thesis
    by (auto simp: FirstUnset_def kBits_def simp del: push_bit_of_1 intro!: run_end_eq [symmetric])
qed (simp add: FirstUnset_def run_end_def)

end
