(* ===== verification/Edit_Distance.thy ===== *)
theory Edit_Distance
  imports Prelude
begin

text \<open>
  \<open>src/base/gtl/edit_distance.h\<close>: the Levenshtein distance with two rows of the table. The
  lengths and the distances are \<open>int64\<close>; no distance is above the sum of the lengths.
\<close>

section \<open>The code\<close>

text \<open>The distances from the prefixes: \<open>current[j + 1]\<close> from \<open>current[j]\<close> and the previous row.\<close>

definition fill_cell :: "('a \<Rightarrow> 'a \<Rightarrow> bool) \<Rightarrow> 'a \<Rightarrow> 'a list \<Rightarrow> int list \<Rightarrow> nat \<Rightarrow> int list \<Rightarrow> int list" where
  "fill_cell cmp x t previous j current =
     (let cost = (if cmp x (t ! j) then 0 else 1) in
      current[j + 1 := min (current ! j + 1) (min (previous ! (j + 1) + 1) (previous ! j + cost))])"

definition fill_row :: "('a \<Rightarrow> 'a \<Rightarrow> bool) \<Rightarrow> 'a \<Rightarrow> 'a list \<Rightarrow> int list \<Rightarrow> int list \<Rightarrow> int list" where
  "fill_row cmp x t previous current = fold (fill_cell cmp x t previous) [0..<length t] current"

text \<open>The loop over \<open>s\<close>, with the swap of the rows; the state is the rows \<open>(previous, current)\<close>.\<close>

definition next_row ::
    "('a \<Rightarrow> 'a \<Rightarrow> bool) \<Rightarrow> 'a list \<Rightarrow> 'a list \<Rightarrow> nat \<Rightarrow> int list \<times> int list \<Rightarrow> int list \<times> int list" where
  "next_row cmp s t i rows =
     (let (current, previous) = rows; current = current[0 := int i + 1] in
      (previous, fill_row cmp (s ! i) t previous current))"

text \<open>\<open>eq\<close> is the operator \<open>==\<close> of the elements, which compares the slices.\<close>

function LevenshteinDistance ::
    "('a \<Rightarrow> 'a \<Rightarrow> bool) \<Rightarrow> ('a \<Rightarrow> 'a \<Rightarrow> bool) \<Rightarrow> 'a list \<Rightarrow> 'a list \<Rightarrow> int" where
  "LevenshteinDistance eq cmp s t =
     (if length s = 0 then int (length t)
      else if length t = 0 then int (length s)
      else if list_all2 eq s t then 0
      else if length s < length t then LevenshteinDistance eq cmp t s
      else
        let scratch0 = map int [0..<length t + 1]; scratch1 = replicate (length t + 1) 0;
            (previous, current) = fold (next_row cmp s t) [0..<length s] (scratch0, scratch1) in
        current ! length t)"
  by pat_completeness auto

termination
  by (relation "measure (\<lambda>(eq, cmp, s, t). length t - length s)") auto

declare LevenshteinDistance.simps [simp del]

section \<open>The specification\<close>

text \<open>
  An alignment of two sequences keeps elements that match, replaces, deletes and inserts; its
  cost is the number of the last three.
\<close>

inductive alignment :: "('a \<Rightarrow> 'a \<Rightarrow> bool) \<Rightarrow> nat \<Rightarrow> 'a list \<Rightarrow> 'a list \<Rightarrow> bool" for cmp where
  empty: "alignment cmp 0 [] []"
| keep: "cmp x y \<Longrightarrow> alignment cmp n xs ys \<Longrightarrow> alignment cmp n (x # xs) (y # ys)"
| replace: "alignment cmp n xs ys \<Longrightarrow> alignment cmp (Suc n) (x # xs) (y # ys)"
| delete: "alignment cmp n xs ys \<Longrightarrow> alignment cmp (Suc n) (x # xs) ys"
| insert: "alignment cmp n xs ys \<Longrightarrow> alignment cmp (Suc n) xs (y # ys)"

text \<open>One edit of a sequence, anywhere in it.\<close>

inductive edit :: "'a list \<Rightarrow> 'a list \<Rightarrow> bool" where
  replace: "edit (us @ x # vs) (us @ y # vs)"
| delete: "edit (us @ x # vs) (us @ vs)"
| insert: "edit (us @ vs) (us @ y # vs)"

fun lev :: "('a \<Rightarrow> 'a \<Rightarrow> bool) \<Rightarrow> 'a list \<Rightarrow> 'a list \<Rightarrow> nat" where
  "lev cmp [] ys = length ys"
| "lev cmp xs [] = length xs"
| "lev cmp (x # xs) (y # ys) =
     min (Suc (lev cmp (x # xs) ys))
       (min (Suc (lev cmp xs (y # ys))) (lev cmp xs ys + (if cmp x y then 0 else 1)))"

lemma lev_Nil [simp]: "lev cmp xs [] = length xs"
  by (cases xs) simp_all

section \<open>Alignments\<close>

lemma align_length: "alignment cmp (length ys) [] ys" "alignment cmp (length xs) xs []"
proof -
  show "alignment cmp (length ys) [] ys" by (induction ys) (auto intro: alignment.intros)
  show "alignment cmp (length xs) xs []" by (induction xs) (auto intro: alignment.intros)
qed

lemma lev_aligns: "alignment cmp (lev cmp xs ys) xs ys"
proof (induction cmp xs ys rule: lev.induct)
  case (3 cmp x xs y ys)
  then have "alignment cmp (Suc (lev cmp (x # xs) ys)) (x # xs) (y # ys)"
    "alignment cmp (Suc (lev cmp xs (y # ys))) (x # xs) (y # ys)"
    "alignment cmp (lev cmp xs ys + (if cmp x y then 0 else 1)) (x # xs) (y # ys)"
    by (auto intro: alignment.intros)
  then show ?case by (simp add: min_def)
next
  case (2 cmp x xs)
  then show ?case using align_length(2) [of cmp "x # xs"] by simp
qed (simp add: align_length)

lemma lev_bounds:
  "lev cmp (x # xs) ys \<le> Suc (lev cmp xs ys)" "lev cmp xs (y # ys) \<le> Suc (lev cmp xs ys)"
  "lev cmp (x # xs) (y # ys) \<le> Suc (lev cmp xs ys)" "cmp x y \<Longrightarrow> lev cmp (x # xs) (y # ys) \<le> lev cmp xs ys"
proof -
  show del: "lev cmp (x # xs) ys \<le> Suc (lev cmp xs ys)" for ys by (cases ys) auto
  show "lev cmp xs (y # ys) \<le> Suc (lev cmp xs ys)" by (cases xs) auto
qed auto

lemma lev_least: "alignment cmp n xs ys \<Longrightarrow> lev cmp xs ys \<le> n"
proof (induction rule: alignment.induct)
  case (keep x y n xs ys)
  then show ?case using lev_bounds(4) [of cmp x y xs ys] by simp
next
  case (replace n xs ys x y)
  then show ?case using lev_bounds(3) [of cmp x xs y ys] by simp
next
  case (delete n xs ys x)
  then show ?case using lev_bounds(1) [of cmp x xs ys] by simp
next
  case (insert n xs ys y)
  then show ?case using lev_bounds(2) [of cmp xs y ys] by simp
qed simp

lemma lev_unique: "(\<And>n. alignment cmp n xs ys \<longleftrightarrow> alignment cmp' n xs' ys') \<Longrightarrow> lev cmp xs ys = lev cmp' xs' ys'"
  by (meson antisym lev_aligns lev_least)

lemma alignment_append: "alignment cmp n xs ys \<Longrightarrow> alignment cmp m us vs \<Longrightarrow> alignment cmp (n + m) (xs @ us) (ys @ vs)"
  by (induction rule: alignment.induct) (auto intro: alignment.intros)

lemma alignment_rev: "alignment cmp n xs ys \<Longrightarrow> alignment cmp n (rev xs) (rev ys)"
proof (induction rule: alignment.induct)
  case (keep x y n xs ys)
  then show ?case using alignment_append [OF keep.IH, of 0 "[x]" "[y]"] by (auto intro: alignment.intros)
next
  case (replace n xs ys x y)
  then show ?case using alignment_append [OF replace.IH, of 1 "[x]" "[y]"] by (auto intro: alignment.intros)
next
  case (delete n xs ys x)
  then show ?case using alignment_append [OF delete.IH, of 1 "[x]" "[]"] by (auto intro: alignment.intros)
next
  case (insert n xs ys y)
  then show ?case using alignment_append [OF insert.IH, of 1 "[]" "[y]"] by (auto intro: alignment.intros)
qed (auto intro: alignment.intros)

lemma lev_rev: "lev cmp (rev xs) (rev ys) = lev cmp xs ys"
  by (rule lev_unique) (metis alignment_rev rev_rev_ident)

lemma alignment_sym: "alignment cmp n xs ys \<Longrightarrow> \<forall>x y. cmp x y \<longrightarrow> cmp y x \<Longrightarrow> alignment cmp n ys xs"
  by (induction rule: alignment.induct) (auto intro: alignment.intros)

lemma lev_sym: "\<forall>x y. cmp x y \<longrightarrow> cmp y x \<Longrightarrow> lev cmp xs ys = lev cmp ys xs"
  by (rule lev_unique) (blast intro: alignment_sym)

lemma lev_same: "list_all2 cmp xs ys \<Longrightarrow> lev cmp xs ys = 0"
  by (induction rule: list_all2_induct) simp_all

section \<open>Edits\<close>

text \<open>The distance is the least number of edits that turn one sequence into the other.\<close>

lemma edit_Cons: "edit xs ys \<Longrightarrow> edit (x # xs) (x # ys)"
proof (induction rule: edit.induct)
  case (replace us x vs y)
  then show ?case using edit.replace [of "_ # us"] by simp
next
  case (delete us x vs)
  then show ?case using edit.delete [of "_ # us"] by simp
next
  case (insert us vs y)
  then show ?case using edit.insert [of "_ # us"] by simp
qed

lemma edits_Cons: "(edit ^^ n) xs ys \<Longrightarrow> (edit ^^ n) (x # xs) (x # ys)"
proof (induction n arbitrary: ys)
  case (Suc n)
  then show ?case by (auto intro: edit_Cons)
qed simp

lemma alignment_edits: "alignment (=) n xs ys \<Longrightarrow> (edit ^^ n) xs ys"
proof (induction rule: alignment.induct)
  case (replace n xs ys x y)
  from edits_Cons [OF replace.IH, of x] edit.replace [of "[]" x ys y] show ?case by auto
next
  case (delete n xs ys x)
  from edits_Cons [OF delete.IH, of x] edit.delete [of "[]" x ys] show ?case by auto
next
  case (insert n xs ys y)
  from insert.IH edit.insert [of "[]" ys y] show ?case by auto
qed (auto intro: edits_Cons)

lemma alignment_split:
  "alignment cmp n (us @ vs) zs \<Longrightarrow>
    \<exists>a b xs ys. zs = xs @ ys \<and> n = a + b \<and> alignment cmp a us xs \<and> alignment cmp b vs ys"
proof (induction n "us @ vs" zs arbitrary: us rule: alignment.induct)
  case empty
  then show ?case by (auto intro: alignment.empty)
next
  case (keep x y n ws zs)
  show ?case
  proof (cases us)
    case Nil
    with keep.hyps have "alignment cmp n (x # ws) (y # zs)" by (blast intro: alignment.keep)
    with Nil keep.hyps(4) alignment.empty show ?thesis by (metis append_Nil add_0)
  next
    case (Cons u us')
    with keep.hyps(4) have "ws = us' @ vs" by simp
    from keep.hyps(3) [OF this] obtain a b xs ys where "zs = xs @ ys" "n = a + b"
      "alignment cmp a us' xs" "alignment cmp b vs ys"
      by blast
    moreover from this have "y # zs = (y # xs) @ ys" "alignment cmp a us (y # xs)"
      using Cons keep.hyps by (auto intro: alignment.keep)
    ultimately show ?thesis by blast
  qed
next
  case (replace n ws zs x y)
  show ?case
  proof (cases us)
    case Nil
    with replace.hyps have "alignment cmp (Suc n) (x # ws) (y # zs)" by (blast intro: alignment.replace)
    with Nil replace.hyps(3) alignment.empty show ?thesis by (metis append_Nil add_0)
  next
    case (Cons u us')
    with replace.hyps(3) have "ws = us' @ vs" by simp
    from replace.hyps(2) [OF this] obtain a b xs ys where "zs = xs @ ys" "n = a + b"
      "alignment cmp a us' xs" "alignment cmp b vs ys"
      by blast
    moreover from this have "y # zs = (y # xs) @ ys" "Suc n = Suc a + b" "alignment cmp (Suc a) us (y # xs)"
      using Cons by (auto intro: alignment.replace)
    ultimately show ?thesis by blast
  qed
next
  case (delete n ws zs x)
  show ?case
  proof (cases us)
    case Nil
    with delete.hyps have "alignment cmp (Suc n) (x # ws) zs" by (blast intro: alignment.delete)
    with Nil delete.hyps(3) alignment.empty show ?thesis by (metis append_Nil add_0)
  next
    case (Cons u us')
    with delete.hyps(3) have "ws = us' @ vs" by simp
    from delete.hyps(2) [OF this] obtain a b xs ys where "zs = xs @ ys" "n = a + b"
      "alignment cmp a us' xs" "alignment cmp b vs ys"
      by blast
    moreover from this have "Suc n = Suc a + b" "alignment cmp (Suc a) us xs"
      using Cons by (auto intro: alignment.delete)
    ultimately show ?thesis by blast
  qed
next
  case (insert n zs y)
  then obtain a b xs ys where "zs = xs @ ys" "n = a + b" "alignment cmp a us xs" "alignment cmp b vs ys" by blast
  moreover from this have "y # zs = (y # xs) @ ys" "Suc n = Suc a + b" "alignment cmp (Suc a) us (y # xs)"
    by (auto intro: alignment.insert)
  ultimately show ?case by blast
qed

text \<open>A part in the middle can be aligned anew.\<close>

lemma lev_middle:
  "\<exists>xs. \<forall>k ms'. lev cmp ms' xs \<le> lev cmp ms xs + k \<longrightarrow> lev cmp (us @ ms' @ vs) zs \<le> lev cmp (us @ ms @ vs) zs + k"
proof -
  from alignment_split [OF lev_aligns [of cmp "us @ ms @ vs" zs]] obtain a b xs ys
    where 1: "zs = xs @ ys" "lev cmp (us @ ms @ vs) zs = a + b" "alignment cmp a us xs" "alignment cmp b (ms @ vs) ys"
    by blast
  from alignment_split [OF 1(4)] obtain c d xs' ys'
    where 2: "ys = xs' @ ys'" "b = c + d" "alignment cmp c ms xs'" "alignment cmp d vs ys'"
    by blast
  have "lev cmp (us @ ms' @ vs) zs \<le> lev cmp (us @ ms @ vs) zs + k" if "lev cmp ms' xs' \<le> lev cmp ms xs' + k" for k ms'
  proof -
    have "alignment cmp (a + (lev cmp ms' xs' + d)) (us @ ms' @ vs) (xs @ xs' @ ys')"
      using 1(3) 2(4) lev_aligns by (intro alignment_append)
    then have "lev cmp (us @ ms' @ vs) zs \<le> a + (lev cmp ms' xs' + d)" unfolding 1(1) 2(1) by (rule lev_least)
    moreover have "lev cmp ms xs' \<le> c" using 2(3) by (rule lev_least)
    ultimately show ?thesis using that 1(2) 2(2) by simp
  qed
  then show ?thesis by blast
qed

lemma lev_one: "lev cmp [x] zs \<le> max 1 (length zs)" "length zs \<le> Suc (lev cmp [x] zs)"
proof -
  show "lev cmp [x] zs \<le> max 1 (length zs)" using lev_bounds(3) [of cmp x "[]"] by (cases zs) auto
  have "length ys \<le> length xs + n" if "alignment cmp n xs ys" for n xs ys
    using that by (induction rule: alignment.induct) simp_all
  from this [OF lev_aligns, of zs "[x]"] show "length zs \<le> Suc (lev cmp [x] zs)" by simp
qed

lemma lev_edit: "edit xs ys \<Longrightarrow> lev cmp xs zs \<le> Suc (lev cmp ys zs)"
proof (induction rule: edit.induct)
  case (replace us x vs y)
  have "lev cmp [x] zs' \<le> lev cmp [y] zs' + 1" for zs'
    using lev_one(1) [of cmp x zs'] lev_one(2) [of zs' cmp y] by auto
  with lev_middle [where us = us and vs = vs and ms = "[y]" and zs = zs] show ?case by fastforce
next
  case (delete us x vs)
  have "lev cmp [x] zs' \<le> lev cmp [] zs' + 1" for zs' using lev_one(1) [of cmp x zs'] by auto
  with lev_middle [where us = us and vs = vs and ms = "[]" and zs = zs] show ?case by fastforce
next
  case (insert us vs y)
  have "lev cmp [] zs' \<le> lev cmp [y] zs' + 1" for zs' using lev_one(2) [of zs' cmp y] by auto
  with lev_middle [where us = us and vs = vs and ms = "[y]" and zs = zs] show ?case by fastforce
qed

lemma edits_least: "(edit ^^ n) xs ys \<Longrightarrow> lev (=) xs ys \<le> n"
proof (induction n arbitrary: xs)
  case (Suc n)
  from Suc.prems obtain us where us: "edit xs us" "(edit ^^ n) us ys" by (meson relpowp_Suc_D2)
  with Suc.IH have "lev (=) us ys \<le> n" by blast
  with lev_edit [OF us(1), of "(=)" ys] show ?case by simp
qed (simp add: lev_same list.rel_eq)

section \<open>What the two rows compute\<close>

text \<open>
  The first row is the vector that has not been filled, all zeros, since the rows are swapped
  before it is read: an alignment may skip what comes first in \<open>t\<close> at no cost.
\<close>

fun lev_free :: "('a \<Rightarrow> 'a \<Rightarrow> bool) \<Rightarrow> 'a list \<Rightarrow> 'a list \<Rightarrow> nat" where
  "lev_free cmp [] ys = 0"
| "lev_free cmp xs [] = length xs"
| "lev_free cmp (x # xs) (y # ys) =
     min (Suc (lev_free cmp (x # xs) ys))
       (min (Suc (lev_free cmp xs (y # ys))) (lev_free cmp xs ys + (if cmp x y then 0 else 1)))"

lemma lev_free_Nil [simp]: "lev_free cmp xs [] = length xs"
  by (cases xs) simp_all

lemma lev_free_attained: "\<exists>k. k \<le> length ys \<and> alignment cmp (lev_free cmp xs ys) xs (take k ys)"
proof (induction cmp xs ys rule: lev_free.induct)
  case (1 cmp ys)
  then show ?case by (auto intro!: exI [of _ 0] alignment.empty)
next
  case (2 cmp x xs)
  then show ?case using align_length(2) [of cmp "x # xs"] by simp
next
  case (3 cmp x xs y ys)
  obtain k1 where 1: "k1 \<le> length ys" "alignment cmp (lev_free cmp (x # xs) ys) (x # xs) (take k1 ys)"
    using "3.IH"(1) by blast
  obtain k2 where 2: "k2 \<le> length (y # ys)" "alignment cmp (lev_free cmp xs (y # ys)) xs (take k2 (y # ys))"
    using "3.IH"(2) by blast
  obtain k3 where 3: "k3 \<le> length ys" "alignment cmp (lev_free cmp xs ys) xs (take k3 ys)"
    using "3.IH"(3) by blast
  have "alignment cmp (Suc (lev_free cmp (x # xs) ys)) (x # xs) (take (Suc k1) (y # ys))"
    "alignment cmp (Suc (lev_free cmp xs (y # ys))) (x # xs) (take k2 (y # ys))"
    "alignment cmp (lev_free cmp xs ys + (if cmp x y then 0 else 1)) (x # xs) (take (Suc k3) (y # ys))"
    using 1 2 3 by (auto intro: alignment.intros)
  moreover have "Suc k1 \<le> length (y # ys)" "Suc k3 \<le> length (y # ys)" using 1 3 by simp_all
  ultimately have "\<exists>k \<le> length (y # ys). alignment cmp n (x # xs) (take k (y # ys))"
    if "n \<in> {Suc (lev_free cmp (x # xs) ys), Suc (lev_free cmp xs (y # ys)),
      lev_free cmp xs ys + (if cmp x y then 0 else 1)}" for n
    using 2(1) that by blast
  moreover have "lev_free cmp (x # xs) (y # ys) \<in> {Suc (lev_free cmp (x # xs) ys), Suc (lev_free cmp xs (y # ys)),
      lev_free cmp xs ys + (if cmp x y then 0 else 1)}"
    by (simp add: min_def)
  ultimately show ?case by blast
qed

lemma lev_free_least: "alignment cmp n xs us \<Longrightarrow> lev_free cmp xs (us @ vs) \<le> n"
proof (induction rule: alignment.induct)
  case (delete n xs ys x)
  then show ?case by (cases "ys @ vs") auto
next
  case (insert n xs ys y)
  then show ?case by (cases xs) auto
qed auto

lemma lev_free_eq: "int (lev_free cmp xs ys) = Min ((\<lambda>k. int (lev cmp xs (take k ys))) ` {..length ys})"
proof (rule sym, rule Min_eqI)
  fix d assume "d \<in> (\<lambda>k. int (lev cmp xs (take k ys))) ` {..length ys}"
  then obtain k where "d = int (lev cmp xs (take k ys))" by blast
  with lev_free_least [OF lev_aligns, of cmp xs "take k ys" "drop k ys"] show "int (lev_free cmp xs ys) \<le> d" by simp
next
  obtain k where k: "k \<le> length ys" "alignment cmp (lev_free cmp xs ys) xs (take k ys)"
    using lev_free_attained by blast
  then have "lev cmp xs (take k ys) \<le> lev_free cmp xs ys" by (simp add: lev_least)
  moreover have "lev_free cmp xs ys \<le> lev cmp xs (take k ys)"
    using lev_free_least [OF lev_aligns, of cmp xs "take k ys" "drop k ys"] by simp
  ultimately show "int (lev_free cmp xs ys) \<in> (\<lambda>k. int (lev cmp xs (take k ys))) ` {..length ys}"
    using k(1) by force
qed simp

text \<open>The table of the distances of the prefixes, up to what may be skipped.\<close>

definition prefix_distance :: "('a \<Rightarrow> 'a \<Rightarrow> bool) \<Rightarrow> 'a list \<Rightarrow> 'a list \<Rightarrow> nat \<Rightarrow> nat \<Rightarrow> int" where
  "prefix_distance cmp s t i j = int (lev_free cmp (rev (take i s)) (rev (take j t)))"

lemma prefix_distance_0 [simp]:
  "prefix_distance cmp s t 0 j = 0" "i \<le> length s \<Longrightarrow> prefix_distance cmp s t i 0 = int i"
  by (simp_all add: prefix_distance_def)

lemma prefix_distance_Suc:
  "i < length s \<Longrightarrow> j < length t \<Longrightarrow>
    prefix_distance cmp s t (i + 1) (j + 1) =
      min (prefix_distance cmp s t (i + 1) j + 1)
        (min (prefix_distance cmp s t i (j + 1) + 1)
          (prefix_distance cmp s t i j + (if cmp (s ! i) (t ! j) then 0 else 1)))"
  by (simp add: prefix_distance_def take_Suc_conv_app_nth min_def)

definition table_row :: "('a \<Rightarrow> 'a \<Rightarrow> bool) \<Rightarrow> 'a list \<Rightarrow> 'a list \<Rightarrow> nat \<Rightarrow> int list" where
  "table_row cmp s t i = map (prefix_distance cmp s t i) [0..<length t + 1]"

lemma length_table_row [simp]: "length (table_row cmp s t i) = length t + 1"
  by (simp add: table_row_def)

lemma nth_table_row [simp]: "j \<le> length t \<Longrightarrow> table_row cmp s t i ! j = prefix_distance cmp s t i j"
  unfolding table_row_def by (simp add: nth_map_upt [where m = 0, simplified] del: upt_Suc)

lemma fold_upt_Suc: "fold f [0..<Suc k] x = f k (fold f [0..<k] x)"
  by simp

lemma fill_row_ok:
  assumes i: "i < length s" and len: "length current = length t + 1" and first: "current ! 0 = int i + 1"
  shows "fill_row cmp (s ! i) t (table_row cmp s t i) current = table_row cmp s t (i + 1)"
proof -
  define row where "row k = fold (fill_cell cmp (s ! i) t (table_row cmp s t i)) [0..<k] current" for k
  have row: "length (row k) = length t + 1 \<and> (\<forall>j \<le> k. row k ! j = prefix_distance cmp s t (i + 1) j)"
    if "k \<le> length t" for k
    using that
  proof (induction k)
    case 0
    then show ?case using len first i by (simp add: row_def)
  next
    case (Suc k)
    then have IH: "length (row k) = length t + 1" "\<And>j. j \<le> k \<Longrightarrow> row k ! j = prefix_distance cmp s t (i + 1) j"
      by simp_all
    have "row (Suc k) = (row k)[k + 1 := prefix_distance cmp s t (i + 1) (k + 1)]"
      unfolding row_def [of "Suc k"] fold_upt_Suc row_def [of k, symmetric]
      using Suc.prems i IH(2) [of k] by (simp add: fill_cell_def prefix_distance_Suc [simplified])
    with IH Suc.prems show ?case by (auto simp: nth_list_update le_Suc_eq)
  qed
  have "row (length t) = table_row cmp s t (i + 1)"
    using row [of "length t"] by (intro nth_equalityI) simp_all
  then show ?thesis by (simp add: fill_row_def row_def)
qed

lemma rows_ok:
  assumes "length scratch0 = length t + 1"
  shows "k \<le> length s \<Longrightarrow>
    \<exists>previous. fold (next_row cmp s t) [0..<k] (scratch0, replicate (length t + 1) 0) = (previous, table_row cmp s t k) \<and>
      length previous = length t + 1"
proof (induction k)
  case 0
  have "replicate (length t + 1) (0 :: int) = table_row cmp s t 0"
    by (intro nth_equalityI) (simp_all del: replicate_Suc)
  with assms show ?case by simp
next
  case (Suc k)
  then obtain previous where "fold (next_row cmp s t) [0..<k] (scratch0, replicate (length t + 1) 0) =
      (previous, table_row cmp s t k)" "length previous = length t + 1" by auto
  moreover from this Suc.prems have
    "fill_row cmp (s ! k) t (table_row cmp s t k) (previous[0 := int k + 1]) = table_row cmp s t (k + 1)"
    by (intro fill_row_ok) simp_all
  ultimately show ?case unfolding fold_upt_Suc by (simp add: next_row_def)
qed

lemma rev_suffix: "(\<lambda>k. int (lev cmp (rev s) (take k (rev t)))) ` {..length t} = (\<lambda>k. int (lev cmp s (drop k t))) ` {..length t}"
proof -
  have "lev cmp (rev s) (take k (rev t)) = lev cmp s (drop (length t - k) t)" if "k \<le> length t" for k
    using that lev_rev [of cmp s "drop (length t - k) t"] by (simp add: take_rev)
  then have "(\<lambda>k. int (lev cmp (rev s) (take k (rev t)))) ` {..length t} =
      (\<lambda>k. int (lev cmp s (drop k t))) ` (\<lambda>k. length t - k) ` {..length t}"
    by (auto simp: image_image intro!: image_cong)
  also have "(\<lambda>k. length t - k) ` {..length t} = {..length t}"
  proof (intro equalityI subsetI)
    fix x assume "x \<in> {..length t}"
    then have "x = length t - (length t - x)" "length t - x \<in> {..length t}" by simp_all
    then show "x \<in> (\<lambda>k. length t - k) ` {..length t}" by (rule image_eqI)
  qed auto
  finally show ?thesis .
qed

lemma rows_result:
  "current ! length t = Min ((\<lambda>k. int (lev cmp s (drop k t))) ` {..length t})"
  if "fold (next_row cmp s t) [0..<length s] (map int [0..<length t + 1], replicate (length t + 1) 0) = (previous, current)"
proof -
  have "current = table_row cmp s t (length s)"
    using rows_ok [of "map int [0..<length t + 1]" t "length s" s cmp] that by auto
  then have "current ! length t = int (lev_free cmp (rev s) (rev t))"
    by (simp add: prefix_distance_def)
  then show ?thesis using lev_free_eq [of cmp "rev s" "rev t"] by (simp add: rev_suffix)
qed

end
