(* ===== verification/Faults.thy ===== *)
theory Faults
  imports Prelude
begin

text \<open>
  Sequences of operations that may fault, for the components whose code reads and writes
  arrays in loops: the next operation runs if the one before did not fault.
\<close>

definition and_then :: "fault + 'a \<Rightarrow> ('a \<Rightarrow> fault + 'b) \<Rightarrow> fault + 'b" where
  "and_then r f = (case r of Inl e \<Rightarrow> Inl e | Inr x \<Rightarrow> f x)"

lemma and_then_simps [simp]: "and_then (Inl e) f = Inl e" "and_then (Inr x) f = f x"
  by (simp_all add: and_then_def)

lemma and_then_eq_Inr: "and_then r f = Inr y \<longleftrightarrow> (\<exists>x. r = Inr x \<and> f x = Inr y)"
  by (cases r) simp_all

text \<open>A loop over a list of indices.\<close>

primrec for_each :: "'i list \<Rightarrow> ('i \<Rightarrow> 's \<Rightarrow> fault + 's) \<Rightarrow> 's \<Rightarrow> fault + 's" where
  "for_each [] f s = Inr s"
| "for_each (i # is) f s = and_then (f i s) (for_each is f)"

lemma for_each_append: "for_each (xs @ ys) f s = and_then (for_each xs f s) (for_each ys f)"
  by (induction xs arbitrary: s) (simp_all add: and_then_def split: sum.split)

lemma for_each_upt:
  assumes "s 0 = s0" "\<And>i. i < n \<Longrightarrow> f i (s i) = Inr (s (Suc i))"
  shows "for_each [0..<n] f s0 = Inr (s n)"
  using assms
proof (induction n)
  case (Suc n)
  then show ?case by (simp add: for_each_append)
qed simp

lemma for_each_from:
  assumes "m \<le> n" "\<And>i. m \<le> i \<Longrightarrow> i < n \<Longrightarrow> f i (s i) = Inr (s (Suc i))"
  shows "for_each [m..<n] f (s m) = Inr (s n)"
  using assms
proof (induction n rule: dec_induct)
  case (step n)
  then show ?case by (simp add: for_each_append)
qed simp

text \<open>The sum of two \<open>int32\<close>.\<close>

definition add32 :: "int \<Rightarrow> int \<Rightarrow> fault + int" where
  "add32 x y = (if - (2 ^ 31) \<le> x + y \<and> x + y < 2 ^ 31 then Inr (x + y) else Inl Signed_overflow)"

lemma add32_ok: "- (2 ^ 31) \<le> x + y \<Longrightarrow> x + y < 2 ^ 31 \<Longrightarrow> add32 x y = Inr (x + y)"
  by (simp add: add32_def)

end
