(* ===== verification/Weighted_Picker.thy ===== *)
theory Weighted_Picker
  imports Faults
begin

text \<open>
  \<open>src/base/random/weighted_picker.h\<close> and \<open>weighted_picker.cc\<close>: elements with weights, in a
  binary tree whose inner nodes hold the sums of their children.
\<close>

section \<open>The tree\<close>

record picker =
  N_elements :: nat
  num_levels :: nat
  levels :: "int list list"

abbreviation LevelSize :: "nat \<Rightarrow> nat" where
  "LevelSize level \<equiv> 2 ^ level"

text \<open>A node, read and written in its array.\<close>

definition node :: "picker \<Rightarrow> nat \<Rightarrow> nat \<Rightarrow> fault + int" where
  "node p l i =
     (if l < length (levels p) \<and> i < length (levels p ! l) then Inr (levels p ! l ! i) else Inl Out_of_bounds)"

definition set_node :: "nat \<Rightarrow> nat \<Rightarrow> int \<Rightarrow> picker \<Rightarrow> fault + picker" where
  "set_node l i v p =
     (if l < length (levels p) \<and> i < length (levels p ! l) then
        Inr (p\<lparr>levels := (levels p)[l := (levels p ! l)[i := v]]\<rparr>)
      else Inl Out_of_bounds)"

definition total_weight :: "picker \<Rightarrow> fault + int" where
  "total_weight p = node p 0 0"

definition get_weight :: "int \<Rightarrow> picker \<Rightarrow> fault + int" where
  "get_weight index p =
     (if 0 \<le> index \<and> index < int (N_elements p) then node p (num_levels p - 1) (nat index)
      else Inl Assertion_failed)"

section \<open>The weights\<close>

definition rebuild_node :: "nat \<Rightarrow> nat \<Rightarrow> picker \<Rightarrow> fault + picker" where
  "rebuild_node l i p =
     and_then (node p (l + 1) (2 * i)) (\<lambda>x. and_then (node p (l + 1) (2 * i + 1)) (\<lambda>y.
       and_then (add32 x y) (\<lambda>v. set_node l i v p)))"

definition rebuild_level :: "nat \<Rightarrow> picker \<Rightarrow> fault + picker" where
  "rebuild_level l = for_each [0..<LevelSize l] (rebuild_node l)"

text \<open>From the level above the leaves to the root.\<close>

definition RebuildTreeWeights :: "picker \<Rightarrow> fault + picker" where
  "RebuildTreeWeights p = for_each (rev [0..<num_levels p - 1]) rebuild_level p"

text \<open>The leaves are set in two loops, one over the elements and one over the rest.\<close>

definition set_leaves :: "(nat \<Rightarrow> int) \<Rightarrow> picker \<Rightarrow> fault + picker" where
  "set_leaves w p =
     and_then (for_each [0..<N_elements p] (\<lambda>i. set_node (num_levels p - 1) i (w i)) p)
       (for_each [N_elements p..<LevelSize (num_levels p - 1)] (\<lambda>i. set_node (num_levels p - 1) i 0))"

definition SetAllWeights :: "int \<Rightarrow> picker \<Rightarrow> fault + picker" where
  "SetAllWeights weight p = and_then (set_leaves (\<lambda>_. weight) p) RebuildTreeWeights"

text \<open>The number of levels; a level of \<open>1 << 31\<close> nodes does not exist.\<close>

function find_levels :: "int \<Rightarrow> nat \<Rightarrow> fault + nat" where
  "find_levels n num =
     (if 31 < num then Inl Signed_overflow
      else if int (LevelSize (num - 1)) < n then find_levels n (num + 1) else Inr num)"
  by pat_completeness auto

termination
  by (relation "measure (\<lambda>(n, num). 32 - num)") auto

declare find_levels.simps [simp del]

definition make_picker :: "int \<Rightarrow> fault + picker" where
  "make_picker n =
     (if n < 0 then Inl Assertion_failed
      else
        and_then (find_levels n 1) (\<lambda>num.
          SetAllWeights 1
            \<lparr>N_elements = nat n, num_levels = num, levels = map (\<lambda>l. replicate (LevelSize l) 0) [0..<num]\<rparr>))"

primrec add_to_path :: "nat \<Rightarrow> nat \<Rightarrow> int \<Rightarrow> picker \<Rightarrow> fault + picker" where
  "add_to_path 0 index delta p = Inr p"
| "add_to_path (Suc l) index delta p =
     and_then (node p l index) (\<lambda>v. and_then (add32 v delta) (\<lambda>v'.
       and_then (set_node l index v' p) (add_to_path l (index div 2) delta)))"

definition set_weight :: "int \<Rightarrow> int \<Rightarrow> picker \<Rightarrow> fault + picker" where
  "set_weight index weight p =
     (if index < 0 \<or> int (N_elements p) \<le> index then Inl Assertion_failed
      else
        and_then (get_weight index p) (\<lambda>old. and_then (add32 weight (- old)) (\<lambda>delta.
          add_to_path (num_levels p) (nat index) delta p)))"

definition copy_leaf :: "picker \<Rightarrow> nat \<Rightarrow> picker \<Rightarrow> fault + picker" where
  "copy_leaf src i dst =
     and_then (node src (num_levels src - 1) i) (\<lambda>v. set_node (num_levels dst - 1) i v dst)"

definition Resize :: "int \<Rightarrow> picker \<Rightarrow> fault + picker" where
  "Resize new_size p =
     (if new_size < 0 then Inl Assertion_failed
      else if new_size \<le> int (LevelSize (num_levels p - 1)) then
        and_then (for_each [nat new_size..<N_elements p] (\<lambda>i. set_weight (int i) 0) p) (\<lambda>p.
          Inr (p\<lparr>N_elements := nat new_size\<rparr>))
      else if new_size \<le> int (N_elements p) then Inl Assertion_failed
      else
        and_then (make_picker new_size) (\<lambda>new_picker.
          and_then (for_each [0..<N_elements p] (copy_leaf p) new_picker) (\<lambda>new_picker.
            and_then (for_each [N_elements p..<nat new_size] (\<lambda>i. set_node (num_levels new_picker - 1) i 0) new_picker)
              RebuildTreeWeights)))"

definition SetWeightsFromArray :: "int \<Rightarrow> int list \<Rightarrow> picker \<Rightarrow> fault + picker" where
  "SetWeightsFromArray n weights p =
     and_then (Resize n p) (\<lambda>p.
       if length weights < N_elements p then Inl Out_of_bounds
       else and_then (set_leaves (\<lambda>i. weights ! i) p) RebuildTreeWeights)"

definition Append :: "int \<Rightarrow> picker \<Rightarrow> fault + picker" where
  "Append weight p =
     and_then (Resize (int (N_elements p) + 1) p) (\<lambda>p. set_weight (int (N_elements p) - 1) weight p)"

section \<open>Picking\<close>

text \<open>\<open>descend l n index position\<close>: the \<open>n\<close> levels from \<open>l\<close> on.\<close>

primrec descend :: "picker \<Rightarrow> nat \<Rightarrow> nat \<Rightarrow> nat \<Rightarrow> int \<Rightarrow> fault + nat \<times> int" where
  "descend p l 0 index position = Inr (index, position)"
| "descend p l (Suc n) index position =
     and_then (node p l (2 * index)) (\<lambda>left_weight.
       if position < left_weight then descend p (l + 1) n (2 * index) position
       else descend p (l + 1) n (2 * index + 1) (position - left_weight))"

definition PickAt :: "int \<Rightarrow> picker \<Rightarrow> fault + int" where
  "PickAt weight_index p =
     and_then (total_weight p) (\<lambda>w.
       if weight_index < 0 \<or> w \<le> weight_index then Inr (- 1)
       else
         and_then (descend p 1 (num_levels p - 1) 0 weight_index) (\<lambda>(index, position).
           if \<not> index < N_elements p then Inl Assertion_failed
           else
             and_then (node p (num_levels p - 1) index) (\<lambda>leaf.
               if leaf < position then Inl Assertion_failed else Inr (int index))))"

text \<open>
  \<open>UnbiasedUniform\<close> on the next outputs of \<open>Rand32\<close>, with what is left of them; \<open>None\<close> when
  they do not reach. The numbers are \<open>uint32\<close>.
\<close>

primrec reject_below :: "nat \<Rightarrow> 32 word list \<Rightarrow> (32 word \<times> 32 word list) option" where
  "reject_below rem [] = None"
| "reject_below rem (r # rs) = (if unat r < rem then reject_below rem rs else Some (r, rs))"

definition rejected :: "nat \<Rightarrow> nat" where
  "rejected n = (2 ^ 32 - 1) mod n + 1"

definition UnbiasedUniform :: "nat \<Rightarrow> 32 word list \<Rightarrow> (nat \<times> 32 word list) option" where
  "UnbiasedUniform n rs =
     (if n = 0 then (case rs of [] \<Rightarrow> None | r # rs \<Rightarrow> Some (0, rs))
      else if n AND (n - 1) = 0 then (case rs of [] \<Rightarrow> None | r # rs \<Rightarrow> Some (unat r AND (n - 1), rs))
      else map_option (\<lambda>(r, rs). (unat r mod n, rs)) (reject_below (rejected n) rs))"

definition Pick :: "32 word list \<Rightarrow> picker \<Rightarrow> (fault + int) option" where
  "Pick rs p =
     (case total_weight p of
        Inl e \<Rightarrow> Some (Inl e)
      | Inr w \<Rightarrow>
          if w = 0 then Some (Inr (- 1))
          else if w < 0 then Some (Inl Assertion_failed)
          else map_option (\<lambda>(x, rs). PickAt (int x) p) (UnbiasedUniform (nat w) rs))"

end
