(* ===== verification/Weighted_Picker_Laws.thy ===== *)
theory Weighted_Picker_Laws
  imports Weighted_Picker
begin

text \<open>
  The weights determine the tree: every node is the sum of the weights below it. Each
  operation takes the tree of one list of weights to the tree of another.
\<close>

section \<open>Sums of aligned ranges\<close>

definition range_sum :: "int list \<Rightarrow> nat \<Rightarrow> nat \<Rightarrow> int" where
  "range_sum ws b i = sum_list (take b (drop (i * b) ws))"

lemma range_sum_halves: "range_sum ws b (2 * i) + range_sum ws b (2 * i + 1) = range_sum ws (2 * b) i"
proof -
  have "take (b + b) (drop (2 * i * b) ws) = take b (drop (2 * i * b) ws) @ take b (drop (2 * i * b + b) ws)"
    by (simp add: take_add add.commute)
  then show ?thesis by (simp add: range_sum_def algebra_simps mult_2 mult_2_right flip: sum_list_append)
qed

lemma range_sum_one: "range_sum ws 1 i = (if i < length ws then ws ! i else 0)"
  by (auto simp: range_sum_def take_Suc hd_drop_conv_nth)

lemma range_sum_pad [simp]: "range_sum (ws @ replicate k 0) b i = range_sum ws b i"
  by (simp add: range_sum_def sum_list_replicate)

lemma sum_list_bounds:
  fixes ws :: "int list"
  assumes "\<forall>w \<in> set ws. 0 \<le> w"
  shows "0 \<le> sum_list (take b (drop a ws))" "sum_list (take b (drop a ws)) \<le> sum_list ws"
proof -
  have nonneg: "0 \<le> sum_list xs" if "set xs \<subseteq> set ws" for xs
    using that assms by (induction xs) auto
  then show "0 \<le> sum_list (take b (drop a ws))" by (meson order_trans set_drop_subset set_take_subset)
  have "sum_list ws = sum_list (take a ws) + (sum_list (take b (drop a ws)) + sum_list (drop b (drop a ws)))"
    by (metis append_take_drop_id sum_list_append)
  then show "sum_list (take b (drop a ws)) \<le> sum_list ws"
    using nonneg [of "take a ws"] nonneg [of "drop b (drop a ws)"]
    by (simp add: set_take_subset set_drop_subset)
qed

lemma sum_list_update_int: "k < length xs \<Longrightarrow> sum_list (xs[k := x]) = sum_list xs + (x - (xs ! k :: int))"
proof (induction xs arbitrary: k)
  case (Cons y xs)
  then show ?case by (cases k) simp_all
qed simp

lemma range_sum_update:
  assumes i: "i < length ws" and b: "0 < b"
  shows "range_sum (ws[i := w]) b j = range_sum ws b j + (if i div b = j then w - ws ! i else 0)"
proof (cases "i div b = j")
  case True
  have le: "j * b \<le> i" "i - j * b < b"
  proof -
    show "j * b \<le> i" using True by (auto simp: mult.commute)
    have "i < (j + 1) * b" using True b dividend_less_div_times [of b i] by (simp add: algebra_simps)
    then show "i - j * b < b" using b by (simp add: algebra_simps)
  qed
  have "take b (drop (j * b) (ws[i := w])) = (take b (drop (j * b) ws))[i - j * b := w]"
    using le by (simp add: drop_update_swap take_update_swap)
  moreover have "take b (drop (j * b) ws) ! (i - j * b) = ws ! i" "i - j * b < length (take b (drop (j * b) ws))"
    using le i by auto
  ultimately show ?thesis using True by (simp only: range_sum_def sum_list_update_int refl if_True)
next
  case False
  have "i < j * b \<or> j * b + b \<le> i"
  proof (rule ccontr)
    assume "\<not> (i < j * b \<or> j * b + b \<le> i)"
    then have "i div b = j" using b by (intro div_nat_eqI) (auto simp: algebra_simps)
    with False show False by simp
  qed
  then have "take b (drop (j * b) (ws[i := w])) = take b (drop (j * b) ws)"
  proof
    assume "j * b + b \<le> i"
    then show ?thesis by (simp add: drop_update_swap take_update_cancel)
  qed (simp add: drop_update_cancel)
  with False show ?thesis by (simp add: range_sum_def)
qed

section \<open>The tree of a list of weights\<close>

definition tree_row :: "nat \<Rightarrow> int list \<Rightarrow> nat \<Rightarrow> int list" where
  "tree_row L ws l = map (range_sum ws (2 ^ (L - l))) [0..<2 ^ l]"

definition tree_of :: "nat \<Rightarrow> int list \<Rightarrow> picker" where
  "tree_of L ws =
     \<lparr>N_elements = length ws, num_levels = Suc L, levels = map (tree_row L ws) [0..<Suc L]\<rparr>"

definition weights_ok :: "nat \<Rightarrow> int list \<Rightarrow> bool" where
  "weights_ok L ws \<longleftrightarrow> length ws \<le> 2 ^ L \<and> L \<le> 30 \<and> (\<forall>w \<in> set ws. 0 \<le> w) \<and> sum_list ws < 2 ^ 31"

lemma length_tree_row [simp]: "length (tree_row L ws l) = 2 ^ l"
  by (simp add: tree_row_def)

lemma nth_tree_row [simp]: "i < 2 ^ l \<Longrightarrow> tree_row L ws l ! i = range_sum ws (2 ^ (L - l)) i"
  by (simp add: tree_row_def)

lemma tree_row_pad [simp]: "tree_row L (ws @ replicate k 0) l = tree_row L ws l"
  by (simp add: tree_row_def)

lemma range_sum_bounds: "weights_ok L ws \<Longrightarrow> 0 \<le> range_sum ws b i \<and> range_sum ws b i < 2 ^ 31"
  using sum_list_bounds [of ws b "i * b"] by (auto simp: weights_ok_def range_sum_def)

text \<open>A picker of the right shape, whose levels from \<open>k\<close> on are right.\<close>

definition tree_from :: "nat \<Rightarrow> nat \<Rightarrow> int list \<Rightarrow> picker \<Rightarrow> bool" where
  "tree_from k L ws p \<longleftrightarrow> N_elements p = length ws \<and> num_levels p = Suc L \<and> length (levels p) = Suc L \<and>
     (\<forall>l \<le> L. length (levels p ! l) = 2 ^ l) \<and> (\<forall>l. k \<le> l \<and> l \<le> L \<longrightarrow> levels p ! l = tree_row L ws l)"

lemma tree_from_0: "tree_from 0 L ws p \<longleftrightarrow> p = tree_of L ws"
proof
  assume "tree_from 0 L ws p"
  moreover from this have "levels p = map (tree_row L ws) [0..<Suc L]"
    by (intro nth_equalityI) (auto simp: tree_from_def nth_append simp del: upt_Suc)
  ultimately show "p = tree_of L ws" by (cases p) (simp add: tree_from_def tree_of_def)
qed (auto simp: tree_from_def tree_of_def nth_append simp del: upt_Suc)

lemma tree_of_from: "tree_from 0 L ws (tree_of L ws)"
  by (simp add: tree_from_0)

definition put_level :: "nat \<Rightarrow> int list \<Rightarrow> picker \<Rightarrow> picker" where
  "put_level l xs p = p\<lparr>levels := (levels p)[l := xs]\<rparr>"

lemma put_level_simps [simp]:
  "N_elements (put_level l xs p) = N_elements p" "num_levels (put_level l xs p) = num_levels p"
  "length (levels (put_level l xs p)) = length (levels p)"
  "l < length (levels p) \<Longrightarrow> levels (put_level l xs p) ! k = (if k = l then xs else levels p ! k)"
  "put_level l xs (put_level l ys p) = put_level l xs p"
  by (auto simp: put_level_def nth_list_update)

lemma put_level_same [simp]: "put_level l (levels p ! l) p = p"
  by (simp add: put_level_def)

lemma tree_node [simp]:
  "tree_from k L ws p \<Longrightarrow> l \<le> L \<Longrightarrow> i < 2 ^ l \<Longrightarrow> node p l i = Inr (levels p ! l ! i)"
  by (simp add: node_def tree_from_def)

lemma set_node_ok:
  "length (levels p) = Suc L \<Longrightarrow> l \<le> L \<Longrightarrow> i < length (levels p ! l) \<Longrightarrow>
    set_node l i v p = Inr (put_level l ((levels p ! l)[i := v]) p)"
  by (simp add: set_node_def put_level_def)

lemma set_nodes_ok:
  assumes "length (levels p) = Suc L" "l \<le> L" "a \<le> b" "b \<le> length (levels p ! l)"
  shows "for_each [a..<b] (\<lambda>i. set_node l i (w i)) p =
    Inr (put_level l (take a (levels p ! l) @ map w [a..<b] @ drop b (levels p ! l)) p)"
  using assms(3,4)
proof (induction b rule: dec_induct)
  case base
  then show ?case by simp
next
  case (step b)
  define q where "q = put_level l (take a (levels p ! l) @ map w [a..<b] @ drop b (levels p ! l)) p"
  have q: "length (levels q) = Suc L" "levels q ! l = take a (levels p ! l) @ map w [a..<b] @ drop b (levels p ! l)"
    using assms(1,2) by (simp_all add: q_def)
  have "(levels q ! l)[b := w b] = take a (levels p ! l) @ map w [a..<Suc b] @ drop (Suc b) (levels p ! l)"
    using step q(2) by (simp add: list_update_append min_def Cons_nth_drop_Suc [symmetric])
  moreover have "set_node l b (w b) q = Inr (put_level l ((levels q ! l)[b := w b]) q)"
    using q step assms(2) by (intro set_node_ok) auto
  ultimately show ?case
    using step by (simp add: for_each_append q_def [symmetric]) (simp add: q_def)
qed

section \<open>Rebuilding\<close>

lemma rebuild_level_ok:
  assumes from': "tree_from (Suc l) L ws p" and l: "l < L" and ok: "weights_ok L ws"
  shows "\<exists>q. rebuild_level l p = Inr q \<and> tree_from l L ws q"
proof -
  define part where "part i = put_level l (take i (tree_row L ws l) @ drop i (levels p ! l)) p" for i
  have len: "length (levels p) = Suc L" "length (levels p ! l) = 2 ^ l" "levels p ! Suc l = tree_row L ws (Suc l)"
    using from' l by (simp_all add: tree_from_def)
  have step: "rebuild_node l i (part i) = Inr (part (Suc i))" if i: "i < 2 ^ l" for i
  proof -
    have i': "2 * i < 2 ^ Suc l" "2 * i + 1 < 2 ^ Suc l" using i by simp_all
    have part: "tree_from (Suc l) L ws (part i)"
      using from' l i len by (auto simp: tree_from_def part_def)
    have b: "(2::nat) ^ (L - l) = 2 * 2 ^ (L - Suc l)" using l by (metis Suc_diff_Suc power_Suc)
    have n: "node (part i) (l + 1) (2 * i) = Inr (range_sum ws (2 ^ (L - Suc l)) (2 * i))"
      "node (part i) (l + 1) (2 * i + 1) = Inr (range_sum ws (2 ^ (L - Suc l)) (2 * i + 1))"
      using tree_node [OF part, of "Suc l"] l len i' by (simp_all add: part_def)
    have "add32 (range_sum ws (2 ^ (L - Suc l)) (2 * i)) (range_sum ws (2 ^ (L - Suc l)) (2 * i + 1)) =
        Inr (tree_row L ws l ! i)"
      using range_sum_bounds [OF ok, of "2 ^ (L - l)" i] i
      by (simp only: add32_def range_sum_halves b nth_tree_row) simp
    moreover have "set_node l i (tree_row L ws l ! i) (part i) = Inr (part (Suc i))"
    proof -
      have "set_node l i (tree_row L ws l ! i) (part i) =
          Inr (put_level l ((levels (part i) ! l)[i := tree_row L ws l ! i]) (part i))"
        using part l i by (intro set_node_ok) (auto simp: tree_from_def)
      then show ?thesis
        using len l i by (simp add: part_def list_update_append take_Suc_conv_app_nth Cons_nth_drop_Suc [symmetric])
    qed
    ultimately show ?thesis by (simp only: rebuild_node_def n and_then_simps)
  qed
  have "part 0 = p" by (simp add: part_def)
  then have "rebuild_level l p = Inr (part (2 ^ l))"
    unfolding rebuild_level_def using step by (rule for_each_upt)
  moreover have "tree_from l L ws (part (2 ^ l))"
    using from' l len by (simp add: tree_from_def part_def)
  ultimately show ?thesis by blast
qed

lemma RebuildTreeWeights_ok:
  assumes "tree_from L L ws p" "weights_ok L ws"
  shows "RebuildTreeWeights p = Inr (tree_of L ws)"
proof -
  have "k \<le> L \<Longrightarrow> tree_from k L ws q \<Longrightarrow> for_each (rev [0..<k]) rebuild_level q = Inr (tree_of L ws)" for k q
  proof (induction k arbitrary: q)
    case (Suc k)
    with rebuild_level_ok [of k L ws q] assms(2) obtain r where "rebuild_level k q = Inr r" "tree_from k L ws r" by auto
    with Suc show ?case by simp
  qed (simp add: tree_from_0)
  with assms(1) show ?thesis by (simp add: RebuildTreeWeights_def tree_from_def)
qed

section \<open>Setting weights\<close>

lemma leaves_row: "length ws \<le> 2 ^ L \<Longrightarrow> tree_row L ws L = ws @ replicate (2 ^ L - length ws) 0"
  by (intro nth_equalityI) (auto simp: range_sum_one [unfolded One_nat_def] nth_append)

lemma set_leaves_ok:
  assumes from': "tree_from (Suc L) L ws p" and fits: "length ws \<le> 2 ^ L"
  shows "\<exists>q. set_leaves (\<lambda>i. ws ! i) p = Inr q \<and> tree_from L L ws q"
proof -
  note shape = from' [unfolded tree_from_def]
  define q where "q = put_level L (map ((!) ws) [0..<length ws] @ drop (length ws) (levels p ! L)) p"
  have "for_each [0..<length ws] (\<lambda>i. set_node L i (ws ! i)) p = Inr q"
    using set_nodes_ok [of p L L 0 "length ws" "(!) ws"] shape fits by (simp add: q_def)
  moreover have "for_each [length ws..<2 ^ L] (\<lambda>i. set_node L i 0) q =
      Inr (put_level L (ws @ replicate (2 ^ L - length ws) 0) p)"
    using set_nodes_ok [of q L L "length ws" "2 ^ L" "\<lambda>_. 0"] shape fits
    by (simp add: q_def map_nth map_replicate_const)
  moreover have "tree_from L L ws (put_level L (ws @ replicate (2 ^ L - length ws) 0) p)"
    using shape fits by (auto simp: tree_from_def leaves_row)
  ultimately show ?thesis using shape by (simp add: set_leaves_def)
qed

text \<open>The counts of the elements and the levels are all that \<open>SetAllWeights\<close> needs of the tree.\<close>

definition tree_shape :: "nat \<Rightarrow> nat \<Rightarrow> picker \<Rightarrow> bool" where
  "tree_shape L n p \<longleftrightarrow> N_elements p = n \<and> num_levels p = Suc L \<and> length (levels p) = Suc L \<and>
     (\<forall>l \<le> L. length (levels p ! l) = 2 ^ l)"

lemma tree_shape_from: "tree_shape L (length ws) p \<longleftrightarrow> tree_from (Suc L) L ws p"
  by (auto simp: tree_shape_def tree_from_def)

lemma tree_of_shape: "length ws = n \<Longrightarrow> tree_shape L n (tree_of L ws)"
  by (auto simp: tree_shape_from tree_from_def tree_of_def nth_append simp del: upt_Suc)

lemma set_leaves_rebuild:
  assumes "tree_shape L (length ws) p" "weights_ok L ws"
  shows "and_then (set_leaves (\<lambda>i. ws ! i) p) RebuildTreeWeights = Inr (tree_of L ws)"
proof -
  from set_leaves_ok [of L ws p] assms obtain q where "set_leaves (\<lambda>i. ws ! i) p = Inr q" "tree_from L L ws q"
    by (auto simp: tree_shape_from weights_ok_def)
  with assms(2) show ?thesis by (simp add: RebuildTreeWeights_ok)
qed

lemma set_leaves_cong:
  "(\<And>i. i < N_elements p \<Longrightarrow> w i = w' i) \<Longrightarrow> set_leaves w p = set_leaves w' p"
proof -
  assume same: "\<And>i. i < N_elements p \<Longrightarrow> w i = w' i"
  have "for_each xs (\<lambda>i. set_node l i (w i)) q = for_each xs (\<lambda>i. set_node l i (w' i)) q"
    if "\<forall>i \<in> set xs. i < N_elements p" for l q and xs
    using that by (induction xs arbitrary: q) (simp_all add: same and_then_def split: sum.split)
  then show ?thesis by (simp add: set_leaves_def)
qed

lemma SetAllWeights_ok:
  assumes "tree_shape L n p" "weights_ok L (replicate n w)"
  shows "SetAllWeights w p = Inr (tree_of L (replicate n w))"
proof -
  have "set_leaves (\<lambda>_. w) p = set_leaves (\<lambda>i. replicate n w ! i) p"
    using assms(1) by (intro set_leaves_cong) (simp add: tree_shape_def)
  with set_leaves_rebuild [of L "replicate n w" p] assms show ?thesis by (simp add: SetAllWeights_def)
qed

lemma find_levels_ok:
  "n \<le> 2 ^ 30 \<Longrightarrow> 1 \<le> num \<Longrightarrow> num \<le> 31 \<Longrightarrow> \<exists>L. find_levels n num = Inr (Suc L) \<and> n \<le> 2 ^ L \<and> L \<le> 30"
proof (induction n num rule: find_levels.induct)
  case (1 n num)
  show ?case
  proof (cases "int (LevelSize (num - 1)) < n")
    case True
    then have "num \<noteq> 31" using "1.prems"(1) by auto
    with 1 True show ?thesis by (subst find_levels.simps) simp
  next
    case False
    with "1.prems" show ?thesis by (subst find_levels.simps) (auto intro!: exI [of _ "num - 1"])
  qed
qed

lemma make_picker_ok:
  assumes "0 \<le> n" "n \<le> 2 ^ 30"
  shows "\<exists>L. make_picker n = Inr (tree_of L (replicate (nat n) 1)) \<and> nat n \<le> 2 ^ L \<and> L \<le> 30"
proof -
  from find_levels_ok [OF assms(2), of 1] obtain L where L: "find_levels n 1 = Inr (Suc L)" "n \<le> 2 ^ L" "L \<le> 30" by auto
  have "nat n \<le> nat (2 ^ L)" using L(2) by (rule nat_mono)
  then have le: "nat n \<le> 2 ^ L" by (simp add: nat_power_eq)
  have ok: "weights_ok L (replicate (nat n) 1)"
    using assms le L by (simp add: weights_ok_def sum_list_replicate)
  have "tree_shape L (nat n)
      \<lparr>N_elements = nat n, num_levels = Suc L, levels = map (\<lambda>l. replicate (LevelSize l) 0) [0..<Suc L]\<rparr>"
    by (auto simp: tree_shape_def nth_append simp del: upt_Suc)
  from SetAllWeights_ok [OF this ok] show ?thesis
    using assms L le by (auto simp: make_picker_def simp del: upt_Suc)
qed

section \<open>Changing one weight\<close>

text \<open>The levels from \<open>l\<close> on belong to the new weights, the others to the old ones.\<close>

definition mixed :: "nat \<Rightarrow> nat \<Rightarrow> int list \<Rightarrow> int list \<Rightarrow> picker" where
  "mixed L l ws ws' =
     \<lparr>N_elements = length ws, num_levels = Suc L,
      levels = map (\<lambda>k. tree_row L (if k < l then ws else ws') k) [0..<Suc L]\<rparr>"

lemma mixed_levels: "k \<le> L \<Longrightarrow> levels (mixed L l ws ws') ! k = tree_row L (if k < l then ws else ws') k"
  "length (levels (mixed L l ws ws')) = Suc L"
  by (simp_all add: mixed_def nth_append del: upt_Suc)

lemma mixed_all: "length ws' = length ws \<Longrightarrow> mixed L (Suc L) ws ws' = tree_of L ws" "length ws' = length ws \<Longrightarrow> mixed L 0 ws ws' = tree_of L ws'"
  by (simp_all add: mixed_def tree_of_def del: upt_Suc)

lemma map_upt_update: "(map f [0..<n])[l := y] = map (f(l := y)) [0..<n]"
  by (rule nth_equalityI) (auto simp: nth_list_update)

lemma mixed_step:
  assumes l: "l \<le> L" and i: "i < length ws" "length ws \<le> 2 ^ L"
  shows "set_node l (i div 2 ^ (L - l)) (range_sum ws (2 ^ (L - l)) (i div 2 ^ (L - l)) + (w - ws ! i))
      (mixed L (Suc l) ws (ws[i := w])) = Inr (mixed L l ws (ws[i := w]))"
proof -
  define j where "j = i div 2 ^ (L - l)"
  define v where "v = range_sum ws (2 ^ (L - l)) j + (w - ws ! i)"
  have "i < 2 ^ (L - l) * 2 ^ l" using i l by (simp flip: power_add)
  then have j: "j < 2 ^ l" unfolding j_def by (simp add: less_mult_imp_div_less mult.commute)
  have row: "(tree_row L ws l)[j := v] = tree_row L (ws[i := w]) l"
    using i(1) j by (intro nth_equalityI) (auto simp: nth_list_update range_sum_update v_def j_def)
  have "set_node l j v (mixed L (Suc l) ws (ws[i := w])) =
      Inr (put_level l ((tree_row L ws l)[j := v]) (mixed L (Suc l) ws (ws[i := w])))"
    using j l mixed_levels(1) [of l L "Suc l" ws "ws[i := w]"]
      mixed_levels(2) [of L "Suc l" ws "ws[i := w]"] set_node_ok [of "mixed L (Suc l) ws (ws[i := w])" L l j v]
    by simp
  also have "put_level l ((tree_row L ws l)[j := v]) (mixed L (Suc l) ws (ws[i := w])) = mixed L l ws (ws[i := w])"
    unfolding row put_level_def mixed_def using l by (simp add: map_upt_update fun_eq_iff del: upt_Suc)
  finally show ?thesis by (simp only: j_def v_def)
qed

lemma add_to_path_ok:
  assumes ok: "weights_ok L ws" "weights_ok L (ws[i := w])" and i: "i < length ws"
  shows "l \<le> Suc L \<Longrightarrow>
    add_to_path l (i div 2 ^ (Suc L - l)) (w - ws ! i) (mixed L l ws (ws[i := w])) = Inr (tree_of L (ws[i := w]))"
proof (induction l)
  case 0
  then show ?case by (simp add: mixed_all)
next
  case (Suc l)
  define j where "j = i div 2 ^ (L - l)"
  have l: "l \<le> L" using Suc.prems by simp
  have len: "length ws \<le> 2 ^ L" using ok(1) by (simp add: weights_ok_def)
  have "i < 2 ^ (L - l) * 2 ^ l" using i len l by (simp flip: power_add)
  then have j: "j < 2 ^ l" unfolding j_def by (simp add: less_mult_imp_div_less mult.commute)
  have n: "node (mixed L (Suc l) ws (ws[i := w])) l j = Inr (range_sum ws (2 ^ (L - l)) j)"
    using l j by (simp add: node_def mixed_levels)
  have "range_sum (ws[i := w]) (2 ^ (L - l)) j = range_sum ws (2 ^ (L - l)) j + (w - ws ! i)"
    using i by (simp add: range_sum_update j_def)
  then have add: "add32 (range_sum ws (2 ^ (L - l)) j) (w - ws ! i) = Inr (range_sum ws (2 ^ (L - l)) j + (w - ws ! i))"
    using range_sum_bounds [OF ok(2), of "2 ^ (L - l)" j] by (intro add32_ok) simp_all
  have next': "j div 2 = i div 2 ^ (Suc L - l)"
  proof -
    have "(2 :: nat) ^ (Suc L - l) = 2 ^ (L - l) * 2" using l by (simp add: Suc_diff_le)
    then show ?thesis by (simp only: j_def div_mult2_eq)
  qed
  have "i div 2 ^ (Suc L - Suc l) = j" by (simp add: j_def)
  moreover have "add_to_path l (j div 2) (w - ws ! i) (mixed L l ws (ws[i := w])) = Inr (tree_of L (ws[i := w]))"
    using Suc.IH l unfolding next' by simp
  ultimately show ?case
    using n add mixed_step [OF l i len, of w] by (simp add: j_def [symmetric])
qed

lemma tree_of_simps [simp]: "N_elements (tree_of L ws) = length ws" "num_levels (tree_of L ws) = Suc L"
  by (simp_all add: tree_of_def)

lemma tree_of_node: "l \<le> L \<Longrightarrow> i < 2 ^ l \<Longrightarrow> node (tree_of L ws) l i = Inr (range_sum ws (2 ^ (L - l)) i)"
  using tree_node [OF tree_of_from, of l L i ws] by (simp add: tree_of_def nth_append del: upt_Suc)

lemma tree_of_leaf: "i < length ws \<Longrightarrow> length ws \<le> 2 ^ L \<Longrightarrow> node (tree_of L ws) L i = Inr (ws ! i)"
  by (simp add: tree_of_node range_sum_one [unfolded One_nat_def])

lemma get_weight_ok: "i < length ws \<Longrightarrow> length ws \<le> 2 ^ L \<Longrightarrow> get_weight (int i) (tree_of L ws) = Inr (ws ! i)"
  by (simp add: get_weight_def tree_of_leaf)

lemma total_weight_ok: "length ws \<le> 2 ^ L \<Longrightarrow> total_weight (tree_of L ws) = Inr (sum_list ws)"
  by (simp add: total_weight_def tree_of_node range_sum_def)

lemma nth_weight_bounds: "weights_ok L ws \<Longrightarrow> i < length ws \<Longrightarrow> 0 \<le> ws ! i \<and> ws ! i < 2 ^ 31"
  using range_sum_bounds [of L ws 1 i] by (simp only: range_sum_one if_True)

lemma set_weight_ok:
  assumes ok: "weights_ok L ws" "weights_ok L (ws[i := w])" and i: "i < length ws"
  shows "set_weight (int i) w (tree_of L ws) = Inr (tree_of L (ws[i := w]))"
proof -
  have "0 \<le> ws ! i" "ws ! i < 2 ^ 31" "0 \<le> w" "w < 2 ^ 31"
    using nth_weight_bounds [OF ok(1) i] nth_weight_bounds [OF ok(2), of i] i by simp_all
  then have "add32 w (- (ws ! i)) = Inr (w - ws ! i)" using add32_ok [of w "- (ws ! i)"] by simp
  moreover have "get_weight (int i) (tree_of L ws) = Inr (ws ! i)"
    using i ok(1) by (intro get_weight_ok) (simp_all add: weights_ok_def)
  moreover have "add_to_path (Suc L) i (w - ws ! i) (tree_of L ws) = Inr (tree_of L (ws[i := w]))"
    using add_to_path_ok [OF ok i, of "Suc L"] by (simp add: mixed_all del: add_to_path.simps)
  ultimately show ?thesis using i by (simp add: set_weight_def del: add_to_path.simps)
qed

section \<open>Changing the number of elements\<close>

text \<open>Fewer or more elements; new ones have the weight zero.\<close>

definition resized :: "nat \<Rightarrow> int list \<Rightarrow> int list" where
  "resized n ws = take n ws @ replicate (n - length ws) 0"

lemma length_resized [simp]: "length (resized n ws) = n"
  by (simp add: resized_def)

lemma resized_ok: "weights_ok L ws \<Longrightarrow> n \<le> 2 ^ L' \<Longrightarrow> L' \<le> 30 \<Longrightarrow> weights_ok L' (resized n ws)"
  using sum_list_bounds(2) [of ws n 0]
  by (auto simp: weights_ok_def resized_def sum_list_replicate dest: in_set_takeD)

lemma tree_of_pad: "tree_of L (ws @ replicate k 0) \<lparr>N_elements := length ws\<rparr> = tree_of L ws"
  by (simp add: tree_of_def)

lemma tree_of_grow: "tree_of L ws \<lparr>N_elements := length ws + k\<rparr> = tree_of L (ws @ replicate k 0)"
  by (simp add: tree_of_def)

lemma drop_weights_ok:
  assumes ok: "weights_ok L ws" and n: "n \<le> length ws"
  shows "for_each [n..<length ws] (\<lambda>i. set_weight (int i) 0) (tree_of L ws) =
    Inr (tree_of L (take n ws @ replicate (length ws - n) 0))"
proof -
  define s where "s k = take n ws @ replicate (k - n) 0 @ drop k ws" for k
  have s: "weights_ok L (s k)" "length (s k) = length ws" if "n \<le> k" "k \<le> length ws" for k
  proof -
    have parts: "sum_list (take n ws) + sum_list (drop k ws) \<le> sum_list ws"
    proof -
      have "sum_list ws = sum_list (take n ws) + (sum_list (take (k - n) (drop n ws)) + sum_list (drop k ws))"
        using that by (metis append_take_drop_id drop_drop le_add_diff_inverse2 sum_list_append)
      moreover have "0 \<le> sum_list (take (k - n) (drop n ws))"
        using ok by (intro sum_list_bounds(1)) (simp add: weights_ok_def)
      ultimately show ?thesis by simp
    qed
    show len: "length (s k) = length ws" using that n by (simp add: s_def)
    show "weights_ok L (s k)"
      using ok parts len by (auto simp: weights_ok_def s_def sum_list_replicate dest: in_set_takeD in_set_dropD)
  qed
  have "set_weight (int k) 0 (tree_of L (s k)) = Inr (tree_of L (s (Suc k)))" if "n \<le> k" "k < length ws" for k
  proof -
    have "(s k)[k := 0] = s (Suc k)"
      using that n by (simp add: s_def list_update_append Cons_nth_drop_Suc [symmetric] Suc_diff_le replicate_append_same
          flip: replicate_Suc append_Cons)
    then show ?thesis using set_weight_ok [of L "s k" k 0] s [of k] s [of "Suc k"] that by simp
  qed
  with for_each_from [OF n, of "\<lambda>i. set_weight (int i) 0" "\<lambda>k. tree_of L (s k)"] have
    "for_each [n..<length ws] (\<lambda>i. set_weight (int i) 0) (tree_of L (s n)) = Inr (tree_of L (s (length ws)))" by simp
  then show ?thesis by (simp add: s_def)
qed

lemma copy_leaf_ok:
  assumes "i < length ws" "length ws \<le> 2 ^ L" "tree_shape L' n dst" "n \<le> 2 ^ L'" "i < n"
  shows "copy_leaf (tree_of L ws) i dst = Inr (put_level L' ((levels dst ! L')[i := ws ! i]) dst)"
  using assms set_node_ok [of dst L' L' i "ws ! i"] by (simp add: copy_leaf_def tree_of_leaf tree_shape_def)

lemma Resize_bigger_ok:
  assumes ok: "weights_ok L ws" and n: "2 ^ L < n" "n \<le> 2 ^ 30"
  shows "\<exists>L'. Resize (int n) (tree_of L ws) = Inr (tree_of L' (resized n ws)) \<and> n \<le> 2 ^ L' \<and> L' \<le> 30"
proof -
  have len: "length ws < n" "length ws \<le> 2 ^ L" using ok n(1) by (simp_all add: weights_ok_def)
  have "int n \<le> 2 ^ 30" using n(2) by (metis of_nat_le_iff of_nat_numeral of_nat_power)
  from make_picker_ok [OF _ this] obtain L' where new: "make_picker (int n) = Inr (tree_of L' (replicate n 1))"
    and L': "n \<le> 2 ^ L'" "L' \<le> 30" by auto
  define T where "T = tree_of L' (replicate n 1)"
  have T: "tree_shape L' n T" unfolding T_def by (rule tree_of_shape) simp
  define row where "row = levels T ! L'"
  define s where "s k = put_level L' (take k ws @ drop k row) T" for k
  have row: "length row = 2 ^ L'" using T by (simp add: tree_shape_def row_def)
  have s: "tree_shape L' n (s k)" if "k \<le> length ws" for k
    using T row len L'(1) that by (auto simp: tree_shape_def s_def)
  have copy: "copy_leaf (tree_of L ws) k (s k) = Inr (s (Suc k))" if "k < length ws" for k
  proof -
    have "(levels (s k) ! L')[k := ws ! k] = take (Suc k) ws @ drop (Suc k) row"
      using that T row len L'(1)
      by (simp add: s_def tree_shape_def list_update_append take_Suc_conv_app_nth Cons_nth_drop_Suc [symmetric])
    then show ?thesis
      using copy_leaf_ok [OF that len(2) s L'(1), of k] that len by (simp add: s_def)
  qed
  have "for_each [0..<length ws] (copy_leaf (tree_of L ws)) T = Inr (s (length ws))"
  proof (rule for_each_upt)
    show "s 0 = T" by (simp add: s_def row_def)
  qed (rule copy)
  moreover have "for_each [length ws..<n] (\<lambda>i. set_node L' i 0) (s (length ws)) =
      Inr (put_level L' (ws @ replicate (n - length ws) 0 @ drop n row) T)"
    using set_nodes_ok [of "s (length ws)" L' L' "length ws" n "\<lambda>_. 0"] s [of "length ws"] row len L'(1) T
    by (simp add: s_def tree_shape_def map_replicate_const)
  moreover have "RebuildTreeWeights (put_level L' (ws @ replicate (n - length ws) 0 @ drop n row) T) =
      Inr (tree_of L' (resized n ws))"
  proof (rule RebuildTreeWeights_ok)
    have "row = tree_row L' (replicate n 1) L'" by (simp add: row_def T_def tree_of_def nth_append del: upt_Suc)
    then have "drop n row = replicate (2 ^ L' - n) 0" using L'(1) by (simp add: leaves_row)
    moreover have "ws @ replicate (n - length ws) 0 @ replicate (2 ^ L' - n) 0 = resized n ws @ replicate (2 ^ L' - n) 0"
      using len by (simp add: resized_def)
    ultimately show "tree_from L' L' (resized n ws) (put_level L' (ws @ replicate (n - length ws) 0 @ drop n row) T)"
      using T len L'(1) leaves_row [of "resized n ws" L'] by (auto simp: tree_shape_def tree_from_def)
  qed (rule resized_ok [OF ok L'])
  ultimately show ?thesis
    using n(1) len new L' T
    by (auto simp: Resize_def T_def [symmetric] tree_shape_def s_def not_le)
qed

lemma Resize_ok:
  assumes ok: "weights_ok L ws" and n: "n \<le> 2 ^ 30"
  shows "\<exists>L'. Resize (int n) (tree_of L ws) = Inr (tree_of L' (resized n ws)) \<and> weights_ok L' (resized n ws)"
proof (cases "n \<le> 2 ^ L")
  case True
  have L: "L \<le> 30" using ok by (simp add: weights_ok_def)
  have fits: "int n \<le> int (LevelSize L)" using True by (simp only: of_nat_le_iff)
  have "Resize (int n) (tree_of L ws) = Inr (tree_of L (resized n ws))"
  proof (cases "n \<le> length ws")
    case True
    then have "tree_of L (take n ws @ replicate (length ws - n) 0) \<lparr>N_elements := n\<rparr> = tree_of L (take n ws)"
      using tree_of_pad [of "take n ws" L "length ws - n"] by (simp add: min_absorb2)
    with True fits drop_weights_ok [OF ok True] show ?thesis by (simp add: Resize_def resized_def)
  next
    case False
    then have "tree_of L ws \<lparr>N_elements := n\<rparr> = tree_of L (ws @ replicate (n - length ws) 0)"
      using tree_of_grow [of ws "n - length ws" L] by simp
    with False fits show ?thesis by (simp add: Resize_def resized_def)
  qed
  with resized_ok [OF ok True L] show ?thesis by blast
next
  case False
  with Resize_bigger_ok [OF ok _ n] resized_ok [OF ok] show ?thesis by (meson not_le)
qed

lemma SetWeightsFromArray_ok:
  assumes "weights_ok L ws" "length vs \<le> 2 ^ 30" "\<forall>v \<in> set vs. 0 \<le> v" "sum_list vs < 2 ^ 31"
  shows "\<exists>L'. SetWeightsFromArray (int (length vs)) vs (tree_of L ws) = Inr (tree_of L' vs) \<and> weights_ok L' vs"
proof -
  from Resize_ok [OF assms(1,2)] obtain L' where L':
    "Resize (int (length vs)) (tree_of L ws) = Inr (tree_of L' (resized (length vs) ws))"
    "weights_ok L' (resized (length vs) ws)" by blast
  then have ok: "weights_ok L' vs" using assms by (simp add: weights_ok_def)
  have "tree_shape L' (length vs) (tree_of L' (resized (length vs) ws))" by (rule tree_of_shape) simp
  from set_leaves_rebuild [OF this ok] L'(1) ok show ?thesis by (auto simp: SetWeightsFromArray_def)
qed

lemma Append_ok:
  assumes "weights_ok L ws" "length ws < 2 ^ 30" "0 \<le> w" "sum_list ws + w < 2 ^ 31"
  shows "\<exists>L'. Append w (tree_of L ws) = Inr (tree_of L' (ws @ [w])) \<and> weights_ok L' (ws @ [w])"
proof -
  have "resized (length ws + 1) ws = ws @ [0]" by (simp add: resized_def)
  with Resize_ok [OF assms(1), of "length ws + 1"] assms(2) obtain L' where L':
    "Resize (int (length ws + 1)) (tree_of L ws) = Inr (tree_of L' (ws @ [0]))" "weights_ok L' (ws @ [0])" by auto
  then have ok: "weights_ok L' (ws @ [w])" using assms by (simp add: weights_ok_def)
  have "set_weight (int (length ws)) w (tree_of L' (ws @ [0])) = Inr (tree_of L' (ws @ [w]))"
    using set_weight_ok [of L' "ws @ [0]" "length ws" w] L'(2) ok by simp
  with L'(1) ok show ?thesis by (auto simp: Append_def add.commute)
qed

section \<open>Picking\<close>

text \<open>The element whose share of the total covers a position.\<close>

definition covers :: "int list \<Rightarrow> nat \<Rightarrow> int \<Rightarrow> bool" where
  "covers ws i x \<longleftrightarrow> i < length ws \<and> sum_list (take i ws) \<le> x \<and> x < sum_list (take i ws) + ws ! i"

lemma sum_list_take_step: "sum_list (take (i * b + b) ws) = sum_list (take (i * b) ws) + range_sum ws b i"
  by (simp add: take_add range_sum_def)

lemma descend_ok:
  assumes ok: "weights_ok L ws"
  shows "n \<le> L \<Longrightarrow> index < 2 ^ (L - n) \<Longrightarrow> 0 \<le> position \<Longrightarrow> position < range_sum ws (2 ^ n) index \<Longrightarrow>
    \<exists>i pos. descend (tree_of L ws) (L + 1 - n) n index position = Inr (i, pos) \<and> i < 2 ^ L \<and> 0 \<le> pos \<and>
      pos < range_sum ws 1 i \<and> position + sum_list (take (index * 2 ^ n) ws) = pos + sum_list (take i ws)"
proof (induction n arbitrary: index position)
  case 0
  then show ?case by simp
next
  case (Suc n)
  define b where "b = (2 :: nat) ^ n"
  have b: "2 ^ Suc n = 2 * b" by (simp add: b_def)
  have level: "L + 1 - Suc n = L - n" "L - n \<le> L" "L - (L - n) = n" "L - n + 1 = L + 1 - n" using Suc.prems(1) by simp_all
  have "L - n = Suc (L - Suc n)" using Suc.prems(1) by simp
  then have index: "2 * index + 1 < 2 ^ (L - n)" using Suc.prems(2) by simp
  define left where "left = range_sum ws b (2 * index)"
  have n: "node (tree_of L ws) (L - n) (2 * index) = Inr left"
    using tree_of_node [OF level(2), of "2 * index" ws] index level(3) by (simp add: left_def b_def)
  have halves: "range_sum ws (2 ^ Suc n) index = left + range_sum ws b (2 * index + 1)"
    unfolding b left_def by (rule range_sum_halves [symmetric])
  have eq: "index * 2 ^ Suc n = 2 * index * 2 ^ n" by simp
  show ?case
  proof (cases "position < left")
    case True
    from Suc.IH [of "2 * index" position] Suc.prems index True n show ?thesis
      unfolding level eq by (simp add: left_def b_def Suc_diff_le)
  next
    case False
    have "sum_list (take ((2 * index + 1) * b) ws) = sum_list (take (index * 2 ^ Suc n) ws) + left"
    proof -
      have "(2 * index + 1) * b = 2 * index * b + b" by (simp add: distrib_right)
      then show ?thesis using sum_list_take_step [of "2 * index" b ws] by (simp only: eq b_def [symmetric] left_def)
    qed
    with Suc.IH [of "2 * index + 1" "position - left"] Suc.prems index False n halves show ?thesis
      unfolding level by (simp add: b_def [symmetric] Suc_diff_le)
  qed
qed

lemma PickAt_ok:
  assumes ok: "weights_ok L ws"
  shows "if 0 \<le> x \<and> x < sum_list ws then \<exists>i. PickAt x (tree_of L ws) = Inr (int i) \<and> covers ws i x
    else PickAt x (tree_of L ws) = Inr (- 1)"
proof -
  have len: "length ws \<le> 2 ^ L" using ok by (simp add: weights_ok_def)
  show ?thesis
  proof (cases "0 \<le> x \<and> x < sum_list ws")
    case True
    have "range_sum ws (2 ^ L) 0 = sum_list ws" using len by (simp add: range_sum_def)
    with descend_ok [OF ok, of L 0 x] True obtain i pos where i:
      "descend (tree_of L ws) 1 L 0 x = Inr (i, pos)" "0 \<le> pos" "pos < range_sum ws 1 i" "x = pos + sum_list (take i ws)"
      by auto
    then have small: "i < length ws" "pos < ws ! i" by (auto simp only: range_sum_one split: if_splits)
    then have "PickAt x (tree_of L ws) = Inr (int i)"
      using True i(1) total_weight_ok [OF len] tree_of_leaf [OF _ len, of i] by (simp add: PickAt_def)
    with True i small show ?thesis by (auto simp: covers_def)
  next
    case False
    with total_weight_ok [OF len] show ?thesis by (auto simp: PickAt_def)
  qed
qed

lemma covers_unique:
  assumes "\<forall>w \<in> set ws. 0 \<le> w" "covers ws i x" "covers ws j x"
  shows "i = j"
proof (rule ccontr)
  have less: False if "covers ws i x" "covers ws j x" "i < j" for i j
  proof -
    have "sum_list (take j ws) = sum_list (take (Suc i) ws) + sum_list (take (j - Suc i) (drop (Suc i) ws))"
      using that(3) by (metis Suc_leI le_add_diff_inverse sum_list_append take_add)
    moreover have "sum_list (take (Suc i) ws) = sum_list (take i ws) + ws ! i"
      using that(1) by (simp add: covers_def take_Suc_conv_app_nth)
    ultimately show False
      using that sum_list_bounds(1) [OF assms(1), of "j - Suc i" "Suc i"] by (simp add: covers_def)
  qed
  assume "i \<noteq> j"
  with less [of i j] less [of j i] assms(2,3) show False by linarith
qed

section \<open>Uniform numbers\<close>

text \<open>In \<open>q\<close> times \<open>n\<close> consecutive numbers, every residue modulo \<open>n\<close> is there \<open>q\<close> times.\<close>

lemma card_residue_one: "v < (n :: nat) \<Longrightarrow> card {r \<in> {c..<c + n}. r mod n = v} = 1"
proof (induction c)
  case 0
  then have "{r \<in> {0..<0 + n}. r mod n = v} = {v}" by auto
  then show ?case by simp
next
  case (Suc c)
  define S where "S = {r \<in> {c..<c + n}. r mod n = v}"
  have S: "finite S" "card S = 1" using Suc by (simp_all add: S_def)
  have n: "0 < n" using Suc.prems by simp
  then have U: "{Suc c..<Suc c + n} = ({c..<c + n} - {c}) \<union> {c + n}" by auto
  show ?case
  proof (cases "c mod n = v")
    case True
    then have "{r \<in> {Suc c..<Suc c + n}. r mod n = v} = insert (c + n) (S - {c})" "c \<in> S" "c + n \<notin> S"
      unfolding U using n by (auto simp: S_def)
    with S show ?thesis by (simp add: card_Diff_singleton)
  next
    case False
    then have "(c + n) mod n \<noteq> v" by simp
    with False have "{r \<in> {Suc c..<Suc c + n}. r mod n = v} = S"
      unfolding U S_def by blast
    with S show ?thesis by simp
  qed
qed

lemma card_residue:
  assumes "v < (n :: nat)"
  shows "card {r \<in> {a..<a + n * q}. r mod n = v} = q"
proof (induction q)
  case (Suc q)
  define c where "c = a + n * q"
  define low where "low = {r \<in> {a..<c}. r mod n = v}"
  define high where "high = {r \<in> {c..<c + n}. r mod n = v}"
  have "{r \<in> {a..<a + n * Suc q}. r mod n = v} = low \<union> high"
    by (auto simp: c_def low_def high_def)
  moreover have "card (low \<union> high) = card low + card high"
    by (rule card_Un_disjoint) (auto simp: low_def high_def)
  moreover have "card low = q" using Suc by (simp add: low_def c_def)
  moreover have "card high = 1" unfolding high_def using assms by (rule card_residue_one)
  ultimately show ?case by simp
qed simp

lemma power_of_two:
  assumes "n AND (n - 1) = 0" "0 < (n :: nat)"
  shows "\<exists>k. n = 2 ^ k"
proof -
  obtain h where h: "2 ^ h \<le> n" "n < 2 ^ (h + 1)" using ex_power_ivl1 [of 2 n] assms(2) by auto
  have "n = 2 ^ h"
  proof (rule ccontr)
    assume "n \<noteq> 2 ^ h"
    then have "n div 2 ^ h = 1" "(n - 1) div 2 ^ h = 1" using h by (auto intro!: div_nat_eqI)
    then have "bit n h" "bit (n - 1) h" by (simp_all add: bit_iff_odd)
    then have "bit (n AND (n - 1)) h" by (simp add: bit_and_iff)
    with assms(1) show False by simp
  qed
  then show ?thesis ..
qed

lemma card_words: "card {r :: 32 word. unat r \<in> A} = card (A \<inter> {..<2 ^ 32})"
proof -
  have "unat ` {r :: 32 word. unat r \<in> A} = A \<inter> {..<2 ^ 32}"
  proof (intro equalityI subsetI)
    fix k assume k: "k \<in> A \<inter> {..<2 ^ 32}"
    then have "unat (word_of_nat k :: 32 word) = k" by (simp add: unsigned_of_nat take_bit_nat_eq_self)
    with k show "k \<in> unat ` {r :: 32 word. unat r \<in> A}" by (metis (mono_tags) IntD1 image_eqI mem_Collect_eq)
  next
    fix k assume "k \<in> unat ` {r :: 32 word. unat r \<in> A}"
    then show "k \<in> A \<inter> {..<2 ^ 32}" using unsigned_less [where 'a = nat and 'b = 32] by auto
  qed
  moreover have "inj_on unat {r :: 32 word. unat r \<in> A}" by (auto simp: inj_on_def word_unat_eq_iff)
  ultimately show ?thesis by (metis card_image)
qed

definition draws :: "nat \<Rightarrow> nat \<Rightarrow> 32 word set" where
  "draws n v = {r. UnbiasedUniform n [r] = Some (v, [])}"

lemma UnbiasedUniform_fair:
  assumes "0 < n" "n < 2 ^ 31"
  shows "\<exists>c > 0. \<forall>v. card (draws n v) = (if v < n then c else 0)"
proof (cases "n AND (n - 1) = 0")
  case True
  with assms obtain k where k: "n = 2 ^ k" using power_of_two by blast
  then have "(2 :: nat) ^ k < 2 ^ 31" using assms(2) by simp
  then have "k < 31" by (simp only: power_strict_increasing_iff)
  then have total: "2 ^ 32 = n * 2 ^ (32 - k)" by (simp add: k flip: power_add)
  have "a AND (n - 1) = a mod n" for a
    using take_bit_eq_mask [of k a] by (simp add: k mask_eq_exp_minus_1 take_bit_eq_mod)
  then have "draws n v = {r. unat r \<in> {r. r mod n = v}}" for v
    using True assms(1) by (auto simp: draws_def UnbiasedUniform_def)
  then have "card (draws n v) = card ({r. r mod n = v} \<inter> {..<2 ^ 32})" for v
    by (simp only: card_words)
  moreover have "{r. r mod n = v} \<inter> {..<2 ^ 32} = {r \<in> {0..<0 + n * 2 ^ (32 - k)}. r mod n = v}" for v
    unfolding total by auto
  moreover have "{r \<in> {0..<0 + n * 2 ^ (32 - k)}. r mod n = v} = {}" if "\<not> v < n" for v
    using that assms(1) by auto
  ultimately have "card (draws n v) = (if v < n then 2 ^ (32 - k) else 0)" for v
    using card_residue [of v n 0 "2 ^ (32 - k)"] by simp
  then show ?thesis by (intro exI [of _ "2 ^ (32 - k)"]) simp
next
  case False
  define q where "q = (2 ^ 32 - 1) div n"
  have total: "2 ^ 32 = rejected n + n * q"
    using mult_div_mod_eq [of n "2 ^ 32 - 1"] by (simp add: rejected_def q_def)
  have q: "0 < q" using assms by (simp add: q_def div_greater_zero_iff)
  have "draws n v = {r. unat r \<in> {r. rejected n \<le> r \<and> r mod n = v}}" for v
    using False assms(1) by (auto simp: draws_def UnbiasedUniform_def not_less)
  then have "card (draws n v) = card ({r. rejected n \<le> r \<and> r mod n = v} \<inter> {..<2 ^ 32})" for v
    by (simp only: card_words)
  moreover have "{r. rejected n \<le> r \<and> r mod n = v} \<inter> {..<2 ^ 32} =
      {r \<in> {rejected n..<rejected n + n * q}. r mod n = v}" for v
    unfolding total by auto
  moreover have "{r \<in> {rejected n..<rejected n + n * q}. r mod n = v} = {}" if "\<not> v < n" for v
    using that assms(1) by auto
  ultimately have "card (draws n v) = (if v < n then q else 0)" for v
    using card_residue [of v n "rejected n" q] by simp
  with q show ?thesis by blast
qed

lemma UnbiasedUniform_one:
  "UnbiasedUniform n [r] = Some (v, rs) \<longleftrightarrow> rs = [] \<and> r \<in> draws n v"
  by (auto simp: draws_def UnbiasedUniform_def)

text \<open>A number is drawn again exactly when it is rejected.\<close>

lemma UnbiasedUniform_Cons:
  "UnbiasedUniform n (r # rs) =
    (case UnbiasedUniform n [r] of None \<Rightarrow> UnbiasedUniform n rs | Some (v, _) \<Rightarrow> Some (v, rs))"
  by (auto simp: UnbiasedUniform_def)

lemma card_covers:
  assumes "\<forall>w \<in> set ws. 0 \<le> w" "i < length ws"
  shows "card {x. covers ws i (int x)} = nat (ws ! i)"
proof -
  define a where "a = sum_list (take i ws)"
  have "0 \<le> a" "0 \<le> ws ! i" using sum_list_bounds(1) [OF assms(1), of i 0] assms by (simp_all add: a_def)
  then have "{x. covers ws i (int x)} = {nat a..<nat (a + ws ! i)}"
    using assms(2) by (auto simp: covers_def a_def)
  then show ?thesis using \<open>0 \<le> a\<close> \<open>0 \<le> ws ! i\<close> by (simp add: nat_add_distrib)
qed

lemma covers_below:
  assumes "\<forall>w \<in> set ws. 0 \<le> w" "covers ws i x"
  shows "0 \<le> x \<and> x < sum_list ws"
proof -
  have "sum_list (take (Suc i) ws) = sum_list (take i ws) + ws ! i"
    using assms(2) by (simp add: covers_def take_Suc_conv_app_nth)
  with assms(2) sum_list_bounds [OF assms(1), of "Suc i" 0] sum_list_bounds(1) [OF assms(1), of i 0]
  show ?thesis by (simp add: covers_def)
qed

lemma Pick_fair:
  assumes ok: "weights_ok L ws" and pos: "0 < sum_list ws"
  shows "\<exists>c > 0. \<forall>i < length ws. card {r. Pick [r] (tree_of L ws) = Some (Inr (int i))} = c * nat (ws ! i)"
proof -
  define n where "n = nat (sum_list ws)"
  have n: "0 < n" "n < 2 ^ 31" "int n = sum_list ws" using ok pos by (simp_all add: n_def weights_ok_def nat_less_iff)
  have len: "length ws \<le> 2 ^ L" and nonneg: "\<forall>w \<in> set ws. 0 \<le> w" using ok by (simp_all add: weights_ok_def)
  from UnbiasedUniform_fair [OF n(1,2)] obtain c where c: "0 < c" "\<And>v. card (draws n v) = (if v < n then c else 0)" by blast
  have below: "v < n" if "r \<in> draws n v" for r v
    using c(2) [of v] that by (cases "v < n") (auto simp: card_eq_0_iff)
  have PickAt: "PickAt (int x) (tree_of L ws) = Inr (int i) \<longleftrightarrow> covers ws i (int x)" if "x < n" for x i
  proof -
    from PickAt_ok [OF ok, of "int x"] n(3) that obtain j where
      "PickAt (int x) (tree_of L ws) = Inr (int j)" "covers ws j (int x)" by auto
    then show ?thesis using covers_unique [OF nonneg, of i "int x" j] by auto
  qed
  have "card {r. Pick [r] (tree_of L ws) = Some (Inr (int i))} = c * nat (ws ! i)" if i: "i < length ws" for i
  proof -
    define C where "C = {x. covers ws i (int x)}"
    have C: "finite C" "x \<in> C \<Longrightarrow> x < n" for x
    proof -
      show lt: "x < n" if "x \<in> C" for x
        using covers_below [OF nonneg, of i "int x"] that n(3) by (simp add: C_def)
      show "finite C" by (rule finite_subset [of _ "{..<n}"]) (auto intro: lt)
    qed
    have "{r. Pick [r] (tree_of L ws) = Some (Inr (int i))} = (\<Union>x \<in> C. draws n x)"
      using pos PickAt below
      by (auto simp: Pick_def total_weight_ok [OF len] n_def [symmetric] UnbiasedUniform_one C_def)
    also have "card \<dots> = (\<Sum>x \<in> C. card (draws n x))"
      using C(1) by (rule card_UN_disjoint) (auto simp: draws_def)
    also have "\<dots> = (\<Sum>x \<in> C. c)" using C(2) c(2) by (intro sum.cong) simp_all
    also have "\<dots> = c * nat (ws ! i)" using card_covers [OF nonneg i] by (simp add: C_def)
    finally show ?thesis .
  qed
  with c(1) show ?thesis by blast
qed

lemma Pick_Cons:
  assumes ok: "weights_ok L ws" and pos: "0 < sum_list ws"
  shows "Pick (r # rs) (tree_of L ws) =
    (case Pick [r] (tree_of L ws) of None \<Rightarrow> Pick rs (tree_of L ws) | Some x \<Rightarrow> Some x)"
  using ok pos total_weight_ok [of ws L] UnbiasedUniform_Cons [of "nat (sum_list ws)" r rs]
  by (auto simp: Pick_def weights_ok_def split: option.split)

end
