(* ===== verification/Numbers.thy ===== *)
theory Numbers
  imports Ctype Faults "HOL-Library.Signed_Division"
begin

text \<open>
  \<open>src/base/strings/numbers.cc\<close>, the integers: the decimal strings of \<open>FastInt...ToBufferLeft\<close>,
  the parsers \<open>safe_strto...\<close>, which reject what does not fit, and the hexadecimal strings of
  64 bits. A \<open>StringPiece\<close> is the characters that are left of it.
\<close>

section \<open>Printing\<close>

text \<open>The digits in the order in which the loop writes them, the lowest first.\<close>

fun digits_of :: "nat \<Rightarrow> string" where
  "digits_of i =
     (let c = char_of (i mod 10 + 48); i = i div 10 in if 0 < i then c # digits_of i else [c])"

declare digits_of.simps [simp del]

text \<open>What is written to the buffer before the terminating NUL.\<close>

definition FastUInt32ToBufferLeft :: "32 word \<Rightarrow> string" where
  "FastUInt32ToBufferLeft i = rev (digits_of (unat i))"

definition FastInt32ToBufferLeft :: "32 word \<Rightarrow> string" where
  "FastInt32ToBufferLeft i =
     (if sint i < 0 then CHR ''-'' # FastUInt32ToBufferLeft (0 - i) else FastUInt32ToBufferLeft i)"

definition FastUInt64ToBufferLeft :: "64 word \<Rightarrow> string" where
  "FastUInt64ToBufferLeft i = rev (digits_of (unat i))"

definition FastInt64ToBufferLeft :: "64 word \<Rightarrow> string" where
  "FastInt64ToBufferLeft i =
     (if sint i < 0 then CHR ''-'' # FastUInt64ToBufferLeft (0 - i) else FastUInt64ToBufferLeft i)"

section \<open>Parsing\<close>

definition SafeFirstChar :: "string \<Rightarrow> char" where
  "SafeFirstChar str = (case str of [] \<Rightarrow> NUL | c # _ \<Rightarrow> c)"

function SkipSpaces :: "string \<Rightarrow> string" where
  "SkipSpaces str = (if isspace (SafeFirstChar str) then SkipSpaces (tl str) else str)"
  by pat_completeness auto

termination
proof (relation "measure length")
  fix str assume "isspace (SafeFirstChar str)"
  then have "str \<noteq> []" by (auto simp: SafeFirstChar_def isspace_def ord_def)
  then show "(tl str, str) \<in> measure length" by simp
qed simp

declare SkipSpaces.simps [simp del]

text \<open>
  The loop over the digits, with what is done for one digit: a new result, or the end of the
  parser. The loop gives the result with what is left of the piece.
\<close>

fun digit_loop :: "(int \<Rightarrow> int \<Rightarrow> fault + int option) \<Rightarrow> int \<Rightarrow> string \<Rightarrow> fault + (int \<times> string) option" where
  "digit_loop step result [] = Inr (Some (result, []))"
| "digit_loop step result (c # str) =
     (if isdigit c then
        and_then (step result (digit_value c)) (\<lambda>r.
          case r of None \<Rightarrow> Inr None | Some result \<Rightarrow> digit_loop step result str)
      else Inr (Some (result, c # str)))"

definition int64_value :: "int \<Rightarrow> fault + int" where
  "int64_value x = (if - (2 ^ 63) \<le> x \<and> x < 2 ^ 63 then Inr x else Inl Signed_overflow)"

text \<open>The division truncates.\<close>

definition step_up :: "int \<Rightarrow> int \<Rightarrow> int \<Rightarrow> fault + int option" where
  "step_up vlimit result digit =
     (if (vlimit - digit) sdiv 10 < result then Inr None
      else and_then (int64_value (result * 10)) (\<lambda>r. and_then (int64_value (r + digit)) (\<lambda>r. Inr (Some r))))"

definition step_down :: "int \<Rightarrow> int \<Rightarrow> int \<Rightarrow> fault + int option" where
  "step_down vlimit result digit =
     (if result < (vlimit + digit) sdiv 10 then Inr None
      else and_then (int64_value (result * 10)) (\<lambda>r. and_then (int64_value (r - digit)) (\<lambda>r. Inr (Some r))))"

definition step_unsigned :: "int \<Rightarrow> int \<Rightarrow> fault + int option" where
  "step_unsigned result digit =
     (if (2 ^ 64 - 1 - digit) div 10 < result then Inr None
      else Inr (Some ((result * 10 + digit) mod 2 ^ 64)))"

definition step_below :: "int \<Rightarrow> int \<Rightarrow> int \<Rightarrow> fault + int option" where
  "step_below vmax result digit =
     and_then (int64_value (result * 10)) (\<lambda>r. and_then (int64_value (r + (digit + 48))) (\<lambda>r.
       let r = r - 48 in if vmax < r then Inr None else Inr (Some r)))"

text \<open>From the first digit on: at least one, then only white space.\<close>

definition parse_digits :: "(int \<Rightarrow> int \<Rightarrow> fault + int option) \<Rightarrow> string \<Rightarrow> fault + int option" where
  "parse_digits step str =
     (if \<not> isdigit (SafeFirstChar str) then Inr None
      else
        and_then (digit_loop step 0 str) (\<lambda>r.
          case r of
            None \<Rightarrow> Inr None
          | Some (result, str) \<Rightarrow> if SkipSpaces str \<noteq> [] then Inr None else Inr (Some result)))"

text \<open>\<open>str.Consume("-")\<close>.\<close>

definition consume_minus :: "string \<Rightarrow> bool \<times> string" where
  "consume_minus str = (if str \<noteq> [] \<and> hd str = CHR ''-'' then (True, tl str) else (False, str))"

definition safe_strto64 :: "string \<Rightarrow> fault + int option" where
  "safe_strto64 str =
     (let (negative, str) = consume_minus (SkipSpaces str) in
      parse_digits (if negative then step_down (- (2 ^ 63)) else step_up (2 ^ 63 - 1)) str)"

definition safe_strtou64 :: "string \<Rightarrow> fault + int option" where
  "safe_strtou64 str = parse_digits step_unsigned (SkipSpaces str)"

definition safe_strto32 :: "string \<Rightarrow> fault + int option" where
  "safe_strto32 str =
     (let (negative, str) = consume_minus (SkipSpaces str);
          vmax = (if negative then 2 ^ 31 - 1 + 1 else 2 ^ 31 - 1); sign = (if negative then - 1 else 1) in
      and_then (parse_digits (step_below vmax) str) (\<lambda>r.
        Inr (map_option (\<lambda>result. signed_take_bit 31 (result * sign)) r)))"

definition safe_strtou32 :: "string \<Rightarrow> fault + int option" where
  "safe_strtou32 str =
     and_then (parse_digits (step_below (2 ^ 32 - 1)) (SkipSpaces str)) (\<lambda>r.
       Inr (map_option (\<lambda>result. result mod 2 ^ 32) r))"

section \<open>Hexadecimal strings\<close>

definition hexdigits :: string where
  "hexdigits = ''0123456789abcdef''"

text \<open>The loop fills the buffer from the end: \<open>n\<close> digits are left to write.\<close>

primrec hex_loop :: "nat \<Rightarrow> 64 word \<Rightarrow> string \<Rightarrow> string" where
  "hex_loop 0 v buf = buf"
| "hex_loop (Suc i) v buf = hex_loop i (drop_bit 4 v) (buf[i := hexdigits ! unat (v AND 0xf)])"

definition Uint64ToHexString :: "64 word \<Rightarrow> string" where
  "Uint64ToHexString v = hex_loop 16 v (replicate 16 NUL)"

fun hex_value :: "64 word \<Rightarrow> string \<Rightarrow> 64 word option" where
  "hex_value v [] = Some v"
| "hex_value v (c # s) =
     (if 48 \<le> ord c \<and> ord c \<le> 57 then hex_value (push_bit 4 v + of_nat (ord c - 48)) s
      else if 97 \<le> ord c \<and> ord c \<le> 102 then hex_value (push_bit 4 v + 10 + of_nat (ord c - 97)) s
      else if 65 \<le> ord c \<and> ord c \<le> 70 then hex_value (push_bit 4 v + 10 + of_nat (ord c - 65)) s
      else None)"

definition HexStringToUint64 :: "string \<Rightarrow> 64 word option" where
  "HexStringToUint64 s = (if s = [] then None else hex_value 0 s)"

end
