(* ===== verification/Str_Util.thy ===== *)
theory Str_Util
  imports Numbers
begin

text \<open>
  \<open>src/base/strings/str_util.h\<close> and \<open>str_util.cc\<close>: escaping, white space, and what is consumed
  from the front of a piece. A \<open>StringPiece\<close> is its characters.
\<close>

section \<open>Escaping\<close>

definition hex_char :: string where
  "hex_char = ''0123456789abcdef''"

definition CEscape_char :: "char \<Rightarrow> string" where
  "CEscape_char c =
     (if c = CHR 0x0A then [CHR 0x5C, CHR ''n'']
      else if c = CHR 0x0D then [CHR 0x5C, CHR ''r'']
      else if c = CHR 0x09 then [CHR 0x5C, CHR ''t'']
      else if c = CHR 0x22 then [CHR 0x5C, CHR 0x22]
      else if c = CHR 0x27 then [CHR 0x5C, CHR 0x27]
      else if c = CHR 0x5C then [CHR 0x5C, CHR 0x5C]
      else if 128 \<le> ord c \<or> \<not> isprint c then
        [CHR 0x5C, hex_char ! (ord c div 64), hex_char ! (ord c mod 64 div 8), hex_char ! (ord c mod 8)]
      else [c])"

definition CEscape :: "string \<Rightarrow> string" where
  "CEscape src = concat (map CEscape_char src)"

definition is_octal_digit :: "char \<Rightarrow> bool" where
  "is_octal_digit c \<longleftrightarrow> 48 \<le> ord c \<and> ord c \<le> 55"

definition ascii_isxdigit :: "char \<Rightarrow> bool" where
  "ascii_isxdigit c \<longleftrightarrow> (48 \<le> ord c \<and> ord c \<le> 57) \<or> (97 \<le> ord c \<and> ord c \<le> 102) \<or> (65 \<le> ord c \<and> ord c \<le> 70)"

definition hex_digit_to_int :: "char \<Rightarrow> nat" where
  "hex_digit_to_int c = (let x = ord c; x = (if 57 < x then x + 9 else x) in x mod 16)"

text \<open>The errors of \<open>CUnescape\<close>, with the text that is quoted in the message.\<close>

datatype unescape_error =
    Ends_with_backslash
  | Ends_with_x
  | X_without_digit
  | Exceeds_0xff string
  | Unknown_escape char

text \<open>
  The octal and the hexadecimal code behind a backslash, as \<open>unsigned int\<close>: the value, the
  characters that were read and those that are left.
\<close>

definition octal_more :: "nat \<times> string \<times> string \<Rightarrow> nat \<times> string \<times> string" where
  "octal_more r =
     (case r of (ch, seen, p) \<Rightarrow>
        (case p of
           [] \<Rightarrow> r
         | c # p \<Rightarrow> if is_octal_digit c then (ch * 8 + ord c - 48, seen @ [c], p) else r))"

definition octal_code :: "char \<Rightarrow> string \<Rightarrow> nat \<times> string \<times> string" where
  "octal_code c p = octal_more (octal_more (ord c - 48, [c], p))"

fun hex_code :: "nat \<Rightarrow> string \<Rightarrow> string \<Rightarrow> nat \<times> string \<times> string" where
  "hex_code ch seen [] = (ch, seen, [])"
| "hex_code ch seen (c # p) =
     (if ascii_isxdigit c then hex_code ((ch * 16 + hex_digit_to_int c) mod 2 ^ 32) (seen @ [c]) p
      else (ch, seen, c # p))"

definition simple_escapes :: "(char \<times> char) list" where
  "simple_escapes =
     [(CHR ''a'', CHR 0x07), (CHR ''b'', CHR 0x08), (CHR ''f'', CHR 0x0C), (CHR ''n'', CHR 0x0A),
      (CHR ''r'', CHR 0x0D), (CHR ''t'', CHR 0x09), (CHR ''v'', CHR 0x0B), (CHR 0x5C, CHR 0x5C),
      (CHR ''?'', CHR ''?''), (CHR 0x27, CHR 0x27), (CHR 0x22, CHR 0x22)]"

text \<open>One escape, from the character behind the backslash: the byte, and what is left.\<close>

definition unescape_one :: "char \<Rightarrow> string \<Rightarrow> unescape_error + char \<times> string" where
  "unescape_one c p =
     (case map_of simple_escapes c of
        Some d \<Rightarrow> Inr (d, p)
      | None \<Rightarrow>
          if is_octal_digit c then
            (case octal_code c p of (ch, seen, p) \<Rightarrow>
               if 255 < ch then Inl (Exceeds_0xff seen) else Inr (char_of ch, p))
          else if c = CHR ''x'' \<or> c = CHR ''X'' then
            (case p of
               [] \<Rightarrow> Inl Ends_with_x
             | d # _ \<Rightarrow>
                 if \<not> ascii_isxdigit d then Inl X_without_digit
                 else
                   (case hex_code 0 [c] p of (ch, seen, p) \<Rightarrow>
                      if 255 < ch then Inl (Exceeds_0xff seen) else Inr (char_of ch, p)))
          else Inl (Unknown_escape c))"

lemma length_octal_more: "length (snd (snd (octal_more r))) \<le> length (snd (snd r))"
  by (cases r) (auto simp: octal_more_def split: list.split)

lemma length_hex_code: "length (snd (snd (hex_code ch seen p))) \<le> length p"
  by (induction ch seen p rule: hex_code.induct) (auto intro: le_SucI)

lemma length_unescape_one: "unescape_one c p = Inr (d, q) \<Longrightarrow> length q \<le> length p"
  using length_hex_code [of 0 "[c]" p] length_octal_more [of "(ord c - 48, [c], p)"]
    length_octal_more [of "octal_more (ord c - 48, [c], p)"]
  by (auto simp: unescape_one_def octal_code_def split: option.splits prod.splits list.splits if_splits)

text \<open>The source and the destination are different buffers.\<close>

function CUnescapeInternal :: "string \<Rightarrow> unescape_error + string" where
  "CUnescapeInternal source =
     (case source of
        [] \<Rightarrow> Inr []
      | c # p \<Rightarrow>
          if c \<noteq> CHR 0x5C then
            (case CUnescapeInternal p of Inl e \<Rightarrow> Inl e | Inr d \<Rightarrow> Inr (c # d))
          else
            (case p of
               [] \<Rightarrow> Inl Ends_with_backslash
             | c # p \<Rightarrow>
                 (case unescape_one c p of
                    Inl e \<Rightarrow> Inl e
                  | Inr (b, q) \<Rightarrow> (case CUnescapeInternal q of Inl e \<Rightarrow> Inl e | Inr d \<Rightarrow> Inr (b # d)))))"
  by pat_completeness auto

termination
  by (relation "measure length") (auto dest!: length_unescape_one)

declare CUnescapeInternal.simps [simp del]

definition CUnescape :: "string \<Rightarrow> unescape_error + string" where
  "CUnescape source = CUnescapeInternal source"

section \<open>White space and case\<close>

function strip_trailing :: "string \<Rightarrow> nat \<Rightarrow> nat" where
  "strip_trailing s i = (if 0 < i \<and> isspace (s ! (i - 1)) then strip_trailing s (i - 1) else i)"
  by pat_completeness auto

termination
  by (relation "measure snd") auto

declare strip_trailing.simps [simp del]

definition StripTrailingWhitespace :: "string \<Rightarrow> string" where
  "StripTrailingWhitespace s = take (strip_trailing s (length s)) s"

definition Lowercase :: "string \<Rightarrow> string" where
  "Lowercase s = map tolower s"

definition Uppercase :: "string \<Rightarrow> string" where
  "Uppercase s = map toupper s"

primrec titlecase_from :: "string \<Rightarrow> bool \<Rightarrow> string \<Rightarrow> string" where
  "titlecase_from delimiters upper [] = []"
| "titlecase_from delimiters upper (c # s) =
     (let c = (if upper then toupper c else c) in c # titlecase_from delimiters (c \<in> set delimiters) s)"

definition TitlecaseString :: "string \<Rightarrow> string \<Rightarrow> string" where
  "TitlecaseString s delimiters = titlecase_from delimiters True s"

text \<open>The number of characters that are removed, with what is left.\<close>

function leading_spaces :: "string \<Rightarrow> nat \<Rightarrow> nat" where
  "leading_spaces t count =
     (if count < length t \<and> isspace (t ! count) then leading_spaces t (count + 1) else count)"
  by pat_completeness auto

termination
  by (relation "measure (\<lambda>(t, count). length t - count)") auto

declare leading_spaces.simps [simp del]

definition RemoveLeadingWhitespace :: "string \<Rightarrow> nat \<times> string" where
  "RemoveLeadingWhitespace t = (let count = leading_spaces t 0 in (count, drop count t))"

function trailing_spaces :: "string \<Rightarrow> nat \<Rightarrow> nat" where
  "trailing_spaces t count =
     (if count < length t \<and> isspace (t ! (length t - 1 - count)) then trailing_spaces t (count + 1) else count)"
  by pat_completeness auto

termination
  by (relation "measure (\<lambda>(t, count). length t - count)") auto

declare trailing_spaces.simps [simp del]

definition RemoveTrailingWhitespace :: "string \<Rightarrow> nat \<times> string" where
  "RemoveTrailingWhitespace t = (let count = trailing_spaces t 0 in (count, take (length t - count) t))"

definition RemoveWhitespaceContext :: "string \<Rightarrow> nat \<times> string" where
  "RemoveWhitespaceContext t =
     (let (m, t) = RemoveLeadingWhitespace t; (n, t) = RemoveTrailingWhitespace t in (m + n, t))"

section \<open>Consuming\<close>

definition ConsumePrefix :: "string \<Rightarrow> string \<Rightarrow> bool \<times> string" where
  "ConsumePrefix s expected =
     (if take (length expected) s = expected then (True, drop (length expected) s) else (False, s))"

definition ConsumeSuffix :: "string \<Rightarrow> string \<Rightarrow> bool \<times> string" where
  "ConsumeSuffix s expected =
     (if length expected \<le> length s \<and> drop (length s - length expected) s = expected
      then (True, take (length s - length expected) s) else (False, s))"

text \<open>The loop of \<open>ConsumeLeadingDigits\<close>: the value and the digits read, or an overflow.\<close>

fun leading_digits :: "64 word \<Rightarrow> nat \<Rightarrow> string \<Rightarrow> (64 word \<times> nat) option" where
  "leading_digits v n [] = Some (v, n)"
| "leading_digits v n (c # p) =
     (if ord c < 48 \<or> 57 < ord c then Some (v, n)
      else
        let new_v = v * 10 + of_nat (ord c - 48) in
        if new_v div 8 < v then None else leading_digits new_v (n + 1) p)"

definition ConsumeLeadingDigits :: "string \<Rightarrow> (64 word \<times> string) option" where
  "ConsumeLeadingDigits s =
     (case leading_digits 0 0 s of
        None \<Rightarrow> None
      | Some (v, n) \<Rightarrow> if 0 < n then Some (v, drop n s) else None)"

function non_spaces :: "string \<Rightarrow> nat \<Rightarrow> nat" where
  "non_spaces s n = (if n < length s \<and> \<not> isspace (s ! n) then non_spaces s (n + 1) else n)"
  by pat_completeness auto

termination
  by (relation "measure (\<lambda>(s, n). length s - n)") auto

declare non_spaces.simps [simp del]

definition ConsumeNonWhitespace :: "string \<Rightarrow> bool \<times> string \<times> string" where
  "ConsumeNonWhitespace s =
     (let n = non_spaces s 0 in if 0 < n then (True, take n s, drop n s) else (False, [], s))"

section \<open>Splitting and joining\<close>

text \<open>The loop over the positions up to the end: the current token and the rest.\<close>

primrec split_from :: "(string \<Rightarrow> bool) \<Rightarrow> char \<Rightarrow> string \<Rightarrow> string \<Rightarrow> string list" where
  "split_from p delim token [] = (if p token then [token] else [])"
| "split_from p delim token (c # s) =
     (if c = delim then (if p token then [token] else []) @ split_from p delim [] s
      else split_from p delim (token @ [c]) s)"

definition Split :: "string \<Rightarrow> char \<Rightarrow> (string \<Rightarrow> bool) \<Rightarrow> string list" where
  "Split t delim p = (if t = [] then [] else split_from p delim [] t)"

primrec join_from :: "bool \<Rightarrow> string \<Rightarrow> string list \<Rightarrow> string" where
  "join_from fst' sep [] = []"
| "join_from fst' sep (x # xs) = (if fst' then [] else sep) @ x @ join_from False sep xs"

definition Join :: "string list \<Rightarrow> string \<Rightarrow> string" where
  "Join s sep = join_from True sep s"

text \<open>\<open>SplitAndParseAsInts\<close>: what \<open>safe_strto32\<close> does to each part.\<close>

primrec parse_parts :: "string list \<Rightarrow> fault + int list option" where
  "parse_parts [] = Inr (Some [])"
| "parse_parts (s # ss) =
     and_then (safe_strto32 s) (\<lambda>num.
       case num of
         None \<Rightarrow> Inr None
       | Some n \<Rightarrow> and_then (parse_parts ss) (\<lambda>r. Inr (map_option (\<lambda>ns. n # ns) r)))"

definition SplitAndParseAsInts :: "string \<Rightarrow> char \<Rightarrow> fault + int list option" where
  "SplitAndParseAsInts t delim = parse_parts (Split t delim (\<lambda>_. True))"

end
