(* ===== verification/Numbers_Laws.thy ===== *)
theory Numbers_Laws
  imports Numbers
begin

text \<open>
  What the parsers of integers accept, against a reference that computes with unbounded
  integers and tests the range once, at the end.
\<close>

section \<open>The reference\<close>

definition decimal_from :: "int \<Rightarrow> string \<Rightarrow> int" where
  "decimal_from = foldl (\<lambda>v c. v * 10 + digit_value c)"

definition read_digits :: "string \<Rightarrow> int option" where
  "read_digits str =
     (if takeWhile isdigit str = [] \<or> dropWhile isspace (dropWhile isdigit str) \<noteq> [] then None
      else Some (decimal_from 0 (takeWhile isdigit str)))"

definition read_unsigned :: "string \<Rightarrow> int option" where
  "read_unsigned str = read_digits (dropWhile isspace str)"

definition read_integer :: "string \<Rightarrow> int option" where
  "read_integer str =
     (case dropWhile isspace str of
        [] \<Rightarrow> None
      | c # cs \<Rightarrow> if c = CHR ''-'' then map_option uminus (read_digits cs) else read_digits (c # cs))"

definition in_range :: "int \<Rightarrow> int \<Rightarrow> int option \<Rightarrow> int option" where
  "in_range lo hi r = (case r of None \<Rightarrow> None | Some v \<Rightarrow> if lo \<le> v \<and> v \<le> hi then Some v else None)"

section \<open>The loop over the digits\<close>

lemma SkipSpaces_eq: "SkipSpaces str = dropWhile isspace str"
proof (induction str)
  case (Cons c str)
  then show ?case by (subst SkipSpaces.simps) (simp add: SafeFirstChar_def)
qed (subst SkipSpaces.simps, simp add: SafeFirstChar_def isspace_def ord_def)

lemma decimal_simps [simp]: "decimal_from v [] = v" "decimal_from v (c # cs) = decimal_from (v * 10 + digit_value c) cs"
  by (simp_all add: decimal_from_def)

lemma decimal_mono: "\<forall>c \<in> set cs. isdigit c \<Longrightarrow> 0 \<le> v \<Longrightarrow> v \<le> decimal_from v cs"
proof (induction cs arbitrary: v)
  case (Cons c cs)
  then have "v * 10 + digit_value c \<le> decimal_from (v * 10 + digit_value c) cs" "0 \<le> digit_value c"
    using digit_value_bounds [of c] by auto
  with Cons.prems show ?case by simp
qed simp

text \<open>
  What the parsers need of a step: up to a limit it goes from a result to the next one, of the
  sign of the number, and it stops where the limit would be passed.
\<close>

locale bounded_step =
  fixes step :: "int \<Rightarrow> int \<Rightarrow> fault + int option" and sign limit :: int
  assumes nonneg: "0 \<le> limit"
    and step: "0 \<le> v \<Longrightarrow> v \<le> limit \<Longrightarrow> 0 \<le> d \<Longrightarrow> d \<le> 9 \<Longrightarrow>
      step (sign * v) d = Inr (if v * 10 + d \<le> limit then Some (sign * (v * 10 + d)) else None)"
begin

lemma loop:
  "0 \<le> v \<Longrightarrow> v \<le> limit \<Longrightarrow>
    digit_loop step (sign * v) str =
      Inr (if decimal_from v (takeWhile isdigit str) \<le> limit
           then Some (sign * decimal_from v (takeWhile isdigit str), dropWhile isdigit str) else None)"
proof (induction str arbitrary: v)
  case (Cons c str)
  show ?case
  proof (cases "isdigit c")
    case True
    define w where "w = v * 10 + digit_value c"
    have d: "0 \<le> digit_value c" "digit_value c \<le> 9" using digit_value_bounds [OF True] by simp_all
    have s: "step (sign * v) (digit_value c) = Inr (if w \<le> limit then Some (sign * w) else None)"
      using step [OF Cons.prems d] by (simp add: w_def)
    show ?thesis
    proof (cases "w \<le> limit")
      case False
      have "w \<le> decimal_from w (takeWhile isdigit str)"
        using d Cons.prems by (intro decimal_mono) (auto simp: w_def dest: set_takeWhileD)
      with False True s show ?thesis by (simp add: w_def)
    next
      case le: True
      have "0 \<le> w" using d Cons.prems by (simp add: w_def)
      with Cons.IH [OF this le] True s le show ?thesis by (simp add: w_def)
    qed
  qed (use Cons.prems in simp)
qed simp

lemma parse:
  "parse_digits step str = Inr (map_option ((*) sign) (in_range 0 limit (read_digits str)))"
proof (cases str)
  case Nil
  then show ?thesis by (simp add: parse_digits_def SafeFirstChar_def read_digits_def in_range_def isdigit_def ord_def)
next
  case (Cons c cs)
  have "0 \<le> decimal_from 0 (takeWhile isdigit str)" by (rule decimal_mono) (auto dest: set_takeWhileD)
  then show ?thesis
    using loop [of 0 str] nonneg Cons
    by (auto simp: parse_digits_def SafeFirstChar_def read_digits_def in_range_def SkipSpaces_eq
        simp del: digit_loop.simps)
qed

end

interpretation up64: bounded_step "step_up (2 ^ 63 - 1)" 1 "2 ^ 63 - 1"
proof unfold_locales
  fix v d :: int assume "0 \<le> v" "v \<le> 2 ^ 63 - 1" "0 \<le> d" "d \<le> 9"
  moreover from this have "(2 ^ 63 - 1 - d) sdiv 10 = (2 ^ 63 - 1 - d) div 10" by (simp add: signed_divide_int_def)
  moreover from calculation have "(2 ^ 63 - 1 - d) div 10 < v \<longleftrightarrow> \<not> v * 10 + d \<le> 2 ^ 63 - 1" by linarith
  ultimately show "step_up (2 ^ 63 - 1) (1 * v) d =
      Inr (if v * 10 + d \<le> 2 ^ 63 - 1 then Some (1 * (v * 10 + d)) else None)"
    by (simp add: step_up_def int64_value_def)
qed simp

interpretation down64: bounded_step "step_down (- (2 ^ 63))" "- 1" "2 ^ 63"
proof unfold_locales
  fix v d :: int assume "0 \<le> v" "v \<le> 2 ^ 63" "0 \<le> d" "d \<le> 9"
  moreover from this have "(- (2 ^ 63) + d) sdiv 10 = - ((2 ^ 63 - d) div 10)" by (simp add: signed_divide_int_def)
  moreover from calculation have "- v < - ((2 ^ 63 - d) div 10) \<longleftrightarrow> \<not> v * 10 + d \<le> 2 ^ 63" by linarith
  ultimately show "step_down (- (2 ^ 63)) (- 1 * v) d =
      Inr (if v * 10 + d \<le> 2 ^ 63 then Some (- 1 * (v * 10 + d)) else None)"
    by (simp add: step_down_def int64_value_def)
qed simp

interpretation unsigned64: bounded_step step_unsigned 1 "2 ^ 64 - 1"
proof unfold_locales
  fix v d :: int assume "0 \<le> v" "v \<le> 2 ^ 64 - 1" "0 \<le> d" "d \<le> 9"
  moreover from this have "(2 ^ 64 - 1 - d) div 10 < v \<longleftrightarrow> \<not> v * 10 + d \<le> 2 ^ 64 - 1" by linarith
  ultimately show "step_unsigned (1 * v) d = Inr (if v * 10 + d \<le> 2 ^ 64 - 1 then Some (1 * (v * 10 + d)) else None)"
    by (simp add: step_unsigned_def)
qed simp

lemma step_below_ok: "0 \<le> m \<Longrightarrow> m < 2 ^ 32 \<Longrightarrow> bounded_step (step_below m) 1 m"
  by unfold_locales (auto simp: step_below_def int64_value_def)

interpretation below31: bounded_step "step_below (2 ^ 31 - 1)" 1 "2 ^ 31 - 1"
  by (rule step_below_ok) simp_all

interpretation upto31: bounded_step "step_below (2 ^ 31)" 1 "2 ^ 31"
  by (rule step_below_ok) simp_all

interpretation below32: bounded_step "step_below (2 ^ 32 - 1)" 1 "2 ^ 32 - 1"
  by (rule step_below_ok) simp_all

section \<open>The parsers\<close>

lemma read_digits_nonneg: "read_digits str = Some v \<Longrightarrow> 0 \<le> v"
  by (auto simp: read_digits_def split: if_splits intro!: decimal_mono dest: set_takeWhileD)

lemma in_range_simps [simp]: "in_range lo hi None = None"
  "in_range lo hi (Some v) = (if lo \<le> v \<and> v \<le> hi then Some v else None)"
  by (simp_all add: in_range_def)

lemmas parses = up64.parse [simplified] down64.parse [simplified] unsigned64.parse [simplified]
  below31.parse [simplified] upto31.parse [simplified] below32.parse [simplified]

lemma safe_strtou64_eq: "safe_strtou64 str = Inr (in_range 0 (2 ^ 64 - 1) (read_unsigned str))"
  by (cases "read_digits (dropWhile isspace str)")
    (simp_all add: safe_strtou64_def SkipSpaces_eq read_unsigned_def parses)

lemma safe_strtou32_eq: "safe_strtou32 str = Inr (in_range 0 (2 ^ 32 - 1) (read_unsigned str))"
  by (cases "read_digits (dropWhile isspace str)")
    (simp_all add: safe_strtou32_def SkipSpaces_eq read_unsigned_def parses)

lemma not_minus: "c \<noteq> CHR ''-'' \<Longrightarrow> consume_minus (c # cs) = (False, c # cs)" "consume_minus [] = (False, [])"
  "consume_minus (CHR ''-'' # cs) = (True, cs)"
  by (simp_all add: consume_minus_def)

lemma read_digits_Nil [simp]: "read_digits [] = None"
  by (simp add: read_digits_def)

lemma safe_strto64_eq: "safe_strto64 str = Inr (in_range (- (2 ^ 63)) (2 ^ 63 - 1) (read_integer str))"
proof (cases "dropWhile isspace str")
  case Nil
  show ?thesis by (simp add: Nil safe_strto64_def SkipSpaces_eq not_minus read_integer_def parses)
next
  case (Cons c cs)
  show ?thesis
  proof (cases "c = CHR ''-''")
    case True
    with Cons show ?thesis
      by (cases "read_digits cs")
        (auto simp: safe_strto64_def SkipSpaces_eq not_minus read_integer_def parses dest: read_digits_nonneg)
  next
    case False
    with Cons show ?thesis
      by (cases "read_digits (c # cs)")
        (auto simp: safe_strto64_def SkipSpaces_eq not_minus read_integer_def parses dest: read_digits_nonneg)
  qed
qed

lemma int32_value: "- (2 ^ 31) \<le> v \<Longrightarrow> v < 2 ^ 31 \<Longrightarrow> signed_take_bit 31 v = (v :: int)"
  by (intro signed_take_bit_int_eq_self) simp_all

lemma safe_strto32_eq: "safe_strto32 str = Inr (in_range (- (2 ^ 31)) (2 ^ 31 - 1) (read_integer str))"
proof (cases "dropWhile isspace str")
  case Nil
  show ?thesis by (simp add: Nil safe_strto32_def SkipSpaces_eq not_minus read_integer_def parses)
next
  case (Cons c cs)
  show ?thesis
  proof (cases "c = CHR ''-''")
    case True
    with Cons show ?thesis
      using int32_value
      by (cases "read_digits cs")
        (auto simp: safe_strto32_def SkipSpaces_eq not_minus read_integer_def parses dest: read_digits_nonneg)
  next
    case False
    with Cons show ?thesis
      using int32_value
      by (cases "read_digits (c # cs)")
        (auto simp: safe_strto32_def SkipSpaces_eq not_minus read_integer_def parses dest: read_digits_nonneg)
  qed
qed

section \<open>What is printed can be read\<close>

lemma decimal_append: "decimal_from v (xs @ [c]) = decimal_from v xs * 10 + digit_value c"
  by (simp add: decimal_from_def)

lemma digit_char: "isdigit (char_of (n mod 10 + 48))" "digit_value (char_of (n mod 10 + 48)) = int n mod 10"
proof -
  have "n mod 10 < 10" by simp
  then have small: "n mod 10 + 48 < 256" by linarith
  show "isdigit (char_of (n mod 10 + 48))" using \<open>n mod 10 < 10\<close> by (simp add: isdigit_def small)
  show "digit_value (char_of (n mod 10 + 48)) = int n mod 10" by (simp add: digit_value_def small zmod_int)
qed

lemma digits_of_ok: "(\<forall>c \<in> set (digits_of n). isdigit c) \<and> digits_of n \<noteq> [] \<and> decimal_from 0 (rev (digits_of n)) = int n"
proof (induction n rule: less_induct)
  case (less n)
  show ?case
  proof (cases "0 < n div 10")
    case True
    then have "n div 10 < n" by (simp add: div_less_dividend)
    from less [OF this] have IH: "\<forall>c \<in> set (digits_of (n div 10)). isdigit c"
      "decimal_from 0 (rev (digits_of (n div 10))) = int (n div 10)" by simp_all
    have "digits_of n = char_of (n mod 10 + 48) # digits_of (n div 10)"
      using True by (subst digits_of.simps) (simp only: Let_def if_True)
    with IH digit_char [of n] show ?thesis
      by (simp only: rev.simps decimal_append) (simp add: zdiv_int)
  next
    case False
    then have "n mod 10 = n" by simp
    moreover have "digits_of n = [char_of (n mod 10 + 48)]"
      using False by (subst digits_of.simps) (simp only: Let_def if_False)
    ultimately show ?thesis using digit_char [of n] by (simp add: decimal_from_def)
  qed
qed

lemma read_digits_printed: "read_digits (rev (digits_of n)) = Some (int n)"
proof -
  have tw: "takeWhile isdigit (rev (digits_of n)) = rev (digits_of n)" "dropWhile isdigit (rev (digits_of n)) = []"
    using digits_of_ok [of n] by (simp_all add: takeWhile_eq_all_conv)
  show ?thesis unfolding read_digits_def tw using digits_of_ok [of n] by simp
qed

lemma dropWhile_digits: "ds \<noteq> [] \<Longrightarrow> \<forall>c \<in> set ds. isdigit c \<Longrightarrow> dropWhile isspace ds = ds"
  by (cases ds) (simp_all add: digit_not_space)

lemma read_printed:
  "read_unsigned (rev (digits_of n)) = Some (int n)" "read_integer (rev (digits_of n)) = Some (int n)"
  "read_integer (CHR ''-'' # rev (digits_of n)) = Some (- int n)"
proof -
  have ds: "dropWhile isspace (rev (digits_of n)) = rev (digits_of n)"
    using digits_of_ok [of n] by (intro dropWhile_digits) simp_all
  show "read_unsigned (rev (digits_of n)) = Some (int n)"
    unfolding read_unsigned_def ds by (rule read_digits_printed)
  obtain c cs where c: "rev (digits_of n) = c # cs" using digits_of_ok [of n] by (cases "rev (digits_of n)") auto
  have "c \<in> set (rev (digits_of n))" unfolding c by simp
  then have "isdigit c" using digits_of_ok [of n] by simp
  then have "c \<noteq> CHR ''-''" by (auto simp: isdigit_def ord_def)
  then show "read_integer (rev (digits_of n)) = Some (int n)"
    using read_digits_printed [of n] digit_not_space [OF \<open>isdigit c\<close>] unfolding read_integer_def ds c by simp
  have "\<not> isspace (CHR ''-'')" by (simp add: isspace_def ord_def)
  then show "read_integer (CHR ''-'' # rev (digits_of n)) = Some (- int n)"
    by (simp add: read_integer_def read_digits_printed)
qed

lemma uint_from_sint: "uint (i :: 'a :: len word) = (if sint i < 0 then sint i + 2 ^ LENGTH('a) else sint i)"
proof -
  define m where "m = (2 :: int) ^ LENGTH('a)"
  have half: "(2 :: int) ^ (LENGTH('a) - 1) \<le> m" unfolding m_def by (intro power_increasing) simp_all
  have bounds: "- m \<le> sint i" "sint i < m" using sint_ge [of i] sint_lt [of i] half by simp_all
  have "uint i = sint i mod m" by (simp add: uint_sint take_bit_eq_mod m_def)
  also have "\<dots> = (if sint i < 0 then sint i + m else sint i)"
  proof (cases "sint i < 0")
    case True
    have "sint i mod m = (sint i + m) mod m" by simp
    also have "\<dots> = sint i + m" using True bounds by (intro mod_pos_pos_trivial) simp_all
    finally show ?thesis using True by simp
  next
    case False
    then show ?thesis using bounds by (simp add: mod_pos_pos_trivial)
  qed
  finally show ?thesis by (simp add: m_def)
qed

lemma nonneg_sint: "0 \<le> sint (i :: 'a :: len word) \<Longrightarrow> int (unat i) = sint i"
  using uint_from_sint [of i] by simp

lemma negated: "sint (i :: 'a :: len word) < 0 \<Longrightarrow> int (unat (0 - i)) = - sint i"
proof -
  assume neg: "sint i < 0"
  have "uint (0 - i) = (- uint i) mod 2 ^ LENGTH('a)" by (simp add: uint_word_ariths)
  also have "- uint i = - sint i + (- 1) * 2 ^ LENGTH('a)" using uint_from_sint [of i] neg by simp
  also have "\<dots> mod 2 ^ LENGTH('a) = (- sint i) mod 2 ^ LENGTH('a)" by (rule mod_mult_self1)
  also have "\<dots> = - sint i"
  proof (rule mod_pos_pos_trivial)
    have "sint i + 2 ^ LENGTH('a) \<noteq> 0"
    proof
      assume "sint i + 2 ^ LENGTH('a) = 0"
      with uint_from_sint [of i] neg have "i = 0" by (simp add: unsigned_eq_0_iff)
      with neg show False by simp
    qed
    moreover have "0 \<le> sint i + 2 ^ LENGTH('a)" using uint_from_sint [of i] neg uint_ge_0 [of i] by simp
    ultimately show "- sint i < 2 ^ LENGTH('a)" by linarith
  qed (use neg in simp)
  finally show ?thesis by simp
qed

section \<open>Hexadecimal strings\<close>

definition hex_digit :: "nat \<Rightarrow> nat \<Rightarrow> char" where
  "hex_digit v k = hexdigits ! (v div 16 ^ k mod 16)"

lemma low_nibble: "unat (v AND 0xf :: 64 word) = unat v mod 16"
proof -
  have "(0xf :: 64 word) = mask 4" by (simp add: mask_eq_exp_minus_1)
  then have "v AND 0xf = take_bit 4 v" by (simp add: take_bit_eq_mask)
  then show ?thesis by (simp add: take_bit_eq_mod unat_mod)
qed

lemma unat_drop4: "unat (drop_bit 4 v :: 64 word) = unat v div 16"
  by (simp add: drop_bit_eq_div unat_div)

lemma hex_loop_eq: "n \<le> length buf \<Longrightarrow> hex_loop n v buf = map (\<lambda>i. hex_digit (unat v) (n - 1 - i)) [0..<n] @ drop n buf"
proof (induction n arbitrary: v buf)
  case (Suc n)
  have "hex_digit (unat v div 16) (n - 1 - i) = hex_digit (unat v) (n - i)" if "i < n" for i
  proof -
    have "n - i = Suc (n - 1 - i)" using that by simp
    then show ?thesis unfolding hex_digit_def by (simp add: div_mult2_eq)
  qed
  then have m: "map (\<lambda>i. hex_digit (unat v div 16) (n - 1 - i)) [0..<n] = map (\<lambda>i. hex_digit (unat v) (n - i)) [0..<n]"
    by simp
  have "drop n (buf[n := c]) = c # drop (Suc n) buf" for c
    using Suc.prems by (simp add: drop_update_swap Cons_nth_drop_Suc [symmetric])
  moreover have "hexdigits ! unat (v AND 0xf) = hex_digit (unat v) 0" by (simp only: low_nibble hex_digit_def power_0 div_by_1)
  ultimately show ?case
    using Suc.IH [of "buf[n := hexdigits ! unat (v AND 0xf)]" "drop_bit 4 v"] Suc.prems m by (simp add: unat_drop4 del: drop_bit_numeral_bit1)
qed simp

lemma hex_value_digit: "k < 16 \<Longrightarrow> hex_value v (hexdigits ! k # s) = hex_value (push_bit 4 v + of_nat k) s"
proof -
  assume "k < 16"
  then have "k \<in> {0, 1, 2, 3, 4, 5, 6, 7, 8, 9, 10, 11, 12, 13, 14, 15}" by simp presburger
  then show ?thesis by (elim insertE emptyE) (simp_all add: hexdigits_def ord_def add.commute)
qed

lemma hex_value_digits:
  "hex_value w (map (\<lambda>i. hex_digit v (n - 1 - i)) [0..<n]) = Some (w * 16 ^ n + of_nat (v mod 16 ^ n))"
proof (induction n arbitrary: w)
  case (Suc n)
  define d where "d = v div 16 ^ n mod 16"
  have split': "v mod 16 ^ Suc n = 16 ^ n * d + v mod 16 ^ n" by (simp add: mod_mult2_eq d_def power_Suc2 del: power_Suc)
  have rest: "map (\<lambda>i. hex_digit v (Suc n - 1 - i)) [1..<Suc n] = map (\<lambda>i. hex_digit v (n - 1 - i)) [0..<n]"
    by (rule nth_equalityI) (simp_all del: upt_Suc)
  have "map (\<lambda>i. hex_digit v (Suc n - 1 - i)) [0..<Suc n] = hexdigits ! d # map (\<lambda>i. hex_digit v (n - 1 - i)) [0..<n]"
    using rest by (simp add: upt_conv_Cons hex_digit_def d_def del: upt_Suc)
  then have "hex_value w (map (\<lambda>i. hex_digit v (Suc n - 1 - i)) [0..<Suc n]) =
      Some ((push_bit 4 w + of_nat d) * 16 ^ n + of_nat (v mod 16 ^ n))"
    using Suc.IH hex_value_digit [of d] by (simp add: d_def)
  also have "(push_bit 4 w + of_nat d) * 16 ^ n + of_nat (v mod 16 ^ n) = w * 16 ^ Suc n + of_nat (v mod 16 ^ Suc n)"
    unfolding split' by (simp add: push_bit_eq_mult algebra_simps)
  finally show ?case .
qed simp

lemma hex_roundtrip: "HexStringToUint64 (Uint64ToHexString v) = Some v" "length (Uint64ToHexString v) = 16"
proof -
  have eq: "Uint64ToHexString v = map (\<lambda>i. hex_digit (unat v) (16 - 1 - i)) [0..<16]"
    using hex_loop_eq [of 16 "replicate 16 NUL" v] by (simp add: Uint64ToHexString_def)
  show len: "length (Uint64ToHexString v) = 16" by (simp add: eq)
  have "unat v < 16 ^ 16" using unsigned_less [where 'a = nat, of v] by simp
  then have "hex_value 0 (Uint64ToHexString v) = Some v" unfolding eq hex_value_digits by simp
  with len show "HexStringToUint64 (Uint64ToHexString v) = Some v" by (auto simp: HexStringToUint64_def)
qed

end
