(* ===== verification/Str_Util_Laws.thy ===== *)
theory Str_Util_Laws
  imports Str_Util Numbers_Laws
begin

text \<open>What is escaped is read back, and what the functions that consume accept.\<close>

section \<open>Escaping\<close>

lemma hex_char_nth: "k < 8 \<Longrightarrow> ord (hex_char ! k) = 48 + k"
proof -
  assume "k < 8"
  then have "k \<in> {0, 1, 2, 3, 4, 5, 6, 7}" by simp presburger
  then show ?thesis by (elim insertE emptyE) (simp_all add: hex_char_def ord_def)
qed

lemma octal_digits:
  assumes "a < 4" "b < 8" "c < 8"
  shows "octal_code (hex_char ! a) (hex_char ! b # hex_char ! c # s) =
    (a * 64 + b * 8 + c, [hex_char ! a, hex_char ! b, hex_char ! c], s)"
proof -
  have "is_octal_digit (hex_char ! b)" "is_octal_digit (hex_char ! c)"
    using assms by (simp_all add: is_octal_digit_def hex_char_nth)
  then show ?thesis using assms by (simp add: octal_code_def octal_more_def hex_char_nth)
qed

lemma simple_printable: "map_of simple_escapes c = Some d \<Longrightarrow> isprint c \<and> \<not> is_octal_digit c"
proof -
  assume "map_of simple_escapes c = Some d"
  then have "(c, d) \<in> set simple_escapes" by (rule map_of_SomeD)
  then show ?thesis unfolding simple_escapes_def
    by (simp only: list.set) (elim insertE emptyE, simp_all add: isprint_def is_octal_digit_def ord_def)
qed

lemma octal_value: "n div 64 * 64 + n mod 64 div 8 * 8 + n mod 8 = (n :: nat)"
proof -
  have "n mod 64 mod 8 = n mod 8" by (rule mod_mod_cancel) simp
  then show ?thesis using div_mult_mod_eq [of n 64] div_mult_mod_eq [of "n mod 64" 8] by linarith
qed

lemma octal_bounds: "ord c div 64 < 4" "ord c mod 64 div 8 < 8" "ord c mod 8 < 8"
  using ord_less [of c] by linarith+

lemma unescape_octal:
  "unescape_one (hex_char ! (ord c div 64)) (hex_char ! (ord c mod 64 div 8) # hex_char ! (ord c mod 8) # s) = Inr (c, s)"
proof -
  have "is_octal_digit (hex_char ! (ord c div 64))" using octal_bounds(1) [of c] by (simp add: is_octal_digit_def hex_char_nth)
  moreover from this have "map_of simple_escapes (hex_char ! (ord c div 64)) = None"
    using simple_printable by (cases "map_of simple_escapes (hex_char ! (ord c div 64))") auto
  moreover have "\<not> 255 < ord c" using ord_less [of c] by simp
  ultimately show ?thesis
    using octal_digits [OF octal_bounds, of c c c s] octal_value [of "ord c"] by (simp add: unescape_one_def ord_def)
qed

text \<open>The three ways in which a character is escaped.\<close>

lemma CEscape_char_cases:
  obtains (simple) x where "CEscape_char c = [CHR 0x5C, x]" "map_of simple_escapes x = Some c"
  | (code) "CEscape_char c = [CHR 0x5C, hex_char ! (ord c div 64), hex_char ! (ord c mod 64 div 8), hex_char ! (ord c mod 8)]"
  | (same) "c \<noteq> CHR 0x5C" "CEscape_char c = [c]" "isprint c"
proof -
  consider "c = CHR 0x0A" | "c = CHR 0x0D" | "c = CHR 0x09" | "c = CHR 0x22" | "c = CHR 0x27" | "c = CHR 0x5C"
    | (other) "c \<notin> {CHR 0x0A, CHR 0x0D, CHR 0x09, CHR 0x22, CHR 0x27, CHR 0x5C}" by blast
  then show ?thesis
  proof cases
    case other
    then have "CEscape_char c = (if 128 \<le> ord c \<or> \<not> isprint c then
        [CHR 0x5C, hex_char ! (ord c div 64), hex_char ! (ord c mod 64 div 8), hex_char ! (ord c mod 8)] else [c])"
      unfolding CEscape_char_def by (simp only: insert_iff empty_iff de_Morgan_disj if_False not_False_eq_True)
    with other show ?thesis using code same by (cases "128 \<le> ord c \<or> \<not> isprint c") auto
  next
    case 1
    then show ?thesis by (intro simple [of "CHR ''n''"]) (simp_all add: CEscape_char_def simple_escapes_def)
  next
    case 2
    then show ?thesis by (intro simple [of "CHR ''r''"]) (simp_all add: CEscape_char_def simple_escapes_def)
  next
    case 3
    then show ?thesis by (intro simple [of "CHR ''t''"]) (simp_all add: CEscape_char_def simple_escapes_def)
  next
    case 4
    then show ?thesis by (intro simple [of "CHR 0x22"]) (simp_all add: CEscape_char_def simple_escapes_def)
  next
    case 5
    then show ?thesis by (intro simple [of "CHR 0x27"]) (simp_all add: CEscape_char_def simple_escapes_def)
  next
    case 6
    then show ?thesis by (intro simple [of "CHR 0x5C"]) (simp_all add: CEscape_char_def simple_escapes_def)
  qed
qed

lemma unescape_escaped:
  "CUnescapeInternal (CEscape_char c @ s) =
    (case CUnescapeInternal s of Inl e \<Rightarrow> Inl e | Inr d \<Rightarrow> Inr (c # d))"
proof -
  have pair: "CUnescapeInternal (CHR 0x5C # x # s') =
      (case CUnescapeInternal s of Inl e \<Rightarrow> Inl e | Inr d \<Rightarrow> Inr (c # d))" if "unescape_one x s' = Inr (c, s)" for x s'
    using that by (subst CUnescapeInternal.simps) simp
  show ?thesis
  proof (cases c rule: CEscape_char_cases)
    case (simple x)
    then show ?thesis using pair [of x s] by (simp add: unescape_one_def)
  next
    case code
    with pair [OF unescape_octal] show ?thesis by simp
  next
    case same
    then show ?thesis by (subst CUnescapeInternal.simps) simp
  qed
qed

lemma CUnescape_CEscape: "CUnescape (CEscape s) = Inr s"
proof -
  have "CUnescapeInternal (CEscape s) = Inr s"
  proof (induction s)
    case (Cons c s)
    then show ?case by (simp add: CEscape_def unescape_escaped)
  qed (simp add: CEscape_def CUnescapeInternal.simps)
  then show ?thesis by (simp add: CUnescape_def)
qed

lemma CEscape_printable: "list_all isprint (CEscape s)"
proof -
  have digit: "isprint (hex_char ! k)" if "k < 8" for k using that by (simp add: isprint_def hex_char_nth)
  have backslash: "isprint (CHR 0x5C)" by (simp add: isprint_def ord_def)
  have "list_all isprint (CEscape_char c)" for c
  proof (cases c rule: CEscape_char_cases)
    case (simple x)
    then show ?thesis using backslash simple_printable by simp
  next
    case code
    have "ord c div 64 < 8" using octal_bounds(1) [of c] by simp
    with code show ?thesis using backslash digit octal_bounds [of c] by simp
  qed simp
  then show ?thesis by (induction s) (simp_all add: CEscape_def)
qed

section \<open>Leading digits\<close>

text \<open>The test for an overflow is exact.\<close>

lemma overflow_arith:
  fixes v d w k r :: nat
  assumes "v < 2 ^ 64" "d \<le> 9" "w = v * 10 + d" "w = k * 2 ^ 64 + r" "r < 2 ^ 64"
  shows "r div 8 < v \<longleftrightarrow> 2 ^ 64 \<le> w"
proof (cases "k = 0")
  case True
  then show ?thesis using assms by simp
next
  case False
  have big: "2 ^ 64 \<le> w" using False assms(4) by (cases k) simp_all
  have "r < 8 * v"
  proof (cases "v < 2 ^ 63 - 4")
    case True
    have "2 ^ 64 \<le> k * 2 ^ 64" using False by simp
    with True assms show ?thesis by simp
  next
    case False
    then have "4 \<le> k" using assms(3-5) by simp
    then have "4 * 2 ^ 64 \<le> k * 2 ^ 64" by simp
    with assms show ?thesis by simp
  qed
  with big show ?thesis by simp
qed

lemma overflow_test:
  fixes v :: "64 word"
  assumes "d \<le> 9"
  shows "(v * 10 + of_nat d) div 8 < v \<longleftrightarrow> 2 ^ 64 \<le> unat v * 10 + d"
    "unat v * 10 + d < 2 ^ 64 \<Longrightarrow> unat (v * 10 + of_nat d) = unat v * 10 + d"
proof -
  define w where "w = unat v * 10 + d"
  have u: "unat (v * 10 + of_nat d) = w mod 2 ^ 64"
    by (simp add: unat_word_ariths unsigned_of_nat take_bit_eq_mod w_def mod_simps)
  then show "unat (v * 10 + of_nat d) = w" if "w < 2 ^ 64" using that by simp
  have "unat v < 2 ^ 64" using unsigned_less [where 'a = nat, of v] by simp
  from overflow_arith [OF this assms w_def, of "w div 2 ^ 64" "w mod 2 ^ 64"]
  have "w mod 2 ^ 64 div 8 < unat v \<longleftrightarrow> 2 ^ 64 \<le> w" by simp
  then show "(v * 10 + of_nat d) div 8 < v \<longleftrightarrow> 2 ^ 64 \<le> w"
    by (simp add: word_less_nat_alt unat_div u)
qed

lemma leading_digits_eq:
  "leading_digits v n p =
    (if decimal_from (int (unat v)) (takeWhile isdigit p) < 2 ^ 64
     then Some (word_of_int (decimal_from (int (unat v)) (takeWhile isdigit p)), n + length (takeWhile isdigit p)) else None)"
proof (induction p arbitrary: v n)
  case (Cons c p)
  show ?case
  proof (cases "isdigit c")
    case True
    define d where "d = ord c - 48"
    have d: "d \<le> 9" "digit_value c = int d" using True by (auto simp: isdigit_def d_def digit_value_def)
    note test = overflow_test [OF d(1), of v]
    have digit: "\<not> (ord c < 48 \<or> 57 < ord c)" using True by (auto simp: isdigit_def)
    show ?thesis
    proof (cases "2 ^ 64 \<le> unat v * 10 + d")
      case over: True
      then have "int (2 ^ 64) \<le> int (unat v * 10 + d)" by (simp only: of_nat_le_iff)
      then have "(2 :: int) ^ 64 \<le> int (unat v) * 10 + int d" by (simp only: of_nat_add of_nat_mult of_nat_power of_nat_numeral)
      also have "\<dots> \<le> decimal_from (int (unat v) * 10 + int d) (takeWhile isdigit p)"
        by (intro decimal_mono) (auto dest: set_takeWhileD)
      finally show ?thesis using digit True over test(1) d(2) by (simp add: d_def [symmetric] Let_def)
    next
      case False
      with test(2) have "int (unat (v * 10 + of_nat d)) = int (unat v) * 10 + digit_value c" by (simp add: d(2))
      with Cons.IH [of "v * 10 + of_nat d" "n + 1"] digit True False test(1)
      show ?thesis by (simp add: d_def [symmetric] Let_def)
    qed
  next
    case False
    have "int (unat v) < 2 ^ 64" using unsigned_less [where 'a = int, of v] by simp
    with False show ?thesis by (auto simp: isdigit_def)
  qed
next
  case Nil
  have "int (unat v) < 2 ^ 64" using unsigned_less [where 'a = int, of v] by simp
  then show ?case by simp
qed

lemma ConsumeLeadingDigits_eq:
  "ConsumeLeadingDigits s =
    (let ds = takeWhile isdigit s in
     if ds = [] \<or> 2 ^ 64 \<le> decimal_from 0 ds then None else Some (word_of_int (decimal_from 0 ds), dropWhile isdigit s))"
  by (simp add: ConsumeLeadingDigits_def leading_digits_eq Let_def dropWhile_eq_drop)

section \<open>White space\<close>

lemma leading_spaces_eq: "count \<le> length t \<Longrightarrow> leading_spaces t count = count + length (takeWhile isspace (drop count t))"
proof (induction t count rule: leading_spaces.induct)
  case (1 t count)
  then show ?case
    by (subst leading_spaces.simps) (auto simp: Cons_nth_drop_Suc [symmetric] dest: le_neq_implies_less)
qed

lemma strip_trailing_eq: "i \<le> length s \<Longrightarrow> strip_trailing s i = length (dropWhile isspace (rev (take i s)))"
proof (induction i)
  case (Suc i)
  then show ?case by (subst strip_trailing.simps) (simp add: take_Suc_conv_app_nth)
qed (simp add: strip_trailing.simps)

section \<open>Splitting\<close>

lemma join_split: "join_from True [delim] (split_from (\<lambda>_. True) delim token s) = token @ s"
proof -
  have "split_from (\<lambda>_. True) delim token s \<noteq> []" for token s by (induction s arbitrary: token) simp_all
  moreover have later: "xs \<noteq> [] \<Longrightarrow> join_from False sep xs = sep @ join_from True sep xs" for sep xs
    by (cases xs) simp_all
  ultimately show ?thesis by (induction s arbitrary: token) simp_all
qed

end
