(* ===== verification/Utility_Properties.thy ===== *)
theory Utility_Properties
  imports Bitmap Edit_Distance Weighted_Picker_Laws Str_Util_Laws
begin

text \<open>
  The properties of the small libraries of \<open>src/base\<close>: the bitmap, the edit distance, the
  weighted picker, the numbers and the strings.
\<close>

section \<open>The bitmap\<close>

text \<open>
  C25. Refinement: a \<open>Bitmap\<close> is a list of booleans. \<open>get\<close> reads the list, \<open>set\<close> and
  \<open>clear\<close> update one place, \<open>FirstUnset\<close> is the end of the run of ones from its start,
  \<open>Reset\<close> gives zeros, whatever was stored, and \<open>ToString\<close> prints the list. No operation
  runs into an index that is out of range.
\<close>

theorem bitmap_refines_booleans:
  assumes "bitmap_ok b"
  shows "(\<forall>i < nbits b.
      get_bit i b = Inr (bit_list b ! i) \<and>
      (\<exists>c. set_bit_at i b = Inr c \<and> bitmap_ok c \<and> bit_list c = (bit_list b)[i := True]) \<and>
      (\<exists>c. clear_bit i b = Inr c \<and> bitmap_ok c \<and> bit_list c = (bit_list b)[i := False])) \<and>
    (\<forall>start. FirstUnset start b = Inr (run_end start (bit_list b))) \<and>
    (\<forall>n \<le> 2 ^ 64 - 32. bitmap_ok (Reset n b) \<and> bit_list (Reset n b) = replicate n False) \<and>
    ToString b = Inr (map (\<lambda>v. if v then CHR ''1'' else CHR ''0'') (bit_list b))"
  using get_bit_ok [OF assms] set_bit_ok [OF assms] clear_bit_ok [OF assms] FirstUnset_ok [OF assms] ToString_ok [OF assms] Reset_ok
  by blast

theorem bitmap_refines_booleans_witness:
  "FirstUnset 1 \<lparr>nbits = 40, bitmap_words = [0xFFFFFFFE, 0x7]\<rparr> = Inr 35"
proof -
  have "bitmap_ok \<lparr>nbits = 40, bitmap_words = [0xFFFFFFFE, 0x7]\<rparr>" by (simp add: bitmap_ok_def)
  note bitmap_refines_booleans [OF this, THEN conjunct2, THEN conjunct1, rule_format, of 1]
  moreover have "run_end 1 (bit_list \<lparr>nbits = 40, bitmap_words = [0xFFFFFFFE, 0x7]\<rparr>) = 35" by code_simp
  ultimately show ?thesis by simp
qed

section \<open>The edit distance\<close>

text \<open>
  C28. What \<open>LevenshteinDistance\<close> computes: the rows are swapped before the first one is
  used, so that the row before the first is all zeros and any prefix of the shorter sequence
  is free. The result is the least distance between the longer sequence and a suffix of the
  shorter one; the distance of ''bcd'' and ''abc'' is given as 1 and is 2.
\<close>

theorem levenshtein_skips_prefix:
  "LevenshteinDistance (=) (=) s t =
    (if s = [] \<or> t = [] then int (length s + length t)
     else if s = t then 0
     else
       let (long, short) = (if length s < length t then (t, s) else (s, t)) in
       Min ((\<lambda>k. int (lev (=) long (drop k short))) ` {..length short})) \<and>
    lev (=) s t = (LEAST n. (edit ^^ n) s t) \<and>
    LevenshteinDistance (=) (=) ''bcd'' ''abc'' = 1 \<and> lev (=) ''bcd'' ''abc'' = 2"
proof (intro conjI)
  have rows: "LevenshteinDistance (=) (=) s t = Min ((\<lambda>k. int (lev (=) s (drop k t))) ` {..length t})"
    if "s \<noteq> []" "t \<noteq> []" "s \<noteq> t" "\<not> length s < length t" for s t :: "'a list"
    using that rows_result [of "(=)" s t]
    by (subst LevenshteinDistance.simps) (simp add: list.rel_eq split: prod.splits)
  have flip: "LevenshteinDistance (=) (=) s t = LevenshteinDistance (=) (=) t s"
    if "s \<noteq> []" "t \<noteq> []" "s \<noteq> t" "length s < length t" for s t :: "'a list"
    using that by (subst LevenshteinDistance.simps) (simp add: list.rel_eq)
  show "LevenshteinDistance (=) (=) s t =
    (if s = [] \<or> t = [] then int (length s + length t)
     else if s = t then 0
     else
       let (long, short) = (if length s < length t then (t, s) else (s, t)) in
       Min ((\<lambda>k. int (lev (=) long (drop k short))) ` {..length short}))"
  proof (cases "s = [] \<or> t = [] \<or> s = t")
    case True
    then show ?thesis by (subst LevenshteinDistance.simps) (auto simp: list.rel_eq)
  next
    case False
    then show ?thesis using flip [of s t] rows [of s t] rows [of t s] by auto
  qed
  show "LevenshteinDistance (=) (=) ''bcd'' ''abc'' = 1" "lev (=) ''bcd'' ''abc'' = 2" by code_simp+
  show "lev (=) s t = (LEAST n. (edit ^^ n) s t)"
    by (rule Least_equality [symmetric]) (simp_all add: alignment_edits lev_aligns edits_least)
qed

section \<open>The weighted picker\<close>

text \<open>
  C19. Refinement: the tree of sums of \<open>WeightedPicker\<close> is a list of weights. Every operation
  keeps the tree in shape (each node the sum of its two sons) and does to the list what it
  says; \<open>PickAt\<close> gives the element whose interval of the weights holds the number, and -1
  for a number outside of the total. The sums stay within an \<open>int32\<close>.
\<close>

theorem picker_refines_weights:
  assumes ok: "weights_ok L ws"
  shows "(\<forall>i < length ws. get_weight (int i) (tree_of L ws) = Inr (ws ! i)) \<and>
    total_weight (tree_of L ws) = Inr (sum_list ws) \<and>
    (\<forall>i < length ws. \<forall>w. weights_ok L (ws[i := w]) \<longrightarrow>
      set_weight (int i) w (tree_of L ws) = Inr (tree_of L (ws[i := w]))) \<and>
    (\<forall>w. weights_ok L (replicate (length ws) w) \<longrightarrow>
      SetAllWeights w (tree_of L ws) = Inr (tree_of L (replicate (length ws) w))) \<and>
    (\<forall>n \<le> 2 ^ 30. \<exists>L'. Resize (int n) (tree_of L ws) = Inr (tree_of L' (resized n ws)) \<and> weights_ok L' (resized n ws)) \<and>
    (\<forall>vs. length vs \<le> 2 ^ 30 \<and> (\<forall>v \<in> set vs. 0 \<le> v) \<and> sum_list vs < 2 ^ 31 \<longrightarrow>
      (\<exists>L'. SetWeightsFromArray (int (length vs)) vs (tree_of L ws) = Inr (tree_of L' vs) \<and> weights_ok L' vs)) \<and>
    (\<forall>w. length ws < 2 ^ 30 \<and> 0 \<le> w \<and> sum_list ws + w < 2 ^ 31 \<longrightarrow>
      (\<exists>L'. Append w (tree_of L ws) = Inr (tree_of L' (ws @ [w])) \<and> weights_ok L' (ws @ [w]))) \<and>
    (\<forall>x. if 0 \<le> x \<and> x < sum_list ws then \<exists>i. PickAt x (tree_of L ws) = Inr (int i) \<and> covers ws i x
       else PickAt x (tree_of L ws) = Inr (- 1))"
proof -
  have len: "length ws \<le> 2 ^ L" using ok by (simp add: weights_ok_def)
  show ?thesis
    using get_weight_ok [OF _ len] total_weight_ok [OF len] set_weight_ok [OF ok]
      SetAllWeights_ok [OF tree_of_shape [OF refl, of L ws]]
      Resize_ok [OF ok] SetWeightsFromArray_ok [OF ok] Append_ok [OF ok] PickAt_ok [OF ok]
    by blast
qed

theorem picker_refines_weights_witness:
  "\<exists>i. PickAt 5 (tree_of 2 [2, 0, 4, 1]) = Inr (int i) \<and> covers [2, 0, 4, 1] i 5"
proof -
  have "weights_ok 2 [2, 0, 4, 1]" by (simp add: weights_ok_def)
  note all = picker_refines_weights [OF this]
  have "\<forall>x. if 0 \<le> x \<and> x < sum_list [2, 0, 4, 1 :: int] then
      \<exists>i. PickAt x (tree_of 2 [2, 0, 4, 1]) = Inr (int i) \<and> covers [2, 0, 4, 1] i x
    else PickAt x (tree_of 2 [2, 0, 4, 1]) = Inr (- 1)"
    using all by (elim conjE)
  from this [rule_format, of 5] show ?thesis by simp
qed

text \<open>
  C20. \<open>Pick\<close> is fair: of the random numbers of 32 bits that are not rejected, the number that
  pick an element is proportional to its weight, and a number that is rejected leaves the
  choice to the next one. In particular an element of weight 0 is never picked.
\<close>

theorem pick_is_fair:
  assumes "weights_ok L ws" "0 < sum_list ws"
  shows "(\<exists>c > 0. \<forall>i < length ws. card {r. Pick [r] (tree_of L ws) = Some (Inr (int i))} = c * nat (ws ! i)) \<and>
    (\<forall>r rs. Pick (r # rs) (tree_of L ws) =
      (case Pick [r] (tree_of L ws) of None \<Rightarrow> Pick rs (tree_of L ws) | Some x \<Rightarrow> Some x))"
  using Pick_fair [OF assms] Pick_Cons [OF assms] by blast

theorem pick_is_fair_witness:
  "\<exists>c. 0 < c \<and> card {r. Pick [r] (tree_of 2 [2, 0, 4]) = Some (Inr 0)} = c * 2 \<and>
    card {r. Pick [r] (tree_of 2 [2, 0, 4]) = Some (Inr 2)} = c * 4"
proof -
  have "weights_ok 2 [2, 0, 4]" by (simp add: weights_ok_def)
  from pick_is_fair [OF this, THEN conjunct1] obtain c where c: "0 < c"
    "\<forall>i < 3. card {r. Pick [r] (tree_of 2 [2, 0, 4]) = Some (Inr (int i))} = c * nat ([2, 0, 4] ! i)"
    by (auto simp: numeral_3_eq_3)
  from c(1) c(2) [rule_format, of 0] c(2) [rule_format, of 2] show ?thesis by auto
qed

section \<open>Numbers\<close>

text \<open>
  C24. Equivalence: the parsers of integers, which test the range before every step in the
  arithmetic of the machine, accept what a reader with unbounded integers accepts and whose
  value is in the range of the type, and give that value; no string makes them overflow.
\<close>

theorem integers_are_parsed_exactly:
  "safe_strto64 str = Inr (in_range (- (2 ^ 63)) (2 ^ 63 - 1) (read_integer str)) \<and>
   safe_strtou64 str = Inr (in_range 0 (2 ^ 64 - 1) (read_unsigned str)) \<and>
   safe_strto32 str = Inr (in_range (- (2 ^ 31)) (2 ^ 31 - 1) (read_integer str)) \<and>
   safe_strtou32 str = Inr (in_range 0 (2 ^ 32 - 1) (read_unsigned str))"
  by (intro conjI safe_strto64_eq safe_strtou64_eq safe_strto32_eq safe_strtou32_eq)

lemma sint_range:
  "- (2 ^ 31) \<le> sint (a :: 32 word) \<and> sint a \<le> 2 ^ 31 - 1" "- (2 ^ 63) \<le> sint (b :: 64 word) \<and> sint b \<le> 2 ^ 63 - 1"
  using sint_ge [of a] sint_lt [of a] sint_ge [of b] sint_lt [of b] by simp_all

lemma uint_range: "0 \<le> uint (a :: 32 word) \<and> uint a \<le> 2 ^ 32 - 1" "0 \<le> uint (b :: 64 word) \<and> uint b \<le> 2 ^ 64 - 1"
  using unsigned_less [where 'a = int, of a] unsigned_less [where 'a = int, of b] by simp_all

lemma printed_signed:
  "read_integer (FastInt32ToBufferLeft a) = Some (sint a)" "read_integer (FastInt64ToBufferLeft b) = Some (sint b)"
  using read_printed(2,3) negated [of a] negated [of b] nonneg_sint [of a] nonneg_sint [of b]
  by (auto simp: FastInt32ToBufferLeft_def FastInt64ToBufferLeft_def FastUInt32ToBufferLeft_def FastUInt64ToBufferLeft_def)

lemma printed_unsigned:
  "read_unsigned (FastUInt32ToBufferLeft a) = Some (uint a)" "read_unsigned (FastUInt64ToBufferLeft b) = Some (uint b)"
  by (simp_all add: FastUInt32ToBufferLeft_def FastUInt64ToBufferLeft_def read_printed(1))

lemma in_range_fits: "lo \<le> v \<Longrightarrow> v \<le> hi \<Longrightarrow> in_range lo hi (Some v) = Some v"
  by (simp add: in_range_def)

text \<open>
  Round trips: what the four printers of integers print is parsed as the number, the
  least one of each width included, and so is the hexadecimal form of 64 bits.
\<close>

theorem printed_numbers_are_read:
  "safe_strto32 (FastInt32ToBufferLeft a) = Inr (Some (sint a)) \<and>
   safe_strtou32 (FastUInt32ToBufferLeft a) = Inr (Some (uint a)) \<and>
   safe_strto64 (FastInt64ToBufferLeft b) = Inr (Some (sint b)) \<and>
   safe_strtou64 (FastUInt64ToBufferLeft b) = Inr (Some (uint b)) \<and>
   HexStringToUint64 (Uint64ToHexString b) = Some b"
  unfolding safe_strto32_eq safe_strtou32_eq safe_strto64_eq safe_strtou64_eq printed_signed printed_unsigned
  using sint_range(1) [of a] sint_range(2) [of b] uint_range(1) [of a] uint_range(2) [of b] hex_roundtrip(1) [of b]
  by (auto intro: in_range_fits)

section \<open>Strings\<close>

text \<open>
  C33. Round trip: \<open>CUnescape\<close> undoes \<open>CEscape\<close> on every string, and what \<open>CEscape\<close> gives is
  printable.
\<close>

theorem cescape_roundtrip: "CUnescape (CEscape s) = Inr s \<and> list_all isprint (CEscape s)"
  by (simp add: CUnescape_CEscape CEscape_printable)

end
