(* ===== verification/Linux_File.thy ===== *)
theory Linux_File
  imports Status Coding
begin

text \<open>
  \<open>src/base/platform/linux/error.cc\<close> and the \<open>Read\<close> of \<open>LinuxRandomAccessFile\<close> in
  \<open>linux_file_system.cc\<close>, with what the readers of files rely on.
\<close>

section \<open>Errors of the system\<close>

text \<open>
  An error number is given by the name of its macro, and 0 by \<open>''0''\<close>: the values are those
  of the system. The table has the cases of the switch; the last group and the default have
  the same code.
\<close>

type_synonym errno = string

definition error_groups :: "(errno list \<times> error_code) list" where
  "error_groups =
     [([''0''],
        OK),
      ([''EINVAL'', ''ENAMETOOLONG'', ''E2BIG'', ''EDESTADDRREQ'', ''EDOM'',
         ''EFAULT'', ''EILSEQ'', ''ENOPROTOOPT'', ''ENOSTR'', ''ENOTSOCK'', ''ENOTTY'',
         ''EPROTOTYPE'', ''ESPIPE''],
        INVALID_ARGUMENT),
      ([''ETIMEDOUT'', ''ETIME''],
        DEADLINE_EXCEEDED),
      ([''ENODEV'', ''ENOENT'', ''ENXIO'', ''ESRCH''],
        NOT_FOUND),
      ([''EEXIST'', ''EADDRNOTAVAIL'', ''EALREADY''],
        ALREADY_EXISTS),
      ([''EPERM'', ''EACCES'', ''EROFS''],
        PERMISSION_DENIED),
      ([''ENOTEMPTY'', ''EISDIR'', ''ENOTDIR'', ''EADDRINUSE'', ''EBADF'', ''EBUSY'',
         ''ECHILD'', ''EISCONN'', ''ENOTBLK'', ''ENOTCONN'', ''EPIPE'', ''ESHUTDOWN'',
         ''ETXTBSY''],
        FAILED_PRECONDITION),
      ([''ENOSPC'', ''EDQUOT'', ''EMFILE'', ''EMLINK'', ''ENFILE'', ''ENOBUFS'',
         ''ENODATA'', ''ENOMEM'', ''ENOSR'', ''EUSERS''],
        RESOURCE_EXHAUSTED),
      ([''EFBIG'', ''EOVERFLOW'', ''ERANGE''],
        OUT_OF_RANGE),
      ([''ENOSYS'', ''ENOTSUP'', ''EAFNOSUPPORT'', ''EPFNOSUPPORT'',
         ''EPROTONOSUPPORT'', ''ESOCKTNOSUPPORT'', ''EXDEV''],
        UNIMPLEMENTED),
      ([''EAGAIN'', ''ECONNREFUSED'', ''ECONNABORTED'', ''ECONNRESET'', ''EINTR'',
         ''EHOSTDOWN'', ''EHOSTUNREACH'', ''ENETDOWN'', ''ENETRESET'', ''ENETUNREACH'',
         ''ENOLCK'', ''ENOLINK'', ''ENONET''],
        UNAVAILABLE),
      ([''EDEADLK'', ''ESTALE''],
        ABORTED),
      ([''ECANCELED''],
        CANCELLED)]"

primrec lookup_group :: "errno \<Rightarrow> (errno list \<times> error_code) list \<Rightarrow> error_code" where
  "lookup_group e [] = UNKNOWN"
| "lookup_group e (g # gs) = (if e \<in> set (fst g) then snd g else lookup_group e gs)"

definition ErrnoToCode :: "errno \<Rightarrow> error_code" where
  "ErrnoToCode err_number = lookup_group err_number error_groups"

text \<open>\<open>strerror\<close> is the function of the C library.\<close>

definition IOError :: "(errno \<Rightarrow> string) \<Rightarrow> string \<Rightarrow> errno \<Rightarrow> fault + status" where
  "IOError strerror context_text err_number =
     (let code = ErrnoToCode err_number in
      if code = UNKNOWN then make_status code (context_text @ ''; '' @ strerror err_number)
      else make_status code context_text)"

definition OutOfRange :: "string \<Rightarrow> status" where
  "OutOfRange msg = Some \<lparr>state_code = OUT_OF_RANGE, state_msg = msg\<rparr>"

definition IsOutOfRange :: "status \<Rightarrow> bool" where
  "IsOutOfRange s \<longleftrightarrow> status_code_of s = OUT_OF_RANGE"

definition InvalidArgument :: "string \<Rightarrow> status" where
  "InvalidArgument msg = Some \<lparr>state_code = INVALID_ARGUMENT, state_msg = msg\<rparr>"

lemma status_simps [simp]:
  "IsOutOfRange (OutOfRange msg)" "\<not> IsOutOfRange OK_status" "\<not> IsOutOfRange (InvalidArgument msg)"
  "\<not> IsOutOfRange (DataLoss msg)"
  by (simp_all add: IsOutOfRange_def OutOfRange_def OK_status_def InvalidArgument_def DataLoss_def status_code_of_def)

section \<open>Reading\<close>

text \<open>
  The system call \<open>pread\<close>, by the number of the call, the offset and the length: the bytes
  that it stores, or the error.
\<close>

datatype pread_result = Got "byte list" | Failed errno

type_synonym pread = "nat \<Rightarrow> nat \<Rightarrow> nat \<Rightarrow> pread_result"

text \<open>
  \<open>LinuxRandomAccessFile::Read\<close> from the call \<open>k\<close> on, with the bytes stored so far. It tries
  again as long as the call is interrupted. \<open>None\<close> when this never ends.
\<close>

partial_function (option) linux_read ::
    "pread \<Rightarrow> (errno \<Rightarrow> string) \<Rightarrow> string \<Rightarrow> nat \<Rightarrow> nat \<Rightarrow> nat \<Rightarrow> byte list \<Rightarrow> (fault + status \<times> byte list) option" where
  "linux_read pread strerror filename k offset n dst =
     (if n = 0 then Some (Inr (OK_status, dst))
      else
        (case pread k offset n of
           Got bytes \<Rightarrow>
             if bytes \<noteq> [] then
               linux_read pread strerror filename (k + 1) (offset + length bytes) (n - length bytes) (dst @ bytes)
             else Some (Inr (OutOfRange ''Read less bytes than requested'', dst))
         | Failed e \<Rightarrow>
             if e = ''EINTR'' \<or> e = ''EAGAIN'' then linux_read pread strerror filename (k + 1) offset n dst
             else
               Some (case IOError strerror filename e of Inl f \<Rightarrow> Inl f | Inr s \<Rightarrow> Inr (s, dst))))"

text \<open>\<open>Read(offset, n)\<close> of a file: the status and the bytes of the result.\<close>

type_synonym access_file = "nat \<Rightarrow> nat \<Rightarrow> status \<times> byte list"

definition Linux_Read :: "pread \<Rightarrow> (errno \<Rightarrow> string) \<Rightarrow> string \<Rightarrow> nat \<Rightarrow> nat \<Rightarrow> (fault + status \<times> byte list) option" where
  "Linux_Read pread strerror filename offset n = linux_read pread strerror filename 0 offset n []"

section \<open>The interface of a file\<close>

text \<open>
  What the readers rely on: the bytes from the offset on, as many as there are, and an
  \<open>OutOfRange\<close> if and only if there are too few.
\<close>

locale random_access_file =
  fixes access :: access_file and data :: "byte list"
  assumes read_bytes: "snd (access offset n) = take n (drop offset data)"
    and read_status: "if n \<le> length data - offset then fst (access offset n) = OK_status
      else IsOutOfRange (fst (access offset n))"

text \<open>
  What is documented of \<open>pread\<close> on a file with these bytes: it stores some of the bytes from
  the offset on, and none only at the end of the file; it is interrupted a finite number of
  times.
\<close>

definition preads :: "byte list \<Rightarrow> pread \<Rightarrow> bool" where
  "preads data pread \<longleftrightarrow>
     (\<forall>k offset n. 0 < n \<longrightarrow>
       (case pread k offset n of
          Got bytes \<Rightarrow> length bytes \<le> n \<and> bytes = take (length bytes) (drop offset data) \<and>
            (bytes = [] \<longrightarrow> length data \<le> offset)
        | Failed e \<Rightarrow> e = ''EINTR'' \<or> e = ''EAGAIN'')) \<and>
     (\<exists>m. \<forall>k \<ge> m. \<forall>offset n e. pread k offset n \<noteq> Failed e)"

lemma linux_read_again:
  assumes "0 < n" "pread k offset n = Failed e" "e = ''EINTR'' \<or> e = ''EAGAIN''"
  shows "linux_read pread strerror filename k offset n dst = linux_read pread strerror filename (k + 1) offset n dst"
  using assms by (subst linux_read.simps) simp

lemma linux_read_more:
  assumes "0 < n" "pread k offset n = Got bytes" "bytes \<noteq> []"
  shows "linux_read pread strerror filename k offset n dst =
    linux_read pread strerror filename (k + 1) (offset + length bytes) (n - length bytes) (dst @ bytes)"
  using assms by (subst linux_read.simps) simp

lemma preads_cases:
  assumes "preads data pread" "0 < n"
  obtains (bytes) bytes where "pread k offset n = Got bytes" "length bytes \<le> n"
      "bytes = take (length bytes) (drop offset data)" "bytes = [] \<longrightarrow> length data \<le> offset"
  | (again) e where "pread k offset n = Failed e" "e = ''EINTR'' \<or> e = ''EAGAIN''"
proof (cases "pread k offset n")
  case (Got bs)
  have "case pread k offset n of
      Got bytes \<Rightarrow> length bytes \<le> n \<and> bytes = take (length bytes) (drop offset data) \<and>
        (bytes = [] \<longrightarrow> length data \<le> offset)
    | Failed e \<Rightarrow> e = ''EINTR'' \<or> e = ''EAGAIN''"
    using assms unfolding preads_def by blast
  with Got bytes show thesis by simp
next
  case (Failed e)
  have "case pread k offset n of
      Got bytes \<Rightarrow> length bytes \<le> n \<and> bytes = take (length bytes) (drop offset data) \<and>
        (bytes = [] \<longrightarrow> length data \<le> offset)
    | Failed e \<Rightarrow> e = ''EINTR'' \<or> e = ''EAGAIN''"
    using assms unfolding preads_def by blast
  with Failed again show thesis by simp
qed

lemma linux_read_ok:
  assumes preads: "preads data pread" and m: "\<forall>k \<ge> m. \<forall>offset n e. pread k offset n \<noteq> Failed e"
  shows "linux_read pread strerror filename k offset n dst =
    Some (Inr (if n \<le> length data - offset then OK_status else OutOfRange ''Read less bytes than requested'',
      dst @ take n (drop offset data)))"
proof (induction "n + (m - k)" arbitrary: n k offset dst rule: less_induct)
  case less
  show ?case
  proof (cases "n = 0")
    case True
    then show ?thesis by (subst linux_read.simps) simp
  next
    case False
    then have pos: "0 < n" by simp
    from preads pos show ?thesis
    proof (cases rule: preads_cases [where k = k and offset = offset])
      case (bytes bs)
      show ?thesis
      proof (cases "bs = []")
        case True
        with bytes(4) have "length data \<le> offset" by simp
        with True bytes(1) False show ?thesis by (subst linux_read.simps) simp
      next
        case more: False
        have len: "length bs \<le> length data - offset" using arg_cong [OF bytes(3), of length] by simp
        have "0 < length bs" using more by simp
        then have smaller: "n - length bs + (m - (k + 1)) < n + (m - k)" using bytes(2) by linarith
        have "take n (drop offset data) = take (length bs + (n - length bs)) (drop offset data)" using bytes(2) by simp
        also have "\<dots> = bs @ take (n - length bs) (drop (offset + length bs) data)"
          unfolding take_add using bytes(3) by (simp add: add.commute)
        finally have all: "take n (drop offset data) = bs @ take (n - length bs) (drop (offset + length bs) data)" .
        have le: "n - length bs \<le> length data - (offset + length bs) \<longleftrightarrow> n \<le> length data - offset"
          using len bytes(2) by linarith
        show ?thesis
          unfolding linux_read_more [of n pread k offset bs strerror filename dst, OF pos bytes(1) more] all append_assoc [symmetric] le [symmetric]
          by (rule less [OF smaller])
      qed
    next
      case (again e)
      then have "k < m" using m by (metis not_le)
      then have smaller: "n + (m - (k + 1)) < n + (m - k)" by simp
      show ?thesis unfolding linux_read_again [of n pread k offset e strerror filename dst, OF pos again] by (rule less [OF smaller])
    qed
  qed
qed

text \<open>The file that \<open>LinuxRandomAccessFile\<close> is for such a system.\<close>

definition linux_file :: "pread \<Rightarrow> access_file" where
  "linux_file pread offset n =
     (case Linux_Read pread (\<lambda>_. []) [] offset n of Some (Inr r) \<Rightarrow> r | _ \<Rightarrow> (OK_status, []))"

lemma linux_file_access: "preads data pread \<Longrightarrow> random_access_file (linux_file pread) data"
proof
  fix offset n
  assume preads: "preads data pread"
  then obtain m where "\<forall>k \<ge> m. \<forall>offset n e. pread k offset n \<noteq> Failed e" by (auto simp: preads_def)
  from linux_read_ok [OF preads this, of "\<lambda>_. []" "[]" 0 offset n "[]"]
  show "snd (linux_file pread offset n) = take n (drop offset data)"
    and "if n \<le> length data - offset then fst (linux_file pread offset n) = OK_status
      else IsOutOfRange (fst (linux_file pread offset n))"
    by (auto simp: linux_file_def Linux_Read_def split: if_splits)
qed

text \<open>A system that is interrupted once and then reads at most \<open>m + 1\<close> bytes at a time.\<close>

definition pread_pieces :: "byte list \<Rightarrow> nat \<Rightarrow> pread" where
  "pread_pieces data m k offset n = (if k = 0 then Failed ''EINTR'' else Got (take (min n (m + 1)) (drop offset data)))"

lemma preads_pieces: "preads data (pread_pieces data m)"
proof -
  have "\<exists>m'. \<forall>k \<ge> m'. \<forall>offset n e. pread_pieces data m k offset n \<noteq> Failed e"
    by (rule exI [of _ 1]) (simp add: pread_pieces_def)
  moreover have "take (length (take j xs)) xs = take j xs" "length (take (min n j) xs) \<le> n" for j n and xs :: "byte list"
    by (simp_all add: min_def)
  ultimately show ?thesis unfolding preads_def by (auto simp: pread_pieces_def simp del: length_take)
qed

interpretation linux: random_access_file "linux_file (pread_pieces data m)" data for data m
  by (rule linux_file_access [OF preads_pieces])

end
