(* ===== verification/Buffered.thy ===== *)
theory Buffered
  imports Linux_File
begin

text \<open>
  The loops that \<open>InputBuffer\<close> and \<open>BufferedInputStream\<close> of \<open>src/base/io\<close> share: both take
  bytes from a buffer, and fill it where it is empty. A buffer is given by what \<open>FillBuffer\<close>
  does, the bytes between \<open>pos_\<close> and \<open>limit_\<close>, and moving \<open>pos_\<close>.
\<close>

section \<open>The loops\<close>

text \<open>
  The end of a loop: the end of the file is no error for a request that was served. Where the
  file does not end, \<open>ReadLine\<close> may not return, and is \<open>None\<close>.
\<close>

definition unless_served :: "bool \<Rightarrow> status \<Rightarrow> status" where
  "unless_served served s = (if IsOutOfRange s \<and> served then OK_status else s)"

partial_function (option) read_n_loop ::
    "('b \<Rightarrow> status \<times> 'b) \<Rightarrow> ('b \<Rightarrow> byte list) \<Rightarrow> (nat \<Rightarrow> 'b \<Rightarrow> 'b) \<Rightarrow> nat \<Rightarrow> byte list \<Rightarrow> status \<Rightarrow> 'b \<Rightarrow>
      (status \<times> byte list \<times> 'b) option" where
  "read_n_loop fill ahead advance n result s b =
     (if length result < n then
        let (s, b) = (if ahead b = [] then fill b else (s, b)) in
        if ahead b = [] then Some (unless_served (length result = n) s, result, b)
        else
          let bytes_to_copy = min (length (ahead b)) (n - length result) in
          read_n_loop fill ahead advance n (result @ take bytes_to_copy (ahead b)) s (advance bytes_to_copy b)
      else Some (unless_served (length result = n) s, result, b))"

partial_function (option) read_line_loop ::
    "('b \<Rightarrow> status \<times> 'b) \<Rightarrow> ('b \<Rightarrow> byte list) \<Rightarrow> (nat \<Rightarrow> 'b \<Rightarrow> 'b) \<Rightarrow> bool \<Rightarrow> byte list \<Rightarrow> status \<Rightarrow> 'b \<Rightarrow>
      (status \<times> byte list \<times> 'b) option" where
  "read_line_loop fill ahead advance include_eol result s b =
     (let (s, b) = (if ahead b = [] then fill b else (s, b)) in
      if ahead b = [] then Some (unless_served (result \<noteq> []) s, result, b)
      else
        let c = hd (ahead b); b = advance 1 b in
        if c = 10 then Some (OK_status, if include_eol then result @ [c] else result, b)
        else read_line_loop fill ahead advance include_eol (if c \<noteq> 13 then result @ [c] else result) s b)"

partial_function (option) skip_n_loop ::
    "('b \<Rightarrow> status \<times> 'b) \<Rightarrow> ('b \<Rightarrow> byte list) \<Rightarrow> (nat \<Rightarrow> 'b \<Rightarrow> 'b) \<Rightarrow> nat \<Rightarrow> nat \<Rightarrow> status \<Rightarrow> 'b \<Rightarrow>
      (status \<times> 'b) option" where
  "skip_n_loop fill ahead advance n skipped s b =
     (if skipped < n then
        let (s, b) = (if ahead b = [] then fill b else (s, b)) in
        if ahead b = [] then Some (unless_served (skipped = n) s, b)
        else
          let bytes_to_advance = min (length (ahead b)) (n - skipped) in
          skip_n_loop fill ahead advance n (skipped + bytes_to_advance) s (advance bytes_to_advance b)
      else Some (unless_served (skipped = n) s, b))"

section \<open>What a buffer promises\<close>

text \<open>
  \<open>rest\<close> is what the buffer still stands for: the bytes that it holds and those that it will
  be filled with.
\<close>

locale buffered_source =
  fixes fill :: "'b \<Rightarrow> status \<times> 'b" and ahead :: "'b \<Rightarrow> byte list" and advance :: "nat \<Rightarrow> 'b \<Rightarrow> 'b"
    and ok :: "'b \<Rightarrow> bool" and rest :: "'b \<Rightarrow> byte list" and tell :: "'b \<Rightarrow> nat"
  assumes ahead_rest: "ok b \<Longrightarrow> ahead b = take (length (ahead b)) (rest b)"
    and advance: "ok b \<Longrightarrow> k \<le> length (ahead b) \<Longrightarrow>
      ok (advance k b) \<and> ahead (advance k b) = drop k (ahead b) \<and> rest (advance k b) = drop k (rest b) \<and>
      tell (advance k b) = tell b + k"
    and fill: "ok b \<Longrightarrow> ahead b = [] \<Longrightarrow> fill b = (s, c) \<Longrightarrow>
      ok c \<and> rest c = rest b \<and> tell c = tell b \<and> (rest b \<noteq> [] \<longrightarrow> ahead c \<noteq> []) \<and>
      (s = OK_status \<or> IsOutOfRange s) \<and> (rest b = [] \<longrightarrow> IsOutOfRange s)"
begin

definition fresh :: "status \<Rightarrow> 'b \<Rightarrow> status \<times> 'b" where
  "fresh s b = (if ahead b = [] then fill b else (s, b))"

text \<open>After the first step of a loop the buffer is empty only at the end of the file.\<close>

lemma fresh_ok:
  assumes "ok b" "s = OK_status \<or> IsOutOfRange s"
  obtains s' c where "fresh s b = (s', c)" "ok c" "rest c = rest b" "tell c = tell b"
    "ahead c = [] \<longleftrightarrow> rest b = []" "s' = OK_status \<or> IsOutOfRange s'" "rest b = [] \<Longrightarrow> IsOutOfRange s'"
proof (cases "ahead b = []")
  case True
  obtain s' c where sc: "fill b = (s', c)" by (cases "fill b")
  note f = fill [OF assms(1) True sc]
  then have "ahead c = take (length (ahead c)) (rest b)" using ahead_rest [of c] by simp
  with f have "ahead c = [] \<longleftrightarrow> rest b = []" by (cases "rest b = []") auto
  with f that [of s' c] True sc show ?thesis by (simp add: fresh_def)
next
  case False
  then have "rest b \<noteq> []" using ahead_rest [OF assms(1)] by auto
  with False assms that [of s b] show ?thesis by (simp add: fresh_def)
qed

lemma taken:
  assumes "ok b" "k \<le> length (ahead b)"
  shows "take k (ahead b) = take k (rest b)" "k \<le> length (rest b)"
proof -
  have a: "ahead b = take (length (ahead b)) (rest b)" using assms(1) by (rule ahead_rest)
  show "take k (ahead b) = take k (rest b)" using assms(2) by (subst a) (simp add: min_def)
  have "length (ahead b) \<le> length (rest b)" using arg_cong [OF a, of length] by simp
  with assms(2) show "k \<le> length (rest b)" by simp
qed

lemma served_parts:
  assumes "k \<le> m" "k \<le> length xs"
  shows "m - k \<le> length (drop k xs) \<longleftrightarrow> m \<le> length xs" "drop (m - k) (drop k xs) = drop m xs"
    "take k xs @ take (m - k) (drop k xs) = take m xs" "k + min (m - k) (length (drop k xs)) = min m (length xs)"
proof -
  have "k + (m - k) = m" using assms(1) by simp
  then show "take k xs @ take (m - k) (drop k xs) = take m xs" by (simp only: take_add [symmetric])
qed (use assms in auto)

lemma read_n:
  assumes "ok b" "s = OK_status \<or> IsOutOfRange s" "length result \<le> n"
  shows "\<exists>s' c. read_n_loop fill ahead advance n result s b =
      Some (s', result @ take (n - length result) (rest b), c) \<and>
    (if n - length result \<le> length (rest b) then s' = OK_status else IsOutOfRange s') \<and>
    ok c \<and> rest c = drop (n - length result) (rest b) \<and> tell c = tell b + min (n - length result) (length (rest b))"
  using assms
proof (induction "n - length result" arbitrary: result s b rule: less_induct)
  case less
  show ?case
  proof (cases "length result < n")
    case False
    with less.prems show ?thesis by (subst read_n_loop.simps) (auto simp: unless_served_def)
  next
    case True
    obtain s' c where c: "fresh s b = (s', c)" "ok c" "rest c = rest b" "tell c = tell b"
      "ahead c = [] \<longleftrightarrow> rest b = []" "s' = OK_status \<or> IsOutOfRange s'" "rest b = [] \<Longrightarrow> IsOutOfRange s'"
      using fresh_ok [OF less.prems(1,2)] by blast
    show ?thesis
    proof (cases "rest b = []")
      case empty: True
      with True c less.prems(3) show ?thesis
        by (subst read_n_loop.simps) (simp add: fresh_def [symmetric] unless_served_def)
    next
      case more: False
      define k where "k = min (length (ahead c)) (n - length result)"
      have k: "k \<le> length (ahead c)" "k \<le> n - length result" "0 < k" using c(5) more True by (auto simp: k_def)
      note t = taken [OF c(2) k(1)]
      note adv = advance [OF c(2) k(1)]
      have len: "n - length (result @ take k (ahead c)) = n - length result - k" using k by simp
      have smaller: "n - length (result @ take k (ahead c)) < n - length result" using k True by simp
      have fits: "length (result @ take k (ahead c)) \<le> n" using k True by simp
      have "read_n_loop fill ahead advance n result s b =
          read_n_loop fill ahead advance n (result @ take k (ahead c)) s' (advance k c)"
        using True c(1,5) more by (subst read_n_loop.simps) (simp add: fresh_def [symmetric] k_def Let_def)
      moreover note less.hyps [OF smaller _ c(6) fits, of "advance k c", unfolded len]
      moreover note parts = served_parts [OF k(2) t(2)]
      ultimately show ?thesis
        using adv unfolding t(1) c(3) by (simp only: c(4) parts append_assoc add.assoc simp_thms)
    qed
  qed
qed

lemma skip_n:
  assumes "ok b" "s = OK_status \<or> IsOutOfRange s" "skipped \<le> n"
  shows "\<exists>s' c. skip_n_loop fill ahead advance n skipped s b = Some (s', c) \<and>
    (if n - skipped \<le> length (rest b) then s' = OK_status else IsOutOfRange s') \<and>
    ok c \<and> rest c = drop (n - skipped) (rest b) \<and> tell c = tell b + min (n - skipped) (length (rest b))"
  using assms
proof (induction "n - skipped" arbitrary: skipped s b rule: less_induct)
  case less
  show ?case
  proof (cases "skipped < n")
    case False
    with less.prems show ?thesis by (subst skip_n_loop.simps) (auto simp: unless_served_def)
  next
    case True
    obtain s' c where c: "fresh s b = (s', c)" "ok c" "rest c = rest b" "tell c = tell b"
      "ahead c = [] \<longleftrightarrow> rest b = []" "s' = OK_status \<or> IsOutOfRange s'" "rest b = [] \<Longrightarrow> IsOutOfRange s'"
      using fresh_ok [OF less.prems(1,2)] by blast
    show ?thesis
    proof (cases "rest b = []")
      case empty: True
      with True c less.prems(3) show ?thesis
        by (subst skip_n_loop.simps) (simp add: fresh_def [symmetric] unless_served_def)
    next
      case more: False
      define k where "k = min (length (ahead c)) (n - skipped)"
      have k: "k \<le> length (ahead c)" "k \<le> n - skipped" "0 < k" using c(5) more True by (auto simp: k_def)
      note t = taken [OF c(2) k(1)]
      note adv = advance [OF c(2) k(1)]
      have smaller: "n - (skipped + k) < n - skipped" and fits: "skipped + k \<le> n" using k True by simp_all
      have len: "n - (skipped + k) = n - skipped - k" by simp
      have "skip_n_loop fill ahead advance n skipped s b = skip_n_loop fill ahead advance n (skipped + k) s' (advance k c)"
        using True c(1,5) more by (subst skip_n_loop.simps) (simp add: fresh_def [symmetric] k_def Let_def)
      moreover note less.hyps [OF smaller _ c(6) fits, of "advance k c", unfolded len]
      moreover note parts = served_parts [OF k(2) t(2)]
      ultimately show ?thesis
        using adv unfolding c(3) by (simp only: c(4) parts add.assoc simp_thms)
    qed
  qed
qed

text \<open>A line: the bytes before the next line feed without the carriage returns.\<close>

lemma read_line:
  assumes "ok b" "s = OK_status \<or> IsOutOfRange s"
  shows "\<exists>s' c. let line = takeWhile (\<lambda>x. x \<noteq> 10) (rest b); result' = result @ filter (\<lambda>x. x \<noteq> 13) line in
    if length line < length (rest b) then
      read_line_loop fill ahead advance include_eol result s b =
        Some (OK_status, if include_eol then result' @ [10] else result', c) \<and>
      ok c \<and> rest c = drop (length line + 1) (rest b) \<and> tell c = tell b + length line + 1
    else
      read_line_loop fill ahead advance include_eol result s b = Some (s', result', c) \<and>
      (if result' \<noteq> [] then s' = OK_status else IsOutOfRange s') \<and>
      ok c \<and> rest c = [] \<and> tell c = tell b + length line"
  using assms
proof (induction "length (rest b)" arbitrary: result s b rule: less_induct)
  case less
  obtain s' c where c: "fresh s b = (s', c)" "ok c" "rest c = rest b" "tell c = tell b"
    "ahead c = [] \<longleftrightarrow> rest b = []" "s' = OK_status \<or> IsOutOfRange s'" "rest b = [] \<Longrightarrow> IsOutOfRange s'"
    using fresh_ok [OF less.prems] by blast
  show ?case
  proof (cases "rest b")
    case Nil
    with c show ?thesis by (subst (1 2) read_line_loop.simps) (simp add: fresh_def [symmetric] unless_served_def)
  next
    case (Cons x xs)
    with c(5) have "1 \<le> length (ahead c)" by (cases "ahead c") auto
    note t = taken [OF c(2) this] and adv = advance [OF c(2) this]
    have "hd (ahead c) = x" using t(1) c(3,5) Cons by (cases "ahead c") auto
    then have step: "read_line_loop fill ahead advance include_eol result s b =
        (if x = 10 then Some (OK_status, if include_eol then result @ [x] else result, advance 1 c)
         else read_line_loop fill ahead advance include_eol (if x \<noteq> 13 then result @ [x] else result) s' (advance 1 c))"
      using c(1,5) Cons by (subst read_line_loop.simps) (simp add: fresh_def [symmetric])
    show ?thesis
    proof (cases "x = 10")
      case True
      with step adv c(3,4) Cons show ?thesis by simp
    next
      case False
      have "length (rest (advance 1 c)) < length (rest b)" using adv c(3) Cons by simp
      from less.hyps [OF this _ c(6), of "if x \<noteq> 13 then result @ [x] else result"] False step adv c(3,4) Cons
      show ?thesis by (auto simp: Let_def split: if_splits)
    qed
  qed
qed

lemma read_whole_line:
  assumes "ok b"
  shows "\<exists>s c. let line = takeWhile (\<lambda>x. x \<noteq> 10) (rest b); result = filter (\<lambda>x. x \<noteq> 13) line in
    read_line_loop fill ahead advance False [] OK_status b = Some (s, result, c) \<and> ok c \<and>
    rest c = drop (length line + 1) (rest b) \<and> tell c = tell b + min (length line + 1) (length (rest b)) \<and>
    (if line \<noteq> rest b \<or> result \<noteq> [] then s = OK_status else IsOutOfRange s)"
proof -
  define line where "line = takeWhile (\<lambda>x. x \<noteq> 10) (rest b)"
  obtain left where left: "rest b = line @ left" using takeWhile_dropWhile_id [of "\<lambda>x. x \<noteq> 10" "rest b"] line_def by metis
  then have whole: "length line < length (rest b) \<longleftrightarrow> line \<noteq> rest b" "length line \<le> length (rest b)" by auto
  show ?thesis
    using read_line [OF assms, of OK_status "[]" False] whole unfolding Let_def line_def [symmetric]
    by (cases "line = rest b") auto
qed

end

end
