(* ===== verification/Input_Buffer.thy ===== *)
theory Input_Buffer
  imports Buffered Numbers Coding_Laws
begin

text \<open>
  \<open>src/base/io/inputbuffer.h\<close> and \<open>inputbuffer.cc\<close>: a buffer on top of a file. The pointers
  into the buffer are offsets.
\<close>

section \<open>The state and the operations\<close>

record input_buffer =
  ib_file_pos :: nat
  ib_size :: nat
  ib_buf :: "byte list"
  ib_pos :: nat
  ib_limit :: nat

text \<open>The bytes of a new buffer are not read before they are written.\<close>

definition make_input_buffer :: "nat \<Rightarrow> input_buffer" where
  "make_input_buffer buffer_bytes =
     \<lparr>ib_file_pos = 0, ib_size = buffer_bytes, ib_buf = replicate buffer_bytes 0, ib_pos = 0, ib_limit = 0\<rparr>"

definition ib_ahead :: "input_buffer \<Rightarrow> byte list" where
  "ib_ahead b = take (ib_limit b - ib_pos b) (drop (ib_pos b) (ib_buf b))"

definition ib_advance :: "nat \<Rightarrow> input_buffer \<Rightarrow> input_buffer" where
  "ib_advance k b = b\<lparr>ib_pos := ib_pos b + k\<rparr>"

definition ib_FillBuffer :: "access_file \<Rightarrow> input_buffer \<Rightarrow> status \<times> input_buffer" where
  "ib_FillBuffer access b =
     (let (s, data) = access (ib_file_pos b) (ib_size b) in
      (s, b\<lparr>ib_buf := data @ drop (length data) (ib_buf b), ib_pos := 0, ib_limit := length data,
            ib_file_pos := ib_file_pos b + length data\<rparr>))"

definition ib_ReadLine :: "access_file \<Rightarrow> input_buffer \<Rightarrow> (status \<times> byte list \<times> input_buffer) option" where
  "ib_ReadLine access = read_line_loop (ib_FillBuffer access) ib_ahead ib_advance False [] OK_status"

text \<open>\<open>StrCat\<close> of a text and a number.\<close>

definition cat_number :: "string \<Rightarrow> int \<Rightarrow> string" where
  "cat_number msg n = msg @ FastInt64ToBufferLeft (word_of_int n)"

definition ib_ReadNBytes :: "access_file \<Rightarrow> int \<Rightarrow> input_buffer \<Rightarrow> (status \<times> byte list \<times> input_buffer) option" where
  "ib_ReadNBytes access bytes_to_read b =
     (if bytes_to_read < 0 then
        Some (InvalidArgument (cat_number ''Can't read a negative number of bytes: '' bytes_to_read), [], b)
      else read_n_loop (ib_FillBuffer access) ib_ahead ib_advance (nat bytes_to_read) [] OK_status b)"

text \<open>
  The slow path, from a shift on; the second result is \<open>*result\<close>. The shift is taken in 32 bits, as
  compilers do; the code shifts an \<open>int\<close>, which overflows for a fifth byte whose low bits are above 15.
\<close>

fun varint_fallback ::
    "access_file \<Rightarrow> nat list \<Rightarrow> 32 word \<Rightarrow> input_buffer \<Rightarrow> (status \<times> 32 word \<times> input_buffer) option" where
  "varint_fallback access [] result b = Some (DataLoss ''Stored data is too large to be a varint32.'', result, b)"
| "varint_fallback access (shift # shifts) result b =
     (case ib_ReadNBytes access 1 b of
        None \<Rightarrow> None
      | Some (s, bytes, b) \<Rightarrow>
          if \<not> is_ok s then Some (s, result, b)
          else
            let scratch = hd bytes; result = result OR push_bit shift (ucast (scratch AND 127)) in
            if scratch AND 128 = 0 then Some (OK_status, result, b)
            else varint_fallback access shifts result b)"

definition ib_ReadVarint32 :: "access_file \<Rightarrow> input_buffer \<Rightarrow> (status \<times> 32 word option \<times> input_buffer) option" where
  "ib_ReadVarint32 access b =
     (if ib_pos b + 5 \<le> ib_limit b then
        (case GetVarint32Ptr (ib_ahead b) of
           None \<Rightarrow> Some (OutOfRange ''Parsed past limit.'', None, b)
         | Some (v, left) \<Rightarrow> Some (OK_status, Some v, b\<lparr>ib_pos := ib_limit b - length left\<rparr>))
      else
        map_option (\<lambda>(s, result, b). (s, Some result, b)) (varint_fallback access [0, 7, 14, 21, 28] 0 b))"

definition ib_SkipNBytes :: "access_file \<Rightarrow> int \<Rightarrow> input_buffer \<Rightarrow> (status \<times> input_buffer) option" where
  "ib_SkipNBytes access bytes_to_skip b =
     (if bytes_to_skip < 0 then
        Some (InvalidArgument (cat_number ''Can only skip forward, not '' bytes_to_skip), b)
      else skip_n_loop (ib_FillBuffer access) ib_ahead ib_advance (nat bytes_to_skip) 0 OK_status b)"

definition ib_Seek :: "int \<Rightarrow> input_buffer \<Rightarrow> status \<times> input_buffer" where
  "ib_Seek position b =
     (if position < 0 then
        (InvalidArgument (cat_number ''Seeking to a negative position: '' position), b)
      else
        let bufpos = int (ib_file_pos b) - int (ib_limit b) in
        if bufpos \<le> position \<and> position < int (ib_file_pos b) then
          (OK_status, b\<lparr>ib_pos := nat (position - bufpos)\<rparr>)
        else (OK_status, b\<lparr>ib_pos := 0, ib_limit := 0, ib_file_pos := nat position\<rparr>))"

definition ib_Tell :: "input_buffer \<Rightarrow> nat" where
  "ib_Tell b = ib_file_pos b - (ib_limit b - ib_pos b)"

section \<open>What the buffer stands for\<close>

text \<open>The bytes before \<open>limit_\<close> are those before \<open>file_pos_\<close> in the file.\<close>

definition ib_ok :: "byte list \<Rightarrow> input_buffer \<Rightarrow> bool" where
  "ib_ok data b \<longleftrightarrow> 0 < ib_size b \<and> length (ib_buf b) = ib_size b \<and> ib_pos b \<le> ib_limit b \<and>
     ib_limit b \<le> ib_size b \<and> ib_limit b \<le> ib_file_pos b \<and>
     take (ib_limit b) (ib_buf b) = take (ib_limit b) (drop (ib_file_pos b - ib_limit b) data)"

definition ib_rest :: "byte list \<Rightarrow> input_buffer \<Rightarrow> byte list" where
  "ib_rest data b = drop (ib_Tell b) data"

lemma make_input_buffer_ok: "0 < n \<Longrightarrow> ib_ok data (make_input_buffer n) \<and> ib_Tell (make_input_buffer n) = 0"
  by (simp add: ib_ok_def make_input_buffer_def ib_Tell_def)

lemma length_ib_ahead: "ib_ok data b \<Longrightarrow> length (ib_ahead b) = ib_limit b - ib_pos b"
  by (auto simp: ib_ok_def ib_ahead_def)

lemma ib_ahead_rest:
  assumes "ib_ok data b"
  shows "ib_ahead b = take (length (ib_ahead b)) (ib_rest data b)"
proof -
  have o: "ib_pos b \<le> ib_limit b" "ib_limit b \<le> ib_file_pos b"
    "take (ib_limit b) (ib_buf b) = take (ib_limit b) (drop (ib_file_pos b - ib_limit b) data)"
    using assms by (simp_all add: ib_ok_def)
  have "ib_ahead b = drop (ib_pos b) (take (ib_limit b) (ib_buf b))" by (simp add: ib_ahead_def drop_take)
  also have "\<dots> = take (ib_limit b - ib_pos b) (drop (ib_pos b + (ib_file_pos b - ib_limit b)) data)"
    unfolding o(3) by (simp add: drop_take add.commute)
  also have "ib_pos b + (ib_file_pos b - ib_limit b) = ib_Tell b" using o by (simp add: ib_Tell_def)
  finally show ?thesis unfolding length_ib_ahead [OF assms] ib_rest_def .
qed

context random_access_file
begin

lemma buffered: "buffered_source (ib_FillBuffer access) ib_ahead ib_advance (ib_ok data) (ib_rest data) ib_Tell"
proof
  fix b assume ok: "ib_ok data b"
  then show "ib_ahead b = take (length (ib_ahead b)) (ib_rest data b)" by (rule ib_ahead_rest)
  fix k assume k: "k \<le> length (ib_ahead b)"
  then have le: "k \<le> ib_limit b - ib_pos b" using length_ib_ahead [OF ok] by simp
  have o: "ib_pos b \<le> ib_limit b" "ib_limit b \<le> ib_file_pos b" using ok by (simp_all add: ib_ok_def)
  have tell: "ib_Tell (ib_advance k b) = ib_Tell b + k" using o le by (simp add: ib_Tell_def ib_advance_def)
  have "ib_ok data (ib_advance k b)" using ok le by (auto simp: ib_ok_def ib_advance_def)
  moreover have "ib_ahead (ib_advance k b) = drop k (ib_ahead b)"
    by (simp add: ib_ahead_def ib_advance_def drop_take add.commute)
  ultimately show "ib_ok data (ib_advance k b) \<and> ib_ahead (ib_advance k b) = drop k (ib_ahead b) \<and>
      ib_rest data (ib_advance k b) = drop k (ib_rest data b) \<and> ib_Tell (ib_advance k b) = ib_Tell b + k"
    using tell by (simp add: ib_rest_def add.commute)
next
  fix b s c assume ok: "ib_ok data b" and empty: "ib_ahead b = []" and fill: "ib_FillBuffer access b = (s, c)"
  have pos: "ib_pos b = ib_limit b" using ok empty length_ib_ahead [OF ok] by (simp add: ib_ok_def)
  define bytes where "bytes = take (ib_size b) (drop (ib_file_pos b) data)"
  have sb: "access (ib_file_pos b) (ib_size b) = (s, bytes)"
    using fill read_bytes [of "ib_file_pos b" "ib_size b"] by (auto simp: ib_FillBuffer_def bytes_def split: prod.splits)
  have s: "if ib_size b \<le> length data - ib_file_pos b then s = OK_status else IsOutOfRange s"
  proof -
    have "fst (access (ib_file_pos b) (ib_size b)) = s" using sb by simp
    with read_status [where n = "ib_size b" and offset = "ib_file_pos b"] show ?thesis
      by (cases "ib_size b \<le> length data - ib_file_pos b") simp_all
  qed
  have c: "c = b\<lparr>ib_buf := bytes @ drop (length bytes) (ib_buf b), ib_pos := 0, ib_limit := length bytes,
      ib_file_pos := ib_file_pos b + length bytes\<rparr>"
    using fill sb by (simp add: ib_FillBuffer_def)
  have size: "0 < ib_size b" "length (ib_buf b) = ib_size b" "length bytes \<le> ib_size b" using ok by (simp_all add: ib_ok_def bytes_def)
  have tell: "ib_Tell c = ib_Tell b" "ib_Tell b = ib_file_pos b" using pos by (simp_all add: c ib_Tell_def)
  have "ib_ok data c" using size by (simp add: ib_ok_def c) (simp add: bytes_def min_def)
  moreover have "ib_ahead c = bytes" by (simp add: ib_ahead_def c)
  moreover have "ib_rest data b \<noteq> [] \<longrightarrow> bytes \<noteq> []" using size tell by (simp add: bytes_def ib_rest_def)
  moreover have "s = OK_status \<or> IsOutOfRange s" using s by (simp split: if_splits)
  moreover have "ib_rest data b = [] \<longrightarrow> IsOutOfRange s" using s size tell by (auto simp: ib_rest_def split: if_splits)
  ultimately show "ib_ok data c \<and> ib_rest data c = ib_rest data b \<and> ib_Tell c = ib_Tell b \<and>
      (ib_rest data b \<noteq> [] \<longrightarrow> ib_ahead c \<noteq> []) \<and> (s = OK_status \<or> IsOutOfRange s) \<and>
      (ib_rest data b = [] \<longrightarrow> IsOutOfRange s)"
    using tell by (simp add: ib_rest_def)
qed

end

sublocale random_access_file \<subseteq> input_buffer: buffered_source "ib_FillBuffer access" ib_ahead ib_advance
    "ib_ok data" "ib_rest data" ib_Tell
  by (rule buffered)

section \<open>Varints\<close>

lemma get_varint_prefix:
  "get_varint_loop final shift r p = Some (v, left) \<Longrightarrow>
    \<exists>k. 7 * k + shift \<le> final + 7 \<and> k \<le> length p \<and> left = drop k p \<and>
      (\<forall>m \<ge> k. get_varint_loop final shift r (take m p) = Some (v, take (m - k) left))"
proof (induction final shift r p rule: get_varint_loop.induct)
  case (2 final shift r b p)
  then have shift: "\<not> final < shift" by (auto split: if_splits)
  show ?case
  proof (cases "b AND 128 = 0")
    case True
    with 2 shift show ?thesis by (intro exI [of _ 1]) (auto simp: take_Cons' split: if_splits)
  next
    case False
    with "2.prems" shift have "get_varint_loop final (shift + 7) (r OR push_bit shift (ucast b AND 127)) p = Some (v, left)"
      by simp
    from "2.IH" [OF shift _ this] False obtain k where k: "7 * k + (shift + 7) \<le> final + 7" "k \<le> length p" "left = drop k p"
      "\<forall>m \<ge> k. get_varint_loop final (shift + 7) (r OR push_bit shift (ucast b AND 127)) (take m p) = Some (v, take (m - k) left)"
      by auto
    then have "get_varint_loop final shift r (take m (b # p)) = Some (v, take (m - Suc k) left)" if "Suc k \<le> m" for m
      using that shift False by (cases m) simp_all
    with k show ?thesis by (intro exI [of _ "Suc k"]) simp
  qed
qed simp

lemma low_bits: "ucast (b AND 127) = (ucast b AND 127 :: 32 word)" "b AND 128 = 0 \<Longrightarrow> (ucast (b AND 127) :: 32 word) = ucast b"
  for b :: byte
proof -
  have m: "(127 :: byte) = mask 7" "(127 :: 32 word) = mask 7" by (simp_all add: mask_eq_exp_minus_1)
  show low: "ucast (b AND 127) = (ucast b AND 127 :: 32 word)" unfolding m by (rule bit_word_eqI) (auto simp: bit_simps)
  assume "b AND 128 = 0"
  then have "\<not> bit (b AND push_bit 7 1) 7" by simp
  then have "\<not> bit b 7" by (simp add: bit_simps)
  then have "j < 7" if "bit b j" for j using bit_imp_le_length [OF that] that by (cases "j = 7") auto
  then have "b AND 127 = b" unfolding m by (intro bit_word_eqI) (auto simp: bit_simps)
  then show "(ucast (b AND 127) :: 32 word) = ucast b" by simp
qed

context random_access_file
begin

lemma ReadNBytes_ok:
  assumes "ib_ok data b"
  shows "\<exists>s c. ib_ReadNBytes access (int n) b = Some (s, take n (ib_rest data b), c) \<and>
    (if n \<le> length (ib_rest data b) then s = OK_status else IsOutOfRange s) \<and>
    ib_ok data c \<and> ib_rest data c = drop n (ib_rest data b) \<and> ib_Tell c = ib_Tell b + min n (length (ib_rest data b))"
  using input_buffer.read_n [OF assms, of OK_status "[]" n] by (simp add: ib_ReadNBytes_def)

lemma SkipNBytes_ok:
  assumes "ib_ok data b"
  shows "\<exists>s c. ib_SkipNBytes access (int n) b = Some (s, c) \<and>
    (if n \<le> length (ib_rest data b) then s = OK_status else IsOutOfRange s) \<and>
    ib_ok data c \<and> ib_rest data c = drop n (ib_rest data b) \<and> ib_Tell c = ib_Tell b + min n (length (ib_rest data b))"
  using input_buffer.skip_n [OF assms, of OK_status 0 n] by (simp add: ib_SkipNBytes_def)

lemma ReadLine_ok:
  assumes "ib_ok data b"
  shows "\<exists>s c. let line = takeWhile (\<lambda>x. x \<noteq> 10) (ib_rest data b); result = filter (\<lambda>x. x \<noteq> 13) line in
    ib_ReadLine access b = Some (s, result, c) \<and> ib_ok data c \<and>
    ib_rest data c = drop (length line + 1) (ib_rest data b) \<and>
    (if line \<noteq> ib_rest data b \<or> result \<noteq> [] then s = OK_status else IsOutOfRange s)"
  using input_buffer.read_whole_line [OF assms] unfolding ib_ReadLine_def Let_def by blast

lemma fallback_ok:
  "get_varint_loop 28 shift r (ib_rest data b) = Some (v, left) \<Longrightarrow> 28 < shift + 7 * n \<Longrightarrow> ib_ok data b \<Longrightarrow>
    \<exists>c. varint_fallback access (map (\<lambda>i. shift + 7 * i) [0..<n]) r b = Some (OK_status, v, c) \<and>
      ib_ok data c \<and> ib_rest data c = left"
proof (induction n arbitrary: shift r b)
  case 0
  then show ?case by (cases "ib_rest data b") auto
next
  case (Suc n)
  then obtain x xs where x: "ib_rest data b = x # xs" by (cases "ib_rest data b") auto
  with Suc.prems(1) have shift: "\<not> 28 < shift" by (auto split: if_splits)
  from ReadNBytes_ok [OF Suc.prems(3), of 1] x obtain c where c: "ib_ReadNBytes access 1 b = Some (OK_status, [x], c)"
    "ib_ok data c" "ib_rest data c = xs" by auto
  have shifts: "map (\<lambda>i. shift + 7 * i) [0..<Suc n] = shift # map (\<lambda>i. shift + 7 + 7 * i) [0..<n]"
    by (rule nth_equalityI) (auto simp: nth_Cons split: nat.split simp del: upt_Suc)
  show ?case
  proof (cases "x AND 128 = 0")
    case True
    with Suc.prems(1) x shift c shifts low_bits [of x] show ?thesis by (simp add: is_ok_def OK_status_def)
  next
    case False
    have "get_varint_loop 28 (shift + 7) (r OR push_bit shift (ucast (x AND 127))) (ib_rest data c) = Some (v, left)"
      using Suc.prems(1) x shift False c(3) low_bits(1) [of x] by simp
    from Suc.IH [OF this _ c(2)] Suc.prems(2) False c(1) show ?thesis
      unfolding shifts by (simp add: is_ok_def OK_status_def)
  qed
qed

lemma ReadVarint32_ok:
  assumes ok: "ib_ok data b" and v: "GetVarint32 (ib_rest data b) = Some (v, left)"
  shows "\<exists>c. ib_ReadVarint32 access b = Some (OK_status, Some v, c) \<and> ib_ok data c \<and> ib_rest data c = left"
proof -
  have loop: "get_varint_loop 28 0 0 (ib_rest data b) = Some (v, left)"
    using v by (simp add: GetVarint32_def GetVarint32Ptr_eq GetVarint32PtrFallback_def)
  show ?thesis
  proof (cases "ib_pos b + 5 \<le> ib_limit b")
    case False
    have "map (\<lambda>i. 0 + 7 * i) [0..<5] = [0, 7, 14, 21, 28 :: nat]" by (simp add: upt_rec)
    with fallback_ok [OF loop, of 5] ok False show ?thesis by (auto simp: ib_ReadVarint32_def)
  next
    case True
    define m where "m = length (ib_ahead b)"
    have m: "m = ib_limit b - ib_pos b" using length_ib_ahead [OF ok] by (simp add: m_def)
    from get_varint_prefix [OF loop] obtain k where k: "7 * k \<le> 35" "k \<le> length (ib_rest data b)"
      "left = drop k (ib_rest data b)" "\<forall>m \<ge> k. get_varint_loop 28 0 0 (take m (ib_rest data b)) = Some (v, take (m - k) left)"
      by auto
    have le: "k \<le> m" using k(1) True m by simp
    have ahead: "ib_ahead b = take m (ib_rest data b)" using ib_ahead_rest [OF ok] by (simp only: m_def)
    have "GetVarint32Ptr (ib_ahead b) = Some (v, take (m - k) left)"
      unfolding ahead GetVarint32Ptr_eq GetVarint32PtrFallback_def using k(4) le by blast
    moreover have "length (take (m - k) left) = m - k"
      using arg_cong [OF ib_ahead_rest [OF ok], of length] k(3) by (simp add: m_def)
    moreover have "ib_limit b - (m - k) = ib_pos b + k" using m le True by linarith
    ultimately have "ib_ReadVarint32 access b = Some (OK_status, Some v, ib_advance k b)"
      using True by (simp add: ib_ReadVarint32_def ib_advance_def)
    with input_buffer.advance [OF ok, of k] le k(3) show ?thesis by (simp add: m_def)
  qed
qed

end

lemma Seek_ok:
  assumes ok: "ib_ok data b"
  shows "\<exists>c. ib_Seek (int n) b = (OK_status, c) \<and> ib_ok data c \<and> ib_Tell c = n \<and> ib_rest data c = drop n data"
proof (cases "int (ib_file_pos b) - int (ib_limit b) \<le> int n \<and> int n < int (ib_file_pos b)")
  case True
  define c where "c = b\<lparr>ib_pos := n + ib_limit b - ib_file_pos b\<rparr>"
  have "nat (int n - (int (ib_file_pos b) - int (ib_limit b))) = n + ib_limit b - ib_file_pos b" using True by linarith
  with True have "ib_Seek (int n) b = (OK_status, c)" by (simp add: ib_Seek_def c_def)
  moreover have "ib_ok data c" using ok True by (auto simp: ib_ok_def c_def)
  moreover have "ib_Tell c = n" using ok True by (auto simp: ib_ok_def ib_Tell_def c_def)
  ultimately show ?thesis by (simp add: ib_rest_def)
next
  case False
  define c where "c = b\<lparr>ib_pos := 0, ib_limit := 0, ib_file_pos := n\<rparr>"
  have "ib_Seek (int n) b = (OK_status, c)" using False by (auto simp: ib_Seek_def c_def Let_def)
  moreover have "ib_ok data c" using ok by (simp add: ib_ok_def c_def)
  moreover have "ib_Tell c = n" by (simp add: ib_Tell_def c_def)
  ultimately show ?thesis by (simp add: ib_rest_def)
qed

end
