(* ===== verification/Input_Stream.thy ===== *)
theory Input_Stream
  imports Input_Buffer
begin

text \<open>
  The input streams of \<open>src/base/io\<close>: the interface with its default \<open>SkipNBytes\<close>
  (\<open>inputstream_interface.cc\<close>), the stream of a file (\<open>random_inputstream.cc\<close>), and the
  buffered stream on top of another stream (\<open>buffered_inputstream.cc\<close>).
\<close>

section \<open>The interface\<close>

text \<open>The default \<open>SkipNBytes\<close>, on the \<open>ReadNBytes\<close> of the stream, in steps of 8 MB.\<close>

definition kMaxSkipSize :: nat where
  "kMaxSkipSize = 8 * 1024 * 1024"

function skip_by_reading :: "(int \<Rightarrow> 's \<Rightarrow> status \<times> byte list \<times> 's) \<Rightarrow> nat \<Rightarrow> 's \<Rightarrow> status \<times> 's" where
  "skip_by_reading read bytes_to_skip s =
     (if 0 < bytes_to_skip then
        let bytes_to_read = min kMaxSkipSize bytes_to_skip; (st, _, s) = read (int bytes_to_read) s in
        if \<not> is_ok st then (st, s) else skip_by_reading read (bytes_to_skip - bytes_to_read) s
      else (OK_status, s))"
  by pat_completeness auto

termination
  by (relation "measure (\<lambda>(_, n, _). n)") (auto simp: kMaxSkipSize_def)

declare skip_by_reading.simps [simp del]

definition SkipNBytes :: "(int \<Rightarrow> 's \<Rightarrow> status \<times> byte list \<times> 's) \<Rightarrow> int \<Rightarrow> 's \<Rightarrow> status \<times> 's" where
  "SkipNBytes read bytes_to_skip s =
     (if bytes_to_skip < 0 then (InvalidArgument ''Can't skip a negative number of bytes'', s)
      else skip_by_reading read (nat bytes_to_skip) s)"

text \<open>The virtual functions of a stream.\<close>

record 's stream_ops =
  stream_read :: "int \<Rightarrow> 's \<Rightarrow> status \<times> byte list \<times> 's"
  stream_skip :: "int \<Rightarrow> 's \<Rightarrow> status \<times> 's"
  stream_tell :: "'s \<Rightarrow> nat"
  stream_reset :: "'s \<Rightarrow> status \<times> 's"

text \<open>What the interface documents, for a stream of \<open>data\<close>.\<close>

locale input_stream =
  fixes ops :: "'s stream_ops" and ok :: "'s \<Rightarrow> bool" and data :: "byte list"
  assumes read: "ok s \<Longrightarrow> \<exists>st c. stream_read ops (int n) s = (st, take n (drop (stream_tell ops s) data), c) \<and>
      (if n \<le> length data - stream_tell ops s then st = OK_status else IsOutOfRange st) \<and>
      ok c \<and> stream_tell ops c = stream_tell ops s + min n (length data - stream_tell ops s)"
    and skip: "ok s \<Longrightarrow> \<exists>st c. stream_skip ops (int n) s = (st, c) \<and>
      (if n \<le> length data - stream_tell ops s then st = OK_status else IsOutOfRange st) \<and>
      ok c \<and> stream_tell ops c = stream_tell ops s + min n (length data - stream_tell ops s)"
    and reset: "ok s \<Longrightarrow> \<exists>c. stream_reset ops s = (OK_status, c) \<and> ok c \<and> stream_tell ops c = 0"

section \<open>The stream of a file\<close>

record file_stream =
  fs_pos :: nat

definition fs_ReadNBytes :: "access_file \<Rightarrow> int \<Rightarrow> file_stream \<Rightarrow> status \<times> byte list \<times> file_stream" where
  "fs_ReadNBytes access bytes_to_read s =
     (if bytes_to_read < 0 then (InvalidArgument ''Cannot read negative number of bytes'', [], s)
      else
        let (st, data) = access (fs_pos s) (nat bytes_to_read) in
        if is_ok st \<or> IsOutOfRange st then
          let s = s\<lparr>fs_pos := fs_pos s + length data\<rparr> in
          if int (length data) < bytes_to_read then (OutOfRange ''reached end of file'', data, s)
          else (OK_status, data, s)
        else (st, data, s))"

definition fs_Seek :: "nat \<Rightarrow> file_stream \<Rightarrow> status \<times> file_stream" where
  "fs_Seek position s = (OK_status, s\<lparr>fs_pos := position\<rparr>)"

definition file_stream_ops :: "access_file \<Rightarrow> file_stream stream_ops" where
  "file_stream_ops access =
     \<lparr>stream_read = fs_ReadNBytes access, stream_skip = SkipNBytes (fs_ReadNBytes access),
      stream_tell = fs_pos, stream_reset = fs_Seek 0\<rparr>"

section \<open>The buffered stream\<close>

record 's buffered_stream =
  bs_inner :: 's
  bs_size :: nat
  bs_buf :: "byte list"
  bs_pos :: nat
  bs_limit :: nat

definition make_buffered_stream :: "'s \<Rightarrow> nat \<Rightarrow> 's buffered_stream" where
  "make_buffered_stream s buffer_size =
     \<lparr>bs_inner = s, bs_size = buffer_size, bs_buf = [], bs_pos = 0, bs_limit = 0\<rparr>"

definition bs_ahead :: "'s buffered_stream \<Rightarrow> byte list" where
  "bs_ahead b = take (bs_limit b - bs_pos b) (drop (bs_pos b) (bs_buf b))"

definition bs_advance :: "nat \<Rightarrow> 's buffered_stream \<Rightarrow> 's buffered_stream" where
  "bs_advance k b = b\<lparr>bs_pos := bs_pos b + k\<rparr>"

definition bs_FillBuffer :: "'s stream_ops \<Rightarrow> 's buffered_stream \<Rightarrow> status \<times> 's buffered_stream" where
  "bs_FillBuffer ops b =
     (let (st, buf, inner) = stream_read ops (int (bs_size b)) (bs_inner b) in
      (st, b\<lparr>bs_inner := inner, bs_buf := buf, bs_pos := 0, bs_limit := length buf\<rparr>))"

definition ReadLineHelper ::
    "'s stream_ops \<Rightarrow> bool \<Rightarrow> 's buffered_stream \<Rightarrow> (status \<times> byte list \<times> 's buffered_stream) option" where
  "ReadLineHelper ops include_eol =
     read_line_loop (bs_FillBuffer ops) bs_ahead bs_advance include_eol [] OK_status"

definition bs_ReadNBytes ::
    "'s stream_ops \<Rightarrow> int \<Rightarrow> 's buffered_stream \<Rightarrow> (status \<times> byte list \<times> 's buffered_stream) option" where
  "bs_ReadNBytes ops bytes_to_read b =
     (if bytes_to_read < 0 then
        Some (InvalidArgument (cat_number ''Can't read a negative number of bytes: '' bytes_to_read), [], b)
      else read_n_loop (bs_FillBuffer ops) bs_ahead bs_advance (nat bytes_to_read) [] OK_status b)"

definition bs_SkipNBytes :: "'s stream_ops \<Rightarrow> int \<Rightarrow> 's buffered_stream \<Rightarrow> status \<times> 's buffered_stream" where
  "bs_SkipNBytes ops bytes_to_skip b =
     (if bytes_to_skip < 0 then
        (InvalidArgument (cat_number ''Can only skip forward, not '' bytes_to_skip), b)
      else if int (bs_pos b) + bytes_to_skip < int (bs_limit b) then
        (OK_status, b\<lparr>bs_pos := bs_pos b + nat bytes_to_skip\<rparr>)
      else
        let (st, inner) = stream_skip ops (bytes_to_skip - int (bs_limit b - bs_pos b)) (bs_inner b) in
        (st, b\<lparr>bs_inner := inner, bs_pos := 0, bs_limit := 0\<rparr>))"

definition bs_Tell :: "'s stream_ops \<Rightarrow> 's buffered_stream \<Rightarrow> nat" where
  "bs_Tell ops b = stream_tell ops (bs_inner b) - (bs_limit b - bs_pos b)"

definition bs_Reset :: "'s stream_ops \<Rightarrow> 's buffered_stream \<Rightarrow> status \<times> 's buffered_stream" where
  "bs_Reset ops b =
     (let (st, inner) = stream_reset ops (bs_inner b); b = b\<lparr>bs_inner := inner\<rparr> in
      if \<not> is_ok st then (st, b) else (OK_status, b\<lparr>bs_pos := 0, bs_limit := 0\<rparr>))"

definition bs_Seek :: "'s stream_ops \<Rightarrow> int \<Rightarrow> 's buffered_stream \<Rightarrow> status \<times> 's buffered_stream" where
  "bs_Seek ops position b =
     (if position < 0 then
        (InvalidArgument (cat_number ''Seeking to a negative position: '' position), b)
      else
        let bufpos = int (bs_Tell ops b) in
        if position < bufpos then
          let (st, b) = bs_Reset ops b in
          if \<not> is_ok st then (st, b) else bs_SkipNBytes ops position b
        else bs_SkipNBytes ops (position - bufpos) b)"

definition bs_ReadLine :: "'s stream_ops \<Rightarrow> 's buffered_stream \<Rightarrow> (status \<times> byte list \<times> 's buffered_stream) option" where
  "bs_ReadLine ops = ReadLineHelper ops False"

definition ReadLineAsString :: "'s stream_ops \<Rightarrow> 's buffered_stream \<Rightarrow> (byte list \<times> 's buffered_stream) option" where
  "ReadLineAsString ops b = map_option snd (ReadLineHelper ops True b)"

end
