(* ===== verification/Input_Stream_Laws.thy ===== *)
theory Input_Stream_Laws
  imports Input_Stream
begin

text \<open>The stream of a file keeps the interface, and the buffered stream keeps it on top of any.\<close>

section \<open>The default way to skip\<close>

lemma skip_by_reading_ok:
  assumes read: "\<And>s n. ok s \<Longrightarrow> \<exists>st bytes c. read (int n) s = (st, bytes, c) \<and>
      (if n \<le> length data - tell s then st = OK_status else IsOutOfRange st) \<and>
      ok c \<and> tell c = tell s + min n (length data - tell s)"
  shows "ok s \<Longrightarrow> \<exists>st c. skip_by_reading read n s = (st, c) \<and>
      (if n \<le> length data - tell s then st = OK_status else IsOutOfRange st) \<and>
      ok c \<and> tell c = tell s + min n (length data - tell s)"
proof (induction n arbitrary: s rule: less_induct)
  case (less n)
  show ?case
  proof (cases "0 < n")
    case False
    with less.prems show ?thesis by (subst skip_by_reading.simps) simp
  next
    case True
    define k where "k = min kMaxSkipSize n"
    have k: "0 < k" "k \<le> n" using True by (simp_all add: k_def kMaxSkipSize_def)
    obtain st bytes c where c: "read (int k) s = (st, bytes, c)"
      "if k \<le> length data - tell s then st = OK_status else IsOutOfRange st"
      "ok c" "tell c = tell s + min k (length data - tell s)"
      using read [OF less.prems, of k] by blast
    have step: "skip_by_reading read n s = (if \<not> is_ok st then (st, c) else skip_by_reading read (n - k) c)"
      using True c(1) by (subst skip_by_reading.simps) (simp add: k_def)
    show ?thesis
    proof (cases "k \<le> length data - tell s")
      case False
      then have "IsOutOfRange st" using c(2) by simp
      moreover from this have "\<not> is_ok st" by (cases st) (simp_all add: is_ok_def IsOutOfRange_def status_code_of_def)
      ultimately show ?thesis using step c False k(2) by simp
    next
      case True
      have "n - k < n" using k by simp
      from less.IH [OF this c(3)] True c(2,4) step k(2) show ?thesis
        by (auto simp: is_ok_def OK_status_def min_def split: if_splits)
    qed
  qed
qed

section \<open>The stream of a file\<close>

context random_access_file
begin

lemma fs_read:
  "\<exists>st c. fs_ReadNBytes access (int n) s = (st, take n (drop (fs_pos s) data), c) \<and>
    (if n \<le> length data - fs_pos s then st = OK_status else IsOutOfRange st) \<and>
    fs_pos c = fs_pos s + min n (length data - fs_pos s)"
proof -
  obtain st bytes where sb: "access (fs_pos s) n = (st, bytes)" by (cases "access (fs_pos s) n")
  then have bytes: "bytes = take n (drop (fs_pos s) data)" using read_bytes [of "fs_pos s" n] by simp
  have "fst (access (fs_pos s) n) = st" using sb by simp
  with read_status [where n = n and offset = "fs_pos s"] have st:
    "if n \<le> length data - fs_pos s then st = OK_status else IsOutOfRange st" by (cases "n \<le> length data - fs_pos s") simp_all
  then have "is_ok st \<or> IsOutOfRange st" by (auto simp: is_ok_def OK_status_def split: if_splits)
  then show ?thesis using sb bytes
    by (auto simp: fs_ReadNBytes_def min_def IsOutOfRange_def OutOfRange_def status_code_of_def split: if_splits)
qed

lemma file_stream: "input_stream (file_stream_ops access) (\<lambda>_. True) data"
proof
  fix s n
  show "\<exists>st c. stream_read (file_stream_ops access) (int n) s =
      (st, take n (drop (stream_tell (file_stream_ops access) s) data), c) \<and>
      (if n \<le> length data - stream_tell (file_stream_ops access) s then st = OK_status else IsOutOfRange st) \<and>
      True \<and> stream_tell (file_stream_ops access) c =
        stream_tell (file_stream_ops access) s + min n (length data - stream_tell (file_stream_ops access) s)"
    using fs_read [of n s] by (simp add: file_stream_ops_def)
  have "\<exists>st bytes c. fs_ReadNBytes access (int n) s = (st, bytes, c) \<and>
      (if n \<le> length data - fs_pos s then st = OK_status else IsOutOfRange st) \<and>
      True \<and> fs_pos c = fs_pos s + min n (length data - fs_pos s)" for s n
    using fs_read [of n s] by blast
  from skip_by_reading_ok [where ok = "\<lambda>_. True" and tell = fs_pos, OF this]
  show "\<exists>st c. stream_skip (file_stream_ops access) (int n) s = (st, c) \<and>
      (if n \<le> length data - stream_tell (file_stream_ops access) s then st = OK_status else IsOutOfRange st) \<and>
      True \<and> stream_tell (file_stream_ops access) c =
        stream_tell (file_stream_ops access) s + min n (length data - stream_tell (file_stream_ops access) s)"
    by (simp add: file_stream_ops_def SkipNBytes_def)
  show "\<exists>c. stream_reset (file_stream_ops access) s = (OK_status, c) \<and> True \<and> stream_tell (file_stream_ops access) c = 0"
    by (simp add: file_stream_ops_def fs_Seek_def)
qed

end

sublocale random_access_file \<subseteq> stream: input_stream "file_stream_ops access" "\<lambda>_. True" data
  by (rule file_stream)

section \<open>The buffered stream\<close>

text \<open>
  The buffer holds the bytes of the stream before the position of the inner stream; what is left
  to read starts at \<open>Tell\<close>.
\<close>

definition bs_ok :: "'s stream_ops \<Rightarrow> ('s \<Rightarrow> bool) \<Rightarrow> byte list \<Rightarrow> 's buffered_stream \<Rightarrow> bool" where
  "bs_ok ops ok data b \<longleftrightarrow>
     ok (bs_inner b) \<and> 0 < bs_size b \<and> bs_pos b \<le> bs_limit b \<and> bs_limit b \<le> length (bs_buf b) \<and>
     bs_limit b \<le> stream_tell ops (bs_inner b) \<and>
     take (bs_limit b) (bs_buf b) = take (bs_limit b) (drop (stream_tell ops (bs_inner b) - bs_limit b) data)"

definition bs_rest :: "'s stream_ops \<Rightarrow> byte list \<Rightarrow> 's buffered_stream \<Rightarrow> byte list" where
  "bs_rest ops data b = drop (bs_Tell ops b) data"

context input_stream
begin

lemma length_bs_ahead: "bs_ok ops ok data b \<Longrightarrow> length (bs_ahead b) = bs_limit b - bs_pos b"
  by (auto simp: bs_ok_def bs_ahead_def)

lemma bs_ahead_rest:
  assumes "bs_ok ops ok data b"
  shows "bs_ahead b = take (length (bs_ahead b)) (bs_rest ops data b)"
proof -
  let ?tell = "stream_tell ops (bs_inner b)"
  have o: "bs_pos b \<le> bs_limit b" "bs_limit b \<le> ?tell"
    "take (bs_limit b) (bs_buf b) = take (bs_limit b) (drop (?tell - bs_limit b) data)"
    using assms by (simp_all add: bs_ok_def)
  have "bs_ahead b = drop (bs_pos b) (take (bs_limit b) (bs_buf b))" by (simp add: bs_ahead_def drop_take)
  also have "\<dots> = take (bs_limit b - bs_pos b) (drop (bs_pos b + (?tell - bs_limit b)) data)"
    unfolding o(3) by (simp add: drop_take add.commute)
  also have "bs_pos b + (?tell - bs_limit b) = bs_Tell ops b" using o by (simp add: bs_Tell_def)
  finally show ?thesis unfolding length_bs_ahead [OF assms] bs_rest_def .
qed

lemma buffered: "buffered_source (bs_FillBuffer ops) bs_ahead bs_advance (bs_ok ops ok data) (bs_rest ops data) (bs_Tell ops)"
proof
  fix b assume ok: "bs_ok ops ok data b"
  then show "bs_ahead b = take (length (bs_ahead b)) (bs_rest ops data b)" by (rule bs_ahead_rest)
  fix k assume k: "k \<le> length (bs_ahead b)"
  then have le: "k \<le> bs_limit b - bs_pos b" using length_bs_ahead [OF ok] by simp
  have o: "bs_pos b \<le> bs_limit b" "bs_limit b \<le> stream_tell ops (bs_inner b)" using ok by (simp_all add: bs_ok_def)
  have tell: "bs_Tell ops (bs_advance k b) = bs_Tell ops b + k" using o le by (simp add: bs_Tell_def bs_advance_def)
  have "bs_ok ops ok data (bs_advance k b)" using ok le by (auto simp: bs_ok_def bs_advance_def)
  moreover have "bs_ahead (bs_advance k b) = drop k (bs_ahead b)"
    by (simp add: bs_ahead_def bs_advance_def drop_take add.commute)
  ultimately show "bs_ok ops ok data (bs_advance k b) \<and> bs_ahead (bs_advance k b) = drop k (bs_ahead b) \<and>
      bs_rest ops data (bs_advance k b) = drop k (bs_rest ops data b) \<and> bs_Tell ops (bs_advance k b) = bs_Tell ops b + k"
    using tell by (simp add: bs_rest_def add.commute)
next
  fix b s c assume ok: "bs_ok ops ok data b" and empty: "bs_ahead b = []" and fill: "bs_FillBuffer ops b = (s, c)"
  have pos: "bs_pos b = bs_limit b" using ok empty length_bs_ahead [OF ok] by (simp add: bs_ok_def)
  define t where "t = stream_tell ops (bs_inner b)"
  define bytes where "bytes = take (bs_size b) (drop t data)"
  obtain inner where i: "stream_read ops (int (bs_size b)) (bs_inner b) = (s, bytes, inner)"
      "if bs_size b \<le> length data - t then s = OK_status else IsOutOfRange s" "ok inner"
      "stream_tell ops inner = t + length bytes"
    using read [of "bs_inner b" "bs_size b"] ok fill
    by (auto simp: bs_ok_def bs_FillBuffer_def t_def bytes_def min.commute split: prod.splits)
  have c: "c = b\<lparr>bs_inner := inner, bs_buf := bytes, bs_pos := 0, bs_limit := length bytes\<rparr>"
    using fill i(1) by (simp add: bs_FillBuffer_def)
  have size: "0 < bs_size b" using ok by (simp add: bs_ok_def)
  have tell: "bs_Tell ops c = bs_Tell ops b" "bs_Tell ops b = t" using pos i(4) by (simp_all add: c bs_Tell_def t_def)
  have "bs_ok ops ok data c" using size i(3,4) by (simp add: bs_ok_def c) (simp add: bytes_def min_def)
  moreover have "bs_ahead c = bytes" by (simp add: bs_ahead_def c)
  moreover have "bs_rest ops data b \<noteq> [] \<longrightarrow> bytes \<noteq> []" using size tell by (simp add: bytes_def bs_rest_def)
  moreover have "s = OK_status \<or> IsOutOfRange s" using i(2) by (simp split: if_splits)
  moreover have "bs_rest ops data b = [] \<longrightarrow> IsOutOfRange s" using i(2) size tell by (auto simp: bs_rest_def split: if_splits)
  ultimately show "bs_ok ops ok data c \<and> bs_rest ops data c = bs_rest ops data b \<and> bs_Tell ops c = bs_Tell ops b \<and>
      (bs_rest ops data b \<noteq> [] \<longrightarrow> bs_ahead c \<noteq> []) \<and> (s = OK_status \<or> IsOutOfRange s) \<and> (bs_rest ops data b = [] \<longrightarrow> IsOutOfRange s)"
    using tell by (simp add: bs_rest_def)
qed

end

sublocale input_stream \<subseteq> buffer: buffered_source "bs_FillBuffer ops" bs_ahead bs_advance "bs_ok ops ok data" "bs_rest ops data" "bs_Tell ops"
  by (rule buffered)

context input_stream
begin

lemma make_buffered_ok: "ok s \<Longrightarrow> 0 < n \<Longrightarrow> bs_ok ops ok data (make_buffered_stream s n)"
  "bs_Tell ops (make_buffered_stream s n) = stream_tell ops s"
  by (simp_all add: bs_ok_def make_buffered_stream_def bs_Tell_def)

lemma bs_read_ok:
  assumes "bs_ok ops ok data b"
  shows "\<exists>s c. bs_ReadNBytes ops (int n) b = Some (s, take n (bs_rest ops data b), c) \<and>
    (if n \<le> length (bs_rest ops data b) then s = OK_status else IsOutOfRange s) \<and>
    bs_ok ops ok data c \<and> bs_Tell ops c = bs_Tell ops b + min n (length (bs_rest ops data b))"
  using buffer.read_n [OF assms, of OK_status "[]" n] by (auto simp: bs_ReadNBytes_def)

lemma bs_skip_ok:
  assumes ok: "bs_ok ops ok data b"
  shows "\<exists>s c. bs_SkipNBytes ops (int n) b = (s, c) \<and>
    (if n \<le> length (bs_rest ops data b) then s = OK_status else IsOutOfRange s) \<and>
    bs_ok ops ok data c \<and> bs_Tell ops c = bs_Tell ops b + min n (length (bs_rest ops data b))"
proof -
  define t where "t = stream_tell ops (bs_inner b)"
  define k where "k = bs_limit b - bs_pos b"
  have o: "ok (bs_inner b)" "0 < bs_size b" "bs_pos b \<le> bs_limit b" "bs_limit b \<le> t" using ok by (simp_all add: bs_ok_def t_def)
  have k: "k \<le> length (bs_rest ops data b)"
    using arg_cong [OF bs_ahead_rest [OF ok], of length] length_bs_ahead [OF ok] by (simp add: k_def)
  have tell: "bs_Tell ops b = t - k" "k \<le> t" using o by (simp_all add: bs_Tell_def t_def k_def)
  show ?thesis
  proof (cases "bs_pos b + n < bs_limit b")
    case True
    define c where "c = b\<lparr>bs_pos := bs_pos b + n\<rparr>"
    have "n \<le> k" using True by (simp add: k_def)
    have "int (bs_pos b) + int n < int (bs_limit b)" using True by linarith
    then have "bs_SkipNBytes ops (int n) b = (OK_status, c)" by (simp add: bs_SkipNBytes_def c_def)
    moreover have "bs_ok ops ok data c \<and> bs_Tell ops c = bs_Tell ops b + n"
      using buffer.advance [OF ok, of n] \<open>n \<le> k\<close> length_bs_ahead [OF ok] by (simp add: bs_advance_def c_def k_def)
    ultimately show ?thesis using \<open>n \<le> k\<close> k by simp
  next
    case False
    then have n: "k \<le> n" "int n - int (bs_limit b - bs_pos b) = int (n - k)" by (simp_all add: k_def)
    obtain st inner where i: "stream_skip ops (int (n - k)) (bs_inner b) = (st, inner)"
      "if n - k \<le> length data - t then st = OK_status else IsOutOfRange st"
      "ok inner" "stream_tell ops inner = t + min (n - k) (length data - t)"
      using skip [OF o(1), of "n - k"] by (auto simp: t_def)
    define c where "c = b\<lparr>bs_inner := inner, bs_pos := 0, bs_limit := 0\<rparr>"
    have "\<not> int (bs_pos b) + int n < int (bs_limit b)" using False by linarith
    then have "bs_SkipNBytes ops (int n) b = (st, c)" using i(1) by (simp add: bs_SkipNBytes_def n(2) c_def)
    moreover have "bs_ok ops ok data c" using i(3) o(2) by (simp add: bs_ok_def c_def)
    moreover have "bs_Tell ops c = t + min (n - k) (length data - t)" using i(4) by (simp add: bs_Tell_def c_def)
    moreover have rest: "length (bs_rest ops data b) = length data - (t - k)" using tell(1) by (simp add: bs_rest_def)
    moreover have "n - k \<le> length data - t \<longleftrightarrow> n \<le> length (bs_rest ops data b)" "t + min (n - k) (length data - t) = t - k + min n (length (bs_rest ops data b))"
      using n(1) k tell(2) unfolding rest by (auto simp: min_def)
    ultimately show ?thesis using i(2) tell(1) by simp
  qed
qed

lemma bs_reset_ok:
  assumes "bs_ok ops ok data b"
  shows "\<exists>c. bs_Reset ops b = (OK_status, c) \<and> bs_ok ops ok data c \<and> bs_Tell ops c = 0"
  using reset [of "bs_inner b"] assms by (auto simp: bs_Reset_def bs_ok_def bs_Tell_def is_ok_def OK_status_def)

text \<open>A position past the end is the end, with \<open>OutOfRange\<close>.\<close>

lemma bs_seek_ok:
  assumes ok: "bs_ok ops ok data b" and inside: "bs_Tell ops b \<le> length data"
  shows "\<exists>s c. bs_Seek ops (int n) b = (s, c) \<and> bs_ok ops ok data c \<and>
    (if n \<le> length data then s = OK_status else IsOutOfRange s) \<and> bs_Tell ops c = min n (length data)"
proof (cases "n < bs_Tell ops b")
  case True
  from bs_reset_ok [OF ok] obtain r where r: "bs_Reset ops b = (OK_status, r)" "bs_ok ops ok data r" "bs_Tell ops r = 0"
    by blast
  have "bs_Seek ops (int n) b = bs_SkipNBytes ops (int n) r"
    using True r(1) by (simp add: bs_Seek_def is_ok_def OK_status_def)
  with bs_skip_ok [OF r(2), of n] r(3) show ?thesis by (cases "n \<le> length data") (auto simp: bs_rest_def)
next
  case False
  then have seek: "bs_Seek ops (int n) b = bs_SkipNBytes ops (int (n - bs_Tell ops b)) b"
    by (simp add: bs_Seek_def of_nat_diff)
  have "n - bs_Tell ops b \<le> length (bs_rest ops data b) \<longleftrightarrow> n \<le> length data"
    "bs_Tell ops b + min (n - bs_Tell ops b) (length (bs_rest ops data b)) = min n (length data)"
    using False inside by (auto simp: bs_rest_def)
  with bs_skip_ok [OF ok, of "n - bs_Tell ops b"] show ?thesis
    unfolding seek by (cases "n \<le> length data") auto
qed

text \<open>Lines, as \<open>ReadLine\<close> gives them.\<close>

lemma bs_line_ok:
  assumes ok: "bs_ok ops ok data b" and inside: "bs_Tell ops b \<le> length data"
  shows "\<exists>s c. let line = takeWhile (\<lambda>x. x \<noteq> 10) (bs_rest ops data b); result = filter (\<lambda>x. x \<noteq> 13) line in
    bs_ReadLine ops b = Some (s, result, c) \<and> bs_ok ops ok data c \<and>
    bs_Tell ops c = min (bs_Tell ops b + length line + 1) (length data) \<and>
    (if line \<noteq> bs_rest ops data b \<or> result \<noteq> [] then s = OK_status else IsOutOfRange s)"
proof -
  have len: "length (bs_rest ops data b) = length data - bs_Tell ops b" by (simp add: bs_rest_def)
  show ?thesis
    using buffer.read_whole_line [OF ok] inside unfolding bs_ReadLine_def ReadLineHelper_def len
    by (fastforce simp: Let_def min_def)
qed

end

end
