(* ===== verification/Io_Properties.thy ===== *)
theory Io_Properties
  imports Input_Buffer Input_Stream_Laws
begin

text \<open>
  The properties of the readers of \<open>src/base/io\<close>, on files of the platform that are read in
  pieces.
\<close>

section \<open>Files\<close>

text \<open>
  C26. Termination: \<open>Read\<close> of a random access file returns on every system whose \<open>pread\<close>
  stores some of the bytes from the offset on, none only at the end of the file, and is
  interrupted a finite number of times; what it returns is the bytes that were asked for, or
  \<open>OutOfRange\<close> with those up to the end of the file.
\<close>

theorem linux_read_returns:
  assumes "preads data pread"
  shows "Linux_Read pread strerror filename offset n =
    Some (Inr (if n \<le> length data - offset then OK_status else OutOfRange ''Read less bytes than requested'',
      take n (drop offset data)))"
proof -
  obtain m where "\<forall>k \<ge> m. \<forall>offset n e. pread k offset n \<noteq> Failed e" using assms by (auto simp: preads_def)
  from linux_read_ok [OF assms this] show ?thesis by (simp add: Linux_Read_def)
qed

theorem linux_read_returns_witness:
  "Linux_Read (pread_pieces [1, 2, 3, 4, 5] 1) (\<lambda>_. []) ''f'' 1 3 = Some (Inr (OK_status, [2, 3, 4]))"
  using linux_read_returns [OF preads_pieces, of "[1, 2, 3, 4, 5]" 1 "\<lambda>_. []" "''f''" 1 3] by simp

section \<open>Buffers\<close>

text \<open>
  C13. Refinement: an \<open>InputBuffer\<close> on a file is a position in its bytes, whatever the size of
  the buffer, from one byte on. \<open>ReadNBytes\<close>, \<open>SkipNBytes\<close>, \<open>ReadLine\<close>, \<open>ReadVarint32\<close> and \<open>Seek\<close> return, give
  the bytes from the position on and move it past them; the status is \<open>OutOfRange\<close> where the
  file ends first, and a line loses its carriage returns. A last line that holds nothing else is
  consumed, and the status is \<open>OutOfRange\<close> although the position was not at the end of the file.
\<close>

theorem input_buffer_refines_position:
  assumes "random_access_file access data" "ib_ok data b"
  shows "(\<forall>n. \<exists>s c. ib_ReadNBytes access (int n) b = Some (s, take n (ib_rest data b), c) \<and>
      (if n \<le> length (ib_rest data b) then s = OK_status else IsOutOfRange s) \<and>
      ib_ok data c \<and> ib_rest data c = drop n (ib_rest data b)) \<and>
    (\<forall>n. \<exists>s c. ib_SkipNBytes access (int n) b = Some (s, c) \<and>
      (if n \<le> length (ib_rest data b) then s = OK_status else IsOutOfRange s) \<and>
      ib_ok data c \<and> ib_rest data c = drop n (ib_rest data b)) \<and>
    (\<exists>s c. let line = takeWhile (\<lambda>x. x \<noteq> 10) (ib_rest data b); result = filter (\<lambda>x. x \<noteq> 13) line in
      ib_ReadLine access b = Some (s, result, c) \<and> ib_ok data c \<and>
      ib_rest data c = drop (length line + 1) (ib_rest data b) \<and>
      (if line \<noteq> ib_rest data b \<or> result \<noteq> [] then s = OK_status else IsOutOfRange s)) \<and>
    (\<forall>v left. GetVarint32 (ib_rest data b) = Some (v, left) \<longrightarrow>
      (\<exists>c. ib_ReadVarint32 access b = Some (OK_status, Some v, c) \<and> ib_ok data c \<and> ib_rest data c = left)) \<and>
    (\<forall>n. \<exists>c. ib_Seek (int n) b = (OK_status, c) \<and> ib_ok data c \<and> ib_rest data c = drop n data)"
proof (intro conjI allI impI)
  note access = assms(1) and ok = assms(2)
  fix n v left
  show "\<exists>s c. ib_ReadNBytes access (int n) b = Some (s, take n (ib_rest data b), c) \<and>
      (if n \<le> length (ib_rest data b) then s = OK_status else IsOutOfRange s) \<and>
      ib_ok data c \<and> ib_rest data c = drop n (ib_rest data b)"
    using random_access_file.ReadNBytes_ok [OF access ok, of n] by blast
  show "\<exists>s c. ib_SkipNBytes access (int n) b = Some (s, c) \<and>
      (if n \<le> length (ib_rest data b) then s = OK_status else IsOutOfRange s) \<and>
      ib_ok data c \<and> ib_rest data c = drop n (ib_rest data b)"
    using random_access_file.SkipNBytes_ok [OF access ok, of n] by blast
  show "\<exists>s c. let line = takeWhile (\<lambda>x. x \<noteq> 10) (ib_rest data b); result = filter (\<lambda>x. x \<noteq> 13) line in
      ib_ReadLine access b = Some (s, result, c) \<and> ib_ok data c \<and>
      ib_rest data c = drop (length line + 1) (ib_rest data b) \<and>
      (if line \<noteq> ib_rest data b \<or> result \<noteq> [] then s = OK_status else IsOutOfRange s)"
    by (rule random_access_file.ReadLine_ok [OF access ok])
  show "\<exists>c. ib_Seek (int n) b = (OK_status, c) \<and> ib_ok data c \<and> ib_rest data c = drop n data"
    using Seek_ok [OF ok, of n] by blast
  assume "GetVarint32 (ib_rest data b) = Some (v, left)"
  then show "\<exists>c. ib_ReadVarint32 access b = Some (OK_status, Some v, c) \<and> ib_ok data c \<and> ib_rest data c = left"
    by (rule random_access_file.ReadVarint32_ok [OF access ok])
qed

theorem input_buffer_refines_position_witness:
  "\<exists>s c. ib_ReadNBytes (linux_file (pread_pieces [1, 2, 3, 4, 5] 1)) 4 (make_input_buffer 2) = Some (s, [1, 2, 3, 4], c) \<and>
    s = OK_status \<and> ib_rest [1, 2, 3, 4, 5] c = [5]"
proof -
  note access = linux_file_access [OF preads_pieces, of "[1, 2, 3, 4, 5]" 1]
  have ok: "ib_ok [1, 2, 3, 4, 5] (make_input_buffer 2)" "ib_rest [1, 2, 3, 4, 5] (make_input_buffer 2) = [1, 2, 3, 4, 5]"
    using make_input_buffer_ok [of 2 "[1, 2, 3, 4, 5]"] by (simp_all add: ib_rest_def)
  show ?thesis
    using input_buffer_refines_position [OF access ok(1), THEN conjunct1, rule_format, of 4] unfolding ok(2) by auto
qed

section \<open>Streams\<close>

text \<open>
  C14. Composition: a \<open>BufferedInputStream\<close> on any stream that keeps the interface of
  \<open>InputStreamInterface\<close>, with a buffer of one byte or more, is again a position in the bytes of the
  stream, for \<open>ReadNBytes\<close>, \<open>SkipNBytes\<close>, \<open>ReadLine\<close>, \<open>Seek\<close> and \<open>Reset\<close>; in particular on the
  stream of a file. As above, a last line of carriage returns only is consumed with \<open>OutOfRange\<close>.
\<close>

theorem buffered_stream_refines_position:
  assumes "input_stream ops ok data" "bs_ok ops ok data b" "bs_Tell ops b \<le> length data"
  shows "(\<forall>n. \<exists>s c. bs_ReadNBytes ops (int n) b = Some (s, take n (drop (bs_Tell ops b) data), c) \<and>
      (if bs_Tell ops b + n \<le> length data then s = OK_status else IsOutOfRange s) \<and>
      bs_ok ops ok data c \<and> bs_Tell ops c = min (bs_Tell ops b + n) (length data)) \<and>
    (\<forall>n. \<exists>s c. bs_SkipNBytes ops (int n) b = (s, c) \<and>
      (if bs_Tell ops b + n \<le> length data then s = OK_status else IsOutOfRange s) \<and>
      bs_ok ops ok data c \<and> bs_Tell ops c = min (bs_Tell ops b + n) (length data)) \<and>
    (\<exists>s c. let rest = drop (bs_Tell ops b) data; line = takeWhile (\<lambda>x. x \<noteq> 10) rest; result = filter (\<lambda>x. x \<noteq> 13) line in
      bs_ReadLine ops b = Some (s, result, c) \<and> bs_ok ops ok data c \<and>
      bs_Tell ops c = min (bs_Tell ops b + length line + 1) (length data) \<and>
      (if line \<noteq> rest \<or> result \<noteq> [] then s = OK_status else IsOutOfRange s)) \<and>
    (\<forall>n. \<exists>s c. bs_Seek ops (int n) b = (s, c) \<and> bs_ok ops ok data c \<and>
      (if n \<le> length data then s = OK_status else IsOutOfRange s) \<and> bs_Tell ops c = min n (length data)) \<and>
    (\<exists>c. bs_Reset ops b = (OK_status, c) \<and> bs_ok ops ok data c \<and> bs_Tell ops c = 0)"
proof (intro conjI allI)
  note stream = assms(1) and ok = assms(2,3)
  fix n
  have rest: "take n (bs_rest ops data b) = take n (drop (bs_Tell ops b) data)" by (simp add: bs_rest_def)
  have len: "n \<le> length (bs_rest ops data b) \<longleftrightarrow> bs_Tell ops b + n \<le> length data"
    "bs_Tell ops b + min n (length (bs_rest ops data b)) = min (bs_Tell ops b + n) (length data)"
    using ok(2) by (auto simp: bs_rest_def)
  show "\<exists>s c. bs_ReadNBytes ops (int n) b = Some (s, take n (drop (bs_Tell ops b) data), c) \<and>
      (if bs_Tell ops b + n \<le> length data then s = OK_status else IsOutOfRange s) \<and>
      bs_ok ops ok data c \<and> bs_Tell ops c = min (bs_Tell ops b + n) (length data)"
    using input_stream.bs_read_ok [OF stream ok(1), of n] unfolding len rest .
  show "\<exists>s c. bs_SkipNBytes ops (int n) b = (s, c) \<and>
      (if bs_Tell ops b + n \<le> length data then s = OK_status else IsOutOfRange s) \<and>
      bs_ok ops ok data c \<and> bs_Tell ops c = min (bs_Tell ops b + n) (length data)"
    using input_stream.bs_skip_ok [OF stream ok(1), of n] unfolding len .
  show "\<exists>s c. let rest = drop (bs_Tell ops b) data; line = takeWhile (\<lambda>x. x \<noteq> 10) rest; result = filter (\<lambda>x. x \<noteq> 13) line in
      bs_ReadLine ops b = Some (s, result, c) \<and> bs_ok ops ok data c \<and>
      bs_Tell ops c = min (bs_Tell ops b + length line + 1) (length data) \<and>
      (if line \<noteq> rest \<or> result \<noteq> [] then s = OK_status else IsOutOfRange s)"
    using input_stream.bs_line_ok [OF stream ok] unfolding bs_rest_def Let_def .
  show "\<exists>s c. bs_Seek ops (int n) b = (s, c) \<and> bs_ok ops ok data c \<and>
      (if n \<le> length data then s = OK_status else IsOutOfRange s) \<and> bs_Tell ops c = min n (length data)"
    by (rule input_stream.bs_seek_ok [OF stream ok])
  show "\<exists>c. bs_Reset ops b = (OK_status, c) \<and> bs_ok ops ok data c \<and> bs_Tell ops c = 0"
    by (rule input_stream.bs_reset_ok [OF stream ok(1)])
qed

theorem buffered_stream_refines_position_witness:
  "\<exists>s c. bs_Seek (file_stream_ops (linux_file (pread_pieces [1, 2, 3, 4, 5] 1))) (int 3)
      (make_buffered_stream \<lparr>fs_pos = 0\<rparr> 2) = (s, c) \<and>
    s = OK_status \<and> bs_Tell (file_stream_ops (linux_file (pread_pieces [1, 2, 3, 4, 5] 1))) c = 3"
proof -
  let ?ops = "file_stream_ops (linux_file (pread_pieces [1, 2, 3, 4, 5] 1))"
  let ?data = "[1, 2, 3, 4, 5] :: byte list"
  have stream: "input_stream ?ops (\<lambda>_. True) ?data"
    by (rule random_access_file.file_stream [OF linux_file_access [OF preads_pieces]])
  have tell: "bs_Tell ?ops (make_buffered_stream \<lparr>fs_pos = 0\<rparr> 2) = 0"
    by (simp add: bs_Tell_def make_buffered_stream_def file_stream_ops_def)
  have ok: "bs_ok ?ops (\<lambda>_. True) ?data (make_buffered_stream \<lparr>fs_pos = 0\<rparr> 2)"
    by (simp add: bs_ok_def make_buffered_stream_def file_stream_ops_def)
  from tell have "bs_Tell ?ops (make_buffered_stream \<lparr>fs_pos = 0\<rparr> 2) \<le> length ?data" by simp
  note all = buffered_stream_refines_position [OF stream ok this]
  have "\<forall>n. \<exists>s c. bs_Seek ?ops (int n) (make_buffered_stream \<lparr>fs_pos = 0\<rparr> 2) = (s, c) \<and> bs_ok ?ops (\<lambda>_. True) ?data c \<and>
      (if n \<le> length ?data then s = OK_status else IsOutOfRange s) \<and> bs_Tell ?ops c = min n (length ?data)"
    using all by (elim conjE)
  from this [rule_format, of 3] show ?thesis by auto
qed

end
