(* ===== verification/Philox.thy ===== *)
theory Philox
  imports Prelude
begin

text \<open>
  The generator of \<open>src/base/random/philox_random.h\<close>: a block cipher on a counter of 128 bits,
  and \<open>SimplePhilox\<close> of \<open>simple_philox.h\<close>, which hands out the four numbers of a block one by one
  (\<open>SingleSampleAdapter\<close> of \<open>random_distributions.h\<close>) and draws integers below a bound
  (\<open>exact_uniform_int.h\<close>).
\<close>

section \<open>The generator\<close>

text \<open>\<open>Array<uint32, 4>\<close> and \<open>Array<uint32, 2>\<close>.\<close>

datatype array4 = Array4 "32 word" "32 word" "32 word" "32 word"

datatype array2 = Array2 "32 word" "32 word"

record philox_random =
  philox_counter :: array4
  philox_key :: array2

definition philox_of_seed :: "64 word \<Rightarrow> philox_random" where
  "philox_of_seed seed = \<lparr>philox_counter = Array4 0 0 0 0, philox_key = Array2 (ucast seed) (ucast (drop_bit 32 seed))\<rparr>"

definition philox_of_seeds :: "64 word \<Rightarrow> 64 word \<Rightarrow> philox_random" where
  "philox_of_seeds seed_lo seed_hi =
     \<lparr>philox_counter = Array4 0 0 (ucast seed_hi) (ucast (drop_bit 32 seed_hi)),
      philox_key = Array2 (ucast seed_lo) (ucast (drop_bit 32 seed_lo))\<rparr>"

fun SkipOne :: "array4 \<Rightarrow> array4" where
  "SkipOne (Array4 c0 c1 c2 c3) =
     (let c0 = c0 + 1 in
      if c0 = 0 then
        let c1 = c1 + 1 in
        if c1 = 0 then
          let c2 = c2 + 1 in
          if c2 = 0 then Array4 c0 c1 c2 (c3 + 1) else Array4 c0 c1 c2 c3
        else Array4 c0 c1 c2 c3
      else Array4 c0 c1 c2 c3)"

fun Skip :: "64 word \<Rightarrow> array4 \<Rightarrow> array4" where
  "Skip count (Array4 c0 c1 c2 c3) =
     (let count_lo = ucast count; count_hi = ucast (drop_bit 32 count);
          c0 = c0 + count_lo;
          count_hi = (if c0 < count_lo then count_hi + 1 else count_hi);
          c1 = c1 + count_hi in
      if c1 < count_hi then
        let c2 = c2 + 1 in
        if c2 = 0 then Array4 c0 c1 c2 (c3 + 1) else Array4 c0 c1 c2 c3
      else Array4 c0 c1 c2 c3)"

definition kPhiloxW32A :: "32 word" where
  "kPhiloxW32A = 0x9E3779B9"

definition kPhiloxW32B :: "32 word" where
  "kPhiloxW32B = 0xBB67AE85"

definition kPhiloxM4x32A :: "32 word" where
  "kPhiloxM4x32A = 0xD2511F53"

definition kPhiloxM4x32B :: "32 word" where
  "kPhiloxM4x32B = 0xCD9E8D57"

text \<open>The low and the high half of a product.\<close>

definition MultiplyHighLow :: "32 word \<Rightarrow> 32 word \<Rightarrow> 32 word \<times> 32 word" where
  "MultiplyHighLow a b =
     (let product = ucast a * ucast b :: 64 word in (ucast product, ucast (drop_bit 32 product)))"

fun ComputeSingleRound :: "array4 \<Rightarrow> array2 \<Rightarrow> array4" where
  "ComputeSingleRound (Array4 c0 c1 c2 c3) (Array2 k0 k1) =
     (let (lo0, hi0) = MultiplyHighLow kPhiloxM4x32A c0;
          (lo1, hi1) = MultiplyHighLow kPhiloxM4x32B c2 in
      Array4 (hi1 XOR c1 XOR k0) lo1 (hi0 XOR c3 XOR k1) lo0)"

fun RaiseKey :: "array2 \<Rightarrow> array2" where
  "RaiseKey (Array2 k0 k1) = Array2 (k0 + kPhiloxW32A) (k1 + kPhiloxW32B)"

definition philox_block :: "array2 \<Rightarrow> array4 \<Rightarrow> array4" where
  "philox_block key counter =
     (let counter = ComputeSingleRound counter key; key = RaiseKey key;
          counter = ComputeSingleRound counter key; key = RaiseKey key;
          counter = ComputeSingleRound counter key; key = RaiseKey key;
          counter = ComputeSingleRound counter key; key = RaiseKey key;
          counter = ComputeSingleRound counter key; key = RaiseKey key;
          counter = ComputeSingleRound counter key; key = RaiseKey key;
          counter = ComputeSingleRound counter key; key = RaiseKey key;
          counter = ComputeSingleRound counter key; key = RaiseKey key;
          counter = ComputeSingleRound counter key; key = RaiseKey key in
      ComputeSingleRound counter key)"

definition generate :: "philox_random \<Rightarrow> array4 \<times> philox_random" where
  "generate g = (philox_block (philox_key g) (philox_counter g), g\<lparr>philox_counter := SkipOne (philox_counter g)\<rparr>)"

section \<open>Single numbers\<close>

record simple_philox =
  generator :: philox_random
  unused_results :: array4
  used_result_index :: nat

definition make_simple_philox :: "philox_random \<Rightarrow> simple_philox" where
  "make_simple_philox gen = \<lparr>generator = gen, unused_results = Array4 0 0 0 0, used_result_index = 4\<rparr>"

fun element :: "array4 \<Rightarrow> nat \<Rightarrow> 32 word" where
  "element (Array4 c0 c1 c2 c3) i = [c0, c1, c2, c3] ! i"

definition Rand32 :: "simple_philox \<Rightarrow> 32 word \<times> simple_philox" where
  "Rand32 s =
     (let s = (if used_result_index s = 4 then
                 let (results, g) = generate (generator s) in
                 s\<lparr>generator := g, unused_results := results, used_result_index := 0\<rparr>
               else s) in
      (element (unused_results s) (used_result_index s), s\<lparr>used_result_index := used_result_index s + 1\<rparr>))"

definition Rand64 :: "simple_philox \<Rightarrow> 64 word \<times> simple_philox" where
  "Rand64 s =
     (let (lo, s) = Rand32 s; (hi, s) = Rand32 s in (ucast lo OR push_bit 32 (ucast hi), s))"

text \<open>Rejection sampling; the loop may not end for every source of numbers.\<close>

partial_function (option) draw_from ::
    "('s \<Rightarrow> 'w :: len word \<times> 's) \<Rightarrow> 'w word \<Rightarrow> 's \<Rightarrow> ('w word \<times> 's) option" where
  "draw_from random rem s =
     (let (rnd, s) = random s in if rnd < rem then draw_from random rem s else Some (rnd, s))"

definition ExactUniformInt ::
    "'w :: len word \<Rightarrow> ('s \<Rightarrow> 'w word \<times> 's) \<Rightarrow> 's \<Rightarrow> ('w word \<times> 's) option" where
  "ExactUniformInt n random s =
     (if n = 0 then (let (rnd, s) = random s in Some (rnd * n, s))
      else if n AND (n - 1) = 0 then (let (rnd, s) = random s in Some (rnd AND (n - 1), s))
      else
        let range = NOT 0; rem = range mod n + 1 in
        case draw_from random rem s of None \<Rightarrow> None | Some (rnd, s) \<Rightarrow> Some (rnd mod n, s))"

definition Uniform :: "32 word \<Rightarrow> simple_philox \<Rightarrow> (32 word \<times> simple_philox) option" where
  "Uniform n = ExactUniformInt n Rand32"

definition Uniform64 :: "64 word \<Rightarrow> simple_philox \<Rightarrow> (64 word \<times> simple_philox) option" where
  "Uniform64 n = ExactUniformInt n Rand64"

definition OneIn :: "32 word \<Rightarrow> simple_philox \<Rightarrow> (bool \<times> simple_philox) option" where
  "OneIn n s = (case Uniform n s of None \<Rightarrow> None | Some (v, s) \<Rightarrow> Some (v = 0, s))"

text \<open>\<open>1 << shift\<close> and the subtraction are of type \<open>int\<close>.\<close>

definition Skewed :: "int \<Rightarrow> simple_philox \<Rightarrow> fault + 32 word \<times> simple_philox" where
  "Skewed max_log s =
     (if 0 \<le> max_log \<and> max_log \<le> 32 then
        let (r, s) = Rand32 s; shift = unat r mod (nat max_log + 1) in
        if shift = 31 then Inl Signed_overflow
        else
          let bits = (if shift = 32 then NOT 0 else push_bit shift 1 - 1); (v, s) = Rand32 s in
          Inr (v AND bits, s)
      else Inl Assertion_failed)"

end
