(* ===== verification/Philox_Laws.thy ===== *)
theory Philox_Laws
  imports Philox
begin

text \<open>
  The counter as a number of 128 bits, the block cipher as a permutation, and the end of the
  rejection sampling: every block is reached from every counter, one of all ones too.
\<close>

section \<open>The counter\<close>

fun counter_value :: "array4 \<Rightarrow> nat" where
  "counter_value (Array4 c0 c1 c2 c3) = unat c0 + 2 ^ 32 * unat c1 + 2 ^ 64 * unat c2 + 2 ^ 96 * unat c3"

lemma inc32: "unat (w + 1 :: 32 word) = (unat w + 1) mod 2 ^ 32" "w + 1 = 0 \<longleftrightarrow> unat w + 1 = 2 ^ 32"
proof -
  show eq: "unat (w + 1) = (unat w + 1) mod 2 ^ 32" by (simp add: unat_word_ariths)
  have "unat w < 2 ^ 32" using unsigned_less [where 'a = nat, of w] by simp
  moreover have "w + 1 = 0 \<longleftrightarrow> unat (w + 1) = 0" by (simp only: unat_eq_zero)
  ultimately show "w + 1 = 0 \<longleftrightarrow> unat w + 1 = 2 ^ 32" unfolding eq by (auto simp: mod_Suc)
qed

lemma unat_less_32: "unat (w :: 32 word) < 4294967296"
  using unsigned_less [where 'a = nat, of w] by simp

lemma counter_value_less: "counter_value c < 2 ^ 128"
proof (cases c)
  case (Array4 c0 c1 c2 c3)
  show ?thesis
    using unat_less_32 [of c0] unat_less_32 [of c1] unat_less_32 [of c2] unat_less_32 [of c3] unfolding Array4 by simp
qed

lemma SkipOne_value: "counter_value (SkipOne c) = (counter_value c + 1) mod 2 ^ 128"
proof (cases c)
  case (Array4 c0 c1 c2 c3)
  note b = unat_less_32 [of c0] unat_less_32 [of c1] unat_less_32 [of c2] unat_less_32 [of c3]
  show ?thesis
    using b unfolding Array4 by (auto simp: Let_def inc32 mod_Suc)
qed


text \<open>
  \<open>Skip\<close> adds the two halves one after the other. Where the carry of the low half makes the
  high half wrap, the carry is lost.
\<close>

definition carry_lost :: "64 word \<Rightarrow> array4 \<Rightarrow> bool" where
  "carry_lost count c \<longleftrightarrow>
     unat (drop_bit 32 count) = 2 ^ 32 - 1 \<and> 2 ^ 32 \<le> counter_value c mod 2 ^ 32 + unat count mod 2 ^ 32"

lemma halves_64: "unat (ucast (count :: 64 word) :: 32 word) = unat count mod 2 ^ 32"
  "unat (ucast (drop_bit 32 count) :: 32 word) = unat count div 2 ^ 32"
proof -
  show "unat (ucast count :: 32 word) = unat count mod 2 ^ 32" by (simp add: unsigned_ucast_eq take_bit_eq_mod)
  have "unat count < 2 ^ 64" using unsigned_less [where 'a = nat, of count] by simp
  then have "unat count div 2 ^ 32 < 2 ^ 32" by (simp add: less_mult_imp_div_less)
  moreover have "unat (drop_bit 32 count) = unat count div 2 ^ 32"
    by (simp only: unat_drop_bit_eq) (simp only: drop_bit_eq_div)
  ultimately show "unat (ucast (drop_bit 32 count) :: 32 word) = unat count div 2 ^ 32"
    by (simp only: unsigned_ucast_eq) (simp add: take_bit_eq_mod)
qed

lemma add32_carry: "unat (a + b :: 32 word) = (unat a + unat b) mod 2 ^ 32" "a + b < b \<longleftrightarrow> 2 ^ 32 \<le> unat a + unat b"
proof -
  show eq: "unat (a + b) = (unat a + unat b) mod 2 ^ 32" by (simp add: unat_word_ariths)
  show "a + b < b \<longleftrightarrow> 2 ^ 32 \<le> unat a + unat b"
    using unat_less_32 [of a] unat_less_32 [of b] unfolding word_less_nat_alt eq
    by (cases "unat a + unat b < 2 ^ 32") (simp_all add: le_mod_geq)
qed

lemma Skip_value:
  "counter_value (Skip count c) =
    (counter_value c + unat count + (if carry_lost count c then 2 ^ 128 - 2 ^ 64 else 0)) mod 2 ^ 128"
proof (cases c)
  case (Array4 c0 c1 c2 c3)
  define lo where "lo = (ucast count :: 32 word)"
  define hi where "hi = (ucast (drop_bit 32 count) :: 32 word)"
  have lo: "unat lo = unat count mod 2 ^ 32" and hi: "unat hi = unat count div 2 ^ 32"
    unfolding lo_def hi_def by (rule halves_64)+
  have count: "unat count = unat lo + 2 ^ 32 * unat hi" unfolding lo hi by simp
  have "counter_value c = unat c0 + 2 ^ 32 * (unat c1 + 2 ^ 32 * unat c2 + 2 ^ 64 * unat c3)"
    by (simp add: Array4 algebra_simps)
  then have "counter_value c mod 2 ^ 32 = unat c0 mod 2 ^ 32" by (simp only: mod_mult_self2)
  then have low: "counter_value c mod 2 ^ 32 = unat c0" using unat_less_32 [of c0] by simp
  have "unat (drop_bit 32 count) = unat count div 2 ^ 32"
    by (simp only: unat_drop_bit_eq) (simp only: drop_bit_eq_div)
  then have lost: "carry_lost count c \<longleftrightarrow> unat hi = 2 ^ 32 - 1 \<and> 2 ^ 32 \<le> unat c0 + unat lo"
    unfolding carry_lost_def low lo hi by simp
  note b = unat_less_32 [of c0] unat_less_32 [of c1] unat_less_32 [of c2] unat_less_32 [of c3]
    unat_less_32 [of lo] unat_less_32 [of hi]
  have twice: "x < 2 * m \<Longrightarrow> x mod m = (if x < m then x else x - m)" for x m :: nat by (simp add: le_mod_geq)
  have sums: "unat (x + y) = (if unat x + unat y < 2 ^ 32 then unat x + unat y else unat x + unat y - 2 ^ 32)"
    for x y :: "32 word"
    unfolding add32_carry using unat_less_32 [of x] unat_less_32 [of y] by (intro twice) simp
  have one: "unat (x + 1) = (if unat x + 1 = 2 ^ 32 then 0 else unat x + 1)" for x :: "32 word"
    using sums [of x 1] unat_less_32 [of x] by simp
  define total where "total = counter_value c + unat count + (if carry_lost count c then 2 ^ 128 - 2 ^ 64 else 0)"
  have "total < 2 * 2 ^ 128" using b unfolding total_def lost count by (simp add: Array4)
  then have "total mod 2 ^ 128 = (if total < 2 ^ 128 then total else total - 2 ^ 128)" by (rule twice)
  moreover have "counter_value (Skip count c) = (if total < 2 ^ 128 then total else total - 2 ^ 128)"
    using b unfolding total_def lost count unfolding Array4
    by (cases "2 ^ 32 \<le> unat c0 + unat lo"; cases "unat hi = 2 ^ 32 - 1"; cases "unat c2 = 2 ^ 32 - 1"; cases "unat c3 = 2 ^ 32 - 1")
      (simp_all add: Let_def lo_def [symmetric] hi_def [symmetric] add32_carry(2) inc32(2) sums one, linarith+)
  ultimately show ?thesis by (simp only: total_def)
qed

section \<open>The block cipher\<close>

lemma MultiplyHighLow_low: "fst (MultiplyHighLow a b) = a * b"
proof -
  have "uint a mod 2 ^ 64 = uint a" "uint b mod 2 ^ 64 = uint b"
    using unsigned_less [where 'a = int, of a] unsigned_less [where 'a = int, of b] by simp_all
  then have "uint (ucast (ucast a * ucast b :: 64 word) :: 32 word) = uint (a * b)"
    by (simp add: uint_word_ariths unsigned_ucast_eq take_bit_eq_mod mod_mod_cancel)
  then have "(ucast (ucast a * ucast b :: 64 word) :: 32 word) = a * b" by (rule word_uint_eqI)
  then show ?thesis by (simp add: MultiplyHighLow_def Let_def)
qed

lemma odd_factor: "kPhiloxM4x32A * x = kPhiloxM4x32A * y \<longleftrightarrow> x = y" "kPhiloxM4x32B * x = kPhiloxM4x32B * y \<longleftrightarrow> x = y"
proof -
  have "x = y" if "m * x = m * y" "n * m = 1" for m n x y :: "32 word"
    using arg_cong [OF that(1), of "times n"] that(2) by (simp add: mult.assoc [symmetric])
  moreover have "0x991a7cdb * kPhiloxM4x32A = 1" "0x6d7cae67 * kPhiloxM4x32B = 1"
    by (simp_all add: kPhiloxM4x32A_def kPhiloxM4x32B_def)
  ultimately show "kPhiloxM4x32A * x = kPhiloxM4x32A * y \<longleftrightarrow> x = y" "kPhiloxM4x32B * x = kPhiloxM4x32B * y \<longleftrightarrow> x = y"
    by blast+
qed

lemma xor_cancel: "x XOR y XOR z = x XOR w XOR z \<longleftrightarrow> y = w" for x y z w :: "32 word"
  by (auto simp: bit_eq_iff bit_simps)

lemma round_inject [simp]: "ComputeSingleRound c key = ComputeSingleRound d key \<longleftrightarrow> c = d"
proof (cases c, cases d, cases key)
  fix c0 c1 c2 c3 d0 d1 d2 d3 k0 k1
  assume [simp]: "c = Array4 c0 c1 c2 c3" "d = Array4 d0 d1 d2 d3" "key = Array2 k0 k1"
  obtain lo0 hi0 where 0: "MultiplyHighLow kPhiloxM4x32A c0 = (lo0, hi0)" by (cases "MultiplyHighLow kPhiloxM4x32A c0")
  obtain lo1 hi1 where 1: "MultiplyHighLow kPhiloxM4x32B c2 = (lo1, hi1)" by (cases "MultiplyHighLow kPhiloxM4x32B c2")
  obtain lo2 hi2 where 2: "MultiplyHighLow kPhiloxM4x32A d0 = (lo2, hi2)" by (cases "MultiplyHighLow kPhiloxM4x32A d0")
  obtain lo3 hi3 where 3: "MultiplyHighLow kPhiloxM4x32B d2 = (lo3, hi3)" by (cases "MultiplyHighLow kPhiloxM4x32B d2")
  have low: "lo0 = lo2 \<longleftrightarrow> c0 = d0" "lo1 = lo3 \<longleftrightarrow> c2 = d2"
    using MultiplyHighLow_low [of kPhiloxM4x32A c0] MultiplyHighLow_low [of kPhiloxM4x32A d0]
      MultiplyHighLow_low [of kPhiloxM4x32B c2] MultiplyHighLow_low [of kPhiloxM4x32B d2] odd_factor
    unfolding 0 1 2 3 by simp_all
  have "hi0 = hi2" if "c0 = d0" using 0 2 that by simp
  moreover have "hi1 = hi3" if "c2 = d2" using 1 3 that by simp
  ultimately show ?thesis using low by (auto simp: 0 1 2 3 Let_def xor_cancel)
qed

lemma philox_block_inject [simp]: "philox_block key c = philox_block key d \<longleftrightarrow> c = d"
  by (simp add: philox_block_def Let_def)

lemma finite_array4: "finite (UNIV :: array4 set)"
proof (rule finite_subset)
  show "UNIV \<subseteq> range (\<lambda>(a, b, c, d). Array4 a b c d)"
  proof
    fix x :: array4
    obtain a b c d where "x = Array4 a b c d" by (cases x)
    then show "x \<in> range (\<lambda>(a, b, c, d). Array4 a b c d)" by (auto intro!: image_eqI [of _ _ "(a, b, c, d)"])
  qed
qed simp

lemma philox_block_onto: obtains c where "philox_block key c = r"
proof -
  have "inj (philox_block key)" by (rule injI) simp
  then have "surj (philox_block key)" by (rule finite_UNIV_inj_surj [OF finite_array4])
  with that show thesis by (metis surjD)
qed


section \<open>Drawing ends\<close>

lemma digits_unique: "a + m * b = a' + m * b' \<Longrightarrow> a < m \<Longrightarrow> a' < m \<Longrightarrow> a = a' \<and> b = b'" for a b m :: nat
proof -
  assume eq: "a + m * b = a' + m * b'" and less: "a < m" "a' < m"
  have "a = a'" using arg_cong [OF eq, of "\<lambda>x. x mod m"] less by simp
  with eq less show ?thesis by simp
qed

lemma counter_value_inject: "counter_value c = counter_value d \<longleftrightarrow> c = d"
proof
  assume eq: "counter_value c = counter_value d"
  obtain c0 c1 c2 c3 d0 d1 d2 d3 where cd: "c = Array4 c0 c1 c2 c3" "d = Array4 d0 d1 d2 d3" by (cases c, cases d)
  note less = unat_less_32
  have "unat c0 + 4294967296 * (unat c1 + 4294967296 * (unat c2 + 4294967296 * unat c3)) =
      unat d0 + 4294967296 * (unat d1 + 4294967296 * (unat d2 + 4294967296 * unat d3))"
    using eq unfolding cd by simp
  from digits_unique [OF this less less] have 0: "unat c0 = unat d0"
    and 1: "unat c1 + 4294967296 * (unat c2 + 4294967296 * unat c3) = unat d1 + 4294967296 * (unat d2 + 4294967296 * unat d3)"
    by blast+
  from digits_unique [OF 1 less less] have "unat c1 = unat d1" and 2: "unat c2 + 4294967296 * unat c3 = unat d2 + 4294967296 * unat d3"
    by blast+
  moreover from digits_unique [OF 2 less less] have "unat c2 = unat d2" "unat c3 = unat d3" by blast+
  ultimately show "c = d" using 0 by (simp add: cd word_unat_eq_iff)
qed simp

text \<open>The number of blocks before the one of counter \<open>d\<close>.\<close>

definition blocks_to :: "array4 \<Rightarrow> array4 \<Rightarrow> nat" where
  "blocks_to d c = (counter_value d + 2 ^ 128 - counter_value c) mod 2 ^ 128"

lemma blocks_to_SkipOne: "c \<noteq> d \<Longrightarrow> blocks_to d (SkipOne c) + 1 = blocks_to d c"
proof -
  assume "c \<noteq> d"
  then have ne: "counter_value c \<noteq> counter_value d" by (simp add: counter_value_inject)
  note b = counter_value_less [of c] counter_value_less [of d]
  show ?thesis
  proof (cases "counter_value c + 1 = 2 ^ 128")
    case True
    then have "counter_value d + 2 ^ 128 - counter_value c = counter_value d + 1" by simp
    with True ne b show ?thesis by (simp add: blocks_to_def SkipOne_value)
  next
    case False
    with b have c: "counter_value (SkipOne c) = counter_value c + 1" by (simp add: SkipOne_value)
    show ?thesis
    proof (cases "counter_value c < counter_value d")
      case True
      then have "counter_value d + 2 ^ 128 - (counter_value c + 1) = (counter_value d - counter_value c - 1) + 2 ^ 128"
        "counter_value d + 2 ^ 128 - counter_value c = (counter_value d - counter_value c) + 2 ^ 128"
        by simp_all
      with True b show ?thesis unfolding blocks_to_def c by (simp only: mod_add_self2) simp
    next
      case less: False
      with ne b show ?thesis unfolding blocks_to_def c by simp
    qed
  qed
qed

definition ones :: array4 where
  "ones = Array4 (-1) (-1) (-1) (-1)"

lemma element_ones: "i < 4 \<Longrightarrow> element ones i = -1"
  by (auto simp: ones_def less_Suc_eq numeral_eq_Suc)

lemma Rand32_next:
  assumes "used_result_index s < 4"
  shows "Rand32 s = (element (unused_results s) (used_result_index s), s\<lparr>used_result_index := used_result_index s + 1\<rparr>)"
  using assms by (simp add: Rand32_def)

lemma Rand32_block:
  assumes "used_result_index s = 4"
  defines "r \<equiv> philox_block (philox_key (generator s)) (philox_counter (generator s))"
  shows "Rand32 s = (element r 0, s\<lparr>generator := (generator s)\<lparr>philox_counter := SkipOne (philox_counter (generator s))\<rparr>,
    unused_results := r, used_result_index := 1\<rparr>)"
  using assms by (simp add: Rand32_def generate_def)

definition numbers_to :: "array4 \<Rightarrow> simple_philox \<Rightarrow> nat" where
  "numbers_to d s = 5 * blocks_to d (philox_counter (generator s)) + (4 - used_result_index s)"

lemma draw32_ends:
  assumes "used_result_index s \<le> 4"
  shows "\<exists>v t. draw_from Rand32 rem s = Some (v, t) \<and> rem \<le> v \<and> used_result_index t \<le> 4"
proof -
  obtain d where d: "philox_block (philox_key (generator s)) d = ones" using philox_block_onto by blast
  show ?thesis
    using assms d
  proof (induction "numbers_to d s" arbitrary: s rule: less_induct)
    case less
    obtain v t where vt: "Rand32 s = (v, t)" by (cases "Rand32 s")
    have step: "draw_from Rand32 rem s = (if v < rem then draw_from Rand32 rem t else Some (v, t))"
      by (subst draw_from.simps) (simp add: vt)
    have t: "used_result_index t \<le> 4" "philox_key (generator t) = philox_key (generator s)"
      using vt less.prems(1) Rand32_next [of s] Rand32_block [of s] by (cases "used_result_index s = 4"; auto)+
    show ?case
    proof (cases "v < rem")
      case True
      have "numbers_to d t < numbers_to d s"
      proof (cases "used_result_index s = 4")
        case new: True
        have "philox_counter (generator s) \<noteq> d"
          using True Rand32_block [OF new] vt less.prems(2) element_ones [of 0] by auto
        from blocks_to_SkipOne [OF this] Rand32_block [OF new] vt new show ?thesis
          by (auto simp: numbers_to_def)
      next
        case False
        with Rand32_next [of s] vt less.prems(1) show ?thesis by (auto simp: numbers_to_def)
      qed
      from less.hyps [OF this t(1)] t(2) less.prems(2) step True show ?thesis by simp
    next
      case False
      with step t(1) show ?thesis by simp
    qed
  qed
qed


lemma Rand64_ones: "Rand32 s = (-1, t) \<Longrightarrow> Rand32 t = (-1, u) \<Longrightarrow> Rand64 s = (-1, u)"
  by (simp add: Rand64_def) (auto simp: bit_eq_iff bit_simps)

text \<open>A state whose next two numbers are all ones.\<close>

lemma ones_ahead:
  "used_result_index s \<le> 2 \<Longrightarrow> unused_results s = ones \<Longrightarrow> \<exists>t. Rand64 s = (-1, t) \<and> used_result_index t \<le> 4"
  "used_result_index s = 4 \<Longrightarrow> philox_block (philox_key (generator s)) (philox_counter (generator s)) = ones \<Longrightarrow>
    \<exists>t. Rand64 s = (-1, t) \<and> used_result_index t \<le> 4"
proof -
  have ahead: "\<exists>t. Rand64 s = (-1, t) \<and> used_result_index t \<le> 4"
    if "Rand32 s = (-1, u)" "used_result_index u \<le> 3" "unused_results u = ones" for s u
    using Rand64_ones [OF that(1)] that(2,3) Rand32_next [of u] by (simp add: element_ones)
  show "\<exists>t. Rand64 s = (-1, t) \<and> used_result_index t \<le> 4" if "used_result_index s \<le> 2" "unused_results s = ones"
    using that ahead [of s] Rand32_next [of s] by (simp add: element_ones)
  show "\<exists>t. Rand64 s = (-1, t) \<and> used_result_index t \<le> 4"
    if "used_result_index s = 4" "philox_block (philox_key (generator s)) (philox_counter (generator s)) = ones"
    using that ahead [of s] Rand32_block [of s] by (simp add: element_ones)
qed

lemma draw_stops: "random s = (v, t) \<Longrightarrow> \<not> v < rem \<Longrightarrow> draw_from random rem s = Some (v, t)"
  by (subst draw_from.simps) simp

lemma draw64_ends:
  assumes "used_result_index s \<le> 4"
  shows "\<exists>v t. draw_from Rand64 rem s = Some (v, t) \<and> rem \<le> v \<and> used_result_index t \<le> 4"
proof -
  obtain d where d: "philox_block (philox_key (generator s)) d = ones" using philox_block_onto by blast
  have stop: "\<exists>v t. draw_from Rand64 rem s = Some (v, t) \<and> rem \<le> v \<and> used_result_index t \<le> 4"
    if "\<exists>t. Rand64 s = (-1, t) \<and> used_result_index t \<le> 4" for s
    using that draw_stops [of Rand64 s "-1" _ rem] by (auto simp: not_less)
  show ?thesis
    using assms d
  proof (induction "numbers_to d s" arbitrary: s rule: less_induct)
    case less
    obtain lo u where lo: "Rand32 s = (lo, u)" by (cases "Rand32 s")
    obtain hi t where hi: "Rand32 u = (hi, t)" by (cases "Rand32 u")
    have r: "Rand64 s = (ucast lo OR push_bit 32 (ucast hi), t)" by (simp add: Rand64_def lo hi)
    have step: "draw_from Rand64 rem s =
        (if fst (Rand64 s) < rem then draw_from Rand64 rem t else Some (fst (Rand64 s), t))"
      by (subst draw_from.simps) (simp add: r)
    let ?c = "philox_counter (generator s)"
    consider (inside) "used_result_index s \<le> 2" | (last) "used_result_index s = 3" | (new) "used_result_index s = 4"
      using less.prems(1) by linarith
    then show ?case
    proof cases
      case inside
      then have t: "used_result_index t \<le> 4" "philox_key (generator t) = philox_key (generator s)"
        "numbers_to d t < numbers_to d s"
        using lo hi Rand32_next [of s] Rand32_next [of u] by (auto simp: numbers_to_def)
      from less.hyps [OF t(3,1)] t(1,2) less.prems(2) step show ?thesis by (cases "fst (Rand64 s) < rem") auto
    next
      case last
      then have u: "used_result_index u = 4" "generator u = generator s"
        using lo Rand32_next [of s] by auto
      have t: "used_result_index t = 1" "philox_key (generator t) = philox_key (generator s)"
        "philox_counter (generator t) = SkipOne ?c" "unused_results t = philox_block (philox_key (generator s)) ?c"
        using hi Rand32_block [OF u(1)] u(2) by auto
      show ?thesis
      proof (cases "?c = d")
        case True
        with t less.prems(2) have "\<exists>t'. Rand64 t = (-1, t') \<and> used_result_index t' \<le> 4" by (intro ones_ahead) simp_all
        from stop [OF this] step t(1) show ?thesis by (cases "fst (Rand64 s) < rem") auto
      next
        case False
        from blocks_to_SkipOne [OF this] t last have "numbers_to d t < numbers_to d s" by (simp add: numbers_to_def)
        from less.hyps [OF this] t(1,2) less.prems(2) step show ?thesis by (cases "fst (Rand64 s) < rem") auto
      qed
    next
      case new
      show ?thesis
      proof (cases "?c = d")
        case True
        with new less.prems(2) have "\<exists>t'. Rand64 s = (-1, t') \<and> used_result_index t' \<le> 4" by (intro ones_ahead) simp_all
        from stop [OF this] show ?thesis .
      next
        case False
        have u: "used_result_index u = 1" "generator u = (generator s)\<lparr>philox_counter := SkipOne ?c\<rparr>"
          using lo Rand32_block [OF new] by auto
        then have t: "used_result_index t = 2" "generator t = (generator s)\<lparr>philox_counter := SkipOne ?c\<rparr>"
          using hi Rand32_next [of u] by auto
        from blocks_to_SkipOne [OF False] t new have "numbers_to d t < numbers_to d s" by (simp add: numbers_to_def)
        from less.hyps [OF this] t less.prems(2) step show ?thesis by (cases "fst (Rand64 s) < rem") auto
      qed
    qed
  qed
qed

text \<open>The number that is drawn is below the bound.\<close>

lemma ExactUniformInt_ends:
  fixes n :: "'w :: len word"
  assumes draw: "\<And>rem. \<exists>v t. draw_from random rem s = Some (v, t) \<and> ok t"
    and random: "ok (snd (random s))" and n: "n \<noteq> 0"
  shows "\<exists>v t. ExactUniformInt n random s = Some (v, t) \<and> v < n \<and> ok t"
proof -
  have below: "v AND (n - 1) < n" for v :: "'w word"
  proof -
    have "v AND (n - 1) \<le> n - 1" by (rule word_and_le1)
    also have "n - 1 < n" using n by (simp add: word_less_nat_alt unat_minus_one unat_gt_0)
    finally show ?thesis .
  qed
  obtain r u where r: "random s = (r, u)" by (cases "random s")
  obtain v t where v: "draw_from random (NOT 0 mod n + 1) s = Some (v, t)" "ok t" using draw by blast
  show ?thesis
  proof (cases "n AND (n - 1) = 0")
    case True
    then have "ExactUniformInt n random s = Some (r AND (n - 1), u)" using n by (simp only: ExactUniformInt_def r Let_def prod.case if_False if_True simp_thms)
    with below random r show ?thesis by auto
  next
    case False
    then have "ExactUniformInt n random s = Some (v mod n, t)"
      using n by (simp only: ExactUniformInt_def v Let_def prod.case option.case if_False)
    moreover have "v mod n < n" using n by (intro word_mod_less_divisor) (simp only: word_gt_0 not_False_eq_True)
    ultimately show ?thesis using v(2) by blast
  qed
qed

lemma Rand_indices:
  "used_result_index s \<le> 4 \<Longrightarrow> used_result_index (snd (Rand32 s)) \<le> 4"
  "used_result_index s \<le> 4 \<Longrightarrow> used_result_index (snd (Rand64 s)) \<le> 4"
proof -
  show 32: "used_result_index (snd (Rand32 s)) \<le> 4" if "used_result_index s \<le> 4" for s
    using that Rand32_next [of s] Rand32_block [of s] by (cases "used_result_index s = 4") auto
  show "used_result_index (snd (Rand64 s)) \<le> 4" if "used_result_index s \<le> 4"
    using 32 [OF that] 32 [of "snd (Rand32 s)"] by (simp add: Rand64_def split_beta)
qed

lemma Uniform_ends:
  "used_result_index s \<le> 4 \<Longrightarrow> n \<noteq> 0 \<Longrightarrow> \<exists>v t. Uniform n s = Some (v, t) \<and> v < n \<and> used_result_index t \<le> 4"
  unfolding Uniform_def
  by (rule ExactUniformInt_ends) (use draw32_ends [of s] Rand_indices(1) [of s] in blast)+

lemma Uniform64_ends:
  "used_result_index s \<le> 4 \<Longrightarrow> n \<noteq> 0 \<Longrightarrow> \<exists>v t. Uniform64 n s = Some (v, t) \<and> v < n \<and> used_result_index t \<le> 4"
  unfolding Uniform64_def
  by (rule ExactUniformInt_ends) (use draw64_ends [of s] Rand_indices(2) [of s] in blast)+

end
