(* ===== verification/Generator_Properties.thy ===== *)
theory Generator_Properties
  imports Philox_Laws
begin

text \<open>
  What the generator of random numbers guarantees: its blocks are a permutation of a counter of
  128 bits, and an integer below a bound is always found.
\<close>

text \<open>
  C37. The counter of \<open>PhiloxRandom\<close> is a number of 128 bits: a block adds one to it, \<open>Skip\<close>
  adds its argument, except that it adds \<open>2 ^ 64\<close> too little where the carry of the low half
  makes \<open>count_hi\<close> wrap. With one key different counters give different blocks, and every
  block of four numbers is the block of a counter, so that the period is \<open>2 ^ 128\<close>.
\<close>

theorem philox_permutes_counter:
  "counter_value (philox_counter (snd (generate g))) = (counter_value (philox_counter g) + 1) mod 2 ^ 128 \<and>
   counter_value (Skip count c) =
     (counter_value c + unat count +
       (if unat (drop_bit 32 count) = 2 ^ 32 - 1 \<and> 2 ^ 32 \<le> counter_value c mod 2 ^ 32 + unat count mod 2 ^ 32
        then 2 ^ 128 - 2 ^ 64 else 0)) mod 2 ^ 128 \<and>
   (philox_block key c = philox_block key d \<longleftrightarrow> counter_value c = counter_value d) \<and>
   (\<exists>start. fst (generate \<lparr>philox_counter = start, philox_key = key\<rparr>) = block)"
proof (intro conjI)
  have "philox_counter (snd (generate g)) = SkipOne (philox_counter g)" by (simp add: generate_def)
  then show "counter_value (philox_counter (snd (generate g))) = (counter_value (philox_counter g) + 1) mod 2 ^ 128"
    by (simp only: SkipOne_value)
  show "philox_block key c = philox_block key d \<longleftrightarrow> counter_value c = counter_value d"
    by (simp only: philox_block_inject counter_value_inject)
  obtain start where "philox_block key start = block" by (rule philox_block_onto)
  then show "\<exists>start. fst (generate \<lparr>philox_counter = start, philox_key = key\<rparr>) = block"
    by (auto simp: generate_def)
qed (rule Skip_value [unfolded carry_lost_def])

text \<open>
  C38. \<open>Uniform\<close> and \<open>Uniform64\<close> return: whatever the key and the counter, the rejection sampling
  draws a number that it keeps, and the result is below the bound.
\<close>

theorem uniform_returns:
  assumes "used_result_index s \<le> 4" "n \<noteq> 0" "m \<noteq> 0"
  shows "(\<exists>v t. Uniform n s = Some (v, t) \<and> v < n \<and> used_result_index t \<le> 4) \<and>
    (\<exists>v t. Uniform64 m s = Some (v, t) \<and> v < m \<and> used_result_index t \<le> 4)"
  using Uniform_ends [OF assms(1,2)] Uniform64_ends [OF assms(1,3)] by blast

theorem uniform_returns_witness:
  "\<exists>v t. Uniform 10 (make_simple_philox (philox_of_seed 301)) = Some (v, t) \<and> v < 10 \<and> used_result_index t \<le> 4"
proof -
  have "used_result_index (make_simple_philox (philox_of_seed 301)) \<le> 4" by (simp add: make_simple_philox_def)
  from uniform_returns [OF this, of 10 10] show ?thesis by simp
qed

end
