(* ===== verification/Path.thy ===== *)
theory Path
  imports Stringpiece
begin

text \<open>
  \<open>src/base/io/path.cc\<close>: joining and splitting the names of files, and \<open>CleanPath\<close>, which
  normalises a name in place: it reads the string at \<open>src\<close> and writes the same string at \<open>dst\<close>.
\<close>

abbreviation SEP :: byte where
  "SEP \<equiv> 47"

abbreviation DOT :: byte where
  "DOT \<equiv> 46"

section \<open>Joining and splitting\<close>

definition IsAbsolutePath :: "byte list \<Rightarrow> bool" where
  "IsAbsolutePath path \<longleftrightarrow> path \<noteq> [] \<and> path ! 0 = SEP"

definition join_one :: "byte list \<Rightarrow> byte list \<Rightarrow> byte list" where
  "join_one path result =
     (if path = [] then result
      else if result = [] then path
      else if result ! (length result - 1) = SEP then
        if IsAbsolutePath path then result @ substr 1 npos path else result @ path
      else
        if IsAbsolutePath path then result @ path else result @ [SEP] @ path)"

definition JoinPathImpl :: "byte list list \<Rightarrow> byte list" where
  "JoinPathImpl paths = fold join_one paths []"

definition SplitPath :: "byte list \<Rightarrow> byte list \<times> byte list" where
  "SplitPath path =
     (let pos = rfind_char path SEP npos in
      if pos = npos then ([], path)
      else if pos = 0 then (take 1 path, drop 1 path)
      else (take pos path, drop (pos + 1) path))"

definition Dirname :: "byte list \<Rightarrow> byte list" where
  "Dirname path = fst (SplitPath path)"

definition Basename :: "byte list \<Rightarrow> byte list" where
  "Basename path = snd (SplitPath path)"

definition SplitBasename :: "byte list \<Rightarrow> byte list \<times> byte list" where
  "SplitBasename path =
     (let path = Basename path; pos = rfind_char path DOT npos in
      if pos = npos then (path, []) else (take pos path, drop (pos + 1) path))"

definition Extension :: "byte list \<Rightarrow> byte list" where
  "Extension path = snd (SplitBasename path)"

section \<open>Cleaning in place\<close>

text \<open>The string, and the places of \<open>src\<close>, \<open>dst\<close> and \<open>backtrack_limit\<close> in it.\<close>

record cleaner =
  cl_path :: "byte list"
  cl_src :: nat
  cl_dst :: nat
  cl_limit :: nat

text \<open>\<open>src[k]\<close>: the string ends with a NUL.\<close>

definition src_at :: "nat \<Rightarrow> cleaner \<Rightarrow> byte" where
  "src_at k c = (if cl_src c + k < length (cl_path c) then cl_path c ! (cl_src c + k) else 0)"

text \<open>\<open>*dst++ = *src++\<close>.\<close>

definition copy_byte :: "cleaner \<Rightarrow> cleaner" where
  "copy_byte c = c\<lparr>cl_path := (cl_path c)[cl_dst c := src_at 0 c], cl_src := cl_src c + 1, cl_dst := cl_dst c + 1\<rparr>"

function skip_separators :: "cleaner \<Rightarrow> cleaner" where
  "skip_separators c = (if src_at 0 c = SEP then skip_separators (c\<lparr>cl_src := cl_src c + 1\<rparr>) else c)"
  by pat_completeness auto

termination
  by (relation "measure (\<lambda>c. length (cl_path c) - cl_src c)") (auto simp: src_at_def split: if_splits)

declare skip_separators.simps [simp del]

text \<open>The copy of a part, up to the next separator or the end.\<close>

function copy_part :: "cleaner \<Rightarrow> cleaner" where
  "copy_part c = (if src_at 0 c \<noteq> 0 \<and> src_at 0 c \<noteq> SEP then copy_part (copy_byte c) else c)"
  by pat_completeness auto

termination
  by (relation "measure (\<lambda>c. length (cl_path c) - cl_src c)") (auto simp: src_at_def copy_byte_def split: if_splits)

declare copy_part.simps [simp del]

text \<open>The loop that goes back to the separator before the last part, after \<open>--dst\<close>.\<close>

fun backtrack :: "byte list \<Rightarrow> nat \<Rightarrow> nat \<Rightarrow> nat" where
  "backtrack path limit 0 = 0"
| "backtrack path limit (Suc dst) =
     (if Suc dst \<noteq> limit \<and> path ! dst \<noteq> SEP then backtrack path limit dst else Suc dst)"

text \<open>The copy of a part \<open>..\<close> that cannot be resolved; nothing goes back over it.\<close>

definition copy_parent :: "cleaner \<Rightarrow> cleaner" where
  "copy_parent c =
     (let c = copy_byte (copy_byte c);
          c = (if src_at 0 c \<noteq> 0 then
                 c\<lparr>cl_path := (cl_path c)[cl_dst c := src_at 0 c], cl_dst := cl_dst c + 1\<rparr>
               else c) in
      c\<lparr>cl_limit := cl_dst c\<rparr>)"

text \<open>The part is \<open>..\<close>.\<close>

definition parent_part :: "bool \<Rightarrow> cleaner \<Rightarrow> cleaner" where
  "parent_part is_absolute_path c =
     (let c = c\<lparr>cl_src := cl_src c + 2\<rparr>;
          c = (if cl_dst c \<noteq> cl_limit c then
                 c\<lparr>cl_dst := backtrack (cl_path c) (cl_limit c) (cl_dst c - 1)\<rparr>
               else if \<not> is_absolute_path then copy_parent (c\<lparr>cl_src := cl_src c - 2\<rparr>)
               else c) in
      if src_at 0 c \<noteq> 0 then c\<lparr>cl_src := cl_src c + 1\<rparr> else c)"

text \<open>One pass of the loop over the parts, up to the separators behind the part.\<close>

definition clean_part :: "bool \<Rightarrow> cleaner \<Rightarrow> cleaner" where
  "clean_part is_absolute_path c =
     (if src_at 0 c = DOT \<and> (src_at 1 c = SEP \<or> src_at 1 c = 0) then
        let c = c\<lparr>cl_src := cl_src c + 1\<rparr> in
        if src_at 0 c \<noteq> 0 then c\<lparr>cl_src := cl_src c + 1\<rparr> else c
      else if src_at 0 c = DOT \<and> src_at 1 c = DOT \<and> (src_at 2 c = SEP \<or> src_at 2 c = 0) then
        parent_part is_absolute_path c
      else
        let c = copy_part c in
        if src_at 0 c \<noteq> 0 then copy_byte c else c)"

lemma skip_separators_frame:
  "cl_path (skip_separators c) = cl_path c \<and> cl_src c \<le> cl_src (skip_separators c)"
proof (induction c rule: skip_separators.induct)
  case (1 c)
  then show ?case by (subst (1 2) skip_separators.simps) (auto split: if_splits)
qed

lemma copy_part_frame:
  "length (cl_path (copy_part c)) = length (cl_path c) \<and> cl_src c \<le> cl_src (copy_part c) \<and>
    (src_at 0 c \<noteq> 0 \<and> src_at 0 c \<noteq> SEP \<longrightarrow> cl_src c < cl_src (copy_part c))"
proof (induction c rule: copy_part.induct)
  case (1 c)
  then show ?case by (subst (1 2 3) copy_part.simps) (auto simp: copy_byte_def split: if_splits)
qed

lemma parent_part_progress: "length (cl_path (parent_part a c)) = length (cl_path c) \<and> cl_src c < cl_src (parent_part a c)"
  by (simp add: parent_part_def copy_parent_def copy_byte_def Let_def)

lemma clean_part_progress:
  assumes "src_at 0 c \<noteq> 0"
  shows "length (cl_path (clean_part a c)) = length (cl_path c) \<and> cl_src c < cl_src (clean_part a c)"
proof -
  have "cl_src c < cl_src (copy_part c) \<or> copy_part c = c \<and> src_at 0 (copy_part c) \<noteq> 0"
    using assms copy_part_frame [of c] copy_part.simps [of c] by (cases "src_at 0 c = SEP") auto
  then show ?thesis
    using copy_part_frame [of c] parent_part_progress [of a c] by (auto simp: clean_part_def copy_byte_def Let_def)
qed

function clean_loop :: "bool \<Rightarrow> cleaner \<Rightarrow> cleaner" where
  "clean_loop is_absolute_path c =
     (if src_at 0 c \<noteq> 0 then clean_loop is_absolute_path (skip_separators (clean_part is_absolute_path c)) else c)"
  by pat_completeness auto

termination
proof (relation "measure (\<lambda>(_, c). length (cl_path c) - cl_src c)")
  fix a c assume at: "src_at 0 c \<noteq> 0"
  then have "cl_src c < length (cl_path c)" by (auto simp: src_at_def split: if_splits)
  with clean_part_progress [OF at, of a] skip_separators_frame [of "clean_part a c"]
  show "((a, skip_separators (clean_part a c)), (a, c)) \<in> measure (\<lambda>(_, c). length (cl_path c) - cl_src c)"
    by (simp, linarith)
qed simp

declare clean_loop.simps [simp del]

text \<open>The length is an \<open>int\<close>: the model is for names of less than 2 GB.\<close>

definition CleanPath :: "byte list \<Rightarrow> byte list" where
  "CleanPath unclean_path =
     (let c = \<lparr>cl_path = unclean_path, cl_src = 0, cl_dst = 0, cl_limit = 0\<rparr>;
          is_absolute_path = (src_at 0 c = SEP);
          c = (if is_absolute_path then skip_separators (copy_byte c) else c);
          c = clean_loop is_absolute_path (c\<lparr>cl_limit := cl_dst c\<rparr>);
          path_length = cl_dst c in
      if path_length \<noteq> 0 then
        take (if 1 < path_length \<and> cl_path c ! (path_length - 1) = SEP then path_length - 1 else path_length) (cl_path c)
      else [DOT])"

end
