(* ===== verification/Path_Laws.thy ===== *)
theory Path_Laws
  imports Path
begin

text \<open>
  What \<open>CleanPath\<close> computes: the parts of the name with the dots resolved on a stack. The
  place that is written is never ahead of the place that is read, so that the parts that are
  still to be read are those of the name that was given.
\<close>

section \<open>The reference\<close>

function components :: "byte list \<Rightarrow> byte list list" where
  "components s =
     (case dropWhile (\<lambda>b. b = SEP) s of
        [] \<Rightarrow> []
      | b # r \<Rightarrow> takeWhile (\<lambda>b. b \<noteq> SEP) (b # r) # components (dropWhile (\<lambda>b. b \<noteq> SEP) (b # r)))"
  by pat_completeness auto

termination
proof (relation "measure length")
  fix s r :: "byte list" and b
  assume eq: "dropWhile (\<lambda>b. b = SEP) s = b # r"
  then have "b \<noteq> SEP" using hd_dropWhile [of "\<lambda>b. b = SEP" s] by simp
  then have "length (dropWhile (\<lambda>b. b \<noteq> SEP) (b # r)) \<le> length r" by (simp add: length_dropWhile_le)
  also have "length r < length (dropWhile (\<lambda>b. b = SEP) s)" by (simp add: eq)
  also have "\<dots> \<le> length s" by (rule length_dropWhile_le)
  finally show "(dropWhile (\<lambda>b. b \<noteq> SEP) (b # r), s) \<in> measure length" by simp
qed simp

declare components.simps [simp del]

text \<open>The stack has its top in front.\<close>

fun resolve :: "bool \<Rightarrow> byte list list \<Rightarrow> byte list list \<Rightarrow> byte list list" where
  "resolve is_abs st [] = rev st"
| "resolve is_abs st (c # cs) =
     (if c = [DOT] then resolve is_abs st cs
      else if c = [DOT, DOT] then
        if st \<noteq> [] \<and> hd st \<noteq> [DOT, DOT] then resolve is_abs (tl st) cs
        else if is_abs then resolve is_abs st cs
        else resolve is_abs ([DOT, DOT] # st) cs
      else resolve is_abs (c # st) cs)"

fun join_parts :: "byte list list \<Rightarrow> byte list" where
  "join_parts [] = []"
| "join_parts [c] = c"
| "join_parts (c # cs) = c @ [SEP] @ join_parts cs"

definition clean_name :: "byte list \<Rightarrow> byte list" where
  "clean_name s =
     (let is_abs = IsAbsolutePath s; cs = resolve is_abs [] (components s) in
      if is_abs then SEP # join_parts cs else if cs = [] then [DOT] else join_parts cs)"

section \<open>The string that is read and the string that is written\<close>

definition holds :: "byte list \<Rightarrow> nat \<Rightarrow> byte list \<Rightarrow> cleaner \<Rightarrow> bool" where
  "holds out lim rest c \<longleftrightarrow>
     cl_dst c = length out \<and> take (length out) (cl_path c) = out \<and> cl_limit c = lim \<and>
     cl_dst c \<le> cl_src c \<and> cl_src c \<le> length (cl_path c) \<and>
     rest = takeWhile (\<lambda>b. b \<noteq> 0) (drop (cl_src c) (cl_path c))"

lemma src_at_holds:
  assumes "holds out lim rest c" "k \<le> length rest"
  shows "src_at k c = (if k < length rest then rest ! k else 0)"
proof -
  let ?d = "drop (cl_src c) (cl_path c)"
  have rest: "rest = takeWhile (\<lambda>b. b \<noteq> 0) ?d" and src: "cl_src c \<le> length (cl_path c)"
    using assms(1) by (simp_all add: holds_def)
  have le: "length rest \<le> length ?d" unfolding rest by (rule length_takeWhile_le)
  show ?thesis
  proof (cases "k < length rest")
    case True
    then have "rest ! k = ?d ! k" unfolding rest by (rule takeWhile_nth)
    moreover have "cl_src c + k < length (cl_path c)" using True le by simp
    ultimately show ?thesis using True src by (simp add: src_at_def)
  next
    case False
    with assms(2) have k: "k = length rest" by simp
    show ?thesis
    proof (cases "k < length ?d")
      case True
      then have "?d ! k = 0" using nth_length_takeWhile [of "\<lambda>b. b \<noteq> 0" ?d] unfolding k rest by simp
      with True False src show ?thesis by (simp add: src_at_def)
    next
      case outside: False
      then have "\<not> cl_src c + k < length (cl_path c)" by simp
      with False show ?thesis by (simp add: src_at_def)
    qed
  qed
qed

lemma holds_nonzero: "holds out lim rest c \<Longrightarrow> b \<in> set rest \<Longrightarrow> b \<noteq> 0"
  by (auto simp: holds_def dest: set_takeWhileD)

lemma src_at_Cons: "holds out lim (b # r) c \<Longrightarrow> src_at 0 c = b" "holds out lim [] c \<Longrightarrow> src_at 0 c = 0"
  using src_at_holds [of out lim "b # r" c 0] src_at_holds [of out lim "[]" c 0] by simp_all

lemma holds_inside:
  assumes "holds out lim (b # r) c"
  shows "cl_src c < length (cl_path c)" "drop (cl_src c) (cl_path c) = b # drop (cl_src c + 1) (cl_path c)"
    "r = takeWhile (\<lambda>b. b \<noteq> 0) (drop (cl_src c + 1) (cl_path c))"
proof -
  have eq: "b # r = takeWhile (\<lambda>b. b \<noteq> 0) (drop (cl_src c) (cl_path c))" using assms by (simp add: holds_def)
  then show less: "cl_src c < length (cl_path c)" by (cases "cl_src c < length (cl_path c)") simp_all
  have d: "drop (cl_src c) (cl_path c) = cl_path c ! cl_src c # drop (cl_src c + 1) (cl_path c)"
    using Cons_nth_drop_Suc [OF less] by simp
  with eq show "drop (cl_src c) (cl_path c) = b # drop (cl_src c + 1) (cl_path c)"
    "r = takeWhile (\<lambda>b. b \<noteq> 0) (drop (cl_src c + 1) (cl_path c))"
    by (simp_all split: if_splits)
qed

lemma advance_holds: "holds out lim (b # r) c \<Longrightarrow> holds out lim r (c\<lparr>cl_src := cl_src c + 1\<rparr>)"
  using holds_inside(1,3) [of out lim b r c] by (simp add: holds_def)

lemma copy_byte_holds: "holds out lim (b # r) c \<Longrightarrow> holds (out @ [b]) lim r (copy_byte c)"
proof -
  assume h: "holds out lim (b # r) c"
  note i = holds_inside(1,3) [OF h] and at = src_at_Cons(1) [OF h]
  have dst: "cl_dst c = length out" "cl_dst c \<le> cl_src c" "take (length out) (cl_path c) = out" "cl_limit c = lim"
    using h by (simp_all add: holds_def)
  have "length out < length (cl_path c)" using dst i(1) by simp
  then have "take (length out + 1) ((cl_path c)[length out := b]) = out @ [b]"
    using dst(3) by (simp add: take_Suc_conv_app_nth)
  moreover have "drop (cl_src c + 1) ((cl_path c)[length out := b]) = drop (cl_src c + 1) (cl_path c)"
    using dst by (simp add: drop_update_cancel)
  ultimately show ?thesis using dst i at by (simp add: holds_def copy_byte_def)
qed

lemma back_holds:
  assumes "holds out lim rest c" "n \<le> length out"
  shows "holds (take n out) lim rest (c\<lparr>cl_dst := n\<rparr>)"
proof -
  have "take n (cl_path c) = take n (take (length out) (cl_path c))" using assms(2) by (simp add: min_def)
  also have "\<dots> = take n out" using assms(1) by (simp add: holds_def)
  finally show ?thesis using assms by (simp add: holds_def min_def)
qed

lemma skip_separators_holds: "holds out lim rest c \<Longrightarrow> holds out lim (dropWhile (\<lambda>b. b = SEP) rest) (skip_separators c)"
proof (induction rest arbitrary: c)
  case Nil
  then show ?case by (subst skip_separators.simps) (simp add: src_at_Cons)
next
  case (Cons b rest)
  show ?case
  proof (cases "b = SEP")
    case True
    with Cons.IH [OF advance_holds [OF Cons.prems]] show ?thesis
      by (subst skip_separators.simps) (simp add: src_at_Cons(1) [OF Cons.prems])
  next
    case False
    with Cons.prems show ?thesis by (subst skip_separators.simps) (simp add: src_at_Cons(1) [OF Cons.prems])
  qed
qed

lemma copy_part_holds:
  "holds out lim rest c \<Longrightarrow>
    holds (out @ takeWhile (\<lambda>b. b \<noteq> SEP) rest) lim (dropWhile (\<lambda>b. b \<noteq> SEP) rest) (copy_part c)"
proof (induction rest arbitrary: c out)
  case Nil
  then show ?case by (subst copy_part.simps) (simp add: src_at_Cons)
next
  case (Cons b rest)
  have b: "b \<noteq> 0" using holds_nonzero [OF Cons.prems] by simp
  show ?case
  proof (cases "b = SEP")
    case True
    with Cons.prems show ?thesis by (subst copy_part.simps) (simp add: src_at_Cons(1) [OF Cons.prems])
  next
    case False
    with Cons.IH [OF copy_byte_holds [OF Cons.prems]] b show ?thesis
      by (subst copy_part.simps) (simp add: src_at_Cons(1) [OF Cons.prems])
  qed
qed

section \<open>One part\<close>

text \<open>The separator behind a part, if the name does not end there.\<close>

abbreviation sep_after :: "byte list \<Rightarrow> byte list" where
  "sep_after left \<equiv> take 1 left"

lemma part_left:
  assumes "rest \<noteq> []" "hd rest \<noteq> SEP"
  defines "part \<equiv> takeWhile (\<lambda>b. b \<noteq> SEP) rest" and "left \<equiv> dropWhile (\<lambda>b. b \<noteq> SEP) rest"
  shows "rest = part @ left" "part \<noteq> []" "left = [] \<or> hd left = SEP" "SEP \<notin> set part"
proof -
  show "rest = part @ left" by (simp add: part_def left_def)
  show "part \<noteq> []" using assms(1,2) by (cases rest) (simp_all add: part_def)
  show "left = [] \<or> hd left = SEP" using hd_dropWhile [of "\<lambda>b. b \<noteq> SEP" rest] by (auto simp: left_def)
  show "SEP \<notin> set part" by (auto simp: part_def dest: set_takeWhileD)
qed

lemma step_left: "holds out lim left c \<Longrightarrow>
  holds out lim (tl left) (if src_at 0 c \<noteq> 0 then c\<lparr>cl_src := cl_src c + 1\<rparr> else c)"
proof (cases left)
  case (Cons b r)
  assume h: "holds out lim left c"
  then have "b \<noteq> 0" using holds_nonzero [OF h, of b] Cons by simp
  with h Cons advance_holds [of out lim b r c] src_at_Cons(1) [of out lim b r c] show ?thesis by simp
qed (simp add: src_at_Cons)

lemma copy_left: "holds out lim left c \<Longrightarrow>
  holds (out @ sep_after left) lim (tl left) (if src_at 0 c \<noteq> 0 then copy_byte c else c)"
proof (cases left)
  case (Cons b r)
  assume h: "holds out lim left c"
  then have "b \<noteq> 0" using holds_nonzero [OF h, of b] Cons by simp
  with h Cons copy_byte_holds [of out lim b r c] src_at_Cons(1) [of out lim b r c] show ?thesis by simp
qed (simp add: src_at_Cons)


lemma part_dots:
  assumes h: "holds out lim rest c" and rest: "rest = part @ left" "part \<noteq> []" "SEP \<notin> set part"
    and left: "left = [] \<or> hd left = SEP"
  shows "src_at 0 c = DOT \<and> (src_at 1 c = SEP \<or> src_at 1 c = 0) \<longleftrightarrow> part = [DOT]"
    "src_at 0 c = DOT \<and> src_at 1 c = DOT \<and> (src_at 2 c = SEP \<or> src_at 2 c = 0) \<longleftrightarrow> part = [DOT, DOT]"
proof -
  have nonzero: "b \<noteq> 0" if "b \<in> set part" for b using holds_nonzero [OF h] that rest(1) by simp
  have behind: "src_at (length part) c = (if left = [] then 0 else SEP)"
    using src_at_holds [OF h, of "length part"] left rest(1) by (cases left) auto
  have inside: "src_at k c = part ! k" if "k < length part" for k
    using src_at_holds [OF h, of k] that rest(1) by (simp add: nth_append)
  have other: "part ! k \<noteq> SEP \<and> part ! k \<noteq> 0" if "k < length part" for k
    using nonzero [of "part ! k"] rest(3) nth_mem [OF that] by metis
  obtain p ps where part: "part = p # ps" using rest(2) by (cases part) auto
  show "src_at 0 c = DOT \<and> (src_at 1 c = SEP \<or> src_at 1 c = 0) \<longleftrightarrow> part = [DOT]"
  proof (cases ps)
    case Nil
    then show ?thesis using inside [of 0] behind part by simp
  next
    case (Cons q qs)
    then show ?thesis using inside [of 1] other [of 1] part by simp
  qed
  show "src_at 0 c = DOT \<and> src_at 1 c = DOT \<and> (src_at 2 c = SEP \<or> src_at 2 c = 0) \<longleftrightarrow> part = [DOT, DOT]"
  proof (cases ps)
    case Nil
    then show ?thesis using behind part by simp
  next
    case (Cons q qs)
    show ?thesis
    proof (cases qs)
      case Nil
      then show ?thesis using inside [of 0] inside [of 1] behind part Cons by (simp add: numeral_2_eq_2)
    next
      case (Cons r rs)
      then show ?thesis using inside [of 2] other [of 2] part \<open>ps = q # qs\<close> by simp
    qed
  qed
qed

lemma backtrack_cong: "\<forall>d < n. p ! d = q ! d \<Longrightarrow> backtrack p lim n = backtrack q lim n"
  by (induction n) simp_all

lemma set_limit_holds: "holds out lim rest c \<Longrightarrow> holds out (length out) rest (c\<lparr>cl_limit := cl_dst c\<rparr>)"
  by (simp add: holds_def)

text \<open>The copy of \<open>..\<close>: the separator behind it is written before \<open>src\<close> moves past it.\<close>

lemma copy_parent_holds:
  assumes h: "holds out lim ([DOT, DOT] @ left) c"
  shows "holds (out @ [DOT, DOT] @ sep_after left) (length (out @ [DOT, DOT] @ sep_after left)) (tl left)
    (if src_at 0 (copy_parent c) \<noteq> 0 then (copy_parent c)\<lparr>cl_src := cl_src (copy_parent c) + 1\<rparr> else copy_parent c)"
proof -
  define c1 where "c1 = copy_byte (copy_byte c)"
  have h1: "holds (out @ [DOT, DOT]) lim left c1"
    using copy_byte_holds [OF copy_byte_holds [of out lim DOT "DOT # left" c]] h by (simp add: c1_def)
  show ?thesis
  proof (cases left)
    case Nil
    with h1 src_at_Cons(2) [of "out @ [DOT, DOT]" lim c1] have at: "src_at 0 c1 = 0" by simp
    then have copy: "copy_parent c = c1\<lparr>cl_limit := cl_dst c1\<rparr>" by (simp add: copy_parent_def c1_def [symmetric])
    then have "src_at 0 (copy_parent c) = src_at 0 c1" unfolding src_at_def by simp
    with at copy set_limit_holds [OF h1] Nil show ?thesis by simp
  next
    case (Cons b r)
    then have b: "b \<noteq> 0" using holds_nonzero [OF h1, of b] by simp
    have at: "src_at 0 c1 = b" using h1 Cons src_at_Cons(1) by blast
    have copy: "copy_parent c = c1\<lparr>cl_path := (cl_path c1)[cl_dst c1 := b], cl_dst := cl_dst c1 + 1, cl_limit := cl_dst c1 + 1\<rparr>"
      using at b by (simp add: copy_parent_def c1_def [symmetric])
    have "cl_src c1 < length (cl_path c1)" using holds_inside(1) h1 Cons by blast
    moreover have "cl_dst c1 \<le> cl_src c1" using h1 by (simp add: holds_def)
    ultimately have "src_at 0 (copy_parent c) = b"
      using at by (auto simp: copy src_at_def nth_list_update)
    moreover have "(copy_parent c)\<lparr>cl_src := cl_src (copy_parent c) + 1\<rparr> = (copy_byte c1)\<lparr>cl_limit := cl_dst (copy_byte c1)\<rparr>"
      using at by (simp add: copy copy_byte_def)
    moreover have "holds ((out @ [DOT, DOT]) @ [b]) lim r (copy_byte c1)" using h1 Cons copy_byte_holds by blast
    ultimately show ?thesis using b set_limit_holds [of "(out @ [DOT, DOT]) @ [b]" lim r "copy_byte c1"] Cons by simp
  qed
qed

lemma clean_part_holds:
  assumes h: "holds out lim (part @ left) c" and part: "part \<noteq> []" "SEP \<notin> set part"
    and left: "left = [] \<or> hd left = SEP"
  shows "part = [DOT] \<Longrightarrow> holds out lim (tl left) (clean_part a c)"
    "part = [DOT, DOT] \<Longrightarrow> length out \<noteq> lim \<Longrightarrow>
      holds (take (backtrack out lim (length out - 1)) out) lim (tl left) (clean_part a c)"
    "part = [DOT, DOT] \<Longrightarrow> length out = lim \<Longrightarrow> a \<Longrightarrow> holds out lim (tl left) (clean_part a c)"
    "part = [DOT, DOT] \<Longrightarrow> length out = lim \<Longrightarrow> \<not> a \<Longrightarrow>
      holds (out @ part @ sep_after left) (length (out @ part @ sep_after left)) (tl left) (clean_part a c)"
    "part \<noteq> [DOT] \<Longrightarrow> part \<noteq> [DOT, DOT] \<Longrightarrow> holds (out @ part @ sep_after left) lim (tl left) (clean_part a c)"
proof -
  note dots = part_dots [OF h refl part left]
  have dst: "cl_dst c = length out" "cl_limit c = lim" "take (length out) (cl_path c) = out" "cl_src c \<le> length (cl_path c)"
    using h by (simp_all add: holds_def)
  show "holds out lim (tl left) (clean_part a c)" if "part = [DOT]"
    using that dots(1) step_left [OF advance_holds [of out lim DOT left c]] h
    by (simp add: clean_part_def Let_def split: if_splits)
  show "holds (out @ part @ sep_after left) lim (tl left) (clean_part a c)" if "part \<noteq> [DOT]" "part \<noteq> [DOT, DOT]"
  proof -
    have split: "takeWhile (\<lambda>b. b \<noteq> SEP) (part @ left) = part" "dropWhile (\<lambda>b. b \<noteq> SEP) (part @ left) = left"
      using part(2) left by (cases left; auto simp: takeWhile_append dropWhile_append)+
    show ?thesis
      using copy_left [OF copy_part_holds [OF h], unfolded split]
      by (simp only: clean_part_def dots that if_False simp_thms Let_def append_assoc)
  qed
  assume p: "part = [DOT, DOT]"
  have clean: "clean_part a c = parent_part a c" unfolding clean_part_def dots using p by simp
  have h2: "holds out lim left (c\<lparr>cl_src := cl_src c + 2\<rparr>)"
    using advance_holds [OF advance_holds [of out lim DOT "DOT # left" c]] h p by simp
  show "holds out lim (tl left) (clean_part a c)" if "length out = lim" "a"
    using that step_left [OF h2] dst unfolding clean by (simp add: parent_part_def Let_def split: if_splits)
  show "holds (out @ part @ sep_after left) (length (out @ part @ sep_after left)) (tl left) (clean_part a c)"
    if "length out = lim" "\<not> a"
    using that copy_parent_holds [of out lim left c] h p dst unfolding clean by (simp add: parent_part_def Let_def split: if_splits)
  show "holds (take (backtrack out lim (length out - 1)) out) lim (tl left) (clean_part a c)" if "length out \<noteq> lim"
  proof -
    have "\<forall>d < length out - 1. cl_path c ! d = out ! d"
      by (metis dst(3) less_diff_conv add_lessD1 nth_take)
    then have eq: "backtrack (cl_path c) lim (length out - 1) = backtrack out lim (length out - 1)" by (rule backtrack_cong)
    have le: "backtrack q l n \<le> n" for q l n by (induction n) auto
    have "backtrack out lim (length out - 1) \<le> length out" using le [of out lim "length out - 1"] by simp
    from step_left [OF back_holds [OF h2 this]] that dst show ?thesis
      unfolding clean by (simp add: parent_part_def Let_def eq [simplified] split: if_splits)
  qed
qed


section \<open>The loop\<close>

definition base :: "bool \<Rightarrow> byte list" where
  "base a = (if a then [SEP] else [])"

definition body :: "byte list list \<Rightarrow> byte list" where
  "body cs = concat (map (\<lambda>c. c @ [SEP]) cs)"

lemma parts_body_simps [simp]: "body [] = []" "body (c # cs) = c @ SEP # body cs" "body (cs @ ds) = body cs @ body ds"
  by (simp_all add: body_def)

definition proper :: "byte list \<Rightarrow> bool" where
  "proper c \<longleftrightarrow> c \<noteq> [] \<and> SEP \<notin> set c"

definition plain :: "byte list \<Rightarrow> bool" where
  "plain c \<longleftrightarrow> proper c \<and> c \<noteq> [DOT] \<and> c \<noteq> [DOT, DOT]"

lemma proper_dots [simp]: "proper [DOT, DOT]" "proper [DOT]"
  by (simp_all add: proper_def)

lemma backtrack_part:
  assumes part: "SEP \<notin> set part" and pre: "length pre = lim \<or> pre = [] \<or> last pre = SEP" and lim: "lim \<le> length pre"
  shows "k \<le> length part \<Longrightarrow> backtrack (pre @ part @ ys) lim (length pre + k) = length pre"
proof (induction k)
  case 0
  show ?case
  proof (cases pre rule: rev_cases)
    case (snoc ys y)
    with pre show ?thesis by (auto simp: nth_append)
  qed simp
next
  case (Suc k)
  then have "part ! k \<noteq> SEP" using part by (metis Suc_le_eq nth_mem)
  with Suc lim show ?case by (simp add: nth_append)
qed

lemma last_body: "cs \<noteq> [] \<Longrightarrow> last (body cs) = SEP"
  by (cases cs rule: rev_cases) simp_all

lemma components_SEP [simp]: "components (SEP # s) = components s" "components [] = []"
  by (subst (1 2) components.simps, simp) (subst components.simps, simp)

lemma components_skip: "components (dropWhile (\<lambda>b. b = SEP) s) = components s"
  by (induction s) auto

lemma components_part:
  assumes "part \<noteq> []" "SEP \<notin> set part" "left = [] \<or> hd left = SEP"
  shows "components (part @ left) = part # components (tl left)"
proof -
  obtain p ps where p: "part = p # ps" "p \<noteq> SEP" using assms(1,2) by (cases part) auto
  have "takeWhile (\<lambda>b. b \<noteq> SEP) (part @ left) = part" "dropWhile (\<lambda>b. b \<noteq> SEP) (part @ left) = left"
    using assms(2,3) by (cases left; auto simp: takeWhile_append dropWhile_append)+
  then have "components (part @ left) = part # components left"
    using p by (subst components.simps) simp
  moreover have "components left = components (tl left)" using assms(3) by (cases left) auto
  ultimately show ?thesis by simp
qed

text \<open>The output so far, with the last separator or, at the end of the name, without it.\<close>

definition written :: "bool \<Rightarrow> byte list list \<Rightarrow> byte list \<Rightarrow> bool" where
  "written a cs out \<longleftrightarrow> out = base a @ body cs \<or> (cs \<noteq> [] \<and> base a @ body cs = out @ [SEP])"

lemma clean_loop_ok:
  assumes "holds (base a @ body (ups @ cs)) (length (base a @ body ups)) rest c"
    "ups = replicate n [DOT, DOT]" "a \<Longrightarrow> ups = []" "list_all plain cs" "rest \<noteq> [] \<Longrightarrow> hd rest \<noteq> SEP"
  shows "\<exists>out lim. holds out lim [] (clean_loop a c) \<and> written a (resolve a (rev (ups @ cs)) (components rest)) out"
  using assms
proof (induction "length rest" arbitrary: rest c ups n cs rule: less_induct)
  case less
  show ?case
  proof (cases "rest = []")
    case True
    with less.prems(1) have "clean_loop a c = c" using src_at_Cons(2) by (subst clean_loop.simps) auto
    with True less.prems(1) show ?thesis by (auto simp: written_def)
  next
    case False
    define part where "part = takeWhile (\<lambda>b. b \<noteq> SEP) rest"
    define left where "left = dropWhile (\<lambda>b. b \<noteq> SEP) rest"
    note pl = part_left [OF False less.prems(5) [OF False], folded part_def left_def]
    have "src_at 0 c \<noteq> 0"
      using False less.prems(1) holds_nonzero [OF less.prems(1)] src_at_Cons(1) by (cases rest) auto
    then have loop: "clean_loop a c = clean_loop a (skip_separators (clean_part a c))" by (subst clean_loop.simps) simp
    have comps: "components rest = part # components (tl left)"
      using components_part [OF pl(2,4,3)] pl(1) by simp
    note steps = clean_part_holds [OF less.prems(1) [unfolded pl(1)] pl(2,4,3), of a]
    define rest' where "rest' = dropWhile (\<lambda>b. b = SEP) (tl left)"
    have rest': "length rest' < length rest" "rest' \<noteq> [] \<Longrightarrow> hd rest' \<noteq> SEP" "components rest' = components (tl left)"
    proof -
      have "length rest' \<le> length (tl left)" unfolding rest'_def by (rule length_dropWhile_le)
      also have "length (tl left) < length rest" using pl(2) unfolding pl(1) by (cases part) auto
      finally show "length rest' < length rest" .
      show "hd rest' \<noteq> SEP" if "rest' \<noteq> []" using that hd_dropWhile [of "\<lambda>b. b = SEP" "tl left"] by (simp add: rest'_def)
      show "components rest' = components (tl left)" by (simp add: rest'_def components_skip)
    qed
    let ?out = "base a @ body (ups @ cs)" and ?lim = "length (base a @ body ups)"
    let ?next = "skip_separators (clean_part a c)"
    have next_holds: "holds o' l' rest' ?next" if "holds o' l' (tl left) (clean_part a c)" for o' l'
      using skip_separators_holds [OF that] by (simp add: rest'_def)
    note IH = less.hyps [OF rest'(1) _ _ _ _ rest'(2), of ups' cs' ?next n' for ups' cs' n']
    have plain_part: "plain part" if "part \<noteq> [DOT]" "part \<noteq> [DOT, DOT]"
      using that pl(2,4) by (simp add: plain_def proper_def)
    text \<open>A part that is written: the name ends, or the next part follows its separator.\<close>
    have writes: "\<exists>out lim. holds out lim [] (clean_loop a ?next) \<and> written a (resolve a (rev (ups' @ cs')) (components rest')) out"
      if h: "holds (?out @ part @ sep_after left) l' (tl left) (clean_part a c)"
        and out: "base a @ body (ups' @ cs') = ?out @ part @ [SEP]"
        and go: "left \<noteq> [] \<Longrightarrow> l' = length (base a @ body ups')"
        and ups': "ups' = replicate n' [DOT, DOT]" "a \<Longrightarrow> ups' = []" "list_all plain cs'" for l' ups' cs' n'
    proof (cases "left = []")
      case True
      then have "rest' = []" by (simp add: rest'_def)
      moreover from this next_holds [OF h] True have "holds (?out @ part) l' [] ?next" by simp
      moreover from this have "clean_loop a ?next = ?next" using src_at_Cons(2) by (subst clean_loop.simps) auto
      moreover have "ups' @ cs' \<noteq> []" using out pl(2) by (cases "ups' @ cs'") (auto simp: base_def)
      ultimately show ?thesis using out by (auto simp: written_def)
    next
      case more: False
      then have "sep_after left = [SEP]" using pl(3) by (cases left) simp_all
      then have "holds (base a @ body (ups' @ cs')) (length (base a @ body ups')) rest' ?next"
        using next_holds [OF h] go [OF more] out by simp
      from IH [OF this ups'] show ?thesis .
    qed
    consider (dot) "part = [DOT]" | (up) "part = [DOT, DOT]" "cs \<noteq> []" | (root) "part = [DOT, DOT]" "cs = []" "a"
      | (parent) "part = [DOT, DOT]" "cs = []" "\<not> a" | (plain) "part \<noteq> [DOT]" "part \<noteq> [DOT, DOT]" by blast
    then show ?thesis
    proof cases
      case dot
      from IH [OF next_holds [OF steps(1) [OF dot]] less.prems(2,3,4)] show ?thesis
        unfolding loop comps rest'(3) using dot by simp
    next
      case up
      then obtain ds d where cs: "cs = ds @ [d]" by (cases cs rule: rev_cases) auto
      define pre where "pre = base a @ body (ups @ ds)"
      have out: "?out = pre @ d @ [SEP]" by (simp add: pre_def cs)
      have d: "plain d" "list_all plain ds" using less.prems(4) cs by simp_all
      have "length pre = ?lim \<or> pre = [] \<or> last pre = SEP"
        using last_body [of ds] by (cases "ds = []") (auto simp: pre_def last_append)
      moreover have "SEP \<notin> set d" using d(1) by (simp add: plain_def proper_def)
      moreover have "?lim \<le> length pre" by (simp add: pre_def)
      ultimately have "backtrack (pre @ d @ [SEP]) ?lim (length pre + length d) = length pre"
        by (intro backtrack_part) simp_all
      then have went_back: "take (backtrack ?out ?lim (length ?out - 1)) ?out = pre" unfolding out by simp
      have "length ?out \<noteq> ?lim" by (simp add: cs)
      from next_holds [OF steps(2) [OF up(1) this]] have "holds pre ?lim rest' ?next" unfolding went_back .
      from IH [OF this [unfolded pre_def] less.prems(2,3) d(2)] show ?thesis
        unfolding loop comps rest'(3) using up d(1) by (simp add: cs plain_def)
    next
      case root
      then have "length ?out = ?lim" by simp
      from IH [OF next_holds [OF steps(3) [OF root(1) this root(3)]] less.prems(2,3,4)] show ?thesis
        unfolding loop comps rest'(3) using root less.prems(3) by simp
    next
      case parent
      then have "length ?out = ?lim" by simp
      note h = steps(4) [OF parent(1) this parent(3)]
      have "\<exists>out lim. holds out lim [] (clean_loop a ?next) \<and>
          written a (resolve a (rev ((ups @ [[DOT, DOT]]) @ [])) (components rest')) out"
      proof (rule writes [OF h])
        show "base a @ body ((ups @ [[DOT, DOT]]) @ []) = ?out @ part @ [SEP]" using parent by simp
        show "length (?out @ part @ sep_after left) = length (base a @ body (ups @ [[DOT, DOT]]))" if "left \<noteq> []"
          using that parent pl(3) by (cases left) simp_all
        show "ups @ [[DOT, DOT]] = replicate (Suc n) [DOT, DOT]" using less.prems(2) by (simp add: replicate_append_same)
        show "ups @ [[DOT, DOT]] = []" if a using that parent by simp
      qed simp
      moreover have "\<not> (rev ups \<noteq> [] \<and> hd (rev ups) \<noteq> [DOT, DOT])"
        unfolding less.prems(2) rev_replicate by (cases n) simp_all
      then have "resolve a (rev (ups @ cs)) (part # components rest') =
          resolve a (rev ((ups @ [[DOT, DOT]]) @ [])) (components rest')"
        using parent by (simp only: resolve.simps rev_append append_Nil2 rev.simps append_Nil append_Cons) simp
      ultimately show ?thesis unfolding loop comps rest'(3) [symmetric] by simp
    next
      case plain
      have "base a @ body (ups @ cs @ [part]) = ?out @ part @ [SEP]" by simp
      from writes [OF steps(5) [OF plain] this refl less.prems(2,3)] plain_part [OF plain] less.prems(4) show ?thesis
        unfolding loop comps rest'(3) using plain by simp
    qed
  qed
qed


section \<open>The result\<close>

lemma body_join: "cs \<noteq> [] \<Longrightarrow> body cs = join_parts cs @ [SEP]"
  by (induction cs rule: join_parts.induct) simp_all

lemma components_proper: "list_all proper (components s)"
proof (induction s rule: components.induct)
  case (1 s)
  show ?case
  proof (cases "dropWhile (\<lambda>b. b = SEP) s")
    case Nil
    then show ?thesis unfolding components.simps [of s] Nil by simp
  next
    case (Cons b r)
    then have "b \<noteq> SEP" using hd_dropWhile [of "\<lambda>b. b = SEP" s] by simp
    then have "proper (takeWhile (\<lambda>b. b \<noteq> SEP) (b # r))" by (auto simp: proper_def dest: set_takeWhileD)
    with 1 [OF Cons] Cons show ?thesis by (subst components.simps) simp
  qed
qed

lemma list_all_tl: "list_all P st \<Longrightarrow> list_all P (tl st)"
  by (cases st) simp_all

lemma resolve_proper: "list_all proper cs \<Longrightarrow> list_all proper st \<Longrightarrow> list_all proper (resolve a st cs)"
  by (induction a st cs rule: resolve.induct) (auto simp: list_all_tl split: if_splits)

lemma join_proper: "list_all proper cs \<Longrightarrow> cs \<noteq> [] \<Longrightarrow> join_parts cs \<noteq> [] \<and> last (join_parts cs) \<noteq> SEP"
proof (induction cs rule: join_parts.induct)
  case (2 c)
  then show ?case by (auto simp: proper_def dest: last_in_set)
next
  case (3 c d ds)
  then show ?case by (simp add: proper_def)
qed simp

lemma CleanPath_eq: "CleanPath p = clean_name (takeWhile (\<lambda>b. b \<noteq> 0) p)"
proof -
  define s where "s = takeWhile (\<lambda>b. b \<noteq> 0) p"
  define a where "a = IsAbsolutePath s"
  define c0 where "c0 = \<lparr>cl_path = p, cl_src = 0, cl_dst = 0, cl_limit = 0\<rparr>"
  have h0: "holds [] 0 s c0" by (simp add: holds_def c0_def s_def)
  have at: "src_at 0 c0 = SEP \<longleftrightarrow> a"
    using src_at_Cons(1) [of "[]" 0 _ _ c0] src_at_Cons(2) [of "[]" 0 c0] h0
    by (cases s) (auto simp: a_def IsAbsolutePath_def)
  define c1 where "c1 = (if a then skip_separators (copy_byte c0) else c0)"
  define rest where "rest = (if a then dropWhile (\<lambda>b. b = SEP) (tl s) else s)"
  have h1: "holds (base a) 0 rest c1"
  proof (cases a)
    case True
    then obtain r where "s = SEP # r" by (cases s) (auto simp: a_def IsAbsolutePath_def)
    with h0 True skip_separators_holds [OF copy_byte_holds [of "[]" 0 SEP r c0]] show ?thesis
      by (simp add: c1_def rest_def base_def)
  next
    case False
    with h0 show ?thesis by (simp add: c1_def rest_def base_def)
  qed
  have rest: "rest \<noteq> [] \<Longrightarrow> hd rest \<noteq> SEP" "components rest = components s"
  proof -
    show "hd rest \<noteq> SEP" if "rest \<noteq> []"
      using that hd_dropWhile [of "\<lambda>b. b = SEP" "tl s"] by (cases s) (auto simp: rest_def a_def IsAbsolutePath_def split: if_splits)
    show "components rest = components s"
      by (cases s) (auto simp: rest_def a_def IsAbsolutePath_def components_skip)
  qed
  define fin where "fin = resolve a [] (components s)"
  have "holds (base a @ body ([] @ [])) (length (base a @ body [])) rest (c1\<lparr>cl_limit := cl_dst c1\<rparr>)"
    using set_limit_holds [OF h1] by simp
  from clean_loop_ok [OF this, of 0] rest obtain out lim where
    out: "holds out lim [] (clean_loop a (c1\<lparr>cl_limit := cl_dst c1\<rparr>))" "written a fin out"
    by (auto simp: fin_def)
  define c2 where "c2 = clean_loop a (c1\<lparr>cl_limit := cl_dst c1\<rparr>)"
  have dst: "cl_dst c2 = length out" "take (length out) (cl_path c2) = out" using out(1) by (simp_all add: holds_def c2_def)
  have nth: "cl_path c2 ! k = out ! k" if "k < length out" for k using dst(2) that by (metis nth_take)
  have take_less: "take k (cl_path c2) = take k out" if "k \<le> length out" for k using dst(2) that by (metis min.absorb1 take_take)
  have clean: "CleanPath p =
      (if out = [] then [DOT] else if 1 < length out \<and> last out = SEP then butlast out else out)"
    using dst(1) nth take_less
    by (cases "out = []") (auto simp: CleanPath_def c0_def [symmetric] at Let_def c1_def [symmetric] c2_def [symmetric]
      last_conv_nth butlast_conv_take)
  have proper: "fin \<noteq> [] \<Longrightarrow> join_parts fin \<noteq> [] \<and> last (join_parts fin) \<noteq> SEP"
    using join_proper resolve_proper components_proper unfolding fin_def by fastforce
  have "CleanPath p = (if a then SEP # join_parts fin else if fin = [] then [DOT] else join_parts fin)"
  proof (cases "fin = []")
    case True
    then have "out = base a" using out(2) by (simp add: written_def)
    with True show ?thesis unfolding clean by (simp add: base_def)
  next
    case False
    have "out = base a @ join_parts fin @ [SEP] \<or> out = base a @ join_parts fin"
      using out(2) False body_join [OF False] by (auto simp: written_def)
    with proper [OF False] False show ?thesis
      unfolding clean by (auto simp: base_def butlast_append)
  qed
  then show ?thesis by (simp add: clean_name_def fin_def a_def s_def Let_def)
qed

section \<open>Joining and splitting\<close>

lemma rfind_SEP:
  assumes "SEP \<notin> set b" "length (d @ SEP # b) < npos"
  shows "rfind_char (d @ SEP # b) SEP npos = length d"
proof -
  have "rfind_loop (d @ SEP # b) SEP (length d + 1 + k) = length d" if "k \<le> length b" for k
    using that
  proof (induction k)
    case (Suc k)
    then have "b ! k \<noteq> SEP" using assms(1) by (metis Suc_le_eq nth_mem)
    with Suc show ?case by (simp add: nth_append)
  qed (simp add: nth_append)
  from this [of "length b"] assms(2) show ?thesis by (simp add: rfind_char_def min_def)
qed

text \<open>The directory and the name of a path that was joined from them.\<close>

lemma split_joined:
  assumes "d \<noteq> []" "last d \<noteq> SEP" "b \<noteq> []" "SEP \<notin> set b" "length d + length b + 1 < npos"
  shows "Dirname (JoinPathImpl [d, b]) = d" "Basename (JoinPathImpl [d, b]) = b"
proof -
  have "b ! 0 \<noteq> SEP" using assms(3,4) by (metis length_greater_0_conv nth_mem)
  then have join: "JoinPathImpl [d, b] = d @ SEP # b"
    using assms(1-3) by (simp add: JoinPathImpl_def join_one_def IsAbsolutePath_def last_conv_nth)
  have "rfind_char (d @ SEP # b) SEP npos = length d" by (rule rfind_SEP) (use assms in simp_all)
  then have "SplitPath (d @ SEP # b) = (d, b)" using assms(1,5) by (simp add: SplitPath_def Let_def)
  then show "Dirname (JoinPathImpl [d, b]) = d" "Basename (JoinPathImpl [d, b]) = b"
    by (simp_all add: join Dirname_def Basename_def)
qed

section \<open>Clean names stay as they are\<close>

lemma components_join: "list_all proper cs \<Longrightarrow> components (join_parts cs) = cs"
proof (induction cs rule: join_parts.induct)
  case (2 c)
  then show ?case using components_part [of c "[]"] by (simp add: proper_def)
next
  case (3 c d ds)
  then show ?case using components_part [of c "SEP # join_parts (d # ds)"] by (simp add: proper_def)
qed simp

definition normal :: "bool \<Rightarrow> byte list list \<Rightarrow> bool" where
  "normal a cs \<longleftrightarrow> (\<exists>n ds. cs = replicate n [DOT, DOT] @ ds \<and> (n = 0 \<or> \<not> a) \<and> list_all plain ds)"

lemma normal_Nil [simp]: "normal a []"
  by (simp add: normal_def)

lemma normal_snoc: "plain c \<Longrightarrow> normal a cs \<Longrightarrow> normal a (cs @ [c])"
  unfolding normal_def by (elim exE conjE) (rule_tac x = n in exI, rule_tac x = "ds @ [c]" in exI, simp)

lemma normal_dots:
  assumes "normal a cs" "\<not> a" "cs = [] \<or> last cs = [DOT, DOT]"
  shows "normal a (cs @ [[DOT, DOT]])"
proof -
  obtain n ds where cs: "cs = replicate n [DOT, DOT] @ ds" "list_all plain ds" using assms(1) by (auto simp: normal_def)
  then have "ds = []" using assms(3) by (cases ds rule: rev_cases) (auto simp: plain_def)
  with cs assms(2) show ?thesis
    unfolding normal_def by (intro exI [of _ "Suc n"] exI [of _ "[]"]) (simp add: replicate_append_same)
qed

lemma normal_butlast:
  assumes "normal a cs" "cs \<noteq> []" "last cs \<noteq> [DOT, DOT]"
  shows "normal a (butlast cs)"
proof -
  obtain n ds where cs: "cs = replicate n [DOT, DOT] @ ds" "n = 0 \<or> \<not> a" "list_all plain ds"
    using assms(1) by (auto simp: normal_def)
  then have "ds \<noteq> []" using assms(2,3) by (cases n) (auto simp del: replicate_Suc simp: replicate_Suc [symmetric] last_replicate)
  with cs show ?thesis
    unfolding normal_def by (intro exI [of _ n] exI [of _ "butlast ds"]) (auto simp: butlast_append list_all_iff dest: in_set_butlastD)
qed

lemma resolve_normal: "list_all proper cs \<Longrightarrow> normal a (rev st) \<Longrightarrow> normal a (resolve a st cs)"
proof (induction a st cs rule: resolve.induct)
  case (2 a st c cs)
  have ends: "st \<noteq> [] \<Longrightarrow> last (rev st) = hd st" by (cases st) simp_all
  have tl: "rev (tl st) = butlast (rev st)" by (cases st) simp_all
  consider (dot) "c = [DOT]" | (pop) "c = [DOT, DOT]" "st \<noteq> []" "hd st \<noteq> [DOT, DOT]"
    | (stay) "c = [DOT, DOT]" "st = [] \<or> hd st = [DOT, DOT]" "a" | (push) "c = [DOT, DOT]" "st = [] \<or> hd st = [DOT, DOT]" "\<not> a"
    | (part) "c \<noteq> [DOT]" "c \<noteq> [DOT, DOT]" by blast
  then show ?case
  proof cases
    case dot
    with 2(1,6,7) show ?thesis by simp
  next
    case pop
    have "normal a (rev (tl st))" unfolding tl by (rule normal_butlast) (use 2(7) pop ends in simp_all)
    with 2(2,6) pop show ?thesis by simp
  next
    case stay
    with 2(3,6,7) show ?thesis by auto
  next
    case push
    have "normal a (rev ([DOT, DOT] # st))" unfolding rev.simps by (rule normal_dots) (use 2(7) push ends in \<open>cases st; simp\<close>)+
    with 2(4,6) push show ?thesis by auto
  next
    case part
    have "normal a (rev (c # st))" unfolding rev.simps by (rule normal_snoc) (use 2(6,7) part in \<open>simp_all add: plain_def\<close>)
    with 2(5,6) part show ?thesis by simp
  qed
qed simp

lemma resolve_normal_id: "normal a (cs @ ds) \<Longrightarrow> resolve a (rev cs) ds = cs @ ds"
proof (induction ds arbitrary: cs)
  case (Cons d ds)
  have step: "resolve a (d # rev cs) ds = cs @ d # ds" using Cons.IH [of "cs @ [d]"] Cons.prems by simp
  obtain n es where eq: "cs @ d # ds = replicate n [DOT, DOT] @ es" "n = 0 \<or> \<not> a" "list_all plain es"
    using Cons.prems by (auto simp: normal_def)
  show ?case
  proof (cases "length cs < n")
    case True
    then have "cs = take (length cs) (replicate n [DOT, DOT] @ es)" "d = (replicate n [DOT, DOT] @ es) ! length cs"
      unfolding eq(1) [symmetric] by simp_all
    then have "cs = replicate (length cs) [DOT, DOT]" "d = [DOT, DOT]" using True by (simp_all add: nth_append min_def)
    moreover from this(1) have "cs = [] \<or> hd (rev cs) = [DOT, DOT]" by (metis hd_replicate length_0_conv rev_replicate)
    ultimately show ?thesis using step True eq(2) by auto
  next
    case False
    have "d = (cs @ d # ds) ! length cs" by simp
    also have "\<dots> = es ! (length cs - n)" unfolding eq(1) using False by (simp add: nth_append)
    finally have "d = es ! (length cs - n)" .
    moreover have "length cs - n < length es" using arg_cong [OF eq(1), of length] False by simp
    ultimately have "d \<in> set es" by simp
    then have "plain d" using eq(3) by (simp add: list_all_iff)
    then show ?thesis using step by (simp add: plain_def)
  qed
qed simp

lemma clean_name_clean: "clean_name (clean_name s) = clean_name s"
proof -
  define a where "a = IsAbsolutePath s"
  define cs where "cs = resolve a [] (components s)"
  have proper: "list_all proper cs" unfolding cs_def by (rule resolve_proper [OF components_proper]) simp
  have again: "resolve a [] cs = cs"
    using resolve_normal_id [of a "[]" cs] resolve_normal [OF components_proper, of a "[]" s] by (simp add: cs_def)
  have name: "clean_name s = (if a then SEP # join_parts cs else if cs = [] then [DOT] else join_parts cs)"
    by (simp add: clean_name_def a_def cs_def Let_def)
  show ?thesis
  proof (cases "\<not> a \<and> cs = []")
    case True
    have "components [DOT] = [[DOT]]" using components_part [of "[DOT]" "[]"] by simp
    with True name show ?thesis by (simp add: clean_name_def [of "[DOT]"] IsAbsolutePath_def)
  next
    case False
    have "components (clean_name s) = cs" using False components_join [OF proper] by (auto simp: name)
    moreover have "\<not> IsAbsolutePath (join_parts cs)" if nonempty: "cs \<noteq> []"
    proof -
      obtain c ds where cs: "cs = c # ds" using nonempty by (cases cs) simp_all
      then have "c ! 0 \<noteq> SEP" "c \<noteq> []" using proper by (auto simp: proper_def) (metis length_greater_0_conv nth_mem)
      then show ?thesis unfolding cs by (cases ds) (simp_all add: IsAbsolutePath_def nth_append)
    qed
    then have "IsAbsolutePath (clean_name s) = a" using False by (auto simp: name IsAbsolutePath_def)
    ultimately have "clean_name (clean_name s) = (if a then SEP # join_parts cs else if cs = [] then [DOT] else join_parts cs)"
      using again by (simp only: clean_name_def [of "clean_name s"] Let_def)
    then show ?thesis by (simp only: name)
  qed
qed

lemma components_bytes: "c \<in> set (components s) \<Longrightarrow> set c \<subseteq> set s"
proof (induction s arbitrary: c rule: components.induct)
  case (1 s)
  show ?case
  proof (cases "dropWhile (\<lambda>b. b = SEP) s")
    case Nil
    then show ?thesis using 1(2) unfolding components.simps [of s] Nil by simp
  next
    case (Cons b r)
    let ?d = "dropWhile (\<lambda>b. b \<noteq> SEP) (b # r)"
    have sub: "set (b # r) \<subseteq> set s" unfolding Cons [symmetric] by (auto dest: set_dropWhileD)
    have "components s = takeWhile (\<lambda>b. b \<noteq> SEP) (b # r) # components ?d" unfolding components.simps [of s] Cons by simp
    then consider "c = takeWhile (\<lambda>b. b \<noteq> SEP) (b # r)" | "c \<in> set (components ?d)" using 1(2) by auto
    then show ?thesis
    proof cases
      case 1
      then have "set c \<subseteq> set (b # r)" by (simp only:) (blast dest: set_takeWhileD)
      with sub show ?thesis by blast
    next
      case 2
      from "1.IH" [OF Cons 2] have "set c \<subseteq> set ?d" .
      moreover have "set ?d \<subseteq> set (b # r)" by (blast dest: set_dropWhileD)
      ultimately show ?thesis using sub by blast
    qed
  qed
qed

lemma resolve_bytes: "c \<in> set (resolve a st cs) \<Longrightarrow> c \<in> set cs \<or> c \<in> set st \<or> c = [DOT, DOT]"
  by (induction a st cs rule: resolve.induct) (auto split: if_splits dest: list.set_sel(2))

lemma join_bytes: "b \<in> set (join_parts cs) \<Longrightarrow> b = SEP \<or> (\<exists>c \<in> set cs. b \<in> set c)"
  by (induction cs rule: join_parts.induct) auto

lemma clean_name_bytes: "b \<in> set (clean_name s) \<Longrightarrow> b \<in> set s \<or> b = SEP \<or> b = DOT"
  by (fastforce simp: clean_name_def Let_def split: if_splits dest!: join_bytes resolve_bytes dest: components_bytes)

lemma CleanPath_clean: "CleanPath (CleanPath p) = CleanPath p"
proof -
  have "takeWhile (\<lambda>b. b \<noteq> 0) (CleanPath p) = CleanPath p"
    unfolding takeWhile_eq_all_conv by (auto simp: CleanPath_eq dest: clean_name_bytes set_takeWhileD)
  then show ?thesis unfolding CleanPath_eq [of "CleanPath p"] by (simp only: CleanPath_eq clean_name_clean)
qed

end
