(* ===== verification/Base64.thy ===== *)
theory Base64
  imports Coding
begin

text \<open>
  \<open>src/base/strings/base64.cc\<close>. The arrays \<open>char_array_3\<close> and \<open>char_array_4\<close> are the bytes that
  are in them, so that \<open>i\<close> is their number. The sizes are an \<open>unsigned int\<close> and an \<open>int\<close> in the
  code: the model is for strings of less than 2 GB.
\<close>

section \<open>The code\<close>

definition base64_chars :: "byte list" where
  "base64_chars = map of_char (''ABCDEFGHIJKLMNOPQRSTUVWXYZ'' @ ''abcdefghijklmnopqrstuvwxyz'' @ ''0123456789+/'')"

definition ascii_isalnum :: "byte \<Rightarrow> bool" where
  "ascii_isalnum c \<longleftrightarrow> (97 \<le> c \<and> c \<le> 122) \<or> (65 \<le> c \<and> c \<le> 90) \<or> (48 \<le> c \<and> c \<le> 57)"

definition is_base64 :: "byte \<Rightarrow> bool" where
  "is_base64 c \<longleftrightarrow> ascii_isalnum c \<or> c = 43 \<or> c = 47"

abbreviation PAD :: byte where
  "PAD \<equiv> 61"

text \<open>The four numbers of three bytes.\<close>

fun four_of :: "byte list \<Rightarrow> byte list" where
  "four_of [c0, c1, c2] =
     [drop_bit 2 (c0 AND 0xfc),
      push_bit 4 (c0 AND 0x03) + drop_bit 4 (c1 AND 0xf0),
      push_bit 2 (c1 AND 0x0f) + drop_bit 6 (c2 AND 0xc0),
      c2 AND 0x3f]"
| "four_of _ = []"

text \<open>The three bytes of four numbers, in 8 bits, as they are stored.\<close>

fun three_of :: "byte list \<Rightarrow> byte list" where
  "three_of [c0, c1, c2, c3] =
     [push_bit 2 c0 + drop_bit 4 (c1 AND 0x30),
      push_bit 4 (c1 AND 0xf) + drop_bit 2 (c2 AND 0x3c),
      push_bit 6 (c2 AND 0x3) + c3]"
| "three_of _ = []"

definition base64_char :: "byte \<Rightarrow> byte" where
  "base64_char v = base64_chars ! unat v"

text \<open>\<open>base64_chars.find\<close>, stored in an \<open>unsigned char\<close>: \<open>npos\<close> becomes 255.\<close>

definition base64_find :: "byte \<Rightarrow> byte" where
  "base64_find c =
     (let i = length (takeWhile (\<lambda>d. d \<noteq> c) base64_chars) in if i < length base64_chars then of_nat i else 255)"

fun encode_loop :: "byte list \<Rightarrow> byte list \<Rightarrow> byte list \<Rightarrow> byte list \<times> byte list" where
  "encode_loop ret char_array_3 [] = (ret, char_array_3)"
| "encode_loop ret char_array_3 (b # bytes_to_encode) =
     (let char_array_3 = char_array_3 @ [b] in
      if length char_array_3 = 3 then
        encode_loop (ret @ map base64_char (four_of char_array_3)) [] bytes_to_encode
      else encode_loop ret char_array_3 bytes_to_encode)"

definition base64_encode :: "byte list \<Rightarrow> byte list" where
  "base64_encode bytes_to_encode =
     (let (ret, char_array_3) = encode_loop [] [] bytes_to_encode; i = length char_array_3 in
      if i \<noteq> 0 then
        ret @ map base64_char (take (i + 1) (four_of (char_array_3 @ replicate (3 - i) 0))) @ replicate (3 - i) PAD
      else ret)"

fun decode_loop :: "byte list \<Rightarrow> byte list \<Rightarrow> byte list \<Rightarrow> byte list \<times> byte list" where
  "decode_loop ret char_array_4 [] = (ret, char_array_4)"
| "decode_loop ret char_array_4 (c # encoded_string) =
     (if c \<noteq> PAD \<and> is_base64 c then
        let char_array_4 = char_array_4 @ [c] in
        if length char_array_4 = 4 then
          decode_loop (ret @ three_of (map base64_find char_array_4)) [] encoded_string
        else decode_loop ret char_array_4 encoded_string
      else (ret, char_array_4))"

definition base64_decode :: "byte list \<Rightarrow> byte list" where
  "base64_decode encoded_string =
     (let (ret, char_array_4) = decode_loop [] [] encoded_string; i = length char_array_4 in
      if i \<noteq> 0 then ret @ take (i - 1) (three_of (map base64_find (char_array_4 @ replicate (4 - i) 0)))
      else ret)"

definition Base64Encode :: "byte list \<Rightarrow> byte list" where
  "Base64Encode src = base64_encode src"

definition Base64Decode :: "byte list \<Rightarrow> bool \<times> byte list" where
  "Base64Decode src = (True, base64_decode src)"

section \<open>The numbers of six bits\<close>

lemma low_bits_mod: "unat (c AND mask n) = unat (c :: byte) mod 2 ^ n"
  by (simp add: take_bit_eq_mask [symmetric] unsigned_take_bit_eq) (simp add: take_bit_eq_mod)

lemma shifted_bits: "unat (push_bit n c) = unat (c :: byte) * 2 ^ n mod 256"
  by (simp add: unsigned_push_bit_eq) (simp add: take_bit_eq_mod push_bit_eq_mult)

lemma high_bits: "unat (drop_bit n c) = unat (c :: byte) div 2 ^ n"
  by (simp add: unat_drop_bit_eq) (simp add: drop_bit_eq_div)

lemma base64_masks: "(0x03 :: byte) = mask 2" "(0x0f :: byte) = mask 4" "(0x3f :: byte) = mask 6"
  "drop_bit 2 (0xfc :: byte) = mask 6" "drop_bit 4 (0xf0 :: byte) = mask 4" "drop_bit 6 (0xc0 :: byte) = mask 2"
  "drop_bit 4 (0x30 :: byte) = mask 2" "drop_bit 2 (0x3c :: byte) = mask 4"
  by (simp_all add: mask_eq_exp_minus_1)

lemma encode_parts:
  fixes c :: byte
  shows "unat (drop_bit 2 (c AND 0xfc)) = unat c div 4"
    "unat (push_bit 4 (c AND 0x03)) = unat c mod 4 * 16"
    "unat (drop_bit 4 (c AND 0xf0)) = unat c div 16"
    "unat (push_bit 2 (c AND 0x0f)) = unat c mod 16 * 4"
    "unat (drop_bit 6 (c AND 0xc0)) = unat c div 64"
    "unat (c AND 0x3f) = unat c mod 64"
proof -
  have less: "unat c < 256" using unsigned_less [where 'a = nat, of c] by simp
  then show "unat (drop_bit 2 (c AND 0xfc)) = unat c div 4" "unat (drop_bit 4 (c AND 0xf0)) = unat c div 16"
    "unat (drop_bit 6 (c AND 0xc0)) = unat c div 64"
    unfolding drop_bit_and base64_masks low_bits_mod high_bits by simp_all
  show "unat (push_bit 4 (c AND 0x03)) = unat c mod 4 * 16" "unat (push_bit 2 (c AND 0x0f)) = unat c mod 16 * 4"
    "unat (c AND 0x3f) = unat c mod 64"
    unfolding base64_masks shifted_bits low_bits_mod
    using mod_less_divisor [of 4 "unat c"] mod_less_divisor [of 16 "unat c"] by simp_all
qed


lemma decode_parts:
  fixes c :: byte
  shows "unat (push_bit 2 c) = unat c * 4 mod 256"
    "unat (drop_bit 4 (c AND 0x30)) = unat c mod 64 div 16"
    "unat (push_bit 4 (c AND 0xf)) = unat c mod 16 * 16"
    "unat (drop_bit 2 (c AND 0x3c)) = unat c mod 64 div 4"
    "unat (push_bit 6 (c AND 0x3)) = unat c mod 4 * 64"
proof -
  have less: "unat c < 256" using unsigned_less [where 'a = nat, of c] by simp
  have mid: "m div k mod n = m mod (k * n) div k" for m k n :: nat
    by (cases "k = 0") (simp_all add: mod_mult2_eq)
  show "unat (drop_bit 4 (c AND 0x30)) = unat c mod 64 div 16" "unat (drop_bit 2 (c AND 0x3c)) = unat c mod 64 div 4"
    unfolding drop_bit_and base64_masks low_bits_mod high_bits by (simp_all add: mid)
  show "unat (push_bit 2 c) = unat c * 4 mod 256" "unat (push_bit 4 (c AND 0xf)) = unat c mod 16 * 16"
    "unat (push_bit 6 (c AND 0x3)) = unat c mod 4 * 64"
    unfolding base64_masks shifted_bits low_bits_mod
    using mod_less_divisor [of 4 "unat c"] mod_less_divisor [of 16 "unat c"] by simp_all
qed

lemma unat_sum: "unat (x + y) = (unat x + unat y) mod 256" for x y :: byte
  by (simp add: unat_word_ariths)

lemma byte_less: "unat (c :: byte) < 256"
  using unsigned_less [where 'a = nat, of c] by simp

lemma four_numbers:
  "map unat (four_of [a, b, c]) =
    [unat a div 4, unat a mod 4 * 16 + unat b div 16, unat b mod 16 * 4 + unat c div 64, unat c mod 64]"
proof -
  have "unat a mod 4 * 16 + unat b div 16 < 256" "unat b mod 16 * 4 + unat c div 64 < 256"
    using byte_less [of a] byte_less [of b] byte_less [of c] by linarith+
  then show ?thesis by (simp only: four_of.simps list.map unat_sum encode_parts mod_less)
qed

lemma bytes_back:
  assumes "four_of [a, b, c] = [s0, s1, s2, s3]"
  shows "push_bit 2 s0 + drop_bit 4 (s1 AND 0x30) = a"
    "push_bit 4 (s1 AND 0xf) + drop_bit 2 (s2 AND 0x3c) = b"
    "push_bit 6 (s2 AND 0x3) + s3 = c"
proof -
  have n: "unat s0 = unat a div 4" "unat s1 = unat a mod 4 * 16 + unat b div 16"
    "unat s2 = unat b mod 16 * 4 + unat c div 64" "unat s3 = unat c mod 64"
    using four_numbers [of a b c] unfolding assms by simp_all
  note less = byte_less [of a] byte_less [of b] byte_less [of c]
  define a1 a0 where "a1 = unat a div 4" and "a0 = unat a mod 4"
  define b1 b0 where "b1 = unat b div 16" and "b0 = unat b mod 16"
  define c1 c0 where "c1 = unat c div 64" and "c0 = unat c mod 64"
  have digits: "unat a = 4 * a1 + a0" "unat b = 16 * b1 + b0" "unat c = 64 * c1 + c0"
    by (simp_all add: a1_def a0_def b1_def b0_def c1_def c0_def)
  have small: "a1 < 64" "a0 < 4" "b1 < 16" "b0 < 16" "c1 < 4" "c0 < 64"
    using less by (simp_all add: a1_def a0_def b1_def b0_def c1_def c0_def)
  have s: "unat s0 = a1" "unat s1 = a0 * 16 + b1" "unat s2 = b0 * 4 + c1" "unat s3 = c0"
    unfolding n by (simp_all add: a1_def a0_def b1_def b0_def c1_def c0_def)
  have divs: "(a0 * 16 + b1) mod 64 div 16 = a0" "(a0 * 16 + b1) mod 16 = b1" "(b0 * 4 + c1) mod 64 div 4 = b0"
    "(b0 * 4 + c1) mod 4 = c1"
    using small by simp_all
  show "push_bit 2 s0 + drop_bit 4 (s1 AND 0x30) = a" "push_bit 4 (s1 AND 0xf) + drop_bit 2 (s2 AND 0x3c) = b"
    "push_bit 6 (s2 AND 0x3) + s3 = c"
    unfolding word_unat_eq_iff unat_sum decode_parts s divs digits using small by simp_all
qed

section \<open>The letters\<close>

lemma base64_chars_eq: "base64_chars = map of_nat ([65..<91] @ [97..<123] @ [48..<58] @ [43, 47])"
proof -
  have "map of_char (''ABCDEFGHIJKLMNOPQRSTUVWXYZ'' @ ''abcdefghijklmnopqrstuvwxyz'' @ ''0123456789+/'') =
      [65..<91] @ [97..<123] @ [48..<58] @ [43, 47 :: nat]"
    by code_simp
  then have "map of_nat (map of_char (''ABCDEFGHIJKLMNOPQRSTUVWXYZ'' @ ''abcdefghijklmnopqrstuvwxyz'' @ ''0123456789+/'')) =
      map (of_nat :: nat \<Rightarrow> byte) ([65..<91] @ [97..<123] @ [48..<58] @ [43, 47])" by (rule arg_cong)
  then show ?thesis unfolding base64_chars_def map_map by (simp only: comp_def of_nat_of_char)
qed

text \<open>What the codes of the letters satisfy is evaluated on natural numbers.\<close>

definition letter_code :: "nat \<Rightarrow> bool" where
  "letter_code n \<longleftrightarrow> (97 \<le> n \<and> n \<le> 122 \<or> 65 \<le> n \<and> n \<le> 90 \<or> 48 \<le> n \<and> n \<le> 57 \<or> n = 43 \<or> n = 47) \<and> n \<noteq> 61"

lemma letter_codes: "list_all letter_code ([65..<91] @ [97..<123] @ [48..<58] @ [43, 47])"
  "distinct ([65..<91] @ [97..<123] @ [48..<58] @ [43, 47 :: nat])"
  by code_simp+

lemma letter_code_less: "n \<in> set ([65..<91] @ [97..<123] @ [48..<58] @ [43, 47]) \<Longrightarrow> letter_code n \<and> n < 256"
proof -
  assume "n \<in> set ([65..<91] @ [97..<123] @ [48..<58] @ [43, 47])"
  with letter_codes(1) have "letter_code n" unfolding list_all_iff by (rule bspec)
  then show ?thesis by (auto simp: letter_code_def)
qed

lemma distinct_chars: "distinct base64_chars"
proof -
  have "inj_on (of_nat :: nat \<Rightarrow> byte) {0..<256}" by (rule inj_onI) (simp add: word_of_nat_eq_iff take_bit_nat_eq_self)
  then have "inj_on (of_nat :: nat \<Rightarrow> byte) (set ([65..<91] @ [97..<123] @ [48..<58] @ [43, 47]))"
    by (rule inj_on_subset) (rule subsetI, drule letter_code_less, simp)
  with letter_codes(2) show ?thesis unfolding base64_chars_eq distinct_map by (rule conjI)
qed

lemma length_chars: "length base64_chars = 64"
  by (simp only: base64_chars_eq length_map length_append length_upt) simp

lemma all_letters: "d \<in> set base64_chars \<Longrightarrow> is_base64 d \<and> d \<noteq> PAD"
proof -
  assume "d \<in> set base64_chars"
  then obtain n where n: "d = of_nat n" "n \<in> set ([65..<91] @ [97..<123] @ [48..<58] @ [43, 47])"
    unfolding base64_chars_eq set_map by blast
  then have "unat d = n" "letter_code n"
    using letter_code_less [of n] by (simp_all only: unsigned_of_nat, simp add: take_bit_nat_eq_self)
  then show ?thesis
    unfolding is_base64_def ascii_isalnum_def word_le_nat_alt word_unat_eq_iff letter_code_def by auto
qed

lemma before_first: "distinct xs \<Longrightarrow> k < length xs \<Longrightarrow> length (takeWhile (\<lambda>d. d \<noteq> xs ! k) xs) = k"
proof (induction xs arbitrary: k)
  case (Cons x xs)
  then show ?case by (cases k) auto
qed simp

lemma letter:
  assumes "unat v < 64"
  shows "base64_find (base64_char v) = v" "is_base64 (base64_char v)" "base64_char v \<noteq> PAD"
proof -
  have v: "unat v < length base64_chars" using assms by (simp add: length_chars)
  show "base64_find (base64_char v) = v"
    using before_first [OF distinct_chars v] v by (simp add: base64_find_def base64_char_def Let_def)
  show "is_base64 (base64_char v)" "base64_char v \<noteq> PAD"
    using all_letters nth_mem [OF v] by (simp_all add: base64_char_def)
qed

section \<open>Round trip\<close>

lemma four_small: "v \<in> set (four_of [a, b, c]) \<Longrightarrow> unat v < 64"
proof -
  assume "v \<in> set (four_of [a, b, c])"
  then have "unat v \<in> set (map unat (four_of [a, b, c]))" by (simp only: set_map) (rule imageI)
  moreover have "unat a mod 4 * 16 + unat b div 16 < 64" "unat b mod 16 * 4 + unat c div 64 < 64" "unat a div 4 < 64"
    using byte_less [of a] byte_less [of b] byte_less [of c] by linarith+
  ultimately show ?thesis unfolding four_numbers by auto
qed

text \<open>The text of \<open>base64_encode\<close>, group by group.\<close>

fun base64_text :: "byte list \<Rightarrow> byte list" where
  "base64_text [] = []"
| "base64_text [a] = map base64_char (take 2 (four_of [a, 0, 0])) @ [PAD, PAD]"
| "base64_text [a, b] = map base64_char (take 3 (four_of [a, b, 0])) @ [PAD]"
| "base64_text (a # b # c # s) = map base64_char (four_of [a, b, c]) @ base64_text s"

lemma encode_text:
  "(let (r, rest) = encode_loop ret [] s; i = length rest in
    if i \<noteq> 0 then r @ map base64_char (take (i + 1) (four_of (rest @ replicate (3 - i) 0))) @ replicate (3 - i) PAD
    else r) = ret @ base64_text s"
  by (induction s arbitrary: ret rule: base64_text.induct) (simp_all add: numeral_2_eq_2 numeral_3_eq_3)

lemma base64_encode_text: "base64_encode s = base64_text s"
  using encode_text [of "[]" s] by (simp add: base64_encode_def)

lemma decode_text:
  "(let (r, rest) = decode_loop ret [] (base64_text s); i = length rest in
    if i \<noteq> 0 then r @ take (i - 1) (three_of (map base64_find (rest @ replicate (4 - i) 0))) else r) = ret @ s"
proof (induction s arbitrary: ret rule: base64_text.induct)
  case (2 a)
  obtain s0 s1 s2 s3 where four: "four_of [a, 0, 0] = [s0, s1, s2, s3]" by simp
  then have small: "unat s0 < 64" "unat s1 < 64" using four_small [of _ a 0 0] by simp_all
  note l = letter [OF small(1)] letter [OF small(2)] and bytes = bytes_back [OF four]
  have "base64_text [a] = [base64_char s0, base64_char s1, PAD, PAD]" by (simp only: base64_text.simps four) simp
  then show ?case using l bytes(1) by (simp add: numeral_2_eq_2 numeral_3_eq_3)
next
  case (3 a b)
  obtain s0 s1 s2 s3 where four: "four_of [a, b, 0] = [s0, s1, s2, s3]" by simp
  then have small: "unat s0 < 64" "unat s1 < 64" "unat s2 < 64" using four_small [of _ a b 0] by simp_all
  note l = letter [OF small(1)] letter [OF small(2)] letter [OF small(3)] and bytes = bytes_back [OF four]
  have "base64_text [a, b] = [base64_char s0, base64_char s1, base64_char s2, PAD]"
    by (simp only: base64_text.simps four) (simp add: numeral_3_eq_3)
  then show ?case using l bytes(1,2) by (simp add: numeral_2_eq_2 numeral_3_eq_3)
next
  case (4 a b c s)
  obtain s0 s1 s2 s3 where four: "four_of [a, b, c] = [s0, s1, s2, s3]" by simp
  then have small: "unat s0 < 64" "unat s1 < 64" "unat s2 < 64" "unat s3 < 64" using four_small [of _ a b c] by simp_all
  note l = letter [OF small(1)] letter [OF small(2)] letter [OF small(3)] letter [OF small(4)] and bytes = bytes_back [OF four]
  have "base64_text (a # b # c # s) = base64_char s0 # base64_char s1 # base64_char s2 # base64_char s3 # base64_text s"
    by (simp only: base64_text.simps four) simp
  then have "decode_loop ret [] (base64_text (a # b # c # s)) = decode_loop (ret @ [a, b, c]) [] (base64_text s)"
    using l bytes by (simp add: numeral_2_eq_2 numeral_3_eq_3)
  then show ?case using 4 [of "ret @ [a, b, c]"] by simp
qed simp

lemma base64_decode_encode: "base64_decode (base64_encode s) = s"
  using decode_text [of "[]" s] by (simp add: base64_decode_def base64_encode_text)

lemma length_base64_text: "length (base64_text s) = (length s + 2) div 3 * 4"
proof (induction s rule: base64_text.induct)
  case (4 a b c s)
  have "(length s + 5) div 3 = Suc ((length s + 2) div 3)" by presburger
  with 4 show ?case by (simp add: algebra_simps)
qed simp_all

lemma base64_text_letters: "x \<in> set (base64_text s) \<Longrightarrow> is_base64 x \<or> x = PAD"
proof (induction s rule: base64_text.induct)
  case (2 a)
  then show ?case using letter(2) [OF four_small [of _ a 0 0]] by auto
next
  case (3 a b)
  then show ?case using letter(2) [OF four_small [of _ a b 0]] by auto
next
  case (4 a b c s)
  from 4(2) consider v where "x = base64_char v" "v \<in> set (four_of [a, b, c])" | "x \<in> set (base64_text s)"
    by (auto simp only: base64_text.simps set_append set_map)
  then show ?case using letter(2) [OF four_small [of _ a b c]] 4(1) by cases blast+
qed simp

lemma base64_encode_shape:
  "length (base64_encode s) = (length s + 2) div 3 * 4"
  "filter (\<lambda>c. \<not> is_base64 c \<and> c \<noteq> PAD) (base64_encode s) = []"
  using base64_text_letters [of _ s] by (auto simp: base64_encode_text length_base64_text filter_empty_conv)

end
