(* ===== verification/String_Encode.thy ===== *)
theory String_Encode
  imports Coding Faults
begin

text \<open>
  \<open>src/base/string_encode.cc\<close>: UTF-8 codes and hexadecimal text. A buffer is the list of its
  bytes; a write behind its end is a fault. \<open>DCHECK\<close> is an assertion.
\<close>

definition store :: "nat \<Rightarrow> byte \<Rightarrow> byte list \<Rightarrow> fault + byte list" where
  "store i b buffer = (if i < length buffer then Inr (buffer[i := b]) else Inl Out_of_bounds)"

section \<open>UTF-8\<close>

text \<open>The result is the number of bytes with the buffer, whose length is \<open>buf_len\<close>.\<close>

definition UTF8Encode :: "byte list \<Rightarrow> 64 word \<Rightarrow> nat \<times> byte list" where
  "UTF8Encode buffer v =
     (let buf_len = length buffer in
      if v \<le> 0x7F \<and> 1 \<le> buf_len then (1, buffer[0 := ucast v])
      else if v \<le> 0x7FF \<and> 2 \<le> buf_len then
        (2, buffer[0 := 0xC0 OR ucast (drop_bit 6 v), 1 := 0x80 OR ucast (v AND 0x3F)])
      else if v \<le> 0xFFFF \<and> 3 \<le> buf_len then
        (3, buffer[0 := 0xE0 OR ucast (drop_bit 12 v), 1 := 0x80 OR ucast (drop_bit 6 v AND 0x3F),
           2 := 0x80 OR ucast (v AND 0x3F)])
      else if v \<le> 0x1FFFFF \<and> 4 \<le> buf_len then
        (4, buffer[0 := 0xF0 OR ucast (drop_bit 18 v), 1 := 0x80 OR ucast (drop_bit 12 v AND 0x3F),
           2 := 0x80 OR ucast (drop_bit 6 v AND 0x3F), 3 := 0x80 OR ucast (v AND 0x3F)])
      else (0, buffer))"

text \<open>The result is the number of bytes with \<open>*value\<close>, which is kept where nothing is decoded.\<close>

definition UTF8Decode :: "byte list \<Rightarrow> 64 word \<Rightarrow> fault + nat \<times> 64 word" where
  "UTF8Decode s v =
     (let src_len = length s in
      if src_len = 0 then Inl Out_of_bounds
      else if s ! 0 AND 0x80 = 0 then Inr (1, ucast (s ! 0))
      else if src_len < 2 \<or> s ! 1 AND 0xC0 \<noteq> 0x80 then Inr (0, v)
      else
        let value16 = ucast (s ! 1 AND 0x3F) in
        if s ! 0 AND 0xE0 = 0xC0 then Inr (2, push_bit 6 (ucast (s ! 0 AND 0x1F)) OR value16)
        else if src_len < 3 \<or> s ! 2 AND 0xC0 \<noteq> 0x80 then Inr (0, v)
        else
          let value16 = push_bit 6 value16 OR ucast (s ! 2 AND 0x3F) in
          if s ! 0 AND 0xF0 = 0xE0 then Inr (3, push_bit 12 (ucast (s ! 0 AND 0x0F)) OR value16)
          else if src_len < 4 \<or> s ! 3 AND 0xC0 \<noteq> 0x80 then Inr (0, v)
          else
            let value16 = push_bit 6 value16 OR ucast (s ! 3 AND 0x3F) in
            if s ! 0 AND 0xF8 = 0xF0 then Inr (4, push_bit 18 (ucast (s ! 0 AND 0x07)) OR value16)
            else Inr (0, v))"

section \<open>Hexadecimal text\<close>

definition kHex :: "byte list" where
  "kHex = map of_char ''0123456789ABCDEF''"

definition HexEncode_digit :: "byte \<Rightarrow> fault + byte" where
  "HexEncode_digit v = (if v < 16 then Inr (kHex ! unat v) else Inl Assertion_failed)"

definition HexDecode_digit :: "byte \<Rightarrow> byte option" where
  "HexDecode_digit ch =
     (if 48 \<le> ch \<and> ch \<le> 57 then Some (ch - 48)
      else if 65 \<le> ch \<and> ch \<le> 90 then Some (ch - 65 + 10)
      else if 97 \<le> ch \<and> ch \<le> 122 then Some (ch - 97 + 10)
      else None)"

text \<open>The loop over what is left of the source, from \<open>buf_pos\<close> on.\<close>

fun hex_encode_loop :: "byte \<Rightarrow> byte list \<Rightarrow> nat \<Rightarrow> byte list \<Rightarrow> fault + nat \<times> byte list" where
  "hex_encode_loop delimiter [] buf_pos buf = Inr (buf_pos, buf)"
| "hex_encode_loop delimiter (ch # src) buf_pos buf =
     and_then (HexEncode_digit (drop_bit 4 ch AND 0xF)) (\<lambda>h.
     and_then (store buf_pos h buf) (\<lambda>buf.
     and_then (HexEncode_digit (ch AND 0xF)) (\<lambda>l.
     and_then (store (buf_pos + 1) l buf) (\<lambda>buf.
     let buf_pos = buf_pos + 2 in
     if delimiter \<noteq> 0 \<and> src \<noteq> [] then
       and_then (store buf_pos delimiter buf) (\<lambda>buf. hex_encode_loop delimiter src (buf_pos + 1) buf)
     else hex_encode_loop delimiter src buf_pos buf))))"

definition HexEncodeWithDelimiter_buf :: "byte list \<Rightarrow> byte list \<Rightarrow> byte \<Rightarrow> fault + nat \<times> byte list" where
  "HexEncodeWithDelimiter_buf buf src delimiter =
     (let needed = (if delimiter \<noteq> 0 then length src * 3 else length src * 2 + 1) in
      if length buf = 0 then Inr (0, buf)
      else if length buf < needed then Inr (0, buf)
      else
        and_then (hex_encode_loop delimiter src 0 buf) (\<lambda>(buf_pos, buf).
        and_then (store buf_pos 0 buf) (\<lambda>buf. Inr (buf_pos, buf))))"

text \<open>The buffer on the stack is not initialised: \<open>fill\<close> is what it holds.\<close>

definition HexEncodeWithDelimiter :: "byte \<Rightarrow> byte list \<Rightarrow> byte \<Rightarrow> fault + byte list" where
  "HexEncodeWithDelimiter fill src delimiter =
     and_then (HexEncodeWithDelimiter_buf (replicate (length src * 3) fill) src delimiter) (\<lambda>(n, buf).
     if length src = 0 \<or> 0 < n then Inr (take n buf) else Inl Assertion_failed)"

definition HexEncode :: "byte \<Rightarrow> byte list \<Rightarrow> fault + byte list" where
  "HexEncode fill str = HexEncodeWithDelimiter fill str 0"

text \<open>The loop of the decoder gives \<open>0\<close> where the text is not accepted.\<close>

fun hex_decode_loop :: "byte \<Rightarrow> byte list \<Rightarrow> nat \<Rightarrow> byte list \<Rightarrow> fault + nat \<times> byte list" where
  "hex_decode_loop delimiter [] buf_pos buf = Inr (buf_pos, buf)"
| "hex_decode_loop delimiter [c] buf_pos buf = Inr (0, buf)"
| "hex_decode_loop delimiter (c1 # c2 # src) buf_pos buf =
     (case (HexDecode_digit c1, HexDecode_digit c2) of
        (Some h1, Some h2) \<Rightarrow>
          and_then (store buf_pos (push_bit 4 h1 OR h2) buf) (\<lambda>buf.
          if delimiter \<noteq> 0 \<and> 1 < length src then
            if src ! 0 \<noteq> delimiter then Inr (0, buf) else hex_decode_loop delimiter (tl src) (buf_pos + 1) buf
          else hex_decode_loop delimiter src (buf_pos + 1) buf)
      | _ \<Rightarrow> Inr (0, buf))"

definition HexDecodeWithDelimiter_buf :: "byte list \<Rightarrow> byte list \<Rightarrow> byte \<Rightarrow> fault + nat \<times> byte list" where
  "HexDecodeWithDelimiter_buf buf src delimiter =
     (let needed = (if delimiter \<noteq> 0 then (length src + 1) div 3 else length src div 2) in
      if length buf = 0 then Inr (0, buf)
      else if length buf < needed then Inr (0, buf)
      else hex_decode_loop delimiter src 0 buf)"

definition HexDecode :: "byte \<Rightarrow> byte list \<Rightarrow> fault + byte list" where
  "HexDecode fill src =
     (if length src = 0 then Inr []
      else
        and_then (HexDecodeWithDelimiter_buf (replicate (length src div 2) fill) src 0) (\<lambda>(n, buf).
        if 0 < n then Inr (take n buf) else Inl Assertion_failed))"

end
