(* ===== verification/String_Encode_Laws.thy ===== *)
theory String_Encode_Laws
  imports String_Encode
begin

text \<open>
  What is encoded is decoded again: the codes of UTF-8 bit by bit, the hexadecimal text digit by
  digit, with the bounds of the buffers.
\<close>

section \<open>UTF-8\<close>

lemma tail_byte:
  "(0x80 OR ucast (x AND 0x3F) :: byte) AND 0xC0 = 0x80"
  "(ucast ((0x80 OR ucast (x AND 0x3F) :: byte) AND 0x3F) :: 64 word) = take_bit 6 (x :: 64 word)"
proof -
  have "(ucast (x AND 0x3F) :: byte) = ucast x AND 0x3F" by (simp add: unsigned_and_eq)
  then show "(0x80 OR ucast (x AND 0x3F) :: byte) AND 0xC0 = 0x80"
    by (simp add: bit.conj_disj_distrib2 and.assoc)
  have low: "(0x80 OR ucast (x AND 0x3F) :: byte) AND 0x3F = ucast (take_bit 6 x)"
    using \<open>(ucast (x AND 0x3F) :: byte) = _\<close>
    by (simp add: bit.conj_disj_distrib2 and.assoc take_bit_eq_mask mask_eq_exp_minus_1)
  show "(ucast ((0x80 OR ucast (x AND 0x3F) :: byte) AND 0x3F) :: 64 word) = take_bit 6 x"
    unfolding low by (rule bit_word_eqI) (auto simp: bit_simps)
qed

lemma narrow: "take_bit k x = x \<Longrightarrow> k \<le> 8 \<Longrightarrow> (ucast (ucast x :: byte) :: 64 word) = x"
proof (rule bit_word_eqI)
  fix n assume x: "take_bit k x = x" and k: "k \<le> 8" and "n < LENGTH(64)"
  have "n < k" if "bit x n" using that x by (metis bit_take_bit_iff)
  then show "bit (ucast (ucast x :: byte) :: 64 word) n = bit x n" using k by (auto simp: bit_simps)
qed

text \<open>A lead byte: the marker above, a number of \<open>k\<close> bits below.\<close>

lemma lead_byte:
  assumes x: "take_bit k x = (x :: 64 word)" and k: "k \<le> 8" and low: "low = (mask k :: byte)" "high = NOT (mask k)"
    and marker: "marker AND low = 0"
  shows "(marker OR ucast x) AND high = marker" "(ucast ((marker OR ucast x) AND low) :: 64 word) = x"
proof -
  have bits: "n < k" if "bit x n" for n using that x by (metis bit_take_bit_iff)
  have above: "(ucast x :: byte) AND NOT (mask k) = 0"
    by (rule bit_word_eqI) (auto simp: bit_simps dest: bits)
  have m: "marker AND NOT (mask k) = marker"
  proof -
    have "marker = marker AND (mask k OR NOT (mask k))" by simp
    also have "\<dots> = (marker AND mask k) OR (marker AND NOT (mask k))" by (rule bit.conj_disj_distrib)
    also have "\<dots> = marker AND NOT (mask k)" using marker unfolding low(1) by simp
    finally show ?thesis by (rule sym)
  qed
  show "(marker OR ucast x) AND high = marker"
    by (simp only: low bit.conj_disj_distrib2 above m or.right_neutral)
  have below: "(ucast x :: byte) AND mask k = ucast x"
    by (rule bit_word_eqI) (auto simp: bit_simps dest: bits)
  have "(marker OR ucast x) AND low = ucast x"
    by (simp only: bit.conj_disj_distrib2 marker) (simp only: low below or.left_neutral)
  with narrow [OF x k] show "(ucast ((marker OR ucast x) AND low) :: 64 word) = x" by simp
qed

lemma joined_bits: "push_bit n (drop_bit n x) OR take_bit n x = (x :: 64 word)"
  by (rule bit_word_eqI) (auto simp: bit_simps)

lemma joined_bits_3:
  "push_bit 12 (drop_bit 12 x) OR (push_bit 6 (take_bit 6 (drop_bit 6 x)) OR take_bit 6 x) = (x :: 64 word)"
proof (rule bit_word_eqI)
  fix n assume "n < LENGTH(64)"
  then show "bit (push_bit 12 (drop_bit 12 x) OR (push_bit 6 (take_bit 6 (drop_bit 6 x)) OR take_bit 6 x)) n = bit x n"
    by (cases "n < 12"; cases "n < 6") (auto simp: bit_simps)
qed

lemma joined_bits_4:
  "push_bit 18 (drop_bit 18 x) OR
    (push_bit 6 (push_bit 6 (take_bit 6 (drop_bit 12 x)) OR take_bit 6 (drop_bit 6 x)) OR take_bit 6 x) = (x :: 64 word)"
proof (rule bit_word_eqI)
  fix n assume "n < LENGTH(64)"
  then show "bit (push_bit 18 (drop_bit 18 x) OR
      (push_bit 6 (push_bit 6 (take_bit 6 (drop_bit 12 x)) OR take_bit 6 (drop_bit 6 x)) OR take_bit 6 x)) n = bit x n"
    by (cases "n < 18"; cases "n < 12"; cases "n < 6") (auto simp: bit_simps)
qed

lemma shifted_bits_fit: "(v :: 64 word) < 2 ^ (n + k) \<Longrightarrow> take_bit k (drop_bit n v) = drop_bit n v"
proof -
  assume "v < 2 ^ (n + k)"
  then have "take_bit (n + k) v = v" by (simp add: less_mask_eq take_bit_eq_mask)
  then show ?thesis by (metis drop_bit_take_bit add_diff_cancel_left')
qed

lemma masks:
  "(0x7F :: byte) = mask 7" "(0x80 :: byte) = NOT (mask 7)" "(0x1F :: byte) = mask 5" "(0xE0 :: byte) = NOT (mask 5)"
  "(0x0F :: byte) = mask 4" "(0xF0 :: byte) = NOT (mask 4)" "(0x07 :: byte) = mask 3" "(0xF8 :: byte) = NOT (mask 3)"
  by (simp_all add: mask_eq_exp_minus_1)

lemma UTF8_one:
  assumes "(v :: 64 word) < 2 ^ 7"
  shows "UTF8Decode (ucast v # s) w = Inr (1, v)"
proof -
  have x: "take_bit 7 v = v" using shifted_bits_fit [of v 0 7] assms by simp
  have "(0 OR ucast v :: byte) AND 0x80 = 0" by (rule lead_byte(1) [OF x _ masks(1,2)]) simp_all
  with narrow [OF x] show ?thesis by (simp add: UTF8Decode_def Let_def)
qed


lemma UTF8_two:
  assumes "(v :: 64 word) < 2 ^ (6 + 5)"
  shows "UTF8Decode ((0xC0 OR ucast (drop_bit 6 v)) # (0x80 OR ucast (v AND 0x3F)) # s) w = Inr (2, v)"
proof -
  let ?b = "0xC0 OR ucast (drop_bit 6 v) :: byte"
  have lead: "?b AND 0xE0 = 0xC0" "ucast (?b AND 0x1F) = drop_bit 6 v"
    by (rule lead_byte [OF shifted_bits_fit [OF assms] _ masks(3,4)]; simp)+
  have "?b AND 0x80 = (?b AND 0xE0) AND 0x80" by (simp only: and.assoc) simp
  then have "?b AND 0x80 \<noteq> 0" unfolding lead by simp
  then show ?thesis
    unfolding UTF8Decode_def Let_def
    by (simp only: length_Cons nth_Cons_0 nth_Cons_Suc One_nat_def lead tail_byte joined_bits) simp
qed

lemma UTF8_three:
  assumes "(v :: 64 word) < 2 ^ (12 + 4)"
  shows "UTF8Decode ((0xE0 OR ucast (drop_bit 12 v)) # (0x80 OR ucast (drop_bit 6 v AND 0x3F)) #
      (0x80 OR ucast (v AND 0x3F)) # s) w = Inr (3, v)"
proof -
  let ?b = "0xE0 OR ucast (drop_bit 12 v) :: byte"
  have lead: "?b AND 0xF0 = 0xE0" "ucast (?b AND 0x0F) = drop_bit 12 v"
    by (rule lead_byte [OF shifted_bits_fit [OF assms] _ masks(5,6)]; simp)+
  have "?b AND 0x80 = (?b AND 0xF0) AND 0x80" "?b AND 0xE0 = (?b AND 0xF0) AND 0xE0"
    by (simp_all only: and.assoc) simp_all
  then have "?b AND 0x80 \<noteq> 0" "?b AND 0xE0 \<noteq> 0xC0" unfolding lead by simp_all
  then show ?thesis
    unfolding UTF8Decode_def Let_def numeral_2_eq_2
    by (simp only: length_Cons nth_Cons_0 nth_Cons_Suc One_nat_def lead tail_byte joined_bits_3) simp
qed

lemma UTF8_four:
  assumes "(v :: 64 word) < 2 ^ (18 + 3)"
  shows "UTF8Decode ((0xF0 OR ucast (drop_bit 18 v)) # (0x80 OR ucast (drop_bit 12 v AND 0x3F)) #
      (0x80 OR ucast (drop_bit 6 v AND 0x3F)) # (0x80 OR ucast (v AND 0x3F)) # s) w = Inr (4, v)"
proof -
  let ?b = "0xF0 OR ucast (drop_bit 18 v) :: byte"
  have lead: "?b AND 0xF8 = 0xF0" "ucast (?b AND 0x07) = drop_bit 18 v"
    by (rule lead_byte [OF shifted_bits_fit [OF assms] _ masks(7,8)]; simp)+
  have "?b AND 0x80 = (?b AND 0xF8) AND 0x80" "?b AND 0xE0 = (?b AND 0xF8) AND 0xE0"
    "?b AND 0xF0 = (?b AND 0xF8) AND 0xF0"
    by (simp_all only: and.assoc) simp_all
  then have "?b AND 0x80 \<noteq> 0" "?b AND 0xE0 \<noteq> 0xC0" "?b AND 0xF0 \<noteq> 0xE0" unfolding lead by simp_all
  then show ?thesis
    unfolding UTF8Decode_def Let_def numeral_2_eq_2 numeral_3_eq_3
    by (simp only: length_Cons nth_Cons_0 nth_Cons_Suc One_nat_def lead tail_byte joined_bits_4) simp
qed

lemma four_elements: "4 \<le> length xs \<Longrightarrow> \<exists>a b c d ys. xs = a # b # c # d # ys"
  by (cases xs; cases "tl xs"; cases "tl (tl xs)"; cases "tl (tl (tl xs))") auto

lemma UTF8_roundtrip:
  assumes "v \<le> 0x1FFFFF" "4 \<le> length buffer"
  shows "\<exists>n buffer'. UTF8Encode buffer v = (n, buffer') \<and> 1 \<le> n \<and> n \<le> 4 \<and> drop n buffer' = drop n buffer \<and>
    UTF8Decode (take n buffer' @ s) w = Inr (n, v)"
proof -
  obtain b0 b1 b2 b3 bs where buffer: "buffer = b0 # b1 # b2 # b3 # bs" using four_elements [OF assms(2)] by blast
  consider "v \<le> 0x7F" | "\<not> v \<le> 0x7F" "v \<le> 0x7FF" | "\<not> v \<le> 0x7F" "\<not> v \<le> 0x7FF" "v \<le> 0xFFFF"
    | "\<not> v \<le> 0x7F" "\<not> v \<le> 0x7FF" "\<not> v \<le> 0xFFFF" by blast
  then show ?thesis
  proof cases
    case 1
    then have "UTF8Decode (ucast v # s) w = Inr (1, v)"
      by (intro UTF8_one) (simp add: word_le_nat_alt word_less_nat_alt)
    with 1 show ?thesis by (simp add: buffer UTF8Encode_def Let_def)
  next
    case 2
    then have "v < 2 ^ (6 + 5)" by (simp add: word_le_nat_alt word_less_nat_alt)
    from UTF8_two [OF this] 2 show ?thesis by (simp add: buffer UTF8Encode_def Let_def numeral_2_eq_2)
  next
    case 3
    then have "v < 2 ^ (12 + 4)" by (simp add: word_le_nat_alt word_less_nat_alt)
    from UTF8_three [OF this] 3 show ?thesis by (simp add: buffer UTF8Encode_def Let_def numeral_2_eq_2 numeral_3_eq_3)
  next
    case 4
    have "v < 2 ^ (18 + 3)" using assms(1) by (simp add: word_le_nat_alt word_less_nat_alt)
    from UTF8_four [OF this] 4 assms(1) show ?thesis
      by (simp add: buffer UTF8Encode_def Let_def numeral_2_eq_2 numeral_3_eq_3 eval_nat_numeral(2) [of "Num.Bit0 Num.One"])
  qed
qed


section \<open>Hexadecimal text\<close>

text \<open>The text that the encoder is to write.\<close>

fun hex_text :: "byte \<Rightarrow> byte list \<Rightarrow> byte list" where
  "hex_text d [] = []"
| "hex_text d (ch # s) =
     kHex ! unat (drop_bit 4 ch AND 0xF) # kHex ! unat (ch AND 0xF) #
       (if d \<noteq> 0 \<and> s \<noteq> [] then d # hex_text d s else hex_text d s)"

lemma length_hex_text: "length (hex_text d s) = (if d \<noteq> 0 then 3 * length s - 1 else 2 * length s)"
  by (induction s) auto

lemma and_0xF_less: "(ch :: byte) AND 0xF < 16"
proof -
  have "unat (ch AND 0xF) = unat ch mod 2 ^ 4"
    unfolding masks take_bit_eq_mask [symmetric] unsigned_take_bit_eq by (rule take_bit_eq_mod)
  then have "unat (ch AND 0xF) < 16" by simp
  then show ?thesis by (simp add: word_less_nat_alt)
qed

lemma digit_cases: "(v :: byte) < 16 \<Longrightarrow> v \<in> set (map of_nat [0..<16])"
proof -
  assume "v < 16"
  then have "unat v < 16" by (simp add: word_less_nat_alt)
  moreover have "v = of_nat (unat v)" by simp
  ultimately show ?thesis unfolding set_map by (intro image_eqI [of _ _ "unat v"]) simp_all
qed

lemma HexDecode_digit_digit: "v < 16 \<Longrightarrow> HexDecode_digit (kHex ! unat v) = Some v"
proof -
  have "list_all (\<lambda>v. HexDecode_digit (kHex ! unat v) = Some v) (map of_nat [0..<16])"
    by (simp add: upt_rec kHex_def HexDecode_digit_def)
  then show "v < 16 \<Longrightarrow> ?thesis" using digit_cases unfolding list_all_iff by blast
qed

lemma two_halves: "push_bit 4 (drop_bit 4 ch AND 0xF) OR (ch AND 0xF) = (ch :: byte)"
  unfolding masks by (rule bit_word_eqI) (auto simp: bit_simps)

lemma store_append [simp]:
  "store (length ys) b (ys @ c # zs) = Inr (ys @ b # zs)"
  "store (Suc (length ys)) b (ys @ x # c # zs) = Inr (ys @ x # b # zs)"
  "store (Suc (Suc (length ys))) b (ys @ x # y # c # zs) = Inr (ys @ x # y # b # zs)"
  by (simp_all add: store_def list_update_append)

lemma hex_encode_text:
  "length (hex_text d s) \<le> length rest \<Longrightarrow>
    hex_encode_loop d s (length out) (out @ rest) =
      Inr (length out + length (hex_text d s), out @ hex_text d s @ drop (length (hex_text d s)) rest)"
proof (induction s arbitrary: out rest)
  case (Cons ch s)
  let ?h = "kHex ! unat (drop_bit 4 ch AND 0xF)" and ?l = "kHex ! unat (ch AND 0xF)"
  have "2 \<le> length rest" using Cons.prems by simp
  then obtain r0 r1 r where rest: "rest = r0 # r1 # r" by (cases rest; cases "tl rest") auto
  have digits: "HexEncode_digit (drop_bit 4 ch AND 0xF) = Inr ?h" "HexEncode_digit (ch AND 0xF) = Inr ?l"
    by (simp_all add: HexEncode_digit_def and_0xF_less)
  show ?case
  proof (cases "d \<noteq> 0 \<and> s \<noteq> []")
    case True
    then obtain r2 r' where r: "r = r2 # r'" using Cons.prems rest by (cases r) auto
    then show ?thesis
      using Cons.IH [of r' "out @ [?h, ?l, d]"] Cons.prems True by (simp add: digits rest Let_def)
  next
    case False
    then show ?thesis
      using Cons.IH [of r "out @ [?h, ?l]"] Cons.prems by (auto simp: digits rest Let_def)
  qed
qed simp

lemma hex_decode_text:
  "length s \<le> length rest \<Longrightarrow>
    hex_decode_loop d (hex_text d s) (length out) (out @ rest) =
      Inr (length out + length s, out @ s @ drop (length s) rest)"
proof (induction s arbitrary: out rest)
  case (Cons ch s)
  then obtain r0 r where rest: "rest = r0 # r" by (cases rest) auto
  note h = HexDecode_digit_digit [OF and_0xF_less, of "drop_bit 4 ch"] HexDecode_digit_digit [OF and_0xF_less, of ch]
  note IH = Cons.IH [of r "out @ [ch]"]
  show ?case
  proof (cases "d \<noteq> 0 \<and> s \<noteq> []")
    case True
    then have "hex_text d s \<noteq> []" by (cases s) simp_all
    with True show ?thesis
      using IH Cons.prems by (simp add: h two_halves rest del: push_bit_and)
  next
    case False
    then show ?thesis using IH Cons.prems by (auto simp: h two_halves rest simp del: push_bit_and)
  qed
qed simp

lemma encoded_text: "HexEncodeWithDelimiter fill s d = Inr (hex_text d s)"
proof (cases "s = []")
  case True
  then show ?thesis by (simp add: HexEncodeWithDelimiter_def HexEncodeWithDelimiter_buf_def)
next
  case False
  define buf where "buf = replicate (length s * 3) fill"
  define n where "n = length (hex_text d s)"
  have n: "0 < n" "n < length buf" using False by (cases s; simp add: n_def length_hex_text buf_def)+
  have buf: "length buf = length s * 3" by (simp add: buf_def)
  have "hex_encode_loop d s 0 buf = Inr (n, hex_text d s @ drop n buf)"
    using hex_encode_text [of d s buf "[]"] n by (simp add: n_def)
  moreover have "store n 0 (hex_text d s @ drop n buf) = Inr (hex_text d s @ 0 # drop (n + 1) buf)"
    using n(2) store_append(1) [of "hex_text d s" 0] by (simp add: n_def Cons_nth_drop_Suc [symmetric])
  ultimately have "HexEncodeWithDelimiter_buf buf s d = Inr (n, hex_text d s @ 0 # drop (n + 1) buf)"
    using n False unfolding HexEncodeWithDelimiter_buf_def buf by (cases s) (simp_all add: Let_def)
  then show ?thesis using n by (simp add: HexEncodeWithDelimiter_def buf_def [symmetric]) (simp add: n_def)
qed

lemma decoded_text:
  assumes "length s \<le> length buf" "buf \<noteq> []"
  shows "HexDecodeWithDelimiter_buf buf (hex_text d s) d = Inr (length s, s @ drop (length s) buf)"
  using assms hex_decode_text [of s buf d "[]"]
  by (cases "s = []") (auto simp: HexDecodeWithDelimiter_buf_def length_hex_text Let_def)

lemma HexDecode_HexEncode: "and_then (HexEncode fill s) (HexDecode fill') = Inr s"
proof (cases "s = []")
  case False
  then show ?thesis
    using decoded_text [of s "replicate (length s) fill'" 0]
    by (simp add: HexEncode_def encoded_text HexDecode_def length_hex_text)
qed (simp add: HexEncode_def encoded_text HexDecode_def)

text \<open>A text that is not hexadecimal fails an assertion, and so does a single digit.\<close>

lemma HexDecode_odd: "HexDecode fill [c] = Inl Assertion_failed"
  by (simp add: HexDecode_def HexDecodeWithDelimiter_buf_def)

lemma HexDecode_Z: "HexDecode_digit 0x5A = Some 35"
  by (simp add: HexDecode_digit_def)

end
