(* ===== verification/Text_Properties.thy ===== *)
theory Text_Properties
  imports Path_Laws Base64 String_Encode_Laws
begin

text \<open>
  What the functions on text guarantee: paths are cleaned in place as they would be on a stack of
  their parts, and the encodings of text are decoded again.
\<close>

text \<open>
  C34. \<open>CleanPath\<close>, which writes the string that it reads and goes back in it at a part \<open>..\<close>,
  gives what the parts of the name (up to a NUL) give when they are resolved on a stack, and a
  clean name stays as it is.
\<close>

theorem clean_path_is_reference:
  "CleanPath p = clean_name (takeWhile (\<lambda>b. b \<noteq> 0) p) \<and> CleanPath (CleanPath p) = CleanPath p"
  by (rule conjI [OF CleanPath_eq CleanPath_clean])

text \<open>
  C39. What \<open>Base64Encode\<close> gives is decoded to the bytes again; it is text of letters, digits,
  \<open>+\<close> and \<open>/\<close>, padded with \<open>=\<close> to four characters for three bytes.
\<close>

theorem base64_roundtrip:
  "Base64Decode (Base64Encode s) = (True, s) \<and> length (Base64Encode s) = (length s + 2) div 3 * 4 \<and>
   filter (\<lambda>c. \<not> is_base64 c \<and> c \<noteq> PAD) (Base64Encode s) = []"
  by (simp add: Base64Decode_def Base64Encode_def base64_decode_encode base64_encode_shape)

text \<open>
  C40. Hexadecimal text, with a delimiter between the bytes or without, is written inside its
  buffer, whatever the buffer held, and decoded to the bytes again. A number of at most 21 bits is
  encoded in UTF-8 in one to four bytes and decoded from them, whatever follows; the rest of the
  buffer is left alone.
\<close>

theorem string_encodings_roundtrip:
  assumes "v \<le> 0x1FFFFF" "4 \<le> length buffer"
  shows "and_then (HexEncode fill s) (HexDecode fill') = Inr s \<and>
    and_then (HexEncodeWithDelimiter fill s d)
      (\<lambda>text. HexDecodeWithDelimiter_buf (replicate (length s + 1) fill') text d) = Inr (length s, s @ [fill']) \<and>
    (\<exists>n buffer'. UTF8Encode buffer v = (n, buffer') \<and> 1 \<le> n \<and> n \<le> 4 \<and> drop n buffer' = drop n buffer \<and>
      UTF8Decode (take n buffer' @ s) w = Inr (n, v))"
proof (intro conjI)
  have "drop (length s) (replicate (length s + 1) fill') = [fill']" by (simp only: drop_replicate) simp
  then show "and_then (HexEncodeWithDelimiter fill s d)
      (\<lambda>text. HexDecodeWithDelimiter_buf (replicate (length s + 1) fill') text d) = Inr (length s, s @ [fill'])"
    using decoded_text [of s "replicate (length s + 1) fill'" d] by (simp only: encoded_text and_then_simps) simp
qed (rule HexDecode_HexEncode, rule UTF8_roundtrip [OF assms])

theorem string_encodings_roundtrip_witness:
  "and_then (HexEncode 1 [65]) (HexDecode 2) = Inr [65] \<and>
   (\<exists>n buffer'. UTF8Encode [0, 0, 0, 0, 7] 0x20AC = (n, buffer') \<and> 1 \<le> n \<and> n \<le> 4 \<and>
    drop n buffer' = drop n [0, 0, 0, 0, 7] \<and> UTF8Decode (take n buffer' @ [65]) 0 = Inr (n, 0x20AC))"
  using string_encodings_roundtrip [of "0x20AC" "[0, 0, 0, 0, 7]" 1 "[65]" 2 0 0] by simp

end
