(* ===== verification/Inlined_Vector.thy ===== *)
theory Inlined_Vector
  imports Faults
begin

text \<open>
  \<open>src/base/gtl/inlined_vector.h\<close>: a vector whose first elements lie in the object itself. Its last
  eight bytes are a word: the top byte is the size, or 255 where the elements are in a block of
  memory; then the next byte is the logarithm of the capacity and the six others are the size. The
  model is that of a little-endian machine, and \<open>malloc\<close> does not fail.

  A place of memory holds an object (\<open>Some\<close>) or none: it is a fault to read, to assign to or to
  destroy what is not an object, and to construct outside the memory.
\<close>

section \<open>Places\<close>

type_synonym 'a block = "'a option list"

definition get_place :: "nat \<Rightarrow> 'a block \<Rightarrow> fault + 'a" where
  "get_place i b = (if i < length b then case b ! i of Some x \<Rightarrow> Inr x | None \<Rightarrow> Inl Out_of_bounds else Inl Out_of_bounds)"

definition construct :: "nat \<Rightarrow> 'a \<Rightarrow> 'a block \<Rightarrow> fault + 'a block" where
  "construct i x b = (if i < length b then Inr (b[i := Some x]) else Inl Out_of_bounds)"

definition assign_place :: "nat \<Rightarrow> 'a \<Rightarrow> 'a block \<Rightarrow> fault + 'a block" where
  "assign_place i x b = and_then (get_place i b) (\<lambda>_. Inr (b[i := Some x]))"

definition destroy :: "nat \<Rightarrow> 'a block \<Rightarrow> fault + 'a block" where
  "destroy i b = and_then (get_place i b) (\<lambda>_. Inr (b[i := None]))"

text \<open>\<open>*(dst + i) = *(src + j)\<close>, in one block.\<close>

definition copy_place :: "nat \<Rightarrow> nat \<Rightarrow> 'a block \<Rightarrow> fault + 'a block" where
  "copy_place i j b = and_then (get_place j b) (\<lambda>x. assign_place i x b)"

text \<open>The number of objects is passed as an \<open>int\<close>.\<close>

definition Destroy :: "nat \<Rightarrow> nat \<Rightarrow> 'a block \<Rightarrow> fault + 'a block" where
  "Destroy src n b = (let n = nat (sint (word_of_nat n :: 32 word)) in for_each [src..<src + n] destroy b)"

definition Move :: "'a block \<Rightarrow> nat \<Rightarrow> 'a block \<Rightarrow> fault + 'a block" where
  "Move src n dst = for_each [0..<n] (\<lambda>i dst. and_then (get_place i src) (\<lambda>x. construct i x dst)) dst"

definition Fill :: "(nat \<Rightarrow> 'a block \<Rightarrow> fault + 'a) \<Rightarrow> nat \<Rightarrow> nat \<Rightarrow> 'a block \<Rightarrow> fault + 'a block" where
  "Fill src n dst b = for_each [0..<n] (\<lambda>i b. and_then (src i b) (\<lambda>x. construct (dst + i) x b)) b"

text \<open>\<open>std::copy\<close> of \<open>n\<close> elements to a lower place, and \<open>std::copy_backward\<close> of \<open>[first, until)\<close> by one.\<close>

definition copy_down :: "nat \<Rightarrow> nat \<Rightarrow> nat \<Rightarrow> 'a block \<Rightarrow> fault + 'a block" where
  "copy_down dst src n b = for_each [0..<n] (\<lambda>i. copy_place (dst + i) (src + i)) b"

definition copy_backward :: "nat \<Rightarrow> nat \<Rightarrow> 'a block \<Rightarrow> fault + 'a block" where
  "copy_backward first until b = for_each (rev [first..<until]) (\<lambda>i. copy_place (i + 1) i) b"

section \<open>The representation\<close>

record 'a inlined_vector =
  iv_word :: "64 word"
  iv_inline :: "'a block"
  iv_heap :: "'a block"

definition kSentinel :: "8 word" where
  "kSentinel = 255"

definition kSize :: "nat \<Rightarrow> nat \<Rightarrow> nat" where
  "kSize N size_of_T = (N * size_of_T + 1 + 15) div 16 * 16"

definition kFit :: "nat \<Rightarrow> nat \<Rightarrow> nat" where
  "kFit N size_of_T =
     (let kFit1 = (kSize N size_of_T - 1) div size_of_T in
      if unat kSentinel \<le> kFit1 then unat kSentinel - 1 else kFit1)"

text \<open>\<open>u_.data[kSize - 1]\<close> and \<open>u_.data[kSize - 2]\<close>.\<close>

definition last_byte :: "'a inlined_vector \<Rightarrow> 8 word" where
  "last_byte v = ucast (drop_bit 56 (iv_word v))"

definition lg_byte :: "'a inlined_vector \<Rightarrow> 8 word" where
  "lg_byte v = ucast (drop_bit 48 (iv_word v))"

definition set_last_byte :: "8 word \<Rightarrow> 'a inlined_vector \<Rightarrow> 'a inlined_vector" where
  "set_last_byte b v = v\<lparr>iv_word := take_bit 56 (iv_word v) OR push_bit 56 (ucast b)\<rparr>"

definition set_lg_byte :: "8 word \<Rightarrow> 'a inlined_vector \<Rightarrow> 'a inlined_vector" where
  "set_lg_byte b v =
     v\<lparr>iv_word := take_bit 48 (iv_word v) OR push_bit 48 (ucast b) OR push_bit 56 (ucast (last_byte v))\<rparr>"

definition is_inline :: "'a inlined_vector \<Rightarrow> bool" where
  "is_inline v \<longleftrightarrow> last_byte v \<noteq> kSentinel"

definition vector_size :: "'a inlined_vector \<Rightarrow> nat" where
  "vector_size v =
     (if last_byte v \<noteq> kSentinel then unat (last_byte v) else unat (iv_word v AND 0xffffffffffff))"

definition set_size_internal :: "nat \<Rightarrow> 'a inlined_vector \<Rightarrow> fault + 'a inlined_vector" where
  "set_size_internal n v =
     (if is_inline v then
        if n < unat kSentinel then Inr (set_last_byte (word_of_nat n) v) else Inl Assertion_failed
      else
        let v = v\<lparr>iv_word := word_of_nat n OR push_bit 48 (ucast (lg_byte v)) OR push_bit 56 (ucast kSentinel)\<rparr> in
        if last_byte v = kSentinel then Inr v else Inl Assertion_failed)"

text \<open>The object has room for \<open>kFit\<close> elements.\<close>

definition capacity :: "'a inlined_vector \<Rightarrow> nat" where
  "capacity v = (if is_inline v then length (iv_inline v) else unat (push_bit (unat (lg_byte v)) 1 :: 64 word))"

definition vector_data :: "'a inlined_vector \<Rightarrow> 'a block" where
  "vector_data v = (if is_inline v then iv_inline v else iv_heap v)"

definition on_elements :: "('a block \<Rightarrow> fault + 'a block) \<Rightarrow> 'a inlined_vector \<Rightarrow> fault + 'a inlined_vector" where
  "on_elements f v =
     (if is_inline v then and_then (f (iv_inline v)) (\<lambda>b. Inr (v\<lparr>iv_inline := b\<rparr>))
      else and_then (f (iv_heap v)) (\<lambda>b. Inr (v\<lparr>iv_heap := b\<rparr>)))"

definition InitRep :: "nat \<Rightarrow> nat \<Rightarrow> 'a inlined_vector" where
  "InitRep N size_of_T = \<lparr>iv_word = 0, iv_inline = replicate (kFit N size_of_T) None, iv_heap = []\<rparr>"

definition DiscardStorage :: "'a inlined_vector \<Rightarrow> fault + 'a inlined_vector" where
  "DiscardStorage v =
     and_then (on_elements (Destroy 0 (vector_size v)) v) (\<lambda>v.
     Inr (if \<not> is_inline v then v\<lparr>iv_heap := []\<rparr> else v))"

text \<open>
  The loop that doubles \<open>target\<close>. Behind 63 the target has wrapped to 0 and the loop would not
  end; the model has a fault for it.
\<close>

function find_target :: "nat \<Rightarrow> nat \<Rightarrow> nat \<Rightarrow> fault + nat" where
  "find_target fit n target_lg =
     (if 64 \<le> target_lg then Inl Out_of_bounds
      else if 2 ^ target_lg < fit \<or> 2 ^ target_lg < n then find_target fit n (target_lg + 1)
      else Inr target_lg)"
  by pat_completeness auto

termination
  by (relation "measure (\<lambda>(_, _, target_lg). 64 - target_lg)") auto

declare find_target.simps [simp del]

text \<open>\<open>Grow\<close>, with the object that is constructed behind the last one before the others move.\<close>

definition Grow :: "bool \<Rightarrow> nat \<Rightarrow> 'a option \<Rightarrow> 'a inlined_vector \<Rightarrow> fault + 'a inlined_vector" where
  "Grow moves n new_object v =
     (let s = vector_size v in
      if \<not> s \<le> capacity v then Inl Assertion_failed
      else
        and_then (find_target (length (iv_inline v)) n 0) (\<lambda>target_lg.
        let src = vector_data v; dst = replicate (2 ^ target_lg) None in
        and_then (case new_object of None \<Rightarrow> Inr dst | Some x \<Rightarrow> construct s x dst) (\<lambda>dst.
        and_then (if moves then Move src s dst else Inr dst) (\<lambda>dst.
        and_then (DiscardStorage v) (\<lambda>v.
        let v = set_lg_byte (word_of_nat target_lg) (set_last_byte kSentinel v) in
        and_then (set_size_internal s v) (\<lambda>v.
        if capacity v = 2 ^ target_lg then Inr (v\<lparr>iv_heap := dst\<rparr>) else Inl Assertion_failed))))))"

section \<open>The operations\<close>

text \<open>A \<open>const T&\<close>: an object elsewhere, or an element of the vector, which \<open>Grow\<close> frees.\<close>

datatype 'a reference = Outside 'a | Element nat

definition deref :: "bool \<Rightarrow> 'a reference \<Rightarrow> 'a block \<Rightarrow> fault + 'a" where
  "deref grown r b =
     (case r of Outside x \<Rightarrow> Inr x | Element i \<Rightarrow> if grown then Inl Out_of_bounds else get_place i b)"

definition vector_at :: "nat \<Rightarrow> 'a inlined_vector \<Rightarrow> fault + 'a" where
  "vector_at i v = (if i < vector_size v then get_place i (vector_data v) else Inl Assertion_failed)"

definition front :: "'a inlined_vector \<Rightarrow> fault + 'a" where
  "front v = (if vector_size v \<noteq> 0 then vector_at 0 v else Inl Assertion_failed)"

definition back_element :: "'a inlined_vector \<Rightarrow> fault + 'a" where
  "back_element v = (if vector_size v \<noteq> 0 then vector_at (vector_size v - 1) v else Inl Assertion_failed)"

definition clear :: "'a inlined_vector \<Rightarrow> fault + 'a inlined_vector" where
  "clear v = and_then (DiscardStorage v) (\<lambda>v. Inr (set_last_byte 0 v))"

definition EmplaceBackSlow :: "'a \<Rightarrow> 'a inlined_vector \<Rightarrow> fault + 'a inlined_vector" where
  "EmplaceBackSlow x v =
     (let s = vector_size v in
      if s = capacity v then and_then (Grow True (s + 1) (Some x) v) (set_size_internal (s + 1))
      else Inl Assertion_failed)"

definition emplace_back :: "'a \<Rightarrow> 'a inlined_vector \<Rightarrow> fault + 'a inlined_vector" where
  "emplace_back x v =
     (let s = vector_size v in
      if \<not> s \<le> capacity v then Inl Assertion_failed
      else if s < capacity v then and_then (on_elements (construct s x) v) (set_size_internal (s + 1))
      else EmplaceBackSlow x v)"

definition push_back :: "'a reference \<Rightarrow> 'a inlined_vector \<Rightarrow> fault + 'a inlined_vector" where
  "push_back r v = and_then (deref False r (vector_data v)) (\<lambda>x. emplace_back x v)"

definition pop_back :: "'a inlined_vector \<Rightarrow> fault + 'a inlined_vector" where
  "pop_back v =
     (let s = vector_size v in
      if s \<noteq> 0 then and_then (on_elements (Destroy (s - 1) 1) v) (set_size_internal (s - 1))
      else Inl Assertion_failed)"

definition reserve :: "nat \<Rightarrow> 'a inlined_vector \<Rightarrow> fault + 'a inlined_vector" where
  "reserve n v = (if capacity v < n then Grow True n None v else Inr v)"

definition resize :: "nat \<Rightarrow> 'a reference \<Rightarrow> 'a inlined_vector \<Rightarrow> fault + 'a inlined_vector" where
  "resize n elem v =
     (let s = vector_size v in
      if n \<le> s then and_then (on_elements (Destroy n (s - n)) v) (set_size_internal n)
      else
        let grown = capacity v < n in
        and_then (reserve n v) (\<lambda>v.
        if \<not> n \<le> capacity v then Inl Assertion_failed
        else and_then (set_size_internal n v) (on_elements (Fill (\<lambda>_. deref grown elem) (n - s) s))))"

text \<open>The results of \<open>insert\<close> and \<open>erase\<close> are places, as their distance from \<open>begin()\<close>.\<close>

definition insert_at :: "nat \<Rightarrow> 'a reference \<Rightarrow> 'a inlined_vector \<Rightarrow> fault + nat \<times> 'a inlined_vector" where
  "insert_at pos r v =
     (if \<not> pos \<le> vector_size v then Inl Assertion_failed
      else if pos = vector_size v then
        and_then (push_back r v) (\<lambda>v. Inr (vector_size v - 1, v))
      else
        let s = vector_size v; grown = (s = capacity v) in
        and_then (if grown then Grow True (s + 1) None v else Inr v) (\<lambda>v.
        if \<not> s < capacity v then Inl Assertion_failed
        else
          and_then (on_elements (\<lambda>b. and_then (get_place (s - 1) b) (\<lambda>x. construct s x b)) v) (\<lambda>v.
          and_then (on_elements (copy_backward pos (s - 1)) v) (\<lambda>v.
          and_then (on_elements (\<lambda>b. and_then (deref grown r b) (\<lambda>x. assign_place pos x b)) v) (\<lambda>v.
          and_then (set_size_internal (s + 1) v) (\<lambda>v. Inr (pos, v)))))))"

definition erase :: "nat \<Rightarrow> 'a inlined_vector \<Rightarrow> fault + nat \<times> 'a inlined_vector" where
  "erase pos v =
     (if pos < vector_size v then
        and_then (on_elements (copy_down pos (pos + 1) (vector_size v - (pos + 1))) v) (\<lambda>v.
        and_then (pop_back v) (\<lambda>v. Inr (pos, v)))
      else Inl Assertion_failed)"

definition erase_range :: "nat \<Rightarrow> nat \<Rightarrow> 'a inlined_vector \<Rightarrow> fault + nat \<times> 'a inlined_vector" where
  "erase_range first until v =
     (if first \<le> until \<and> until \<le> vector_size v then
        let s = vector_size v; erase_gap = until - first in
        and_then (on_elements (copy_down first until (s - until)) v) (\<lambda>v.
        and_then (on_elements (Destroy (s - erase_gap) erase_gap) v) (\<lambda>v.
        and_then (set_size_internal (s - erase_gap) v) (\<lambda>v. Inr (first, v))))
      else Inl Assertion_failed)"

text \<open>\<open>AppendRange\<close>, for input iterators and for forward iterators.\<close>

definition append_input :: "'a list \<Rightarrow> 'a inlined_vector \<Rightarrow> fault + 'a inlined_vector" where
  "append_input xs v = for_each xs emplace_back v"

definition append_forward :: "'a list \<Rightarrow> 'a inlined_vector \<Rightarrow> fault + 'a inlined_vector" where
  "append_forward xs v =
     (let s = vector_size v in
      and_then (reserve (s + length xs) v) (\<lambda>v.
      and_then (on_elements (Fill (\<lambda>i _. Inr (xs ! i)) (length xs) s) v) (set_size_internal (s + length xs))))"

text \<open>The elements \<open>[first, until)\<close>, as an algorithm of the standard library reads them.\<close>

definition read_range :: "nat \<Rightarrow> nat \<Rightarrow> 'a block \<Rightarrow> fault + 'a list" where
  "read_range first until b = for_each [first..<until] (\<lambda>i xs. and_then (get_place i b) (\<lambda>x. Inr (xs @ [x]))) []"

definition assign_vector :: "'a inlined_vector \<Rightarrow> 'a inlined_vector \<Rightarrow> fault + 'a inlined_vector" where
  "assign_vector w v =
     (let s = vector_size v; vs = vector_size w in
      and_then (read_range 0 vs (vector_data w)) (\<lambda>ws.
      if s < vs then
        and_then (reserve vs v) (\<lambda>v.
        and_then (on_elements (for_each [0..<s] (\<lambda>i. assign_place i (ws ! i))) v) (append_input (drop s ws)))
      else
        and_then (erase_range vs s v) (\<lambda>(_, v).
        on_elements (for_each [0..<vs] (\<lambda>i. assign_place i (ws ! i))) v)))"

definition vector_of_size :: "nat \<Rightarrow> nat \<Rightarrow> nat \<Rightarrow> 'a \<Rightarrow> fault + 'a inlined_vector" where
  "vector_of_size N size_of_T n elem =
     (let v = InitRep N size_of_T in
      and_then (if capacity v < n then Grow False n None v else Inr v) (\<lambda>v.
      and_then (set_size_internal n v) (on_elements (Fill (\<lambda>_ _. Inr elem) n 0))))"

definition vector_of_list :: "nat \<Rightarrow> nat \<Rightarrow> 'a list \<Rightarrow> fault + 'a inlined_vector" where
  "vector_of_list N size_of_T xs = append_forward xs (InitRep N size_of_T)"

definition copy_vector :: "nat \<Rightarrow> nat \<Rightarrow> 'a inlined_vector \<Rightarrow> fault + 'a inlined_vector" where
  "copy_vector N size_of_T w = assign_vector w (InitRep N size_of_T)"

text \<open>
  \<open>swap\<close> of two vectors: of the words and the pointers where both have a block; else the elements up
  to the smaller size are swapped and the others are copied, from the larger vector \<open>a\<close> to \<open>b\<close>.
\<close>

definition swap_elements :: "'a inlined_vector \<Rightarrow> 'a inlined_vector \<Rightarrow> fault + 'a inlined_vector \<times> 'a inlined_vector" where
  "swap_elements a b =
     (let a_size = vector_size a; b_size = vector_size b in
      if \<not> b_size \<le> a_size then Inl Assertion_failed
      else
        and_then (if capacity b < a_size then Grow True a_size None b else Inr b) (\<lambda>b.
        and_then (read_range 0 a_size (vector_data a)) (\<lambda>xs.
        and_then (read_range 0 b_size (vector_data b)) (\<lambda>ys.
        and_then (on_elements (for_each [0..<b_size] (\<lambda>i. assign_place i (ys ! i))) a) (\<lambda>a.
        and_then (on_elements (for_each [0..<b_size] (\<lambda>i. assign_place i (xs ! i))) b) (\<lambda>b.
        and_then (on_elements (Fill (\<lambda>i _. Inr (xs ! (b_size + i))) (a_size - b_size) b_size) b) (\<lambda>b.
        and_then (on_elements (Destroy b_size (a_size - b_size)) a) (\<lambda>a.
        and_then (set_size_internal b_size a) (\<lambda>a.
        and_then (set_size_internal a_size b) (\<lambda>b.
        if vector_size b = a_size \<and> vector_size a = b_size then Inr (a, b) else Inl Assertion_failed))))))))))"

definition swap_vectors :: "'a inlined_vector \<Rightarrow> 'a inlined_vector \<Rightarrow> fault + 'a inlined_vector \<times> 'a inlined_vector" where
  "swap_vectors a b =
     (if \<not> is_inline a \<and> \<not> is_inline b then
        Inr (a\<lparr>iv_heap := iv_heap b, iv_word := iv_word b\<rparr>, b\<lparr>iv_heap := iv_heap a, iv_word := iv_word a\<rparr>)
      else if vector_size a < vector_size b then and_then (swap_elements b a) (\<lambda>(b, a). Inr (a, b))
      else swap_elements a b)"

definition equal_vectors :: "'a inlined_vector \<Rightarrow> 'a inlined_vector \<Rightarrow> fault + bool" where
  "equal_vectors a b =
     (if vector_size a = vector_size b then
        and_then (read_range 0 (vector_size a) (vector_data a)) (\<lambda>xs.
        and_then (read_range 0 (vector_size b) (vector_data b)) (\<lambda>ys. Inr (xs = ys)))
      else Inr False)"

fun lexicographic :: "('a \<Rightarrow> 'a \<Rightarrow> bool) \<Rightarrow> 'a list \<Rightarrow> 'a list \<Rightarrow> bool" where
  "lexicographic lt [] ys = (ys \<noteq> [])"
| "lexicographic lt (x # xs) [] = False"
| "lexicographic lt (x # xs) (y # ys) =
     (if lt x y then True else if lt y x then False else lexicographic lt xs ys)"

definition less_vectors :: "('a \<Rightarrow> 'a \<Rightarrow> bool) \<Rightarrow> 'a inlined_vector \<Rightarrow> 'a inlined_vector \<Rightarrow> fault + bool" where
  "less_vectors lt a b =
     and_then (read_range 0 (vector_size a) (vector_data a)) (\<lambda>xs.
     and_then (read_range 0 (vector_size b) (vector_data b)) (\<lambda>ys. Inr (lexicographic lt xs ys)))"

end
