(* ===== verification/Inlined_Vector_Laws.thy ===== *)
theory Inlined_Vector_Laws
  imports Inlined_Vector
begin

text \<open>
  An \<open>InlinedVector\<close> is a list: \<open>holds v xs\<close> says that the places of \<open>v\<close> are the elements of \<open>xs\<close>
  and, behind them, no objects. The laws of the representation (the size, the sentinel and the
  capacity in one word) come first, then the algorithms on places, then the operations.
\<close>

section \<open>The word\<close>

lemma word_parts:
  fixes x :: "64 word" and l s :: "8 word"
  assumes "take_bit 48 x = x"
  defines "w \<equiv> x OR push_bit 48 (ucast l) OR push_bit 56 (ucast s)"
  shows "ucast (drop_bit 56 w) = s" "ucast (drop_bit 48 w) = l" "w AND 0xffffffffffff = x"
proof -
  have bits: "n < 48" if "bit x n" for n using that assms(1) by (metis bit_take_bit_iff)
  show "ucast (drop_bit 56 w) = s"
  proof (rule bit_word_eqI)
    fix n assume n: "n < LENGTH(8)"
    have "\<not> bit x (56 + n)" using bits [of "56 + n"] by auto
    then show "bit (ucast (drop_bit 56 w) :: 8 word) n = bit s n" using n bit_imp_le_length [of l "8 + n"] by (auto simp: w_def bit_simps)
  qed
  show "ucast (drop_bit 48 w) = l"
  proof (rule bit_word_eqI)
    fix n assume n: "n < LENGTH(8)"
    have "\<not> bit x (48 + n)" using bits [of "48 + n"] by auto
    then show "bit (ucast (drop_bit 48 w) :: 8 word) n = bit l n" using n by (auto simp: w_def bit_simps)
  qed
  have m: "(0xffffffffffff :: 64 word) = mask 48" by (simp add: mask_eq_exp_minus_1)
  show "w AND 0xffffffffffff = x"
    unfolding m by (rule bit_word_eqI) (auto simp: w_def bit_simps dest: bits)
qed

lemma set_last_byte_simps [simp]:
  "last_byte (set_last_byte b v) = b" "iv_inline (set_last_byte b v) = iv_inline v" "iv_heap (set_last_byte b v) = iv_heap v"
proof -
  show "last_byte (set_last_byte b v) = b"
    unfolding last_byte_def set_last_byte_def by (rule bit_word_eqI) (auto simp: bit_simps)
qed (simp_all add: set_last_byte_def)

lemma set_lg_byte_simps [simp]:
  "last_byte (set_lg_byte l v) = last_byte v" "lg_byte (set_lg_byte l v) = l"
  "iv_inline (set_lg_byte l v) = iv_inline v" "iv_heap (set_lg_byte l v) = iv_heap v"
  using word_parts [of "take_bit 48 (iv_word v)" l "last_byte v"] by (simp_all add: set_lg_byte_def last_byte_def lg_byte_def)

text \<open>The size is a number of 48 bits.\<close>

lemma size_bits:
  assumes "n < 2 ^ 48"
  shows "take_bit 48 (word_of_nat n :: 64 word) = word_of_nat n" "unat (word_of_nat n :: 64 word) = n"
proof -
  show unat: "unat (word_of_nat n :: 64 word) = n"
    using assms by (simp add: unsigned_of_nat take_bit_nat_eq_self)
  have "(word_of_nat n :: 64 word) < 2 ^ 48" unfolding word_less_nat_alt unat using assms by simp
  then show "take_bit 48 (word_of_nat n :: 64 word) = word_of_nat n"
    unfolding take_bit_eq_mask by (rule less_mask_eq)
qed

section \<open>The places\<close>

definition cells :: "'a list \<Rightarrow> nat \<Rightarrow> 'a block" where
  "cells xs c = map Some xs @ replicate (c - length xs) None"

definition rep_ok :: "'a inlined_vector \<Rightarrow> bool" where
  "rep_ok v \<longleftrightarrow> length (iv_inline v) \<le> 254 \<and> length (vector_data v) = capacity v \<and> capacity v \<le> 2 ^ 31 \<and>
     (is_inline v \<or> iv_inline v = replicate (length (iv_inline v)) None)"

definition holds :: "'a inlined_vector \<Rightarrow> 'a list \<Rightarrow> bool" where
  "holds v xs \<longleftrightarrow> rep_ok v \<and> vector_size v = length xs \<and> length xs \<le> capacity v \<and> vector_data v = cells xs (capacity v)"

definition with_data :: "'a block \<Rightarrow> 'a inlined_vector \<Rightarrow> 'a inlined_vector" where
  "with_data b v = (if is_inline v then v\<lparr>iv_inline := b\<rparr> else v\<lparr>iv_heap := b\<rparr>)"

lemma on_elements_eq: "on_elements f v = and_then (f (vector_data v)) (\<lambda>b. Inr (with_data b v))"
  by (simp add: on_elements_def vector_data_def with_data_def)

lemma with_data_simps [simp]:
  "iv_word (with_data b v) = iv_word v" "is_inline (with_data b v) = is_inline v"
  "last_byte (with_data b v) = last_byte v" "lg_byte (with_data b v) = lg_byte v"
  "vector_size (with_data b v) = vector_size v" "vector_data (with_data b v) = b"
  by (simp_all add: with_data_def is_inline_def last_byte_def lg_byte_def vector_size_def vector_data_def)

lemma with_data_wf:
  assumes "rep_ok v" "length b = capacity v"
  shows "rep_ok (with_data b v)" "capacity (with_data b v) = capacity v"
proof -
  show "capacity (with_data b v) = capacity v"
    using assms by (auto simp: capacity_def with_data_def is_inline_def last_byte_def lg_byte_def)
  then show "rep_ok (with_data b v)"
    using assms by (auto simp: rep_ok_def with_data_def is_inline_def last_byte_def vector_data_def capacity_def)
qed

lemma set_size_wf:
  assumes "rep_ok v" "n \<le> capacity v"
  obtains v' where "set_size_internal n v = Inr v'" "rep_ok v'" "capacity v' = capacity v" "vector_size v' = n"
    "vector_data v' = vector_data v" "is_inline v' = is_inline v" "iv_inline v' = iv_inline v"
proof (cases "is_inline v")
  case True
  then have n: "n < 255" using assms by (simp add: rep_ok_def capacity_def)
  then have u: "unat (word_of_nat n :: 8 word) = n" by (simp add: unsigned_of_nat take_bit_nat_eq_self)
  let ?v = "set_last_byte (word_of_nat n) v"
  have ne: "(word_of_nat n :: 8 word) \<noteq> 255" using n u by auto
  show thesis
  proof (rule that)
    show "set_size_internal n v = Inr ?v" using True n by (simp add: set_size_internal_def kSentinel_def)
    show "is_inline ?v = is_inline v" using True ne by (simp add: is_inline_def kSentinel_def)
    with True show "capacity ?v = capacity v" "vector_data ?v = vector_data v" by (simp_all add: capacity_def vector_data_def)
    with \<open>is_inline ?v = is_inline v\<close> assms(1) show "rep_ok ?v" by (simp add: rep_ok_def)
    show "vector_size ?v = n" using ne u by (simp add: vector_size_def kSentinel_def)
  qed simp
next
  case False
  define w where "w = word_of_nat n OR push_bit 48 (ucast (lg_byte v)) OR push_bit 56 (ucast kSentinel :: 64 word)"
  let ?v = "v\<lparr>iv_word := w\<rparr>"
  have n: "n < 2 ^ 48" using assms by (simp add: rep_ok_def)
  note parts = word_parts [OF size_bits(1) [OF n], of "lg_byte v" kSentinel, folded w_def]
  have bytes: "last_byte ?v = kSentinel" "lg_byte ?v = lg_byte v"
    using parts(1,2) by (simp_all add: last_byte_def lg_byte_def)
  show thesis
  proof (rule that)
    show "set_size_internal n v = Inr ?v" using False bytes(1) by (simp add: set_size_internal_def w_def)
    show inl: "is_inline ?v = is_inline v" using False bytes(1) by (simp add: is_inline_def)
    with False bytes(2) show "capacity ?v = capacity v" "vector_data ?v = vector_data v" by (simp_all add: capacity_def vector_data_def)
    with inl assms(1) show "rep_ok ?v" by (simp add: rep_ok_def)
    show "vector_size ?v = n" using bytes(1) parts(3) size_bits(2) [OF n] by (simp add: vector_size_def)
  qed simp
qed

section \<open>The algorithms\<close>

text \<open>A block as a function of the place.\<close>

definition tab :: "(nat \<Rightarrow> 'a option) \<Rightarrow> nat \<Rightarrow> 'a block" where
  "tab f c = map f [0..<c]"

lemma length_tab [simp]: "length (tab f c) = c"
  by (simp add: tab_def)

lemma tab_cong: "(\<And>j. j < c \<Longrightarrow> f j = g j) \<Longrightarrow> tab f c = tab g c"
  by (simp add: tab_def)

lemma places:
  assumes "i < c"
  shows "f i = Some x \<Longrightarrow> get_place i (tab f c) = Inr x"
    "construct i y (tab f c) = Inr (tab (f(i := Some y)) c)"
    "f i = Some x \<Longrightarrow> assign_place i y (tab f c) = Inr (tab (f(i := Some y)) c)"
    "f i = Some x \<Longrightarrow> destroy i (tab f c) = Inr (tab (f(i := None)) c)"
proof -
  have upd: "(tab f c)[i := z] = tab (f(i := z)) c" for z
    by (rule nth_equalityI) (auto simp: tab_def nth_list_update)
  show "f i = Some x \<Longrightarrow> get_place i (tab f c) = Inr x" using assms by (simp add: get_place_def tab_def)
  then show "f i = Some x \<Longrightarrow> assign_place i y (tab f c) = Inr (tab (f(i := Some y)) c)"
    "f i = Some x \<Longrightarrow> destroy i (tab f c) = Inr (tab (f(i := None)) c)"
    by (simp_all add: assign_place_def destroy_def upd)
  show "construct i y (tab f c) = Inr (tab (f(i := Some y)) c)" using assms by (simp add: construct_def upd)
qed

lemma Destroy_tab:
  assumes "a + n \<le> c" "n < 2 ^ 31" "\<And>j. a \<le> j \<Longrightarrow> j < a + n \<Longrightarrow> f j \<noteq> None"
  shows "Destroy a n (tab f c) = Inr (tab (\<lambda>j. if a \<le> j \<and> j < a + n then None else f j) c)"
proof -
  have "sint (word_of_nat n :: 32 word) = int n"
    using assms(2) by (simp add: signed_of_nat signed_take_bit_int_eq_self)
  moreover have "for_each [a..<a + n] destroy (tab (\<lambda>j. if a \<le> j \<and> j < a then None else f j) c) =
      Inr (tab (\<lambda>j. if a \<le> j \<and> j < a + n then None else f j) c)"
  proof (rule for_each_from)
    fix i assume i: "a \<le> i" "i < a + n"
    then obtain x where "f i = Some x" using assms(3) by blast
    then show "destroy i (tab (\<lambda>j. if a \<le> j \<and> j < i then None else f j) c) =
        Inr (tab (\<lambda>j. if a \<le> j \<and> j < Suc i then None else f j) c)"
      using i assms(1) by (subst places(4)) (auto intro!: tab_cong)
  qed simp
  moreover have "tab (\<lambda>j. if a \<le> j \<and> j < a then None else f j) c = tab f c" by (rule tab_cong) auto
  ultimately show ?thesis by (simp add: Destroy_def Let_def)
qed

lemma Move_tab:
  assumes "n \<le> c" "n \<le> d" "\<And>j. j < n \<Longrightarrow> f j \<noteq> None"
  shows "Move (tab f c) n (tab g d) = Inr (tab (\<lambda>j. if j < n then f j else g j) d)"
proof -
  have "for_each [0..<n] (\<lambda>i dst. and_then (get_place i (tab f c)) (\<lambda>x. construct i x dst))
      (tab (\<lambda>j. if j < 0 then f j else g j) d) = Inr (tab (\<lambda>j. if j < n then f j else g j) d)"
  proof (rule for_each_from)
    fix i assume i: "i < n"
    then obtain x where x: "f i = Some x" using assms(3) by blast
    show "and_then (get_place i (tab f c)) (\<lambda>x. construct i x (tab (\<lambda>j. if j < i then f j else g j) d)) =
        Inr (tab (\<lambda>j. if j < Suc i then f j else g j) d)"
      using i assms(1,2) x by (subst places(1)) (auto simp: places(2) intro!: tab_cong)
  qed simp
  then show ?thesis by (simp add: Move_def)
qed

lemma Fill_tab:
  assumes "d + n \<le> c"
    "\<And>i. i < n \<Longrightarrow> src i (tab (\<lambda>j. if d \<le> j \<and> j < d + i then Some (xs (j - d)) else f j) c) = Inr (xs i)"
  shows "Fill src n d (tab f c) = Inr (tab (\<lambda>j. if d \<le> j \<and> j < d + n then Some (xs (j - d)) else f j) c)"
proof -
  have "for_each [0..<n] (\<lambda>i b. and_then (src i b) (\<lambda>x. construct (d + i) x b))
      (tab (\<lambda>j. if d \<le> j \<and> j < d + 0 then Some (xs (j - d)) else f j) c) =
      Inr (tab (\<lambda>j. if d \<le> j \<and> j < d + n then Some (xs (j - d)) else f j) c)"
  proof (rule for_each_from)
    fix i assume i: "i < n"
    then have "d + i < c" using assms(1) by simp
    then show "and_then (src i (tab (\<lambda>j. if d \<le> j \<and> j < d + i then Some (xs (j - d)) else f j) c))
        (\<lambda>x. construct (d + i) x (tab (\<lambda>j. if d \<le> j \<and> j < d + i then Some (xs (j - d)) else f j) c)) =
        Inr (tab (\<lambda>j. if d \<le> j \<and> j < d + Suc i then Some (xs (j - d)) else f j) c)"
      using assms(2) [OF i] by (auto simp: places(2) intro!: tab_cong)
  qed simp
  moreover have "tab (\<lambda>j. if d \<le> j \<and> j < d + 0 then Some (xs (j - d)) else f j) c = tab f c" by (rule tab_cong) auto
  ultimately show ?thesis by (simp add: Fill_def)
qed

lemma copy_down_tab:
  assumes "a \<le> s" "s + n \<le> c" "\<And>j. a \<le> j \<Longrightarrow> j < s + n \<Longrightarrow> f j \<noteq> None"
  shows "copy_down a s n (tab f c) = Inr (tab (\<lambda>j. if a \<le> j \<and> j < a + n then f (j + (s - a)) else f j) c)"
proof -
  have "for_each [0..<n] (\<lambda>i. copy_place (a + i) (s + i)) (tab (\<lambda>j. if a \<le> j \<and> j < a + 0 then f (j + (s - a)) else f j) c) =
      Inr (tab (\<lambda>j. if a \<le> j \<and> j < a + n then f (j + (s - a)) else f j) c)"
  proof (rule for_each_from)
    fix i assume i: "i < n"
    let ?g = "\<lambda>j. if a \<le> j \<and> j < a + i then f (j + (s - a)) else f j"
    obtain x y where xy: "f (s + i) = Some x" "f (a + i) = Some y"
      using assms(3) [of "s + i"] assms(3) [of "a + i"] assms(1) i by auto
    then have g: "?g (s + i) = Some x" "?g (a + i) = Some y" using assms(1) by auto
    have "get_place (s + i) (tab ?g c) = Inr x" by (rule places(1)) (use assms i g in auto)
    moreover have "assign_place (a + i) x (tab ?g c) = Inr (tab (?g(a + i := Some x)) c)"
      by (rule places(3)) (use assms i g in auto)
    ultimately show "copy_place (a + i) (s + i) (tab ?g c) =
        Inr (tab (\<lambda>j. if a \<le> j \<and> j < a + Suc i then f (j + (s - a)) else f j) c)"
      using xy(1) assms(1) by (auto simp: copy_place_def algebra_simps intro!: tab_cong)
  qed simp
  moreover have "tab (\<lambda>j. if a \<le> j \<and> j < a + 0 then f (j + (s - a)) else f j) c = tab f c" by (rule tab_cong) auto
  ultimately show ?thesis by (simp add: copy_down_def)
qed

lemma copy_backward_tab:
  assumes "m < c" "\<And>j. a \<le> j \<Longrightarrow> j \<le> m \<Longrightarrow> f j \<noteq> None"
  shows "a \<le> m \<Longrightarrow> copy_backward a m (tab f c) = Inr (tab (\<lambda>j. if a < j \<and> j \<le> m then f (j - 1) else f j) c)"
proof -
  define moved where "moved i = tab (\<lambda>j. if i < j \<and> j \<le> m then f (j - 1) else f j) c" for i
  have "for_each (rev [i..<m]) (\<lambda>i. copy_place (i + 1) i) (moved m) = Inr (moved i)" if "a \<le> i" "i \<le> m" for i
    using that(2,1)
  proof (induction rule: inc_induct)
    case (step i)
    let ?g = "\<lambda>j. if Suc i < j \<and> j \<le> m then f (j - 1) else f j"
    obtain x y where xy: "f i = Some x" "f (i + 1) = Some y" using assms(2) [of i] assms(2) [of "i + 1"] step by auto
    have "get_place i (tab ?g c) = Inr x" by (rule places(1)) (use xy step assms in auto)
    moreover have "assign_place (i + 1) x (tab ?g c) = Inr (tab (?g(i + 1 := Some x)) c)"
      by (rule places(3)) (use xy step assms in auto)
    moreover have "tab (?g(i + 1 := Some x)) c = moved i"
      unfolding moved_def using xy step by (auto intro!: tab_cong)
    ultimately have "copy_place (i + 1) i (moved (Suc i)) = Inr (moved i)" by (simp add: copy_place_def moved_def)
    with step show ?case by (simp add: upt_conv_Cons for_each_append)
  qed simp
  moreover have "moved m = tab f c" unfolding moved_def by (rule tab_cong) auto
  ultimately show "a \<le> m \<Longrightarrow> ?thesis" by (simp add: copy_backward_def) (simp add: moved_def)
qed

section \<open>Growing\<close>

definition entry :: "'a list \<Rightarrow> nat \<Rightarrow> 'a option" where
  "entry xs j = (if j < length xs then Some (xs ! j) else None)"

lemma cells_tab: "length xs \<le> c \<Longrightarrow> cells xs c = tab (entry xs) c"
  by (rule nth_equalityI) (auto simp: cells_def tab_def entry_def nth_append)

lemma tab_cells: "length ys \<le> c \<Longrightarrow> (\<And>j. j < c \<Longrightarrow> f j = entry ys j) \<Longrightarrow> tab f c = cells ys c"
  by (simp add: cells_tab) (rule tab_cong)

lemma length_cells [simp]: "length xs \<le> c \<Longrightarrow> length (cells xs c) = c"
  by (simp add: cells_def)

lemma cells_Nil: "cells [] c = replicate c None"
  by (simp add: cells_def)

lemma holdsD:
  assumes "holds v xs"
  shows "rep_ok v" "vector_size v = length xs" "length xs \<le> capacity v" "vector_data v = cells xs (capacity v)" "length xs \<le> 2 ^ 31"
  using assms by (simp_all add: holds_def rep_ok_def)

lemma sized:
  assumes "rep_ok v" "vector_data v = cells ys (capacity v)" "length ys \<le> capacity v"
  obtains v' where "set_size_internal (length ys) v = Inr v'" "holds v' ys" "capacity v' = capacity v"
  using set_size_wf [OF assms(1,3)] assms by (auto simp: holds_def)

lemma with_cells:
  assumes "rep_ok v" "length ys \<le> capacity v"
  shows "rep_ok (with_data (cells ys (capacity v)) v)" "capacity (with_data (cells ys (capacity v)) v) = capacity v"
  using with_data_wf [OF assms(1), of "cells ys (capacity v)"] assms(2) by simp_all

text \<open>An algorithm on the places, then the new size.\<close>

lemma update_sized:
  assumes "rep_ok v" "f (vector_data v) = Inr (cells ys (capacity v))" "length ys \<le> capacity v"
  obtains v' where "and_then (on_elements f v) (set_size_internal (length ys)) = Inr v'" "holds v' ys" "capacity v' = capacity v"
proof -
  have "rep_ok (with_data (cells ys (capacity v)) v)" "capacity (with_data (cells ys (capacity v)) v) = capacity v"
    using with_cells [OF assms(1,3)] .
  then obtain v' where "set_size_internal (length ys) (with_data (cells ys (capacity v)) v) = Inr v'"
      "holds v' ys" "capacity v' = capacity v"
    using sized [of "with_data (cells ys (capacity v)) v" ys] assms(3) by auto
  then show thesis by (intro that [of v']) (simp_all add: on_elements_eq assms(2))
qed

lemma find_target_ok:
  assumes "fit \<le> 2 ^ 31" "n \<le> 2 ^ 31" "lg \<le> 31"
  shows "\<exists>t. find_target fit n lg = Inr t \<and> t \<le> 31 \<and> n \<le> 2 ^ t \<and> fit \<le> 2 ^ t"
  using assms(3)
proof (induction "31 - lg" arbitrary: lg rule: less_induct)
  case less
  show ?case
  proof (cases "2 ^ lg < fit \<or> 2 ^ lg < n")
    case True
    then have "(2 :: nat) ^ lg < 2 ^ 31" using assms(1,2) by auto
    then have "lg < 31" by (rule power_less_imp_less_exp [rotated]) simp
    with less.hyps [of "lg + 1"] True show ?thesis by (subst find_target.simps) simp
  next
    case False
    with less.prems show ?thesis by (subst find_target.simps) auto
  qed
qed

lemma DiscardStorage_ok:
  assumes "holds v xs" "length xs < 2 ^ 31"
  obtains v' where "DiscardStorage v = Inr v'" "iv_inline v' = replicate (length (iv_inline v)) None"
    "last_byte v' = last_byte v"
proof -
  note h = holdsD [OF assms(1)]
  have "Destroy 0 (length xs) (cells xs (capacity v)) = Inr (cells [] (capacity v))"
    unfolding cells_tab [OF h(3)] using h(3) assms(2)
    by (subst Destroy_tab) (auto simp: entry_def intro!: tab_cells)
  then have "on_elements (Destroy 0 (vector_size v)) v = Inr (with_data (cells [] (capacity v)) v)"
    by (simp add: on_elements_eq h)
  moreover have "iv_inline (with_data (cells [] (capacity v)) v) = replicate (length (iv_inline v)) None"
    using h(1) by (auto simp: with_data_def rep_ok_def cells_Nil capacity_def)
  ultimately show thesis
    by (intro that [of "if is_inline v then with_data (cells [] (capacity v)) v
        else (with_data (cells [] (capacity v)) v)\<lparr>iv_heap := []\<rparr>"])
      (auto simp: DiscardStorage_def last_byte_def)
qed

definition optional_list :: "'a option \<Rightarrow> 'a list" where
  "optional_list z = (case z of None \<Rightarrow> [] | Some x \<Rightarrow> [x])"

lemma heap_update:
  "set_size_internal n (v\<lparr>iv_heap := b\<rparr>) = and_then (set_size_internal n v) (\<lambda>v. Inr (v\<lparr>iv_heap := b\<rparr>))"
  "capacity (v\<lparr>iv_heap := b\<rparr>) = capacity v" "is_inline (v\<lparr>iv_heap := b\<rparr>) = is_inline v"
  by (simp_all add: set_size_internal_def set_last_byte_def is_inline_def last_byte_def lg_byte_def capacity_def Let_def)

lemma Grow_ok:
  assumes "holds v xs" "n \<le> 2 ^ 31" "length (xs @ optional_list z) \<le> n" "length xs < 2 ^ 31"
  obtains v' where "Grow True n z v = Inr v'" "rep_ok v'" "n \<le> capacity v'" "vector_size v' = length xs"
    "vector_data v' = cells (xs @ optional_list z) (capacity v')" "iv_inline v' = replicate (length (iv_inline v)) None"
proof -
  note h = holdsD [OF assms(1)]
  have fit: "length (iv_inline v) \<le> 254" using h(1) by (simp add: rep_ok_def)
  then have "length (iv_inline v) \<le> 2 ^ 31" by simp
  then obtain t where t: "find_target (length (iv_inline v)) n 0 = Inr t" "t \<le> 31" "n \<le> 2 ^ t" "length (iv_inline v) \<le> 2 ^ t"
    using find_target_ok [OF _ assms(2), of "length (iv_inline v)" 0] by auto
  define g where "g = (\<lambda>j. if j = length xs then z else None)"
  have len: "length xs \<le> 2 ^ t" "length (xs @ optional_list z) \<le> 2 ^ t" using assms(3) t(3) by (simp_all add: optional_list_def)
  have dst: "(case z of None \<Rightarrow> Inr (replicate (2 ^ t) None) | Some x \<Rightarrow> construct (length xs) x (replicate (2 ^ t) None)) =
      Inr (tab g (2 ^ t))"
  proof (cases z)
    case None
    then show ?thesis by (auto simp: g_def tab_def intro!: nth_equalityI)
  next
    case (Some x)
    then have "length xs < 2 ^ t" using len(2) by (simp add: optional_list_def)
    moreover have empty: "replicate (2 ^ t) None = tab (\<lambda>_. None) (2 ^ t)" by (auto simp: tab_def intro!: nth_equalityI)
    ultimately have "construct (length xs) x (replicate (2 ^ t) None) = Inr (tab ((\<lambda>_. None)(length xs := Some x)) (2 ^ t))"
      by (simp only: empty places(2))
    also have "tab ((\<lambda>_. None)(length xs := Some x)) (2 ^ t) = tab g (2 ^ t)" by (rule tab_cong) (simp add: g_def Some)
    finally show ?thesis using Some by simp
  qed
  have moved: "Move (cells xs (capacity v)) (length xs) (tab g (2 ^ t)) = Inr (cells (xs @ optional_list z) (2 ^ t))"
    unfolding cells_tab [OF h(3)] using h(3) len
    by (subst Move_tab) (auto simp: entry_def g_def optional_list_def nth_append split: option.splits intro!: tab_cells)
  obtain w where w: "DiscardStorage v = Inr w" "iv_inline w = replicate (length (iv_inline v)) None"
    using DiscardStorage_ok [OF assms(1,4)] by blast
  define u where "u = set_lg_byte (word_of_nat t) (set_last_byte kSentinel w)"
  have u: "\<not> is_inline u" "lg_byte u = word_of_nat t" "iv_inline u = replicate (length (iv_inline v)) None"
    by (simp_all add: u_def is_inline_def w(2))
  have ut: "unat (word_of_nat t :: 8 word) = t" using t(2) by (simp add: unsigned_of_nat take_bit_nat_eq_self)
  have cap: "unat (push_bit t 1 :: 64 word) = 2 ^ t"
  proof -
    have "(2 :: nat) ^ t < 2 ^ LENGTH(64)" using t(2) by (intro power_strict_increasing) simp_all
    then show ?thesis
      unfolding unsigned_push_bit_eq by (simp only: unsigned_1 push_bit_eq_mult mult_1 take_bit_nat_eq_self)
  qed
  then have capu: "capacity u = 2 ^ t" using u ut by (simp add: capacity_def)
  let ?dst = "cells (xs @ optional_list z) (2 ^ t)"
  have two: "(2 :: nat) ^ t \<le> 2 ^ 31" using t(2) by (intro power_increasing) simp_all
  have "rep_ok (u\<lparr>iv_heap := ?dst\<rparr>)"
    using u fit capu len(2) two by (simp add: rep_ok_def heap_update vector_data_def)
  moreover have "length xs \<le> capacity (u\<lparr>iv_heap := ?dst\<rparr>)" using capu len(1) by (simp add: heap_update)
  ultimately obtain r where r: "set_size_internal (length xs) (u\<lparr>iv_heap := ?dst\<rparr>) = Inr r" "rep_ok r"
      "capacity r = capacity (u\<lparr>iv_heap := ?dst\<rparr>)" "vector_size r = length xs"
      "vector_data r = vector_data (u\<lparr>iv_heap := ?dst\<rparr>)" "iv_inline r = iv_inline (u\<lparr>iv_heap := ?dst\<rparr>)"
    by (rule set_size_wf)
  from r(1) obtain q where q: "set_size_internal (length xs) u = Inr q" "r = q\<lparr>iv_heap := ?dst\<rparr>"
    unfolding heap_update(1) and_then_eq_Inr by blast
  have capr: "capacity r = 2 ^ t" using r(3) capu by (simp add: heap_update)
  then have capq: "capacity q = 2 ^ t" unfolding q(2) heap_update(2) .
  show thesis
  proof (rule that)
    show "Grow True n z v = Inr r"
      using h t(1) dst moved w(1) q capq by (simp add: Grow_def Let_def u_def)
    show "rep_ok r" "vector_size r = length xs" by (rule r)+
    show "n \<le> capacity r" using capr t(3) by simp
    show "vector_data r = cells (xs @ optional_list z) (capacity r)"
      unfolding r(5) capr using u(1) by (simp add: vector_data_def heap_update)
    show "iv_inline r = replicate (length (iv_inline v)) None" unfolding r(6) using u(3) by simp
  qed
qed

lemma Grow_holds:
  assumes "holds v xs" "n \<le> 2 ^ 31" "length xs \<le> n" "length xs < 2 ^ 31"
  obtains v' where "Grow True n None v = Inr v'" "holds v' xs" "n \<le> capacity v'"
proof -
  obtain v' where "Grow True n None v = Inr v'" "rep_ok v'" "n \<le> capacity v'" "vector_size v' = length xs"
      "vector_data v' = cells (xs @ optional_list None) (capacity v')"
    by (rule Grow_ok [of v xs n None]) (use assms in \<open>simp_all add: optional_list_def\<close>)
  then show thesis using assms(3) by (intro that [of v']) (simp_all add: holds_def optional_list_def)
qed

section \<open>The operations\<close>

lemma reserve_ok:
  assumes "holds v xs" "n \<le> 2 ^ 31" "length xs < 2 ^ 31"
  obtains v' where "reserve n v = Inr v'" "holds v' xs" "n \<le> capacity v'"
proof (cases "capacity v < n")
  case True
  then have "length xs \<le> n" using holdsD(3) [OF assms(1)] by simp
  then obtain v' where "Grow True n None v = Inr v'" "holds v' xs" "n \<le> capacity v'"
    using Grow_holds [OF assms(1,2) _ assms(3)] by blast
  with True show thesis by (intro that [of v']) (simp_all add: reserve_def)
next
  case False
  with assms(1) show thesis by (intro that [of v]) (simp_all add: reserve_def)
qed

lemma emplace_back_ok:
  assumes "holds v xs" "length xs + 1 < 2 ^ 31"
  obtains v' where "emplace_back x v = Inr v'" "holds v' (xs @ [x])"
proof (cases "length xs < capacity v")
  case True
  note h = holdsD [OF assms(1)]
  have "construct (length xs) x (vector_data v) = Inr (cells (xs @ [x]) (capacity v))"
    unfolding h(4) cells_tab [OF h(3)] using True
    by (subst places(2)) (auto simp: entry_def nth_append intro!: tab_cells)
  then obtain v' where "and_then (on_elements (construct (length xs) x) v) (set_size_internal (length (xs @ [x]))) = Inr v'"
      "holds v' (xs @ [x])"
    using update_sized [OF h(1), of "construct (length xs) x" "xs @ [x]"] True by auto
  with True h show thesis by (intro that [of v']) (simp_all add: emplace_back_def)
next
  case False
  note h = holdsD [OF assms(1)]
  obtain w where w: "Grow True (length xs + 1) (Some x) v = Inr w" "rep_ok w" "length xs + 1 \<le> capacity w"
      "vector_data w = cells (xs @ [x]) (capacity w)"
    using Grow_ok [OF assms(1), of "length xs + 1" "Some x"] assms(2) by (auto simp: optional_list_def)
  then obtain v' where "set_size_internal (length (xs @ [x])) w = Inr v'" "holds v' (xs @ [x])"
    using sized [OF w(2,4)] by auto
  with False h w show thesis by (intro that [of v']) (simp_all add: emplace_back_def EmplaceBackSlow_def)
qed

text \<open>What a reference is to, and whether it is there.\<close>

definition referent :: "'a list \<Rightarrow> 'a reference \<Rightarrow> 'a" where
  "referent xs r = (case r of Outside x \<Rightarrow> x | Element i \<Rightarrow> xs ! i)"

definition refers :: "'a list \<Rightarrow> 'a reference \<Rightarrow> bool" where
  "refers xs r \<longleftrightarrow> (case r of Outside x \<Rightarrow> True | Element i \<Rightarrow> i < length xs)"

lemma get_cells: "i < length xs \<Longrightarrow> length xs \<le> c \<Longrightarrow> get_place i (cells xs c) = Inr (xs ! i)"
  by (simp add: cells_tab places(1) entry_def)

lemma push_back_ok:
  assumes "holds v xs" "length xs + 1 < 2 ^ 31" "refers xs r"
  obtains v' where "push_back r v = Inr v'" "holds v' (xs @ [referent xs r])"
proof -
  note h = holdsD [OF assms(1)]
  have "deref False r (vector_data v) = Inr (referent xs r)"
    using assms(3) h by (auto simp: deref_def refers_def referent_def get_cells split: reference.splits)
  moreover obtain v' where "emplace_back (referent xs r) v = Inr v'" "holds v' (xs @ [referent xs r])"
    by (rule emplace_back_ok [OF assms(1,2)])
  ultimately show thesis by (intro that [of v']) (simp_all add: push_back_def)
qed

lemma Destroy_cells:
  assumes "length ys \<le> length xs" "ys = take (length ys) xs" "length xs \<le> c" "length xs < 2 ^ 31"
  shows "Destroy (length ys) (length xs - length ys) (cells xs c) = Inr (cells ys c)"
proof -
  have ys: "ys ! j = xs ! j" if "j < length ys" for j using assms(2) that by (metis nth_take)
  show ?thesis
    unfolding cells_tab [OF assms(3)] using assms
    by (subst Destroy_tab) (auto simp: entry_def ys intro!: tab_cells)
qed

lemma shrink_ok:
  assumes "holds v xs" "n \<le> length xs" "length xs < 2 ^ 31"
  obtains v' where "and_then (on_elements (Destroy n (length xs - n)) v) (set_size_internal n) = Inr v'" "holds v' (take n xs)"
proof -
  note h = holdsD [OF assms(1)]
  have len: "length (take n xs) = n" using assms(2) by simp
  have "Destroy n (length xs - n) (vector_data v) = Inr (cells (take n xs) (capacity v))"
    using Destroy_cells [of "take n xs" xs "capacity v"] assms(2,3) h by (simp add: len)
  then show thesis
    using update_sized [OF h(1), of "Destroy n (length xs - n)" "take n xs"] h(3) assms(2) that by (auto simp: len)
qed

lemma pop_back_ok:
  assumes "holds v xs" "xs \<noteq> []" "length xs < 2 ^ 31"
  obtains v' where "pop_back v = Inr v'" "holds v' (butlast xs)"
proof -
  have n: "length xs - 1 \<le> length xs" "length xs - (length xs - 1) = 1" using assms(2) by (cases xs; simp)+
  obtain v' where "and_then (on_elements (Destroy (length xs - 1) 1) v) (set_size_internal (length xs - 1)) = Inr v'"
      "holds v' (butlast xs)"
    using shrink_ok [OF assms(1) n(1) assms(3)] unfolding n(2) butlast_conv_take [symmetric] by blast
  with holdsD(2) [OF assms(1)] assms(2) show thesis by (intro that [of v']) (simp_all add: pop_back_def)
qed

lemma clear_ok:
  assumes "holds v xs" "length xs < 2 ^ 31"
  obtains v' where "clear v = Inr v'" "holds v' []"
proof -
  obtain w where w: "DiscardStorage v = Inr w" "iv_inline w = replicate (length (iv_inline v)) None"
    using DiscardStorage_ok [OF assms] by blast
  let ?v = "set_last_byte 0 w"
  have "holds ?v []"
    using holdsD(1) [OF assms(1)]
    by (simp add: holds_def rep_ok_def is_inline_def kSentinel_def vector_size_def vector_data_def capacity_def w(2) cells_Nil)
  with w(1) show thesis by (intro that [of ?v]) (simp_all add: clear_def)
qed

lemma InitRep_holds: "holds (InitRep N size_of_T) []"
proof -
  have "kFit N size_of_T \<le> 254" by (simp add: kFit_def kSentinel_def Let_def)
  then show ?thesis
    by (simp add: holds_def rep_ok_def InitRep_def is_inline_def last_byte_def kSentinel_def vector_size_def
      vector_data_def capacity_def cells_Nil)
qed

lemma and_then_assoc: "and_then (and_then r f) g = and_then r (\<lambda>x. and_then (f x) g)"
  by (simp add: and_then_def split: sum.split)

lemma on_elements_comp:
  "and_then (on_elements f v) (on_elements g) = on_elements (\<lambda>b. and_then (f b) g) v"
  "and_then (on_elements f v) (\<lambda>v. and_then (on_elements g v) k) = and_then (on_elements (\<lambda>b. and_then (f b) g) v) k"
proof -
  have twice: "with_data c (with_data b v) = with_data c v" for b c
    by (simp add: with_data_def is_inline_def last_byte_def)
  show "and_then (on_elements f v) (on_elements g) = on_elements (\<lambda>b. and_then (f b) g) v"
    "and_then (on_elements f v) (\<lambda>v. and_then (on_elements g v) k) = and_then (on_elements (\<lambda>b. and_then (f b) g) v) k"
    by (auto simp: on_elements_eq and_then_def twice split: sum.splits)
qed

lemma on_elements_cells:
  assumes "holds v xs" "f (cells xs (capacity v)) = Inr (cells ys (capacity v))" "length ys = length xs"
  obtains v' where "on_elements f v = Inr v'" "holds v' ys" "capacity v' = capacity v"
proof -
  note h = holdsD [OF assms(1)]
  let ?v = "with_data (cells ys (capacity v)) v"
  have "rep_ok ?v" "capacity ?v = capacity v" using with_cells [OF h(1), of ys] h(3) assms(3) by simp_all
  then have "holds ?v ys" using h assms(3) by (simp add: holds_def)
  then show thesis using \<open>capacity ?v = _\<close> by (intro that [of ?v]) (simp_all add: on_elements_eq h(4) assms(2))
qed

text \<open>What the places hold when \<open>insert\<close> has made room, before it assigns the new element.\<close>

definition shifted :: "nat \<Rightarrow> 'a list \<Rightarrow> nat \<Rightarrow> 'a option" where
  "shifted pos xs j = (if pos < j \<and> j \<le> length xs then entry xs (j - 1) else entry xs j)"

definition room_at :: "nat \<Rightarrow> nat \<Rightarrow> 'a block \<Rightarrow> fault + 'a block" where
  "room_at pos s b = and_then (and_then (get_place (s - 1) b) (\<lambda>x. construct s x b)) (copy_backward pos (s - 1))"

lemma room_ok:
  assumes "pos < length xs" "length xs < c"
  shows "room_at pos (length xs) (cells xs c) = Inr (tab (shifted pos xs) c)"
proof -
  let ?s = "length xs"
  let ?f1 = "(entry xs)(?s := Some (xs ! (?s - 1)))"
  have "and_then (get_place (?s - 1) (cells xs c)) (\<lambda>x. construct ?s x (cells xs c)) = Inr (tab ?f1 c)"
    using assms by (simp add: get_cells) (simp add: cells_tab places(2))
  moreover have "copy_backward pos (?s - 1) (tab ?f1 c) = Inr (tab (\<lambda>j. if pos < j \<and> j \<le> ?s - 1 then ?f1 (j - 1) else ?f1 j) c)"
    by (rule copy_backward_tab) (use assms in \<open>auto simp: entry_def\<close>)
  moreover have "tab (\<lambda>j. if pos < j \<and> j \<le> ?s - 1 then ?f1 (j - 1) else ?f1 j) c = tab (shifted pos xs) c"
  proof (rule tab_cong)
    fix j
    show "(if pos < j \<and> j \<le> ?s - 1 then ?f1 (j - 1) else ?f1 j) = shifted pos xs j"
      using assms(1) by (cases "j = ?s") (auto simp: shifted_def entry_def)
  qed
  ultimately show ?thesis by (simp add: room_at_def)
qed

lemma assign_shifted:
  assumes "pos < length xs" "length xs < c"
  shows "assign_place pos x (tab (shifted pos xs) c) = Inr (cells (take pos xs @ x # drop pos xs) c)"
proof -
  have "assign_place pos x (tab (shifted pos xs) c) = Inr (tab ((shifted pos xs)(pos := Some x)) c)"
    by (rule places(3) [where x = "xs ! pos"]) (use assms in \<open>auto simp: shifted_def entry_def\<close>)
  also have "tab ((shifted pos xs)(pos := Some x)) c = cells (take pos xs @ x # drop pos xs) c"
  proof (rule tab_cells)
    fix j
    show "((shifted pos xs)(pos := Some x)) j = entry (take pos xs @ x # drop pos xs) j"
      using assms(1) by (cases "j < pos"; cases "j = pos") (auto simp: shifted_def entry_def nth_append nth_Cons' Suc_diff_Suc)
  qed (use assms in simp)
  finally show ?thesis .
qed

lemma insert_with_room:
  assumes "holds w xs" "pos < length xs" "length xs < capacity w"
  shows "deref grown r (tab (shifted pos xs) (capacity w)) = Inr x \<Longrightarrow>
      \<exists>v'. and_then (on_elements (\<lambda>b. and_then (get_place (length xs - 1) b) (\<lambda>x. construct (length xs) x b)) w) (\<lambda>v.
        and_then (on_elements (copy_backward pos (length xs - 1)) v) (\<lambda>v.
        and_then (on_elements (\<lambda>b. and_then (deref grown r b) (\<lambda>x. assign_place pos x b)) v) (\<lambda>v.
        and_then (set_size_internal (length xs + 1) v) (\<lambda>v. Inr (pos, v))))) = Inr (pos, v') \<and>
      holds v' (take pos xs @ x # drop pos xs)"
    "deref grown r (tab (shifted pos xs) (capacity w)) = Inl e \<Longrightarrow>
      and_then (on_elements (\<lambda>b. and_then (get_place (length xs - 1) b) (\<lambda>x. construct (length xs) x b)) w) (\<lambda>v.
        and_then (on_elements (copy_backward pos (length xs - 1)) v) (\<lambda>v.
        and_then (on_elements (\<lambda>b. and_then (deref grown r b) (\<lambda>x. assign_place pos x b)) v) (\<lambda>v.
        and_then (set_size_internal (length xs + 1) v) (\<lambda>v. Inr (pos, v))))) = Inl e"
proof -
  note h = holdsD [OF assms(1)] and room = room_ok [OF assms(2,3), unfolded room_at_def]
  let ?f = "\<lambda>b. and_then (and_then (and_then (get_place (length xs - 1) b) (\<lambda>x. construct (length xs) x b))
      (copy_backward pos (length xs - 1))) (\<lambda>b. and_then (deref grown r b) (\<lambda>x. assign_place pos x b))"
  let ?ys = "\<lambda>x. take pos xs @ x # drop pos xs"
  have len: "length (?ys x) = length xs + 1" for x using assms(2) by simp
  {
    assume d: "deref grown r (tab (shifted pos xs) (capacity w)) = Inr x"
    have f: "?f (vector_data w) = Inr (cells (?ys x) (capacity w))"
      unfolding h(4) room by (simp only: and_then_simps d assign_shifted [OF assms(2,3)])
    have fits: "length (?ys x) \<le> capacity w" unfolding len using assms(3) by simp
    obtain v' where "and_then (on_elements ?f w) (set_size_internal (length (?ys x))) = Inr v'" "holds v' (?ys x)"
      by (rule update_sized [where f = ?f, OF h(1) f fits])
    then show "\<exists>v'. and_then (on_elements (\<lambda>b. and_then (get_place (length xs - 1) b) (\<lambda>x. construct (length xs) x b)) w) (\<lambda>v.
        and_then (on_elements (copy_backward pos (length xs - 1)) v) (\<lambda>v.
        and_then (on_elements (\<lambda>b. and_then (deref grown r b) (\<lambda>x. assign_place pos x b)) v) (\<lambda>v.
        and_then (set_size_internal (length xs + 1) v) (\<lambda>v. Inr (pos, v))))) = Inr (pos, v') \<and> holds v' (?ys x)"
      unfolding on_elements_comp(2) len and_then_assoc by (auto simp: and_then_eq_Inr)
  next
    assume d: "deref grown r (tab (shifted pos xs) (capacity w)) = Inl e"
    have "?f (vector_data w) = Inl e" unfolding h(4) room by (simp only: and_then_simps d)
    then have "on_elements ?f w = Inl e" by (simp only: on_elements_eq and_then_simps)
    then show "and_then (on_elements (\<lambda>b. and_then (get_place (length xs - 1) b) (\<lambda>x. construct (length xs) x b)) w) (\<lambda>v.
        and_then (on_elements (copy_backward pos (length xs - 1)) v) (\<lambda>v.
        and_then (on_elements (\<lambda>b. and_then (deref grown r b) (\<lambda>x. assign_place pos x b)) v) (\<lambda>v.
        and_then (set_size_internal (length xs + 1) v) (\<lambda>v. Inr (pos, v))))) = Inl e"
      unfolding on_elements_comp(2) and_then_assoc by simp
  }
qed

lemma room_for_one:
  assumes "holds v xs" "length xs + 1 < 2 ^ 31"
  obtains w where "(if length xs = capacity v then Grow True (length xs + 1) None v else Inr v) = Inr w" "holds w xs"
    "length xs < capacity w"
proof (cases "length xs = capacity v")
  case True
  obtain w where "Grow True (length xs + 1) None v = Inr w" "holds w xs" "length xs + 1 \<le> capacity w"
    using Grow_holds [OF assms(1), of "length xs + 1"] assms(2) by auto
  with True show thesis by (intro that [of w]) simp_all
next
  case False
  with holdsD(3) [OF assms(1)] assms(1) show thesis by (intro that [of v]) simp_all
qed

lemma insert_ok:
  assumes "holds v xs" "pos \<le> length xs" "length xs + 1 < 2 ^ 31"
  obtains v' where "insert_at pos (Outside x) v = Inr (pos, v')" "holds v' (take pos xs @ x # drop pos xs)"
proof (cases "pos = length xs")
  case True
  obtain v' where v': "push_back (Outside x) v = Inr v'" "holds v' (xs @ [x])"
    using push_back_ok [OF assms(1,3), of "Outside x"] by (auto simp: refers_def referent_def)
  with True holdsD(2) [OF assms(1)] holdsD(2) [OF v'(2)] show thesis
    by (intro that [of v']) (simp_all add: insert_at_def)
next
  case False
  then have pos: "pos < length xs" using assms(2) by simp
  obtain w where w: "(if length xs = capacity v then Grow True (length xs + 1) None v else Inr v) = Inr w" "holds w xs"
      "length xs < capacity w" by (rule room_for_one [OF assms(1,3)])
  have "deref (length xs = capacity v) (Outside x) (tab (shifted pos xs) (capacity w)) = Inr x" by (simp add: deref_def)
  from insert_with_room(1) [OF w(2) pos w(3) this] w holdsD(2) [OF assms(1)] pos show thesis
    by (auto simp: insert_at_def Let_def intro: that)
qed

text \<open>An element of the vector itself, from behind the place where it is inserted.\<close>

lemma insert_own_ok:
  assumes "holds v xs" "pos < i" "i < length xs" "length xs + 1 < 2 ^ 31"
  shows "if length xs = capacity v then insert_at pos (Element i) v = Inl Out_of_bounds
    else \<exists>v'. insert_at pos (Element i) v = Inr (pos, v') \<and> holds v' (take pos xs @ xs ! (i - 1) # drop pos xs)"
proof -
  have pos: "pos < length xs" using assms(2,3) by simp
  obtain w where w: "(if length xs = capacity v then Grow True (length xs + 1) None v else Inr v) = Inr w" "holds w xs"
      "length xs < capacity w" by (rule room_for_one [OF assms(1,4)])
  note size = holdsD(2) [OF assms(1)]
  show ?thesis
  proof (cases "length xs = capacity v")
    case True
    then have "deref (length xs = capacity v) (Element i) (tab (shifted pos xs) (capacity w)) = Inl Out_of_bounds"
      by (simp add: deref_def)
    from insert_with_room(2) [OF w(2) pos w(3) this] w True size pos show ?thesis by (auto simp: insert_at_def Let_def)
  next
    case False
    have "get_place i (tab (shifted pos xs) (capacity w)) = Inr (xs ! (i - 1))"
      by (rule places(1)) (use assms(2,3) w(3) in \<open>auto simp: shifted_def entry_def\<close>)
    then have "deref (length xs = capacity v) (Element i) (tab (shifted pos xs) (capacity w)) = Inr (xs ! (i - 1))"
      using False by (simp add: deref_def)
    from insert_with_room(1) [OF w(2) pos w(3) this] w False size pos show ?thesis by (auto simp: insert_at_def Let_def)
  qed
qed

lemma erase_range_ok:
  assumes "holds v xs" "first \<le> until" "until \<le> length xs" "length xs < 2 ^ 31"
  obtains v' where "erase_range first until v = Inr (first, v')" "holds v' (take first xs @ drop until xs)"
proof -
  note h = holdsD [OF assms(1)]
  let ?n = "length xs - until" and ?c = "capacity v" and ?gap = "until - first"
  let ?ys = "take first xs @ drop until xs @ drop (length xs - ?gap) xs"
  have "copy_down first until ?n (cells xs ?c) = Inr (tab (\<lambda>j. if first \<le> j \<and> j < first + ?n then entry xs (j + (until - first)) else entry xs j) ?c)"
    unfolding cells_tab [OF h(3)] by (rule copy_down_tab) (use assms h(3) in \<open>auto simp: entry_def\<close>)
  also have "tab (\<lambda>j. if first \<le> j \<and> j < first + ?n then entry xs (j + (until - first)) else entry xs j) ?c = cells ?ys ?c"
  proof (rule tab_cells)
    show "length ?ys \<le> ?c" using assms(2,3) h(3) by simp
    fix j
    show "(if first \<le> j \<and> j < first + ?n then entry xs (j + (until - first)) else entry xs j) = entry ?ys j"
      using assms(2,3) by (cases "j < first"; cases "j < first + ?n") (auto simp: entry_def nth_append algebra_simps)
  qed
  finally obtain w where w: "on_elements (copy_down first until ?n) v = Inr w" "holds w ?ys"
    using on_elements_cells [OF assms(1), of _ ?ys] assms(2,3) by auto
  have len: "length ?ys = length xs" "length xs - (length xs - ?gap) = ?gap" "length xs - ?gap \<le> length xs"
    using assms(2,3) by simp_all
  obtain v' where "and_then (on_elements (Destroy (length xs - ?gap) ?gap) w) (set_size_internal (length xs - ?gap)) = Inr v'"
      "holds v' (take (length xs - ?gap) ?ys)"
    using shrink_ok [OF w(2), of "length xs - ?gap"] assms(4) len(3) unfolding len(1,2) by blast
  moreover have "take (length xs - ?gap) ?ys = take first xs @ drop until xs" using assms(2,3) by simp
  ultimately show thesis
    using assms(2,3) h(2) w(1) by (intro that [of v']) (auto simp: erase_range_def Let_def and_then_eq_Inr)
qed

lemma erase_ok:
  assumes "holds v xs" "pos < length xs" "length xs < 2 ^ 31"
  obtains v' where "erase pos v = Inr (pos, v')" "holds v' (take pos xs @ drop (pos + 1) xs)"
proof -
  note h = holdsD [OF assms(1)]
  let ?n = "length xs - (pos + 1)" and ?c = "capacity v"
  let ?ys = "take pos xs @ drop (pos + 1) xs @ [last xs]"
  have "copy_down pos (pos + 1) ?n (cells xs ?c) = Inr (tab (\<lambda>j. if pos \<le> j \<and> j < pos + ?n then entry xs (j + (pos + 1 - pos)) else entry xs j) ?c)"
    unfolding cells_tab [OF h(3)] by (rule copy_down_tab) (use assms h(3) in \<open>auto simp: entry_def\<close>)
  also have "tab (\<lambda>j. if pos \<le> j \<and> j < pos + ?n then entry xs (j + (pos + 1 - pos)) else entry xs j) ?c = cells ?ys ?c"
  proof (rule tab_cells)
    show "length ?ys \<le> ?c" using assms(2) h(3) by simp
    fix j
    have "last xs = xs ! (length xs - 1)" using assms(2) by (cases xs) (simp_all add: last_conv_nth)
    then show "(if pos \<le> j \<and> j < pos + ?n then entry xs (j + (pos + 1 - pos)) else entry xs j) = entry ?ys j"
      using assms(2) by (cases "j < pos"; cases "j < pos + ?n"; cases "j = length xs - 1") (auto simp: entry_def nth_append nth_Cons')
  qed
  finally have copied: "copy_down pos (pos + 1) ?n (cells xs ?c) = Inr (cells ?ys ?c)" .
  have len: "length ?ys = length xs" using assms(2) by simp
  obtain w where w: "on_elements (copy_down pos (pos + 1) ?n) v = Inr w" "holds w ?ys"
    by (rule on_elements_cells [where f = "copy_down pos (pos + 1) ?n", OF assms(1) copied len])
  obtain v' where "pop_back w = Inr v'" "holds v' (butlast ?ys)"
    by (rule pop_back_ok [OF w(2)]) (use assms(3) len in \<open>simp_all only: length_0_conv [symmetric], auto\<close>)
  moreover have "butlast ?ys = take pos xs @ drop (pos + 1) xs" by (simp add: butlast_append)
  ultimately show thesis
    using assms(2) h(2) w(1) by (intro that [of v']) (auto simp: erase_def)
qed

text \<open>New objects behind the last one.\<close>

lemma Fill_cells:
  assumes "length xs + length zs \<le> c" "\<And>i b. i < length zs \<Longrightarrow> src i b = Inr (zs ! i)"
  shows "Fill src (length zs) (length xs) (cells xs c) = Inr (cells (xs @ zs) c)"
proof -
  have "length xs \<le> c" using assms(1) by simp
  then show ?thesis
    unfolding cells_tab [OF \<open>length xs \<le> c\<close>] using assms
    by (subst Fill_tab [where xs = "\<lambda>i. zs ! i"]) (auto simp: entry_def nth_append intro!: tab_cells)
qed

text \<open>The size may be set before the objects are there or after it.\<close>

lemma sized_data:
  assumes "rep_ok v" "f (vector_data v) = Inr (cells ys (capacity v))" "length ys \<le> capacity v"
  obtains v' where "and_then (set_size_internal (length ys) v) (on_elements f) = Inr v'" "holds v' ys" "capacity v' = capacity v"
proof -
  obtain w where w: "set_size_internal (length ys) v = Inr w" "rep_ok w" "capacity w = capacity v" "vector_size w = length ys"
      "vector_data w = vector_data v"
    by (rule set_size_wf [OF assms(1,3)])
  let ?v = "with_data (cells ys (capacity w)) w"
  have le: "length ys \<le> capacity w" using assms(3) w(3) by simp
  have "on_elements f w = Inr ?v" by (simp add: on_elements_eq w(5) assms(2)) (simp add: w(3))
  moreover have "holds ?v ys" "capacity ?v = capacity v"
    using with_cells [OF w(2) le] w(3,4) le by (simp_all add: holds_def)
  ultimately show thesis using w(1) by (intro that [of ?v]) simp_all
qed

lemma resize_ok:
  assumes "holds v xs" "n < 2 ^ 31" "length xs < 2 ^ 31"
  obtains v' where "resize n (Outside x) v = Inr v'" "holds v' (take n xs @ replicate (n - length xs) x)"
proof (cases "n \<le> length xs")
  case True
  obtain v' where "and_then (on_elements (Destroy n (length xs - n)) v) (set_size_internal n) = Inr v'" "holds v' (take n xs)"
    by (rule shrink_ok [OF assms(1) True assms(3)])
  with True holdsD(2) [OF assms(1)] show thesis by (intro that [of v']) (simp_all add: resize_def)
next
  case False
  let ?zs = "replicate (n - length xs) x"
  have n: "n \<le> 2 ^ 31" using assms(2) by simp
  obtain w where w: "reserve n v = Inr w" "holds w xs" "n \<le> capacity w" by (rule reserve_ok [OF assms(1) n assms(3)])
  note h = holdsD [OF w(2)]
  let ?f = "Fill (\<lambda>_. deref (capacity v < n) (Outside x)) (n - length xs) (length xs)"
  have filled: "?f (vector_data w) = Inr (cells (xs @ ?zs) (capacity w))"
    using Fill_cells [of xs ?zs "capacity w" "\<lambda>_. deref (capacity v < n) (Outside x)"] False w(3) by (simp add: h(4) deref_def)
  have len: "length (xs @ ?zs) = n" using False by simp
  have fits: "length (xs @ ?zs) \<le> capacity w" unfolding len by (rule w(3))
  obtain v' where "and_then (set_size_internal (length (xs @ ?zs)) w) (on_elements ?f) = Inr v'" "holds v' (xs @ ?zs)"
    by (rule sized_data [where f = ?f, OF h(1) filled fits])
  with False w holdsD(2) [OF assms(1)] show thesis unfolding len by (intro that [of v']) (simp_all add: resize_def Let_def)
qed

lemma append_input_ok:
  assumes "holds v xs" "length xs + length ys < 2 ^ 31"
  obtains v' where "append_input ys v = Inr v'" "holds v' (xs @ ys)"
proof -
  have "\<exists>v'. for_each ys emplace_back v = Inr v' \<and> holds v' (xs @ ys)"
    using assms
  proof (induction ys arbitrary: v xs)
    case (Cons y ys)
    obtain w where w: "emplace_back y v = Inr w" "holds w (xs @ [y])"
      by (rule emplace_back_ok [OF Cons.prems(1)]) (use Cons.prems(2) in simp_all)
    with Cons.IH [OF w(2)] Cons.prems(2) show ?case by simp
  qed simp
  with that show thesis by (auto simp: append_input_def)
qed

lemma append_forward_ok:
  assumes "holds v xs" "length xs + length ys < 2 ^ 31"
  obtains v' where "append_forward ys v = Inr v'" "holds v' (xs @ ys)"
proof -
  have n: "length xs + length ys \<le> 2 ^ 31" "length xs < 2 ^ 31" using assms(2) by simp_all
  obtain w where w: "reserve (length xs + length ys) v = Inr w" "holds w xs" "length xs + length ys \<le> capacity w"
    by (rule reserve_ok [OF assms(1) n])
  note h = holdsD [OF w(2)]
  let ?f = "Fill (\<lambda>i _. Inr (ys ! i)) (length ys) (length xs)"
  have filled: "?f (vector_data w) = Inr (cells (xs @ ys) (capacity w))"
    unfolding h(4) by (rule Fill_cells [OF w(3)]) (rule refl)
  have fits: "length (xs @ ys) \<le> capacity w" using w(3) by simp
  obtain v' where "and_then (on_elements ?f w) (set_size_internal (length (xs @ ys))) = Inr v'" "holds v' (xs @ ys)"
    by (rule update_sized [where f = ?f, OF h(1) filled fits])
  with w(1) holdsD(2) [OF assms(1)] show thesis by (intro that [of v']) (simp_all add: append_forward_def Let_def)
qed

lemma read_range_ok:
  assumes "holds v xs" "n \<le> length xs"
  shows "read_range 0 n (vector_data v) = Inr (take n xs)"
proof -
  note h = holdsD [OF assms(1)]
  have "for_each [0..<n] (\<lambda>i ys. and_then (get_place i (vector_data v)) (\<lambda>x. Inr (ys @ [x]))) (take 0 xs) = Inr (take n xs)"
    by (rule for_each_from) (use assms(2) h in \<open>simp_all add: get_cells take_Suc_conv_app_nth\<close>)
  then show ?thesis by (simp add: read_range_def)
qed

lemma assign_cells:
  assumes "n \<le> length xs" "n \<le> length ws" "length xs \<le> c"
  shows "for_each [0..<n] (\<lambda>i. assign_place i (ws ! i)) (cells xs c) = Inr (cells (take n ws @ drop n xs) c)"
proof -
  have "for_each [0..<n] (\<lambda>i. assign_place i (ws ! i)) (cells (take 0 ws @ drop 0 xs) c) = Inr (cells (take n ws @ drop n xs) c)"
  proof (rule for_each_from)
    fix i assume i: "i < n"
    let ?ys = "take i ws @ drop i xs"
    have len: "length ?ys = length xs" using assms i by simp
    have "assign_place i (ws ! i) (tab (entry ?ys) c) = Inr (tab ((entry ?ys)(i := Some (ws ! i))) c)"
      by (rule places(3) [where x = "?ys ! i"]) (use assms i len in \<open>auto simp: entry_def\<close>)
    also have "tab ((entry ?ys)(i := Some (ws ! i))) c = cells (take (Suc i) ws @ drop (Suc i) xs) c"
    proof (rule tab_cells)
      have "Suc i \<le> length ws" using assms(2) i by simp
      then show "((entry ?ys)(i := Some (ws ! i))) j = entry (take (Suc i) ws @ drop (Suc i) xs) j" for j
        using assms i by (cases "j < i"; cases "j = i") (auto simp: entry_def nth_append min_absorb2)
    qed (use assms i in simp)
    finally show "assign_place i (ws ! i) (cells ?ys c) = Inr (cells (take (Suc i) ws @ drop (Suc i) xs) c)"
      using cells_tab [of ?ys c] assms(3) len by simp
  qed simp
  then show ?thesis by simp
qed

lemma assign_vector_ok:
  assumes "holds v xs" "holds w ws" "length xs < 2 ^ 31" "length ws < 2 ^ 31"
  obtains v' where "assign_vector w v = Inr v'" "holds v' ws"
proof (cases "length xs < length ws")
  case True
  note h = holdsD [OF assms(1)] and hw = holdsD [OF assms(2)]
  let ?s = "length xs"
  obtain u where u: "reserve (length ws) v = Inr u" "holds u xs"
    by (rule reserve_ok [OF assms(1) hw(5) assms(3)])
  note hu = holdsD [OF u(2)]
  let ?f = "for_each [0..<?s] (\<lambda>i. assign_place i (ws ! i))"
  have assigned: "?f (cells xs (capacity u)) = Inr (cells (take ?s ws) (capacity u))"
    using assign_cells [of ?s xs ws "capacity u"] True hu(3) by simp
  have len: "length (take ?s ws) = length xs" using True by simp
  obtain t where t: "on_elements ?f u = Inr t" "holds t (take ?s ws)"
    by (rule on_elements_cells [where f = ?f, OF u(2) assigned len])
  obtain v' where "append_input (drop ?s ws) t = Inr v'" "holds v' (take ?s ws @ drop ?s ws)"
    by (rule append_input_ok [OF t(2), of "drop ?s ws"]) (use True assms(4) in simp_all)
  with True h hw u(1) t(1) read_range_ok [OF assms(2), of "length ws"] show thesis
    by (intro that [of v']) (simp_all add: assign_vector_def Let_def)
next
  case False
  note h = holdsD [OF assms(1)] and hw = holdsD [OF assms(2)]
  let ?n = "length ws"
  have le: "?n \<le> length xs" using False by simp
  obtain u where u: "erase_range ?n (length xs) v = Inr (?n, u)" "holds u (take ?n xs @ drop (length xs) xs)"
    by (rule erase_range_ok [OF assms(1) le order_refl assms(3)])
  then have u2: "holds u (take ?n xs)" by simp
  note hu = holdsD [OF u2]
  let ?f = "for_each [0..<?n] (\<lambda>i. assign_place i (ws ! i))"
  have assigned: "?f (cells (take ?n xs) (capacity u)) = Inr (cells ws (capacity u))"
    using assign_cells [of ?n "take ?n xs" ws "capacity u"] le hu(3) by simp
  have len: "length ws = length (take ?n xs)" using le by simp
  obtain v' where "on_elements ?f u = Inr v'" "holds v' ws"
    by (rule on_elements_cells [where f = ?f, OF u2 assigned len])
  with False h hw u(1) read_range_ok [OF assms(2), of "length ws"] show thesis
    by (intro that [of v']) (simp_all add: assign_vector_def Let_def)
qed

text \<open>Two vectors.\<close>

lemma swap_elements_ok:
  assumes "holds a xs" "holds b ys" "length ys \<le> length xs" "length xs < 2 ^ 31"
  obtains a' b' where "swap_elements a b = Inr (a', b')" "holds a' ys" "holds b' xs"
proof -
  note ha = holdsD [OF assms(1)] and hb0 = holdsD [OF assms(2)]
  let ?n = "length ys" and ?m = "length xs"
  obtain c where c: "(if capacity b < ?m then Grow True ?m None b else Inr b) = Inr c" "holds c ys" "?m \<le> capacity c"
  proof (cases "capacity b < ?m")
    case True
    obtain c where "Grow True ?m None b = Inr c" "holds c ys" "?m \<le> capacity c"
      by (rule Grow_holds [OF assms(2), of ?m]) (use assms(3,4) in simp_all)
    with True show thesis by (intro that [of c]) simp_all
  next
    case False
    with assms(2) show thesis by (intro that [of b]) simp_all
  qed
  note hc = holdsD [OF c(2)]
  have reads: "read_range 0 ?m (vector_data a) = Inr xs" "read_range 0 ?n (vector_data c) = Inr ys"
    using read_range_ok [OF assms(1), of ?m] read_range_ok [OF c(2), of ?n] by simp_all
  let ?f = "for_each [0..<?n] (\<lambda>i. assign_place i (ys ! i))" and ?g = "for_each [0..<?n] (\<lambda>i. assign_place i (xs ! i))"
  have f: "?f (cells xs (capacity a)) = Inr (cells (ys @ drop ?n xs) (capacity a))"
    using assign_cells [of ?n xs ys "capacity a"] assms(3) ha(3) by simp
  have flen: "length (ys @ drop ?n xs) = length xs" using assms(3) by simp
  obtain a1 where a1: "on_elements ?f a = Inr a1" "holds a1 (ys @ drop ?n xs)"
    by (rule on_elements_cells [where f = ?f, OF assms(1) f flen])
  have g: "?g (cells ys (capacity c)) = Inr (cells (take ?n xs) (capacity c))"
    using assign_cells [of ?n ys xs "capacity c"] assms(3) hc(3) by simp
  have glen: "length (take ?n xs) = length ys" using assms(3) by simp
  obtain c1 where c1: "on_elements ?g c = Inr c1" "holds c1 (take ?n xs)" "capacity c1 = capacity c"
    by (rule on_elements_cells [where f = ?g, OF c(2) g glen])
  note hc1 = holdsD [OF c1(2)]
  let ?k = "Fill (\<lambda>i _. Inr (xs ! (?n + i))) (?m - ?n) ?n"
  have "?k (cells (take ?n xs) (capacity c1)) = Inr (cells (take ?n xs @ drop ?n xs) (capacity c1))"
    using Fill_cells [of "take ?n xs" "drop ?n xs" "capacity c1" "\<lambda>i _. Inr (xs ! (?n + i))"] assms(3) c(3) c1(3) by simp
  then have k: "?k (vector_data c1) = Inr (cells xs (capacity c1))" unfolding hc1(4) by simp
  have kfits: "length xs \<le> capacity c1" using c(3) c1(3) by simp
  obtain b' where b': "and_then (on_elements ?k c1) (set_size_internal ?m) = Inr b'" "holds b' xs"
    by (rule update_sized [where f = ?k, OF hc1(1) k kfits])
  obtain a' where a': "and_then (on_elements (Destroy ?n (?m - ?n)) a1) (set_size_internal ?n) = Inr a'" "holds a' ys"
    using shrink_ok [OF a1(2), of ?n] assms(3,4) by (auto simp: flen)
  have "swap_elements a b = Inr (a', b')"
    using a'(1) b'(1) assms(3) ha(2) hb0(2) c(1) reads a1(1) c1(1) holdsD(2) [OF a'(2)] holdsD(2) [OF b'(2)]
    by (auto simp: swap_elements_def Let_def and_then_eq_Inr)
  then show thesis using a'(2) b'(2) by (rule that)
qed

lemma swap_vectors_ok:
  assumes "holds a xs" "holds b ys" "length xs < 2 ^ 31" "length ys < 2 ^ 31"
  obtains a' b' where "swap_vectors a b = Inr (a', b')" "holds a' ys" "holds b' xs"
proof -
  note ha = holdsD [OF assms(1)] and hb = holdsD [OF assms(2)]
  consider (heaps) "\<not> is_inline a" "\<not> is_inline b" | (less) "is_inline a \<or> is_inline b" "length xs < length ys"
    | (more) "is_inline a \<or> is_inline b" "length ys \<le> length xs" by linarith
  then show thesis
  proof cases
    case heaps
    let ?a = "a\<lparr>iv_heap := iv_heap b, iv_word := iv_word b\<rparr>" and ?b = "b\<lparr>iv_heap := iv_heap a, iv_word := iv_word a\<rparr>"
    have "holds ?a ys" "holds ?b xs"
      using heaps assms(1,2)
      by (simp_all add: holds_def rep_ok_def is_inline_def last_byte_def lg_byte_def vector_size_def vector_data_def capacity_def)
    with heaps show thesis by (intro that [of ?a ?b]) (simp_all add: swap_vectors_def)
  next
    case less
    then have "length xs \<le> length ys" by simp
    from swap_elements_ok [OF assms(2,1) this assms(4)] obtain b' a' where "swap_elements b a = Inr (b', a')" "holds b' xs" "holds a' ys" .
    with less ha hb show thesis by (intro that [of a' b']) (auto simp: swap_vectors_def)
  next
    case more
    from swap_elements_ok [OF assms(1,2) more(2) assms(3)] obtain a' b' where "swap_elements a b = Inr (a', b')" "holds a' ys" "holds b' xs" .
    with more ha hb show thesis by (intro that [of a' b']) (auto simp: swap_vectors_def)
  qed
qed

lemma compare_vectors_ok:
  assumes "holds a xs" "holds b ys"
  shows "equal_vectors a b = Inr (xs = ys)" "less_vectors lt a b = Inr (lexicographic lt xs ys)"
  using read_range_ok [OF assms(1), of "length xs"] read_range_ok [OF assms(2), of "length ys"]
    holdsD(2) [OF assms(1)] holdsD(2) [OF assms(2)]
  by (auto simp: equal_vectors_def less_vectors_def)

lemma vector_of_size_ok:
  assumes "n < 2 ^ 31"
  obtains v where "vector_of_size N size_of_T n x = Inr v" "holds v (replicate n x)"
proof -
  let ?v = "InitRep N size_of_T :: 'a inlined_vector"
  have i: "holds ?v []" by (rule InitRep_holds)
  have same: "Grow False n None ?v = Grow True n None ?v"
    using holdsD(2) [OF i] by (simp add: Grow_def Move_def Let_def)
  obtain w where w: "(if capacity ?v < n then Grow False n None ?v else Inr ?v) = Inr w" "holds w []" "n \<le> capacity w"
  proof (cases "capacity ?v < n")
    case True
    obtain w where "Grow True n None ?v = Inr w" "holds w []" "n \<le> capacity w"
      by (rule Grow_holds [OF i, of n]) (use assms in simp_all)
    with True show thesis by (intro that [of w]) (simp_all add: same)
  next
    case False
    with i show thesis by (intro that [of ?v]) simp_all
  qed
  note h = holdsD [OF w(2)]
  let ?f = "Fill (\<lambda>_ _. Inr x) n 0"
  have filled: "?f (vector_data w) = Inr (cells (replicate n x) (capacity w))"
    using Fill_cells [of "[]" "replicate n x" "capacity w" "\<lambda>_ _. Inr x"] w(3) by (simp add: h(4))
  have fits: "length (replicate n x) \<le> capacity w" using w(3) by simp
  obtain v where "and_then (set_size_internal (length (replicate n x)) w) (on_elements ?f) = Inr v" "holds v (replicate n x)"
    by (rule sized_data [where f = ?f, OF h(1) filled fits])
  with w(1) show thesis by (intro that [of v]) (simp_all add: vector_of_size_def Let_def)
qed

section \<open>Sequences of operations\<close>

datatype 'a vector_call =
    Push_back "'a reference"
  | Pop_back
  | Insert nat 'a
  | Erase nat
  | Erase_range nat nat
  | Resize nat 'a
  | Reserve nat
  | Clear
  | Append_input "'a list"
  | Append_forward "'a list"
  | Assign "'a list"

fun run_call :: "nat \<Rightarrow> nat \<Rightarrow> 'a vector_call \<Rightarrow> 'a inlined_vector \<Rightarrow> fault + 'a inlined_vector" where
  "run_call N size_of_T (Push_back r) v = push_back r v"
| "run_call N size_of_T Pop_back v = pop_back v"
| "run_call N size_of_T (Insert pos x) v = and_then (insert_at pos (Outside x) v) (\<lambda>(_, v). Inr v)"
| "run_call N size_of_T (Erase pos) v = and_then (erase pos v) (\<lambda>(_, v). Inr v)"
| "run_call N size_of_T (Erase_range first until) v = and_then (erase_range first until v) (\<lambda>(_, v). Inr v)"
| "run_call N size_of_T (Resize n x) v = resize n (Outside x) v"
| "run_call N size_of_T (Reserve n) v = reserve n v"
| "run_call N size_of_T Clear v = clear v"
| "run_call N size_of_T (Append_input ys) v = append_input ys v"
| "run_call N size_of_T (Append_forward ys) v = append_forward ys v"
| "run_call N size_of_T (Assign ys) v = and_then (vector_of_list N size_of_T ys) (\<lambda>w. assign_vector w v)"

definition run_calls :: "nat \<Rightarrow> nat \<Rightarrow> 'a vector_call list \<Rightarrow> 'a inlined_vector \<Rightarrow> fault + 'a inlined_vector" where
  "run_calls N size_of_T cs = for_each cs (run_call N size_of_T)"

text \<open>The same on lists, and where a call is allowed: the element is there, the size below \<open>2 ^ 31\<close>.\<close>

fun list_call :: "'a vector_call \<Rightarrow> 'a list \<Rightarrow> 'a list" where
  "list_call (Push_back r) xs = xs @ [referent xs r]"
| "list_call Pop_back xs = butlast xs"
| "list_call (Insert pos x) xs = take pos xs @ x # drop pos xs"
| "list_call (Erase pos) xs = take pos xs @ drop (pos + 1) xs"
| "list_call (Erase_range first until) xs = take first xs @ drop until xs"
| "list_call (Resize n x) xs = take n xs @ replicate (n - length xs) x"
| "list_call (Reserve n) xs = xs"
| "list_call Clear xs = []"
| "list_call (Append_input ys) xs = xs @ ys"
| "list_call (Append_forward ys) xs = xs @ ys"
| "list_call (Assign ys) xs = ys"

fun allowed :: "'a list \<Rightarrow> 'a vector_call \<Rightarrow> bool" where
  "allowed xs (Push_back r) = refers xs r"
| "allowed xs Pop_back = (xs \<noteq> [])"
| "allowed xs (Insert pos x) = (pos \<le> length xs)"
| "allowed xs (Erase pos) = (pos < length xs)"
| "allowed xs (Erase_range first until) = (first \<le> until \<and> until \<le> length xs)"
| "allowed xs (Reserve n) = (n < 2 ^ 31)"
| "allowed xs _ = True"

fun all_allowed :: "'a list \<Rightarrow> 'a vector_call list \<Rightarrow> bool" where
  "all_allowed xs [] = (length xs < 2 ^ 31)"
| "all_allowed xs (c # cs) = (length xs < 2 ^ 31 \<and> allowed xs c \<and> all_allowed (list_call c xs) cs)"

lemma all_allowed_length: "all_allowed xs cs \<Longrightarrow> length xs < 2 ^ 31"
  by (cases cs) simp_all

lemma all_allowed_fold: "all_allowed xs cs \<Longrightarrow> length (fold list_call cs xs) < 2 ^ 31"
  by (induction cs arbitrary: xs) simp_all

lemma run_call_ok:
  assumes "holds v xs" "length xs < 2 ^ 31" "allowed xs c" "length (list_call c xs) < 2 ^ 31"
  shows "\<exists>v'. run_call N size_of_T c v = Inr v' \<and> holds v' (list_call c xs)"
proof (cases c)
  case (Push_back r)
  then have r: "length xs + 1 < 2 ^ 31" "refers xs r" using assms(3,4) by simp_all
  obtain v' where "push_back r v = Inr v'" "holds v' (xs @ [referent xs r])" by (rule push_back_ok [OF assms(1) r])
  with Push_back show ?thesis by simp
next
  case Pop_back
  then have "xs \<noteq> []" using assms(3) by simp
  then obtain v' where "pop_back v = Inr v'" "holds v' (butlast xs)" using pop_back_ok [OF assms(1) _ assms(2)] by blast
  with Pop_back show ?thesis by simp
next
  case (Insert pos x)
  obtain v' where "insert_at pos (Outside x) v = Inr (pos, v')" "holds v' (take pos xs @ x # drop pos xs)"
    by (rule insert_ok [OF assms(1), of pos x]) (use assms(3,4) Insert in simp_all)
  with Insert show ?thesis by simp
next
  case (Erase pos)
  then have "pos < length xs" using assms(3) by simp
  then obtain v' where "erase pos v = Inr (pos, v')" "holds v' (take pos xs @ drop (pos + 1) xs)"
    using erase_ok [OF assms(1) _ assms(2)] by blast
  with Erase show ?thesis by simp
next
  case (Erase_range first until)
  then have "first \<le> until" "until \<le> length xs" using assms(3) by simp_all
  then obtain v' where "erase_range first until v = Inr (first, v')" "holds v' (take first xs @ drop until xs)"
    using erase_range_ok [OF assms(1) _ _ assms(2)] by blast
  with Erase_range show ?thesis by simp
next
  case (Resize n x)
  have n: "n < 2 ^ 31" using assms(2,4) Resize by (cases "n \<le> length xs") simp_all
  obtain v' where "resize n (Outside x) v = Inr v'" "holds v' (take n xs @ replicate (n - length xs) x)"
    by (rule resize_ok [OF assms(1) n assms(2)])
  with Resize show ?thesis by simp
next
  case (Reserve n)
  then have "n \<le> 2 ^ 31" using assms(3) by simp
  then obtain v' where "reserve n v = Inr v'" "holds v' xs" using reserve_ok [OF assms(1) _ assms(2)] by blast
  with Reserve show ?thesis by simp
next
  case Clear
  obtain v' where "clear v = Inr v'" "holds v' []" by (rule clear_ok [OF assms(1,2)])
  with Clear show ?thesis by simp
next
  case (Append_input ys)
  then have "length xs + length ys < 2 ^ 31" using assms(4) by simp
  then obtain v' where "append_input ys v = Inr v'" "holds v' (xs @ ys)" using append_input_ok [OF assms(1)] by blast
  with Append_input show ?thesis by simp
next
  case (Append_forward ys)
  then have "length xs + length ys < 2 ^ 31" using assms(4) by simp
  then obtain v' where "append_forward ys v = Inr v'" "holds v' (xs @ ys)" using append_forward_ok [OF assms(1)] by blast
  with Append_forward show ?thesis by simp
next
  case (Assign ys)
  have ys: "length ys < 2 ^ 31" using assms(4) Assign by simp
  obtain w where w: "append_forward ys (InitRep N size_of_T) = Inr w" "holds w ([] @ ys)"
    by (rule append_forward_ok [OF InitRep_holds, of ys N size_of_T]) (use ys in simp_all)
  then have "holds w ys" by simp
  from assign_vector_ok [OF assms(1) this assms(2) ys] obtain v' where "assign_vector w v = Inr v'" "holds v' ys" .
  with w(1) Assign show ?thesis by (simp add: vector_of_list_def)
qed

lemma run_calls_ok:
  "holds v xs \<Longrightarrow> all_allowed xs cs \<Longrightarrow> \<exists>v'. run_calls N size_of_T cs v = Inr v' \<and> holds v' (fold list_call cs xs)"
proof (induction cs arbitrary: v xs)
  case (Cons c cs)
  obtain w where "run_call N size_of_T c v = Inr w" "holds w (list_call c xs)"
    using run_call_ok [OF Cons.prems(1), of c] Cons.prems(2) all_allowed_length by fastforce
  with Cons.IH [of w "list_call c xs"] Cons.prems(2) show ?case by (simp add: run_calls_def)
qed (simp add: run_calls_def)

text \<open>What a client reads.\<close>

definition contents :: "'a inlined_vector \<Rightarrow> fault + 'a list" where
  "contents v = for_each [0..<vector_size v] (\<lambda>i xs. and_then (vector_at i v) (\<lambda>x. Inr (xs @ [x]))) []"

lemma contents_ok: "holds v xs \<Longrightarrow> contents v = Inr xs"
proof -
  assume v: "holds v xs"
  note h = holdsD [OF v]
  have "for_each [0..<length xs] (\<lambda>i ys. and_then (vector_at i v) (\<lambda>x. Inr (ys @ [x]))) (take 0 xs) = Inr (take (length xs) xs)"
    by (rule for_each_from) (use h in \<open>simp_all add: vector_at_def get_cells take_Suc_conv_app_nth\<close>)
  then show ?thesis by (simp add: contents_def h(2))
qed

end
