(* ===== verification/Container_Properties.thy ===== *)
theory Container_Properties
  imports Inlined_Vector_Laws
begin

text \<open>
  What \<open>InlinedVector\<close> guarantees: through any operations it is a list, in the object or in a block
  of memory; and what it does not: an element of the vector itself may not be inserted into it.
\<close>

text \<open>
  C15. Two vectors of one type after any sequences of operations, each allowed where it is called
  and with a size below \<open>2 ^ 31\<close>: no operation fails an assertion or touches a place that is not
  an object, the vectors hold what the same operations on lists give, the comparisons are those of
  the lists, and \<open>swap\<close> exchanges the lists, whichever of the two have a block.
\<close>

theorem inlined_vectors_refine_lists:
  assumes "all_allowed [] cs" "all_allowed [] ds"
  shows "\<exists>a b a' b'. run_calls N size_of_T cs (InitRep N size_of_T) = Inr a \<and>
    run_calls N size_of_T ds (InitRep N size_of_T) = Inr b \<and>
    contents a = Inr (fold list_call cs []) \<and> vector_size a = length (fold list_call cs []) \<and> vector_size a \<le> capacity a \<and>
    equal_vectors a b = Inr (fold list_call cs [] = fold list_call ds []) \<and>
    less_vectors lt a b = Inr (lexicographic lt (fold list_call cs []) (fold list_call ds [])) \<and>
    swap_vectors a b = Inr (a', b') \<and>
    contents a' = Inr (fold list_call ds []) \<and> contents b' = Inr (fold list_call cs [])"
proof -
  obtain a where a: "run_calls N size_of_T cs (InitRep N size_of_T) = Inr a" "holds a (fold list_call cs [])"
    using run_calls_ok [OF InitRep_holds assms(1)] by blast
  obtain b where b: "run_calls N size_of_T ds (InitRep N size_of_T) = Inr b" "holds b (fold list_call ds [])"
    using run_calls_ok [OF InitRep_holds assms(2)] by blast
  obtain a' b' where "swap_vectors a b = Inr (a', b')" "holds a' (fold list_call ds [])" "holds b' (fold list_call cs [])"
    by (rule swap_vectors_ok [OF a(2) b(2) all_allowed_fold [OF assms(1)] all_allowed_fold [OF assms(2)]])
  with a b holdsD(2,3) [OF a(2)] compare_vectors_ok [OF a(2) b(2)] show ?thesis by (auto simp: contents_ok)
qed

theorem inlined_vectors_refine_lists_witness:
  "\<exists>a b a' b'. run_calls 1 4 [Append_forward [1, 2], Push_back (Element 1), Insert 1 (7 :: nat), Erase 0, Resize 5 9] (InitRep 1 4) = Inr a \<and>
    run_calls 1 4 [Push_back (Outside 3)] (InitRep 1 4) = Inr b \<and> contents a = Inr [7, 2, 2, 9, 9] \<and>
    less_vectors (<) b a = Inr True \<and> swap_vectors a b = Inr (a', b') \<and> contents a' = Inr [3] \<and> contents b' = Inr [7, 2, 2, 9, 9]"
proof -
  let ?cs = "[Append_forward [1, 2], Push_back (Element 1), Insert 1 7, Erase 0, Resize 5 9] :: nat vector_call list"
  let ?ds = "[Push_back (Outside 3)] :: nat vector_call list"
  have ok: "all_allowed [] ?cs" "all_allowed [] ?ds" by (simp_all add: refers_def referent_def)
  have lists: "fold list_call ?cs [] = [7, 2, 2, 9, 9]" "fold list_call ?ds [] = [3]"
    by (simp_all add: referent_def numeral_eq_Suc)
  from inlined_vectors_refine_lists [OF ok(2,1), where N = 1 and size_of_T = 4 and lt = "(<)"]
    inlined_vectors_refine_lists [OF ok, where N = 1 and size_of_T = 4 and lt = "(<)"]
  show ?thesis unfolding lists by auto
qed

text \<open>
  C32. \<open>insert(pos, v)\<close> where \<open>v\<close> is an element of the vector behind \<open>pos\<close>: in a full vector the
  element is read from the block that was freed; else the elements have moved when it is read, and
  the one before it is inserted.
\<close>

theorem insert_of_own_element:
  assumes "run_calls N size_of_T cs (InitRep N size_of_T) = Inr v" "all_allowed [] cs"
    "xs = fold list_call cs []" "pos < i" "i < length xs" "length xs + 1 < 2 ^ 31"
  shows "if length xs = capacity v then insert_at pos (Element i) v = Inl Out_of_bounds
    else \<exists>v'. insert_at pos (Element i) v = Inr (pos, v') \<and> contents v' = Inr (take pos xs @ xs ! (i - 1) # drop pos xs)"
proof -
  have "\<exists>v'. run_calls N size_of_T cs (InitRep N size_of_T) = Inr v' \<and> holds v' (fold list_call cs [])"
    by (rule run_calls_ok [OF InitRep_holds assms(2)])
  then have "holds v xs" using assms(1,3) by simp
  from insert_own_ok [OF this assms(4-6)] show ?thesis by (auto simp: contents_ok split: if_splits)
qed

theorem insert_of_own_element_witness:
  "\<exists>v. run_calls 4 4 [Append_forward [1, 2, 3 :: nat]] (InitRep 4 4) = Inr v \<and>
    (if 3 = capacity v then insert_at 0 (Element 2) v = Inl Out_of_bounds
     else \<exists>v'. insert_at 0 (Element 2) v = Inr (0, v') \<and> contents v' = Inr [2, 1, 2, 3])"
proof -
  let ?cs = "[Append_forward [1, 2, 3 :: nat]]"
  have ok: "all_allowed [] ?cs" by simp
  obtain v where v: "run_calls 4 4 ?cs (InitRep 4 4) = Inr v" using run_calls_ok [OF InitRep_holds ok, of 4 4] by blast
  have "length (fold list_call ?cs []) = 3" by simp
  from insert_of_own_element [OF v ok refl, of 0 2] v show ?thesis by auto
qed

end
