(* ===== verification/Scanner.thy ===== *)
theory Scanner
  imports Stringpiece
begin

text \<open>
  \<open>src/base/strings/scanner.h\<close> and \<open>scanner.cc\<close>: a scanner is the text, the place where \<open>cur_\<close>
  begins, the places of the capture, and whether something did not match.
\<close>

record scanner =
  sc_source :: "byte list"
  sc_cur :: nat
  capture_start :: nat
  capture_end :: "nat option"
  sc_error :: bool

datatype char_class =
    ALL_CHARS | DIGIT | LETTER | LETTER_DIGIT | LETTER_DIGIT_DASH_UNDERSCORE | LETTER_DIGIT_DASH_DOT_SLASH
  | LETTER_DIGIT_DASH_DOT_SLASH_UNDERSCORE | LETTER_DIGIT_DOT | LETTER_DIGIT_DOT_PLUS_MINUS
  | LETTER_DIGIT_DOT_UNDERSCORE | LETTER_DIGIT_UNDERSCORE | LOWERLETTER | LOWERLETTER_DIGIT
  | LOWERLETTER_DIGIT_UNDERSCORE | NON_ZERO_DIGIT | SPACE | UPPERLETTER

definition IsLetter :: "byte \<Rightarrow> bool" where
  "IsLetter ch \<longleftrightarrow> (97 \<le> ch \<and> ch \<le> 122) \<or> (65 \<le> ch \<and> ch \<le> 90)"

definition IsLowerLetter :: "byte \<Rightarrow> bool" where
  "IsLowerLetter ch \<longleftrightarrow> 97 \<le> ch \<and> ch \<le> 122"

definition IsDigit :: "byte \<Rightarrow> bool" where
  "IsDigit ch \<longleftrightarrow> 48 \<le> ch \<and> ch \<le> 57"

definition IsSpace :: "byte \<Rightarrow> bool" where
  "IsSpace ch \<longleftrightarrow> ch = 32 \<or> ch = 9 \<or> ch = 10 \<or> ch = 11 \<or> ch = 12 \<or> ch = 13"

fun Matches :: "char_class \<Rightarrow> byte \<Rightarrow> bool" where
  "Matches ALL_CHARS ch = True"
| "Matches DIGIT ch = IsDigit ch"
| "Matches LETTER ch = IsLetter ch"
| "Matches LETTER_DIGIT ch = (IsLetter ch \<or> IsDigit ch)"
| "Matches LETTER_DIGIT_DASH_UNDERSCORE ch = (IsLetter ch \<or> IsDigit ch \<or> ch = 45 \<or> ch = 95)"
| "Matches LETTER_DIGIT_DASH_DOT_SLASH ch = (IsLetter ch \<or> IsDigit ch \<or> ch = 45 \<or> ch = 46 \<or> ch = 47)"
| "Matches LETTER_DIGIT_DASH_DOT_SLASH_UNDERSCORE ch =
     (IsLetter ch \<or> IsDigit ch \<or> ch = 45 \<or> ch = 46 \<or> ch = 47 \<or> ch = 95)"
| "Matches LETTER_DIGIT_DOT ch = (IsLetter ch \<or> IsDigit ch \<or> ch = 46)"
| "Matches LETTER_DIGIT_DOT_PLUS_MINUS ch = (IsLetter ch \<or> IsDigit ch \<or> ch = 43 \<or> ch = 45 \<or> ch = 46)"
| "Matches LETTER_DIGIT_DOT_UNDERSCORE ch = (IsLetter ch \<or> IsDigit ch \<or> ch = 46 \<or> ch = 95)"
| "Matches LETTER_DIGIT_UNDERSCORE ch = (IsLetter ch \<or> IsDigit ch \<or> ch = 95)"
| "Matches LOWERLETTER ch = (97 \<le> ch \<and> ch \<le> 122)"
| "Matches LOWERLETTER_DIGIT ch = (IsLowerLetter ch \<or> IsDigit ch)"
| "Matches LOWERLETTER_DIGIT_UNDERSCORE ch = (IsLowerLetter ch \<or> IsDigit ch \<or> ch = 95)"
| "Matches NON_ZERO_DIGIT ch = (IsDigit ch \<and> ch \<noteq> 48)"
| "Matches SPACE ch = IsSpace ch"
| "Matches UPPERLETTER ch = (65 \<le> ch \<and> ch \<le> 90)"

text \<open>What is left to scan.\<close>

definition cur :: "scanner \<Rightarrow> byte list" where
  "cur sc = drop (sc_cur sc) (sc_source sc)"

definition RestartCapture :: "scanner \<Rightarrow> scanner" where
  "RestartCapture sc = sc\<lparr>capture_start := sc_cur sc, capture_end := None\<rparr>"

definition make_scanner :: "byte list \<Rightarrow> scanner" where
  "make_scanner source =
     RestartCapture \<lparr>sc_source = source, sc_cur = 0, capture_start = 0, capture_end = None, sc_error = False\<rparr>"

definition Error :: "scanner \<Rightarrow> scanner" where
  "Error sc = sc\<lparr>sc_error := True\<rparr>"

definition One :: "char_class \<Rightarrow> scanner \<Rightarrow> scanner" where
  "One clz sc =
     (if cur sc = [] \<or> \<not> Matches clz (cur sc ! 0) then Error sc else sc\<lparr>sc_cur := sc_cur sc + 1\<rparr>)"

definition ZeroOrOneLiteral :: "byte list \<Rightarrow> scanner \<Rightarrow> scanner" where
  "ZeroOrOneLiteral s sc = (if starts_with (cur sc) s then sc\<lparr>sc_cur := sc_cur sc + length s\<rparr> else sc)"

definition OneLiteral :: "byte list \<Rightarrow> scanner \<Rightarrow> scanner" where
  "OneLiteral s sc =
     (if starts_with (cur sc) s then sc\<lparr>sc_cur := sc_cur sc + length s\<rparr> else sc\<lparr>sc_error := True\<rparr>)"

definition Any :: "char_class \<Rightarrow> scanner \<Rightarrow> scanner" where
  "Any clz sc = sc\<lparr>sc_cur := sc_cur sc + length (takeWhile (Matches clz) (cur sc))\<rparr>"

definition Many :: "char_class \<Rightarrow> scanner \<Rightarrow> scanner" where
  "Many clz sc = Any clz (One clz sc)"

definition StopCapture :: "scanner \<Rightarrow> scanner" where
  "StopCapture sc = sc\<lparr>capture_end := Some (sc_cur sc)\<rparr>"

definition Eos :: "scanner \<Rightarrow> scanner" where
  "Eos sc = (if cur sc \<noteq> [] then sc\<lparr>sc_error := True\<rparr> else sc)"

definition AnySpace :: "scanner \<Rightarrow> scanner" where
  "AnySpace sc = Any SPACE sc"

text \<open>The loop of \<open>ScanUntilImpl\<close>: whether the character was found, and how much was removed.\<close>

fun scan_until :: "byte \<Rightarrow> bool \<Rightarrow> byte list \<Rightarrow> bool \<times> nat" where
  "scan_until end_ch escaped [] = (False, 0)"
| "scan_until end_ch escaped (ch # s) =
     (if ch = end_ch then (True, 0)
      else if escaped \<and> ch = 92 then
        (case s of
           [] \<Rightarrow> (False, 1)
         | _ # s \<Rightarrow> (let (found, n) = scan_until end_ch escaped s in (found, n + 2)))
      else (let (found, n) = scan_until end_ch escaped s in (found, n + 1)))"

definition ScanUntilImpl :: "byte \<Rightarrow> bool \<Rightarrow> scanner \<Rightarrow> scanner" where
  "ScanUntilImpl end_ch escaped sc =
     (let (found, n) = scan_until end_ch escaped (cur sc); sc = sc\<lparr>sc_cur := sc_cur sc + n\<rparr> in
      if found then sc else Error sc)"

definition ScanUntil :: "byte \<Rightarrow> scanner \<Rightarrow> scanner" where
  "ScanUntil end_ch sc = ScanUntilImpl end_ch False sc"

definition ScanEscapedUntil :: "byte \<Rightarrow> scanner \<Rightarrow> scanner" where
  "ScanEscapedUntil end_ch sc = ScanUntilImpl end_ch True sc"

definition Peek :: "byte \<Rightarrow> scanner \<Rightarrow> byte" where
  "Peek default_value sc = (if cur sc = [] then default_value else cur sc ! 0)"

text \<open>The result: what remains and the capture.\<close>

definition GetResult :: "scanner \<Rightarrow> (byte list \<times> byte list) option" where
  "GetResult sc =
     (if sc_error sc then None
      else
        let until = (case capture_end sc of None \<Rightarrow> sc_cur sc | Some e \<Rightarrow> e) in
        Some (cur sc, take (until - capture_start sc) (drop (capture_start sc) (sc_source sc))))"

end
