(* ===== verification/File_System.thy ===== *)
theory File_System
  imports Scanner Status Path
begin

text \<open>
  \<open>src/base/platform/file_system.cc\<close>: names with a scheme and a host, and the operations that a
  \<open>FileSystem\<close> builds from its virtual functions, which are functions on a state here.
\<close>

section \<open>Names\<close>

definition ParseURI :: "byte list \<Rightarrow> byte list \<times> byte list \<times> byte list" where
  "ParseURI remaining =
     (case GetResult (OneLiteral [58, 47, 47] (StopCapture (Many LETTER_DIGIT_DOT (One LETTER (make_scanner remaining))))) of
        None \<Rightarrow> ([], [], remaining)
      | Some (remaining, scheme) \<Rightarrow>
          (case GetResult (ScanUntil SEP (make_scanner remaining)) of
             None \<Rightarrow> (scheme, remaining, [])
           | Some (remaining, host) \<Rightarrow> (scheme, host, remaining)))"

definition CreateURI :: "byte list \<Rightarrow> byte list \<Rightarrow> byte list \<Rightarrow> byte list" where
  "CreateURI scheme host path = (if scheme = [] then path else scheme @ [58, 47, 47] @ host @ path)"

section \<open>The operations\<close>

record 's file_system =
  FileExists :: "byte list \<Rightarrow> 's \<Rightarrow> bool"
  GetChildren :: "byte list \<Rightarrow> 's \<Rightarrow> status \<times> byte list list"
  Stat_is_directory :: "byte list \<Rightarrow> 's \<Rightarrow> status \<times> bool"
  DeleteFile :: "byte list \<Rightarrow> 's \<Rightarrow> status \<times> 's"
  DeleteDirectory :: "byte list \<Rightarrow> 's \<Rightarrow> status \<times> 's"
  CreateDirectory :: "byte list \<Rightarrow> 's \<Rightarrow> status \<times> 's"
  MatchPath :: "byte list \<Rightarrow> byte list \<Rightarrow> bool"

definition TranslateName :: "byte list \<Rightarrow> byte list" where
  "TranslateName name = CleanPath name"

definition IsDirectory :: "'s file_system \<Rightarrow> byte list \<Rightarrow> 's \<Rightarrow> status" where
  "IsDirectory fs name s =
     (if \<not> FileExists fs name s then Some \<lparr>state_code = NOT_FOUND, state_msg = ''Path not found''\<rparr>
      else
        case Stat_is_directory fs name s of (stat, is_directory) \<Rightarrow>
          if \<not> is_ok stat then stat
          else if is_directory then OK_status
          else Some \<lparr>state_code = FAILED_PRECONDITION, state_msg = ''Not a directory''\<rparr>)"

text \<open>
  The search through the directories below one: the queue, the files in the order in which they
  were found, and the status. It ends where the directories do.
\<close>

definition find_first_wildcard :: "byte list \<Rightarrow> nat" where
  "find_first_wildcard pattern = length (takeWhile (\<lambda>c. c \<notin> {42, 63, 91, 92}) pattern)"

partial_function (option) list_files ::
    "'s file_system \<Rightarrow> byte list list \<Rightarrow> byte list list \<Rightarrow> status \<Rightarrow> 's \<Rightarrow> (byte list list \<times> status) option" where
  "list_files fs dir_q all_files ret s =
     (case dir_q of
        [] \<Rightarrow> Some (all_files, ret)
      | current_dir # dir_q \<Rightarrow>
          (case GetChildren fs current_dir s of (st, children) \<Rightarrow>
             let paths = map (\<lambda>child. JoinPathImpl [current_dir, child]) children in
             list_files fs (dir_q @ filter (\<lambda>p. is_ok (IsDirectory fs p s)) paths) (all_files @ paths) (Update st ret) s))"

definition GetMatchingPaths :: "'s file_system \<Rightarrow> byte list \<Rightarrow> 's \<Rightarrow> (status \<times> byte list list) option" where
  "GetMatchingPaths fs pattern s =
     (let fixed_prefix = take (find_first_wildcard pattern) pattern; dir = Dirname fixed_prefix;
          dir = (if dir = [] then [DOT] else dir) in
      case list_files fs [dir] [] OK_status s of
        None \<Rightarrow> None
      | Some (all_files, ret) \<Rightarrow> Some (ret, filter (\<lambda>f. MatchPath fs f pattern) all_files))"

text \<open>One child of a directory that is deleted: it is queued, or it is a file.\<close>

definition delete_child ::
    "'s file_system \<Rightarrow> byte list \<Rightarrow> byte list \<Rightarrow> byte list list \<times> status \<times> nat \<times> 's \<Rightarrow> byte list list \<times> status \<times> nat \<times> 's" where
  "delete_child fs dir child r =
     (case r of (dir_q, ret, undeleted_files, s) \<Rightarrow>
        let child_path = JoinPathImpl [dir, child] in
        if is_ok (IsDirectory fs child_path s) then (dir_q @ [child_path], ret, undeleted_files, s)
        else
          let (del_status, s) = DeleteFile fs child_path s in
          (dir_q, Update del_status ret, if is_ok del_status then undeleted_files else undeleted_files + 1, s))"

partial_function (option) delete_files ::
    "'s file_system \<Rightarrow> byte list list \<Rightarrow> byte list list \<Rightarrow> status \<Rightarrow> nat \<Rightarrow> nat \<Rightarrow> 's \<Rightarrow>
      (byte list list \<times> status \<times> nat \<times> nat \<times> 's) option" where
  "delete_files fs dir_q dir_list ret undeleted_files undeleted_dirs s =
     (case dir_q of
        [] \<Rightarrow> Some (dir_list, ret, undeleted_files, undeleted_dirs, s)
      | dir # dir_q \<Rightarrow>
          (case GetChildren fs dir s of (st, children) \<Rightarrow>
             let dir_list = dir_list @ [dir]; ret = Update st ret in
             if \<not> is_ok st then delete_files fs dir_q dir_list ret undeleted_files (undeleted_dirs + 1) s
             else
               (case fold (delete_child fs dir) children (dir_q, ret, undeleted_files, s) of
                  (dir_q, ret, undeleted_files, s) \<Rightarrow>
                    delete_files fs dir_q dir_list ret undeleted_files undeleted_dirs s)))"

definition delete_one_directory :: "'s file_system \<Rightarrow> byte list \<Rightarrow> status \<times> nat \<times> 's \<Rightarrow> status \<times> nat \<times> 's" where
  "delete_one_directory fs dir r =
     (case r of (ret, undeleted_dirs, s) \<Rightarrow>
        let (st, s) = DeleteDirectory fs dir s in
        (Update st ret, if is_ok st then undeleted_dirs else undeleted_dirs + 1, s))"

text \<open>The status, \<open>undeleted_files\<close>, \<open>undeleted_dirs\<close> and the state.\<close>

definition DeleteDirectoryRecursively ::
    "'s file_system \<Rightarrow> byte list \<Rightarrow> 's \<Rightarrow> (status \<times> nat \<times> nat \<times> 's) option" where
  "DeleteDirectoryRecursively fs dirname s =
     (if \<not> FileExists fs dirname s then
        Some (Some \<lparr>state_code = NOT_FOUND, state_msg = ''Directory doesn't exist''\<rparr>, 0, 1, s)
      else
        case delete_files fs [dirname] [] OK_status 0 0 s of
          None \<Rightarrow> None
        | Some (dir_list, ret, undeleted_files, undeleted_dirs, s) \<Rightarrow>
            (case fold (delete_one_directory fs) (rev dir_list) (ret, undeleted_dirs, s) of
               (ret, undeleted_dirs, s) \<Rightarrow> Some (ret, undeleted_files, undeleted_dirs, s)))"

text \<open>The directories that are missing, the last one first, with the one that is there.\<close>

partial_function (option) missing_dirs ::
    "'s file_system \<Rightarrow> byte list \<Rightarrow> byte list \<Rightarrow> byte list \<Rightarrow> byte list list \<Rightarrow> 's \<Rightarrow> (byte list \<times> byte list list) option" where
  "missing_dirs fs scheme host remaining_dir sub_dirs s =
     (if \<not> FileExists fs (CreateURI scheme host remaining_dir) s \<and> remaining_dir \<noteq> [] then
        missing_dirs fs scheme host (Dirname remaining_dir)
          (if \<not> ends_with remaining_dir [SEP] then sub_dirs @ [Basename remaining_dir] else sub_dirs) s
      else Some (remaining_dir, sub_dirs))"

fun create_dirs :: "'s file_system \<Rightarrow> byte list \<Rightarrow> byte list \<Rightarrow> byte list \<Rightarrow> byte list list \<Rightarrow> 's \<Rightarrow> status \<times> 's" where
  "create_dirs fs scheme host built_path [] s = (OK_status, s)"
| "create_dirs fs scheme host built_path (sub_dir # sub_dirs) s =
     (let built_path = JoinPathImpl [built_path, sub_dir];
          (st, s) = CreateDirectory fs (CreateURI scheme host built_path) s in
      if is_ok st then create_dirs fs scheme host built_path sub_dirs s else (st, s))"

definition CreateDirectoryRecursively :: "'s file_system \<Rightarrow> byte list \<Rightarrow> 's \<Rightarrow> (status \<times> 's) option" where
  "CreateDirectoryRecursively fs dirname s =
     (let (scheme, host, remaining_dir) = ParseURI dirname in
      case missing_dirs fs scheme host remaining_dir [] s of
        None \<Rightarrow> None
      | Some (remaining_dir, sub_dirs) \<Rightarrow> Some (create_dirs fs scheme host remaining_dir (rev sub_dirs) s))"

end
