(* ===== verification/File_System_Laws.thy ===== *)
theory File_System_Laws
  imports File_System Path_Laws
begin

text \<open>
  A URI is put together from the parts that \<open>ParseURI\<close> takes it apart into, and the directories that
  \<open>CreateDirectoryRecursively\<close> creates are those that are missing, the shortest first.
\<close>

section \<open>Names\<close>

definition scheme_ok :: "byte list \<Rightarrow> bool" where
  "scheme_ok s \<longleftrightarrow> 2 \<le> length s \<and> IsLetter (s ! 0) \<and> list_all (Matches LETTER_DIGIT_DOT) s"

lemma starts_with_take: "starts_with s x \<longleftrightarrow> take (length x) s = x"
proof (cases "length x \<le> length s")
  case True
  then show ?thesis using memcmp_zero [of "take (length x) s" x] by (simp add: starts_with_def)
next
  case False
  then have "take (length x) s \<noteq> x" by (metis length_take min.cobounded1 linorder_not_le)
  with False show ?thesis by (simp add: starts_with_def)
qed

lemma scan_until_plain: "scan_until e False s = (e \<in> set s, length (takeWhile (\<lambda>b. b \<noteq> e) s))"
  by (induction s) (auto simp: Let_def split: prod.splits)

lemma host_and_path:
  "(case GetResult (ScanUntil SEP (make_scanner s)) of None \<Rightarrow> (scheme, s, []) | Some (r, h) \<Rightarrow> (scheme, h, r)) =
    (scheme, takeWhile (\<lambda>b. b \<noteq> SEP) s, dropWhile (\<lambda>b. b \<noteq> SEP) s)"
proof (cases "SEP \<in> set s")
  case True
  then show ?thesis
    by (simp add: ScanUntil_def ScanUntilImpl_def make_scanner_def RestartCapture_def cur_def scan_until_plain GetResult_def
      dropWhile_eq_drop takeWhile_eq_take [symmetric] Let_def)
next
  case False
  then have all: "takeWhile (\<lambda>b. b \<noteq> SEP) s = s" "dropWhile (\<lambda>b. b \<noteq> SEP) s = []"
    unfolding takeWhile_eq_all_conv dropWhile_eq_Nil_conv by auto
  from False show ?thesis
    by (simp add: all ScanUntil_def ScanUntilImpl_def make_scanner_def RestartCapture_def cur_def scan_until_plain GetResult_def Error_def Let_def)
qed

text \<open>The scheme is at least two characters: \<open>One\<close> and \<open>Many\<close> take one each.\<close>

lemma error_stays:
  "sc_error sc \<Longrightarrow> sc_error (One c sc)" "sc_error sc \<Longrightarrow> sc_error (Any c sc)" "sc_error sc \<Longrightarrow> sc_error (Many c sc)"
  "sc_error sc \<Longrightarrow> sc_error (StopCapture sc)" "sc_error sc \<Longrightarrow> sc_error (OneLiteral s sc)" "sc_error sc \<Longrightarrow> GetResult sc = None"
  by (simp_all add: One_def Any_def Many_def StopCapture_def OneLiteral_def GetResult_def Error_def)

lemma no_scheme:
  "u = [] \<or> \<not> IsLetter (hd u) \<or> tl u = [] \<or> \<not> Matches LETTER_DIGIT_DOT (hd (tl u)) \<Longrightarrow>
    GetResult (OneLiteral x (StopCapture (Many LETTER_DIGIT_DOT (One LETTER (make_scanner u))))) = None"
proof -
  let ?sc = "make_scanner u"
  assume no: "u = [] \<or> \<not> IsLetter (hd u) \<or> tl u = [] \<or> \<not> Matches LETTER_DIGIT_DOT (hd (tl u))"
  have cur: "cur ?sc = u" "sc_error ?sc = False" "sc_cur ?sc = 0" "sc_source ?sc = u"
    by (simp_all add: cur_def make_scanner_def RestartCapture_def)
  have "sc_error (One LETTER_DIGIT_DOT (One LETTER ?sc))"
  proof (cases "u = [] \<or> \<not> IsLetter (hd u)")
    case True
    then have "sc_error (One LETTER ?sc)" using cur by (cases u) (auto simp: One_def Error_def)
    then show ?thesis by (rule error_stays(1))
  next
    case False
    then obtain c v where u: "u = c # v" "IsLetter c" by (cases u) auto
    then have one: "One LETTER ?sc = ?sc\<lparr>sc_cur := 1\<rparr>" using cur by (simp add: One_def)
    have "cur (?sc\<lparr>sc_cur := 1\<rparr>) = v" using cur(4) u(1) by (simp add: cur_def)
    with no u show ?thesis unfolding one One_def [of LETTER_DIGIT_DOT] by (cases v) (auto simp: Error_def)
  qed
  then show ?thesis by (intro error_stays(5) [THEN error_stays(6)] error_stays(4)) (simp add: Many_def error_stays(2))
qed

lemma scan_scheme:
  fixes w :: "byte list"
  assumes "IsLetter c" "Matches LETTER_DIGIT_DOT d"
  defines "s \<equiv> c # d # takeWhile (Matches LETTER_DIGIT_DOT) w" and "r \<equiv> dropWhile (Matches LETTER_DIGIT_DOT) w"
  shows "GetResult (OneLiteral x (StopCapture (Many LETTER_DIGIT_DOT (One LETTER (make_scanner (c # d # w)))))) =
    (if take (length x) r = x then Some (drop (length x) r, s) else None)"
proof -
  let ?sc = "make_scanner (c # d # w)" and ?k = "length (takeWhile (Matches LETTER_DIGIT_DOT) w)"
  have r: "drop ?k w = r" "take ?k w = takeWhile (Matches LETTER_DIGIT_DOT) w"
    by (simp_all add: r_def dropWhile_eq_drop takeWhile_eq_take [symmetric])
  have "One LETTER ?sc = ?sc\<lparr>sc_cur := 1\<rparr>"
    using assms(1) by (simp add: One_def cur_def make_scanner_def RestartCapture_def)
  moreover have "One LETTER_DIGIT_DOT (?sc\<lparr>sc_cur := 1\<rparr>) = ?sc\<lparr>sc_cur := 2\<rparr>"
    using assms(2) by (simp add: One_def cur_def make_scanner_def RestartCapture_def)
  ultimately have "Many LETTER_DIGIT_DOT (One LETTER ?sc) = ?sc\<lparr>sc_cur := 2 + ?k\<rparr>"
    by (simp add: Many_def Any_def cur_def make_scanner_def RestartCapture_def)
  then show ?thesis
    using r by (simp add: StopCapture_def OneLiteral_def cur_def make_scanner_def RestartCapture_def starts_with_take
      GetResult_def s_def drop_drop [symmetric] add.commute del: drop_drop)
qed

text \<open>What \<open>ParseURI\<close> gives: the whole text as a path, or a scheme, a host and a path.\<close>

lemma ParseURI_cases:
  obtains "ParseURI u = ([], [], u)"
  | scheme rest where "scheme \<noteq> []" "u = scheme @ [58, 47, 47] @ rest"
    "ParseURI u = (scheme, takeWhile (\<lambda>b. b \<noteq> SEP) rest, dropWhile (\<lambda>b. b \<noteq> SEP) rest)"
proof (cases "u = [] \<or> \<not> IsLetter (hd u) \<or> tl u = [] \<or> \<not> Matches LETTER_DIGIT_DOT (hd (tl u))")
  case True
  then have "ParseURI u = ([], [], u)" unfolding ParseURI_def by (simp only: no_scheme option.case)
  then show thesis by (rule that(1))
next
  case False
  then obtain c d w where u: "u = c # d # w" "IsLetter c" "Matches LETTER_DIGIT_DOT d"
    by (cases u; cases "tl u") auto
  let ?s = "c # d # takeWhile (Matches LETTER_DIGIT_DOT) w" and ?r = "dropWhile (Matches LETTER_DIGIT_DOT) w"
  have three: "length [58, 47, 47 :: byte] = 3" by simp
  note scan = scan_scheme [OF u(2,3), of "[58, 47, 47]" w, unfolded three]
  show thesis
  proof (cases "take 3 ?r = [58, 47, 47]")
    case True
    then have "?r = [58, 47, 47] @ drop 3 ?r" by (metis append_take_drop_id)
    then have "u = ?s @ [58, 47, 47] @ drop 3 ?r" unfolding u(1) by (metis append_Cons takeWhile_dropWhile_id)
    moreover have "ParseURI u = (?s, takeWhile (\<lambda>b. b \<noteq> SEP) (drop 3 ?r), dropWhile (\<lambda>b. b \<noteq> SEP) (drop 3 ?r))"
      unfolding ParseURI_def u(1) scan using True by (simp add: host_and_path)
    ultimately show thesis using that(2) [of ?s "drop 3 ?r"] by blast
  next
    case False
    then have "ParseURI u = ([], [], u)" unfolding ParseURI_def u(1) scan by simp
    then show thesis by (rule that(1))
  qed
qed

lemma CreateURI_ParseURI: "(case ParseURI u of (scheme, host, path) \<Rightarrow> CreateURI scheme host path) = u"
  by (rule ParseURI_cases [of u]) (simp_all add: CreateURI_def)

lemma ParseURI_CreateURI:
  assumes "scheme_ok scheme" "SEP \<notin> set host" "path = [] \<or> hd path = SEP"
  shows "ParseURI (CreateURI scheme host path) = (scheme, host, path)"
proof -
  obtain c d ds where s: "scheme = c # d # ds" "IsLetter c" "Matches LETTER_DIGIT_DOT d" "list_all (Matches LETTER_DIGIT_DOT) ds"
    using assms(1) by (cases scheme; cases "tl scheme") (auto simp: scheme_ok_def)
  let ?w = "ds @ [58, 47, 47] @ host @ path"
  have w: "takeWhile (Matches LETTER_DIGIT_DOT) ?w = ds" "dropWhile (Matches LETTER_DIGIT_DOT) ?w = [58, 47, 47] @ host @ path"
    using s(4) by (auto simp: takeWhile_append dropWhile_append list_all_iff IsLetter_def IsDigit_def)
  have p: "takeWhile (\<lambda>b. b \<noteq> SEP) (host @ path) = host" "dropWhile (\<lambda>b. b \<noteq> SEP) (host @ path) = path"
    using assms(2,3) by (cases path; auto simp: takeWhile_append dropWhile_append)+
  note scan = scan_scheme [OF s(2,3), of "[58, 47, 47]" ?w, unfolded w]
  have "CreateURI scheme host path = c # d # ?w" by (simp add: CreateURI_def s(1))
  then show ?thesis unfolding ParseURI_def by (simp only: scan) (simp add: host_and_path p s(1))
qed

section \<open>Missing directories\<close>

text \<open>The first \<open>i\<close> parts of an absolute or a relative path.\<close>

definition path_prefix :: "bool \<Rightarrow> byte list list \<Rightarrow> nat \<Rightarrow> byte list" where
  "path_prefix a cs i = base a @ join_parts (take i cs)"

lemma join_parts_snoc: "join_parts (xs @ [c]) = (if xs = [] then c else join_parts xs @ SEP # c)"
  by (induction xs rule: join_parts.induct) simp_all

lemma rfind_none: "SEP \<notin> set c \<Longrightarrow> length c < npos \<Longrightarrow> rfind_char c SEP npos = npos"
proof (cases "c = []")
  case False
  assume no: "SEP \<notin> set c" and len: "length c < npos"
  have n: "min npos (length c - 1) + 1 = length c" using False len by (cases c) (simp_all add: min_def)
  have "\<forall>j < length c. c ! j \<noteq> SEP" using no nth_mem by fastforce
  then have "rfind_loop c SEP (length c) = npos" using rfind_loop_none [of "length c" c SEP] len by simp
  with False show ?thesis unfolding rfind_char_def n by simp
qed (simp add: rfind_char_def)

lemma prefix_split:
  assumes "list_all proper cs" "i < length cs" "length (path_prefix a cs (Suc i)) < npos"
  shows "SplitPath (path_prefix a cs (Suc i)) = (path_prefix a cs i, cs ! i)"
    "JoinPathImpl [path_prefix a cs i, cs ! i] = path_prefix a cs (Suc i)"
    "\<not> ends_with (path_prefix a cs (Suc i)) [SEP]" "path_prefix a cs (Suc i) \<noteq> []"
proof -
  let ?c = "cs ! i"
  have c: "?c \<noteq> []" "SEP \<notin> set ?c" using assms(1,2) by (auto simp: list_all_length proper_def)
  then have abs: "\<not> IsAbsolutePath ?c" by (cases ?c) (auto simp: IsAbsolutePath_def)
  have take: "take (Suc i) cs = take i cs @ [?c]" using assms(2) by (rule take_Suc_conv_app_nth)
  have no_end: "\<not> ends_with (d @ ?c) [SEP]" for d
  proof -
    obtain e b where e: "?c = e @ [b]" "b \<noteq> SEP" using c by (cases ?c rule: rev_cases) auto
    have "memcmp [b] [SEP] \<noteq> 0" using memcmp_zero [of "[b]" "[SEP]"] e(2) by simp
    then show ?thesis by (simp add: ends_with_def e(1))
  qed
  have proper_take: "list_all proper (take i cs)" using assms(1) by (auto simp: list_all_iff dest: in_set_takeD)
  consider (rel) "i = 0" "\<not> a" | (root) "i = 0" "a" | (deep) "i \<noteq> 0" by blast
  then have "SplitPath (path_prefix a cs (Suc i)) = (path_prefix a cs i, ?c) \<and>
      JoinPathImpl [path_prefix a cs i, ?c] = path_prefix a cs (Suc i) \<and>
      \<not> ends_with (path_prefix a cs (Suc i)) [SEP] \<and> path_prefix a cs (Suc i) \<noteq> []"
  proof cases
    case rel
    then have p: "path_prefix a cs (Suc i) = ?c" "path_prefix a cs i = []"
      using take by (simp_all add: path_prefix_def base_def)
    show ?thesis
      using rfind_none [OF c(2)] assms(3) c no_end [of "[]"] unfolding p
      by (simp add: SplitPath_def JoinPathImpl_def join_one_def Let_def)
  next
    case root
    then have p: "path_prefix a cs (Suc i) = SEP # ?c" "path_prefix a cs i = [SEP]"
      using take by (simp_all add: path_prefix_def base_def)
    have "rfind_char ([] @ SEP # ?c) SEP npos = length ([] :: byte list)"
      by (rule rfind_SEP [OF c(2)]) (use assms(3) p in simp)
    then show ?thesis
      using c abs no_end [of "[SEP]"] unfolding p
      by (simp add: SplitPath_def JoinPathImpl_def join_one_def IsAbsolutePath_def Let_def npos_def)
  next
    case deep
    then have ne: "take i cs \<noteq> []" using assms(2) by (cases cs) simp_all
    then have j: "join_parts (take i cs) \<noteq> []" "last (join_parts (take i cs)) \<noteq> SEP"
      using join_proper [OF proper_take] by simp_all
    define d where "d = path_prefix a cs i"
    have d: "d \<noteq> []" "last d \<noteq> SEP" using j by (simp_all add: d_def path_prefix_def)
    have p: "path_prefix a cs (Suc i) = d @ SEP # ?c"
      using take ne by (simp add: path_prefix_def d_def join_parts_snoc)
    have "rfind_char (d @ SEP # ?c) SEP npos = length d" by (rule rfind_SEP [OF c(2)]) (use assms(3) p in simp)
    moreover have "length d < npos" using assms(3) p by simp
    ultimately show ?thesis
      using c abs d no_end [of "d @ [SEP]"] unfolding p d_def [symmetric]
      by (simp add: SplitPath_def JoinPathImpl_def join_one_def last_conv_nth Let_def)
  qed
  then show "SplitPath (path_prefix a cs (Suc i)) = (path_prefix a cs i, ?c)"
    "JoinPathImpl [path_prefix a cs i, ?c] = path_prefix a cs (Suc i)"
    "\<not> ends_with (path_prefix a cs (Suc i)) [SEP]" "path_prefix a cs (Suc i) \<noteq> []" by blast+
qed

lemma prefix_mono: "i \<le> j \<Longrightarrow> j \<le> length cs \<Longrightarrow> length (path_prefix a cs i) \<le> length (path_prefix a cs j)"
proof (induction j rule: dec_induct)
  case (step j)
  then show ?case by (auto simp: path_prefix_def take_Suc_conv_app_nth join_parts_snoc)
qed simp

lemma missing_down:
  assumes "list_all proper cs" "k \<le> i"
  shows "i \<le> length cs \<Longrightarrow> length (path_prefix a cs i) < npos \<Longrightarrow>
    \<forall>j. k < j \<and> j \<le> i \<longrightarrow> \<not> FileExists fs (CreateURI scheme host (path_prefix a cs j)) s \<Longrightarrow>
    missing_dirs fs scheme host (path_prefix a cs i) sub_dirs s =
      missing_dirs fs scheme host (path_prefix a cs k) (sub_dirs @ map ((!) cs) (rev [k..<i])) s"
  using assms(2)
proof (induction i arbitrary: sub_dirs rule: dec_induct)
  case (step i)
  note p = prefix_split [OF assms(1) Suc_le_lessD [OF step.prems(1)] step.prems(2)]
  have "length (path_prefix a cs i) \<le> length (path_prefix a cs (Suc i))"
    by (rule prefix_mono) (use step.prems(1) in simp_all)
  then have len: "length (path_prefix a cs i) < npos" using step.prems(2) by simp
  have "missing_dirs fs scheme host (path_prefix a cs (Suc i)) sub_dirs s =
      missing_dirs fs scheme host (path_prefix a cs i) (sub_dirs @ [cs ! i]) s"
    using step.prems(3) step.hyps p by (subst missing_dirs.simps) (simp add: Dirname_def Basename_def)
  also have "\<dots> = missing_dirs fs scheme host (path_prefix a cs k) ((sub_dirs @ [cs ! i]) @ map ((!) cs) (rev [k..<i])) s"
    by (rule step.IH) (use step.prems len in auto)
  finally show ?case using step.hyps by simp
qed simp

text \<open>Where even the root is missing, the loop stays there for ever.\<close>

lemma missing_root: "\<not> FileExists fs (CreateURI scheme host [SEP]) s \<Longrightarrow> missing_dirs fs scheme host [SEP] sub_dirs s = None"
proof -
  assume no: "\<not> FileExists fs (CreateURI scheme host [SEP]) s"
  have dir: "Dirname [SEP] = [SEP]"
    by (simp add: Dirname_def SplitPath_def rfind_char_def npos_def Let_def)
  have "False" if "missing_dirs fs scheme host r sub_dirs s = Some y" "r = [SEP]" for r sub_dirs y
  proof -
    let ?P = "\<lambda>fs' scheme' host' r sub_dirs s' (y :: byte list \<times> byte list list).
      \<not> (fs' = fs \<and> scheme' = scheme \<and> host' = host \<and> s' = s \<and> r = [SEP])"
    have "?P fs scheme host r sub_dirs s y"
    proof (rule missing_dirs.raw_induct [where P = ?P, OF _ that(1)])
      fix f fs' scheme' host' r sub_dirs s' y
      assume IH: "\<And>fs' scheme' host' r sub_dirs s' y. f fs' scheme' host' r sub_dirs s' = Some y \<Longrightarrow> ?P fs' scheme' host' r sub_dirs s' y"
        and eq: "(if \<not> FileExists fs' (CreateURI scheme' host' r) s' \<and> r \<noteq> [] then
          f fs' scheme' host' (Dirname r) (if \<not> ends_with r [SEP] then sub_dirs @ [Basename r] else sub_dirs) s'
          else Some (r, sub_dirs)) = Some y"
      show "?P fs' scheme' host' r sub_dirs s' y"
      proof (rule notI, elim conjE)
        assume here: "fs' = fs" "scheme' = scheme" "host' = host" "s' = s" "r = [SEP]"
        have "f fs scheme host [SEP] (if \<not> ends_with [SEP] [SEP] then sub_dirs @ [Basename [SEP]] else sub_dirs) s = Some y"
          using eq no by (simp only: here dir) (simp split: if_splits)
        from IH [OF this] show False by simp
      qed
    qed
    with that(2) show False by simp
  qed
  then show ?thesis by (cases "missing_dirs fs scheme host [SEP] sub_dirs s") blast+
qed

section \<open>Creating them\<close>

fun create_each :: "'s file_system \<Rightarrow> byte list list \<Rightarrow> 's \<Rightarrow> status \<times> 's" where
  "create_each fs [] s = (OK_status, s)"
| "create_each fs (d # ds) s = (let (st, s) = CreateDirectory fs d s in if is_ok st then create_each fs ds s else (st, s))"

lemma create_dirs_each:
  assumes "list_all proper cs" "k \<le> length cs" "length (path_prefix a cs (length cs)) < npos"
  shows "k \<le> i \<Longrightarrow> i \<le> length cs \<Longrightarrow>
    create_dirs fs scheme host (path_prefix a cs i) (map ((!) cs) [i..<length cs]) s =
      create_each fs (map (\<lambda>j. CreateURI scheme host (path_prefix a cs (Suc j))) [i..<length cs]) s"
proof (induction "length cs - i" arbitrary: i s)
  case (Suc m)
  then have i: "i < length cs" by simp
  have "length (path_prefix a cs (Suc i)) \<le> length (path_prefix a cs (length cs))"
    by (rule prefix_mono) (use i in simp_all)
  then have "length (path_prefix a cs (Suc i)) < npos" using assms(3) by simp
  note p = prefix_split [OF assms(1) i this]
  note IH = Suc.hyps(1) [of "Suc i"]
  have m: "m = length cs - Suc i" using Suc.hyps(2) by simp
  show ?case
    using IH [OF m] Suc.prems i by (simp add: upt_conv_Cons p Let_def split: prod.splits)
qed simp

lemma create_missing:
  assumes "ParseURI dirname = (scheme, host, path_prefix a cs (length cs))" "list_all proper cs"
    "length (path_prefix a cs (length cs)) < npos" "k \<le> length cs"
    "\<forall>j. k < j \<and> j \<le> length cs \<longrightarrow> \<not> FileExists fs (CreateURI scheme host (path_prefix a cs j)) s"
  shows "FileExists fs (CreateURI scheme host (path_prefix a cs k)) s \<or> path_prefix a cs k = [] \<Longrightarrow>
      CreateDirectoryRecursively fs dirname s =
        Some (create_each fs (map (\<lambda>j. CreateURI scheme host (path_prefix a cs (Suc j))) [k..<length cs]) s)"
    "k = 0 \<Longrightarrow> a \<Longrightarrow> \<not> FileExists fs (CreateURI scheme host [SEP]) s \<Longrightarrow> CreateDirectoryRecursively fs dirname s = None"
proof -
  note down = missing_down [OF assms(2,4) order_refl assms(3,5), of "[]"]
  {
    assume "FileExists fs (CreateURI scheme host (path_prefix a cs k)) s \<or> path_prefix a cs k = []"
    then have "missing_dirs fs scheme host (path_prefix a cs k) sub_dirs s = Some (path_prefix a cs k, sub_dirs)" for sub_dirs
      by (subst missing_dirs.simps) auto
    then show "CreateDirectoryRecursively fs dirname s =
        Some (create_each fs (map (\<lambda>j. CreateURI scheme host (path_prefix a cs (Suc j))) [k..<length cs]) s)"
      using down create_dirs_each [OF assms(2,4,3) order_refl assms(4)]
      by (simp add: CreateDirectoryRecursively_def assms(1) rev_map)
  next
    assume root: "k = 0" "a" "\<not> FileExists fs (CreateURI scheme host [SEP]) s"
    then have "path_prefix a cs k = [SEP]" by (simp add: path_prefix_def base_def)
    then show "CreateDirectoryRecursively fs dirname s = None"
      using down missing_root [OF root(3)] by (simp add: CreateDirectoryRecursively_def assms(1))
  }
qed

end
