(* ===== verification/File_Properties.thy ===== *)
theory File_Properties
  imports File_System_Laws
begin

text \<open>
  The properties of \<open>src/base/platform/file_system.cc\<close>: the names with a scheme and a host, and the
  directories that \<open>CreateDirectoryRecursively\<close> creates.
\<close>

text \<open>
  C36. Round trip: \<open>CreateURI\<close> gives back every text that \<open>ParseURI\<close> took apart, and \<open>ParseURI\<close> takes
  apart what \<open>CreateURI\<close> put together of a scheme, a host and a path. The scheme has two
  characters at least: \<open>a://b\<close> is a path and has no scheme.
\<close>

theorem uri_roundtrip:
  "(case ParseURI u of (scheme, host, path) \<Rightarrow> CreateURI scheme host path = u) \<and>
   (scheme_ok scheme \<and> SEP \<notin> set host \<and> (path = [] \<or> hd path = SEP) \<longrightarrow>
      ParseURI (CreateURI scheme host path) = (scheme, host, path)) \<and>
   ParseURI [97, 58, 47, 47, 98] = ([], [], [97, 58, 47, 47, 98])"
proof (intro conjI impI)
  show "case ParseURI u of (scheme, host, path) \<Rightarrow> CreateURI scheme host path = u"
    using CreateURI_ParseURI [of u] by (simp split: prod.splits)
  show "ParseURI (CreateURI scheme host path) = (scheme, host, path)"
    if "scheme_ok scheme \<and> SEP \<notin> set host \<and> (path = [] \<or> hd path = SEP)"
    using that ParseURI_CreateURI by blast
  show "ParseURI [97, 58, 47, 47, 98] = ([], [], [97, 58, 47, 47, 98])"
    by (simp add: ParseURI_def GetResult_def OneLiteral_def StopCapture_def Many_def Any_def One_def Error_def
        make_scanner_def RestartCapture_def cur_def IsLetter_def IsDigit_def starts_with_take)
qed

lemma short_parts: "scheme_ok [103, 115]" "list_all proper [[97], [98]]"
  by (simp_all add: scheme_ok_def proper_def IsLetter_def IsDigit_def)

text \<open>The bucket \<open>b\<close>, the path \<open>/x\<close> and the scheme \<open>gs\<close>.\<close>

theorem uri_roundtrip_witness: "ParseURI (CreateURI [103, 115] [98] [SEP, 120]) = ([103, 115], [98], [SEP, 120])"
  using uri_roundtrip [of "[]" "[103, 115]" "[98]" "[SEP, 120]"] by (simp add: short_parts)

text \<open>
  C35. \<open>CreateDirectoryRecursively\<close> of a path of proper parts, of which the first \<open>k\<close> are there and
  no longer ones: the directories from the part \<open>k + 1\<close> on are created, the shortest first, up to
  the first that fails, and nothing else. Where not even the root of an absolute path is there the
  loop does not end, as the directory of \<open>/\<close> is \<open>/\<close>.
\<close>

theorem directories_are_created:
  assumes "ParseURI dirname = (scheme, host, path_prefix a cs (length cs))" "list_all proper cs"
    "length (path_prefix a cs (length cs)) < npos" "k \<le> length cs"
    "\<forall>j. k < j \<and> j \<le> length cs \<longrightarrow> \<not> FileExists fs (CreateURI scheme host (path_prefix a cs j)) s"
    "k = 0 \<or> FileExists fs (CreateURI scheme host (path_prefix a cs k)) s"
  shows "CreateDirectoryRecursively fs dirname s =
    (if k = 0 \<and> a \<and> \<not> FileExists fs (CreateURI scheme host [SEP]) s then None
     else Some (create_each fs (map (\<lambda>j. CreateURI scheme host (path_prefix a cs (Suc j))) [k..<length cs]) s))"
proof (cases "k = 0 \<and> a \<and> \<not> FileExists fs (CreateURI scheme host [SEP]) s")
  case True
  then show ?thesis using create_missing(2) [OF assms(1-5)] by simp
next
  case False
  have "path_prefix a cs 0 = (if a then [SEP] else [])" by (simp add: path_prefix_def base_def)
  then have "FileExists fs (CreateURI scheme host (path_prefix a cs k)) s \<or> path_prefix a cs k = []"
    using False assms(6) by (auto split: if_splits)
  from create_missing(1) [OF assms(1-5) this] False show ?thesis by simp
qed

text \<open>A system that keeps the list of its directories, with \<open>gs://b/a/b\<close> on it.\<close>

definition directory_list :: "byte list list file_system" where
  "directory_list =
     \<lparr>FileExists = (\<lambda>p s. p \<in> set s), GetChildren = (\<lambda>p s. (OK_status, [])), Stat_is_directory = (\<lambda>p s. (OK_status, True)),
      DeleteFile = (\<lambda>p s. (OK_status, s)), DeleteDirectory = (\<lambda>p s. (OK_status, removeAll p s)),
      CreateDirectory = (\<lambda>p s. (OK_status, s @ [p])), MatchPath = (\<lambda>p q. p = q)\<rparr>"

theorem directories_are_created_witness:
  "let name = CreateURI [103, 115] [98] in
   CreateDirectoryRecursively directory_list (name [SEP, 97, SEP, 98]) [name [SEP]] =
     Some (OK_status, [name [SEP], name [SEP, 97], name [SEP, 97, SEP, 98]]) \<and>
   CreateDirectoryRecursively directory_list (name [SEP, 97, SEP, 98]) [] = None"
proof -
  let ?name = "CreateURI [103, 115] [98]" and ?cs = "[[97], [98]] :: byte list list"
  have p: "path_prefix True ?cs (length ?cs) = [SEP, 97, SEP, 98]" "path_prefix True ?cs (Suc 0) = [SEP, 97]"
    "path_prefix True ?cs (Suc (Suc 0)) = [SEP, 97, SEP, 98]"
    by (simp_all add: path_prefix_def base_def)
  have uri: "ParseURI (?name [SEP, 97, SEP, 98]) = ([103, 115], [98], path_prefix True ?cs (length ?cs))"
    unfolding p by (rule ParseURI_CreateURI) (simp_all add: short_parts)
  have prefixes: "?name (path_prefix True ?cs j) \<noteq> ?name [SEP]" if "0 < j" "j \<le> length ?cs" for j
    using that by (cases j; cases "j - 1") (auto simp: p CreateURI_def)
  note created = directories_are_created [OF uri short_parts(2), where k = 0 and fs = directory_list]
  have "CreateDirectoryRecursively directory_list (?name [SEP, 97, SEP, 98]) [?name [SEP]] =
      Some (OK_status, [?name [SEP], ?name [SEP, 97], ?name [SEP, 97, SEP, 98]])"
    by (subst created) (use prefixes in \<open>auto simp: p npos_def directory_list_def is_ok_def OK_status_def upt_rec\<close>)
  moreover have "CreateDirectoryRecursively directory_list (?name [SEP, 97, SEP, 98]) [] = None"
    by (subst created) (auto simp: p npos_def directory_list_def)
  ultimately show ?thesis by (simp add: Let_def)
qed

end
