(* ===== verification/Log_Database.thy ===== *)
theory Log_Database
  imports Stringpiece String_Encode
begin

text \<open>
  \<open>src/log/leveldb_database.cc\<close>: the log of entries with a sequence number, kept in leveldb under
  keys in hexadecimal, with its index in memory. leveldb is a parameter: \<open>Get\<close>, \<open>Put\<close> and the pairs
  that an iterator goes through from a key on. The class of the entries is one as well;
  \<open>src/log/logged_entry.h\<close> has a placeholder for it.
\<close>

section \<open>The entries and the store\<close>

record 'e logged_entry =
  SerializeToString :: "'e \<Rightarrow> byte list"
  sequence_number :: "'e \<Rightarrow> int"
  Hash :: "'e \<Rightarrow> byte list"
  ParseFromString :: "byte list \<Rightarrow> 'e option"

text \<open>The placeholder: every entry is the same. \<open>SerializeToString\<close> leaves the text empty.\<close>

definition LoggedEntry :: "unit logged_entry" where
  "LoggedEntry =
     \<lparr>SerializeToString = (\<lambda>_. []), sequence_number = (\<lambda>_. 11), Hash = (\<lambda>_. [72, 97, 115, 104]),
      ParseFromString = (\<lambda>_. Some ())\<rparr>"

datatype db_status = Db_ok | Db_not_found | Db_failed

record 'd leveldb =
  Get :: "byte list \<Rightarrow> 'd \<Rightarrow> db_status \<times> byte list"
  Put :: "byte list \<Rightarrow> byte list \<Rightarrow> 'd \<Rightarrow> db_status \<times> 'd"
  Seek_from :: "byte list \<Rightarrow> 'd \<Rightarrow> (byte list \<times> byte list) list"

section \<open>Keys\<close>

definition kEntryPrefix :: "byte list" where
  "kEntryPrefix = [101, 110, 116, 114, 121, 45]"

definition nibble :: "byte list" where
  "nibble = [48, 49, 50, 51, 52, 53, 54, 55, 56, 57, 97, 98, 99, 100, 101, 102]"

text \<open>A signed number of 64 bits is an integer, shifted as such.\<close>

fun index_digits :: "nat \<Rightarrow> int \<Rightarrow> byte list \<Rightarrow> byte list" where
  "index_digits 0 index index_str = index_str"
| "index_digits (Suc i) index index_str =
     (if index > 0 then index_digits i (drop_bit 4 index) (index_str[i := nibble ! nat (index AND 0xf)])
      else index_str)"

definition IndexToKey :: "int \<Rightarrow> byte list" where
  "IndexToKey index = kEntryPrefix @ index_digits 16 index (replicate 16 (nibble ! 0))"

definition KeyToIndex :: "byte \<Rightarrow> byte list \<Rightarrow> fault + int" where
  "KeyToIndex fill key =
     (if \<not> starts_with key kEntryPrefix then Inl Assertion_failed
      else
        and_then (HexDecode fill (drop (length kEntryPrefix) key)) (\<lambda>index_str.
        if length index_str \<noteq> 8 then Inl Assertion_failed
        else Inr (fold (\<lambda>c index. signed_take_bit 63 (push_bit 8 index OR int (unat c))) index_str 0)))"

section \<open>The index\<close>

text \<open>\<open>sparse_entries_\<close> is a \<open>std::set\<close>, in its order.\<close>

record 'd leveldb_database =
  db :: 'd
  contiguous_size :: int
  id_by_hash :: "byte list \<Rightarrow> int option"
  sparse_entries :: "int list"

fun grow_contiguous :: "int \<Rightarrow> int list \<Rightarrow> int \<times> int list" where
  "grow_contiguous n (i # is) = (if i = n then grow_contiguous (n + 1) is else (n, i # is))"
| "grow_contiguous n [] = (n, [])"

definition InsertEntryMapping :: "int \<Rightarrow> byte list \<Rightarrow> 'd leveldb_database \<Rightarrow> fault + 'd leveldb_database" where
  "InsertEntryMapping seq hash D =
     (let ids = (case id_by_hash D hash of
          None \<Rightarrow> (id_by_hash D)(hash \<mapsto> seq)
        | Some old \<Rightarrow> (id_by_hash D)(hash \<mapsto> min old seq));
        D = D\<lparr>id_by_hash := ids\<rparr> in
      if seq = contiguous_size D then
        let n = contiguous_size D + 1; found = dropWhile (\<lambda>i. i \<noteq> n) (sparse_entries D);
            (grown, left) = grow_contiguous n found in
        Inr (D\<lparr>contiguous_size := grown, sparse_entries := takeWhile (\<lambda>i. i \<noteq> n) (sparse_entries D) @ left\<rparr>)
      else if seq \<in> set (sparse_entries D) then Inl Assertion_failed
      else Inr (D\<lparr>sparse_entries := insort seq (sparse_entries D)\<rparr>))"

section \<open>Reading through the entries\<close>

text \<open>
  What \<open>GetNextEntry\<close> and the loop of \<open>BuildIndex\<close> do with one pair: the key gives the number, the
  entry must parse and must have it.
\<close>

definition parse_pair :: "'e logged_entry \<Rightarrow> byte \<Rightarrow> byte list \<times> byte list \<Rightarrow> fault + 'e" where
  "parse_pair E fill kv =
     and_then (KeyToIndex fill (fst kv)) (\<lambda>seq.
     case ParseFromString E (snd kv) of
       None \<Rightarrow> Inl Assertion_failed
     | Some logged \<Rightarrow> if sequence_number E logged \<noteq> seq then Inl Assertion_failed else Inr logged)"

definition ScanEntries :: "'d leveldb \<Rightarrow> int \<Rightarrow> 'd leveldb_database \<Rightarrow> (byte list \<times> byte list) list" where
  "ScanEntries L start_index D = Seek_from L (IndexToKey start_index) (db D)"

definition GetNextEntry ::
    "'e logged_entry \<Rightarrow> byte \<Rightarrow> (byte list \<times> byte list) list \<Rightarrow> fault + ('e \<times> (byte list \<times> byte list) list) option" where
  "GetNextEntry E fill it =
     (case it of
        [] \<Rightarrow> Inr None
      | kv # it \<Rightarrow>
          if \<not> starts_with (fst kv) kEntryPrefix then Inr None
          else and_then (parse_pair E fill kv) (\<lambda>entry. Inr (Some (entry, it))))"

text \<open>A client that reads to the end.\<close>

fun read_all :: "'e logged_entry \<Rightarrow> byte \<Rightarrow> (byte list \<times> byte list) list \<Rightarrow> fault + 'e list" where
  "read_all E fill [] = and_then (GetNextEntry E fill []) (\<lambda>r. Inr [])"
| "read_all E fill (kv # it) =
     and_then (GetNextEntry E fill (kv # it)) (\<lambda>r.
     case r of None \<Rightarrow> Inr [] | Some (entry, _) \<Rightarrow> and_then (read_all E fill it) (\<lambda>es. Inr (entry # es)))"

fun build_index ::
    "'e logged_entry \<Rightarrow> byte \<Rightarrow> (byte list \<times> byte list) list \<Rightarrow> 'd leveldb_database \<Rightarrow> fault + 'd leveldb_database" where
  "build_index E fill [] D = Inr D"
| "build_index E fill (kv # it) D =
     (if starts_with (fst kv) kEntryPrefix then
        and_then (parse_pair E fill kv) (\<lambda>logged.
        and_then (InsertEntryMapping (sequence_number E logged) (Hash E logged) D) (build_index E fill it))
      else Inr D)"

definition BuildIndex :: "'e logged_entry \<Rightarrow> 'd leveldb \<Rightarrow> byte \<Rightarrow> 'd leveldb_database \<Rightarrow> fault + 'd leveldb_database" where
  "BuildIndex E L fill D = build_index E fill (Seek_from L kEntryPrefix (db D)) D"

definition open_database :: "'e logged_entry \<Rightarrow> 'd leveldb \<Rightarrow> byte \<Rightarrow> 'd \<Rightarrow> fault + 'd leveldb_database" where
  "open_database E L fill d =
     BuildIndex E L fill \<lparr>db = d, contiguous_size = 0, id_by_hash = Map.empty, sparse_entries = []\<rparr>"

section \<open>Writing and looking up\<close>

datatype write_result =
    Write_OK | MISSING_CHARGE_HASH | DUPLICATE_CHARGE_HAS | ENTRY_NOT_FOUND | SEQUENCE_NUMBER_ALREADY_IN_USE

datatype 'e lookup_result = LOOKUP_OK "'e option" | LOOKUP_NOT_FOUND

definition CreateSequencedEntry ::
    "'e logged_entry \<Rightarrow> 'd leveldb \<Rightarrow> 'e \<Rightarrow> 'd leveldb_database \<Rightarrow> fault + write_result \<times> 'd leveldb_database" where
  "CreateSequencedEntry E L logged D =
     (let data = SerializeToString E logged; key = IndexToKey (sequence_number E logged);
          (status, existing_data) = Get L key (db D) in
      if status = Db_not_found then
        case Put L key data (db D) of
          (status, d) \<Rightarrow>
            if status \<noteq> Db_ok then Inl Assertion_failed
            else
              and_then (InsertEntryMapping (sequence_number E logged) (Hash E logged) (D\<lparr>db := d\<rparr>)) (\<lambda>D.
              Inr (Write_OK, D))
      else if existing_data = data then Inr (Write_OK, D)
      else Inr (SEQUENCE_NUMBER_ALREADY_IN_USE, D))"

text \<open>\<open>result\<close> is whether the caller wants the entry.\<close>

definition LookupByHash ::
    "'e logged_entry \<Rightarrow> 'd leveldb \<Rightarrow> byte list \<Rightarrow> bool \<Rightarrow> 'd leveldb_database \<Rightarrow> fault + 'e lookup_result" where
  "LookupByHash E L hash result D =
     (case id_by_hash D hash of
        None \<Rightarrow> Inr LOOKUP_NOT_FOUND
      | Some i \<Rightarrow>
          (case Get L (IndexToKey i) (db D) of
             (status, data) \<Rightarrow>
               if status = Db_not_found then Inr LOOKUP_NOT_FOUND
               else if status \<noteq> Db_ok then Inl Assertion_failed
               else if \<not> result then Inr (LOOKUP_OK None)
               else
                 (case ParseFromString E data of
                    None \<Rightarrow> Inl Assertion_failed
                  | Some e \<Rightarrow> if Hash E e \<noteq> hash then Inl Assertion_failed else Inr (LOOKUP_OK (Some e)))))"

definition LookupByIndex ::
    "'e logged_entry \<Rightarrow> 'd leveldb \<Rightarrow> int \<Rightarrow> bool \<Rightarrow> 'd leveldb_database \<Rightarrow> fault + 'e lookup_result" where
  "LookupByIndex E L seq result D =
     (case Get L (IndexToKey seq) (db D) of
        (status, data) \<Rightarrow>
          if status = Db_not_found then Inr LOOKUP_NOT_FOUND
          else if status \<noteq> Db_ok then Inl Assertion_failed
          else if \<not> result then Inr (LOOKUP_OK None)
          else
            (case ParseFromString E data of
               None \<Rightarrow> Inl Assertion_failed
             | Some e \<Rightarrow>
                 if sequence_number E e \<noteq> seq then Inl Assertion_failed else Inr (LOOKUP_OK (Some e))))"

end
