(* ===== verification/Log_Database_Laws.thy ===== *)
theory Log_Database_Laws
  imports Log_Database String_Encode_Laws File_System_Laws
begin

text \<open>
  The keys of the log are read back and are in the order of the numbers, and the index in memory is
  a function of the entries that are stored: it is the same whether it has grown with the log or was
  built when the database was opened.
\<close>

section \<open>Keys\<close>

fun hex_digits :: "nat \<Rightarrow> nat \<Rightarrow> byte list" where
  "hex_digits 0 n = []"
| "hex_digits (Suc i) n = hex_digits i (n div 16) @ [nibble ! (n mod 16)]"

lemma length_hex_digits [simp]: "length (hex_digits i n) = i"
  by (induction i arbitrary: n) simp_all

lemma hex_digits_zero: "hex_digits i 0 = replicate i (nibble ! 0)"
  by (induction i) (simp_all add: replicate_append_same)

lemma nat_and_15: "nat (n AND 0xf) = nat n mod 16" if "0 \<le> n" for n :: int
proof -
  have "n AND 0xf = n mod 16" using take_bit_eq_mask [of 4 n] by (simp add: take_bit_eq_mod mask_eq_exp_minus_1)
  then show ?thesis using that by (simp add: nat_mod_distrib)
qed

lemma index_digits_text:
  "index_digits i n (replicate i (nibble ! 0) @ t) = hex_digits i (nat n) @ t"
proof (induction i arbitrary: n t)
  case (Suc i)
  show ?case
  proof (cases "n > 0")
    case True
    have "(replicate (Suc i) (nibble ! 0) @ t)[i := x] = replicate i (nibble ! 0) @ x # t" for x
      by (simp add: replicate_append_same [symmetric] list_update_append)
    moreover have "nat (drop_bit 4 n) = nat n div 16" using True by (simp add: drop_bit_eq_div nat_div_distrib)
    ultimately show ?thesis using True Suc.IH [of "drop_bit 4 n" "nibble ! nat (n AND 0xf) # t"] by (simp add: nat_and_15)
  next
    case False
    then show ?thesis by (simp add: hex_digits_zero replicate_append_same)
  qed
qed simp

lemma IndexToKey_digits: "IndexToKey n = kEntryPrefix @ hex_digits 16 (nat n)"
  using index_digits_text [of 16 n "[]"] by (simp add: IndexToKey_def)

lemma IndexToKey_negative: "n \<le> 0 \<Longrightarrow> IndexToKey n = IndexToKey 0"
  by (simp add: IndexToKey_digits)

lemma IndexToKey_prefix [simp]: "starts_with (IndexToKey n) kEntryPrefix"
  by (simp add: IndexToKey_digits starts_with_take)

lemma nibbles_ascend: "i < j \<Longrightarrow> j < 16 \<Longrightarrow> nibble ! i < nibble ! j"
proof -
  have "sorted_wrt (<) nibble" by (simp add: nibble_def)
  moreover have "length nibble = 16" by (simp add: nibble_def)
  ultimately show "i < j \<Longrightarrow> j < 16 \<Longrightarrow> ?thesis" by (simp add: sorted_wrt_iff_nth_less)
qed

lemma nibble_less_iff: "i < 16 \<Longrightarrow> j < 16 \<Longrightarrow> nibble ! i < nibble ! j \<longleftrightarrow> i < j"
  by (metis nibbles_ascend linorder_neqE_nat order_less_asym order_less_irrefl)

lemma snoc_less: "length x = length y \<Longrightarrow> x @ [c] < y @ [d] \<longleftrightarrow> x < y \<or> (x = y \<and> c < d)" for c d :: byte
  by (induction x y rule: list_induct2) auto

lemma append_same_less [simp]: "p @ x < p @ y \<longleftrightarrow> x < y" for p :: "byte list"
  by (induction p) simp_all

lemma append_same_le [simp]: "p @ x \<le> p @ y \<longleftrightarrow> x \<le> y" for p :: "byte list"
  by (induction p) simp_all

lemma div_mod_less: "a div 16 < b div 16 \<or> a div 16 = b div 16 \<and> a mod 16 < b mod 16 \<longleftrightarrow> a < (b :: nat)"
proof -
  obtain q r q' r' where "a = 16 * q + r" "r < 16" "b = 16 * q' + r'" "r' < 16"
    using mult_div_mod_eq [of 16 a] mult_div_mod_eq [of 16 b] mod_less_divisor [of 16] by (metis zero_less_numeral)
  then show ?thesis by auto
qed

lemma hex_digits_less: "a < 16 ^ i \<Longrightarrow> b < 16 ^ i \<Longrightarrow> hex_digits i a < hex_digits i b \<longleftrightarrow> a < b"
proof (induction i arbitrary: a b)
  case (Suc i)
  have bounds: "a div 16 < 16 ^ i" "b div 16 < 16 ^ i" using Suc.prems by (simp_all add: less_mult_imp_div_less mult.commute)
  note IH = Suc.IH [OF bounds] Suc.IH [OF bounds(2,1)]
  have "hex_digits i (a div 16) = hex_digits i (b div 16) \<longleftrightarrow> a div 16 = b div 16"
    using IH by (metis linorder_neqE_nat order_less_irrefl)
  then show ?case using IH(1) by (simp add: snoc_less nibble_less_iff div_mod_less)
qed simp

lemma key_less: "0 \<le> a \<Longrightarrow> a < 2 ^ 63 \<Longrightarrow> 0 \<le> b \<Longrightarrow> b < 2 ^ 63 \<Longrightarrow> IndexToKey a < IndexToKey b \<longleftrightarrow> a < b"
  by (auto simp: IndexToKey_digits hex_digits_less nat_less_iff zless_nat_conj)

lemma key_le: "0 \<le> a \<Longrightarrow> a < 2 ^ 63 \<Longrightarrow> 0 \<le> b \<Longrightarrow> b < 2 ^ 63 \<Longrightarrow> IndexToKey a \<le> IndexToKey b \<longleftrightarrow> a \<le> b"
  using key_less [of b a] by (simp add: linorder_not_less [symmetric])

lemma key_eq: "0 \<le> a \<Longrightarrow> a < 2 ^ 63 \<Longrightarrow> 0 \<le> b \<Longrightarrow> b < 2 ^ 63 \<Longrightarrow> IndexToKey a = IndexToKey b \<longleftrightarrow> a = b"
  using key_le [of a b] key_le [of b a] by auto

section \<open>Keys are read back\<close>

definition low_text :: "byte list \<Rightarrow> byte list" where
  "low_text s = concat (map (\<lambda>ch. [nibble ! unat (drop_bit 4 ch AND 0xF), nibble ! unat (ch AND 0xF)]) s)"

lemma low_digit: "v < 16 \<Longrightarrow> HexDecode_digit (nibble ! unat v) = Some v"
proof -
  have "list_all (\<lambda>v. HexDecode_digit (nibble ! unat v) = Some v) (map of_nat [0..<16])"
    by (simp add: upt_rec nibble_def HexDecode_digit_def)
  then show "v < 16 \<Longrightarrow> ?thesis" using digit_cases unfolding list_all_iff by blast
qed

lemma decode_low_text:
  "length s \<le> length rest \<Longrightarrow>
    hex_decode_loop 0 (low_text s) (length out) (out @ rest) = Inr (length out + length s, out @ s @ drop (length s) rest)"
proof (induction s arbitrary: out rest)
  case (Cons ch s)
  then obtain r0 r where rest: "rest = r0 # r" by (cases rest) auto
  note h = low_digit [OF and_0xF_less, of "drop_bit 4 ch"] low_digit [OF and_0xF_less, of ch]
  from Cons.IH [of r "out @ [ch]"] Cons.prems show ?case
    by (simp add: low_text_def h two_halves rest del: push_bit_and)
qed (simp add: low_text_def)

lemma length_low_text: "length (low_text s) = 2 * length s"
  by (induction s) (simp_all add: low_text_def)

lemma HexDecode_low_text: "HexDecode fill (low_text s) = Inr s"
proof (cases "s = []")
  case False
  then show ?thesis
    using decode_low_text [of s "replicate (length s) fill" "[]"]
    by (simp add: HexDecode_def HexDecodeWithDelimiter_buf_def length_low_text Let_def)
qed (simp add: HexDecode_def low_text_def)

fun big_endian :: "nat \<Rightarrow> nat \<Rightarrow> byte list" where
  "big_endian 0 n = []"
| "big_endian (Suc i) n = big_endian i (n div 256) @ [of_nat (n mod 256)]"

lemma length_big_endian [simp]: "length (big_endian i n) = i"
  by (induction i arbitrary: n) simp_all

lemma byte_halves:
  assumes "m < 256"
  shows "unat (drop_bit 4 (of_nat m :: byte) AND 0xF) = m div 16" "unat ((of_nat m :: byte) AND 0xF) = m mod 16"
proof -
  have m: "unat (of_nat m :: byte) = m" using assms by (simp add: unat_of_nat)
  have "unat ((of_nat m :: byte) AND 0xF) = unat (of_nat m :: byte) mod 2 ^ 4"
    unfolding masks take_bit_eq_mask [symmetric] unsigned_take_bit_eq by (rule take_bit_eq_mod)
  then show "unat ((of_nat m :: byte) AND 0xF) = m mod 16" by (simp add: m)
  have "unat (drop_bit 4 (of_nat m :: byte)) = drop_bit 4 (take_bit LENGTH(8) (unat (of_nat m :: byte)))"
    by (rule unsigned_drop_bit_eq)
  also have "\<dots> = m div 16" unfolding m using assms by (simp add: drop_bit_eq_div take_bit_eq_mod)
  finally have d: "unat (drop_bit 4 (of_nat m :: byte)) = m div 16" .
  have "unat (drop_bit 4 (of_nat m :: byte) AND 0xF) = unat (drop_bit 4 (of_nat m :: byte)) mod 2 ^ 4"
    unfolding masks take_bit_eq_mask [symmetric] unsigned_take_bit_eq by (rule take_bit_eq_mod)
  then show "unat (drop_bit 4 (of_nat m :: byte) AND 0xF) = m div 16" using assms by (simp add: d)
qed

lemma hex_digits_text: "hex_digits (2 * i) n = low_text (big_endian i n)"
proof (induction i arbitrary: n)
  case (Suc i)
  have "n div 16 div 16 = n div 256" "n div 16 mod 16 = n mod 256 div 16" "n mod 16 = n mod 256 mod 16"
    using mod_mult2_eq [of n 16 16] by (simp_all add: div_mult2_eq [symmetric] mod_mod_cancel)
  then show ?case using Suc.IH [of "n div 256"] byte_halves [of "n mod 256"] by (simp add: low_text_def del: of_nat_mod)
qed (simp add: low_text_def)

lemma shifted_or_byte: "0 \<le> b \<Longrightarrow> b < 256 \<Longrightarrow> push_bit 8 a OR b = a * 256 + b" for a b :: int
proof -
  assume "0 \<le> b" "b < 256"
  then have b: "take_bit 8 b = b" by (simp add: take_bit_int_eq_self)
  have "push_bit 8 a AND take_bit 8 b = 0" by (rule bit_eqI) (auto simp: bit_simps)
  then show ?thesis using plus_and_or [of "push_bit 8 a" b] by (simp add: push_bit_eq_mult b)
qed

lemma big_endian_value:
  "n < 2 ^ 63 \<Longrightarrow> fold (\<lambda>c index. signed_take_bit 63 (push_bit 8 index OR int (unat c))) (big_endian i n) 0 = int (n mod 256 ^ i)"
proof (induction i arbitrary: n)
  case (Suc i)
  have "n div 256 < 2 ^ 63" using Suc.prems by linarith
  note IH = Suc.IH [OF this]
  let ?m = "n div 256 mod 256 ^ i"
  have split: "?m * 256 + n mod 256 = n mod 256 ^ Suc i" by (simp add: mod_mult2_eq)
  have "push_bit 8 (int ?m) OR int (n mod 256) = int ?m * 256 + int (n mod 256)"
    by (rule shifted_or_byte) simp_all
  also have "\<dots> = int (n mod 256 ^ Suc i)" by (simp only: split [symmetric] of_nat_add of_nat_mult of_nat_numeral)
  finally have or: "push_bit 8 (int ?m) OR int (n mod 256) = int (n mod 256 ^ Suc i)" .
  have "n mod 256 ^ Suc i \<le> n" by simp
  then have "int (n mod 256 ^ Suc i) < 2 ^ 63" using Suc.prems unfolding zless_nat_eq_int_zless [symmetric] by (metis nat_int of_nat_less_iff of_nat_numeral of_nat_power order_le_less_trans)
  then have "signed_take_bit 63 (int (n mod 256 ^ Suc i)) = int (n mod 256 ^ Suc i)"
    by (intro signed_take_bit_int_eq_self) simp_all
  then show ?case using or by (simp only: big_endian.simps fold_append comp_apply fold.simps IH id_apply) (simp add: unat_of_nat)
qed simp

lemma KeyToIndex_IndexToKey: "0 \<le> n \<Longrightarrow> n < 2 ^ 63 \<Longrightarrow> KeyToIndex fill (IndexToKey n) = Inr n"
proof -
  assume n: "0 \<le> n" "n < 2 ^ 63"
  have "hex_digits 16 (nat n) = low_text (big_endian 8 (nat n))" using hex_digits_text [of 8 "nat n"] by simp
  moreover have "nat n mod 256 ^ 8 = nat n" using n by simp
  moreover have "nat n < 2 ^ 63" using n by simp
  ultimately show ?thesis using n big_endian_value [of "nat n" 8]
    by (simp add: KeyToIndex_def starts_with_take IndexToKey_digits HexDecode_low_text)
qed

section \<open>The index\<close>

text \<open>
  The entries are a map from numbers. The index has the first number that is missing, the numbers
  behind it, and for every hash the least number of an entry that has it.
\<close>

definition least_with :: "'e logged_entry \<Rightarrow> (int \<Rightarrow> 'e option) \<Rightarrow> byte list \<Rightarrow> int option" where
  "least_with E M h =
     (let S = {n \<in> dom M. Hash E (the (M n)) = h} in if S = {} then None else Some (Min S))"

definition indexed :: "'e logged_entry \<Rightarrow> (int \<Rightarrow> 'e option) \<Rightarrow> 'd leveldb_database \<Rightarrow> bool" where
  "indexed E M D \<longleftrightarrow> finite (dom M) \<and> dom M \<subseteq> {0..<2 ^ 63} \<and>
     0 \<le> contiguous_size D \<and> {0..<contiguous_size D} \<subseteq> dom M \<and> contiguous_size D \<notin> dom M \<and>
     sparse_entries D = sorted_list_of_set {n \<in> dom M. contiguous_size D < n} \<and> id_by_hash D = least_with E M"

lemma indexed_empty: "indexed E Map.empty \<lparr>db = d, contiguous_size = 0, id_by_hash = Map.empty, sparse_entries = []\<rparr>"
  by (simp add: indexed_def least_with_def fun_eq_iff)

text \<open>The index is determined by the entries.\<close>

lemma indexed_unique:
  assumes "indexed E M D" "indexed E M D'" "db D = db D'"
  shows "D = (D' :: 'd leveldb_database)"
proof -
  have "contiguous_size D = contiguous_size D'"
  proof (rule ccontr)
    assume "contiguous_size D \<noteq> contiguous_size D'"
    then consider "contiguous_size D < contiguous_size D'" | "contiguous_size D' < contiguous_size D" by linarith
    then show False
    proof cases
      case 1
      then have "contiguous_size D \<in> {0..<contiguous_size D'}" using assms(1) by (simp add: indexed_def)
      then show False using assms(1,2) unfolding indexed_def by blast
    next
      case 2
      then have "contiguous_size D' \<in> {0..<contiguous_size D}" using assms(2) by (simp add: indexed_def)
      then show False using assms(1,2) unfolding indexed_def by blast
    qed
  qed
  then show ?thesis using assms by (intro leveldb_database.equality) (simp_all add: indexed_def)
qed

lemma grow_contiguous_spec:
  assumes "sorted_wrt (<) is" "\<forall>i\<in>set is. n \<le> i"
  shows "\<exists>m left. grow_contiguous n is = (m, left) \<and> n \<le> m \<and> set is = {n..<m} \<union> set left \<and>
    (\<forall>i\<in>set left. m < i) \<and> sorted_wrt (<) left"
  using assms
proof (induction n "is" rule: grow_contiguous.induct)
  case (1 n i "is")
  show ?case
  proof (cases "i = n")
    case True
    have "\<forall>i\<in>set is. n + 1 \<le> i" using 1(2) True by auto
    with 1(1) [OF True] 1(2) obtain m left where
      r: "grow_contiguous (n + 1) is = (m, left)" "n + 1 \<le> m" "set is = {n + 1..<m} \<union> set left"
        "\<forall>i\<in>set left. m < i" "sorted_wrt (<) left" by auto
    have "set (i # is) = {n..<m} \<union> set left" using True r(2,3) by auto
    moreover have "grow_contiguous n (i # is) = (m, left)" using True r(1) by simp
    moreover have "n \<le> m" using r(2) by simp
    ultimately show ?thesis using r(4,5) by blast
  next
    case False
    then have "n < i" using 1(3) by auto
    then show ?thesis using 1(2,3) False by auto
  qed
qed simp

lemma grow_unless_missing:
  assumes "sorted_wrt (<) is" "\<forall>i\<in>set is. n \<le> i"
  shows "(let (m, left) = grow_contiguous n (dropWhile (\<lambda>i. i \<noteq> n) is) in (m, takeWhile (\<lambda>i. i \<noteq> n) is @ left)) =
    grow_contiguous n is"
proof (cases "is")
  case (Cons i "is'")
  show ?thesis
  proof (cases "i = n")
    case False
    then have "n < i" using assms(2) Cons by auto
    then have "\<forall>j\<in>set is. j \<noteq> n" using assms(1) Cons by auto
    then have w: "dropWhile (\<lambda>i. i \<noteq> n) is = []" "takeWhile (\<lambda>i. i \<noteq> n) is = is" by simp_all
    show ?thesis unfolding w using Cons False by simp
  qed (use Cons in \<open>simp add: Let_def split: prod.splits\<close>)
qed simp

lemma least_with_insert:
  assumes "finite (dom M)" "n \<notin> dom M"
  shows "least_with E (M(n \<mapsto> e)) =
    (case least_with E M (Hash E e) of
       None \<Rightarrow> (least_with E M)(Hash E e \<mapsto> n)
     | Some old \<Rightarrow> (least_with E M)(Hash E e \<mapsto> min old n))"
proof (rule ext)
  fix h
  let ?S = "\<lambda>M. {k \<in> dom M. Hash E (the (M k)) = h}"
  have S: "?S (M(n \<mapsto> e)) = (if h = Hash E e then insert n (?S M) else ?S M)"
    using assms(2) by auto
  have fin: "finite (?S M)" using assms(1) by simp
  show "least_with E (M(n \<mapsto> e)) h = (case least_with E M (Hash E e) of
       None \<Rightarrow> (least_with E M)(Hash E e \<mapsto> n)
     | Some old \<Rightarrow> (least_with E M)(Hash E e \<mapsto> min old n)) h"
  proof (cases "h = Hash E e")
    case True
    define T where "T = ?S M"
    have "least_with E M (Hash E e) = (if T = {} then None else Some (Min T))"
      by (simp add: least_with_def T_def True Let_def)
    moreover have "least_with E (M(n \<mapsto> e)) h = Some (Min (insert n T))"
      unfolding least_with_def Let_def S T_def using True by simp
    moreover have "finite T" using fin by (simp add: T_def)
    ultimately show ?thesis using True by (cases "T = {}") (simp_all add: min.commute)
  next
    case False
    then show ?thesis unfolding least_with_def Let_def S by (auto simp: Let_def)
  qed
qed

lemma InsertEntryMapping_ok:
  assumes "indexed E M D" "0 \<le> n" "n < 2 ^ 63" "n \<notin> dom M"
  shows "\<exists>D'. InsertEntryMapping n (Hash E e) D = Inr D' \<and> indexed E (M(n \<mapsto> e)) D' \<and> db D' = db D"
proof -
  let ?c = "contiguous_size D" and ?A = "{k \<in> dom M. contiguous_size D < k}"
  note I = assms(1) [unfolded indexed_def]
  have fin: "finite ?A" using I by simp
  have ids: "(case id_by_hash D (Hash E e) of None \<Rightarrow> (id_by_hash D)(Hash E e \<mapsto> n)
      | Some old \<Rightarrow> (id_by_hash D)(Hash E e \<mapsto> min old n)) = least_with E (M(n \<mapsto> e))"
    using I least_with_insert [OF _ assms(4), of E e] by (simp cong: option.case_cong)
  show ?thesis
  proof (cases "n = ?c")
    case True
    have "sorted_wrt (<) (sparse_entries D)" "\<forall>i\<in>set (sparse_entries D). n + 1 \<le> i" using I fin True by auto
    note grow = grow_unless_missing [OF this] grow_contiguous_spec [OF this]
    from grow(2) obtain m left where g: "grow_contiguous (n + 1) (sparse_entries D) = (m, left)" "n + 1 \<le> m"
      "set (sparse_entries D) = {n + 1..<m} \<union> set left" "\<forall>i\<in>set left. m < i" "sorted_wrt (<) left" by blast
    have A: "?A = {n + 1..<m} \<union> set left" using g(3) I fin by simp
    have dom: "dom (M(n \<mapsto> e)) = {0..<m} \<union> set left"
    proof -
      have "dom M = {0..<n} \<union> ?A" using I True by (auto simp: set_eq_iff)
      then show ?thesis using A g(2) assms(2) by auto
    qed
    have "{k \<in> dom (M(n \<mapsto> e)). m < k} = set left" unfolding dom using g(4) by auto
    then have "left = sorted_list_of_set {k \<in> dom (M(n \<mapsto> e)). m < k}" using g(5) by (simp add: strict_sorted_list_of_set sorted_list_of_set.idem_if_sorted_distinct strict_sorted_iff)
    moreover have "m \<notin> dom (M(n \<mapsto> e))" "{0..<m} \<subseteq> dom (M(n \<mapsto> e))" unfolding dom using g(4) by auto
    moreover have "dom (M(n \<mapsto> e)) \<subseteq> {0..<2 ^ 63}" "finite (dom (M(n \<mapsto> e)))" using I assms(2,3) by simp_all
    ultimately have "indexed E (M(n \<mapsto> e)) (D\<lparr>id_by_hash := least_with E (M(n \<mapsto> e)), contiguous_size := m, sparse_entries := left\<rparr>)"
      using g(2) assms(2) unfolding indexed_def by simp
    then show ?thesis using grow(1) g(1) True unfolding InsertEntryMapping_def ids
      by (auto simp: Let_def split: prod.splits)
  next
    case False
    have above: "?c < n" using False assms(2,4) I by (metis atLeastLessThan_iff linorder_neqE_linordered_idom subsetD)
    have "n \<notin> set (sparse_entries D)" using I fin assms(4) by simp
    moreover have "insort n (sparse_entries D) = sorted_list_of_set {k \<in> dom (M(n \<mapsto> e)). ?c < k}"
    proof -
      have "{k \<in> dom (M(n \<mapsto> e)). ?c < k} = insert n ?A" using above by auto
      then show ?thesis using I fin assms(4) by simp
    qed
    moreover have "{0..<?c} \<subseteq> dom (M(n \<mapsto> e))" "?c \<notin> dom (M(n \<mapsto> e))" "dom (M(n \<mapsto> e)) \<subseteq> {0..<2 ^ 63}" "finite (dom (M(n \<mapsto> e)))"
      using I False assms(2,3) by auto
    ultimately have "indexed E (M(n \<mapsto> e)) (D\<lparr>id_by_hash := least_with E (M(n \<mapsto> e)), sparse_entries := insort n (sparse_entries D)\<rparr>)"
      "n \<notin> set (sparse_entries D)" using I unfolding indexed_def by simp_all
    then show ?thesis using False unfolding InsertEntryMapping_def ids by (simp add: Let_def)
  qed
qed

section \<open>The store\<close>

text \<open>
  What is documented of leveldb: \<open>Get\<close> finds what \<open>Put\<close> has put, and an iterator goes through the
  keys in the order of their bytes. \<open>view\<close> is the map in the store.
\<close>

definition leveldb_laws :: "'d leveldb \<Rightarrow> ('d \<Rightarrow> byte list \<Rightarrow> byte list option) \<Rightarrow> bool" where
  "leveldb_laws L view \<longleftrightarrow>
     (\<forall>d k. Get L k d = (case view d k of None \<Rightarrow> (Db_not_found, []) | Some v \<Rightarrow> (Db_ok, v))) \<and>
     (\<forall>d k v. \<exists>d'. Put L k v d = (Db_ok, d') \<and> view d' = (view d)(k \<mapsto> v)) \<and>
     (\<forall>d k. sorted_wrt (<) (map fst (Seek_from L k d)) \<and>
        set (Seek_from L k d) = {(k', v). k \<le> k' \<and> view d k' = Some v})"

definition entry_laws :: "'e logged_entry \<Rightarrow> bool" where
  "entry_laws E \<longleftrightarrow> (\<forall>e. ParseFromString E (SerializeToString E e) = Some e)"

lemma leveldb_lawsD:
  assumes "leveldb_laws L view"
  shows "Get L k d = (case view d k of None \<Rightarrow> (Db_not_found, []) | Some v \<Rightarrow> (Db_ok, v))"
    "\<exists>d'. Put L k v d = (Db_ok, d') \<and> view d' = (view d)(k \<mapsto> v)"
    "sorted_wrt (<) (map fst (Seek_from L k d))"
    "set (Seek_from L k d) = {(k', v). k \<le> k' \<and> view d k' = Some v}"
  using assms by (simp_all add: leveldb_laws_def)

text \<open>The store holds the entries under their keys, and no other key with the prefix.\<close>

definition holds_entries :: "'e logged_entry \<Rightarrow> (int \<Rightarrow> 'e option) \<Rightarrow> (byte list \<Rightarrow> byte list option) \<Rightarrow> bool" where
  "holds_entries E M v \<longleftrightarrow>
     (\<forall>n e. M n = Some e \<longrightarrow> sequence_number E e = n) \<and>
     (\<forall>n. 0 \<le> n \<and> n < 2 ^ 63 \<longrightarrow> v (IndexToKey n) = map_option (SerializeToString E) (M n)) \<and>
     (\<forall>k. starts_with k kEntryPrefix \<and> v k \<noteq> None \<longrightarrow> k \<in> IndexToKey ` dom M)"

lemma holds_entriesD:
  assumes "holds_entries E M v"
  shows "M n = Some e \<Longrightarrow> sequence_number E e = n"
    "0 \<le> n \<Longrightarrow> n < 2 ^ 63 \<Longrightarrow> v (IndexToKey n) = map_option (SerializeToString E) (M n)"
    "starts_with k kEntryPrefix \<Longrightarrow> v k \<noteq> None \<Longrightarrow> k \<in> IndexToKey ` dom M"
  using assms by (simp_all add: holds_entries_def)

lemma holds_entries_insert:
  assumes "holds_entries E M v" "dom M \<subseteq> {0..<2 ^ 63}" "0 \<le> n" "n < 2 ^ 63" "sequence_number E e = n"
  shows "holds_entries E (M(n \<mapsto> e)) (v(IndexToKey n \<mapsto> SerializeToString E e))"
  using assms unfolding holds_entries_def by (auto simp: key_eq)

text \<open>Keys from one on that have the prefix come first, in the order of their numbers.\<close>

definition pair_of :: "'e logged_entry \<Rightarrow> (int \<Rightarrow> 'e option) \<Rightarrow> int \<Rightarrow> byte list \<times> byte list" where
  "pair_of E M n = (IndexToKey n, SerializeToString E (the (M n)))"

lemma prefixed_first: "starts_with k' p \<Longrightarrow> p \<le> k \<Longrightarrow> k < k' \<Longrightarrow> starts_with k p"
proof -
  assume p: "starts_with k' p" "p \<le> k" "k < k'"
  then obtain t where k': "k' = p @ t" by (metis append_take_drop_id starts_with_take)
  have "p \<le> k \<Longrightarrow> k < p @ t \<Longrightarrow> \<exists>s. k = p @ s"
  proof (induction p arbitrary: k)
    case (Cons a p)
    then show ?case by (cases k) auto
  qed simp
  then show ?thesis using p(2,3) k' by (auto simp: starts_with_take)
qed

lemma takeWhile_sorted_filter:
  assumes "sorted_wrt (<) (map fst xs)" "\<And>x y. x \<in> set xs \<Longrightarrow> y \<in> set xs \<Longrightarrow> P (fst y) \<Longrightarrow> fst x < fst y \<Longrightarrow> P (fst x)"
  shows "takeWhile (\<lambda>x. P (fst x)) xs = filter (\<lambda>x. P (fst x)) xs"
  using assms
proof (induction xs)
  case (Cons x xs)
  have IH: "takeWhile (\<lambda>x. P (fst x)) xs = filter (\<lambda>x. P (fst x)) xs"
    by (rule Cons.IH) (use Cons.prems in \<open>auto simp del: sorted_wrt_map\<close>)
  show ?case
  proof (cases "P (fst x)")
    case False
    then have "\<not> P (fst y)" if "y \<in> set xs" for y
      using Cons.prems(1) Cons.prems(2) [of x y] that by auto
    then show ?thesis using False by (simp add: filter_empty_conv)
  qed (simp add: IH)
qed simp

lemma prefixed_pairs:
  assumes "leveldb_laws L view" "holds_entries E M (view d)" "finite (dom M)" "dom M \<subseteq> {0..<2 ^ 63}"
    "starts_with k kEntryPrefix"
  shows "takeWhile (\<lambda>kv. starts_with (fst kv) kEntryPrefix) (Seek_from L k d) =
    map (pair_of E M) (sorted_list_of_set {n \<in> dom M. k \<le> IndexToKey n})" (is "?l = ?r")
proof -
  let ?P = "\<lambda>k. starts_with k kEntryPrefix"
  note laws = leveldb_lawsD(3,4) [OF assms(1), of k d]
  obtain t where t: "k = kEntryPrefix @ t" using assms(5) by (metis append_take_drop_id starts_with_take)
  have "kEntryPrefix \<le> k" using append_same_le [of kEntryPrefix "[]" t] by (simp add: t)
  then have l: "?l = filter (\<lambda>kv. ?P (fst kv)) (Seek_from L k d)"
    using laws by (intro takeWhile_sorted_filter) (auto intro: prefixed_first order_trans)
  have fin: "finite {n \<in> dom M. k \<le> IndexToKey n}" using assms(3) by simp
  have "sorted_wrt (<) (map fst ?l)" unfolding l using laws(1) by (simp add: sorted_wrt_map sorted_wrt_filter)
  moreover have "sorted_wrt (<) (map fst ?r)"
  proof -
    have "sorted_wrt (<) (sorted_list_of_set {n \<in> dom M. k \<le> IndexToKey n})" by simp
    then have "sorted_wrt (\<lambda>a b. IndexToKey a < IndexToKey b) (sorted_list_of_set {n \<in> dom M. k \<le> IndexToKey n})"
      by (rule sorted_wrt_mono_rel [rotated]) (use fin assms(4) in \<open>auto simp: key_less subset_iff dom_def\<close>)
    then show ?thesis by (simp add: sorted_wrt_map pair_of_def)
  qed
  moreover have "set ?l = set ?r"
  proof -
    have stored: "view d (IndexToKey n) = Some (SerializeToString E (the (M n)))" if "n \<in> dom M" for n
      using that holds_entriesD(2) [OF assms(2), of n] assms(4) by fastforce
    have "set ?l = {(k', v). k \<le> k' \<and> view d k' = Some v \<and> ?P k'}" unfolding l using laws(2) by auto
    also have "\<dots> = pair_of E M ` {n \<in> dom M. k \<le> IndexToKey n}"
    proof (intro set_eqI iffI)
      fix kv assume "kv \<in> {(k', v). k \<le> k' \<and> view d k' = Some v \<and> ?P k'}"
      then obtain k' v where kv: "kv = (k', v)" "k \<le> k'" "view d k' = Some v" "?P k'" by auto
      then obtain n where "n \<in> dom M" "k' = IndexToKey n" using holds_entriesD(3) [OF assms(2), of k'] by auto
      then show "kv \<in> pair_of E M ` {n \<in> dom M. k \<le> IndexToKey n}"
        using kv stored by (auto simp: pair_of_def intro!: image_eqI)
    next
      fix kv assume "kv \<in> pair_of E M ` {n \<in> dom M. k \<le> IndexToKey n}"
      then show "kv \<in> {(k', v). k \<le> k' \<and> view d k' = Some v \<and> ?P k'}"
        using stored by (auto simp: pair_of_def)
    qed
    finally show ?thesis using fin by simp
  qed
  ultimately show ?thesis 
    by (intro map_sorted_distinct_set_unique [where f = fst]) (simp_all add: strict_sorted_iff distinct_map)
qed

section \<open>Reading and building\<close>

lemma parse_pair_ok:
  assumes "entry_laws E" "holds_entries E M v" "M n = Some e" "0 \<le> n" "n < 2 ^ 63"
  shows "parse_pair E fill (pair_of E M n) = Inr e"
  using assms holds_entriesD(1) [OF assms(2,3)]
  by (simp add: parse_pair_def pair_of_def KeyToIndex_IndexToKey entry_laws_def)

lemma read_all_while:
  "read_all E fill it = read_all E fill (takeWhile (\<lambda>kv. starts_with (fst kv) kEntryPrefix) it)"
proof (induction it)
  case (Cons kv it)
  then show ?case by (simp add: GetNextEntry_def and_then_def split: sum.split option.split)
qed simp

lemma read_all_ok:
  assumes "entry_laws E" "holds_entries E M v" "dom M \<subseteq> {0..<2 ^ 63}" "set ns \<subseteq> dom M"
  shows "read_all E fill (map (pair_of E M) ns) = Inr (map (\<lambda>n. the (M n)) ns)"
  using assms(4)
proof (induction ns)
  case (Cons n ns)
  then obtain e where e: "M n = Some e" "0 \<le> n" "n < 2 ^ 63" using assms(3) by fastforce
  have "starts_with (fst (pair_of E M n)) kEntryPrefix" by (simp add: pair_of_def)
  then show ?case using Cons parse_pair_ok [OF assms(1,2) e] e(1) by (simp add: GetNextEntry_def)
qed (simp add: GetNextEntry_def)

lemma build_index_while:
  "build_index E fill it D = build_index E fill (takeWhile (\<lambda>kv. starts_with (fst kv) kEntryPrefix) it) D"
proof (induction it arbitrary: D)
  case (Cons kv it)
  then show ?case by (simp add: and_then_def split: sum.split)
qed simp

lemma build_index_ok:
  assumes "entry_laws E" "holds_entries E M v" "dom M \<subseteq> {0..<2 ^ 63}"
  shows "set ns \<subseteq> dom M \<Longrightarrow> distinct ns \<Longrightarrow> set ns \<inter> A = {} \<Longrightarrow> indexed E (M |` A) D \<Longrightarrow>
    \<exists>D'. build_index E fill (map (pair_of E M) ns) D = Inr D' \<and> indexed E (M |` (A \<union> set ns)) D' \<and> db D' = db D"
proof (induction ns arbitrary: A D)
  case (Cons n ns)
  then obtain e where e: "M n = Some e" "0 \<le> n" "n < 2 ^ 63" using assms(3) by fastforce
  have "n \<notin> dom (M |` A)" using Cons.prems(3) by auto
  from InsertEntryMapping_ok [OF Cons.prems(4) e(2,3) this, of e] obtain D1 where
    D1: "InsertEntryMapping n (Hash E e) D = Inr D1" "indexed E ((M |` A)(n \<mapsto> e)) D1" "db D1 = db D" by blast
  have "(M |` A)(n \<mapsto> e) = M |` insert n A" using e(1) by (auto simp: fun_eq_iff restrict_map_def)
  then have "indexed E (M |` insert n A) D1" using D1(2) by simp
  moreover have "set ns \<inter> insert n A = {}" using Cons.prems(2,3) by auto
  ultimately obtain D' where "build_index E fill (map (pair_of E M) ns) D1 = Inr D'"
      "indexed E (M |` (insert n A \<union> set ns)) D'" "db D' = db D1"
    using Cons.IH [of "insert n A" D1] Cons.prems by auto
  moreover have "starts_with (fst (pair_of E M n)) kEntryPrefix" by (simp add: pair_of_def)
  ultimately show ?case
    using D1 parse_pair_ok [OF assms(1,2) e] holds_entriesD(1) [OF assms(2) e(1)] by simp
qed simp

section \<open>The database\<close>

definition log_of :: "'e logged_entry \<Rightarrow> ('d \<Rightarrow> byte list \<Rightarrow> byte list option) \<Rightarrow> (int \<Rightarrow> 'e option) \<Rightarrow> 'd leveldb_database \<Rightarrow> bool" where
  "log_of E view M D \<longleftrightarrow> indexed E M D \<and> holds_entries E M (view (db D))"

lemma log_ofD:
  assumes "log_of E view M D"
  shows "indexed E M D" "holds_entries E M (view (db D))" "finite (dom M)" "dom M \<subseteq> {0..<2 ^ 63}"
  using assms by (simp_all add: log_of_def indexed_def)

lemma log_keys_above: "dom M \<subseteq> {0..<2 ^ 63} \<Longrightarrow> i < 2 ^ 63 \<Longrightarrow>
    {n \<in> dom M. IndexToKey i \<le> IndexToKey n} = {n \<in> dom M. i \<le> n}"
  using key_le [of "max i 0"] IndexToKey_negative [of i] by (cases "0 \<le> i") (auto simp: subset_iff dom_def max_def)

lemma prefix_below: "kEntryPrefix \<le> IndexToKey n"
  using append_same_le [of kEntryPrefix "[]"] by (simp add: IndexToKey_digits)

lemma open_database_ok:
  assumes "leveldb_laws L view" "entry_laws E" "holds_entries E M (view d)" "finite (dom M)" "dom M \<subseteq> {0..<2 ^ 63}"
  shows "\<exists>D. open_database E L fill d = Inr D \<and> log_of E view M D \<and> db D = d"
proof -
  let ?D = "\<lparr>db = d, contiguous_size = 0, id_by_hash = Map.empty, sparse_entries = []\<rparr>"
  have pre: "starts_with kEntryPrefix kEntryPrefix" by (simp add: starts_with_take)
  have all: "{n \<in> dom M. kEntryPrefix \<le> IndexToKey n} = dom M" using prefix_below by auto
  note pairs = prefixed_pairs [OF assms(1,3-5) pre, unfolded all]
  have "indexed E (M |` {}) ?D" using indexed_empty by simp
  from build_index_ok [OF assms(2,3,5) _ _ _ this, of "sorted_list_of_set (dom M)" fill] assms(4) obtain D where
    "build_index E fill (map (pair_of E M) (sorted_list_of_set (dom M))) ?D = Inr D"
    "indexed E (M |` dom M) D" "db D = d" by auto
  moreover have "M |` dom M = M" by (auto simp: fun_eq_iff restrict_map_def domIff)
  ultimately show ?thesis using assms(3)
    by (simp add: open_database_def BuildIndex_def build_index_while [of E fill "Seek_from L kEntryPrefix d"] pairs log_of_def)
qed

lemma CreateSequencedEntry_ok:
  assumes "leveldb_laws L view" "log_of E view M D" "sequence_number E e = n" "0 \<le> n" "n < 2 ^ 63"
  shows "case M n of
      None \<Rightarrow> \<exists>D'. CreateSequencedEntry E L e D = Inr (Write_OK, D') \<and> log_of E view (M(n \<mapsto> e)) D'
    | Some e' \<Rightarrow> CreateSequencedEntry E L e D =
        Inr (if SerializeToString E e' = SerializeToString E e then Write_OK else SEQUENCE_NUMBER_ALREADY_IN_USE, D)"
proof (cases "M n")
  case None
  note D = log_ofD [OF assms(2)]
  have v: "view (db D) (IndexToKey n) = None" using holds_entriesD(2) [OF D(2) assms(4,5)] None by simp
  obtain d' where d': "Put L (IndexToKey n) (SerializeToString E e) (db D) = (Db_ok, d')"
      "view d' = (view (db D))(IndexToKey n \<mapsto> SerializeToString E e)"
    using leveldb_lawsD(2) [OF assms(1)] by blast
  have "indexed E M (D\<lparr>db := d'\<rparr>)" using D(1) by (simp add: indexed_def)
  from InsertEntryMapping_ok [OF this assms(4,5), of e] None obtain D' where
    "InsertEntryMapping n (Hash E e) (D\<lparr>db := d'\<rparr>) = Inr D'" "indexed E (M(n \<mapsto> e)) D'" "db D' = d'" by auto
  moreover have "holds_entries E (M(n \<mapsto> e)) (view d')"
    unfolding d'(2) by (rule holds_entries_insert [OF D(2,4) assms(4,5,3)])
  ultimately show ?thesis
    using None v d'(1) by (simp add: CreateSequencedEntry_def leveldb_lawsD(1) [OF assms(1)] assms(3) log_of_def)
next
  case (Some e')
  then have "view (db D) (IndexToKey n) = Some (SerializeToString E e')"
    using holds_entriesD(2) [OF log_ofD(2) [OF assms(2)] assms(4,5)] by simp
  then show ?thesis using Some
    by (simp add: CreateSequencedEntry_def leveldb_lawsD(1) [OF assms(1)] assms(3))
qed

lemma LookupByIndex_ok:
  assumes "leveldb_laws L view" "entry_laws E" "log_of E view M D" "0 \<le> n" "n < 2 ^ 63"
  shows "LookupByIndex E L n True D = Inr (case M n of None \<Rightarrow> LOOKUP_NOT_FOUND | Some e \<Rightarrow> LOOKUP_OK (Some e))"
  using assms(2) holds_entriesD(1,2) [OF log_ofD(2) [OF assms(3)]] assms(4,5)
  by (cases "M n") (auto simp: LookupByIndex_def leveldb_lawsD(1) [OF assms(1)] entry_laws_def)

lemma LookupByHash_ok:
  assumes "leveldb_laws L view" "entry_laws E" "log_of E view M D"
  shows "LookupByHash E L h True D =
    Inr (case least_with E M h of None \<Rightarrow> LOOKUP_NOT_FOUND | Some n \<Rightarrow> LOOKUP_OK (M n))"
proof (cases "least_with E M h")
  case None
  then show ?thesis using log_ofD(1) [OF assms(3)] by (simp add: LookupByHash_def indexed_def)
next
  case (Some n)
  let ?S = "{n \<in> dom M. Hash E (the (M n)) = h}"
  have "?S \<noteq> {}" "n = Min ?S" using Some by (auto simp: least_with_def Let_def split: if_splits)
  moreover have "finite ?S" using log_ofD(3) [OF assms(3)] by simp
  ultimately have "n \<in> ?S" using Min_in by blast
  then obtain e where e: "M n = Some e" "Hash E e = h" by auto
  then have "view (db D) (IndexToKey n) = Some (SerializeToString E e)"
    using holds_entriesD(2) [OF log_ofD(2) [OF assms(3)], of n] log_ofD(4) [OF assms(3)] by fastforce
  then show ?thesis using Some e log_ofD(1) [OF assms(3)] assms(2)
    by (simp add: LookupByHash_def indexed_def leveldb_lawsD(1) [OF assms(1)] entry_laws_def)
qed

lemma ScanEntries_ok:
  assumes "leveldb_laws L view" "entry_laws E" "log_of E view M D" "i < 2 ^ 63"
  shows "read_all E fill (ScanEntries L i D) = Inr (map (\<lambda>n. the (M n)) (sorted_list_of_set {n \<in> dom M. i \<le> n}))"
proof -
  note D = log_ofD [OF assms(3)]
  note pairs = prefixed_pairs [OF assms(1) D(2-4) IndexToKey_prefix [of i], unfolded log_keys_above [OF D(4) assms(4)]]
  show ?thesis unfolding ScanEntries_def read_all_while [of E fill "Seek_from L (IndexToKey i) (db D)"] pairs
    by (rule read_all_ok [OF assms(2) D(2,4)]) (use D(3) in auto)
qed

end
