(* ===== verification/Log_Properties.thy ===== *)
theory Log_Properties
  imports Log_Database_Laws "HOL-Library.Finite_Map"
begin

text \<open>
  The properties of the log of \<open>src/log/leveldb_database.cc\<close>, and a store that obeys the laws.
\<close>

section \<open>The log that entries give\<close>

text \<open>The first entry of a number stays. The same entry again is no error.\<close>

definition log_put :: "'e logged_entry \<Rightarrow> 'e \<Rightarrow> (int \<Rightarrow> 'e option) \<Rightarrow> int \<Rightarrow> 'e option" where
  "log_put E e M = (if M (sequence_number E e) = None then M(sequence_number E e \<mapsto> e) else M)"

definition log_answer :: "'e logged_entry \<Rightarrow> 'e \<Rightarrow> (int \<Rightarrow> 'e option) \<Rightarrow> write_result" where
  "log_answer E e M =
     (case M (sequence_number E e) of
        None \<Rightarrow> Write_OK
      | Some e' \<Rightarrow> if SerializeToString E e' = SerializeToString E e then Write_OK else SEQUENCE_NUMBER_ALREADY_IN_USE)"

fun log_answers :: "'e logged_entry \<Rightarrow> 'e list \<Rightarrow> (int \<Rightarrow> 'e option) \<Rightarrow> write_result list" where
  "log_answers E [] M = []"
| "log_answers E (e # es) M = log_answer E e M # log_answers E es (log_put E e M)"

fun create_all :: "'e logged_entry \<Rightarrow> 'd leveldb \<Rightarrow> 'e list \<Rightarrow> 'd leveldb_database \<Rightarrow> fault + write_result list \<times> 'd leveldb_database" where
  "create_all E L [] D = Inr ([], D)"
| "create_all E L (e # es) D =
     and_then (CreateSequencedEntry E L e D) (\<lambda>(r, D). and_then (create_all E L es D) (\<lambda>(rs, D). Inr (r # rs, D)))"

lemma create_all_ok:
  assumes "leveldb_laws L view"
  shows "log_of E view M D \<Longrightarrow> list_all (\<lambda>e. 0 \<le> sequence_number E e \<and> sequence_number E e < 2 ^ 63) es \<Longrightarrow>
    \<exists>D'. create_all E L es D = Inr (log_answers E es M, D') \<and> log_of E view (fold (log_put E) es M) D'"
proof (induction es arbitrary: M D)
  case (Cons e es)
  then have n: "0 \<le> sequence_number E e" "sequence_number E e < 2 ^ 63" by simp_all
  note step = CreateSequencedEntry_ok [OF assms Cons.prems(1) refl n]
  obtain D1 where "CreateSequencedEntry E L e D = Inr (log_answer E e M, D1)" "log_of E view (log_put E e M) D1"
    using step Cons.prems(1) by (cases "M (sequence_number E e)") (auto simp: log_answer_def log_put_def)
  with Cons.IH [of "log_put E e M" D1] Cons.prems(2) show ?case by auto
qed simp

section \<open>A store\<close>

definition sorted_pairs :: "byte list \<Rightarrow> (byte list, byte list) fmap \<Rightarrow> (byte list \<times> byte list) list" where
  "sorted_pairs k d = map (\<lambda>k. (k, the (fmlookup d k))) (filter (\<lambda>k'. k \<le> k') (sorted_list_of_fset (fmdom d)))"

definition memory_store :: "(byte list, byte list) fmap leveldb" where
  "memory_store =
     \<lparr>Get = (\<lambda>k d. case fmlookup d k of None \<Rightarrow> (Db_not_found, []) | Some v \<Rightarrow> (Db_ok, v)),
      Put = (\<lambda>k v d. (Db_ok, fmupd k v d)), Seek_from = sorted_pairs\<rparr>"

lemma memory_store_laws: "leveldb_laws memory_store fmlookup"
proof -
  have "sorted_wrt (<) (map fst (sorted_pairs k d))" for k d
    by (simp add: sorted_pairs_def comp_def sorted_list_of_fset.rep_eq sorted_wrt_filter)
  moreover have "set (sorted_pairs k d) = {(k', v). k \<le> k' \<and> fmlookup d k' = Some v}" for k d
    by (auto simp: sorted_pairs_def fmdom'_alt_def [symmetric] fmlookup_dom'_iff image_iff)
  ultimately show ?thesis by (simp add: leveldb_laws_def memory_store_def fun_eq_iff)
qed

text \<open>Texts as entries: the number of one is its length, and a text of its own is its hash.\<close>

definition text_entry :: "(byte list \<Rightarrow> int) \<Rightarrow> byte list logged_entry" where
  "text_entry number =
     \<lparr>SerializeToString = (\<lambda>e. e), sequence_number = number, Hash = (\<lambda>e. e), ParseFromString = Some\<rparr>"

lemma entry_laws_instances: "entry_laws (text_entry number)" "entry_laws LoggedEntry"
  by (simp_all add: entry_laws_def text_entry_def LoggedEntry_def)

section \<open>The properties\<close>

text \<open>
  C16. Refinement: on a store that obeys the laws, opened without entries, the log is a map from
  numbers to the first entries that were given for them. Every answer of \<open>CreateSequencedEntry\<close> is
  that of the map, the look-ups by number and by hash find what the map has, a scan reads the
  entries in the order of their numbers, the contiguous size is the first number that is missing,
  and opening the store again builds the very index that has grown in memory.
\<close>

theorem log_refines_map:
  assumes "leveldb_laws L view" "entry_laws E" "\<forall>k. starts_with k kEntryPrefix \<longrightarrow> view d k = None"
    "list_all (\<lambda>e. 0 \<le> sequence_number E e \<and> sequence_number E e < 2 ^ 63) es"
  shows "let M = fold (log_put E) es Map.empty in
    \<exists>D0 D. open_database E L fill d = Inr D0 \<and> create_all E L es D0 = Inr (log_answers E es Map.empty, D) \<and>
      (\<forall>n. 0 \<le> n \<and> n < 2 ^ 63 \<longrightarrow>
         LookupByIndex E L n True D = Inr (case M n of None \<Rightarrow> LOOKUP_NOT_FOUND | Some e \<Rightarrow> LOOKUP_OK (Some e))) \<and>
      (\<forall>h. LookupByHash E L h True D =
         Inr (case least_with E M h of None \<Rightarrow> LOOKUP_NOT_FOUND | Some n \<Rightarrow> LOOKUP_OK (M n))) \<and>
      (\<forall>i < 2 ^ 63. read_all E fill (ScanEntries L i D) =
         Inr (map (\<lambda>n. the (M n)) (sorted_list_of_set {n \<in> dom M. i \<le> n}))) \<and>
      0 \<le> contiguous_size D \<and> {0..<contiguous_size D} \<subseteq> dom M \<and> contiguous_size D \<notin> dom M \<and>
      open_database E L fill (db D) = Inr D"
proof -
  let ?M = "fold (log_put E) es Map.empty"
  have "holds_entries E Map.empty (view d)" using assms(3) by (simp add: holds_entries_def)
  then obtain D0 where D0: "open_database E L fill d = Inr D0" "log_of E view Map.empty D0"
    using open_database_ok [OF assms(1,2), of Map.empty d fill] by auto
  obtain D where D: "create_all E L es D0 = Inr (log_answers E es Map.empty, D)" "log_of E view ?M D"
    using create_all_ok [OF assms(1) D0(2) assms(4)] by blast
  note log = log_ofD [OF D(2)]
  obtain D' where D': "open_database E L fill (db D) = Inr D'" "log_of E view ?M D'" "db D' = db D"
    using open_database_ok [OF assms(1,2) log(2-4)] by blast
  have "D = D'" by (rule indexed_unique [OF log(1) log_ofD(1) [OF D'(2)] D'(3) [symmetric]])
  then have "open_database E L fill (db D) = Inr D" using D'(1) by (simp only:)
  moreover have "0 \<le> contiguous_size D" "{0..<contiguous_size D} \<subseteq> dom ?M" "contiguous_size D \<notin> dom ?M"
    using log(1) by (simp_all add: indexed_def)
  ultimately show ?thesis
    unfolding Let_def
    by (intro exI [of _ D0] exI [of _ D] conjI allI impI D0(1) D(1) LookupByHash_ok [OF assms(1,2) D(2)]
        LookupByIndex_ok [OF assms(1,2) D(2)] ScanEntries_ok [OF assms(1,2) D(2)]) simp_all
qed

text \<open>Three texts, the last with a number that is in use, and two of the placeholder.\<close>

theorem log_refines_map_witness:
  "\<exists>D0 D. open_database (text_entry (\<lambda>e. int (length e))) memory_store 0 fmempty = Inr D0 \<and>
     create_all (text_entry (\<lambda>e. int (length e))) memory_store [[7, 7], [], [8, 8]] D0 =
       Inr ([Write_OK, Write_OK, SEQUENCE_NUMBER_ALREADY_IN_USE], D) \<and>
     LookupByIndex (text_entry (\<lambda>e. int (length e))) memory_store 2 True D = Inr (LOOKUP_OK (Some [7, 7])) \<and>
     contiguous_size D = 1 \<and> open_database (text_entry (\<lambda>e. int (length e))) memory_store 0 (db D) = Inr D"
proof -
  let ?E = "text_entry (\<lambda>e. int (length e))" and ?es = "[[7, 7], [], [8, 8]] :: byte list list"
  let ?M = "fold (log_put ?E) ?es Map.empty"
  have M: "?M = [2 \<mapsto> [7, 7], 0 \<mapsto> []]" "log_answers ?E ?es Map.empty = [Write_OK, Write_OK, SEQUENCE_NUMBER_ALREADY_IN_USE]"
    by (simp_all add: log_put_def log_answer_def text_entry_def)
  have "list_all (\<lambda>e. 0 \<le> sequence_number ?E e \<and> sequence_number ?E e < 2 ^ 63) ?es" by (simp add: text_entry_def)
  from log_refines_map [OF memory_store_laws entry_laws_instances(1) _ this, of fmempty 0] obtain D0 D where
    D: "open_database ?E memory_store 0 fmempty = Inr D0" "create_all ?E memory_store ?es D0 = Inr (log_answers ?E ?es Map.empty, D)"
      "LookupByIndex ?E memory_store 2 True D = Inr (case ?M 2 of None \<Rightarrow> LOOKUP_NOT_FOUND | Some e \<Rightarrow> LOOKUP_OK (Some e))"
      "0 \<le> contiguous_size D" "{0..<contiguous_size D} \<subseteq> dom ?M" "contiguous_size D \<notin> dom ?M" "open_database ?E memory_store 0 (db D) = Inr D"
    unfolding Let_def by fastforce
  have "{0..<contiguous_size D} \<subseteq> {0, 2}" "contiguous_size D \<noteq> 0" "contiguous_size D \<noteq> 2" using D(5,6) unfolding M by auto
  moreover have "\<not> 2 \<le> contiguous_size D" using calculation(1) by (auto dest!: subsetD [of _ _ 1])
  ultimately have "contiguous_size D = 1" using D(4) by linarith
  then show ?thesis using D unfolding M by auto
qed

text \<open>
  C31. An entry with a negative number is stored under the key of the number 0: the store that it
  was written to cannot be opened any more, and the look-up of 0 fails its check.
\<close>

theorem negative_number_spoils_log:
  assumes "leveldb_laws L view" "entry_laws E" "\<forall>k. starts_with k kEntryPrefix \<longrightarrow> view d k = None"
    "sequence_number E e < 0"
  shows "\<exists>D0 D. open_database E L fill d = Inr D0 \<and> CreateSequencedEntry E L e D0 = Inr (Write_OK, D) \<and>
    LookupByIndex E L 0 True D = Inl Assertion_failed \<and> open_database E L fill (db D) = Inl Assertion_failed"
proof -
  let ?n = "sequence_number E e" and ?k = "IndexToKey 0" and ?v = "SerializeToString E e"
  have k: "IndexToKey ?n = ?k" using assms(4) by (intro IndexToKey_negative) simp
  have "holds_entries E Map.empty (view d)" using assms(3) by (simp add: holds_entries_def)
  then obtain D0 where D0: "open_database E L fill d = Inr D0" "indexed E Map.empty D0" "db D0 = d"
    using open_database_ok [OF assms(1,2), of Map.empty d fill] by (auto simp: log_of_def)
  obtain d' where d': "Put L ?k ?v d = (Db_ok, d')" "view d' = (view d)(?k \<mapsto> ?v)"
    using leveldb_lawsD(2) [OF assms(1)] by blast
  have "sparse_entries D0 = []" "contiguous_size D0 = 0" using D0(2) by (simp_all add: indexed_def)
  then obtain D where D: "InsertEntryMapping ?n (Hash E e) (D0\<lparr>db := d'\<rparr>) = Inr D" "db D = d'"
    using assms(4) by (auto simp: InsertEntryMapping_def Let_def)
  have created: "CreateSequencedEntry E L e D0 = Inr (Write_OK, D)"
    using D d'(1) assms(3) by (simp add: CreateSequencedEntry_def k leveldb_lawsD(1) [OF assms(1)] D0(3))
  have parse: "ParseFromString E ?v = Some e" using assms(2) by (simp add: entry_laws_def)
  have "LookupByIndex E L 0 True D = Inl Assertion_failed"
    using parse assms(4) by (simp add: LookupByIndex_def leveldb_lawsD(1) [OF assms(1)] D(2) d'(2))
  moreover have "open_database E L fill d' = Inl Assertion_failed"
  proof -
    note l = leveldb_lawsD(3,4) [OF assms(1), of kEntryPrefix d']
    have "(?k, ?v) \<in> set (Seek_from L kEntryPrefix d')" unfolding l(2) using d'(2) prefix_below by simp
    then obtain kv it where s: "Seek_from L kEntryPrefix d' = kv # it" by (cases "Seek_from L kEntryPrefix d'") auto
    have "kv = (?k, ?v)"
    proof (rule ccontr)
      assume "kv \<noteq> (?k, ?v)"
      then have "fst kv < ?k" using \<open>(?k, ?v) \<in> _\<close> l(1) unfolding s by force
      moreover have "kEntryPrefix \<le> fst kv" "view d' (fst kv) = Some (snd kv)" using l(2) unfolding s by (cases kv; auto)+
      ultimately show False using prefixed_first [OF IndexToKey_prefix, of "fst kv"] assms(3) d'(2) by (auto split: if_splits)
    qed
    then have "parse_pair E fill kv = Inl Assertion_failed" "starts_with (fst kv) kEntryPrefix"
      using parse assms(4) by (simp_all add: parse_pair_def KeyToIndex_IndexToKey)
    then show ?thesis by (simp add: open_database_def BuildIndex_def s)
  qed
  ultimately show ?thesis using D0(1) created D(2) by auto
qed

theorem negative_number_spoils_log_witness:
  "\<exists>D0 D. open_database (text_entry (\<lambda>e. - int (length e))) memory_store 0 fmempty = Inr D0 \<and>
    CreateSequencedEntry (text_entry (\<lambda>e. - int (length e))) memory_store [1] D0 = Inr (Write_OK, D) \<and>
    open_database (text_entry (\<lambda>e. - int (length e))) memory_store 0 (db D) = Inl Assertion_failed"
proof -
  let ?E = "text_entry (\<lambda>e. - int (length e))"
  have "sequence_number ?E [1] < 0" by (simp add: text_entry_def)
  from negative_number_spoils_log [OF memory_store_laws entry_laws_instances(1) _ this, of fmempty 0] show ?thesis by auto
qed

end
