(* ===== verification/Arena.thy ===== *)
theory Arena
  imports Faults
begin

text \<open>
  \<open>src/base/arena.cc\<close> and \<open>arena.h\<close>: memory that is handed out from blocks and freed at once. An
  address is a number; the allocator of the system is a parameter, with its state. A failed \<open>CHECK\<close>,
  \<open>DCHECK\<close> or \<open>assert\<close> is a fault, and so is a \<open>free\<close> of what is not a block. The \<open>CHECK\<close> that an
  allocation gave memory has a fault of its own, \<open>Out_of_memory\<close>.
\<close>

section \<open>The memory of the system\<close>

record 'm memory =
  malloc :: "nat \<Rightarrow> 'm \<Rightarrow> nat \<times> 'm"
  posix_memalign :: "nat \<Rightarrow> nat \<Rightarrow> 'm \<Rightarrow> nat \<times> 'm"
  free_block :: "nat \<Rightarrow> 'm \<Rightarrow> fault + 'm"

text \<open>\<open>aligned_malloc\<close> of \<open>src/base/platform/mem.cc\<close>; a null pointer stands for an error.\<close>

definition aligned_malloc :: "'m memory \<Rightarrow> nat \<Rightarrow> nat \<Rightarrow> 'm \<Rightarrow> nat \<times> 'm" where
  "aligned_malloc A n minimum_alignment m =
     (if minimum_alignment < 8 then malloc A n m else posix_memalign A minimum_alignment n m)"

section \<open>The state\<close>

record allocated_block =
  block_mem :: nat
  mem_size :: nat

record arena =
  remaining :: nat
  arena_block_size :: nat
  freestart :: nat
  freestart_when_empty :: nat
  blocks_alloced :: nat
  first_blocks :: "allocated_block list"
  overflow_blocks :: "allocated_block list option"

definition kDefaultAlignment :: nat where
  "kDefaultAlignment = 8"

definition SatisfyAlignment :: "nat \<Rightarrow> arena \<Rightarrow> fault + bool \<times> arena" where
  "SatisfyAlignment alignment a =
     (let overage = freestart a AND (alignment - 1) in
      if overage > 0 then
        let waste = alignment - overage in
        if waste \<ge> remaining a then Inr (False, a)
        else
          let a = a\<lparr>freestart := freestart a + waste, remaining := remaining a - waste\<rparr> in
          if freestart a AND (alignment - 1) = 0 then Inr (True, a) else Inl Assertion_failed
      else Inr (True, a))"

section \<open>Blocks\<close>

fun Euclid_GCD :: "nat \<Rightarrow> nat \<Rightarrow> nat" where
  "Euclid_GCD x y = (if y \<noteq> 0 then Euclid_GCD y (x mod y) else x)"

declare Euclid_GCD.simps [simp del]

text \<open>The product is taken in 32 bits.\<close>

definition LeastCommonMultiple :: "nat \<Rightarrow> nat \<Rightarrow> nat" where
  "LeastCommonMultiple a b =
     (if a > b then a div Euclid_GCD a b * b mod 2 ^ 32 else if a < b then b div Euclid_GCD b a * a mod 2 ^ 32 else a)"

definition add_block :: "allocated_block \<Rightarrow> arena \<Rightarrow> arena" where
  "add_block block a =
     (if blocks_alloced a < length (first_blocks a) then
        a\<lparr>first_blocks := (first_blocks a)[blocks_alloced a := block], blocks_alloced := blocks_alloced a + 1\<rparr>
      else
        a\<lparr>overflow_blocks := Some ((case overflow_blocks a of None \<Rightarrow> [] | Some bs \<Rightarrow> bs) @ [block])\<rparr>)"

definition AllocNewBlock :: "'m memory \<Rightarrow> nat \<Rightarrow> nat \<Rightarrow> arena \<times> 'm \<Rightarrow> fault + allocated_block \<times> arena \<times> 'm" where
  "AllocNewBlock A block_size alignment am =
     (let adjusted_alignment = (if alignment > 1 then LeastCommonMultiple alignment kDefaultAlignment else 1) in
      if \<not> adjusted_alignment \<le> 2 ^ 20 then Inl Assertion_failed
      else
        let excess = block_size mod adjusted_alignment;
            adjusted_block_size =
              (if adjusted_alignment > 1 \<and> block_size > adjusted_alignment
               then block_size + (if excess > 0 then adjusted_alignment - excess else 0) else block_size);
            (p, m) = (if adjusted_alignment > 1 then aligned_malloc A adjusted_block_size adjusted_alignment (snd am)
                      else malloc A adjusted_block_size (snd am));
            block = \<lparr>block_mem = p, mem_size = adjusted_block_size\<rparr> in
        if p = 0 then Inl Out_of_memory else Inr (block, add_block block (fst am), m))"

definition MakeNewBlock :: "'m memory \<Rightarrow> nat \<Rightarrow> arena \<times> 'm \<Rightarrow> fault + arena \<times> 'm" where
  "MakeNewBlock A alignment am =
     and_then (AllocNewBlock A (arena_block_size (fst am)) alignment am) (\<lambda>(block, a, m).
     and_then (SatisfyAlignment alignment (a\<lparr>freestart := block_mem block, remaining := mem_size block\<rparr>)) (\<lambda>(ok, a).
     if ok then Inr (a, m) else Inl Assertion_failed))"

definition free_first_block :: "'m memory \<Rightarrow> nat \<Rightarrow> arena \<times> 'm \<Rightarrow> fault + arena \<times> 'm" where
  "free_first_block A i am =
     and_then (free_block A (block_mem (first_blocks (fst am) ! i)) (snd am)) (\<lambda>m.
     Inr ((fst am)\<lparr>first_blocks := (first_blocks (fst am))[i := \<lparr>block_mem = 0, mem_size = 0\<rparr>]\<rparr>, m))"

definition FreeBlocks :: "'m memory \<Rightarrow> arena \<times> 'm \<Rightarrow> fault + arena \<times> 'm" where
  "FreeBlocks A am =
     and_then (for_each [1..<blocks_alloced (fst am)] (free_first_block A) am) (\<lambda>(a, m).
     let a = a\<lparr>blocks_alloced := 1\<rparr> in
     case overflow_blocks a of
       None \<Rightarrow> Inr (a, m)
     | Some bs \<Rightarrow>
         and_then (for_each bs (\<lambda>b. free_block A (block_mem b)) m) (\<lambda>m. Inr (a\<lparr>overflow_blocks := None\<rparr>, m)))"

section \<open>The arena\<close>

definition Reset :: "'m memory \<Rightarrow> arena \<times> 'm \<Rightarrow> fault + arena \<times> 'm" where
  "Reset A am =
     and_then (FreeBlocks A am) (\<lambda>(a, m).
     let a = a\<lparr>freestart := block_mem (first_blocks a ! 0), remaining := mem_size (first_blocks a ! 0)\<rparr> in
     and_then (SatisfyAlignment kDefaultAlignment a) (\<lambda>(ok, a).
     if ok then Inr (a\<lparr>freestart_when_empty := freestart a\<rparr>, m) else Inl Assertion_failed))"

text \<open>What is not set by the constructor is \<open>junk\<close>.\<close>

definition make_arena :: "'m memory \<Rightarrow> allocated_block \<Rightarrow> nat \<Rightarrow> 'm \<Rightarrow> fault + arena \<times> 'm" where
  "make_arena A junk block_size m =
     (if \<not> block_size > kDefaultAlignment then Inl Assertion_failed
      else
        let (p, m) = malloc A block_size m in
        Reset A
          (\<lparr>remaining = 0, arena_block_size = block_size, freestart = 0, freestart_when_empty = block_mem junk, blocks_alloced = 1,
             first_blocks = \<lparr>block_mem = p, mem_size = block_size\<rparr> # replicate 15 junk, overflow_blocks = None\<rparr>, m))"

definition delete_arena :: "'m memory \<Rightarrow> arena \<times> 'm \<Rightarrow> fault + 'm" where
  "delete_arena A am =
     and_then (FreeBlocks A am) (\<lambda>(a, m).
     if overflow_blocks a \<noteq> None then Inl Assertion_failed
     else for_each [0..<blocks_alloced a] (\<lambda>i. free_block A (block_mem (first_blocks a ! i))) m)"

text \<open>\<open>alignment\<close> is an \<open>int\<close>; its conversion to an unsigned type is that of a positive one.\<close>

definition GetMemoryFallback :: "'m memory \<Rightarrow> nat \<Rightarrow> int \<Rightarrow> arena \<times> 'm \<Rightarrow> fault + nat \<times> arena \<times> 'm" where
  "GetMemoryFallback A n alignment am =
     (if n = 0 then Inr (0, am)
      else if \<not> (alignment > 0 \<and> alignment AND (alignment - 1) = 0) then Inl Assertion_failed
      else if arena_block_size (fst am) = 0 \<or> n > arena_block_size (fst am) div 4 then
        and_then (AllocNewBlock A n (nat alignment) am) (\<lambda>(block, am). Inr (block_mem block, am))
      else
        and_then (SatisfyAlignment (nat alignment) (fst am)) (\<lambda>(ok, a).
        and_then (if \<not> ok \<or> n > remaining a then MakeNewBlock A (nat alignment) (a, snd am) else Inr (a, snd am)) (\<lambda>(a, m).
        if \<not> n \<le> remaining a then Inl Assertion_failed
        else Inr (freestart a, a\<lparr>remaining := remaining a - n, freestart := freestart a + n\<rparr>, m))))"

definition GetMemory :: "'m memory \<Rightarrow> nat \<Rightarrow> int \<Rightarrow> arena \<times> 'm \<Rightarrow> fault + nat \<times> arena \<times> 'm" where
  "GetMemory A n align am =
     (let a = fst am in
      if \<not> remaining a \<le> arena_block_size a then Inl Assertion_failed
      else if n > 0 \<and> n < remaining a \<and> align = 1 then
        Inr (freestart a, a\<lparr>freestart := freestart a + n, remaining := remaining a - n\<rparr>, snd am)
      else GetMemoryFallback A n align am)"

definition Alloc :: "'m memory \<Rightarrow> nat \<Rightarrow> arena \<times> 'm \<Rightarrow> fault + nat \<times> arena \<times> 'm" where
  "Alloc A n am = GetMemory A n 1 am"

end
