(* ===== verification/Arena_Laws.thy ===== *)
theory Arena_Laws
  imports Arena
begin

text \<open>
  What an arena keeps: its blocks are live and apart from each other, the regions that it handed out
  lie in them, apart from each other and from the rest of the current block, and deleting it frees
  every block once.
\<close>

section \<open>The memory of the system\<close>

text \<open>
  What is documented of the allocator: it gives a null pointer and allocates nothing, or it gives a
  block that is apart from all that are live, with the alignment that was asked for, if that is one that
  \<open>posix_memalign\<close> takes, and what is live can be freed. \<open>live\<close> gives the sizes of the blocks at their
  addresses.
\<close>

definition apart :: "nat \<times> nat \<Rightarrow> nat \<times> nat \<Rightarrow> bool" where
  "apart r s \<longleftrightarrow> fst r + snd r \<le> fst s \<or> fst s + snd s \<le> fst r"

definition allocated :: "('m \<Rightarrow> nat \<Rightarrow> nat option) \<Rightarrow> nat \<Rightarrow> 'm \<Rightarrow> nat \<times> 'm \<Rightarrow> bool" where
  "allocated live n m pm \<longleftrightarrow> fst pm > 0 \<and> live m (fst pm) = None \<and>
     (\<forall>q k. live m q = Some k \<longrightarrow> apart (fst pm, n) (q, k)) \<and> live (snd pm) = (live m)(fst pm \<mapsto> n)"

definition requested :: "('m \<Rightarrow> nat \<Rightarrow> nat option) \<Rightarrow> nat \<Rightarrow> 'm \<Rightarrow> nat \<times> 'm \<Rightarrow> bool" where
  "requested live n m pm \<longleftrightarrow> (if fst pm = 0 then live (snd pm) = live m else allocated live n m pm)"

definition memory_laws :: "'m memory \<Rightarrow> ('m \<Rightarrow> nat \<Rightarrow> nat option) \<Rightarrow> bool" where
  "memory_laws A live \<longleftrightarrow>
     (\<forall>n m. n > 0 \<longrightarrow> requested live n m (malloc A n m)) \<and>
     (\<forall>k n m. n > 0 \<and> 3 \<le> k \<longrightarrow>
        requested live n m (posix_memalign A (2 ^ k) n m) \<and> 2 ^ k dvd fst (posix_memalign A (2 ^ k) n m)) \<and>
     (\<forall>p n m. live m p = Some n \<longrightarrow> (\<exists>m'. free_block A p m = Inr m' \<and> live m' = (live m)(p := None)))"

lemma memory_lawsD:
  assumes "memory_laws A live"
  shows "n > 0 \<Longrightarrow> requested live n m (malloc A n m)"
    "n > 0 \<Longrightarrow> 3 \<le> k \<Longrightarrow> requested live n m (posix_memalign A (2 ^ k) n m)"
    "n > 0 \<Longrightarrow> 3 \<le> k \<Longrightarrow> 2 ^ k dvd fst (posix_memalign A (2 ^ k) n m)"
    "live m p = Some n \<Longrightarrow> \<exists>m'. free_block A p m = Inr m' \<and> live m' = (live m)(p := None)"
  using assms by (simp_all add: memory_laws_def)

text \<open>The allocator does give null pointers.\<close>

definition gives_null :: "'m memory \<Rightarrow> bool" where
  "gives_null A \<longleftrightarrow> (\<exists>n m. n > 0 \<and> (fst (malloc A n m) = 0 \<or> (\<exists>k\<ge>3. fst (posix_memalign A (2 ^ k) n m) = 0)))"

definition no_memory :: "'m memory \<Rightarrow> fault + 'a \<Rightarrow> bool" where
  "no_memory A r \<longleftrightarrow> r = Inl Out_of_memory \<and> gives_null A"

lemma no_memory_and_then [simp]: "no_memory A r \<Longrightarrow> no_memory A (and_then r f)"
  by (auto simp: no_memory_def)

section \<open>Alignments\<close>

lemma Euclid_gcd: "Euclid_GCD x y = gcd x y"
proof (induction x y rule: Euclid_GCD.induct)
  case (1 x y)
  then show ?case by (subst Euclid_GCD.simps) (simp add: gcd_red_nat [of x y] gcd.commute)
qed

lemma lcm_8: "1 < (2 :: nat) ^ k \<Longrightarrow> k \<le> 20 \<Longrightarrow> LeastCommonMultiple (2 ^ k) kDefaultAlignment = max (2 ^ k) 8"
proof -
  assume k: "1 < (2 :: nat) ^ k" "k \<le> 20"
  have small: "(2 :: nat) ^ k < 2 ^ 32" by (rule power_strict_increasing) (use k(2) in simp_all)
  show ?thesis
  proof (cases "3 < k")
    case True
    then have "(8 :: nat) dvd 2 ^ k" using le_imp_power_dvd [of 3 k "2 :: nat"] by simp
    then have "gcd (2 ^ k) (8 :: nat) = 8" by (simp add: gcd_nat.absorb2)
    moreover have "(8 :: nat) < 2 ^ k" using power_strict_increasing [of 3 k "2 :: nat"] True by simp
    ultimately show ?thesis using small \<open>8 dvd 2 ^ k\<close> by (simp add: LeastCommonMultiple_def kDefaultAlignment_def Euclid_gcd)
  next
    case False
    then have "k = 1 \<or> k = 2 \<or> k = 3" using k(1) by (cases "k = 0") auto
    then show ?thesis by (elim disjE) (simp_all add: LeastCommonMultiple_def kDefaultAlignment_def Euclid_gcd)
  qed
qed

lemma and_below_power: "(p :: nat) AND (2 ^ k - Suc 0) = p mod 2 ^ k"
  by (metis One_nat_def mask_eq_exp_minus_1 take_bit_eq_mask take_bit_eq_mod)

lemma power_of_two_check: "(2 :: int) ^ k AND (2 ^ k - 1) = 0"
  by (metis bits_mod_div_trivial mask_eq_exp_minus_1 mod_self take_bit_eq_mask take_bit_eq_mod)

lemma SatisfyAlignment_aligned: "2 ^ k dvd freestart a \<Longrightarrow> SatisfyAlignment (2 ^ k) a = Inr (True, a)"
  by (simp add: SatisfyAlignment_def and_below_power Let_def)

lemma SatisfyAlignment_cases:
  obtains "SatisfyAlignment (2 ^ k) a = Inr (False, a)"
  | w where "SatisfyAlignment (2 ^ k) a = Inr (True, a\<lparr>freestart := freestart a + w, remaining := remaining a - w\<rparr>)"
      "w \<le> remaining a" "2 ^ k dvd freestart a + w" "w < 2 ^ k"
proof (cases "2 ^ k dvd freestart a")
  case True
  then show thesis by (intro that(2) [of 0]) (simp_all add: SatisfyAlignment_aligned)
next
  case False
  let ?o = "freestart a mod 2 ^ k"
  have o: "0 < ?o" "?o < 2 ^ k" using False by (simp_all add: mod_greater_zero_iff_not_dvd)
  have d: "2 ^ k dvd freestart a + (2 ^ k - ?o)"
  proof -
    have "freestart a + (2 ^ k - ?o) = freestart a div 2 ^ k * 2 ^ k + 2 ^ k"
      using o(2) by (metis add.assoc add_diff_cancel_left' div_mult_mod_eq le_add_diff_inverse nat_less_le)
    then show ?thesis by simp
  qed
  show thesis
  proof (cases "2 ^ k - ?o \<ge> remaining a")
    case True
    then show thesis using o by (intro that(1)) (simp add: SatisfyAlignment_def and_below_power)
  next
    case False
    then show thesis using o d
      by (intro that(2) [of "2 ^ k - ?o"]) (simp_all add: SatisfyAlignment_def and_below_power Let_def)
  qed
qed

section \<open>The blocks of an arena\<close>

definition arena_blocks :: "arena \<Rightarrow> allocated_block list" where
  "arena_blocks a = take (blocks_alloced a) (first_blocks a) @ (case overflow_blocks a of None \<Rightarrow> [] | Some bs \<Rightarrow> bs)"

definition block_pair :: "allocated_block \<Rightarrow> nat \<times> nat" where
  "block_pair b = (block_mem b, mem_size b)"

definition blocks_ok :: "('m \<Rightarrow> nat \<Rightarrow> nat option) \<Rightarrow> (nat \<Rightarrow> nat option) \<Rightarrow> nat \<Rightarrow> arena \<Rightarrow> 'm \<Rightarrow> bool" where
  "blocks_ok live old B a m \<longleftrightarrow>
     length (first_blocks a) = 16 \<and> 1 \<le> blocks_alloced a \<and> blocks_alloced a \<le> 16 \<and>
     (overflow_blocks a \<noteq> None \<longrightarrow> blocks_alloced a = 16) \<and> arena_block_size a = B \<and> mem_size (first_blocks a ! 0) = B \<and>
     distinct (map block_mem (arena_blocks a)) \<and> block_mem ` set (arena_blocks a) \<inter> dom old = {} \<and>
     live m = old ++ map_of (map block_pair (arena_blocks a)) \<and> sorted_wrt apart (map block_pair (arena_blocks a))"

lemma arena_blocks_add: "blocks_ok live old B a m \<Longrightarrow> arena_blocks (add_block b a) = arena_blocks a @ [b]"
  by (auto simp: blocks_ok_def arena_blocks_def add_block_def take_Suc_conv_app_nth split: option.split)

lemma arena_blocks_update [simp]:
  "arena_blocks (a\<lparr>freestart := p\<rparr>) = arena_blocks a" "arena_blocks (a\<lparr>remaining := n\<rparr>) = arena_blocks a"
  "arena_blocks (a\<lparr>freestart_when_empty := p\<rparr>) = arena_blocks a"
  by (simp_all add: arena_blocks_def)

lemma blocks_ok_update [simp]:
  "blocks_ok live old B (a\<lparr>freestart := p\<rparr>) m = blocks_ok live old B a m"
  "blocks_ok live old B (a\<lparr>remaining := n\<rparr>) m = blocks_ok live old B a m"
  "blocks_ok live old B (a\<lparr>freestart_when_empty := p\<rparr>) m = blocks_ok live old B a m"
  by (simp_all add: blocks_ok_def)

lemma blocks_live:
  assumes "blocks_ok live old B a m" "b \<in> set (arena_blocks a)"
  shows "live m (block_mem b) = Some (mem_size b)"
proof -
  have "map_of (map block_pair (arena_blocks a)) (block_mem b) = Some (mem_size b)"
    using assms by (intro map_of_is_SomeI) (auto simp: blocks_ok_def block_pair_def comp_def)
  then show ?thesis using assms(1) by (simp add: blocks_ok_def)
qed

lemma add_block_ok:
  assumes "blocks_ok live old B a m" "allocated live n m (p, m')"
  shows "blocks_ok live old B (add_block \<lparr>block_mem = p, mem_size = n\<rparr> a) m'"
proof -
  let ?b = "\<lparr>block_mem = p, mem_size = n\<rparr>"
  note I = assms(1) [unfolded blocks_ok_def]
  have new: "live m p = None" "\<forall>q k. live m q = Some k \<longrightarrow> apart (p, n) (q, k)" "live m' = (live m)(p \<mapsto> n)"
    using assms(2) by (simp_all add: allocated_def)
  have fresh: "block_mem c \<noteq> p" "apart (block_pair c) (p, n)" if "c \<in> set (arena_blocks a)" for c
    using blocks_live [OF assms(1) that] new(1,2) by (auto simp: apart_def block_pair_def)
  have "p \<notin> dom old" using new(1) I by (auto simp: map_add_def split: option.splits)
  moreover have "live m' = old ++ map_of (map block_pair (arena_blocks a @ [?b]))"
  proof -
    have "map_of (map block_pair (arena_blocks a)) p = None" using fresh(1) by (force simp: map_of_eq_None_iff block_pair_def)
    moreover have "map_of (xs @ [(p, n)]) = (map_of xs)(p \<mapsto> n)" if "map_of xs p = None" for xs :: "(nat \<times> nat) list"
      using that by (auto simp: fun_eq_iff map_add_def split: option.split)
    ultimately show ?thesis using new(3) I by (simp add: block_pair_def)
  qed
  moreover have "distinct (map block_mem (arena_blocks a @ [?b]))" using I fresh(1) by auto
  moreover have "sorted_wrt apart (map block_pair (arena_blocks a @ [?b]))"
    using I fresh(2) by (simp add: sorted_wrt_append block_pair_def)
  moreover have "length (first_blocks (add_block ?b a)) = 16" "1 \<le> blocks_alloced (add_block ?b a)" "blocks_alloced (add_block ?b a) \<le> 16"
    "overflow_blocks (add_block ?b a) \<noteq> None \<longrightarrow> blocks_alloced (add_block ?b a) = 16" "arena_block_size (add_block ?b a) = B"
    "mem_size (first_blocks (add_block ?b a) ! 0) = B"
    using I by (auto simp: add_block_def)
  ultimately show ?thesis using I unfolding blocks_ok_def arena_blocks_add [OF assms(1)] by auto
qed

text \<open>The alignments: those for which a block keeps the size of its arena.\<close>

definition fits :: "nat \<Rightarrow> nat \<Rightarrow> bool" where
  "fits B k \<longleftrightarrow> k \<le> 20 \<and> (k = 0 \<or> B \<le> max (2 ^ k) 8 \<or> max (2 ^ k) 8 dvd B)"

lemma AllocNewBlock_ok:
  assumes "memory_laws A live" "blocks_ok live old B a m" "0 < n" "k \<le> 20"
  obtains "no_memory A (AllocNewBlock A n (2 ^ k) (a, m))"
  | p n' m' where "AllocNewBlock A n (2 ^ k) (a, m) =
      Inr (\<lparr>block_mem = p, mem_size = n'\<rparr>, add_block \<lparr>block_mem = p, mem_size = n'\<rparr> a, m')"
    "blocks_ok live old B (add_block \<lparr>block_mem = p, mem_size = n'\<rparr> a) m'"
    "n \<le> n'" "fits n k \<Longrightarrow> n' = n" "2 ^ k dvd p" "\<And>q s. live m q = Some s \<Longrightarrow> apart (p, n') (q, s)" "live m p = None" "0 < p"
proof -
  define al where "al = (if k = 0 then 1 else max (2 ^ k) 8 :: nat)"
  define n' where "n' = (if al > 1 \<and> n > al then n + (if n mod al > 0 then al - n mod al else 0) else n)"
  define pm where "pm = (if al > 1 then aligned_malloc A n' al m else malloc A n' m)"
  have n': "n \<le> n'" "0 < n'" "fits n k \<Longrightarrow> n' = n" using assms(3) by (auto simp: n'_def al_def fits_def)
  have al: "(if (2 :: nat) ^ k > 1 then LeastCommonMultiple (2 ^ k) kDefaultAlignment else 1) = al"
    using assms(4) lcm_8 [of k] one_less_power [of "2 :: nat" k] by (cases "k = 0") (simp_all add: al_def)
  have small: "al \<le> 2 ^ 20" using assms(4) power_increasing [of k 20 "2 :: nat"] by (auto simp: al_def)
  have al2: "al = 2 ^ max k 3" if "k \<noteq> 0"
    using that power_increasing_iff [of "2 :: nat" k 3] by (auto simp: al_def max_def power_increasing_iff)
  have req: "requested live n' m pm \<and> 2 ^ k dvd fst pm \<and> (fst pm = 0 \<longrightarrow> gives_null A)"
  proof (cases "k = 0")
    case True
    then show ?thesis using memory_lawsD(1) [OF assms(1) n'(2)] n'(2) by (auto simp: pm_def al_def gives_null_def)
  next
    case False
    have "al = 8 * 2 ^ (max k 3 - 3)" using al2 [OF False] power_add [of "2 :: nat" 3 "max k 3 - 3"] by simp
    then have "\<not> al < 8" by simp
    then have pm: "pm = posix_memalign A (2 ^ max k 3) n' m" by (simp add: pm_def aligned_malloc_def al2 [OF False, symmetric])
    have "(2 :: nat) ^ k dvd 2 ^ max k 3" by (intro le_imp_power_dvd) simp
    moreover have "fst pm = 0 \<longrightarrow> gives_null A"
      using n'(2) unfolding pm gives_null_def by (metis max.cobounded2)
    ultimately show ?thesis using memory_lawsD(2,3) [OF assms(1) n'(2), of "max k 3" m] unfolding pm by (meson dvd_trans max.cobounded2)
  qed
  obtain p m' where p: "pm = (p, m')" by (cases pm)
  have result: "AllocNewBlock A n (2 ^ k) (a, m) =
      (if p = 0 then Inl Out_of_memory else Inr (\<lparr>block_mem = p, mem_size = n'\<rparr>, add_block \<lparr>block_mem = p, mem_size = n'\<rparr> a, m'))"
    using small p unfolding AllocNewBlock_def al Let_def n'_def [symmetric] pm_def snd_conv by simp
  show thesis
  proof (cases "p = 0")
    case True
    then show thesis using req by (intro that(1)) (simp add: result p no_memory_def)
  next
    case False
    then have new: "allocated live n' m (p, m')" "2 ^ k dvd p" using req by (simp_all add: requested_def p)
    have "AllocNewBlock A n (2 ^ k) (a, m) = Inr (\<lparr>block_mem = p, mem_size = n'\<rparr>, add_block \<lparr>block_mem = p, mem_size = n'\<rparr> a, m')"
      using False by (simp add: result)
    then show thesis
      by (rule that(2)) (use new n' add_block_ok [OF assms(2) new(1)] in \<open>simp_all add: allocated_def\<close>)
  qed
qed

section \<open>What was handed out\<close>

text \<open>
  A region that was handed out has its address, its size and the exponent of its alignment. It lies in
  a block, and the rest of the current block is apart from it.
\<close>

definition inside :: "nat \<times> nat \<Rightarrow> nat \<times> nat \<Rightarrow> bool" where
  "inside r b \<longleftrightarrow> fst b \<le> fst r \<and> fst r + snd r \<le> fst b + snd b"

definition region :: "nat \<times> nat \<times> nat \<Rightarrow> nat \<times> nat" where
  "region g = (fst g, fst (snd g))"

definition given_ok :: "(nat \<times> nat \<times> nat) list \<Rightarrow> arena \<Rightarrow> bool" where
  "given_ok given a \<longleftrightarrow>
     (\<exists>b\<in>set (arena_blocks a). inside (freestart a, remaining a) (block_pair b)) \<and> remaining a \<le> arena_block_size a \<and>
     (\<forall>g\<in>set given. 0 < fst (snd g) \<and> 2 ^ snd (snd g) dvd fst g \<and> apart (region g) (freestart a, remaining a) \<and>
        (\<exists>b\<in>set (arena_blocks a). inside (region g) (block_pair b))) \<and>
     sorted_wrt apart (map region given)"

lemma apart_sym: "apart r s \<longleftrightarrow> apart s r"
  by (auto simp: apart_def)

lemma apart_inside: "apart b c \<Longrightarrow> inside r b \<Longrightarrow> inside s c \<Longrightarrow> apart r s"
  by (auto simp: apart_def inside_def)

lemma inside_shrink: "inside (p, n) b \<Longrightarrow> k \<le> n \<Longrightarrow> inside (p + k, n - k) b \<and> inside (p, k) b"
  by (auto simp: inside_def)

text \<open>The start of the free part moves on.\<close>

lemma given_skip:
  assumes "given_ok given a" "w \<le> remaining a"
  shows "given_ok given (a\<lparr>freestart := freestart a + w, remaining := remaining a - w\<rparr>)"
proof -
  have apart: "apart r (freestart a + w, remaining a - w)" if "apart r (freestart a, remaining a)" for r
    using that assms(2) by (auto simp: apart_def)
  have "inside (freestart a + w, remaining a - w) b" if "inside (freestart a, remaining a) b" for b
    using that assms(2) by (auto simp: inside_def)
  then have "\<exists>b\<in>set (arena_blocks a). inside (freestart a + w, remaining a - w) (block_pair b)"
    using assms(1) unfolding given_ok_def by blast
  moreover have "remaining a \<le> arena_block_size a" using assms(1) by (simp add: given_ok_def)
  ultimately show ?thesis using assms(1) apart by (simp add: given_ok_def)
qed

text \<open>The first part of the free part is handed out.\<close>

lemma given_take:
  assumes "given_ok given a" "0 < n" "n \<le> remaining a" "2 ^ k dvd freestart a"
  shows "given_ok ((freestart a, n, k) # given) (a\<lparr>remaining := remaining a - n, freestart := freestart a + n\<rparr>)"
proof -
  have "given_ok given (a\<lparr>freestart := freestart a + n, remaining := remaining a - n\<rparr>)"
    by (rule given_skip [OF assms(1,3)])
  moreover have "apart (freestart a, n) (freestart a + n, remaining a - n)" by (simp add: apart_def)
  moreover have "apart (freestart a, n) (region g)" if "g \<in> set given" for g
    using assms(1,3) that by (auto simp: given_ok_def apart_def)
  moreover have "\<exists>b\<in>set (arena_blocks a). inside (freestart a, n) (block_pair b)"
    using assms(1) inside_shrink [OF _ assms(3)] unfolding given_ok_def by blast
  ultimately show ?thesis using assms(2,4) by (simp add: given_ok_def region_def)
qed

text \<open>A block of its own is handed out, or becomes the current one.\<close>

lemma given_new_block:
  assumes "blocks_ok live old B a m" "given_ok given a" "\<And>q s. live m q = Some s \<Longrightarrow> apart (p, n') (q, s)" "inside (p, n) (p, n')"
  shows "g \<in> set given \<Longrightarrow> apart (region g) (p, n)" "apart (p, n) (freestart a, remaining a)"
proof -
  have block: "apart (block_pair b) (p, n')" if "b \<in> set (arena_blocks a)" for b
    using assms(3) [OF blocks_live [OF assms(1) that]] by (simp add: block_pair_def apart_sym)
  show "apart (region g) (p, n)" if "g \<in> set given"
  proof -
    obtain b where "b \<in> set (arena_blocks a)" "inside (region g) (block_pair b)"
      using assms(2) \<open>g \<in> set given\<close> by (auto simp: given_ok_def)
    then show ?thesis using block assms(4) by (blast intro: apart_inside)
  qed
  obtain b where "b \<in> set (arena_blocks a)" "inside (freestart a, remaining a) (block_pair b)"
    using assms(2) by (auto simp: given_ok_def)
  then have "apart (freestart a, remaining a) (p, n)" using block assms(4) by (blast intro: apart_inside)
  then show "apart (p, n) (freestart a, remaining a)" by (simp add: apart_sym)
qed

lemma given_own_block:
  assumes "blocks_ok live old B a m" "given_ok given a" "\<And>q s. live m q = Some s \<Longrightarrow> apart (p, n') (q, s)"
    "0 < n" "n \<le> n'" "2 ^ k dvd p"
  shows "given_ok ((p, n, k) # given) (add_block \<lparr>block_mem = p, mem_size = n'\<rparr> a)"
proof -
  have i: "inside (p, n) (p, n')" using assms(5) by (simp add: inside_def)
  note new = given_new_block [OF assms(1-3) i]
  have same: "freestart (add_block b a) = freestart a" "remaining (add_block b a) = remaining a"
    "arena_block_size (add_block b a) = arena_block_size a" for b
    by (simp_all add: add_block_def)
  show ?thesis using assms(2,4,6) new i apart_sym
    by (auto simp: given_ok_def same arena_blocks_add [OF assms(1)] region_def block_pair_def)
qed

lemma given_next_block:
  assumes "blocks_ok live old B a m" "given_ok given a" "\<And>q s. live m q = Some s \<Longrightarrow> apart (p, n) (q, s)" "n \<le> B"
  shows "given_ok given ((add_block \<lparr>block_mem = p, mem_size = n\<rparr> a)\<lparr>freestart := p, remaining := n\<rparr>)"
proof -
  have i: "inside (p, n) (p, n)" by (simp add: inside_def)
  note new = given_new_block(1) [OF assms(1-3) i]
  have same: "arena_block_size (add_block b a) = B" for b using assms(1) by (simp add: add_block_def blocks_ok_def)
  show ?thesis using assms(2,4) new i by (auto simp: given_ok_def same arena_blocks_add [OF assms(1)] block_pair_def)
qed

section \<open>The operations\<close>

definition arena_ok :: "('m \<Rightarrow> nat \<Rightarrow> nat option) \<Rightarrow> (nat \<Rightarrow> nat option) \<Rightarrow> nat \<Rightarrow> (nat \<times> nat \<times> nat) list \<Rightarrow> arena \<Rightarrow> 'm \<Rightarrow> bool" where
  "arena_ok live old B given a m \<longleftrightarrow> blocks_ok live old B a m \<and> given_ok given a"

lemma MakeNewBlock_ok:
  assumes "memory_laws A live" "arena_ok live old B given a m" "fits B k" "0 < B"
  obtains "no_memory A (MakeNewBlock A (2 ^ k) (a, m))"
  | a' m' where "MakeNewBlock A (2 ^ k) (a, m) = Inr (a', m')" "arena_ok live old B given a' m'" "remaining a' = B" "2 ^ k dvd freestart a'"
proof -
  have I: "blocks_ok live old B a m" "given_ok given a" using assms(2) by (simp_all add: arena_ok_def)
  have B: "arena_block_size a = B" using I(1) by (simp add: blocks_ok_def)
  have "k \<le> 20" using assms(3) by (simp add: fits_def)
  then show thesis
  proof (rule AllocNewBlock_ok [OF assms(1) I(1) assms(4)])
    assume "no_memory A (AllocNewBlock A B (2 ^ k) (a, m))"
    then show thesis by (intro that(1)) (simp add: MakeNewBlock_def B)
  next
    fix p n' m'
    assume new: "AllocNewBlock A B (2 ^ k) (a, m) = Inr (\<lparr>block_mem = p, mem_size = n'\<rparr>, add_block \<lparr>block_mem = p, mem_size = n'\<rparr> a, m')"
      "blocks_ok live old B (add_block \<lparr>block_mem = p, mem_size = n'\<rparr> a) m'" "fits B k \<Longrightarrow> n' = B" "2 ^ k dvd p"
      "\<And>q s. live m q = Some s \<Longrightarrow> apart (p, n') (q, s)"
    let ?a = "(add_block \<lparr>block_mem = p, mem_size = B\<rparr> a)\<lparr>freestart := p, remaining := B\<rparr>"
    have n': "n' = B" by (rule new(3) [OF assms(3)])
    have "MakeNewBlock A (2 ^ k) (a, m) = Inr (?a, m')"
      using new(4) SatisfyAlignment_aligned [of k ?a] by (simp add: MakeNewBlock_def B new(1) n')
    moreover have "given_ok given ?a" by (rule given_next_block [OF I]) (use new(5) n' in simp_all)
    ultimately show thesis using that(2) new(2,4) by (simp add: arena_ok_def n')
  qed
qed

text \<open>A block of its own for a large request.\<close>

lemma own_block_ok:
  assumes "memory_laws A live" "arena_ok live old B given a m" "k \<le> 20" "0 < n"
  obtains "no_memory A (AllocNewBlock A n (2 ^ k) (a, m))"
  | b a' m' where "AllocNewBlock A n (2 ^ k) (a, m) = Inr (b, a', m')" "arena_ok live old B ((block_mem b, n, k) # given) a' m'"
proof -
  have I: "blocks_ok live old B a m" "given_ok given a" using assms(2) by (simp_all add: arena_ok_def)
  show thesis
  proof (rule AllocNewBlock_ok [OF assms(1) I(1) assms(4,3)])
    fix p n' m'
    let ?b = "\<lparr>block_mem = p, mem_size = n'\<rparr>"
    assume new: "AllocNewBlock A n (2 ^ k) (a, m) = Inr (?b, add_block ?b a, m')" "blocks_ok live old B (add_block ?b a) m'"
      "n \<le> n'" "2 ^ k dvd p" "\<And>q s. live m q = Some s \<Longrightarrow> apart (p, n') (q, s)"
    show thesis by (rule that(2) [OF new(1)]) (use new(2) given_own_block [OF I new(5) assms(4) new(3,4)] in \<open>simp add: arena_ok_def\<close>)
  qed (rule that(1))
qed

text \<open>The current block or a new one, aligned, with room enough.\<close>

lemma arena_room_ok:
  assumes "memory_laws A live" "arena_ok live old B given a m" "fits B k" "0 < B" "n \<le> B div 4"
  obtains ok a1 where "SatisfyAlignment (2 ^ k) a = Inr (ok, a1)"
      "no_memory A (if \<not> ok \<or> n > remaining a1 then MakeNewBlock A (2 ^ k) (a1, m) else Inr (a1, m))"
  | ok a1 a2 m2 where "SatisfyAlignment (2 ^ k) a = Inr (ok, a1)"
      "(if \<not> ok \<or> n > remaining a1 then MakeNewBlock A (2 ^ k) (a1, m) else Inr (a1, m)) = Inr (a2, m2)"
      "arena_ok live old B given a2 m2" "n \<le> remaining a2" "2 ^ k dvd freestart a2"
proof (rule SatisfyAlignment_cases [of k a])
  assume no: "SatisfyAlignment (2 ^ k) a = Inr (False, a)"
  show thesis
  proof (rule MakeNewBlock_ok [OF assms(1-4)])
    assume "no_memory A (MakeNewBlock A (2 ^ k) (a, m))"
    then show thesis by (intro that(1) [OF no]) simp
  next
    fix a' m'
    assume "MakeNewBlock A (2 ^ k) (a, m) = Inr (a', m')" "arena_ok live old B given a' m'" "remaining a' = B" "2 ^ k dvd freestart a'"
    then show thesis using assms(5) by (intro that(2) [OF no, of a' m']) simp_all
  qed
next
  fix w
  let ?a = "a\<lparr>freestart := freestart a + w, remaining := remaining a - w\<rparr>"
  assume w: "SatisfyAlignment (2 ^ k) a = Inr (True, ?a)" "w \<le> remaining a" "2 ^ k dvd freestart a + w"
  have ok: "arena_ok live old B given ?a m" using assms(2) given_skip [OF _ w(2)] by (simp add: arena_ok_def)
  show thesis
  proof (cases "n > remaining ?a")
    case True
    show thesis
    proof (rule MakeNewBlock_ok [OF assms(1) ok assms(3,4)])
      assume "no_memory A (MakeNewBlock A (2 ^ k) (?a, m))"
      then show thesis using True by (intro that(1) [OF w(1)]) simp
    next
      fix a' m'
      assume "MakeNewBlock A (2 ^ k) (?a, m) = Inr (a', m')" "arena_ok live old B given a' m'" "remaining a' = B" "2 ^ k dvd freestart a'"
      then show thesis using True assms(5) by (intro that(2) [OF w(1), of a' m']) simp_all
    qed
  next
    case False
    then show thesis using ok w(3) by (intro that(2) [OF w(1), of ?a m]) simp_all
  qed
qed

lemma GetMemoryFallback_ok:
  assumes "memory_laws A live" "arena_ok live old B given a m" "fits B k" "0 < B" "0 < n"
  obtains "no_memory A (GetMemoryFallback A n (2 ^ k) (a, m))"
  | p a' m' where "GetMemoryFallback A n (2 ^ k) (a, m) = Inr (p, a', m')" "arena_ok live old B ((p, n, k) # given) a' m'"
proof -
  have B: "arena_block_size a = B" using assms(2) by (simp add: arena_ok_def blocks_ok_def)
  have k: "k \<le> 20" using assms(3) by (simp add: fits_def)
  have al: "(2 :: int) ^ k > 0 \<and> (2 :: int) ^ k AND (2 ^ k - 1) = 0" "nat ((2 :: int) ^ k) = 2 ^ k"
    using power_of_two_check by (simp_all add: nat_power_eq)
  show thesis
  proof (cases "n > B div 4")
    case True
    have own: "GetMemoryFallback A n (2 ^ k) (a, m) = and_then (AllocNewBlock A n (2 ^ k) (a, m)) (\<lambda>(block, am). Inr (block_mem block, am))"
      using True assms(4,5) al(1) by (simp add: GetMemoryFallback_def B al(2))
    show thesis
    proof (rule own_block_ok [OF assms(1,2) k assms(5)])
      assume "no_memory A (AllocNewBlock A n (2 ^ k) (a, m))"
      then show thesis by (intro that(1)) (simp add: own)
    next
      fix b a' m'
      assume "AllocNewBlock A n (2 ^ k) (a, m) = Inr (b, a', m')" "arena_ok live old B ((block_mem b, n, k) # given) a' m'"
      then show thesis by (intro that(2)) (simp_all add: own)
    qed
  next
    case False
    have part: "GetMemoryFallback A n (2 ^ k) (a, m) =
        and_then (SatisfyAlignment (2 ^ k) a) (\<lambda>(ok, a).
        and_then (if \<not> ok \<or> n > remaining a then MakeNewBlock A (2 ^ k) (a, m) else Inr (a, m)) (\<lambda>(a, m).
        if \<not> n \<le> remaining a then Inl Assertion_failed
        else Inr (freestart a, a\<lparr>remaining := remaining a - n, freestart := freestart a + n\<rparr>, m)))"
      using False assms(4,5) al(1) unfolding GetMemoryFallback_def al(2) fst_conv snd_conv by (simp add: B)
    have small: "n \<le> B div 4" using False by simp
    show thesis
    proof (rule arena_room_ok [OF assms(1-4) small])
      fix ok a1
      assume "SatisfyAlignment (2 ^ k) a = Inr (ok, a1)"
        "no_memory A (if \<not> ok \<or> n > remaining a1 then MakeNewBlock A (2 ^ k) (a1, m) else Inr (a1, m))"
      then show thesis unfolding part by (intro that(1) [unfolded part]) simp
    next
      fix ok a1 a2 m2
      assume r: "SatisfyAlignment (2 ^ k) a = Inr (ok, a1)"
        "(if \<not> ok \<or> n > remaining a1 then MakeNewBlock A (2 ^ k) (a1, m) else Inr (a1, m)) = Inr (a2, m2)"
        "arena_ok live old B given a2 m2" "n \<le> remaining a2" "2 ^ k dvd freestart a2"
      have "GetMemoryFallback A n (2 ^ k) (a, m) =
          Inr (freestart a2, a2\<lparr>remaining := remaining a2 - n, freestart := freestart a2 + n\<rparr>, m2)"
        unfolding part r(1) and_then_simps prod.case r(2) using r(4) by simp
      moreover have "arena_ok live old B ((freestart a2, n, k) # given) (a2\<lparr>remaining := remaining a2 - n, freestart := freestart a2 + n\<rparr>) m2"
        using r(3) given_take [OF _ assms(5) r(4,5)] by (simp add: arena_ok_def)
      ultimately show thesis by (rule that(2))
    qed
  qed
qed

lemma GetMemory_ok:
  assumes "memory_laws A live" "arena_ok live old B given a m" "fits B k" "0 < B" "0 < n"
  obtains "no_memory A (GetMemory A n (2 ^ k) (a, m))"
  | p a' m' where "GetMemory A n (2 ^ k) (a, m) = Inr (p, a', m')" "arena_ok live old B ((p, n, k) # given) a' m'"
proof -
  have I: "blocks_ok live old B a m" "given_ok given a" using assms(2) by (simp_all add: arena_ok_def)
  have le: "remaining a \<le> arena_block_size a" using I(2) by (simp add: given_ok_def)
  show thesis
  proof (cases "n < remaining a \<and> (2 :: int) ^ k = 1")
    case True
    then have k: "k = 0" using one_less_power [of "2 :: int" k] by (cases "k = 0") auto
    have "GetMemory A n (2 ^ k) (a, m) = Inr (freestart a, a\<lparr>remaining := remaining a - n, freestart := freestart a + n\<rparr>, m)"
      using True le assms(5) by (simp add: GetMemory_def k)
    moreover have "given_ok ((freestart a, n, k) # given) (a\<lparr>remaining := remaining a - n, freestart := freestart a + n\<rparr>)"
      by (rule given_take [OF I(2) assms(5)]) (use True k in simp_all)
    ultimately show thesis using that(2) I(1) by (simp add: arena_ok_def)
  next
    case False
    have "GetMemory A n (2 ^ k) (a, m) = GetMemoryFallback A n (2 ^ k) (a, m)" using False le by (auto simp: GetMemory_def)
    then show thesis using GetMemoryFallback_ok [OF assms] that by metis
  qed
qed

section \<open>Freeing\<close>

lemma free_first_blocks_ok:
  assumes "memory_laws A live" "c \<le> length (first_blocks a)"
    "\<forall>i. 0 < i \<and> i < c \<longrightarrow> live m (block_mem (first_blocks a ! i)) \<noteq> None"
    "\<forall>i j. i < j \<and> j < c \<longrightarrow> block_mem (first_blocks a ! i) \<noteq> block_mem (first_blocks a ! j)"
  shows "\<exists>fb m'. for_each [1..<c] (free_first_block A) (a, m) = Inr (a\<lparr>first_blocks := fb\<rparr>, m') \<and>
    length fb = length (first_blocks a) \<and> fb ! 0 = first_blocks a ! 0 \<and> (\<forall>i. c \<le> i \<longrightarrow> fb ! i = first_blocks a ! i) \<and>
    live m' = live m |` (- (\<lambda>i. block_mem (first_blocks a ! i)) ` {1..<c})"
  using assms(2-4)
proof (induction c)
  case 0
  then show ?case by (intro exI [of _ "first_blocks a"] exI [of _ m]) simp
next
  case (Suc c)
  let ?S = "\<lambda>c. (\<lambda>i. block_mem (first_blocks a ! i)) ` {1..<c}"
  from Suc obtain fb m' where IH: "for_each [1..<c] (free_first_block A) (a, m) = Inr (a\<lparr>first_blocks := fb\<rparr>, m')"
    "length fb = length (first_blocks a)" "fb ! 0 = first_blocks a ! 0" "\<forall>i. c \<le> i \<longrightarrow> fb ! i = first_blocks a ! i"
    "live m' = live m |` (- ?S c)" by auto
  show ?case
  proof (cases "c = 0")
    case True
    then show ?thesis by (intro exI [of _ "first_blocks a"] exI [of _ m]) simp
  next
    case False
    let ?p = "block_mem (first_blocks a ! c)"
    obtain n where n: "live m ?p = Some n" using Suc.prems(2) False by auto
    have "?p \<notin> ?S c" using Suc.prems(3) by fastforce
    then have "live m' ?p = Some n" using n IH(5) by simp
    then obtain m'' where m'': "free_block A ?p m' = Inr m''" "live m'' = (live m')(?p := None)"
      using memory_lawsD(4) [OF assms(1)] by blast
    have "?S (Suc c) = insert ?p (?S c)" using False by (auto simp: less_Suc_eq)
    then have "live m'' = live m |` (- ?S (Suc c))" using m''(2) IH(5) by (auto simp: fun_eq_iff restrict_map_def)
    moreover have "for_each [1..<Suc c] (free_first_block A) (a, m) =
        Inr (a\<lparr>first_blocks := fb[c := \<lparr>block_mem = 0, mem_size = 0\<rparr>]\<rparr>, m'')"
      using False IH(4) m''(1) by (simp add: for_each_append IH(1) [unfolded One_nat_def] free_first_block_def)
    ultimately show ?thesis using IH(2-4) False by (intro exI) auto
  qed
qed

lemma free_list_ok:
  assumes "memory_laws A live"
  shows "distinct (map block_mem bs) \<Longrightarrow> \<forall>b\<in>set bs. live m (block_mem b) \<noteq> None \<Longrightarrow>
    \<exists>m'. for_each bs (\<lambda>b. free_block A (block_mem b)) m = Inr m' \<and> live m' = live m |` (- block_mem ` set bs)"
proof (induction bs arbitrary: m)
  case (Cons b bs)
  then obtain m1 where m1: "free_block A (block_mem b) m = Inr m1" "live m1 = (live m)(block_mem b := None)"
    using memory_lawsD(4) [OF assms] by (metis list.set_intros(1) option.exhaust)
  have "block_mem c \<noteq> block_mem b" if "c \<in> set bs" for c using Cons.prems(1) that by (metis distinct.simps(2) imageI list.simps(9) set_map)
  then have "\<forall>c\<in>set bs. live m1 (block_mem c) \<noteq> None" using Cons.prems m1(2) by simp
  with Cons.IH [of m1] Cons.prems(1) obtain m' where
    "for_each bs (\<lambda>b. free_block A (block_mem b)) m1 = Inr m'" "live m' = live m1 |` (- block_mem ` set bs)" by auto
  then show ?case using m1 by (auto simp: fun_eq_iff restrict_map_def)
qed (simp add: restrict_map_def)

definition one_block :: "nat \<Rightarrow> arena \<Rightarrow> bool" where
  "one_block B a \<longleftrightarrow> length (first_blocks a) = 16 \<and> blocks_alloced a = 1 \<and> overflow_blocks a = None \<and>
     arena_block_size a = B \<and> mem_size (first_blocks a ! 0) = B"

lemma blocks_ok_one: "one_block B a \<Longrightarrow> blocks_ok live old B a m \<longleftrightarrow>
    block_mem (first_blocks a ! 0) \<notin> dom old \<and> live m = old(block_mem (first_blocks a ! 0) \<mapsto> B)"
  by (cases "first_blocks a") (auto simp: one_block_def blocks_ok_def arena_blocks_def block_pair_def)

lemma FreeBlocks_ok:
  assumes "memory_laws A live" "blocks_ok live old B a m"
  obtains a' m' where "FreeBlocks A (a, m) = Inr (a', m')" "one_block B a'" "blocks_ok live old B a' m'"
proof -
  note I = assms(2) [unfolded blocks_ok_def]
  let ?fb = "first_blocks a" and ?c = "blocks_alloced a"
  define over where "over = (case overflow_blocks a of None \<Rightarrow> [] | Some bs \<Rightarrow> bs)"
  have blocks: "arena_blocks a = take ?c ?fb @ over" by (simp add: arena_blocks_def over_def)
  have nth: "?fb ! i \<in> set (arena_blocks a)" if "i < ?c" for i
    using that I by (auto simp: blocks in_set_conv_nth intro!: exI [of _ i])
  have "distinct (map block_mem (take ?c ?fb))" using I by (simp add: blocks)
  then have inj: "\<forall>i j. i < j \<and> j < ?c \<longrightarrow> block_mem (?fb ! i) \<noteq> block_mem (?fb ! j)"
    using I by (auto simp: distinct_conv_nth)
  have alive: "\<forall>i. 0 < i \<and> i < ?c \<longrightarrow> live m (block_mem (?fb ! i)) \<noteq> None" using blocks_live [OF assms(2) nth] by simp
  obtain fb m1 where F: "for_each [1..<?c] (free_first_block A) (a, m) = Inr (a\<lparr>first_blocks := fb\<rparr>, m1)"
    "length fb = length ?fb" "fb ! 0 = ?fb ! 0" "live m1 = live m |` (- (\<lambda>i. block_mem (?fb ! i)) ` {1..<?c})"
    using free_first_blocks_ok [OF assms(1) _ alive inj] I by auto
  let ?p = "block_mem (?fb ! 0)" and ?S = "(\<lambda>i. block_mem (?fb ! i)) ` {1..<?c}"
  have apart_over: "block_mem b \<noteq> block_mem (?fb ! i)" if "b \<in> set over" "i < ?c" for b i
  proof -
    have "?fb ! i \<in> set (take ?c ?fb)" using that(2) I by (auto simp: in_set_conv_nth intro!: exI [of _ i])
    moreover have "block_mem ` set (take ?c ?fb) \<inter> block_mem ` set over = {}" using I by (simp add: blocks)
    ultimately show ?thesis using that(1) by blast
  qed
  have alive_over: "\<forall>b\<in>set over. live m1 (block_mem b) \<noteq> None"
  proof
    fix b assume b: "b \<in> set over"
    then have "live m (block_mem b) = Some (mem_size b)" by (intro blocks_live [OF assms(2)]) (simp add: blocks)
    moreover have "block_mem b \<notin> ?S"
    proof
      assume "block_mem b \<in> ?S"
      then obtain i where "i \<in> {1..<?c}" "block_mem b = block_mem (?fb ! i)" by (rule imageE)
      then show False using apart_over [OF b, of i] by simp
    qed
    ultimately show "live m1 (block_mem b) \<noteq> None" by (simp add: F(4))
  qed
  have "distinct (map block_mem over)" using I by (simp add: blocks)
  from free_list_ok [OF assms(1) this alive_over] obtain m2 where
    m2: "for_each over (\<lambda>b. free_block A (block_mem b)) m1 = Inr m2" "live m2 = live m1 |` (- block_mem ` set over)" by blast
  let ?a = "a\<lparr>first_blocks := fb, blocks_alloced := 1, overflow_blocks := None\<rparr>"
  have one: "one_block B ?a" using I F(2,3) by (simp add: one_block_def)
  have "FreeBlocks A (a, m) = Inr (?a, m2)"
  proof (cases "overflow_blocks a")
    case None
    then have "a\<lparr>first_blocks := fb, blocks_alloced := 1\<rparr> = ?a" by (intro arena.equality) simp_all
    with None show ?thesis using m2(1) by (simp add: FreeBlocks_def F(1) [unfolded One_nat_def] over_def Let_def)
  next
    case (Some bs)
    then show ?thesis using m2(1) by (simp add: FreeBlocks_def F(1) [unfolded One_nat_def] over_def Let_def)
  qed
  moreover have "blocks_ok live old B ?a m2"
  proof -
    have p: "?p \<notin> ?S" "?p \<notin> block_mem ` set over" "?p \<notin> dom old" "live m ?p = Some B"
      using inj apart_over [of _ 0] nth [of 0] I blocks_live [OF assms(2) nth [of 0]] by fastforce+
    have rest: "q \<in> ?S \<union> block_mem ` set over \<or> live m q = old q" if "q \<noteq> ?p" for q
    proof (rule disjCI)
      assume no: "live m q \<noteq> old q"
      have "live m q = (old ++ map_of (map block_pair (arena_blocks a))) q" using I by simp
      then have "map_of (map block_pair (arena_blocks a)) q \<noteq> None" using no by (auto simp: map_add_def split: option.splits)
      then obtain b where b: "b \<in> set (arena_blocks a)" "q = block_mem b" by (auto simp: map_of_eq_None_iff block_pair_def)
      then show "q \<in> ?S \<union> block_mem ` set over"
      proof (cases "b \<in> set over")
        case False
        then obtain i where i: "i < ?c" "b = ?fb ! i" using b(1) by (auto simp: blocks in_set_conv_nth)
        have "i \<noteq> 0" using that b(2) i(2) by (cases "i = 0") simp_all
        then show ?thesis using i b(2) by auto
      qed simp
    qed
    have gone: "old q = None" if "q \<in> ?S \<union> block_mem ` set over" for q
    proof -
      have "q \<in> block_mem ` set (arena_blocks a)" using that nth by (auto simp: blocks)
      then show ?thesis using I by (auto simp: disjoint_iff domIff)
    qed
    have "live m2 = old(?p \<mapsto> B)"
    proof (rule ext)
      fix q
      show "live m2 q = (old(?p \<mapsto> B)) q"
        using p rest [of q] gone [of q] by (cases "q = ?p") (auto simp: m2(2) F(4) restrict_map_def)
    qed
    then show ?thesis using p(3) F(3) by (intro iffD2 [OF blocks_ok_one [OF one]]) simp
  qed
  ultimately show thesis using one that by blast
qed

section \<open>The arena as a whole\<close>

lemma Reset_arena_ok:
  assumes "memory_laws A live" "blocks_ok live old B a m" "8 < B"
  obtains a' m' where "Reset A (a, m) = Inr (a', m')" "arena_ok live old B [] a' m'"
proof -
  obtain a1 m1 where F: "FreeBlocks A (a, m) = Inr (a1, m1)" "one_block B a1" "blocks_ok live old B a1 m1"
    by (rule FreeBlocks_ok [OF assms(1,2)])
  let ?b = "first_blocks a1 ! 0"
  let ?a = "a1\<lparr>freestart := block_mem ?b, remaining := mem_size ?b\<rparr>"
  have b: "?b \<in> set (arena_blocks a1)" "mem_size ?b = B" "arena_block_size a1 = B"
    using F(2) by (cases "first_blocks a1"; simp add: one_block_def arena_blocks_def)+
  have given: "given_ok [] ?a" using b by (auto simp: given_ok_def inside_def block_pair_def)
  have al: "kDefaultAlignment = 2 ^ 3" by (simp add: kDefaultAlignment_def)
  show thesis
  proof (rule SatisfyAlignment_cases [of 3 ?a])
    assume no: "SatisfyAlignment (2 ^ 3) ?a = Inr (False, ?a)"
    have "freestart ?a AND 7 = freestart ?a mod 8" using and_below_power [of "freestart ?a" 3] by simp
    then show thesis using no b(2) assms(3) by (auto simp: SatisfyAlignment_def Let_def split: if_splits)
  next
    fix w
    let ?a' = "?a\<lparr>freestart := freestart ?a + w, remaining := remaining ?a - w\<rparr>"
    assume w: "SatisfyAlignment (2 ^ 3) ?a = Inr (True, ?a')" "w \<le> remaining ?a"
    have "Reset A (a, m) = Inr (?a'\<lparr>freestart_when_empty := freestart ?a'\<rparr>, m1)"
      using w(1) unfolding Reset_def F(1) al by simp
    moreover have "given_ok [] (?a'\<lparr>freestart_when_empty := freestart ?a'\<rparr>)"
      using given_skip [OF given w(2)] by (simp add: given_ok_def)
    ultimately show thesis using that F(3) by (simp add: arena_ok_def)
  qed
qed

lemma make_arena_ok:
  assumes "memory_laws A live" "8 < B" "fst (malloc A B m) \<noteq> 0"
  obtains a m' where "make_arena A junk B m = Inr (a, m')" "arena_ok live (live m) B [] a m'"
proof -
  obtain p m1 where p: "malloc A B m = (p, m1)" by (cases "malloc A B m")
  have new: "live m p = None" "live m1 = (live m)(p \<mapsto> B)"
    using memory_lawsD(1) [OF assms(1), of B m] assms(2,3) by (simp_all add: requested_def allocated_def p)
  let ?a = "\<lparr>remaining = 0, arena_block_size = B, freestart = 0, freestart_when_empty = block_mem junk, blocks_alloced = 1,
      first_blocks = \<lparr>block_mem = p, mem_size = B\<rparr> # replicate 15 junk, overflow_blocks = None\<rparr>"
  have one: "one_block B ?a" by (simp add: one_block_def)
  have "blocks_ok live (live m) B ?a m1" 
    by (rule iffD2 [OF blocks_ok_one [OF one]]) (use new in \<open>simp add: domIff\<close>)
  then obtain a' m' where "Reset A (?a, m1) = Inr (a', m')" "arena_ok live (live m) B [] a' m'"
    by (rule Reset_arena_ok [OF assms(1) _ assms(2)])
  then show thesis using that assms(2) by (simp add: make_arena_def kDefaultAlignment_def p)
qed

lemma delete_arena_ok:
  assumes "memory_laws A live" "blocks_ok live old B a m"
  obtains m' where "delete_arena A (a, m) = Inr m'" "live m' = old"
proof -
  obtain a1 m1 where F: "FreeBlocks A (a, m) = Inr (a1, m1)" "one_block B a1" "blocks_ok live old B a1 m1"
    by (rule FreeBlocks_ok [OF assms])
  let ?p = "block_mem (first_blocks a1 ! 0)"
  have l: "?p \<notin> dom old" "live m1 = old(?p \<mapsto> B)" using F(3) by (simp_all add: blocks_ok_one [OF F(2)])
  then obtain m' where "free_block A ?p m1 = Inr m'" "live m' = (live m1)(?p := None)"
    using memory_lawsD(4) [OF assms(1), of m1 ?p B] by auto
  moreover have "(old(?p \<mapsto> B))(?p := None) = old" using l(1) by (auto simp: fun_eq_iff domIff)
  ultimately show thesis using that F(2) l(2) by (simp add: delete_arena_def F(1) one_block_def)
qed

end
