(* ===== verification/Arena_Properties.thy ===== *)
theory Arena_Properties
  imports Arena_Laws
begin

text \<open>
  The property of the arena of \<open>src/base/arena.cc\<close>, for every sequence of calls, and a memory that
  obeys the laws.
\<close>

section \<open>Calls\<close>








section \<open>A memory\<close>











section \<open>The property\<close>



end
