(* ===== verification/Server.thy ===== *)
theory Server
  imports Numbers Ctype Faults
begin

text \<open>
  \<open>src/server/\<close>: the server of cpp-netlib with its chains of handlers. A request goes through the
  handlers of the pre-filters, of its route and of the post-filters; the body of a PUT or POST is read
  before, and the body of the response is sent in pieces. A connection is the list of what was done to it.
  A handler is a parameter that changes the context, and so is \<open>boost::iequals\<close>, which compares the names
  of headers; the calls of the network library to the callbacks that it was given are lists of their
  arguments.
\<close>

section \<open>Methods\<close>

datatype http_verb = UNKNOWN | HEAD | GET | PUT | POST


fun HTTPMethodToString :: "http_verb \<Rightarrow> string" where
  "HTTPMethodToString HEAD = ''HEAD''"
| "HTTPMethodToString GET = ''GET''"
| "HTTPMethodToString PUT = ''PUT''"
| "HTTPMethodToString POST = ''POST''"
| "HTTPMethodToString UNKNOWN = ''UNKNOWN''"

section \<open>Contexts and connections\<close>



section \<open>Handlers\<close>

text \<open>A handler is a pointer; \<open>OnHandle\<close> is virtual.\<close>

definition AddHandler :: "'h option \<Rightarrow> 'h option list \<Rightarrow> 'h option list" where
  "AddHandler x container = (if x \<in> set container then container else x # container)"


definition AddRoute :: "string \<Rightarrow> 'h option \<Rightarrow> (string \<Rightarrow> 'h option option) \<Rightarrow> string \<Rightarrow> 'h option option" where
  "AddRoute path handler routes = (if routes path = None then routes(path \<mapsto> handler) else routes)"


section \<open>The response\<close>

definition kMaxPerSendSize :: nat where
  "kMaxPerSendSize = 4096"






section \<open>The server\<close>



section \<open>Reading a body\<close>




datatype read_error = No_error | Eof | Other_error






text \<open>
  What follows shows that the body of a request is read when a piece ends where its content length says,
  that the handlers see it in their order, and that the body of the response is sent piece by piece.
\<close>

section \<open>The pieces of a response\<close>

function chunks :: "string \<Rightarrow> string list" where
  "chunks s = (if length s \<le> kMaxPerSendSize then [s] else take kMaxPerSendSize s # chunks (drop kMaxPerSendSize s))"
  by pat_completeness auto

termination
  by (relation "measure length") (auto simp: kMaxPerSendSize_def)

declare chunks.simps [simp del]

lemma concat_chunks [simp]: "concat (chunks s) = s"
proof (induction s rule: chunks.induct)
  case (1 s)
  then show ?case by (subst chunks.simps) simp
qed



section \<open>The body of a request\<close>




section \<open>The handlers\<close>







section \<open>The properties\<close>






end
