(* ===== verification/Spec2Isabelle.thy ===== *)
theory Spec2Isabelle
  imports Http_Execute_Safe Http_Url_Safe Table_Properties Encoding_Properties Concurrency_Properties
    Utility_Properties Io_Properties Generator_Properties Text_Properties Container_Properties File_Properties Log_Properties Arena_Properties Server
begin

text \<open>
  A verification of the core of this repository: the library under \<open>src/base\<close>, the log under \<open>src/log\<close>
  and the server under \<open>src/server\<close>. Every definition is a translation of the code that it is named
  after, with the names of the code where HOL allows them; \<open>X_Laws\<close> and the like have the lemmas about the
  theory \<open>X\<close>, and the theories \<open>..._Properties\<close>, this one and \<open>Server\<close> have the properties.

  \<^bold>\<open>Conventions.\<close> A byte is a word of 8 bits, a character of the HTTP parser a \<open>char\<close>. Integers whose
  wrap-around matters are words; others are \<open>nat\<close> or \<open>int\<close> with the bound in the properties. A pointer
  into a text, block or buffer is an offset. What C++ leaves undefined, and what stops the program, is a
  value: \<open>Inl f\<close> with a \<open>fault\<close> of \<open>Prelude\<close> (a read or write outside an array, a failed \<open>assert\<close>,
  \<open>CHECK\<close> or \<open>DCHECK\<close>, a signed overflow, an allocation that fails), so that "no fault" is a theorem. A
  loop that need not end is a \<open>partial_function\<close> with the value \<open>None\<close> where it does not return, and its
  return is a theorem; there is no fuel except where the code bounds the number of its turns itself.
  Threads are inductive step relations on a shared state, a step being what a thread does under one
  hold of the mutex or in one atomic operation, in every interleaving.

  \<^bold>\<open>Parts and how they use each other.\<close>
  \<^item> HTTP parser, \<open>http/c/http_parser.{h,c}\<close>. \<open>Http_Types\<close> has the enumerations, the structs and the
    macros on characters, \<open>Http_Chars\<close> their meaning; \<open>Http_Lines\<close>, \<open>Http_Headers\<close> and \<open>Http_Body\<close> have one
    definition per case of the switch, \<open>Http_Exec\<close> the switch, the reexecution of a byte and the entry
    points; callbacks are functions on the parser. \<open>Http_Frame\<close> shows that each case moves forward and
    what it leaves alone, \<open>Http_Safety\<close>, \<open>Http_Safety_Cases\<close> and \<open>Http_Execute_Safe\<close> the invariant of the
    parser between calls and that every case keeps it. \<open>Http_Url\<close> is the URL parser, \<open>Http_Url_Correct\<close>
    its result on a URL written from parts, \<open>Http_Url_Safe\<close> its bounds.
  \<^item> Encodings: \<open>Coding\<close> (\<open>coding.{h,cc}\<close>, \<open>raw_coding.h\<close>), with the contract of an encoder and its decoder
    as the locale \<open>codec\<close> of \<open>Codec\<close>; \<open>Crc32c\<close> (\<open>hash/crc32c.cc\<close>), compared with division by the
    polynomial bit by bit in \<open>Crc32c_Laws\<close>.
  \<^item> Texts: \<open>Stringpiece\<close>, \<open>Status\<close> (with \<open>errors.h\<close>), \<open>Ctype\<close>, \<open>Str_Util\<close>, \<open>Numbers\<close>, \<open>Scanner\<close>, \<open>Base64\<close> (all of
    \<open>strings/\<close>), \<open>String_Encode\<close> (\<open>string_encode.cc\<close>) and \<open>Path\<close> (\<open>io/path.cc\<close>).
  \<^item> Tables, \<open>io/table/\<close>: \<open>Block_Builder\<close> writes entries with shared prefixes, \<open>Block\<close> is the iterator over
    them, \<open>Format\<close> the handles, the footer and \<open>ReadBlock\<close>, \<open>Table_Builder\<close> the writer of files, \<open>Table\<close> the
    two-level iterator, the opening and the searches. The contract of an iterator is the locale
    \<open>sorted_iterator\<close> of \<open>Iterator\<close>, which the iterators of blocks and of tables interpret.
    \<open>Block_Layout\<close>, \<open>Block_Correct\<close>, \<open>Table_Built\<close> and \<open>Table_Read\<close> have their invariants.
  \<^item> Readers, \<open>io/\<close>: \<open>Buffered\<close> has the loops that \<open>InputBuffer\<close> (\<open>Input_Buffer\<close>) and
    \<open>BufferedInputStream\<close> (\<open>Input_Stream\<close>) share, once, under the locale \<open>buffered_source\<close>; the interface of a
    stream is the locale \<open>input_stream\<close>, that of a file \<open>random_access_file\<close>, which \<open>Linux_File\<close>
    interprets for \<open>LinuxRandomAccessFile::Read\<close>.
  \<^item> Files: \<open>File_System\<close> (\<open>platform/file_system.cc\<close>) has the URIs and the operations that are built from the
    virtual functions of a file system.
  \<^item> Threads, \<open>thread/\<close>: \<open>Thread_Pool\<close>, \<open>Barrier\<close>, and \<open>Parallel_For\<close>, which uses both.
  \<^item> Containers and numbers: \<open>Inlined_Vector\<close> and \<open>Edit_Distance\<close> (\<open>gtl/\<close>), \<open>Bitmap\<close>, \<open>Arena\<close>,
    \<open>Weighted_Picker\<close> and \<open>Philox\<close> (\<open>random/\<close>).
  \<^item> Log: \<open>Log_Database\<close> (\<open>log/leveldb_database.cc\<close>), with keys of \<open>String_Encode\<close>.
  \<^item> Server: \<open>Server\<close> (\<open>src/server\<close>), the way of a request through the reader of its body, the chains of
    handlers and the writer of the response.

  \<^bold>\<open>What is shown.\<close>
  \<^item> Containers, tables, logs and readers refine something simple, for every sequence of operations: the
    iterators a cursor in the list of pairs, a table its list of pairs, a log a finite map, the readers a
    position in the bytes of the file, \<open>Bitmap\<close>, \<open>InlinedVector\<close> and \<open>WeightedPicker\<close> lists.
  \<^item> Safety: the HTTP parser has no fault in any call of any reachable parser; the pool loses no task, and
    its threads come to rest; \<open>Wait\<close> of a barrier does not return early, and it returns; an arena hands
    out regions that are apart, or stops at its check.
  \<^item> Round trips of URLs, numbers, varints, escapes, base64, hexadecimal text, UTF-8 and URIs; the
    equality of optimised routines with references (CRC, parsers of integers, \<open>CleanPath\<close>); the detection
    of a damaged byte; the return of the loops on system calls and of rejection sampling.
  \<^item> Errors of the code, each as a property with the state that shows it: a read behind a damaged block,
    a URL structure that is not cleared, a parallel loop without an alignment, tasks that are scheduled
    while a pool goes away, negative numbers in a log, an element inserted into its own vector, the rows
    that \<open>LevenshteinDistance\<close> swaps too early, a first block that an arena does not check.

  \<^bold>\<open>Bounds and hypotheses.\<close> The fields of a URL are 16 bits wide, so URLs have at most 65535 bytes; the
  port is read by \<open>strtoul\<close> up to a byte that is not a digit, so what follows the URL is part of the model.
  Offsets in a block are 32 bits wide: the pairs of a table take less than \<open>2 ^ 32\<close> bytes, by an upper
  estimate of their encoding, and the file of a search of arbitrary content at most \<open>2 ^ 33\<close>. A vector has
  less than \<open>2 ^ 31\<close> elements, a barrier as many calls. \<open>size_t\<close> is 64 bits wide; texts whose length the
  code keeps in an \<open>int\<close> (\<open>Base64\<close>, \<open>Path\<close>) are shorter than 2 GB and are lists without a bound here.
  \<open>InlinedVector\<close> is that of a little-endian machine. A buffer has one byte or more. Compression (\<open>Snappy\<close>), \<open>pread\<close>, the allocator of the system, leveldb, the
  virtual functions of a file system, the cost model of a parallel loop, \<open>boost::iequals\<close> and the network
  library are parameters. Their laws are named (\<open>preads\<close>, \<open>memory_laws\<close>, \<open>leveldb_laws\<close>, \<open>random_access_file\<close>,
  \<open>input_stream\<close>), say what their documentation says (an allocation may give a null pointer,
  \<open>posix_memalign\<close> takes alignments from 8 on) and have an instance in a witness.

  \<^bold>\<open>What is not modelled.\<close> \<open>http/http_parser.cc\<close> is a copy of the C file. What computes with floating-point
  numbers (the distributions, \<open>histogram\<close>, \<open>math_util\<close>, doubles in \<open>numbers.cc\<close>) and what only calls other
  libraries (\<open>zlib\<close>, \<open>printf\<close>, the encryptor, \<open>env\<close> and the rest of the Linux file system, monitoring and its
  generated code, \<open>ini.c\<close>) is left aside, as are reference counts and wrappers of the standard library. Of
  the server the locks and the life times of its objects are not modelled.
\<close>

section \<open>Callbacks, parsers and URLs for the witnesses\<close>

definition silent_settings :: "nat http_parser_settings" where
  "silent_settings =
     \<lparr>on_message_begin = (\<lambda>P. (0, P\<lparr>user_data := user_data P + 1\<rparr>)),
      on_url = (\<lambda>P s. (0, P\<lparr>user_data := user_data P + length s\<rparr>)),
      on_header_field = (\<lambda>P s. (0, P)), on_header_value = (\<lambda>P s. (0, P)),
      on_headers_complete = (\<lambda>P n. (0, P)),
      on_body = (\<lambda>P s. (0, P\<lparr>user_data := user_data P + length s\<rparr>)),
      on_message_complete = (\<lambda>P. (0, P)), on_reason = (\<lambda>P s. (0, P)),
      on_chunk_header = (\<lambda>P. (0, P)), on_chunk_complete = (\<lambda>P. (0, P))\<rparr>"

definition fresh_parser :: "nat http_parser" where
  "fresh_parser =
     http_parser_init
       \<lparr>parser_type = HTTP_BOTH, flags = 0, state = s_dead, header_state = h_general, index = 7,
        nread = 9, content_length = 12, http_major = 0, http_minor = 0, status_code = 0,
        req_method = HTTP_GET, http_errno = HPE_UNKNOWN, upgrade = True, user_data = 0\<rparr>
       HTTP_REQUEST"

lemma silent_polite: "polite silent_settings"
proof -
  have "polite_cb (\<lambda>P. on_data silent_settings F P s)" for F s
    by (cases F) (simp_all add: polite_cb_def keeps_parser_def silent_settings_def)
  then show ?thesis
    by (simp add: polite_def polite_cb_def keeps_parser_def silent_settings_def)
qed

lemma fresh_reachable: "reachable silent_settings fresh_parser"
  unfolding fresh_parser_def by (rule reachable.init) (simp add: int64_ok_def INT64_MAX_def)

definition sample_url :: url_parts where
  "sample_url = \<lparr>up_schema = ''http'', up_userinfo = Some ''me'', up_host = ''::1'', up_v6 = True,
     up_port = Some ''8080'', up_path = Some ''/p'', up_query = Some ''q=1'', up_fragment = Some ''f''\<rparr>"

lemma sample_url_ok: "url_parts_ok sample_url" "write_url sample_url = ''http://me@[::1]:8080/p?q=1#f''"
  by (simp_all add: sample_url_def url_parts_ok_def write_url_def write_authority_def write_host_def
      optional_def decimal_def query_char_def fragment_char_def IS_URL_CHAR_iff IS_ALPHA_iff
      IS_NUM_def IS_HEX_iff IS_USERINFO_CHAR_def IS_ALPHANUM_def ord_def)

definition dirty_url :: http_parser_url where
  "dirty_url = \<lparr>field_set = 7, port = 9, field_off = (\<lambda>_. 1), field_len = (\<lambda>_. 2)\<rparr>"

section \<open>The properties of the HTTP parser\<close>

text \<open>
  C1. Safety: with callbacks that leave the parser alone, every call on every parser
  that \<open>http_parser_init\<close>, \<open>http_parser_execute\<close> and \<open>http_parser_pause\<close> can produce
  returns. No assertion fails, no byte outside the buffer is read, no signed addition
  overflows.
\<close>

theorem execute_is_safe:
  assumes "polite S" "reachable S P"
  shows "\<exists>n P'. http_parser_execute S P buf = Inr (n, P') \<and> n \<le> max 1 (length buf)"
  using execute_keeps_inv [OF assms(1) reachable_inv [OF assms], of buf] by blast

theorem execute_is_safe_witness:
  "\<exists>n P'. http_parser_execute silent_settings fresh_parser ''GET'' = Inr (n, P') \<and> n \<le> 3"
  using execute_is_safe [OF silent_polite fresh_reachable, of "''GET''"]
  by (simp add: numeral_3_eq_3)

text \<open>
  C2. Round trip of URLs: a URL written down from its parts is accepted, whatever the
  result structure held before, and every field of the result is the part again; the
  port is its decimal value. What follows the URL in memory must begin with a byte that
  is not a digit, since the port is read to the first such byte.
\<close>

theorem parse_url_roundtrip:
  fixes x u c rest
  assumes "url_parts_ok x" "length (write_url x) \<le> 65535" "\<not> IS_NUM c"
  defines "mem \<equiv> write_url x @ c # rest"
  shows "\<exists>u'. http_parser_parse_url mem (length (write_url x)) False u = Inr (0, u') \<and>
    read_field mem u' UF_SCHEMA = Some (up_schema x) \<and>
    read_field mem u' UF_USERINFO = up_userinfo x \<and>
    read_field mem u' UF_HOST = Some (up_host x) \<and>
    read_field mem u' UF_PORT = up_port x \<and>
    read_field mem u' UF_PATH = up_path x \<and>
    read_field mem u' UF_QUERY = up_query x \<and>
    read_field mem u' UF_FRAGMENT = up_fragment x \<and>
    unat (port u') = (case up_port x of None \<Rightarrow> 0 | Some t \<Rightarrow> decimal 0 t)"
proof -
  note read = read_result_fields [OF assms(2), of "c # rest" "u\<lparr>port := 0\<rparr>"]
  have "decimal 0 t \<le> 65535" if "up_port x = Some t" for t
    using assms(1) that by (simp add: url_parts_ok_def)
  moreover have "port (result_fields x (u\<lparr>port := 0, field_set := 0\<rparr>)) = 0"
    by (rule port_of_result) simp
  ultimately show ?thesis
    using parse_written_url [OF assms(1-3), of rest u] read
    by (cases "up_port x") (simp_all add: mem_def unat_16)
qed

theorem parse_url_roundtrip_witness:
  "\<exists>u'. http_parser_parse_url (write_url sample_url @ [NUL]) (length (write_url sample_url)) False
      dirty_url = Inr (0, u') \<and>
    read_field (write_url sample_url @ [NUL]) u' UF_HOST = Some ''::1'' \<and> unat (port u') = 8080"
proof -
  have num: "\<not> IS_NUM NUL" by (simp add: IS_NUM_def ord_def)
  have len: "length (write_url sample_url) \<le> 65535" by (simp add: sample_url_ok(2))
  have "decimal 0 ''8080'' = 8080" by (simp add: decimal_def ord_def)
  moreover have "up_port sample_url = Some ''8080''" "up_host sample_url = ''::1''"
    by (simp_all add: sample_url_def)
  ultimately show ?thesis
    using parse_url_roundtrip [OF sample_url_ok(1) len num, where u = dirty_url and rest = "[]"]
    by (metis option.simps(5))
qed

text \<open>A structure whose entry for the host is left from another URL.\<close>

definition stale_url :: http_parser_url where
  "stale_url = \<lparr>field_set = 0, port = 0, field_off = (\<lambda>_. 9), field_len = (\<lambda>_. 1)\<rparr>"

lemma reads_outside: "(case r of Inl f \<Rightarrow> f = Out_of_bounds | Inr _ \<Rightarrow> False) \<Longrightarrow> r = Inl Out_of_bounds"
  by (simp split: sum.splits)

lemma stale_host: "http_parser_parse_url (''http'' @ [NUL]) 4 False stale_url = Inl Out_of_bounds"
  by (rule reads_outside) code_simp

text \<open>
  C3. Safety of the URL parser: on any bytes of a URL of at most 65535 bytes, with a byte that is
  not a digit behind it in the memory and a host entry that lies in the URL on entry (that of a
  zeroed structure does), the call returns 0 or 1 without reading outside the memory, and the
  fields of an accepted URL lie inside it. The entry matters: for the URL \<open>http\<close>, which has no
  host, \<open>http_parse_host\<close> goes by the entry it finds and reads outside the memory where that is
  left from a longer URL.
\<close>

theorem parse_url_is_safe:
  assumes "n \<le> 65535" "n \<le> k" "k < length mem" "\<not> IS_NUM (mem ! k)"
    and "unat (field_off u UF_HOST) + unat (field_len u UF_HOST) \<le> n"
  shows "(\<exists>r u'. http_parser_parse_url mem n is_connect u = Inr (r, u') \<and> r \<in> {0, 1} \<and>
      (r = 0 \<longrightarrow> (\<forall>uf. has_field uf u' \<longrightarrow> unat (field_off u' uf) + unat (field_len u' uf) \<le> n))) \<and>
    http_parser_parse_url (''http'' @ [NUL]) 4 False stale_url = Inl Out_of_bounds"
  using parse_url_inside [OF assms(1-4), of u is_connect] assms(5) stale_host
  by (auto simp: fields_inside_def field_end_def)

theorem parse_url_is_safe_witness:
  "\<exists>r u'. http_parser_parse_url (''//x'' @ [NUL]) 3 True dirty_url = Inr (r, u') \<and> r \<in> {0, 1}"
proof -
  have "\<not> IS_NUM ((''//x'' @ [NUL]) ! 3)" by (simp add: IS_NUM_def ord_def numeral_3_eq_3)
  from parse_url_is_safe [OF _ _ _ this, of 3 dirty_url True] show ?thesis
    by (simp add: dirty_url_def [THEN arg_cong [of _ _ field_off]] dirty_url_def
        [THEN arg_cong [of _ _ field_len]]) blast
qed

text \<open>
  C4. A call that does not read the whole buffer has a reason: an error is set, or the
  connection is upgraded.
\<close>

theorem execute_stops_early_for_a_reason:
  assumes "polite S" "reachable S P" "http_parser_execute S P buf = Inr (n, P')" "n \<noteq> length buf"
  shows "http_errno P' \<noteq> HPE_OK \<or> upgrade P'"
  using execute_keeps_inv [OF assms(1) reachable_inv [OF assms(1,2)], of buf] assms(3,4) by auto

lemma rejected_byte:
  "\<exists>P'. http_parser_execute silent_settings fresh_parser ''!'' = Inr (0, P')"
  by (simp add: http_parser_execute_def execute_data_def fresh_parser_def http_parser_init_def
      initial_exec_def execute_loop.simps execute_byte.simps switch_state_def case_s_pre_start_req_def
      case_s_start_req_def CALLBACK_NOTIFY_NOADVANCE_def CALLBACK_NOTIFY_RET_def after_callback_def
      silent_settings_def sync_def update_parser_def reset_message_def IS_ALPHA_iff ord_def
      fail_with_def at_error_def set_errno_def RETURN_def)

theorem execute_stops_early_for_a_reason_witness:
  "\<exists>P'. http_parser_execute silent_settings fresh_parser ''!'' = Inr (0, P') \<and>
    (http_errno P' \<noteq> HPE_OK \<or> upgrade P')"
  using rejected_byte execute_stops_early_for_a_reason [OF silent_polite fresh_reachable, of "''!''" 0]
  by auto

end
